(* ===== verification/Prelude.thy ===== *)
theory Prelude
  imports Main "HOL-Library.Word" "HOL-Library.Multiset"
begin

text \<open>
  Shared vocabulary of the development: the machine integer types of the C++ sources, the
  loop combinators the models are written with, the byte order helpers of
  \<^verbatim>\<open>src/core/miner.h\<close> with their round trips, and the generic lemmas on lists and words the
  component theories use.
\<close>

unbundle bit_operations_syntax

section \<open>Types and fact collections\<close>

type_synonym u8 = "8 word"
type_synonym u32 = "32 word"
type_synonym u64 = "64 word"

named_theorems len_simps "lengths of the arrays the operations return"
named_theorems layout_simps "positions of the fields of a fixed layout"
named_theorems word_bounds "bounds on values read off machine words"

section \<open>Loops\<close>

text \<open>
  \<open>for_up n body s\<close> is \<^verbatim>\<open>for (i = 0; i < n; i++) body\<close> over the state \<open>s\<close>;
  \<open>for_fail\<close> is the same loop where the body may leave the function early.
\<close>

definition for_up :: "nat \<Rightarrow> (nat \<Rightarrow> 's \<Rightarrow> 's) \<Rightarrow> 's \<Rightarrow> 's" where
  "for_up n body s = fold body [0..<n] s"

fun fold_fail :: "('a \<Rightarrow> 's \<Rightarrow> 's option) \<Rightarrow> 'a list \<Rightarrow> 's \<Rightarrow> 's option" where
  "fold_fail f [] s = Some s"
| "fold_fail f (x # xs) s = (case f x s of None \<Rightarrow> None | Some s' \<Rightarrow> fold_fail f xs s')"

definition for_fail :: "nat \<Rightarrow> (nat \<Rightarrow> 's \<Rightarrow> 's option) \<Rightarrow> 's \<Rightarrow> 's option" where
  "for_fail n body s = fold_fail body [0..<n] s"

lemma for_up_0 [simp]: "for_up 0 body s = s"
  by (simp add: for_up_def)

lemma for_up_Suc: "for_up (Suc n) body s = body n (for_up n body s)"
  by (simp add: for_up_def)

lemma for_up_invariant:
  assumes "P 0 s" and "\<And>i s. i < n \<Longrightarrow> P i s \<Longrightarrow> P (Suc i) (body i s)"
  shows "P n (for_up n body s)"
  using assms by (induction n) (auto simp: for_up_Suc)

lemma for_up_cong:
  assumes "\<And>i s. i < n \<Longrightarrow> f i s = g i s"
  shows "for_up n f s = for_up n g s"
  using assms by (induction n) (auto simp: for_up_Suc)

lemma for_up_relate:
  assumes "R 0 s t" and "\<And>i s t. i < n \<Longrightarrow> R i s t \<Longrightarrow> R (Suc i) (f i s) (g i t)"
  shows "R n (for_up n f s) (for_up n g t)"
  using assms by (induction n) (auto simp: for_up_Suc)

lemma fold_invariant_list:
  assumes "P s" and "\<And>x s. x \<in> set xs \<Longrightarrow> P s \<Longrightarrow> P (f x s)"
  shows "P (fold f xs s)"
  using assms by (induction xs arbitrary: s) auto

lemma fold_fail_append:
  "fold_fail f (xs @ ys) s =
     (case fold_fail f xs s of None \<Rightarrow> None | Some s' \<Rightarrow> fold_fail f ys s')"
  by (induction xs arbitrary: s) (auto split: option.splits)

lemma for_fail_0 [simp]: "for_fail 0 body s = Some s"
  by (simp add: for_fail_def)

lemma for_fail_Suc:
  "for_fail (Suc n) body s =
     (case for_fail n body s of None \<Rightarrow> None | Some s' \<Rightarrow> body n s')"
  by (simp add: for_fail_def fold_fail_append split: option.splits)

lemma for_fail_invariant:
  assumes "for_fail n body s = Some t"
    and "P 0 s" and "\<And>i s s'. i < n \<Longrightarrow> P i s \<Longrightarrow> body i s = Some s' \<Longrightarrow> P (Suc i) s'"
  shows "P n t"
  using assms by (induction n arbitrary: t) (auto simp: for_fail_Suc split: option.splits)

lemma for_fail_total:
  assumes "P 0 s" and "\<And>i s. i < n \<Longrightarrow> P i s \<Longrightarrow> \<exists>s'. body i s = Some s' \<and> P (Suc i) s'"
  shows "\<exists>t. for_fail n body s = Some t \<and> P n t"
  using assms
proof (induction n)
  case (Suc n)
  then obtain t where t: "for_fail n body s = Some t" "P n t" by auto
  from Suc.prems(2) [OF lessI t(2)] t(1) show ?case by (auto simp: for_fail_Suc)
qed simp

text \<open>
  The relational step of a loop that may fail: related states give related results, and a
  failure on one side is a failure on the other.
\<close>

lemma for_fail_relate:
  assumes "R s t"
    and "\<And>i s t. i < n \<Longrightarrow> R s t \<Longrightarrow> rel_option R (f i s) (g i t)"
  shows "rel_option R (for_fail n f s) (for_fail n g t)"
  using assms(2)
proof (induction n)
  case (Suc n)
  have "rel_option R (for_fail n f s) (for_fail n g t)" by (rule Suc.IH) (simp add: Suc.prems)
  then show ?case
    by (cases rule: option.rel_cases) (simp_all add: for_fail_Suc Suc.prems)
qed (simp add: assms(1))

text \<open>A loop that stores one element per iteration, each at its own index.\<close>

lemma length_for_up_update [len_simps]:
  "length (for_up n (\<lambda>i xs. xs[p i := f i]) xs) = length xs"
  by (induction n) (auto simp: for_up_Suc)

lemma nth_for_up_tabulate:
  assumes "n \<le> length xs" and "i < length xs"
  shows "for_up n (\<lambda>i xs. xs[i := f i]) xs ! i = (if i < n then f i else xs ! i)"
  using assms
  by (induction n) (auto simp: for_up_Suc nth_list_update len_simps less_Suc_eq)

lemma for_up_tabulate:
  assumes "length xs = n"
  shows "for_up n (\<lambda>i xs. xs[i := f i]) xs = map f [0..<n]"
  by (rule nth_equalityI) (auto simp: assms len_simps nth_for_up_tabulate)

text \<open>Blocks of equal length, laid end to end and cut out again.\<close>

lemma concat_blocks_length:
  "(\<And>x. x \<in> set xss \<Longrightarrow> length x = k) \<Longrightarrow> length (concat xss) = length xss * k"
  by (induction xss) auto

lemma concat_block:
  assumes "\<And>x. x \<in> set xss \<Longrightarrow> length x = k" "i < length xss"
  shows "take k (drop (i * k) (concat xss)) = xss ! i"
  using assms
proof (induction xss arbitrary: i)
  case (Cons x xss)
  then show ?case by (cases i) auto
qed simp

text \<open>Writing inside one buffer of several is writing inside the memory they make together.\<close>

lemma concat_update:
  assumes "i < length xss" "k + length ys \<le> length (xss ! i)"
  shows "concat (xss[i := take k (xss ! i) @ ys @ drop (k + length ys) (xss ! i)]) =
    take (length (concat (take i xss)) + k) (concat xss) @ ys @
    drop (length (concat (take i xss)) + k + length ys) (concat xss)"
proof -
  let ?a = "take i xss" and ?x = "xss ! i" and ?b = "drop (Suc i) xss"
  have x: "xss = ?a @ ?x # ?b" using assms(1) by (rule id_take_nth_drop)
  have c: "concat xss = concat ?a @ ?x @ concat ?b" by (subst x) (simp del: append_take_drop_id)
  have "concat (xss[i := z]) = concat ?a @ z @ concat ?b" for z
    using assms(1) by (simp add: upd_conv_take_nth_drop)
  then show ?thesis using assms(2) unfolding c by simp
qed

lemma length_concat_take:
  assumes "i < length xss"
  shows "length (concat (take (Suc i) xss)) = length (concat (take i xss)) + length (xss ! i)"
  using assms by (simp add: take_Suc_conv_app_nth)

lemma length_concat_map: "map length xss = map length yss \<Longrightarrow> length (concat xss) = length (concat yss)"
  by (simp add: length_concat)

section \<open>Words\<close>

lemma unat_mod_less [word_bounds]:
  fixes a b :: "'a::len word"
  assumes "0 < unat b"
  shows "unat (a mod b) < unat b"
  by (simp add: assms unat_mod_distrib)

lemma word_mod_less:
  fixes a b :: "'a::len word"
  assumes "b \<noteq> 0"
  shows "a mod b < b"
  using assms by (simp add: word_less_nat_alt unat_mod_distrib unat_gt_0)

lemma unat_u32_less [simp]: "unat (w :: u32) < 4294967296"
  using unsigned_less [of w, where ?'a = nat] by simp

lemma unat_u64_less [simp]: "unat (w :: u64) < 18446744073709551616"
  using unsigned_less [of w, where ?'a = nat] by simp

lemma unat_of_nat_small:
  assumes "n < 2 ^ LENGTH('a)"
  shows "unat (of_nat n :: 'a::len word) = n"
  using assms by (simp add: unat_of_nat take_bit_nat_eq_self)

lemma unat_of_nat_u32 [simp]: "n < 4294967296 \<Longrightarrow> unat (of_nat n :: u32) = n"
  by (rule unat_of_nat_small) simp

lemma unat_of_nat_u64 [simp]: "n < 18446744073709551616 \<Longrightarrow> unat (of_nat n :: u64) = n"
  by (rule unat_of_nat_small) simp

lemma unat_add_exact:
  fixes a b :: "'a::len word"
  assumes "unat a + unat b < 2 ^ LENGTH('a)"
  shows "unat (a + b) = unat a + unat b"
  using assms by (simp add: unat_word_ariths)

lemma unat_mult_exact:
  fixes a b :: "'a::len word"
  assumes "unat a * unat b < 2 ^ LENGTH('a)"
  shows "unat (a * b) = unat a * unat b"
  using assms by (simp add: unat_word_ariths)

lemma unat_sub_exact:
  fixes a b :: "'a::len word"
  assumes "b \<le> a"
  shows "unat (a - b) = unat a - unat b"
  using assms by (simp add: unat_sub word_le_nat_alt)

lemma unat_ucast_u32 [simp]: "unat (ucast (w :: u32) :: u64) = unat w"
proof -
  have "unat w < 4294967296" by (rule unat_u32_less)
  then have "unat w < 18446744073709551616" by linarith
  then show ?thesis by (simp add: unsigned_ucast_eq take_bit_nat_eq_self)
qed

section \<open>Byte order: src/core/miner.h\<close>

text \<open>A word as the four bytes it is written to, and four bytes read back as a word.\<close>

definition be32enc :: "u32 \<Rightarrow> u8 list" where
  "be32enc x = [ucast (drop_bit 24 x AND 0xff), ucast (drop_bit 16 x AND 0xff),
                ucast (drop_bit 8 x AND 0xff), ucast (x AND 0xff)]"

definition le32enc :: "u32 \<Rightarrow> u8 list" where
  "le32enc x = [ucast (x AND 0xff), ucast (drop_bit 8 x AND 0xff),
                ucast (drop_bit 16 x AND 0xff), ucast (drop_bit 24 x AND 0xff)]"

definition be32dec :: "u8 list \<Rightarrow> u32" where
  "be32dec p = ucast (p ! 3) + push_bit 8 (ucast (p ! 2)) +
               push_bit 16 (ucast (p ! 1)) + push_bit 24 (ucast (p ! 0))"

definition le32dec :: "u8 list \<Rightarrow> u32" where
  "le32dec p = ucast (p ! 0) + push_bit 8 (ucast (p ! 1)) +
               push_bit 16 (ucast (p ! 2)) + push_bit 24 (ucast (p ! 3))"

lemma length_be32enc [simp, len_simps]: "length (be32enc x) = 4"
  by (simp add: be32enc_def)

lemma length_le32enc [simp, len_simps]: "length (le32enc x) = 4"
  by (simp add: le32enc_def)

lemma and_ff_u8 [simp]: "(ucast (x AND 0xff) :: u8) = ucast (x :: u32)"
proof -
  have "x AND 0xff = take_bit 8 x" by (simp add: take_bit_eq_mask mask_eq_exp_minus_1)
  then show ?thesis by (auto intro!: bit_word_eqI simp: bit_simps)
qed
definition join4 :: "u8 \<Rightarrow> u8 \<Rightarrow> u8 \<Rightarrow> u8 \<Rightarrow> u32" where
  "join4 a b c d = ucast a + push_bit 8 (ucast b) + push_bit 16 (ucast c) + push_bit 24 (ucast d)"

lemma bit_join4:
  "bit (join4 a b c d) n = (if n < 8 then bit a n else if n < 16 then bit b (n - 8)
     else if n < 24 then bit c (n - 16) else n < 32 \<and> bit d (n - 24))"
proof -
  have 1: "ucast a + push_bit 8 (ucast b) = (ucast a OR push_bit 8 (ucast b) :: u32)"
    by (rule disjunctive_add) (auto simp: bit_simps dest: bit_imp_le_length)
  have 2: "ucast a + push_bit 8 (ucast b) + push_bit 16 (ucast c) =
     (ucast a OR push_bit 8 (ucast b) OR push_bit 16 (ucast c) :: u32)"
    unfolding 1 by (subst disjunctive_add) (auto simp: bit_simps or.assoc dest: bit_imp_le_length)
  have 3: "join4 a b c d =
     (ucast a OR push_bit 8 (ucast b) OR push_bit 16 (ucast c) OR push_bit 24 (ucast d) :: u32)"
    unfolding join4_def 2 by (subst disjunctive_add) (auto simp: bit_simps or.assoc dest: bit_imp_le_length)
  show ?thesis unfolding 3 by (auto simp: bit_simps not_less dest: bit_imp_le_length)
qed

lemma join4_split: "join4 (ucast x) (ucast (drop_bit 8 x)) (ucast (drop_bit 16 x)) (ucast (drop_bit 24 x)) = x"
  by (rule bit_word_eqI) (auto simp: bit_join4 bit_simps)

lemma be32dec_be32enc [simp]: "be32dec (be32enc x) = x"
  using join4_split [of x] by (simp add: be32enc_def be32dec_def join4_def)
lemma le32dec_le32enc [simp]: "le32dec (le32enc x) = x"
  using join4_split [of x] by (simp add: le32enc_def le32dec_def join4_def)

lemma split_join4 [simp]:
  "(ucast (join4 a b c d) :: u8) = a"
  "(ucast (drop_bit 8 (join4 a b c d)) :: u8) = b"
  "(ucast (drop_bit 16 (join4 a b c d)) :: u8) = c"
  "(ucast (drop_bit 24 (join4 a b c d)) :: u8) = d"
  by (rule bit_word_eqI, simp add: bit_simps bit_join4)+

lemma list4_cases:
  assumes "length p = 4"
  obtains a b c d where "p = [a, b, c, d]"
  using assms by (auto simp: length_Suc_conv numeral_eq_Suc)

lemma be32enc_be32dec [simp]:
  assumes "length p = 4"
  shows "be32enc (be32dec p) = p"
  using assms
  by (cases rule: list4_cases) (simp add: be32enc_def be32dec_def flip: join4_def)

lemma le32enc_le32dec [simp]:
  assumes "length p = 4"
  shows "le32enc (le32dec p) = p"
  using assms
  by (cases rule: list4_cases) (simp add: le32enc_def le32dec_def flip: join4_def)
end
