(* ===== verification/Interfaces.thy ===== *)
theory Interfaces
  imports Prelude
begin

text \<open>
  The interfaces more than one component relies on, each stated as the operations a client calls
  and the laws their provider promises. The providers interpret them on their own definitions.
\<close>

section \<open>A cache that keeps one value and the key it was built for\<close>

text \<open>
  \<open>request k a s\<close> asks for the value of key \<open>k\<close> in state \<open>s\<close>; \<open>a\<close> says whether the memory
  a rebuild needs can be had. \<open>valid s\<close> is what the provider keeps true of its state.
\<close>

locale keyed_cache =
  fixes request :: "'k \<Rightarrow> bool \<Rightarrow> 's \<Rightarrow> 'v option \<times> 's"
    and built :: "'k \<Rightarrow> 'v"
    and valid :: "'s \<Rightarrow> bool"
  assumes valid_request: "valid s \<Longrightarrow> valid (snd (request k a s))"
    and request_value: "valid s \<Longrightarrow> fst (request k a s) = Some v \<Longrightarrow> v = built k"
    and request_served: "valid s \<Longrightarrow> a \<Longrightarrow> fst (request k a s) \<noteq> None"
    and request_repeat:
      "valid s \<Longrightarrow> fst (request k a s) = Some v \<Longrightarrow> fst (request k a' (snd (request k a s))) \<noteq> None"
begin

lemma valid_history:
  "valid s \<Longrightarrow> valid (fold (\<lambda>(k, a) s. snd (request k a s)) ks s)"
  by (induction ks arbitrary: s) (auto simp: valid_request split: prod.split)

lemma request_after_history:
  assumes "valid s"
  shows "fst (request k True (fold (\<lambda>(k, a) s. snd (request k a s)) ks s)) = Some (built k)"
proof -
  let ?t = "fold (\<lambda>(k, a) s. snd (request k a s)) ks s"
  have t: "valid ?t" by (rule valid_history [OF assms])
  obtain v where "fst (request k True ?t) = Some v"
    using request_served [OF t, of True k] by blast
  then show ?thesis using request_value [OF t] by blast
qed

lemma request_answer:
  assumes "valid s"
  shows "fst (request k a s) \<in> {None, Some (built k)}"
  using request_value [OF assms, of k a] by (cases "fst (request k a s)") auto

lemma request_again:
  assumes "valid s" "fst (request k a s) = Some v"
  shows "fst (request k a' (snd (request k a s))) = Some v"
proof -
  have v: "v = built k" by (rule request_value [OF assms])
  obtain w where w: "fst (request k a' (snd (request k a s))) = Some w"
    using request_repeat [OF assms] by blast
  have "w = built k" by (rule request_value [OF valid_request [OF assms(1)] w])
  then show ?thesis using v w by simp
qed

end

section \<open>A producer of the bytes a key names\<close>

text \<open>
  \<open>produce key offset n\<close> is asked for \<open>n\<close> bytes and may refuse. What it answers for a key that
  is \<open>known\<close> are the bytes of \<open>content key\<close> at those places, so it does not matter how its client
  cuts the ranges up.
\<close>

locale byte_source =
  fixes produce :: "'k \<Rightarrow> nat \<Rightarrow> nat \<Rightarrow> u8 list option"
    and content :: "'k \<Rightarrow> nat \<Rightarrow> u8"
    and known :: "'k \<Rightarrow> bool"
  assumes produce_bytes:
    "known key \<Longrightarrow> produce key offset n = Some bs \<Longrightarrow> offset + n < 2 ^ 64 \<Longrightarrow> bs = map (content key) [offset..<offset + n]"
begin

lemma produce_length:
  assumes "known key" "produce key offset n = Some bs" "offset + n < 2 ^ 64"
  shows "length bs = n"
  unfolding produce_bytes [OF assms] by simp

lemma produce_split:
  assumes "known key" "produce key offset m = Some xs" "produce key (offset + m) n = Some ys"
    "produce key offset (m + n) = Some zs" and small: "offset + m + n < 2 ^ 64"
  shows "zs = xs @ ys"
proof -
  have "offset + m < 2 ^ 64" "offset + (m + n) < 2 ^ 64" using small by linarith+
  then have "xs = map (content key) [offset..<offset + m]"
    "ys = map (content key) [offset + m..<offset + m + n]"
    "zs = map (content key) [offset..<offset + (m + n)]"
    using produce_bytes assms by blast+
  moreover have "[offset..<offset + m + n] = [offset..<offset + m] @ [offset + m..<offset + m + n]"
    by (rule upt_add_eq_append) simp
  ultimately show ?thesis by (simp add: add.assoc)
qed

end

section \<open>A bounded queue of jobs given to a device\<close>

text \<open>
  \<open>put d s\<close> gives a job, which may be refused; \<open>get c s\<close> waits for the oldest and answers what came
  of it, or nothing where that cannot be had. \<open>held s\<close> are the jobs outstanding, oldest first.
  A refused put may leave the provider only \<open>draining\<close>: it goes on answering, and is ready for
  another put once everything outstanding has been answered for.
\<close>

locale dispatch_queue =
  fixes put :: "'d \<Rightarrow> 's \<Rightarrow> bool \<times> 's"
    and get :: "'c \<Rightarrow> 's \<Rightarrow> 'r option \<times> 's"
    and held :: "'s \<Rightarrow> 'j list"
    and job :: "'d \<Rightarrow> 's \<Rightarrow> 'j"
    and answer :: "'c \<Rightarrow> 'j \<Rightarrow> 'r"
    and depth :: "'s \<Rightarrow> nat"
    and ready :: "'s \<Rightarrow> bool"
    and draining :: "'s \<Rightarrow> bool"
  assumes ready_draining: "ready s \<Longrightarrow> draining s"
    and drained_ready: "draining s \<Longrightarrow> held s = [] \<Longrightarrow> ready s"
    and held_depth: "draining s \<Longrightarrow> length (held s) \<le> depth s"
    and put_taken: "ready s \<Longrightarrow> put d s = (True, s') \<Longrightarrow>
      held s' = held s @ [job d s] \<and> ready s' \<and> depth s' = depth s"
    and put_refused: "ready s \<Longrightarrow> put d s = (False, s') \<Longrightarrow>
      held s' = held s \<and> draining s' \<and> depth s' = depth s"
    and get_oldest: "draining s \<Longrightarrow> held s = j # js \<Longrightarrow> get c s = (r, s') \<Longrightarrow>
      held s' = js \<and> (r = None \<or> r = Some (answer c j)) \<and> draining s' \<and> (ready s \<longrightarrow> ready s') \<and> depth s' = depth s"
begin

text \<open>Taking everything out, one answer per job.\<close>

primrec drain :: "'c list \<Rightarrow> 's \<Rightarrow> 'r option list \<times> 's" where
  "drain [] s = ([], s)"
| "drain (c # cs) s = (let (r, s) = get c s; (rs, s) = drain cs s in (r # rs, s))"

lemma drain_answers:
  assumes "draining s" "length cs = length (held s)" "drain cs s = (rs, s')"
  shows "held s' = []" "ready s'" "depth s' = depth s"
    "list_all2 (\<lambda>r (c, j). r = None \<or> r = Some (answer c j)) rs (zip cs (held s))"
proof -
  have "held s' = [] \<and> ready s' \<and> depth s' = depth s \<and>
      list_all2 (\<lambda>r (c, j). r = None \<or> r = Some (answer c j)) rs (zip cs (held s))"
    using assms
  proof (induction cs arbitrary: s rs)
    case Nil
    then show ?case using drained_ready by simp
  next
    case (Cons c cs)
    then obtain j js where h: "held s = j # js" by (cases "held s") auto
    obtain r s1 where g: "get c s = (r, s1)" by (metis surj_pair)
    obtain qs s2 where d: "drain cs s1 = (qs, s2)" by (metis surj_pair)
    note o = get_oldest [OF Cons.prems(1) h g]
    have e: "rs = r # qs" "s' = s2" using Cons.prems(3) by (simp_all add: g d)
    have "held s' = [] \<and> ready s' \<and> depth s' = depth s1 \<and>
        list_all2 (\<lambda>r (c, j). r = None \<or> r = Some (answer c j)) qs (zip cs (held s1))"
      using Cons.IH [of s1 qs] o Cons.prems(2) h d e by simp
    then show ?case using o h e by simp
  qed
  then show "held s' = []" "ready s'" "depth s' = depth s"
    "list_all2 (\<lambda>r (c, j). r = None \<or> r = Some (answer c j)) rs (zip cs (held s))" by simp_all
qed

text \<open>A put is taken only while there is room.\<close>

lemma put_accepted_room:
  assumes "ready s" "put d s = (True, s')"
  shows "length (held s) < depth s"
  using put_taken [OF assms] ready_draining [of s'] held_depth [of s'] by simp

end

end
