(* ===== verification/Progpow_Params.thy ===== *)
theory Progpow_Params
  imports Prelude
begin

text \<open>
  \<^verbatim>\<open>algorithms/progpow/progpow_params.{h,cpp}\<close>: the record of constants that separates one
  ProgPoW fork from another, the five forks, and the lookup by name. \<open>wf_params\<close> is the
  well-formedness the generator, the hash and the epoch arithmetic rely on; every fork of the
  table has it.
\<close>

section \<open>The parameter record\<close>

record params =
  p_name :: string
  epoch_length :: u32
  period_length :: u32
  regs :: u32
  cache_ops :: u32
  math_ops :: u32
  rounds :: u32
  dagchange_epoch :: u32
  dag_epoch_mul :: u32
  dag_full_off :: u32
  max_epoch :: u32
  seal_seed :: "u32 list"
  seal_final :: "u32 list"

definition kSealSeedWords :: nat where "kSealSeedWords = 15"
definition kSealFinalWords :: nat where "kSealFinalWords = 9"

section \<open>The forks\<close>

definition kKawpow :: params where
  "kKawpow = \<lparr>
     p_name = ''kawpow'', epoch_length = 7500, period_length = 3, regs = 32,
     cache_ops = 11, math_ops = 18, rounds = 64, dagchange_epoch = 0, dag_epoch_mul = 1,
     dag_full_off = 0, max_epoch = 700,
     seal_seed = [0x72, 0x41, 0x56, 0x45, 0x4e, 0x43, 0x4f, 0x49, 0x4e, 0x4b, 0x41, 0x57,
                  0x50, 0x4f, 0x57],
     seal_final = [0x72, 0x41, 0x56, 0x45, 0x4e, 0x43, 0x4f, 0x49, 0x4e]\<rparr>"

definition kMeowpow :: params where
  "kMeowpow = \<lparr>
     p_name = ''meowpow'', epoch_length = 7500, period_length = 6, regs = 16,
     cache_ops = 6, math_ops = 9, rounds = 64, dagchange_epoch = 110, dag_epoch_mul = 4,
     dag_full_off = 0, max_epoch = 400,
     seal_seed = [0x4d, 0x45, 0x4f, 0x57, 0x43, 0x4f, 0x49, 0x4e, 0x4d, 0x45, 0x4f, 0x57,
                  0x50, 0x4f, 0x57],
     seal_final = [0x4d, 0x45, 0x4f, 0x57, 0x43, 0x4f, 0x49, 0x4e, 0x4d]\<rparr>"

definition kEvrprogpow :: params where
  "kEvrprogpow = \<lparr>
     p_name = ''evrprogpow'', epoch_length = 12000, period_length = 3, regs = 32,
     cache_ops = 11, math_ops = 18, rounds = 64, dagchange_epoch = 0, dag_epoch_mul = 1,
     dag_full_off = 256, max_epoch = 260,
     seal_seed = [0x45, 0x56, 0x52, 0x4d, 0x4f, 0x52, 0x45, 0x2d, 0x50, 0x52, 0x4f, 0x47,
                  0x50, 0x4f, 0x57],
     seal_final = [0x45, 0x56, 0x52, 0x4d, 0x4f, 0x52, 0x45, 0x2d, 0x50]\<rparr>"

definition kFiropow :: params where
  "kFiropow = \<lparr>
     p_name = ''firopow'', epoch_length = 1300, period_length = 1, regs = 32,
     cache_ops = 11, math_ops = 18, rounds = 64, dagchange_epoch = 0, dag_epoch_mul = 1,
     dag_full_off = 64, max_epoch = 1350,
     seal_seed = [0x00000001, 0, 0, 0, 0, 0, 0, 0, 0x80008081, 0, 0, 0, 0, 0, 0],
     seal_final = [0, 0x00000001, 0, 0, 0, 0, 0, 0, 0x80008081]\<rparr>"

definition kMeraki :: params where
  "kMeraki = \<lparr>
     p_name = ''meraki'', epoch_length = 27500, period_length = 3, regs = 32,
     cache_ops = 12, math_ops = 5, rounds = 32, dagchange_epoch = 0, dag_epoch_mul = 1,
     dag_full_off = 0, max_epoch = 80,
     seal_seed = [0x72, 0x41, 0x56, 0x45, 0x4e, 0x43, 0x4f, 0x49, 0x4e, 0x4b, 0x41, 0x57,
                  0x50, 0x4f, 0x57],
     seal_final = [0x72, 0x41, 0x56, 0x45, 0x4e, 0x43, 0x4f, 0x49, 0x4e]\<rparr>"

definition kForks :: "params list" where
  "kForks = [kKawpow, kMeowpow, kEvrprogpow, kFiropow, kMeraki]"

lemmas fork_defs = kKawpow_def kMeowpow_def kEvrprogpow_def kFiropow_def kMeraki_def

text \<open>\<^verbatim>\<open>progpow::find\<close>: the null pointer is \<open>None\<close>, both as argument and as answer.\<close>

definition find_fork :: "string option \<Rightarrow> params option" where
  "find_fork name = (case name of None \<Rightarrow> None
     | Some n \<Rightarrow> List.find (\<lambda>fork. p_name fork = n) kForks)"

section \<open>Well-formedness\<close>

text \<open>The program layout's maxima, \<^verbatim>\<open>progpow_program.h\<close> lines 37--52.\<close>

definition kLanes :: nat where "kLanes = 16"
definition kMaxRegs :: nat where "kMaxRegs = 32"
definition kMaxCacheOps :: nat where "kMaxCacheOps = 12"
definition kMaxMathOps :: nat where "kMaxMathOps = 18"
definition kMaxRounds :: nat where "kMaxRounds = 64"
definition kDagLoads :: nat where "kDagLoads = 4"
definition kL1Words :: nat where "kL1Words = 16 * 1024 div 4"

definition wf_params :: "params \<Rightarrow> bool" where
  "wf_params p \<longleftrightarrow>
     2 \<le> unat (regs p) \<and> unat (regs p) \<le> kMaxRegs \<and>
     unat (cache_ops p) \<le> kMaxCacheOps \<and> unat (math_ops p) \<le> kMaxMathOps \<and>
     unat (rounds p) \<le> kMaxRounds \<and>
     epoch_length p \<noteq> 0 \<and> period_length p \<noteq> 0 \<and>
     length (seal_seed p) = kSealSeedWords \<and> length (seal_final p) = kSealFinalWords"

lemma wf_forks: "\<forall>p \<in> set kForks. wf_params p"
  by (simp add: kForks_def wf_params_def fork_defs kSealSeedWords_def kSealFinalWords_def
      kMaxRegs_def kMaxCacheOps_def kMaxMathOps_def kMaxRounds_def)

lemma wf_kKawpow [simp]: "wf_params kKawpow"
  using wf_forks by (simp add: kForks_def)

lemma kKawpow_shape [simp]:
  "regs kKawpow = 32" "cache_ops kKawpow = 11" "math_ops kKawpow = 18" "rounds kKawpow = 64"
  "period_length kKawpow = 3" "epoch_length kKawpow = 7500"
  by (simp_all add: kKawpow_def)

lemma wf_params_regs:
  assumes "wf_params p"
  shows "2 \<le> unat (regs p)" and "unat (regs p) \<le> 32" and "regs p \<noteq> 0"
  using assms by (auto simp: wf_params_def kMaxRegs_def)

end
