(* ===== verification/Progpow_Program.thy ===== *)
theory Progpow_Program
  imports Progpow_Params
begin

text \<open>
  \<^verbatim>\<open>algorithms/progpow/progpow_program.{h,cpp}\<close>: FNV-1a, the KISS99 generator, the layout of a
  period's program, and \<^verbatim>\<open>build_program\<close>, which draws that program off one KISS99 stream.

  The generator's local variables are the record \<open>gen\<close>; \<open>next_dst\<close> and \<open>next_src\<close> are the two
  lambdas. The first group of lemmas says what each word of a built program is in terms of the
  generator's state at the step that drew it (\<open>gen_at\<close>); the second uses it for the properties
  the interpreters rely on: registers in range, two different sources to a math operation,
  zeros outside the fork's shape, and every destination named once per pass.
\<close>

section \<open>The source of randomness\<close>

definition kFnvPrime :: u32 where "kFnvPrime = 0x01000193"
definition kFnvOffsetBasis :: u32 where "kFnvOffsetBasis = 0x811c9dc5"

definition fnv1a :: "u32 \<Rightarrow> u32 \<Rightarrow> u32" where
  "fnv1a u v = (u XOR v) * kFnvPrime"

record kiss99 =
  k_z :: u32
  k_w :: u32
  k_jsr :: u32
  k_jcong :: u32

definition kiss99_next :: "kiss99 \<Rightarrow> u32 \<times> kiss99" where
  "kiss99_next k =
     (let z = 36969 * (k_z k AND 0xffff) + drop_bit 16 (k_z k);
          w = 18000 * (k_w k AND 0xffff) + drop_bit 16 (k_w k);
          jcong = 69069 * k_jcong k + 1234567;
          jsr0 = k_jsr k XOR push_bit 17 (k_jsr k);
          jsr1 = jsr0 XOR drop_bit 13 jsr0;
          jsr = jsr1 XOR push_bit 5 jsr1
      in (((push_bit 16 z + w) XOR jcong) + jsr,
          \<lparr>k_z = z, k_w = w, k_jsr = jsr, k_jcong = jcong\<rparr>))"

section \<open>The layout of a program\<close>

definition kCacheWords :: nat where "kCacheWords = 3"
definition kMathWords :: nat where "kMathWords = 5"
definition kDagWords :: nat where "kDagWords = 2"

definition kCacheBase :: nat where "kCacheBase = 0"
definition kMathBase :: nat where "kMathBase = kCacheBase + kMaxCacheOps * kCacheWords"
definition kDagBase :: nat where "kDagBase = kMathBase + kMaxMathOps * kMathWords"
definition kProgramWords :: nat where "kProgramWords = kDagBase + kDagLoads * kDagWords"

lemmas layout_defs = kCacheWords_def kMathWords_def kDagWords_def kCacheBase_def kMathBase_def
  kDagBase_def kProgramWords_def kMaxCacheOps_def kMaxMathOps_def kDagLoads_def

lemma kProgramWords_134 [layout_simps]: "kProgramWords = 134"
  by (simp add: layout_defs)

definition names_a_register :: "nat \<Rightarrow> bool" where
  "names_a_register i =
     (if i < kMathBase then (i - kCacheBase) mod kCacheWords < 2
      else if i < kDagBase then
        (let field = (i - kMathBase) mod kMathWords in field = 0 \<or> field = 1 \<or> field = 3)
      else (i - kDagBase) mod kDagWords = 0)"

definition period_of :: "params \<Rightarrow> u64 \<Rightarrow> u64" where
  "period_of p block_height = block_height div ucast (period_length p)"

section \<open>The generator\<close>

record gen =
  g_rng :: kiss99
  g_dst_seq :: "u32 list"
  g_src_seq :: "u32 list"
  g_dst_counter :: u32
  g_src_counter :: u32

definition draw :: "gen \<Rightarrow> u32 \<times> gen" where
  "draw g = (let (v, r) = kiss99_next (g_rng g) in (v, g\<lparr>g_rng := r\<rparr>))"

definition next_dst :: "params \<Rightarrow> gen \<Rightarrow> u32 \<times> gen" where
  "next_dst p g = (g_dst_seq g ! unat (g_dst_counter g mod regs p),
                   g\<lparr>g_dst_counter := g_dst_counter g + 1\<rparr>)"

definition next_src :: "params \<Rightarrow> gen \<Rightarrow> u32 \<times> gen" where
  "next_src p g = (g_src_seq g ! unat (g_src_counter g mod regs p),
                   g\<lparr>g_src_counter := g_src_counter g + 1\<rparr>)"

definition swap_at :: "'a list \<Rightarrow> nat \<Rightarrow> nat \<Rightarrow> 'a list" where
  "swap_at xs a b = (let t = xs ! a in (xs[a := xs ! b])[b := t])"

text \<open>One iteration of the shuffle, \<open>i\<close> counting down from \<open>regs\<close> to 2.\<close>

definition shuffle_step :: "nat \<Rightarrow> gen \<Rightarrow> gen" where
  "shuffle_step i g =
     (let (v, g1) = draw g;
          d = unat (v mod of_nat i);
          g2 = g1\<lparr>g_dst_seq := swap_at (g_dst_seq g1) (i - 1) d\<rparr>;
          (v', g3) = draw g2;
          s = unat (v' mod of_nat i)
      in g3\<lparr>g_src_seq := swap_at (g_src_seq g3) (i - 1) s\<rparr>)"

definition gen_seed :: "u64 \<Rightarrow> kiss99" where
  "gen_seed period =
     (let lo = ucast period; hi = ucast (drop_bit 32 period);
          z = fnv1a kFnvOffsetBasis lo; w = fnv1a z hi;
          jsr = fnv1a w lo; jcong = fnv1a jsr hi
      in \<lparr>k_z = z, k_w = w, k_jsr = jsr, k_jcong = jcong\<rparr>)"

definition gen_init :: "params \<Rightarrow> u64 \<Rightarrow> gen" where
  "gen_init p period =
     (let n = unat (regs p); ident = map of_nat [0..<n]
      in fold shuffle_step (rev [2..<Suc n])
           \<lparr>g_rng = gen_seed period, g_dst_seq = ident, g_src_seq = ident,
            g_dst_counter = 0, g_src_counter = 0\<rparr>)"

text \<open>What one step draws: a cache operation, a math operation, a DAG merge.\<close>

definition cache_draw :: "params \<Rightarrow> gen \<Rightarrow> (u32 \<times> u32 \<times> u32) \<times> gen" where
  "cache_draw p g =
     (let (src, g1) = next_src p g; (dst, g2) = next_dst p g1; (sel, g3) = draw g2
      in ((src, dst, sel), g3))"

definition math_draw :: "params \<Rightarrow> gen \<Rightarrow> (u32 \<times> u32 \<times> u32 \<times> u32 \<times> u32) \<times> gen" where
  "math_draw p g =
     (let (v, g1) = draw g;
          src_rnd = v mod (regs p * (regs p - 1));
          src1 = src_rnd mod regs p;
          src2 = src_rnd div regs p;
          src2 = (if src2 \<ge> src1 then src2 + 1 else src2);
          (sel1, g2) = draw g1; (dst, g3) = next_dst p g2; (sel2, g4) = draw g3
      in ((src1, src2, sel1, dst, sel2), g4))"

definition dag_draw :: "params \<Rightarrow> nat \<Rightarrow> gen \<Rightarrow> (u32 \<times> u32) \<times> gen" where
  "dag_draw p i g =
     (let (dst, g1) = (if i = 0 then (0, g) else next_dst p g); (sel, g2) = draw g1
      in ((dst, sel), g2))"

definition steps_of :: "params \<Rightarrow> nat" where
  "steps_of p = unat (if cache_ops p > math_ops p then cache_ops p else math_ops p)"

text \<open>Writing an operation at its place: \<^verbatim>\<open>op[0] = \<dots>; op[1] = \<dots>\<close>.\<close>

definition put_cache :: "u32 list \<Rightarrow> nat \<Rightarrow> u32 \<times> u32 \<times> u32 \<Rightarrow> u32 list" where
  "put_cache w i = (\<lambda>(src, dst, sel).
     let op = kCacheBase + i * kCacheWords in w[op := src, op + 1 := dst, op + 2 := sel])"

definition put_math :: "u32 list \<Rightarrow> nat \<Rightarrow> u32 \<times> u32 \<times> u32 \<times> u32 \<times> u32 \<Rightarrow> u32 list" where
  "put_math w i = (\<lambda>(src1, src2, sel1, dst, sel2).
     let op = kMathBase + i * kMathWords
     in w[op := src1, op + 1 := src2, op + 2 := sel1, op + 3 := dst, op + 4 := sel2])"

definition put_dag :: "u32 list \<Rightarrow> nat \<Rightarrow> u32 \<times> u32 \<Rightarrow> u32 list" where
  "put_dag w i = (\<lambda>(dst, sel).
     let op = kDagBase + i * kDagWords in w[op := dst, op + 1 := sel])"

definition cache_step :: "params \<Rightarrow> nat \<Rightarrow> gen \<times> u32 list \<Rightarrow> gen \<times> u32 list" where
  "cache_step p i gw =
     (if i < unat (cache_ops p) then
        let (op, g') = cache_draw p (fst gw) in (g', put_cache (snd gw) i op)
      else gw)"

definition math_step :: "params \<Rightarrow> nat \<Rightarrow> gen \<times> u32 list \<Rightarrow> gen \<times> u32 list" where
  "math_step p i gw =
     (if i < unat (math_ops p) then
        let (op, g') = math_draw p (fst gw) in (g', put_math (snd gw) i op)
      else gw)"

definition gen_step :: "params \<Rightarrow> nat \<Rightarrow> gen \<times> u32 list \<Rightarrow> gen \<times> u32 list" where
  "gen_step p i gw = math_step p i (cache_step p i gw)"

definition dag_step :: "params \<Rightarrow> nat \<Rightarrow> gen \<times> u32 list \<Rightarrow> gen \<times> u32 list" where
  "dag_step p i gw =
     (let (op, g') = dag_draw p i (fst gw) in (g', put_dag (snd gw) i op))"

definition build_program :: "params \<Rightarrow> u64 \<Rightarrow> u32 list" where
  "build_program p period =
     snd (for_up kDagLoads (dag_step p)
            (for_up (steps_of p) (gen_step p)
               (gen_init p period, replicate kProgramWords 0)))"

section \<open>Lemmas: the generator's state\<close>

definition gen_mid :: "params \<Rightarrow> nat \<Rightarrow> gen \<Rightarrow> gen" where
  "gen_mid p i g = (if i < unat (cache_ops p) then snd (cache_draw p g) else g)"

definition gen_next :: "params \<Rightarrow> nat \<Rightarrow> gen \<Rightarrow> gen" where
  "gen_next p i g =
     (if i < unat (math_ops p) then snd (math_draw p (gen_mid p i g)) else gen_mid p i g)"

primrec gen_at :: "params \<Rightarrow> u64 \<Rightarrow> nat \<Rightarrow> gen" where
  "gen_at p period 0 = gen_init p period"
| "gen_at p period (Suc i) = gen_next p i (gen_at p period i)"

primrec dag_at :: "params \<Rightarrow> u64 \<Rightarrow> nat \<Rightarrow> gen" where
  "dag_at p period 0 = gen_at p period (steps_of p)"
| "dag_at p period (Suc i) = snd (dag_draw p i (dag_at p period i))"


lemma draw_frame [simp]:
  "g_dst_seq (snd (draw g)) = g_dst_seq g" "g_src_seq (snd (draw g)) = g_src_seq g"
  "g_dst_counter (snd (draw g)) = g_dst_counter g" "g_src_counter (snd (draw g)) = g_src_counter g"
  by (simp_all add: draw_def split_beta)

lemma next_dst_frame [simp]:
  "g_dst_seq (snd (next_dst p g)) = g_dst_seq g" "g_src_seq (snd (next_dst p g)) = g_src_seq g"
  "g_dst_counter (snd (next_dst p g)) = g_dst_counter g + 1"
  by (simp_all add: next_dst_def)

lemma next_src_frame [simp]:
  "g_dst_seq (snd (next_src p g)) = g_dst_seq g" "g_src_seq (snd (next_src p g)) = g_src_seq g"
  "g_dst_counter (snd (next_src p g)) = g_dst_counter g"
  by (simp_all add: next_src_def)

text \<open>Both sequences are permutations of the registers, from the shuffle on.\<close>

definition registers :: "params \<Rightarrow> u32 list" where
  "registers p = map of_nat [0..<unat (regs p)]"

definition gen_ok :: "params \<Rightarrow> gen \<Rightarrow> bool" where
  "gen_ok p g \<longleftrightarrow> mset (g_dst_seq g) = mset (registers p) \<and> mset (g_src_seq g) = mset (registers p)"

lemma mset_swap_at: "a < length xs \<Longrightarrow> b < length xs \<Longrightarrow> mset (swap_at xs a b) = mset xs"
  by (simp add: swap_at_def Let_def mset_swap)

lemma length_registers [simp]: "length (registers p) = unat (regs p)"
  by (simp add: registers_def)

lemma registers_bound: "r \<in> set (registers p) \<Longrightarrow> unat r < unat (regs p)"
proof -
  have "unat (regs p) \<le> 2 ^ 32" by (simp add: less_imp_le)
  then show "r \<in> set (registers p) \<Longrightarrow> ?thesis" by (auto simp: registers_def)
qed

lemma distinct_registers [simp]: "distinct (registers p)"
proof -
  have "unat (regs p) \<le> 2 ^ 32" by (simp add: less_imp_le)
  then have "inj_on (of_nat :: nat \<Rightarrow> u32) {0..<unat (regs p)}"
    by (intro inj_on_inverseI [where g = unat]) auto
  then show ?thesis by (simp add: registers_def distinct_map)
qed

lemma gen_okD:
  assumes "gen_ok p g"
  shows "length (g_dst_seq g) = unat (regs p)" "length (g_src_seq g) = unat (regs p)"
    "set (g_dst_seq g) = set (registers p)" "set (g_src_seq g) = set (registers p)"
    "distinct (g_dst_seq g)" "distinct (g_src_seq g)"
  using assms unfolding gen_ok_def
  by (metis length_registers size_mset, metis length_registers size_mset,
      metis set_mset_mset, metis set_mset_mset,
      metis distinct_registers mset_eq_imp_distinct_iff,
      metis distinct_registers mset_eq_imp_distinct_iff)

lemma gen_ok_frame:
  assumes "g_dst_seq g' = g_dst_seq g" "g_src_seq g' = g_src_seq g"
  shows "gen_ok p g' = gen_ok p g"
  by (simp add: gen_ok_def assms)

lemma mod_of_nat_less:
  fixes v :: u32
  assumes "2 \<le> i" "i < 4294967296"
  shows "unat (v mod of_nat i) < i"
  using unat_mod_less [of "of_nat i" v] assms by simp

lemma gen_ok_shuffle_step:
  assumes "gen_ok p g" "2 \<le> i" "i \<le> unat (regs p)"
  shows "gen_ok p (shuffle_step i g)"
proof -
  have i: "i < 4294967296" using assms(3) by (rule le_less_trans) simp
  have "unat (v mod of_nat i) < unat (regs p)" for v :: u32
    using mod_of_nat_less [OF assms(2) i, of v] assms(3) by simp
  moreover have "i - 1 < unat (regs p)" using assms(2,3) by simp
  ultimately show ?thesis
    using assms(1) gen_okD(1,2) [OF assms(1)]
    by (simp add: gen_ok_def shuffle_step_def split_beta Let_def mset_swap_at)
qed

lemma gen_ok_init: "gen_ok p (gen_init p period)"
  unfolding gen_init_def Let_def
  by (rule fold_invariant_list) (auto intro!: gen_ok_shuffle_step, simp add: gen_ok_def registers_def)

lemma cache_draw_frame:
  "g_dst_seq (snd (cache_draw p g)) = g_dst_seq g" "g_src_seq (snd (cache_draw p g)) = g_src_seq g"
  "g_dst_counter (snd (cache_draw p g)) = g_dst_counter g + 1"
  by (simp_all add: cache_draw_def split_beta)

lemma math_draw_frame:
  "g_dst_seq (snd (math_draw p g)) = g_dst_seq g" "g_src_seq (snd (math_draw p g)) = g_src_seq g"
  "g_dst_counter (snd (math_draw p g)) = g_dst_counter g + 1"
  by (simp_all add: math_draw_def split_beta Let_def)

lemma dag_draw_frame:
  "g_dst_seq (snd (dag_draw p i g)) = g_dst_seq g" "g_src_seq (snd (dag_draw p i g)) = g_src_seq g"
  "g_dst_counter (snd (dag_draw p i g)) = (if i = 0 then g_dst_counter g else g_dst_counter g + 1)"
  by (simp_all add: dag_draw_def split_beta Let_def)

lemmas draw_frames = cache_draw_frame math_draw_frame dag_draw_frame gen_mid_def gen_next_def

lemma gen_seqs:
  "g_dst_seq (gen_at p period i) = g_dst_seq (gen_init p period)"
  "g_src_seq (gen_at p period i) = g_src_seq (gen_init p period)"
  "g_dst_seq (dag_at p period j) = g_dst_seq (gen_init p period)"
  "g_src_seq (dag_at p period j) = g_src_seq (gen_init p period)"
proof -
  show a: "g_dst_seq (gen_at p period i) = g_dst_seq (gen_init p period)" for i
    by (induction i) (simp_all add: draw_frames)
  show b: "g_src_seq (gen_at p period i) = g_src_seq (gen_init p period)" for i
    by (induction i) (simp_all add: draw_frames)
  show "g_dst_seq (dag_at p period j) = g_dst_seq (gen_init p period)"
    by (induction j) (simp_all add: draw_frames a)
  show "g_src_seq (dag_at p period j) = g_src_seq (gen_init p period)"
    by (induction j) (simp_all add: draw_frames b)
qed

lemma gen_ok_at [simp]: "gen_ok p (gen_at p period i)" "gen_ok p (dag_at p period j)"
  using gen_ok_init [of p period] by (simp_all add: gen_ok_def gen_seqs)

lemma gen_ok_mid [simp]: "gen_ok p (gen_mid p i g) = gen_ok p g"
  by (simp add: gen_ok_def draw_frames)

section \<open>Lemmas: the words of a built program\<close>

definition cache_word :: "u32 list \<Rightarrow> nat \<Rightarrow> u32 \<times> u32 \<times> u32" where
  "cache_word w i = (w ! (kCacheBase + i * kCacheWords), w ! (kCacheBase + i * kCacheWords + 1),
                     w ! (kCacheBase + i * kCacheWords + 2))"

definition math_word :: "u32 list \<Rightarrow> nat \<Rightarrow> u32 \<times> u32 \<times> u32 \<times> u32 \<times> u32" where
  "math_word w i = (w ! (kMathBase + i * kMathWords), w ! (kMathBase + i * kMathWords + 1),
     w ! (kMathBase + i * kMathWords + 2), w ! (kMathBase + i * kMathWords + 3),
     w ! (kMathBase + i * kMathWords + 4))"

definition dag_word :: "u32 list \<Rightarrow> nat \<Rightarrow> u32 \<times> u32" where
  "dag_word w i = (w ! (kDagBase + i * kDagWords), w ! (kDagBase + i * kDagWords + 1))"


lemma put_lengths [simp, len_simps]:
  "length (put_cache w i op) = length w"
  "length (put_math w i op') = length w"
  "length (put_dag w i op'') = length w"
  by (simp_all add: put_cache_def put_math_def put_dag_def split_beta Let_def)

lemma word_of_put_cache:
  assumes "length w = kProgramWords" "i < kMaxCacheOps"
  shows "cache_word (put_cache w i op) j = (if j = i then op else cache_word w j)"
    and "math_word (put_cache w i op) j = math_word w j"
    and "dag_word (put_cache w i op) j = dag_word w j"
    and "k < kCacheBase + i * kCacheWords \<or> kCacheBase + Suc i * kCacheWords \<le> k \<Longrightarrow>
         put_cache w i op ! k = w ! k"
proof -
  obtain a b c where op: "op = (a, b, c)" by (cases op)
  have i: "i < 12" "length w = 134" using assms by (simp_all add: layout_defs)
  show "cache_word (put_cache w i op) j = (if j = i then op else cache_word w j)"
    using i by (auto simp: cache_word_def put_cache_def op Let_def layout_defs nth_list_update)
  show "math_word (put_cache w i op) j = math_word w j"
    using i by (simp add: math_word_def put_cache_def op Let_def layout_defs nth_list_update)
  show "dag_word (put_cache w i op) j = dag_word w j"
    using i by (simp add: dag_word_def put_cache_def op Let_def layout_defs nth_list_update)
  show "k < kCacheBase + i * kCacheWords \<or> kCacheBase + Suc i * kCacheWords \<le> k \<Longrightarrow>
         put_cache w i op ! k = w ! k"
    using i by (auto simp: put_cache_def op Let_def layout_defs nth_list_update)
qed

lemma word_of_put_math:
  assumes "length w = kProgramWords" "i < kMaxMathOps"
  shows "j < kMaxCacheOps \<Longrightarrow> cache_word (put_math w i op) j = cache_word w j"
    and "math_word (put_math w i op) j = (if j = i then op else math_word w j)"
    and "dag_word (put_math w i op) j = dag_word w j"
    and "k < kMathBase + i * kMathWords \<or> kMathBase + Suc i * kMathWords \<le> k \<Longrightarrow>
         put_math w i op ! k = w ! k"
proof -
  obtain a b c d e where op: "op = (a, b, c, d, e)" by (cases op)
  have i: "i < 18" "length w = 134" using assms by (simp_all add: layout_defs)
  show "j < kMaxCacheOps \<Longrightarrow> cache_word (put_math w i op) j = cache_word w j"
    using i by (simp add: cache_word_def put_math_def op Let_def layout_defs nth_list_update)
  show "math_word (put_math w i op) j = (if j = i then op else math_word w j)"
  proof (cases "j = i")
    case True
    then show ?thesis using i by (simp add: math_word_def put_math_def op Let_def layout_defs nth_list_update)
  next
    case False
    then have "36 + i * 5 + d' \<noteq> 36 + j * 5 + e'" if "d' < 5" "e' < 5" for d' e' using that by presburger
    from this [of 0 0] this [of 0 1] this [of 0 2] this [of 0 3] this [of 0 4]
      this [of 1 0] this [of 1 1] this [of 1 2] this [of 1 3] this [of 1 4]
      this [of 2 0] this [of 2 1] this [of 2 2] this [of 2 3] this [of 2 4]
      this [of 3 0] this [of 3 1] this [of 3 2] this [of 3 3] this [of 3 4]
      this [of 4 0] this [of 4 1] this [of 4 2] this [of 4 3] this [of 4 4]
    show ?thesis using False
      by (simp add: math_word_def put_math_def op Let_def layout_defs)
  qed
  show "dag_word (put_math w i op) j = dag_word w j"
    using i by (simp add: dag_word_def put_math_def op Let_def layout_defs nth_list_update)
  show "k < kMathBase + i * kMathWords \<or> kMathBase + Suc i * kMathWords \<le> k \<Longrightarrow>
         put_math w i op ! k = w ! k"
    using i by (auto simp: put_math_def op Let_def layout_defs nth_list_update)
qed

lemma word_of_put_dag:
  assumes "length w = kProgramWords" "i < kDagLoads"
  shows "j < kMaxCacheOps \<Longrightarrow> cache_word (put_dag w i op) j = cache_word w j"
    and "j < kMaxMathOps \<Longrightarrow> math_word (put_dag w i op) j = math_word w j"
    and "dag_word (put_dag w i op) j = (if j = i then op else dag_word w j)"
    and "k < kDagBase \<Longrightarrow> put_dag w i op ! k = w ! k"
proof -
  obtain a b where op: "op = (a, b)" by (cases op)
  have i: "i < 4" "length w = 134" using assms by (simp_all add: layout_defs)
  show "j < kMaxCacheOps \<Longrightarrow> cache_word (put_dag w i op) j = cache_word w j"
    using i by (simp add: cache_word_def put_dag_def op Let_def layout_defs nth_list_update)
  show "j < kMaxMathOps \<Longrightarrow> math_word (put_dag w i op) j = math_word w j"
    using i by (simp add: math_word_def put_dag_def op Let_def layout_defs nth_list_update)
  show "dag_word (put_dag w i op) j = (if j = i then op else dag_word w j)"
    using i by (auto simp: dag_word_def put_dag_def op Let_def layout_defs nth_list_update) 
  show "k < kDagBase \<Longrightarrow> put_dag w i op ! k = w ! k"
    using i by (auto simp: put_dag_def op Let_def layout_defs nth_list_update)
qed

text \<open>The loop invariants of \<open>build_program\<close>: everything drawn so far is in its place, and
  nothing else has been written.\<close>

definition steps_inv :: "params \<Rightarrow> u64 \<Rightarrow> nat \<Rightarrow> gen \<times> u32 list \<Rightarrow> bool" where
  "steps_inv p period i gw \<longleftrightarrow>
     fst gw = gen_at p period i \<and> length (snd gw) = kProgramWords \<and>
     (\<forall>j < i. j < unat (cache_ops p) \<longrightarrow>
        cache_word (snd gw) j = fst (cache_draw p (gen_at p period j))) \<and>
     (\<forall>j < i. j < unat (math_ops p) \<longrightarrow>
        math_word (snd gw) j = fst (math_draw p (gen_mid p j (gen_at p period j)))) \<and>
     (\<forall>k. kCacheBase + kCacheWords * unat (cache_ops p) \<le> k \<and> k < kMathBase \<longrightarrow> snd gw ! k = 0) \<and>
     (\<forall>k. kMathBase + kMathWords * unat (math_ops p) \<le> k \<and> k < kDagBase \<longrightarrow> snd gw ! k = 0)"

lemma steps_inv_init: "steps_inv p period 0 (gen_init p period, replicate kProgramWords 0)"
  by (auto simp: steps_inv_def layout_defs)

lemma steps_inv_step:
  assumes wf: "wf_params p" and inv: "steps_inv p period i gw"
  shows "steps_inv p period (Suc i) (gen_step p i gw)"
proof -
  obtain g w where gw: "gw = (g, w)" by (cases gw)
  have b: "unat (cache_ops p) \<le> kMaxCacheOps" "unat (math_ops p) \<le> kMaxMathOps"
    using wf by (auto simp: wf_params_def)
  define w' where "w' = snd (cache_step p i (g, w))"
  have g: "g = gen_at p period i" and len: "length w = kProgramWords"
    using inv by (auto simp: steps_inv_def gw)
  have mid: "cache_step p i (g, w) = (gen_mid p i g, w')"
    by (simp add: w'_def cache_step_def gen_mid_def split_beta)
  have len': "length w' = kProgramWords"
    by (simp add: w'_def cache_step_def split_beta len)
  have cw: "cache_word w' j = (if j = i \<and> i < unat (cache_ops p) then fst (cache_draw p g) else cache_word w j)"
    and mw: "math_word w' j = math_word w j"
    and ow: "kCacheBase + kCacheWords * unat (cache_ops p) \<le> k \<Longrightarrow> w' ! k = w ! k" for j k
    using b len
    by (auto simp: w'_def cache_step_def split_beta word_of_put_cache)
      (subst word_of_put_cache(4), auto simp: kCacheBase_def kCacheWords_def)
  have ow': "kMathBase + m \<le> k \<Longrightarrow> w' ! k = w ! k" for k m
    using b by (intro ow) (simp add: layout_defs)
  have mo: "i < unat (math_ops p) \<Longrightarrow> kMathBase + kMathWords * unat (math_ops p) \<le> k \<Longrightarrow>
      put_math w' i op ! k = w' ! k" for k op
    using b len' by (subst word_of_put_math(4)) (auto simp: kMathBase_def kMathWords_def)
  show ?thesis
    unfolding gen_step_def gw mid
    using inv len' b g
    by (auto simp: steps_inv_def gw math_step_def split_beta word_of_put_math cw mw
        ow ow' mo gen_next_def less_Suc_eq)
qed

lemma steps_inv_steps:
  assumes "wf_params p"
  shows "steps_inv p period (steps_of p)
           (for_up (steps_of p) (gen_step p) (gen_init p period, replicate kProgramWords 0))"
  by (rule for_up_invariant [where P = "steps_inv p period"])
    (auto intro: steps_inv_init steps_inv_step assms)

definition dags_inv :: "params \<Rightarrow> u64 \<Rightarrow> nat \<Rightarrow> gen \<times> u32 list \<Rightarrow> bool" where
  "dags_inv p period i gw \<longleftrightarrow>
     fst gw = dag_at p period i \<and>
     (\<forall>j < i. dag_word (snd gw) j = fst (dag_draw p j (dag_at p period j))) \<and>
     steps_inv p period (steps_of p) (gen_at p period (steps_of p), snd gw)"

lemma dags_inv_step:
  assumes wf: "wf_params p" and inv: "dags_inv p period i gw" and i: "i < kDagLoads"
  shows "dags_inv p period (Suc i) (dag_step p i gw)"
proof -
  have b: "unat (cache_ops p) \<le> kMaxCacheOps" "unat (math_ops p) \<le> kMaxMathOps"
    using wf by (auto simp: wf_params_def)
  have "kMathBase < kDagBase" by (simp add: layout_defs)
  then show ?thesis
    using inv b i
    by (auto simp: dags_inv_def steps_inv_def dag_step_def split_beta word_of_put_dag less_Suc_eq)
qed

lemma steps_of_nat: "steps_of p = max (unat (cache_ops p)) (unat (math_ops p))"
  by (simp add: steps_of_def word_less_nat_alt)

text \<open>Every word of a program, in terms of the generator's state when it was drawn.\<close>

lemma program_words:
  fixes period :: u64
  assumes wf: "wf_params p"
  defines "w \<equiv> build_program p period"
  shows program_length: "length w = kProgramWords"
    and program_cache: "i < unat (cache_ops p) \<Longrightarrow>
          cache_word w i = fst (cache_draw p (gen_at p period i))"
    and program_math: "i < unat (math_ops p) \<Longrightarrow>
          math_word w i = fst (math_draw p (gen_mid p i (gen_at p period i)))"
    and program_dag: "i < kDagLoads \<Longrightarrow> dag_word w i = fst (dag_draw p i (dag_at p period i))"
    and program_cache_tail: "kCacheBase + kCacheWords * unat (cache_ops p) \<le> k \<Longrightarrow> k < kMathBase \<Longrightarrow> w ! k = 0"
    and program_math_tail: "kMathBase + kMathWords * unat (math_ops p) \<le> k \<Longrightarrow> k < kDagBase \<Longrightarrow> w ! k = 0"
proof -
  have "dags_inv p period kDagLoads
     (for_up kDagLoads (dag_step p)
            (for_up (steps_of p) (gen_step p) (gen_init p period, replicate kProgramWords 0)))"
  proof (rule for_up_invariant [where P = "dags_inv p period"])
    show "dags_inv p period 0
      (for_up (steps_of p) (gen_step p) (gen_init p period, replicate kProgramWords 0))"
      using steps_inv_steps [OF wf, of period] by (simp add: dags_inv_def steps_inv_def)
  qed (simp add: dags_inv_step [OF wf])
  then show "length w = kProgramWords"
    and "i < unat (cache_ops p) \<Longrightarrow> cache_word w i = fst (cache_draw p (gen_at p period i))"
    and "i < unat (math_ops p) \<Longrightarrow>
          math_word w i = fst (math_draw p (gen_mid p i (gen_at p period i)))"
    and "i < kDagLoads \<Longrightarrow> dag_word w i = fst (dag_draw p i (dag_at p period i))"
    and "kCacheBase + kCacheWords * unat (cache_ops p) \<le> k \<Longrightarrow> k < kMathBase \<Longrightarrow> w ! k = 0"
    and "kMathBase + kMathWords * unat (math_ops p) \<le> k \<Longrightarrow> k < kDagBase \<Longrightarrow> w ! k = 0"
    by (auto simp: w_def build_program_def dags_inv_def steps_inv_def steps_of_nat)
qed

section \<open>Lemmas: what a draw can be\<close>

lemma next_dst_range [word_bounds]:
  assumes "gen_ok p g" "regs p \<noteq> 0"
  shows "unat (fst (next_dst p g)) < unat (regs p)"
proof -
  have "unat (g_dst_counter g mod regs p) < length (g_dst_seq g)"
    using assms by (simp add: gen_okD unat_mod_less unat_gt_0)
  then show ?thesis
    using assms(1) by (metis fst_conv gen_okD(3) next_dst_def nth_mem registers_bound)
qed

lemma next_src_range [word_bounds]:
  assumes "gen_ok p g" "regs p \<noteq> 0"
  shows "unat (fst (next_src p g)) < unat (regs p)"
proof -
  have "unat (g_src_counter g mod regs p) < length (g_src_seq g)"
    using assms by (simp add: gen_okD unat_mod_less unat_gt_0)
  then show ?thesis
    using assms(1) by (metis fst_conv gen_okD(4) next_src_def nth_mem registers_bound)
qed

lemma gen_ok_moves [simp]:
  "gen_ok p (snd (draw g)) = gen_ok p g"
  "gen_ok p (snd (next_dst q g)) = gen_ok p g"
  "gen_ok p (snd (next_src q g)) = gen_ok p g"
  by (simp_all add: gen_ok_def)

lemma cache_draw_range:
  assumes "gen_ok p g" "wf_params p"
  shows "case fst (cache_draw p g) of (src, dst, sel) \<Rightarrow>
           unat src < unat (regs p) \<and> unat dst < unat (regs p)"
  using assms wf_params_regs [OF assms(2)]
  by (simp add: cache_draw_def split_beta next_dst_range next_src_range)

text \<open>Two different sources from one draw: the second comes from the range with the first
  removed, shifted back into place.\<close>

lemma two_sources:
  fixes v n :: u32
  assumes "2 \<le> unat n" "unat n \<le> 32"
  defines "r \<equiv> v mod (n * (n - 1))"
  defines "s1 \<equiv> r mod n" and "s2 \<equiv> (if r div n \<ge> r mod n then r div n + 1 else r div n)"
  shows "unat s1 < unat n" "unat s2 < unat n" "s1 \<noteq> s2"
proof -
  have n1: "unat (n - 1) = unat n - 1"
    using assms(1) by (subst unat_sub_exact) (auto simp: word_le_nat_alt)
  have "unat n * unat (n - 1) \<le> 32 * 32"
    unfolding n1 using assms(2) by (intro mult_le_mono) auto
  then have "unat n * unat (n - 1) < 2 ^ LENGTH(32)" by simp
  then have "unat (n * (n - 1)) = unat n * (unat n - 1)"
    by (simp add: unat_mult_exact n1)
  then have r: "unat r < unat n * (unat n - 1)"
    using assms(1) unat_mod_less [of "n * (n - 1)" v] by (simp add: r_def)
  then have q: "unat (r div n) < unat n - 1"
    by (simp add: unat_div_distrib less_mult_imp_div_less mult.commute)
  then have q2: "Suc (unat (r div n)) < unat n" by arith
  from q have q1: "unat (r div n + 1) = unat (r div n) + 1"
    using assms(2) by (subst unat_add_exact) auto
  show "unat s1 < unat n" using assms(1) by (simp add: s1_def unat_mod_less)
  show "unat s2 < unat n" using q2 q1 by (simp add: s2_def)
  show "s1 \<noteq> s2"
    using q1 by (auto simp: s1_def s2_def word_le_nat_alt word_unat_eq_iff split: if_splits)
qed

lemma math_draw_range:
  assumes "gen_ok p g" "wf_params p"
  shows "case fst (math_draw p g) of (src1, src2, sel1, dst, sel2) \<Rightarrow>
           unat src1 < unat (regs p) \<and> unat src2 < unat (regs p) \<and> src1 \<noteq> src2 \<and>
           unat dst < unat (regs p)"
  using assms wf_params_regs [OF assms(2)] two_sources [of "regs p"]
  by (simp add: math_draw_def split_beta Let_def next_dst_range)

lemma dag_draw_range:
  assumes "gen_ok p g" "wf_params p"
  shows "unat (fst (fst (dag_draw p i g))) < unat (regs p)"
  using assms wf_params_regs [OF assms(2)]
  by (simp add: dag_draw_def split_beta next_dst_range)

lemma program_length' [len_simps]: "wf_params p \<Longrightarrow> length (build_program p period) = 134"
  by (simp add: program_length layout_simps)

lemma program_register:
  assumes wf: "wf_params p" and i: "i < kProgramWords" and r: "names_a_register i"
  shows "unat (build_program p period ! i) < unat (regs p)"
proof -
  let ?w = "build_program p period"
  have pos: "0 < unat (regs p)" using wf_params_regs(1) [OF wf] by simp
  consider (cache) "i < kMathBase" | (math) "kMathBase \<le> i" "i < kDagBase" | (dag) "kDagBase \<le> i"
    by linarith
  then show ?thesis
  proof cases
    case cache
    define a where "a = i div 3"
    have i': "i = 3 * a + i mod 3" "i mod 3 = 0 \<or> i mod 3 = 1"
      using r cache by (auto simp: a_def names_a_register_def layout_defs)
    show ?thesis
    proof (cases "a < unat (cache_ops p)")
      case True
      from program_cache [OF wf True, of period] cache_draw_range [OF gen_ok_at(1) wf, of period a] i'
      show ?thesis by (auto simp: cache_word_def layout_defs mult.commute)
    next
      case False
      then show ?thesis
        using program_cache_tail [OF wf _ cache, of period] i' pos by (simp add: layout_defs)
    qed
  next
    case math
    define a where "a = (i - 36) div 5"
    have i': "i = 36 + 5 * a + (i - 36) mod 5"
      "(i - 36) mod 5 = 0 \<or> (i - 36) mod 5 = 1 \<or> (i - 36) mod 5 = 3"
      using r math by (auto simp: a_def names_a_register_def layout_defs Let_def)
    show ?thesis
    proof (cases "a < unat (math_ops p)")
      case True
      from program_math [OF wf True, of period] i'
        math_draw_range [OF gen_ok_mid [THEN iffD2, OF gen_ok_at(1)] wf, of a period a]
      show ?thesis by (auto simp: math_word_def layout_defs mult.commute)
    next
      case False
      then show ?thesis
        using program_math_tail [OF wf _ math(2), of period] i' pos by (simp add: layout_defs)
    qed
  next
    case dag
    define a where "a = (i - 126) div 2"
    have i': "i = 126 + 2 * a" "a < 4"
      using r dag i by (auto simp: a_def names_a_register_def layout_defs)
    from program_dag [OF wf, of a period] dag_draw_range [OF gen_ok_at(2) wf, of a period a] i'
    show ?thesis by (auto simp: dag_word_def layout_defs mult.commute prod_eq_iff)
  qed
qed

text \<open>
  Claim C30. In every program a well-formed fork can be given, a word that names a mix register
  names one that exists, so neither interpreter can index past the mix.
\<close>

theorem program_registers_in_range:
  assumes "wf_params p" and "i < kProgramWords" and "names_a_register i"
  shows "unat (build_program p period ! i) < unat (regs p)"
  using assms by (rule program_register)

theorem program_registers_in_range_witness:
  "unat (build_program kKawpow 16 ! 37) < unat (regs kKawpow)"
  by (rule program_registers_in_range)
    (simp_all add: names_a_register_def layout_defs)

text \<open>
  The two sources of a math operation are different registers, in every program.
\<close>

theorem program_math_sources_differ:
  assumes wf: "wf_params p" and i: "i < unat (math_ops p)"
  shows "build_program p period ! (kMathBase + i * kMathWords)
           \<noteq> build_program p period ! (kMathBase + i * kMathWords + 1)"
  using program_math [OF wf i, of period]
    math_draw_range [OF gen_ok_mid [THEN iffD2, OF gen_ok_at(1)] wf, of i period i]
  by (auto simp: math_word_def split_beta prod_eq_iff)

theorem program_math_sources_differ_witness:
  "build_program kKawpow 16 ! (kMathBase + 3 * kMathWords)
     \<noteq> build_program kKawpow 16 ! (kMathBase + 3 * kMathWords + 1)"
  by (rule program_math_sources_differ) simp_all

section \<open>Destinations\<close>

text \<open>The registers a program writes, in layout order, the fixed first DAG merge left out.\<close>

definition destinations :: "params \<Rightarrow> u32 list \<Rightarrow> u32 list" where
  "destinations p w =
     map (\<lambda>i. w ! (kCacheBase + i * kCacheWords + 1)) [0..<unat (cache_ops p)] @
     map (\<lambda>i. w ! (kMathBase + i * kMathWords + 3)) [0..<unat (math_ops p)] @
     map (\<lambda>i. w ! (kDagBase + i * kDagWords)) [1..<kDagLoads]"

text \<open>Which draw of the destination sequence each of them is.\<close>

definition dst_index :: "params \<Rightarrow> nat list" where
  "dst_index p =
     (let c = unat (cache_ops p); m = unat (math_ops p)
      in map (\<lambda>i. i + min i m) [0..<c] @ map (\<lambda>i. i + min (Suc i) c) [0..<m] @
         map (\<lambda>i. c + m + i - 1) [1..<kDagLoads])"

lemma dst_counter_at:
  assumes "wf_params p"
  shows "i \<le> steps_of p \<Longrightarrow>
    g_dst_counter (gen_at p period i) = of_nat (min i (unat (cache_ops p)) + min i (unat (math_ops p)))"
    and "i < steps_of p \<Longrightarrow> g_dst_counter (gen_mid p i (gen_at p period i)) =
      of_nat (min (Suc i) (unat (cache_ops p)) + min i (unat (math_ops p)))"
proof -
  show *: "i \<le> steps_of p \<Longrightarrow> g_dst_counter (gen_at p period i) =
      of_nat (min i (unat (cache_ops p)) + min i (unat (math_ops p)))" for i
  proof (induction i)
    case 0
    have "g_dst_counter (fold shuffle_step xs g) = g_dst_counter g" for xs g
      by (induction xs arbitrary: g) (simp_all add: shuffle_step_def split_beta Let_def)
    then show ?case by (simp add: gen_init_def Let_def)
  next
    case (Suc i)
    then show ?case by (auto simp: draw_frames steps_of_nat min_def max_def)
  qed
  show "i < steps_of p \<Longrightarrow> g_dst_counter (gen_mid p i (gen_at p period i)) =
      of_nat (min (Suc i) (unat (cache_ops p)) + min i (unat (math_ops p)))"
    using * [of i] by (simp add: draw_frames min_def)
qed

lemma dag_counter_at:
  assumes "wf_params p" "1 \<le> j"
  shows "g_dst_counter (dag_at p period j) =
           of_nat (unat (cache_ops p) + unat (math_ops p) + j - 1)"
  using assms(2)
proof (induction j)
  case (Suc j)
  then show ?case
    using dst_counter_at(1) [OF assms(1) order_refl, of period]
    by (cases "j = 0") (simp_all add: draw_frames steps_of_nat min_def max_def split: if_splits)
qed simp

lemma next_dst_nth:
  assumes "g_dst_counter g = of_nat c" "c < unat (regs p)" "wf_params p"
  shows "fst (next_dst p g) = g_dst_seq g ! c"
proof -
  have "c < 4294967296" using assms(2) by (rule less_trans) simp
  then have "unat (of_nat c mod regs p) = c"
    using assms(2) by (simp add: unat_mod_distrib)
  then show ?thesis using assms(1) by (simp add: next_dst_def)
qed

lemma dst_index_ok:
  assumes "unat (cache_ops p) + unat (math_ops p) + 3 \<le> n"
  shows "distinct (dst_index p)" "\<forall>k \<in> set (dst_index p). k < n"
    "length (dst_index p) = unat (cache_ops p) + unat (math_ops p) + 3"
  using assms
  by (auto simp: dst_index_def Let_def distinct_map inj_on_def kDagLoads_def min_def
      split: if_splits) presburger+

lemma destinations_index:
  assumes wf: "wf_params p"
    and fits: "unat (cache_ops p) + unat (math_ops p) + 3 \<le> unat (regs p)"
  shows "destinations p (build_program p period) =
           map (\<lambda>k. g_dst_seq (gen_init p period) ! k) (dst_index p)"
proof -
  let ?w = "build_program p period" and ?s = "g_dst_seq (gen_init p period)"
  let ?c = "unat (cache_ops p)" and ?m = "unat (math_ops p)"
  have c: "?w ! (kCacheBase + i * kCacheWords + 1) = ?s ! (i + min i ?m)" if i: "i < ?c" for i
  proof -
    have "fst (next_dst p (snd (next_src p (gen_at p period i)))) = ?s ! (i + min i ?m)"
      using i fits dst_counter_at(1) [OF wf, of i period]
      by (subst next_dst_nth [OF _ _ wf, where c = "i + min i ?m"]) (auto simp: steps_of_nat gen_seqs)
    then show ?thesis
      using program_cache [OF wf i, of period]
      by (simp add: cache_word_def cache_draw_def split_beta)
  qed
  have m: "?w ! (kMathBase + i * kMathWords + 3) = ?s ! (i + min (Suc i) ?c)" if i: "i < ?m" for i
  proof -
    have "fst (next_dst p (snd (draw (snd (draw (gen_mid p i (gen_at p period i))))))) =
        ?s ! (i + min (Suc i) ?c)"
      using i fits dst_counter_at(2) [OF wf, of i period]
      by (subst next_dst_nth [OF _ _ wf, where c = "i + min (Suc i) ?c"])
        (auto simp: steps_of_nat gen_seqs gen_mid_def draw_frames)
    then show ?thesis
      using program_math [OF wf i, of period]
      by (simp add: math_word_def math_draw_def split_beta Let_def)
  qed
  have d: "?w ! (kDagBase + i * kDagWords) = ?s ! (?c + ?m + i - 1)" if i: "1 \<le> i" "i < 4" for i
  proof -
    have "fst (next_dst p (dag_at p period i)) = ?s ! (?c + ?m + i - 1)"
      using i fits dag_counter_at [OF wf, of i period]
      by (subst next_dst_nth [OF _ _ wf, where c = "?c + ?m + i - 1"]) (auto simp: gen_seqs)
    then show ?thesis
      using program_dag [OF wf, of i period] i
      by (simp add: dag_word_def dag_draw_def split_beta Let_def kDagLoads_def)
  qed
  show ?thesis
    unfolding destinations_def dst_index_def Let_def
    by (simp add: c [simplified] m d kDagLoads_def comp_def cong: map_cong)
qed

text \<open>
  A round whose operations fit in one pass of the destination sequence names every
  destination at most once; where they fill it exactly, as on KawPoW, it names every register.
\<close>

theorem program_destinations:
  assumes wf: "wf_params p"
    and fits: "unat (cache_ops p) + unat (math_ops p) + 3 \<le> unat (regs p)"
  shows "distinct (destinations p (build_program p period)) \<and>
         (unat (cache_ops p) + unat (math_ops p) + 3 = unat (regs p) \<longrightarrow>
            set (destinations p (build_program p period)) = set (registers p))"
proof -
  let ?s = "g_dst_seq (gen_init p period)" and ?d = "destinations p (build_program p period)"
  note s = gen_okD [OF gen_ok_init [of p period]]
  have d: "distinct ?d"
    using dst_index_ok [OF fits] s(1,5)
    by (auto simp: destinations_index [OF wf fits] distinct_map inj_on_def nth_eq_iff_index_eq)
  moreover have "set ?d = set (registers p)"
    if "unat (cache_ops p) + unat (math_ops p) + 3 = unat (regs p)"
  proof (rule card_subset_eq)
    show "set ?d \<subseteq> set (registers p)"
      using dst_index_ok(2) [OF fits] s(1,3) by (auto simp: destinations_index [OF wf fits])
    show "card (set ?d) = card (set (registers p))"
      using that dst_index_ok(3) [OF fits] d
      by (simp add: distinct_card) (simp add: destinations_index [OF wf fits])
  qed simp
  ultimately show ?thesis by simp
qed

theorem program_destinations_witness:
  "set (destinations kKawpow (build_program kKawpow 33)) = set (registers kKawpow)"
  using program_destinations [of kKawpow 33]   using program_destinations [of kKawpow 33] by simp

end
