(* ===== verification/Progpow_Hash.thy ===== *)
theory Progpow_Hash
  imports Progpow_Program
begin

text \<open>
  \<^verbatim>\<open>algorithms/progpow/progpow_hash.{h,cpp}\<close>: keccak-f[800], the two operations a program's
  words select, the mix, one round, and the hash of one nonce.

  The mix is a list of sixteen lanes of \<open>kMaxRegs\<close> words. A fork narrower than the layout leaves
  the tail of a lane as whatever the stack held: the model takes those words as the argument
  \<open>stack\<close>, and the lemmas show that no result depends on them. A dataset is a function from a
  line's index to its 64 words, or \<open>None\<close> where the line cannot be produced.
\<close>

section \<open>keccak-f[800]\<close>

definition kRoundConstants :: "u32 list" where
  "kRoundConstants =
     [0x00000001, 0x00008082, 0x0000808a, 0x80008000, 0x0000808b, 0x80000001,
      0x80008081, 0x00008009, 0x0000008a, 0x00000088, 0x80008009, 0x8000000a,
      0x8000808b, 0x0000008b, 0x00008089, 0x00008003, 0x00008002, 0x00000080,
      0x0000800a, 0x8000000a, 0x80008081, 0x00008080]"

definition kRho :: "u32 list" where
  "kRho = [0,  1,  30, 28, 27, 4,  12, 6,  23, 20, 3, 10, 11,
           25, 7,  9,  13, 15, 21, 8,  18, 2,  29, 24, 14]"

definition rotl32 :: "u32 \<Rightarrow> u32 \<Rightarrow> u32" where
  "rotl32 x n = (if n = 0 then x else push_bit (unat n) x OR drop_bit (unat (32 - n)) x)"

definition keccak_theta :: "u32 list \<Rightarrow> u32 list" where
  "keccak_theta st =
     (let c = for_up 5 (\<lambda>x c. c[x := st ! x XOR st ! (x + 5) XOR st ! (x + 10)
                                   XOR st ! (x + 15) XOR st ! (x + 20)]) (replicate 5 0)
      in for_up 5 (\<lambda>x st.
           let d = c ! ((x + 4) mod 5) XOR rotl32 (c ! ((x + 1) mod 5)) 1
           in for_up 5 (\<lambda>y st. st[x + 5 * y := st ! (x + 5 * y) XOR d]) st) st)"

definition keccak_rho_pi :: "u32 list \<Rightarrow> u32 list" where
  "keccak_rho_pi st =
     for_up 5 (\<lambda>y. for_up 5 (\<lambda>x b.
       let from = x + 5 * y; to = y + 5 * ((2 * x + 3 * y) mod 5)
       in b[to := rotl32 (st ! from) (kRho ! from)])) (replicate 25 0)"

definition keccak_chi :: "u32 list \<Rightarrow> u32 list \<Rightarrow> u32 list" where
  "keccak_chi b st =
     for_up 5 (\<lambda>y. for_up 5 (\<lambda>x st.
       st[x + 5 * y := b ! (x + 5 * y)
            XOR (NOT (b ! ((x + 1) mod 5 + 5 * y)) AND b ! ((x + 2) mod 5 + 5 * y))])) st"

definition keccak_round :: "nat \<Rightarrow> u32 list \<Rightarrow> u32 list" where
  "keccak_round round st =
     (let st = keccak_theta st; st = keccak_chi (keccak_rho_pi st) st
      in st[0 := st ! 0 XOR kRoundConstants ! round])"

definition keccak_f800 :: "u32 list \<Rightarrow> u32 list" where
  "keccak_f800 st = for_up 22 keccak_round st"

section \<open>What the program's words do\<close>

function clz_loop :: "u32 \<Rightarrow> u32 \<Rightarrow> u32" where
  "clz_loop n x =
     (if n < 32 \<and> x AND 0x80000000 = 0 then clz_loop (n + 1) (push_bit 1 x) else n)"
  by pat_completeness auto
termination
proof (relation "measure (\<lambda>(n, x). 32 - unat n)")
  fix n x :: u32
  assume "n < 32 \<and> x AND 0x80000000 = 0"
  then have "unat n < 32" by (simp add: word_less_nat_alt)
  then have "unat (n + 1) = unat n + 1" by (subst unat_add_exact) auto
  then show "((n + 1, push_bit 1 x), n, x) \<in> measure (\<lambda>(n, x). 32 - unat n)"
    using \<open>unat n < 32\<close> by simp
qed simp

definition clz32 :: "u32 \<Rightarrow> u32" where
  "clz32 x = clz_loop 0 x"

function popcount_loop :: "u32 \<Rightarrow> u32 \<Rightarrow> u32" where
  "popcount_loop n x =
     (if x \<noteq> 0 then popcount_loop (n + (x AND 1)) (drop_bit 1 x) else n)"
  by pat_completeness auto
termination
proof (relation "measure (\<lambda>(n, x). unat x)")
  fix n x :: u32
  assume "x \<noteq> 0"
  then have "0 < unat x" by (simp add: unat_gt_0)
  then show "((n + (x AND 1), drop_bit 1 x), n, x) \<in> measure (\<lambda>(n, x). unat x)"
    by (simp add: drop_bit_eq_div unat_div_distrib)
qed simp

definition popcount32 :: "u32 \<Rightarrow> u32" where
  "popcount32 x = popcount_loop 0 x"

declare clz_loop.simps [simp del] popcount_loop.simps [simp del]

definition mul_hi32 :: "u32 \<Rightarrow> u32 \<Rightarrow> u32" where
  "mul_hi32 a b = ucast (drop_bit 32 ((ucast a :: u64) * (ucast b :: u64)))"

definition random_math :: "u32 \<Rightarrow> u32 \<Rightarrow> u32 \<Rightarrow> u32" where
  "random_math a b selector =
     (let k = selector mod 11 in
      if k = 1 then a * b
      else if k = 2 then mul_hi32 a b
      else if k = 3 then (if a < b then a else b)
      else if k = 4 then rotl32 a (b AND 31)
      else if k = 5 then rotl32 a ((32 - (b AND 31)) AND 31)
      else if k = 6 then a AND b
      else if k = 7 then a OR b
      else if k = 8 then a XOR b
      else if k = 9 then clz32 a + clz32 b
      else if k = 10 then popcount32 a + popcount32 b
      else a + b)"

definition merge_rotation :: "u32 \<Rightarrow> u32" where
  "merge_rotation selector = drop_bit 16 selector mod 31 + 1"

definition random_merge :: "u32 \<Rightarrow> u32 \<Rightarrow> u32 \<Rightarrow> u32" where
  "random_merge a b selector =
     (let x = merge_rotation selector; k = selector mod 4 in
      if k = 0 then a * 33 + b
      else if k = 1 then (a XOR b) * 33
      else if k = 2 then rotl32 a x XOR b
      else rotl32 a (32 - x) XOR b)"

section \<open>The mix\<close>

type_synonym mix = "u32 list list"

definition mix_get :: "mix \<Rightarrow> nat \<Rightarrow> u32 \<Rightarrow> u32" where
  "mix_get mix l r = mix ! l ! unat r"

definition mix_merge :: "mix \<Rightarrow> nat \<Rightarrow> u32 \<Rightarrow> u32 \<Rightarrow> u32 \<Rightarrow> mix" where
  "mix_merge mix l dst data sel =
     mix[l := (mix ! l)[unat dst := random_merge (mix_get mix l dst) data sel]]"

definition init_lane :: "params \<Rightarrow> u32 \<Rightarrow> u32 \<Rightarrow> nat \<Rightarrow> u32 list \<Rightarrow> u32 list" where
  "init_lane p z w l lane =
     (let jsr = fnv1a w (of_nat l); jcong = fnv1a jsr (of_nat l);
          rng = \<lparr>k_z = z, k_w = w, k_jsr = jsr, k_jcong = jcong\<rparr>
      in snd (for_up (unat (regs p))
                (\<lambda>r (rng, lane). let (v, rng') = kiss99_next rng in (rng', lane[r := v]))
                (rng, lane)))"

definition init_mix :: "params \<Rightarrow> u32 \<Rightarrow> u32 \<Rightarrow> mix \<Rightarrow> mix" where
  "init_mix p seed_lo seed_hi stack =
     (let z = fnv1a kFnvOffsetBasis seed_lo; w = fnv1a z seed_hi
      in for_up kLanes (\<lambda>l mix. mix[l := init_lane p z w l (mix ! l)]) stack)"

definition kLineWords :: nat where "kLineWords = kLanes * kDagLoads"

definition cache_exec :: "u32 list \<Rightarrow> u32 list \<Rightarrow> nat \<Rightarrow> mix \<Rightarrow> mix" where
  "cache_exec program l1 i mix =
     (let op = kCacheBase + i * kCacheWords;
          src = program ! op; dst = program ! (op + 1); sel = program ! (op + 2)
      in for_up kLanes (\<lambda>l mix.
           let offset = mix_get mix l src mod of_nat kL1Words
           in mix_merge mix l dst (l1 ! unat offset) sel) mix)"

definition math_exec :: "u32 list \<Rightarrow> nat \<Rightarrow> mix \<Rightarrow> mix" where
  "math_exec program i mix =
     (let op = kMathBase + i * kMathWords;
          src1 = program ! op; src2 = program ! (op + 1); sel1 = program ! (op + 2);
          dst = program ! (op + 3); sel2 = program ! (op + 4)
      in for_up kLanes (\<lambda>l mix.
           let data = random_math (mix_get mix l src1) (mix_get mix l src2) sel1
           in mix_merge mix l dst data sel2) mix)"

definition lane_offset :: "u32 \<Rightarrow> nat \<Rightarrow> nat" where
  "lane_offset r l = unat (((of_nat l XOR r) mod of_nat kLanes) * of_nat kDagLoads)"

definition dag_exec :: "u32 list \<Rightarrow> u32 \<Rightarrow> u32 list \<Rightarrow> mix \<Rightarrow> mix" where
  "dag_exec program r line mix =
     for_up kLanes (\<lambda>l.
       for_up kDagLoads (\<lambda>i mix.
         let op = kDagBase + i * kDagWords
         in mix_merge mix l (program ! op) (line ! (lane_offset r l + i)) (program ! (op + 1)))) mix"

definition run_round :: "params \<Rightarrow> u32 list \<Rightarrow> u32 \<Rightarrow> u32 list \<Rightarrow> u32 list \<Rightarrow> mix \<Rightarrow> mix" where
  "run_round p program r line l1 mix =
     dag_exec program r line
       (for_up (steps_of p)
          (\<lambda>i mix.
             let mix = (if i < unat (cache_ops p) then cache_exec program l1 i mix else mix)
             in if i < unat (math_ops p) then math_exec program i mix else mix)
          mix)"

section \<open>The hash of one nonce\<close>

type_synonym dag_lines = "u64 \<Rightarrow> u32 list option"

record pp_hash =
  h_mix :: "u32 list"
  h_digest :: "u32 list"

definition seed_state :: "params \<Rightarrow> u32 list \<Rightarrow> u64 \<Rightarrow> u32 list" where
  "seed_state p header nonce =
     keccak_f800 (map (\<lambda>i. header ! i) [0..<8] @ [ucast nonce, ucast (drop_bit 32 nonce)] @
                  map (\<lambda>i. seal_seed p ! (i - 10)) [10..<25])"

definition hash_rounds ::
  "params \<Rightarrow> u32 list \<Rightarrow> u32 list \<Rightarrow> u64 \<Rightarrow> dag_lines \<Rightarrow> mix \<Rightarrow> mix option" where
  "hash_rounds p program l1 lines dag mix =
     for_fail (unat (rounds p)) (\<lambda>r mix.
       let index = ucast (mix_get mix (r mod kLanes) 0) mod lines
       in case dag index of None \<Rightarrow> None
          | Some line \<Rightarrow> Some (run_round p program (of_nat r) line l1 mix)) mix"

definition lane_hash :: "params \<Rightarrow> mix \<Rightarrow> nat \<Rightarrow> u32" where
  "lane_hash p mix l =
     for_up (unat (regs p)) (\<lambda>r h. fnv1a h (mix_get mix l (of_nat r))) kFnvOffsetBasis"

definition fold_lanes :: "params \<Rightarrow> mix \<Rightarrow> u32 list" where
  "fold_lanes p mix =
     for_up kLanes (\<lambda>l out. out[l mod 8 := fnv1a (out ! (l mod 8)) (lane_hash p mix l)])
       (replicate 8 kFnvOffsetBasis)"

definition final_state :: "params \<Rightarrow> u32 list \<Rightarrow> u32 list \<Rightarrow> u32 list" where
  "final_state p seed mix8 =
     keccak_f800 (map (\<lambda>i. seed ! i) [0..<8] @ map (\<lambda>i. mix8 ! (i - 8)) [8..<16] @
                  map (\<lambda>i. seal_final p ! (i - 16)) [16..<25])"

definition pp_hash_of ::
  "params \<Rightarrow> u32 list \<Rightarrow> u32 list \<Rightarrow> u64 \<Rightarrow> dag_lines \<Rightarrow> mix \<Rightarrow> u32 list \<Rightarrow> u64 \<Rightarrow> pp_hash option"
where
  "pp_hash_of p program l1 lines dag stack header nonce =
     (if lines = 0 then None
      else
        let seed = seed_state p header nonce;
            mix = init_mix p (seed ! 0) (seed ! 1) stack
        in case hash_rounds p program l1 lines dag mix of None \<Rightarrow> None
           | Some mix \<Rightarrow>
               let mix8 = fold_lanes p mix;
                   last = final_state p seed mix8
               in Some \<lparr>h_mix = mix8, h_digest = map (\<lambda>i. last ! i) [0..<8]\<rparr>)"

section \<open>Lemmas: the bit operations\<close>

lemma rotl32_rotl:
  assumes "n \<le> 32"
  shows "rotl32 x n = word_rotl (unat n) x"
proof (cases "n = 0")
  case False
  have n: "0 < unat n" "unat n \<le> 32"
    using False assms by (auto simp: unat_gt_0 word_le_nat_alt)
  have s: "unat (32 - n) = 32 - unat n"
    using assms by (subst unat_sub_exact) auto
  show ?thesis
  proof (rule bit_word_eqI)
    fix k assume k: "k < LENGTH(32)"
    show "bit (rotl32 x n) k = bit (word_rotl (unat n) x) k"
    proof (cases "unat n = 32")
      case True
      with k False show ?thesis by (simp add: rotl32_def bit_simps s)
    next
      case F: False
      with n have "unat n < 32" by simp
      show ?thesis
      proof (cases "k < unat n")
        case True
        have "(k + (32 - unat n mod 32)) mod 32 = k + 32 - unat n"
          using True \<open>unat n < 32\<close> k by simp
        moreover have "k + 32 - unat n = 32 - unat n + k" using \<open>unat n < 32\<close> by simp
        ultimately show ?thesis using True k False by (auto simp: rotl32_def bit_simps s)
      next
        case F2: False
        have "(k + (32 - unat n mod 32)) mod 32 = k - unat n"
          using F2 \<open>unat n < 32\<close> k by (simp add: mod_if)
        moreover have "\<not> bit x (32 - unat n + k)"
          using F2 \<open>unat n < 32\<close> by (auto dest!: bit_imp_le_length)
        ultimately show ?thesis
          using F2 k False by (simp add: rotl32_def bit_or_iff bit_word_rotl_iff
              bit_push_bit_iff bit_drop_bit_eq s)
      qed
    qed
  qed
next
  case True
  then show ?thesis
    by (intro bit_word_eqI) (simp add: rotl32_def bit_word_rotl_iff)
qed

lemma rotl32_inj:
  assumes "n \<le> 32"
  shows "rotl32 x n = rotl32 y n \<longleftrightarrow> x = y"
  unfolding rotl32_rotl [OF assms] by (metis word_rot_lr)

lemma merge_rotation_range:
  "1 \<le> unat (merge_rotation sel)" "unat (merge_rotation sel) \<le> 31"
  "merge_rotation sel \<le> 32" "32 - merge_rotation sel \<le> 32"
  "unat (32 - merge_rotation sel) = 32 - unat (merge_rotation sel)"
proof -
  have m: "unat (drop_bit 16 sel mod 31) < 31"
    using unat_mod_less [of "31 :: u32" "drop_bit 16 sel"] by simp
  then have e: "unat (merge_rotation sel) = unat (drop_bit 16 sel mod 31) + 1"
    unfolding merge_rotation_def by (subst unat_add_exact) auto
  show "1 \<le> unat (merge_rotation sel)" "unat (merge_rotation sel) \<le> 31" using m e by auto
  then show a: "merge_rotation sel \<le> 32" by (simp add: word_le_nat_alt)
  then show b: "unat (32 - merge_rotation sel) = 32 - unat (merge_rotation sel)"
    by (subst unat_sub_exact) auto
  show "32 - merge_rotation sel \<le> 32" by (simp add: word_le_nat_alt b)
qed

lemma times_33_inj: "(x :: u32) * 33 = y * 33 \<longleftrightarrow> x = y"
proof
  assume "x * 33 = y * 33"
  then have "x * (33 * 1041204193) = y * (33 * 1041204193)" by (simp only: mult.assoc [symmetric])
  moreover have "(33 :: u32) * 1041204193 = 1" by simp
  ultimately show "x = y" by (simp only: mult_1_right)
qed simp

lemma xor_right_inj: "x XOR b = y XOR b \<longleftrightarrow> x = y" for x y b :: "'a::len word"
  by (metis xor.assoc xor_self_eq xor.right_neutral)

text \<open>
  Folding a word into a register keeps the register's entropy: for every word folded
  in and every selector, \<^verbatim>\<open>random_merge\<close> is a bijection on the register's values.
\<close>

theorem random_merge_bij: "bij (\<lambda>a. random_merge a b sel)"
proof -
  have "inj (\<lambda>a. random_merge a b sel)"
    by (rule injI)
      (auto simp: random_merge_def Let_def times_33_inj rotl32_inj merge_rotation_range
        xor_right_inj split: if_splits)
  then show ?thesis by (simp add: bij_def finite_UNIV_inj_surj)
qed

lemma and_top_bit: "(x AND 0x80000000 = 0) = (unat x < 2147483648)" for x :: u32
proof -
  have "(x AND 0x80000000 = 0) = (\<not> bit x 31)"
    using and_exp_eq_0_iff_not_bit [of x 31] by simp
  also have "bit x 31 = bit (unat x) 31" by (simp add: bit_unsigned_iff)
  also have "\<dots> = odd (unat x div 2147483648)" by (simp add: bit_iff_odd)
  also have "(\<not> \<dots>) = (unat x < 2147483648)"
  proof -
    have "unat x div 2147483648 < 2" by (rule less_mult_imp_div_less) simp
    then show ?thesis by (auto simp: div_eq_0_iff numeral_2_eq_2 less_Suc_eq)
  qed
  finally show ?thesis .
qed

definition clz_ok :: "nat \<Rightarrow> nat \<Rightarrow> nat \<Rightarrow> bool" where
  "clz_ok n x k \<longleftrightarrow> n \<le> k \<and> k \<le> 32 \<and>
     (k < 32 \<longrightarrow> 2 ^ 31 \<le> x * 2 ^ (k - n) \<and> x * 2 ^ (k - n) < 2 ^ 32) \<and>
     (k = 32 \<and> n < 32 \<longrightarrow> x * 2 ^ (31 - n) < 2 ^ 31)"

lemma clz_ok_step:
  assumes "clz_ok (Suc n) (2 * x) k" "n < 32" "x < 2 ^ 31"
  shows "clz_ok n x k"
proof -
  have e: "2 * x * 2 ^ (k - Suc n) = x * 2 ^ (k - n)" if "n < k" for k
  proof -
    have "k - n = Suc (k - Suc n)" using that by simp
    then show ?thesis by simp
  qed
  have k: "n < k" using assms(1) by (simp add: clz_ok_def)
  have last: "x * 2 ^ (31 - n) < 2 ^ 31" if "k = 32"
  proof (cases "n < 31")
    case True
    then have "2 * x * 2 ^ (31 - Suc n) < 2 ^ 31"
      using assms(1) \<open>k = 32\<close> unfolding clz_ok_def by linarith
    then show ?thesis unfolding e [OF True] .
  next
    case False
    then have "n = 31" using assms(2) by simp
    then show ?thesis using assms(3) by simp
  qed
  show ?thesis
    using assms(1,2) last unfolding clz_ok_def e [OF k] by (simp del: mult_less_cancel2)
qed

lemma clz_loop_ok: "unat n \<le> 32 \<Longrightarrow> clz_ok (unat n) (unat x) (unat (clz_loop n x))"
proof (induction n x rule: clz_loop.induct)
  case (1 n x)
  show ?case
  proof (cases "n < 32 \<and> x AND 0x80000000 = 0")
    case True
    then have n: "unat n < 32" and x: "unat x < 2147483648"
      by (auto simp: word_less_nat_alt and_top_bit)
    have n1: "unat (n + 1) = Suc (unat n)" using n by (subst unat_add_exact) auto
    have x1: "unat (push_bit 1 x) = 2 * unat x"
      using x by (simp add: push_bit_eq_mult unat_mult_exact mult.commute)
    have eq: "clz_loop n x = clz_loop (n + 1) (push_bit 1 x)"
      by (subst clz_loop.simps) (use True in simp)
    have "clz_ok (Suc (unat n)) (2 * unat x) (unat (clz_loop (n + 1) (push_bit 1 x)))"
      using "1.IH" [OF True] n unfolding n1 x1 by simp
    then show ?thesis unfolding eq by (rule clz_ok_step) (use n x in simp_all)
  next
    case False
    then have eq: "clz_loop n x = n" by (subst clz_loop.simps) (simp only: if_False)
    show ?thesis
      using False "1.prems" unfolding eq clz_ok_def
      by (auto simp: word_less_nat_alt and_top_bit)
  qed
qed

lemma popcount_loop_spec: "popcount_loop n x = n + of_nat (card {i. bit x i})"
proof (induction n x rule: popcount_loop.induct)
  case (1 n x)
  show ?case
  proof (cases "x = 0")
    case False
    have fin: "finite {i. bit y i}" for y :: u32
      by (rule finite_subset [of _ "{..<32}"]) (auto dest: bit_imp_le_length)
    have "{i. bit x i} = (if odd x then {0} else {}) \<union> Suc ` {i. bit (drop_bit 1 x) i}"
    proof (rule set_eqI)
      fix i show "i \<in> {i. bit x i} \<longleftrightarrow> i \<in> (if odd x then {0} else {}) \<union> Suc ` {i. bit (drop_bit 1 x) i}"
        by (cases i) (auto simp: bit_simps bit_0)
    qed
    then have "card {i. bit x i} = (if odd x then 1 else 0) + card {i. bit (drop_bit 1 x) i}"
      using fin by (simp add: card_image card_insert_disjoint)
    moreover have "x AND 1 = of_nat (if odd x then 1 else 0)"
      by (simp add: and_one_eq mod2_eq_if)
    ultimately show ?thesis
      using 1 False by (subst popcount_loop.simps) simp
  next
    case True
    moreover have "{i. bit (0 :: u32) i} = {}" by simp
    ultimately show ?thesis by (subst popcount_loop.simps) (simp add: bot_fun_def)
  qed
qed

text \<open>
  The two counting loops count: leading zeros are the exponent that lifts the word
  into the top half of the range, and the population count is the number of set bits.
\<close>

theorem bit_counts:
  "clz32 0 = 32 \<and>
   (x \<noteq> 0 \<longrightarrow> unat (clz32 x) < 32 \<and> 2 ^ 31 \<le> unat x * 2 ^ unat (clz32 x) \<and>
               unat x * 2 ^ unat (clz32 x) < 2 ^ 32) \<and>
   popcount32 x = of_nat (card {i. bit x i})"
proof -
  note spec = clz_loop_ok [of 0, simplified, unfolded clz_ok_def]
  have z: "unat (clz32 0) = 32"
    using spec [of 0] unfolding clz32_def by auto
  have "unat (clz32 x) \<noteq> 32" if "x \<noteq> 0"
    using spec [of x] that unat_gt_0 [of x] unfolding clz32_def by auto
  then have nz: "x \<noteq> 0 \<longrightarrow> unat (clz32 x) < 32 \<and> 2 ^ 31 \<le> unat x * 2 ^ unat (clz32 x) \<and>
               unat x * 2 ^ unat (clz32 x) < 2 ^ 32"
    using spec [of x] unfolding clz32_def by auto
  have "clz32 0 = 32" using z by (simp add: word_unat_eq_iff)
  with nz show ?thesis by (simp add: popcount32_def popcount_loop_spec)
qed

theorem bit_counts_witness: "2 ^ 31 \<le> unat (5 :: u32) * 2 ^ unat (clz32 5)"
  using bit_counts [of 5] by simp
section \<open>Lemmas: which quarter of a line a lane reads\<close>

lemma lane_offset_take_bit:
  "lane_offset r l = 4 * take_bit 4 (l XOR unat r)"
proof -
  let ?t = "take_bit 4 (of_nat l XOR r) :: u32"
  have a: "(of_nat l XOR r) mod 16 = ?t"
    by (simp add: take_bit_eq_mod)
  have b: "unat ?t = take_bit 4 (l XOR unat r)"
    by (rule bit_eqI)
      (auto simp: bit_simps bit_take_bit_iff)
  have c: "unat ?t < 16"
    unfolding b using take_bit_nat_less_exp [of 4 "l XOR unat r"] by simp
  have "unat (?t * 4) = unat ?t * 4"
    using c by (subst unat_mult_exact) simp_all
  then show ?thesis by (simp only: lane_offset_def kLanes_def kDagLoads_def a b of_nat_numeral mult.commute)
qed

lemma lane_quarters: "bij_betw (\<lambda>l. take_bit 4 (l XOR n)) {..<16} {..<16 :: nat}"
proof -
  have e: "take_bit 4 (l XOR n) = l XOR take_bit 4 n" if "l < 16" for l :: nat
    using that by (simp add: take_bit_nat_eq_self)
  have x: "(l XOR m) XOR m = l" for l m :: nat
    by (simp add: xor.assoc)
  have "inj_on (\<lambda>l. take_bit 4 (l XOR n)) {..<16}"
  proof (rule inj_onI)
    fix l l' :: nat assume "l \<in> {..<16}" "l' \<in> {..<16}" "take_bit 4 (l XOR n) = take_bit 4 (l' XOR n)"
    then have "l XOR take_bit 4 n = l' XOR take_bit 4 n" by (simp only: e lessThan_iff)
    then have "(l XOR take_bit 4 n) XOR take_bit 4 n = (l' XOR take_bit 4 n) XOR take_bit 4 n"
      by (rule arg_cong)
    then show "l = l'" by (simp only: x)
  qed
  moreover have "(\<lambda>l. take_bit 4 (l XOR n)) ` {..<16} \<subseteq> {..<16}"
  proof (rule image_subsetI)
    fix l :: nat show "take_bit 4 (l XOR n) \<in> {..<16}"
      using take_bit_nat_less_exp [of 4 "l XOR n"] by simp
  qed
  ultimately show ?thesis
    by (simp add: bij_betw_def endo_inj_surj)
qed

lemma lane_offset_less: "lane_offset r l \<le> 60"
  using take_bit_nat_less_exp [of 4 "l XOR unat r"] by (simp add: lane_offset_take_bit del: take_bit_xor)

lemma lane_words_inj:
  assumes "l < 16" "l' < 16" "i < 4" "i' < 4" "lane_offset r l + i = lane_offset r l' + i'"
  shows "l = l' \<and> i = i'"
proof -
  have "(lane_offset r l + i) div 4 = take_bit 4 (l XOR unat r)"
    "(lane_offset r l + i) mod 4 = i"
    "(lane_offset r l' + i') div 4 = take_bit 4 (l' XOR unat r)"
    "(lane_offset r l' + i') mod 4 = i'"
    using assms(3,4) by (simp_all add: lane_offset_take_bit del: take_bit_xor)
  with assms(5) have "take_bit 4 (l XOR unat r) = take_bit 4 (l' XOR unat r)" "i = i'" by simp_all
  then show ?thesis
    using bij_betw_imp_inj_on [OF lane_quarters [of "unat r"]] assms(1,2)
    by (auto dest: inj_onD)
qed

lemma lane_words_cover:
  "bij_betw (\<lambda>(l, i). lane_offset r l + i) ({..<kLanes} \<times> {..<kDagLoads}) {..<kLineWords}"
proof -
  let ?f = "\<lambda>(l, i). lane_offset r l + i"
  have inj: "inj_on ?f ({..<16} \<times> {..<4})"
    by (rule inj_onI) (auto dest: lane_words_inj)
  have "lane_offset r l + i < 64" if "i < 4" for l i
    using lane_offset_less [of r l] that by simp
  then have "?f ` ({..<16} \<times> {..<4}) \<subseteq> {..<64}" by auto
  moreover have "card (?f ` ({..<16} \<times> {..<4})) = card {..<64 :: nat}"
    by (simp add: card_image [OF inj])
  ultimately have "?f ` ({..<16} \<times> {..<4}) = {..<64}"
    by (intro card_subset_eq) simp_all
  with inj show ?thesis
    by (simp add: bij_betw_def kLineWords_def kLanes_def kDagLoads_def)
qed

text \<open>
  In every round the sixteen lanes read the sixteen quarters of the line in some
  order: each of its 64 words is folded in by exactly one lane and one load.
\<close>

theorem dag_words_cover:
  "bij_betw (\<lambda>(l, i). lane_offset r l + i) ({..<kLanes} \<times> {..<kDagLoads}) {..<kLineWords}"
  by (rule lane_words_cover)

section \<open>Lemmas: the words a hash depends on\<close>

text \<open>
  Two mixes agree when the registers a fork has hold the same words; the tail of a lane, which
  the source leaves uninitialised, may differ.
\<close>

definition mix_shape :: "mix \<Rightarrow> bool" where
  "mix_shape m \<longleftrightarrow> length m = kLanes \<and> (\<forall>l < kLanes. length (m ! l) = kMaxRegs)"

definition mix_agree :: "params \<Rightarrow> mix \<Rightarrow> mix \<Rightarrow> bool" where
  "mix_agree p m n \<longleftrightarrow> mix_shape m \<and> mix_shape n \<and>
     (\<forall>l < kLanes. \<forall>r < unat (regs p). m ! l ! r = n ! l ! r)"

definition program_ok :: "params \<Rightarrow> u32 list \<Rightarrow> bool" where
  "program_ok p w \<longleftrightarrow> wf_params p \<and>
     (\<forall>i < kProgramWords. names_a_register i \<longrightarrow> unat (w ! i) < unat (regs p))"

lemma program_ok_build: "wf_params p \<Longrightarrow> program_ok p (build_program p period)"
  by (simp add: program_ok_def program_register)

lemma program_ok_operands:
  assumes "program_ok p w"
  shows "i < unat (cache_ops p) \<Longrightarrow> unat (w ! (kCacheBase + i * kCacheWords)) < unat (regs p)"
    "i < unat (cache_ops p) \<Longrightarrow> unat (w ! (kCacheBase + i * kCacheWords + 1)) < unat (regs p)"
    "i < unat (math_ops p) \<Longrightarrow> unat (w ! (kMathBase + i * kMathWords)) < unat (regs p)"
    "i < unat (math_ops p) \<Longrightarrow> unat (w ! (kMathBase + i * kMathWords + 1)) < unat (regs p)"
    "i < unat (math_ops p) \<Longrightarrow> unat (w ! (kMathBase + i * kMathWords + 3)) < unat (regs p)"
    "i < kDagLoads \<Longrightarrow> unat (w ! (kDagBase + i * kDagWords)) < unat (regs p)"
proof -
  have w: "unat (w ! i) < unat (regs p)" if "i < 134" "names_a_register i" for i
    using assms that by (simp add: program_ok_def layout_simps)
  have c: "unat (cache_ops p) \<le> 12" and m: "unat (math_ops p) \<le> 18"
    using assms by (auto simp: program_ok_def wf_params_def kMaxCacheOps_def kMaxMathOps_def)
  show "i < unat (cache_ops p) \<Longrightarrow> unat (w ! (kCacheBase + i * kCacheWords)) < unat (regs p)"
    "i < unat (cache_ops p) \<Longrightarrow> unat (w ! (kCacheBase + i * kCacheWords + 1)) < unat (regs p)"
    "i < unat (math_ops p) \<Longrightarrow> unat (w ! (kMathBase + i * kMathWords)) < unat (regs p)"
    "i < unat (math_ops p) \<Longrightarrow> unat (w ! (kMathBase + i * kMathWords + 1)) < unat (regs p)"
    "i < unat (math_ops p) \<Longrightarrow> unat (w ! (kMathBase + i * kMathWords + 3)) < unat (regs p)"
    "i < kDagLoads \<Longrightarrow> unat (w ! (kDagBase + i * kDagWords)) < unat (regs p)"
    using c m by (auto intro!: w simp: names_a_register_def layout_defs Let_def mod_Suc)
qed

lemma mix_agree_get:
  "mix_agree p m n \<Longrightarrow> l < kLanes \<Longrightarrow> unat r < unat (regs p) \<Longrightarrow> mix_get m l r = mix_get n l r"
  by (simp add: mix_agree_def mix_get_def)

lemma mix_shape_merge: "mix_shape m \<Longrightarrow> mix_shape (mix_merge m l dst data sel)"
  by (cases "l < kLanes") (auto simp: mix_shape_def mix_merge_def nth_list_update list_update_beyond)

lemma mix_agree_merge:
  assumes "mix_agree p m n" "l < kLanes" "unat dst < unat (regs p)" "data = data'"
  shows "mix_agree p (mix_merge m l dst data sel) (mix_merge n l dst data' sel)"
  using assms mix_agree_get [OF assms(1-3)]
  by (auto simp: mix_agree_def mix_shape_merge)
    (cases "unat dst < kMaxRegs";
      auto simp: mix_merge_def mix_shape_def nth_list_update list_update_beyond)

lemma cache_exec_agree:
  assumes "program_ok p w" "i < unat (cache_ops p)" "mix_agree p m n"
  shows "mix_agree p (cache_exec w l1 i m) (cache_exec w l1 i n)"
  unfolding cache_exec_def Let_def
  using assms(3)
  by (rule for_up_relate [where R = "\<lambda>_. mix_agree p"])
    (simp add: mix_agree_merge mix_agree_get program_ok_operands [OF assms(1), simplified] assms(2))

lemma math_exec_agree:
  assumes "program_ok p w" "i < unat (math_ops p)" "mix_agree p m n"
  shows "mix_agree p (math_exec w i m) (math_exec w i n)"
  unfolding math_exec_def Let_def
  using assms(3)
  by (rule for_up_relate [where R = "\<lambda>_. mix_agree p"])
    (simp add: mix_agree_merge mix_agree_get program_ok_operands [OF assms(1), simplified] assms(2))

lemma dag_exec_agree:
  assumes "program_ok p w" "mix_agree p m n"
  shows "mix_agree p (dag_exec w r line m) (dag_exec w r line n)"
  unfolding dag_exec_def Let_def
  using assms(2)
proof (rule for_up_relate [where R = "\<lambda>_. mix_agree p"])
  fix l s t assume l: "l < kLanes" and st: "mix_agree p s t"
  show "mix_agree p
    (for_up kDagLoads (\<lambda>i mix. mix_merge mix l (w ! (kDagBase + i * kDagWords))
       (line ! (lane_offset r l + i)) (w ! (kDagBase + i * kDagWords + 1))) s)
    (for_up kDagLoads (\<lambda>i mix. mix_merge mix l (w ! (kDagBase + i * kDagWords))
       (line ! (lane_offset r l + i)) (w ! (kDagBase + i * kDagWords + 1))) t)"
    using st by (rule for_up_relate [where R = "\<lambda>_. mix_agree p"])
      (simp add: mix_agree_merge l program_ok_operands [OF assms(1)])
qed

lemma run_round_agree:
  assumes "program_ok p w" "mix_agree p m n"
  shows "mix_agree p (run_round p w r line l1 m) (run_round p w r line l1 n)"
  unfolding run_round_def Let_def
  by (rule dag_exec_agree [OF assms(1)], rule for_up_relate [where R = "\<lambda>_. mix_agree p"])
    (auto intro!: cache_exec_agree math_exec_agree assms)

lemma init_lane_agree:
  assumes "length a = kMaxRegs" "length b = kMaxRegs" "unat (regs p) \<le> kMaxRegs"
  shows "length (init_lane p z w l a) = kMaxRegs \<and> length (init_lane p z w l b) = kMaxRegs \<and>
    (\<forall>r < unat (regs p). init_lane p z w l a ! r = init_lane p z w l b ! r)"
proof -
  let ?R = "\<lambda>i (g, a) (h, b). g = h \<and> length a = kMaxRegs \<and> length b = kMaxRegs \<and>
    (\<forall>r < i. a ! r = (b :: u32 list) ! r)"
  let ?body = "\<lambda>r (rng, lane). let (v, rng') = kiss99_next rng in (rng', lane[r := v])"
  have "?R (unat (regs p)) (for_up (unat (regs p)) ?body (g, a)) (for_up (unat (regs p)) ?body (g, b))" for g
    by (rule for_up_relate [where R = ?R])
      (use assms in \<open>auto simp: split_beta Let_def nth_list_update less_Suc_eq\<close>)
  then show ?thesis by (simp add: init_lane_def Let_def split_beta)
qed

lemma init_mix_agree:
  assumes "mix_shape a" "mix_shape b" "wf_params p"
  shows "mix_agree p (init_mix p lo hi a) (init_mix p lo hi b)"
proof -
  let ?f = "\<lambda>z w l mix. mix[l := init_lane p z w l (mix ! l)] :: mix"
  let ?R = "\<lambda>i a b. mix_shape a \<and> mix_shape b \<and>
    (\<forall>l < i. \<forall>r < unat (regs p). a ! l ! r = b ! l ! r)"
  have "?R kLanes (for_up kLanes (?f z w) a) (for_up kLanes (?f z w) b)" for z w
  proof (rule for_up_relate [where R = ?R])
    fix i s t assume i: "i < kLanes" and R: "?R i s t"
    then have len: "length (s ! i) = kMaxRegs" "length (t ! i) = kMaxRegs"
      "length s = kLanes" "length t = kLanes"
      by (auto simp: mix_shape_def)
    have r: "unat (regs p) \<le> kMaxRegs" using assms(3) by (simp add: wf_params_def)
    from R init_lane_agree [OF len(1,2) r, of z w i] i
    show "?R (Suc i) (?f z w i s) (?f z w i t)"
      by (auto simp: mix_shape_def nth_list_update less_Suc_eq)
  qed (use assms in auto)
  then show ?thesis unfolding init_mix_def mix_agree_def Let_def by blast
qed

lemma lane_hash_agree:
  assumes "mix_agree p m n" "l < kLanes"
  shows "lane_hash p m l = lane_hash p n l"
  unfolding lane_hash_def
proof (rule for_up_cong)
  fix r h assume "r < unat (regs p)"
  moreover from this have "unat (of_nat r :: u32) = r"
    using unat_u32_less [of "regs p"] by (intro unat_of_nat_u32) linarith
  ultimately show "fnv1a h (mix_get m l (of_nat r)) = fnv1a h (mix_get n l (of_nat r))"
    using mix_agree_get [OF assms, of "of_nat r"] by simp
qed

lemma fold_lanes_agree: "mix_agree p m n \<Longrightarrow> fold_lanes p m = fold_lanes p n"
  unfolding fold_lanes_def by (rule for_up_cong) (simp add: lane_hash_agree)

lemma hash_rounds_agree:
  assumes "program_ok p w" "mix_agree p m n" "lines \<noteq> 0" "\<And>i. i < lines \<Longrightarrow> dag i = dag' i"
  shows "rel_option (mix_agree p) (hash_rounds p w l1 lines dag m) (hash_rounds p w l1 lines dag' n)"
  unfolding hash_rounds_def Let_def
  using assms(2)
proof (rule for_fail_relate)
  fix r s t assume st: "mix_agree p s t"
  have "wf_params p" using assms(1) by (simp add: program_ok_def)
  then have "mix_get s (r mod kLanes) 0 = mix_get t (r mod kLanes) 0"
    using wf_params_regs(1) [of p] by (intro mix_agree_get [OF st]) (auto simp: kLanes_def)
  moreover have "ucast (mix_get t (r mod kLanes) 0) mod lines < lines"
    by (rule word_mod_less) (rule assms(3))
  ultimately show "rel_option (mix_agree p)
      (case dag (ucast (mix_get s (r mod kLanes) 0) mod lines) of None \<Rightarrow> None
       | Some line \<Rightarrow> Some (run_round p w (of_nat r) line l1 s))
      (case dag' (ucast (mix_get t (r mod kLanes) 0) mod lines) of None \<Rightarrow> None
       | Some line \<Rightarrow> Some (run_round p w (of_nat r) line l1 t))"
    by (auto simp: assms(4) run_round_agree [OF assms(1) st] split: option.split)
qed

lemma pp_hash_agree:
  assumes "program_ok p w" "mix_shape a" "mix_shape b" "\<And>i. i < lines \<Longrightarrow> dag i = dag' i"
  shows "pp_hash_of p w l1 lines dag a header nonce = pp_hash_of p w l1 lines dag' b header nonce"
proof (cases "lines = 0")
  case False
  have wf: "wf_params p" using assms(1) by (simp add: program_ok_def)
  let ?s = "seed_state p header nonce"
  have "rel_option (mix_agree p)
    (hash_rounds p w l1 lines dag (init_mix p (?s ! 0) (?s ! 1) a))
    (hash_rounds p w l1 lines dag' (init_mix p (?s ! 0) (?s ! 1) b))"
    using assms False by (intro hash_rounds_agree init_mix_agree wf)
  then show ?thesis
    by (cases rule: option.rel_cases)
      (auto simp: pp_hash_of_def Let_def False dest: fold_lanes_agree)
qed (simp add: pp_hash_of_def)

lemma hash_rounds_total:
  assumes "lines \<noteq> 0" "\<And>i. i < lines \<Longrightarrow> dag i \<noteq> None"
  shows "\<exists>m'. hash_rounds p w l1 lines dag m = Some m'"
proof -
  have "ucast x mod lines < lines" for x :: u32 by (rule word_mod_less) (rule assms(1))
  then have some: "\<exists>line. dag (ucast x mod lines) = Some line" for x :: u32
    using assms(2) by blast
  have "\<exists>s'. (case dag (ucast x mod lines) of None \<Rightarrow> None
      | Some line \<Rightarrow> Some (run_round p w r line l1 s)) = Some s'" for x :: u32 and r s
    using some [of x] by auto
  then have "\<exists>t. hash_rounds p w l1 lines dag m = Some t \<and> True"
    unfolding hash_rounds_def Let_def
    by (intro for_fail_total [where P = "\<lambda>_ _. True"]) (simp_all only: simp_thms)
  then show ?thesis by simp
qed

lemma length_keccak_f800 [len_simps]: "length (keccak_f800 st) = length st"
proof -
  have "length (keccak_theta st) = length st" for st
  proof -
    have "length (for_up n (\<lambda>x st. for_up m (\<lambda>y st. st[g x y := h x y st]) st) s) = length s"
      for n m and g :: "nat \<Rightarrow> nat \<Rightarrow> nat" and h :: "nat \<Rightarrow> nat \<Rightarrow> u32 list \<Rightarrow> u32" and s
    proof (induction n)
      case (Suc n)
      have "length (for_up m (\<lambda>y st. st[g n y := h n y st]) t) = length t" for t
        by (induction m) (simp_all add: for_up_Suc)
      with Suc show ?case by (simp add: for_up_Suc)
    qed simp
    then show ?thesis by (simp add: keccak_theta_def Let_def)
  qed
  moreover have "length (keccak_chi b st) = length st" for b st
  proof -
    have "length (for_up m (\<lambda>x st. st[g x := h x]) s) = length s"
      for m and g :: "nat \<Rightarrow> nat" and h :: "nat \<Rightarrow> u32" and s
      by (rule length_for_up_update)
    then have "length (for_up n (\<lambda>y. for_up 5 (\<lambda>x st.
       st[x + 5 * y := b ! (x + 5 * y)
            XOR (NOT (b ! ((x + 1) mod 5 + 5 * y)) AND b ! ((x + 2) mod 5 + 5 * y))])) st) = length st"
      for n by (induction n) (simp_all add: for_up_Suc)
    then show ?thesis by (simp add: keccak_chi_def)
  qed
  ultimately have "length (keccak_round r st) = length st" for r st
    by (simp add: keccak_round_def Let_def)
  then have "length (for_up n keccak_round st) = length st" for n
    by (induction n) (simp_all add: for_up_Suc)
  then show ?thesis by (simp add: keccak_f800_def)
qed

lemma length_fold_lanes [len_simps]: "length (fold_lanes p m) = 8"
proof -
  have "length (for_up n (\<lambda>l out. out[l mod 8 := fnv1a (out ! (l mod 8)) (lane_hash p m l)]) s) =
      length s" for n and s :: "u32 list"
    by (induction n) (simp_all add: for_up_Suc)
  then show ?thesis by (simp add: fold_lanes_def)
qed

section \<open>Properties of the hash\<close>

text \<open>
  Claim C32. A hash has a result whenever the dataset has lines and every line below its count
  can be produced; the result is eight mix words and eight digest words.
\<close>

theorem pp_hash_total:
  assumes "lines \<noteq> 0" and "\<And>i. i < lines \<Longrightarrow> dag i \<noteq> None"
  shows "\<exists>h. pp_hash_of p w l1 lines dag stack header nonce = Some h \<and>
           length (h_mix h) = 8 \<and> length (h_digest h) = 8"
proof -
  let ?s = "seed_state p header nonce"
  obtain m where "hash_rounds p w l1 lines dag (init_mix p (?s ! 0) (?s ! 1) stack) = Some m"
    using hash_rounds_total [of lines dag, OF assms] by blast
  then show ?thesis using assms(1) by (simp add: pp_hash_of_def Let_def len_simps)
qed

theorem pp_hash_total_witness:
  "\<exists>h. pp_hash_of kKawpow (build_program kKawpow 7) [] 3 (\<lambda>i. Some [ucast i]) [] [] 5 = Some h \<and>
     length (h_mix h) = 8 \<and> length (h_digest h) = 8"
  by (rule pp_hash_total) simp_all

text \<open>
  A hash depends on nothing it should not: neither on the words the stack held where
  the fork has fewer registers than the layout, nor on what the dataset gives at or past its
  count of lines. This covers the failing hash too.
\<close>

theorem pp_hash_inputs:
  assumes "wf_params p" and "mix_shape a" "mix_shape b"
    and "\<And>i. i < lines \<Longrightarrow> dag i = dag' i"
  shows "pp_hash_of p (build_program p period) l1 lines dag a header nonce =
         pp_hash_of p (build_program p period) l1 lines dag' b header nonce"
  using assms by (intro pp_hash_agree program_ok_build)

theorem pp_hash_inputs_witness:
  "pp_hash_of kKawpow (build_program kKawpow 7) [] 2 (\<lambda>i. if i < 2 then Some [ucast i] else None)
     (replicate 16 (replicate 32 0)) [] 5 =
   pp_hash_of kKawpow (build_program kKawpow 7) [] 2 (\<lambda>i. Some [ucast i])
     (replicate 16 (replicate 32 1)) [] 5"
  by (rule pp_hash_inputs) (simp_all add: mix_shape_def kLanes_def kMaxRegs_def)

end
