(* ===== verification/Ethash.thy ===== *)
theory Ethash
  imports Progpow_Hash
begin

text \<open>
  \<^verbatim>\<open>third_party/ethash\<close>, as far as \<^verbatim>\<open>algorithms/progpow/progpow_dag.cpp\<close> calls it: keccak-256 and
  keccak-512, the sizes of an epoch's light cache and dataset, the epoch's seed, the light cache
  and one 64-byte item of the dataset. A \<open>hash512\<close> is its sixteen little-endian words, a
  \<open>hash256\<close> its 32 bytes; C's \<open>int\<close> is HOL's \<open>int\<close>, and the lemmas on the sizes say for which
  epochs nothing leaves 32 bits.
\<close>

section \<open>Keccak\<close>

definition rol64 :: "u64 \<Rightarrow> nat \<Rightarrow> u64" where
  "rol64 x s = push_bit s x OR drop_bit (64 - s) x"

definition round_constants :: "u64 list" where
  "round_constants =
     [0x0000000000000001, 0x0000000000008082, 0x800000000000808a, 0x8000000080008000,
      0x000000000000808b, 0x0000000080000001, 0x8000000080008081, 0x8000000000008009,
      0x000000000000008a, 0x0000000000000088, 0x0000000080008009, 0x000000008000000a,
      0x000000008000808b, 0x800000000000008b, 0x8000000000008089, 0x8000000000008003,
      0x8000000000008002, 0x8000000000000080, 0x000000000000800a, 0x800000008000000a,
      0x8000000080008081, 0x8000000000008080, 0x0000000080000001, 0x8000000080008008]"

text \<open>The body of the loop, which is two rounds: \<open>A\<close> to \<open>E\<close> and back.\<close>

definition keccakf1600_rounds :: "nat \<Rightarrow> u64 list \<Rightarrow> u64 list" where
  "keccakf1600_rounds round st =
     (let Aba = st ! 0; Abe = st ! 1; Abi = st ! 2; Abo = st ! 3; Abu = st ! 4;
          Aga = st ! 5; Age = st ! 6; Agi = st ! 7; Ago = st ! 8; Agu = st ! 9;
          Aka = st ! 10; Ake = st ! 11; Aki = st ! 12; Ako = st ! 13; Aku = st ! 14;
          Ama = st ! 15; Ame = st ! 16; Ami = st ! 17; Amo = st ! 18; Amu = st ! 19;
          Asa = st ! 20; Ase = st ! 21; Asi = st ! 22; Aso = st ! 23; Asu = st ! 24;
          Ba = Aba XOR Aga XOR Aka XOR Ama XOR Asa;
          Be = Abe XOR Age XOR Ake XOR Ame XOR Ase;
          Bi = Abi XOR Agi XOR Aki XOR Ami XOR Asi;
          Bo = Abo XOR Ago XOR Ako XOR Amo XOR Aso;
          Bu = Abu XOR Agu XOR Aku XOR Amu XOR Asu;
          Da = Bu XOR rol64 (Be) 1;
          De = Ba XOR rol64 (Bi) 1;
          Di = Be XOR rol64 (Bo) 1;
          Do = Bi XOR rol64 (Bu) 1;
          Du = Bo XOR rol64 (Ba) 1;
          Ba = Aba XOR Da;
          Be = rol64 (Age XOR De) 44;
          Bi = rol64 (Aki XOR Di) 43;
          Bo = rol64 (Amo XOR Do) 21;
          Bu = rol64 (Asu XOR Du) 14;
          Eba = Ba XOR (NOT Be AND Bi) XOR (round_constants ! round);
          Ebe = Be XOR (NOT Bi AND Bo);
          Ebi = Bi XOR (NOT Bo AND Bu);
          Ebo = Bo XOR (NOT Bu AND Ba);
          Ebu = Bu XOR (NOT Ba AND Be);
          Ba = rol64 (Abo XOR Do) 28;
          Be = rol64 (Agu XOR Du) 20;
          Bi = rol64 (Aka XOR Da) 3;
          Bo = rol64 (Ame XOR De) 45;
          Bu = rol64 (Asi XOR Di) 61;
          Ega = Ba XOR (NOT Be AND Bi);
          Ege = Be XOR (NOT Bi AND Bo);
          Egi = Bi XOR (NOT Bo AND Bu);
          Ego = Bo XOR (NOT Bu AND Ba);
          Egu = Bu XOR (NOT Ba AND Be);
          Ba = rol64 (Abe XOR De) 1;
          Be = rol64 (Agi XOR Di) 6;
          Bi = rol64 (Ako XOR Do) 25;
          Bo = rol64 (Amu XOR Du) 8;
          Bu = rol64 (Asa XOR Da) 18;
          Eka = Ba XOR (NOT Be AND Bi);
          Eke = Be XOR (NOT Bi AND Bo);
          Eki = Bi XOR (NOT Bo AND Bu);
          Eko = Bo XOR (NOT Bu AND Ba);
          Eku = Bu XOR (NOT Ba AND Be);
          Ba = rol64 (Abu XOR Du) 27;
          Be = rol64 (Aga XOR Da) 36;
          Bi = rol64 (Ake XOR De) 10;
          Bo = rol64 (Ami XOR Di) 15;
          Bu = rol64 (Aso XOR Do) 56;
          Ema = Ba XOR (NOT Be AND Bi);
          Eme = Be XOR (NOT Bi AND Bo);
          Emi = Bi XOR (NOT Bo AND Bu);
          Emo = Bo XOR (NOT Bu AND Ba);
          Emu = Bu XOR (NOT Ba AND Be);
          Ba = rol64 (Abi XOR Di) 62;
          Be = rol64 (Ago XOR Do) 55;
          Bi = rol64 (Aku XOR Du) 39;
          Bo = rol64 (Ama XOR Da) 41;
          Bu = rol64 (Ase XOR De) 2;
          Esa = Ba XOR (NOT Be AND Bi);
          Ese = Be XOR (NOT Bi AND Bo);
          Esi = Bi XOR (NOT Bo AND Bu);
          Eso = Bo XOR (NOT Bu AND Ba);
          Esu = Bu XOR (NOT Ba AND Be);
          Ba = Eba XOR Ega XOR Eka XOR Ema XOR Esa;
          Be = Ebe XOR Ege XOR Eke XOR Eme XOR Ese;
          Bi = Ebi XOR Egi XOR Eki XOR Emi XOR Esi;
          Bo = Ebo XOR Ego XOR Eko XOR Emo XOR Eso;
          Bu = Ebu XOR Egu XOR Eku XOR Emu XOR Esu;
          Da = Bu XOR rol64 (Be) 1;
          De = Ba XOR rol64 (Bi) 1;
          Di = Be XOR rol64 (Bo) 1;
          Do = Bi XOR rol64 (Bu) 1;
          Du = Bo XOR rol64 (Ba) 1;
          Ba = Eba XOR Da;
          Be = rol64 (Ege XOR De) 44;
          Bi = rol64 (Eki XOR Di) 43;
          Bo = rol64 (Emo XOR Do) 21;
          Bu = rol64 (Esu XOR Du) 14;
          Aba = Ba XOR (NOT Be AND Bi) XOR (round_constants ! (round + 1));
          Abe = Be XOR (NOT Bi AND Bo);
          Abi = Bi XOR (NOT Bo AND Bu);
          Abo = Bo XOR (NOT Bu AND Ba);
          Abu = Bu XOR (NOT Ba AND Be);
          Ba = rol64 (Ebo XOR Do) 28;
          Be = rol64 (Egu XOR Du) 20;
          Bi = rol64 (Eka XOR Da) 3;
          Bo = rol64 (Eme XOR De) 45;
          Bu = rol64 (Esi XOR Di) 61;
          Aga = Ba XOR (NOT Be AND Bi);
          Age = Be XOR (NOT Bi AND Bo);
          Agi = Bi XOR (NOT Bo AND Bu);
          Ago = Bo XOR (NOT Bu AND Ba);
          Agu = Bu XOR (NOT Ba AND Be);
          Ba = rol64 (Ebe XOR De) 1;
          Be = rol64 (Egi XOR Di) 6;
          Bi = rol64 (Eko XOR Do) 25;
          Bo = rol64 (Emu XOR Du) 8;
          Bu = rol64 (Esa XOR Da) 18;
          Aka = Ba XOR (NOT Be AND Bi);
          Ake = Be XOR (NOT Bi AND Bo);
          Aki = Bi XOR (NOT Bo AND Bu);
          Ako = Bo XOR (NOT Bu AND Ba);
          Aku = Bu XOR (NOT Ba AND Be);
          Ba = rol64 (Ebu XOR Du) 27;
          Be = rol64 (Ega XOR Da) 36;
          Bi = rol64 (Eke XOR De) 10;
          Bo = rol64 (Emi XOR Di) 15;
          Bu = rol64 (Eso XOR Do) 56;
          Ama = Ba XOR (NOT Be AND Bi);
          Ame = Be XOR (NOT Bi AND Bo);
          Ami = Bi XOR (NOT Bo AND Bu);
          Amo = Bo XOR (NOT Bu AND Ba);
          Amu = Bu XOR (NOT Ba AND Be);
          Ba = rol64 (Ebi XOR Di) 62;
          Be = rol64 (Ego XOR Do) 55;
          Bi = rol64 (Eku XOR Du) 39;
          Bo = rol64 (Ema XOR Da) 41;
          Bu = rol64 (Ese XOR De) 2;
          Asa = Ba XOR (NOT Be AND Bi);
          Ase = Be XOR (NOT Bi AND Bo);
          Asi = Bi XOR (NOT Bo AND Bu);
          Aso = Bo XOR (NOT Bu AND Ba);
          Asu = Bu XOR (NOT Ba AND Be)
      in [Aba, Abe, Abi, Abo, Abu,
          Aga, Age, Agi, Ago, Agu,
          Aka, Ake, Aki, Ako, Aku,
          Ama, Ame, Ami, Amo, Amu,
          Asa, Ase, Asi, Aso, Asu])"

definition keccakf1600 :: "u64 list \<Rightarrow> u64 list" where
  "keccakf1600 st = for_up 12 (\<lambda>i. keccakf1600_rounds (2 * i)) st"

definition load_le :: "u8 list \<Rightarrow> u64" where
  "load_le bs = fold (\<lambda>i w. w OR push_bit (8 * i) (ucast (bs ! i))) [0..<8] 0"

definition xor_word :: "nat \<Rightarrow> u64 \<Rightarrow> u64 list \<Rightarrow> u64 list" where
  "xor_word i w st = st[i := st ! i XOR w]"

definition absorb_words :: "nat \<Rightarrow> u8 list \<Rightarrow> u64 list \<Rightarrow> u64 list" where
  "absorb_words n bs st = for_up n (\<lambda>i. xor_word i (load_le (take 8 (drop (8 * i) bs)))) st"

function absorb_blocks :: "nat \<Rightarrow> u8 list \<Rightarrow> u64 list \<Rightarrow> u8 list \<times> u64 list" where
  "absorb_blocks block_size data st =
     (if block_size \<noteq> 0 \<and> block_size \<le> length data
      then absorb_blocks block_size (drop block_size data)
             (keccakf1600 (absorb_words (block_size div 8) data st))
      else (data, st))"
  by pat_completeness auto
termination
  by (relation "measure (\<lambda>(_, data, _). length data)") auto

definition keccak :: "nat \<Rightarrow> u8 list \<Rightarrow> u64 list" where
  "keccak bits data =
     (let hash_size = bits div 8;
          block_size = (1600 - bits * 2) div 8;
          (rest, st) = absorb_blocks block_size data (replicate 25 0);
          whole = length rest div 8;
          st = absorb_words whole rest st;
          tail = drop (8 * whole) rest;
          last_word = load_le (tail @ [0x01] @ replicate (7 - length tail) 0);
          st = xor_word whole last_word st;
          st = xor_word (block_size div 8 - 1) 0x8000000000000000 st;
          st = keccakf1600 st
      in take (hash_size div 8) st)"

type_synonym hash512 = "u32 list"

definition words_of64 :: "u64 list \<Rightarrow> u32 list" where
  "words_of64 ws = concat (map (\<lambda>w. [ucast w, ucast (drop_bit 32 w)]) ws)"

definition bytes_of :: "u32 list \<Rightarrow> u8 list" where
  "bytes_of ws = concat (map le32enc ws)"

definition keccak256 :: "u8 list \<Rightarrow> u8 list" where
  "keccak256 data = bytes_of (words_of64 (keccak 256 data))"

definition keccak512 :: "u8 list \<Rightarrow> hash512" where
  "keccak512 data = words_of64 (keccak 512 data)"

section \<open>Primes\<close>

function odd_prime_from :: "int \<Rightarrow> int \<Rightarrow> bool" where
  "odd_prime_from number d =
     (if d * d \<le> number then (if number mod d = 0 then False else odd_prime_from number (d + 2))
      else True)"
  by pat_completeness auto
termination
proof (relation "measure (\<lambda>(number, d). nat (number + 1 - d))")
  fix number d :: int
  assume "d * d \<le> number"
  moreover have "d \<le> d * d"
    by (cases "d \<le> 0") (use mult_left_mono [of 1 d d] in \<open>auto intro: order.trans [of d 0]\<close>)
  ultimately show "((number, d + 2), number, d) \<in> measure (\<lambda>(number, d). nat (number + 1 - d))"
    by simp
qed simp

definition is_odd_prime :: "int \<Rightarrow> bool" where
  "is_odd_prime number = odd_prime_from number 3"

function prime_descent :: "int \<Rightarrow> int" where
  "prime_descent n = (if \<not> is_odd_prime n then prime_descent (n - 2) else n)"
  by pat_completeness auto
termination
proof (relation "measure nat")
  fix n :: int
  assume "\<not> is_odd_prime n"
  then have "3 * 3 \<le> n"
    by (subst (asm) is_odd_prime_def, subst (asm) odd_prime_from.simps) (auto split: if_splits)
  then show "(n - 2, n) \<in> measure nat" by simp
qed simp

definition find_largest_prime :: "int \<Rightarrow> int" where
  "find_largest_prime upper_bound =
     (let n = upper_bound in
      if n < 2 then 0
      else if n = 2 then 2
      else prime_descent (if n mod 2 = 0 then n - 1 else n))"

declare absorb_blocks.simps [simp del] odd_prime_from.simps [simp del] prime_descent.simps [simp del]

section \<open>An epoch\<close>

definition calculate_epoch_seed :: "int \<Rightarrow> u8 list" where
  "calculate_epoch_seed epoch_number =
     for_up (nat epoch_number) (\<lambda>_ seed. keccak256 seed) (replicate 32 0)"

definition light_cache_init_size :: int where "light_cache_init_size = 2 ^ 24"
definition light_cache_growth :: int where "light_cache_growth = 2 ^ 17"
definition light_cache_rounds :: nat where "light_cache_rounds = 3"
definition full_dataset_init_size :: int where "full_dataset_init_size = 2 ^ 30"
definition full_dataset_growth :: int where "full_dataset_growth = 2 ^ 23"
definition full_dataset_item_parents :: nat where "full_dataset_item_parents = 512"

definition calculate_light_cache_num_items :: "int \<Rightarrow> int" where
  "calculate_light_cache_num_items epoch_number =
     (let num_items_init = light_cache_init_size div 64;
          num_items_growth = light_cache_growth div 64
      in find_largest_prime (num_items_init + epoch_number * num_items_growth))"

definition calculate_full_dataset_num_items :: "int \<Rightarrow> int" where
  "calculate_full_dataset_num_items epoch_number =
     (let num_items_init = full_dataset_init_size div 128;
          num_items_growth = full_dataset_growth div 128
      in find_largest_prime (num_items_init + epoch_number * num_items_growth))"

section \<open>The light cache and the dataset\<close>

definition fnv1 :: "u32 \<Rightarrow> u32 \<Rightarrow> u32" where
  "fnv1 u v = (u * kFnvPrime) XOR v"

definition fnv1_512 :: "hash512 \<Rightarrow> hash512 \<Rightarrow> hash512" where
  "fnv1_512 u v = map (\<lambda>i. fnv1 (u ! i) (v ! i)) [0..<16]"

definition bitwise_xor :: "hash512 \<Rightarrow> hash512 \<Rightarrow> hash512" where
  "bitwise_xor x y = map (\<lambda>i. x ! i XOR y ! i) [0..<16]"

primrec cache_chain :: "(u8 list \<Rightarrow> hash512) \<Rightarrow> nat \<Rightarrow> hash512 \<Rightarrow> hash512 list" where
  "cache_chain hash_fn 0 item = []"
| "cache_chain hash_fn (Suc n) item =
     (let item = hash_fn (bytes_of item) in item # cache_chain hash_fn n item)"

definition cache_mix :: "(u8 list \<Rightarrow> hash512) \<Rightarrow> nat \<Rightarrow> nat \<Rightarrow> hash512 list \<Rightarrow> hash512 list" where
  "cache_mix hash_fn num_items i cache =
     (let index_limit = (of_nat num_items :: u32);
          t = cache ! i ! 0;
          v = t mod index_limit;
          w = (of_nat num_items + (of_nat i - 1)) mod index_limit;
          x = bitwise_xor (cache ! unat v) (cache ! unat w)
      in cache[i := hash_fn (bytes_of x)])"

definition build_light_cache :: "nat \<Rightarrow> u8 list \<Rightarrow> hash512 list" where
  "build_light_cache num_items seed =
     (let item = keccak512 seed;
          cache = item # cache_chain keccak512 (num_items - 1) item
      in for_up light_cache_rounds (\<lambda>_. for_up num_items (cache_mix keccak512 num_items)) cache)"

definition item_init :: "hash512 list \<Rightarrow> u64 \<Rightarrow> hash512" where
  "item_init cache index =
     (let mix = cache ! unat (index mod of_nat (length cache))
      in keccak512 (bytes_of (mix[0 := mix ! 0 XOR ucast index])))"

definition item_update :: "hash512 list \<Rightarrow> u32 \<Rightarrow> nat \<Rightarrow> hash512 \<Rightarrow> hash512" where
  "item_update cache seed round mix =
     (let t = fnv1 (seed XOR of_nat round) (mix ! (round mod 16));
          parent_index = unat t mod length cache
      in fnv1_512 mix (cache ! parent_index))"

definition calculate_dataset_item_512 :: "hash512 list \<Rightarrow> u64 \<Rightarrow> hash512" where
  "calculate_dataset_item_512 cache index =
     keccak512 (bytes_of
       (for_up full_dataset_item_parents (item_update cache (ucast index)) (item_init cache index)))"

section \<open>Lemmas: primes\<close>

definition prime_int :: "int \<Rightarrow> bool" where
  "prime_int p \<longleftrightarrow> 1 < p \<and> (\<forall>d. 1 < d \<and> d < p \<longrightarrow> \<not> d dvd p)"

lemma prime_int_small: "prime_int 2" "prime_int 3"
proof -
  have "\<not> d dvd 3" if "1 < d" "d < 3" for d :: int
  proof -
    have "d = 2" using that by simp
    then show ?thesis by simp
  qed
  then show "prime_int 2" "prime_int 3" by (auto simp: prime_int_def)
qed

lemma odd_prime_from_iff:
  assumes "odd d" "3 \<le> d"
  shows "odd_prime_from n d \<longleftrightarrow> (\<forall>e. odd e \<and> d \<le> e \<and> e * e \<le> n \<longrightarrow> \<not> e dvd n)"
  using assms
proof (induction n d rule: odd_prime_from.induct)
  case (1 n d)
  have split: "(\<forall>e. odd e \<and> d \<le> e \<and> e * e \<le> n \<longrightarrow> P e) \<longleftrightarrow>
    (d * d \<le> n \<longrightarrow> P d) \<and> (\<forall>e. odd e \<and> d + 2 \<le> e \<and> e * e \<le> n \<longrightarrow> P e)" for P :: "int \<Rightarrow> bool"
  proof -
    have "d \<le> e \<longleftrightarrow> e = d \<or> d + 2 \<le> e" if "odd e" for e
      using that \<open>odd d\<close> by presburger
    then show ?thesis using \<open>odd d\<close> by metis
  qed
  have big: "\<not> e * e \<le> n" if "\<not> d * d \<le> n" "d \<le> e" for e
    using mult_mono [of d e d e] that \<open>3 \<le> d\<close> by linarith
  show ?case
  proof (cases "d * d \<le> n \<and> n mod d \<noteq> 0")
    case True
    then have "odd_prime_from n d = odd_prime_from n (d + 2)"
      by (subst odd_prime_from.simps) simp
    with True "1.IH" "1.prems" show ?thesis
      by (subst split) (auto simp: dvd_eq_mod_eq_0)
  next
    case False
    then have "odd_prime_from n d \<longleftrightarrow> \<not> d * d \<le> n"
      by (subst odd_prime_from.simps) auto
    then show ?thesis
      using False big \<open>odd d\<close> by (subst split) (auto simp: dvd_eq_mod_eq_0)
  qed
qed

lemma is_odd_prime_iff:
  assumes "odd n" "3 \<le> n"
  shows "is_odd_prime n \<longleftrightarrow> prime_int n"
proof -
  have "is_odd_prime n \<longleftrightarrow> (\<forall>e. odd e \<and> 3 \<le> e \<and> e * e \<le> n \<longrightarrow> \<not> e dvd n)"
    unfolding is_odd_prime_def by (rule odd_prime_from_iff) simp_all
  also have "\<dots> \<longleftrightarrow> prime_int n"
  proof
    assume *: "\<forall>e. odd e \<and> 3 \<le> e \<and> e * e \<le> n \<longrightarrow> \<not> e dvd n"
    have no: False if "e dvd n" "1 < e" "e * e \<le> n" for e
    proof -
      have "odd e" using that(1) \<open>odd n\<close> by (meson dvd_trans)
      then have "3 \<le> e" using that(2) by presburger
      then show False using * \<open>odd e\<close> that by blast
    qed
    show "prime_int n"
      unfolding prime_int_def
    proof (intro conjI allI impI notI)
      fix d assume d: "1 < d \<and> d < n" "d dvd n"
      then obtain k where k: "n = d * k" by blast
      have "1 < k"
      proof (rule ccontr)
        assume "\<not> 1 < k"
        then have "d * k \<le> d * 1" using d by (intro mult_left_mono) auto
        then have "n \<le> d" unfolding k by simp
        then show False using d by linarith
      qed
      show False
      proof (cases "d \<le> k")
        case True
        then have "d * d \<le> n" unfolding k using d by (intro mult_left_mono) auto
        then show False using no [OF d(2)] d by blast
      next
        case False
        then have "k * k \<le> n" unfolding k using \<open>1 < k\<close> by (intro mult_right_mono) auto
        then show False using no [of k] k \<open>1 < k\<close> by simp
      qed
    qed (use assms in simp)
  next
    assume p: "prime_int n"
    show "\<forall>e. odd e \<and> 3 \<le> e \<and> e * e \<le> n \<longrightarrow> \<not> e dvd n"
    proof (intro allI impI)
      fix e assume e: "odd e \<and> 3 \<le> e \<and> e * e \<le> n"
      then have "e < e * e" using mult_strict_left_mono [of 1 e e] by simp
      then have "1 < e \<and> e < n" using e by linarith
      then show "\<not> e dvd n" using p unfolding prime_int_def by blast
    qed
  qed
  finally show ?thesis .
qed

lemma prime_descent_spec:
  assumes "odd n" "3 \<le> n"
  shows "prime_int (prime_descent n) \<and> 3 \<le> prime_descent n \<and> prime_descent n \<le> n \<and>
    (\<forall>q. odd q \<and> prime_descent n < q \<and> q \<le> n \<longrightarrow> \<not> prime_int q)"
  using assms
proof (induction n rule: prime_descent.induct)
  case (1 n)
  show ?case
  proof (cases "is_odd_prime n")
    case True
    then show ?thesis
      using 1 is_odd_prime_iff [of n] by (subst (1 2 3 4) prime_descent.simps) auto
  next
    case False
    have "n \<noteq> 3" using is_odd_prime_iff [of 3] False prime_int_small by auto
    then have n: "odd (n - 2)" "3 \<le> n - 2" using 1 by presburger+
    have eq: "prime_descent n = prime_descent (n - 2)"
      by (subst prime_descent.simps) (simp add: False)
    have "\<not> prime_int q" if "odd q" "n - 2 < q" "q \<le> n" for q
    proof -
      have "q = n" using that \<open>odd n\<close> by presburger
      then show ?thesis using False is_odd_prime_iff 1 by blast
    qed
    then show ?thesis
      using "1.IH" [OF False n] unfolding eq by (smt (verit))
  qed
qed

lemma find_largest_prime_spec:
  assumes "2 \<le> n"
  shows "prime_int (find_largest_prime n)" "find_largest_prime n \<le> n"
    "\<And>q. prime_int q \<Longrightarrow> q \<le> n \<Longrightarrow> q \<le> find_largest_prime n"
proof -
  note two = prime_int_small(1)
  have "prime_int (find_largest_prime n) \<and> find_largest_prime n \<le> n \<and>
    (\<forall>q. prime_int q \<and> q \<le> n \<longrightarrow> q \<le> find_largest_prime n)"
  proof (cases "n = 2")
    case True
    then show ?thesis using two by (simp add: find_largest_prime_def)
  next
    case False
    define m where "m = (if n mod 2 = 0 then n - 1 else n)"
    have m: "odd m" "3 \<le> m" "m \<le> n" using assms False by (auto simp: m_def)
    have eq: "find_largest_prime n = prime_descent m"
      using assms False by (simp add: find_largest_prime_def m_def)
    have "q \<le> prime_descent m" if q: "prime_int q" "q \<le> n" for q
    proof (cases "odd q")
      case True
      then have "q \<noteq> n \<or> odd n" by auto
      then have "q \<le> m" using q by (auto simp: m_def even_iff_mod_2_eq_zero [symmetric])
      then show ?thesis using prime_descent_spec [OF m(1,2)] True q by (meson not_le)
    next
      case F: False
      then have "\<not> 2 < q" using q(1) unfolding prime_int_def by auto
      moreover have "1 < q" using q(1) by (simp add: prime_int_def)
      ultimately have "q = 2" by simp
      then show ?thesis using prime_descent_spec [OF m(1,2)] by simp
    qed
    then show ?thesis using prime_descent_spec [OF m(1,2)] m(3) by (simp add: eq)
  qed
  then show "prime_int (find_largest_prime n)" "find_largest_prime n \<le> n"
    "\<And>q. prime_int q \<Longrightarrow> q \<le> n \<Longrightarrow> q \<le> find_largest_prime n" by blast+
qed

section \<open>Properties\<close>

text \<open>
  Claim C35. The size search ends and returns the largest prime that is not above the bound it
  is given, for every bound that has a prime below it.
\<close>

theorem find_largest_prime_largest:
  assumes "2 \<le> n"
  shows "prime_int (find_largest_prime n) \<and> find_largest_prime n \<le> n \<and>
         (\<forall>q. prime_int q \<and> q \<le> n \<longrightarrow> q \<le> find_largest_prime n)"
  using find_largest_prime_spec [OF assms] by blast

theorem find_largest_prime_witness: "find_largest_prime 262144 \<le> 262144 \<and> 3 \<le> find_largest_prime 262144"
  using find_largest_prime_largest [of 262144] prime_int_small by auto

lemma num_items_bounds:
  assumes "0 \<le> e"
  shows "2 \<le> calculate_light_cache_num_items e"
    "calculate_light_cache_num_items e \<le> 2 ^ 18 + e * 2 ^ 11"
    "2 \<le> calculate_full_dataset_num_items e"
    "calculate_full_dataset_num_items e \<le> 2 ^ 23 + e * 2 ^ 16"
  using find_largest_prime_spec(2) [of "262144 + e * 2048"]
    find_largest_prime_spec(2) [of "8388608 + e * 65536"]
    find_largest_prime_spec(3) [of "262144 + e * 2048", OF _ prime_int_small(1)]
    find_largest_prime_spec(3) [of "8388608 + e * 65536", OF _ prime_int_small(1)] assms
  by (simp_all add: calculate_light_cache_num_items_def calculate_full_dataset_num_items_def
      light_cache_init_size_def light_cache_growth_def full_dataset_init_size_def
      full_dataset_growth_def)

end
