(* ===== verification/Sha3.thy ===== *)
theory Sha3
  imports Ethash
begin

text \<open>
  \<^verbatim>\<open>shaders/common/sha3.glsl\<close>: the permutation every Keccak kernel and setup shader of the
  repository runs. Its text compiles into two modules, with lanes of two 32-bit words and with 64-bit
  lanes; both are modelled and shown to agree, and both to be what the host's library unrolls in
  \<^verbatim>\<open>third_party/ethash\<close>. The setup shader is compiled with the two words.
\<close>

section \<open>The two kinds of lane\<close>

text \<open>Pairs of words, the low half first: what is compiled where \<^verbatim>\<open>VKMINER_SHA3_INT64\<close> is not defined.\<close>

definition klane :: "u32 \<Rightarrow> u32 \<Rightarrow> u32 \<times> u32" where
  "klane lo hi = (lo, hi)"

definition klo :: "u32 \<times> u32 \<Rightarrow> u32" where "klo x = fst x"
definition khi :: "u32 \<times> u32 \<Rightarrow> u32" where "khi x = snd x"

definition krotl :: "u32 \<times> u32 \<Rightarrow> nat \<Rightarrow> u32 \<times> u32" where
  "krotl x n =
     (let v = (if 32 \<le> n then (snd x, fst x) else x);
          s = n mod 32
      in if s = 0 then v
         else (push_bit s (fst v) OR drop_bit (32 - s) (snd v), push_bit s (snd v) OR drop_bit (32 - s) (fst v)))"

text \<open>Words of 64 bits, where it is.\<close>

definition klane64 :: "u32 \<Rightarrow> u32 \<Rightarrow> u64" where
  "klane64 lo hi = ucast lo OR push_bit 32 (ucast hi)"

definition klo64 :: "u64 \<Rightarrow> u32" where "klo64 x = ucast x"
definition khi64 :: "u64 \<Rightarrow> u32" where "khi64 x = ucast (drop_bit 32 x)"

definition krotl64 :: "u64 \<Rightarrow> nat \<Rightarrow> u64" where
  "krotl64 x n = (if n = 0 then x else push_bit n x OR drop_bit (64 - n) x)"

text \<open>
  What the text below the two has of its lanes: the functions above and the operators of the language,
  which on a pair of words are componentwise.
\<close>

record 'l lane_type =
  lt_lane :: "u32 \<Rightarrow> u32 \<Rightarrow> 'l"
  lt_rotl :: "'l \<Rightarrow> nat \<Rightarrow> 'l"
  lt_xor :: "'l \<Rightarrow> 'l \<Rightarrow> 'l"
  lt_and :: "'l \<Rightarrow> 'l \<Rightarrow> 'l"
  lt_not :: "'l \<Rightarrow> 'l"

definition uvec2_lanes :: "(u32 \<times> u32) lane_type" where
  "uvec2_lanes = \<lparr>lt_lane = klane, lt_rotl = krotl, lt_xor = \<lambda>x y. (fst x XOR fst y, snd x XOR snd y),
     lt_and = \<lambda>x y. (fst x AND fst y, snd x AND snd y), lt_not = \<lambda>x. (NOT (fst x), NOT (snd x))\<rparr>"

definition int64_lanes :: "u64 lane_type" where
  "int64_lanes = \<lparr>lt_lane = klane64, lt_rotl = krotl64, lt_xor = (XOR), lt_and = (AND), lt_not = NOT\<rparr>"

section \<open>The permutation as the shaders have it\<close>

definition sha3_rc :: "(u32 \<times> u32) list" where
  "sha3_rc =
     [(0x00000001, 0x00000000), (0x00008082, 0x00000000), (0x0000808a, 0x80000000), (0x80008000, 0x80000000),
      (0x0000808b, 0x00000000), (0x80000001, 0x00000000), (0x80008081, 0x80000000), (0x00008009, 0x80000000),
      (0x0000008a, 0x00000000), (0x00000088, 0x00000000), (0x80008009, 0x00000000), (0x8000000a, 0x00000000),
      (0x8000808b, 0x00000000), (0x0000008b, 0x80000000), (0x00008089, 0x80000000), (0x00008003, 0x80000000),
      (0x00008002, 0x80000000), (0x00000080, 0x80000000), (0x0000800a, 0x00000000), (0x8000000a, 0x80000000),
      (0x80008081, 0x80000000), (0x00008080, 0x80000000), (0x80000001, 0x00000000), (0x80008008, 0x80000000)]"

definition sha3_rho :: "nat list" where
  "sha3_rho =
     [0, 1, 62, 28, 27,
      36, 44, 6, 55, 20,
      3, 10, 43, 25, 39,
      41, 45, 15, 21, 8,
      18, 2, 61, 56, 14]"

definition theta_c :: "'l lane_type \<Rightarrow> 'l list \<Rightarrow> 'l list" where
  "theta_c K a =
     map (\<lambda>x. lt_xor K (lt_xor K (lt_xor K (lt_xor K (a ! x) (a ! (x + 5))) (a ! (x + 10))) (a ! (x + 15))) (a ! (x + 20))) [0..<5]"

definition theta_d :: "'l lane_type \<Rightarrow> 'l list \<Rightarrow> 'l list" where
  "theta_d K c = map (\<lambda>x. lt_xor K (c ! ((x + 4) mod 5)) (lt_rotl K (c ! ((x + 1) mod 5)) 1)) [0..<5]"

definition sha3_theta :: "'l lane_type \<Rightarrow> 'l list \<Rightarrow> 'l list" where
  "sha3_theta K a =
     (let d = theta_d K (theta_c K a)
      in for_up 5 (\<lambda>x. for_up 5 (\<lambda>y a. a[x + 5 * y := lt_xor K (a ! (x + 5 * y)) (d ! x)])) a)"

text \<open>The array the lanes move to is not initialised; every element of it is written.\<close>

definition sha3_rho_pi :: "'l lane_type \<Rightarrow> 'l list \<Rightarrow> 'l list" where
  "sha3_rho_pi K a =
     for_up 5 (\<lambda>x. for_up 5 (\<lambda>y b.
       b[y + 5 * ((2 * x + 3 * y) mod 5) := lt_rotl K (a ! (x + 5 * y)) (sha3_rho ! (x + 5 * y))]))
       (replicate 25 (lt_lane K 0 0))"

definition sha3_chi :: "'l lane_type \<Rightarrow> 'l list \<Rightarrow> 'l list \<Rightarrow> 'l list" where
  "sha3_chi K b a =
     for_up 5 (\<lambda>y. for_up 5 (\<lambda>x a.
       a[5 * y + x := lt_xor K (b ! (5 * y + x))
         (lt_and K (lt_not K (b ! (5 * y + (x + 1) mod 5))) (b ! (5 * y + (x + 2) mod 5)))])) a"

definition sha3_round :: "'l lane_type \<Rightarrow> nat \<Rightarrow> 'l list \<Rightarrow> 'l list" where
  "sha3_round K r a =
     (let a = sha3_theta K a;
          b = sha3_rho_pi K a;
          a = sha3_chi K b a
      in a[0 := lt_xor K (a ! 0) (lt_lane K (fst (sha3_rc ! r)) (snd (sha3_rc ! r)))])"

definition sha3_keccakf :: "'l lane_type \<Rightarrow> 'l list \<Rightarrow> 'l list" where
  "sha3_keccakf K a = for_up 24 (sha3_round K) a"

section \<open>Lemmas: the two modules compute the same\<close>

definition lane64 :: "u32 \<times> u32 \<Rightarrow> u64" where "lane64 x = klane64 (fst x) (snd x)"

lemma lane64_bit: "bit (lane64 x) k \<longleftrightarrow> (if k < 32 then bit (fst x) k else bit (snd x) (k - 32))"
  by (auto simp: lane64_def klane64_def bit_simps dest: bit_imp_le_length)

lemma halves_lane64: "ucast (lane64 x) = klo x" "ucast (drop_bit 32 (lane64 x)) = khi x"
  by (rule bit_word_eqI, auto simp: lane64_bit klo_def khi_def bit_simps)+

lemma krotl64_bit:
  assumes "n < 64" "k < 64"
  shows "bit (krotl64 x n) k \<longleftrightarrow> (if k < n then bit x (k + 64 - n) else bit x (k - n))"
proof -
  have "\<not> bit x j" if "64 \<le> j" for j using that bit_imp_le_length [of x j] by auto
  then show ?thesis
    using assms by (auto simp: krotl64_def bit_simps add.commute)
qed

lemma word_rotl_bit:
  assumes "0 < s" "s < 32" "k < 32"
  shows "bit (push_bit s a OR drop_bit (32 - s) b :: u32) k \<longleftrightarrow> (if k < s then bit b (k + 32 - s) else bit a (k - s))"
proof -
  have "\<not> bit b j" if "32 \<le> j" for j using that bit_imp_le_length [of b j] by auto
  then show ?thesis using assms by (auto simp: bit_simps add.commute)
qed

text \<open>A rotation by swapping halves is the rotation.\<close>

lemma lane64_rotl:
  assumes "n < 64"
  shows "lane64 (krotl x n) = krotl64 (lane64 x) n"
proof (rule bit_word_eqI)
  fix k assume "k < LENGTH(64)"
  then have k: "k < 64" by simp
  define v where "v = (if 32 \<le> n then (snd x, fst x) else x)"
  define s where "s = n mod 32"
  have s: "s < 32" by (simp add: s_def)
  have n: "n = (if 32 \<le> n then s + 32 else s)"
  proof (cases "32 \<le> n")
    case True
    then have "s = n - 32" using assms by (simp add: s_def le_mod_geq)
    then show ?thesis using True by simp
  qed (simp add: s_def)
  have e: "krotl x n = (if s = 0 then v
      else (push_bit s (fst v) OR drop_bit (32 - s) (snd v), push_bit s (snd v) OR drop_bit (32 - s) (fst v)))"
    by (simp add: krotl_def Let_def v_def s_def)
  show "bit (lane64 (krotl x n)) k \<longleftrightarrow> bit (krotl64 (lane64 x) n) k"
  proof (cases "s = 0")
    case True
    then show ?thesis using n k unfolding e krotl64_bit [OF assms k] lane64_bit
      by (auto simp: v_def split: if_splits)
  next
    case False
    have b: "bit (push_bit s c OR drop_bit (32 - s) d) j \<longleftrightarrow> (if j < s then bit d (j + 32 - s) else bit c (j - s))"
      if "j < 32" for c d :: u32 and j
      using False s that by (intro word_rotl_bit) auto
    have "bit (lane64 (krotl x n)) k \<longleftrightarrow>
        (if k < 32 then if k < s then bit (snd v) (k + 32 - s) else bit (fst v) (k - s)
         else if k - 32 < s then bit (fst v) (k - 32 + 32 - s) else bit (snd v) (k - 32 - s))"
      using False k b [of k] b [of "k - 32"] by (simp add: e lane64_bit)
    then show ?thesis unfolding krotl64_bit [OF assms k] lane64_bit using s n k False
      by (cases "32 \<le> n") (auto simp: v_def add.commute split: if_splits)
  qed
qed

lemma lane64_ops:
  "lane64 (lt_lane uvec2_lanes lo hi) = lt_lane int64_lanes lo hi"
  "lane64 (lt_xor uvec2_lanes x y) = lt_xor int64_lanes (lane64 x) (lane64 y)"
  "lane64 (lt_and uvec2_lanes x y) = lt_and int64_lanes (lane64 x) (lane64 y)"
  "lane64 (lt_not uvec2_lanes x) = lt_not int64_lanes (lane64 x)"
  "n < 64 \<Longrightarrow> lane64 (lt_rotl uvec2_lanes x n) = lt_rotl int64_lanes (lane64 x) n"
proof -
  show "lane64 (lt_lane uvec2_lanes lo hi) = lt_lane int64_lanes lo hi"
    by (simp add: uvec2_lanes_def int64_lanes_def lane64_def klane_def)
  show "lane64 (lt_xor uvec2_lanes x y) = lt_xor int64_lanes (lane64 x) (lane64 y)"
    "lane64 (lt_and uvec2_lanes x y) = lt_and int64_lanes (lane64 x) (lane64 y)"
    "lane64 (lt_not uvec2_lanes x) = lt_not int64_lanes (lane64 x)"
    by (rule bit_word_eqI, auto simp: uvec2_lanes_def int64_lanes_def lane64_bit bit_simps)+
qed (simp add: uvec2_lanes_def int64_lanes_def lane64_rotl)

abbreviation lanes64 :: "(u32 \<times> u32) list \<Rightarrow> u64 list" where "lanes64 a \<equiv> map lane64 a"

lemma lanes64_loop:
  assumes "b' = lanes64 b" "length b = 25"
    and "\<And>i j a. i < 5 \<Longrightarrow> j < 5 \<Longrightarrow> length a = 25 \<Longrightarrow> p i j < 25 \<and> lane64 (f i j a) = g i j (lanes64 a)"
  shows "lanes64 (for_up 5 (\<lambda>i. for_up 5 (\<lambda>j a. a[p i j := f i j a])) b) = for_up 5 (\<lambda>i. for_up 5 (\<lambda>j a. a[p i j := g i j a])) b' \<and>
    length (for_up 5 (\<lambda>i. for_up 5 (\<lambda>j a. a[p i j := f i j a])) b) = 25"
proof -
  let ?R = "\<lambda>_ :: nat. \<lambda>a a'. lanes64 a = a' \<and> length a = 25"
  show ?thesis
  proof (rule for_up_relate [where R = ?R])
    fix i a a' assume i: "i < 5" and a: "?R i a a'"
    show "?R (Suc i) (for_up 5 (\<lambda>j a. a[p i j := f i j a]) a) (for_up 5 (\<lambda>j a. a[p i j := g i j a]) a')"
      by (rule for_up_relate [where R = ?R]) (use a assms(3) [OF i] in \<open>auto simp: map_update\<close>)
  qed (use assms(1,2) in simp)
qed

lemma sha3_rho_less: "i < 25 \<Longrightarrow> sha3_rho ! i < 64"
proof -
  assume "i < 25"
  then have "sha3_rho ! i \<in> set sha3_rho" by (intro nth_mem) (simp add: sha3_rho_def)
  then show ?thesis by (auto simp: sha3_rho_def)
qed

lemma theta_lanes64:
  assumes "length a = 25"
  shows "lanes64 (sha3_theta uvec2_lanes a) = sha3_theta int64_lanes (lanes64 a) \<and> length (sha3_theta uvec2_lanes a) = 25"
proof -
  have c: "lanes64 (theta_c uvec2_lanes a) = theta_c int64_lanes (lanes64 a)" "length (theta_c uvec2_lanes a) = 5"
    using assms by (auto simp: theta_c_def lane64_ops)
  have d: "lanes64 (theta_d uvec2_lanes (theta_c uvec2_lanes a)) = theta_d int64_lanes (theta_c int64_lanes (lanes64 a))"
    "length (theta_d uvec2_lanes x) = 5" for x
    unfolding c(1) [symmetric] using c(2) by (auto simp: theta_d_def lane64_ops)
  have e: "lane64 (theta_d uvec2_lanes (theta_c uvec2_lanes a) ! i) = theta_d int64_lanes (theta_c int64_lanes (lanes64 a)) ! i" if "i < 5" for i
    using that d by (metis nth_map)
  show ?thesis
    unfolding sha3_theta_def Let_def by (intro lanes64_loop) (simp_all add: assms lane64_ops e)
qed

lemma rho_pi_lanes64:
  assumes "length a = 25"
  shows "lanes64 (sha3_rho_pi uvec2_lanes a) = sha3_rho_pi int64_lanes (lanes64 a) \<and> length (sha3_rho_pi uvec2_lanes a) = 25"
proof -
  have p: "y + 5 * ((2 * x + 3 * y) mod 5) < 25" if "y < 5" for x y :: nat
  proof -
    have "(2 * x + 3 * y) mod 5 < 5" by simp
    then show ?thesis using that by linarith
  qed
  have r: "x + 5 * y < 25" if "x < 5" "y < 5" for x y :: nat using that by linarith
  show ?thesis
    unfolding sha3_rho_pi_def
    by (intro lanes64_loop) (simp_all add: assms p r lane64_ops sha3_rho_less)
qed

lemma chi_lanes64:
  assumes "length b = 25" "length a = 25"
  shows "lanes64 (sha3_chi uvec2_lanes b a) = sha3_chi int64_lanes (lanes64 b) (lanes64 a) \<and> length (sha3_chi uvec2_lanes b a) = 25"
proof -
  have p: "5 * y + x mod 5 < 25" "x < 5 \<Longrightarrow> 5 * y + x < 25" if "y < 5" for x y :: nat
  proof -
    have "x mod 5 < 5" by simp
    then show "5 * y + x mod 5 < 25" using that by linarith
  qed (use that in linarith)
  show ?thesis
    unfolding sha3_chi_def by (intro lanes64_loop) (simp_all add: assms p lane64_ops)
qed

lemma round_lanes64:
  assumes "length a = 25"
  shows "lanes64 (sha3_round uvec2_lanes r a) = sha3_round int64_lanes r (lanes64 a) \<and> length (sha3_round uvec2_lanes r a) = 25"
proof -
  note t = theta_lanes64 [OF assms]
  note p = rho_pi_lanes64 [OF t [THEN conjunct2]]
  note c = chi_lanes64 [OF p [THEN conjunct2] t [THEN conjunct2]]
  let ?a = "sha3_chi uvec2_lanes (sha3_rho_pi uvec2_lanes (sha3_theta uvec2_lanes a)) (sha3_theta uvec2_lanes a)"
  have "lane64 (?a ! 0) = lanes64 ?a ! 0" by (rule nth_map [symmetric]) (use c in simp)
  then show ?thesis
    using t p c by (simp add: sha3_round_def Let_def map_update lane64_ops)
qed

lemma keccakf_lanes64:
  assumes "length a = 25"
  shows "lanes64 (sha3_keccakf uvec2_lanes a) = sha3_keccakf int64_lanes (lanes64 a)" "length (sha3_keccakf uvec2_lanes a) = 25"
proof -
  have "lanes64 (sha3_keccakf uvec2_lanes a) = sha3_keccakf int64_lanes (lanes64 a) \<and> length (sha3_keccakf uvec2_lanes a) = 25"
    unfolding sha3_keccakf_def
    by (rule for_up_relate [where R = "\<lambda>_ a a'. lanes64 a = a' \<and> length a = 25"]) (use assms round_lanes64 in auto)
  then show "lanes64 (sha3_keccakf uvec2_lanes a) = sha3_keccakf int64_lanes (lanes64 a)" "length (sha3_keccakf uvec2_lanes a) = 25"
    by simp_all
qed

section \<open>The permutation in 64-bit lanes\<close>

abbreviation theta64 :: "u64 list \<Rightarrow> u64 list" where "theta64 \<equiv> sha3_theta int64_lanes"
abbreviation rho_pi64 :: "u64 list \<Rightarrow> u64 list" where "rho_pi64 \<equiv> sha3_rho_pi int64_lanes"
abbreviation chi64 :: "u64 list \<Rightarrow> u64 list \<Rightarrow> u64 list" where "chi64 \<equiv> sha3_chi int64_lanes"
abbreviation round64 :: "nat \<Rightarrow> u64 list \<Rightarrow> u64 list" where "round64 \<equiv> sha3_round int64_lanes"

lemma int64_lanes_sel [simp]:
  "lt_lane int64_lanes = klane64" "lt_rotl int64_lanes = krotl64" "lt_xor int64_lanes = (XOR)" "lt_and int64_lanes = (AND)" "lt_not int64_lanes = NOT"
  by (simp_all add: int64_lanes_def)

lemma theta64_def:
  "theta64 a =
     (let c = map (\<lambda>x. a ! x XOR a ! (x + 5) XOR a ! (x + 10) XOR a ! (x + 15) XOR a ! (x + 20)) [0..<5];
          d = map (\<lambda>x. c ! ((x + 4) mod 5) XOR krotl64 (c ! ((x + 1) mod 5)) 1) [0..<5]
      in for_up 5 (\<lambda>x. for_up 5 (\<lambda>y a. a[x + 5 * y := a ! (x + 5 * y) XOR d ! x])) a)"
  by (simp only: sha3_theta_def theta_c_def theta_d_def int64_lanes_sel xor.assoc Let_def)

lemma rho_pi64_def:
  "rho_pi64 a =
     for_up 5 (\<lambda>x. for_up 5 (\<lambda>y b.
       b[y + 5 * ((2 * x + 3 * y) mod 5) := krotl64 (a ! (x + 5 * y)) (sha3_rho ! (x + 5 * y))]))
       (replicate 25 0)"
  by (simp add: sha3_rho_pi_def klane64_def)

lemma chi64_def:
  "chi64 b a =
     for_up 5 (\<lambda>y. for_up 5 (\<lambda>x a.
       a[5 * y + x := b ! (5 * y + x) XOR
         (NOT (b ! (5 * y + (x + 1) mod 5)) AND b ! (5 * y + (x + 2) mod 5))])) a"
  by (simp add: sha3_chi_def)

lemma round64_def:
  "round64 r a =
     (let a = theta64 a;
          b = rho_pi64 a;
          a = chi64 b a
      in a[0 := a ! 0 XOR klane64 (fst (sha3_rc ! r)) (snd (sha3_rc ! r))])"
  by (simp add: sha3_round_def)

section \<open>Lemmas: one round, lane by lane\<close>

lemma list25:
  assumes "length (st :: 'a list) = 25"
  shows "st = [st ! 0, st ! 1, st ! 2, st ! 3, st ! 4, st ! 5, st ! 6, st ! 7, st ! 8, st ! 9, st ! 10, st ! 11, st ! 12, st ! 13, st ! 14, st ! 15, st ! 16, st ! 17, st ! 18, st ! 19, st ! 20, st ! 21, st ! 22, st ! 23, st ! 24]"
proof -
  have "st = map ((!) st) [0..<25]" using assms by (intro nth_equalityI) auto
  also have "\<dots> = [st ! 0, st ! 1, st ! 2, st ! 3, st ! 4, st ! 5, st ! 6, st ! 7, st ! 8, st ! 9, st ! 10, st ! 11, st ! 12, st ! 13, st ! 14, st ! 15, st ! 16, st ! 17, st ! 18, st ! 19, st ! 20, st ! 21, st ! 22, st ! 23, st ! 24]"
    by (simp add: upt_conv_Cons numeral_eq_Suc del: upt_Suc)
  finally show ?thesis .
qed

lemma replicate_numeral25: "replicate 25 x = [x, x, x, x, x, x, x, x, x, x, x, x, x, x, x, x, x, x, x, x, x, x, x, x, x]"
  by (simp add: numeral_eq_Suc)

lemma upt5: "[0..<5] = [0, 1, 2, 3, 4 :: nat]"
  by (simp add: upt_conv_Cons del: upt_Suc)

lemma theta_lanes:
  "for_up 5 (\<lambda>x. for_up 5 (\<lambda>y a. a[x + 5 * y := a ! (x + 5 * y) XOR [d0, d1, d2, d3, d4] ! x]))
     [a0, a1, a2, a3, a4, a5, a6, a7, a8, a9, a10, a11, a12, a13, a14, a15, a16, a17, a18, a19, a20, a21, a22, a23, a24] =
   [a0 XOR d0, a1 XOR d1, a2 XOR d2, a3 XOR d3, a4 XOR d4, a5 XOR d0, a6 XOR d1, a7 XOR d2, a8 XOR d3, a9 XOR d4, a10 XOR d0, a11 XOR d1, a12 XOR d2, a13 XOR d3, a14 XOR d4, a15 XOR d0, a16 XOR d1, a17 XOR d2, a18 XOR d3, a19 XOR d4, a20 XOR d0, a21 XOR d1, a22 XOR d2, a23 XOR d3, a24 XOR d4]"
  by (simp add: for_up_def upt5)

lemma rho_pi_lanes:
  "rho_pi64 [a0, a1, a2, a3, a4, a5, a6, a7, a8, a9, a10, a11, a12, a13, a14, a15, a16, a17, a18, a19, a20, a21, a22, a23, a24] =
   [krotl64 a0 0, krotl64 a6 44, krotl64 a12 43, krotl64 a18 21, krotl64 a24 14, krotl64 a3 28, krotl64 a9 20, krotl64 a10 3, krotl64 a16 45, krotl64 a22 61, krotl64 a1 1, krotl64 a7 6, krotl64 a13 25, krotl64 a19 8, krotl64 a20 18, krotl64 a4 27, krotl64 a5 36, krotl64 a11 10, krotl64 a17 15, krotl64 a23 56, krotl64 a2 62, krotl64 a8 55, krotl64 a14 39, krotl64 a15 41, krotl64 a21 2]"
  by (simp add: rho_pi64_def for_up_def upt5 sha3_rho_def replicate_numeral25)

lemma chi_lanes:
  "chi64 [b0, b1, b2, b3, b4, b5, b6, b7, b8, b9, b10, b11, b12, b13, b14, b15, b16, b17, b18, b19, b20, b21, b22, b23, b24]
     [a0, a1, a2, a3, a4, a5, a6, a7, a8, a9, a10, a11, a12, a13, a14, a15, a16, a17, a18, a19, a20, a21, a22, a23, a24] =
   [b0 XOR (NOT b1 AND b2), b1 XOR (NOT b2 AND b3), b2 XOR (NOT b3 AND b4), b3 XOR (NOT b4 AND b0), b4 XOR (NOT b0 AND b1), b5 XOR (NOT b6 AND b7), b6 XOR (NOT b7 AND b8), b7 XOR (NOT b8 AND b9), b8 XOR (NOT b9 AND b5), b9 XOR (NOT b5 AND b6), b10 XOR (NOT b11 AND b12), b11 XOR (NOT b12 AND b13), b12 XOR (NOT b13 AND b14), b13 XOR (NOT b14 AND b10), b14 XOR (NOT b10 AND b11), b15 XOR (NOT b16 AND b17), b16 XOR (NOT b17 AND b18), b17 XOR (NOT b18 AND b19), b18 XOR (NOT b19 AND b15), b19 XOR (NOT b15 AND b16), b20 XOR (NOT b21 AND b22), b21 XOR (NOT b22 AND b23), b22 XOR (NOT b23 AND b24), b23 XOR (NOT b24 AND b20), b24 XOR (NOT b20 AND b21)]"
  by (simp add: chi64_def for_up_def upt5)


lemma rc_word: "r < 24 \<Longrightarrow> klane64 (fst (sha3_rc ! r)) (snd (sha3_rc ! r)) = round_constants ! r"
proof -
  have "map (\<lambda>(lo, hi). klane64 lo hi) sha3_rc = round_constants"
    by (simp add: sha3_rc_def round_constants_def klane64_def)
  moreover assume "r < 24"
  moreover have "length sha3_rc = 24" by (simp add: sha3_rc_def)
  ultimately show ?thesis by (auto simp: split_beta dest!: arg_cong [where f = "\<lambda>xs. xs ! r"])
qed

lemma krotl_rol64: "0 < n \<Longrightarrow> krotl64 x n = rol64 x n" "krotl64 x 0 = x"
  by (simp_all add: krotl64_def rol64_def)

lemma round_lanes:
  assumes "r < 24"
    and c: "c0 = a0 XOR a5 XOR a10 XOR a15 XOR a20" "c1 = a1 XOR a6 XOR a11 XOR a16 XOR a21" "c2 = a2 XOR a7 XOR a12 XOR a17 XOR a22" "c3 = a3 XOR a8 XOR a13 XOR a18 XOR a23" "c4 = a4 XOR a9 XOR a14 XOR a19 XOR a24"
    and d: "d0 = c4 XOR rol64 c1 1" "d1 = c0 XOR rol64 c2 1" "d2 = c1 XOR rol64 c3 1" "d3 = c2 XOR rol64 c4 1" "d4 = c3 XOR rol64 c0 1"
  shows "round64 r [a0, a1, a2, a3, a4, a5, a6, a7, a8, a9, a10, a11, a12, a13, a14, a15, a16, a17, a18, a19, a20, a21, a22, a23, a24] =
    (chi64 (rho_pi64 [a0 XOR d0, a1 XOR d1, a2 XOR d2, a3 XOR d3, a4 XOR d4, a5 XOR d0, a6 XOR d1, a7 XOR d2, a8 XOR d3, a9 XOR d4, a10 XOR d0, a11 XOR d1, a12 XOR d2, a13 XOR d3, a14 XOR d4, a15 XOR d0, a16 XOR d1, a17 XOR d2, a18 XOR d3, a19 XOR d4, a20 XOR d0, a21 XOR d1, a22 XOR d2, a23 XOR d3, a24 XOR d4])
       [a0 XOR d0, a1 XOR d1, a2 XOR d2, a3 XOR d3, a4 XOR d4, a5 XOR d0, a6 XOR d1, a7 XOR d2, a8 XOR d3, a9 XOR d4, a10 XOR d0, a11 XOR d1, a12 XOR d2, a13 XOR d3, a14 XOR d4, a15 XOR d0, a16 XOR d1, a17 XOR d2, a18 XOR d3, a19 XOR d4, a20 XOR d0, a21 XOR d1, a22 XOR d2, a23 XOR d3, a24 XOR d4])
    [0 := chi64 (rho_pi64 [a0 XOR d0, a1 XOR d1, a2 XOR d2, a3 XOR d3, a4 XOR d4, a5 XOR d0, a6 XOR d1, a7 XOR d2, a8 XOR d3, a9 XOR d4, a10 XOR d0, a11 XOR d1, a12 XOR d2, a13 XOR d3, a14 XOR d4, a15 XOR d0, a16 XOR d1, a17 XOR d2, a18 XOR d3, a19 XOR d4, a20 XOR d0, a21 XOR d1, a22 XOR d2, a23 XOR d3, a24 XOR d4])
       [a0 XOR d0, a1 XOR d1, a2 XOR d2, a3 XOR d3, a4 XOR d4, a5 XOR d0, a6 XOR d1, a7 XOR d2, a8 XOR d3, a9 XOR d4, a10 XOR d0, a11 XOR d1, a12 XOR d2, a13 XOR d3, a14 XOR d4, a15 XOR d0, a16 XOR d1, a17 XOR d2, a18 XOR d3, a19 XOR d4, a20 XOR d0, a21 XOR d1, a22 XOR d2, a23 XOR d3, a24 XOR d4] ! 0 XOR round_constants ! r]"
proof -
  have "theta64 [a0, a1, a2, a3, a4, a5, a6, a7, a8, a9, a10, a11, a12, a13, a14, a15, a16, a17, a18, a19, a20, a21, a22, a23, a24] = [a0 XOR d0, a1 XOR d1, a2 XOR d2, a3 XOR d3, a4 XOR d4, a5 XOR d0, a6 XOR d1, a7 XOR d2, a8 XOR d3, a9 XOR d4, a10 XOR d0, a11 XOR d1, a12 XOR d2, a13 XOR d3, a14 XOR d4, a15 XOR d0, a16 XOR d1, a17 XOR d2, a18 XOR d3, a19 XOR d4, a20 XOR d0, a21 XOR d1, a22 XOR d2, a23 XOR d3, a24 XOR d4]"
    unfolding theta64_def theta_lanes [symmetric] Let_def
    by (rule arg_cong [where f = "\<lambda>d. for_up 5 (\<lambda>x. for_up 5 (\<lambda>y a. a[x + 5 * y := a ! (x + 5 * y) XOR d ! x])) [a0, a1, a2, a3, a4, a5, a6, a7, a8, a9, a10, a11, a12, a13, a14, a15, a16, a17, a18, a19, a20, a21, a22, a23, a24]"])
      (simp add: upt5 c d krotl_rol64)
  then show ?thesis by (simp only: round64_def Let_def rc_word [OF assms(1)])
qed

lemma let_eq: "(\<And>x. x = a \<Longrightarrow> f x = b) \<Longrightarrow> Let a f = b"
  by simp

text \<open>A round by the names the library gives its lanes.\<close>

lemma one_round:
  assumes "r < 24" "rc = round_constants ! r"
    and st: "st = [Aba, Abe, Abi, Abo, Abu, Aga, Age, Agi, Ago, Agu, Aka, Ake, Aki, Ako, Aku, Ama, Ame, Ami, Amo, Amu, Asa, Ase, Asi, Aso, Asu]"
    and C: "Ba0 = Aba XOR Aga XOR Aka XOR Ama XOR Asa" "Be0 = Abe XOR Age XOR Ake XOR Ame XOR Ase" "Bi0 = Abi XOR Agi XOR Aki XOR Ami XOR Asi" "Bo0 = Abo XOR Ago XOR Ako XOR Amo XOR Aso" "Bu0 = Abu XOR Agu XOR Aku XOR Amu XOR Asu"
    and D: "Da = Bu0 XOR rol64 (Be0) 1" "De = Ba0 XOR rol64 (Bi0) 1" "Di = Be0 XOR rol64 (Bo0) 1" "Do' = Bi0 XOR rol64 (Bu0) 1" "Du = Bo0 XOR rol64 (Ba0) 1"
    and E: "Ba1 = Aba XOR Da"
      "Be1 = rol64 (Age XOR De) 44"
      "Bi1 = rol64 (Aki XOR Di) 43"
      "Bo1 = rol64 (Amo XOR Do') 21"
      "Bu1 = rol64 (Asu XOR Du) 14"
      "Eba = Ba1 XOR (NOT Be1 AND Bi1) XOR (rc)"
      "Ebe = Be1 XOR (NOT Bi1 AND Bo1)"
      "Ebi = Bi1 XOR (NOT Bo1 AND Bu1)"
      "Ebo = Bo1 XOR (NOT Bu1 AND Ba1)"
      "Ebu = Bu1 XOR (NOT Ba1 AND Be1)"
      "Ba2 = rol64 (Abo XOR Do') 28"
      "Be2 = rol64 (Agu XOR Du) 20"
      "Bi2 = rol64 (Aka XOR Da) 3"
      "Bo2 = rol64 (Ame XOR De) 45"
      "Bu2 = rol64 (Asi XOR Di) 61"
      "Ega = Ba2 XOR (NOT Be2 AND Bi2)"
      "Ege = Be2 XOR (NOT Bi2 AND Bo2)"
      "Egi = Bi2 XOR (NOT Bo2 AND Bu2)"
      "Ego = Bo2 XOR (NOT Bu2 AND Ba2)"
      "Egu = Bu2 XOR (NOT Ba2 AND Be2)"
      "Ba3 = rol64 (Abe XOR De) 1"
      "Be3 = rol64 (Agi XOR Di) 6"
      "Bi3 = rol64 (Ako XOR Do') 25"
      "Bo3 = rol64 (Amu XOR Du) 8"
      "Bu3 = rol64 (Asa XOR Da) 18"
      "Eka = Ba3 XOR (NOT Be3 AND Bi3)"
      "Eke = Be3 XOR (NOT Bi3 AND Bo3)"
      "Eki = Bi3 XOR (NOT Bo3 AND Bu3)"
      "Eko = Bo3 XOR (NOT Bu3 AND Ba3)"
      "Eku = Bu3 XOR (NOT Ba3 AND Be3)"
      "Ba4 = rol64 (Abu XOR Du) 27"
      "Be4 = rol64 (Aga XOR Da) 36"
      "Bi4 = rol64 (Ake XOR De) 10"
      "Bo4 = rol64 (Ami XOR Di) 15"
      "Bu4 = rol64 (Aso XOR Do') 56"
      "Ema = Ba4 XOR (NOT Be4 AND Bi4)"
      "Eme = Be4 XOR (NOT Bi4 AND Bo4)"
      "Emi = Bi4 XOR (NOT Bo4 AND Bu4)"
      "Emo = Bo4 XOR (NOT Bu4 AND Ba4)"
      "Emu = Bu4 XOR (NOT Ba4 AND Be4)"
      "Ba5 = rol64 (Abi XOR Di) 62"
      "Be5 = rol64 (Ago XOR Do') 55"
      "Bi5 = rol64 (Aku XOR Du) 39"
      "Bo5 = rol64 (Ama XOR Da) 41"
      "Bu5 = rol64 (Ase XOR De) 2"
      "Esa = Ba5 XOR (NOT Be5 AND Bi5)"
      "Ese = Be5 XOR (NOT Bi5 AND Bo5)"
      "Esi = Bi5 XOR (NOT Bo5 AND Bu5)"
      "Eso = Bo5 XOR (NOT Bu5 AND Ba5)"
      "Esu = Bu5 XOR (NOT Ba5 AND Be5)"
  shows "round64 r st = [Eba, Ebe, Ebi, Ebo, Ebu, Ega, Ege, Egi, Ego, Egu, Eka, Eke, Eki, Eko, Eku, Ema, Eme, Emi, Emo, Emu, Esa, Ese, Esi, Eso, Esu]"
proof -
  have c: "Ba0 = Aba XOR Aga XOR Aka XOR Ama XOR Asa" "Be0 = Abe XOR Age XOR Ake XOR Ame XOR Ase" "Bi0 = Abi XOR Agi XOR Aki XOR Ami XOR Asi" "Bo0 = Abo XOR Ago XOR Ako XOR Amo XOR Aso" "Bu0 = Abu XOR Agu XOR Aku XOR Amu XOR Asu"
    by (simp_all only: C)
  have d: "Da = Bu0 XOR rol64 Be0 1" "De = Ba0 XOR rol64 Bi0 1" "Di = Be0 XOR rol64 Bo0 1" "Do' = Bi0 XOR rol64 Bu0 1" "Du = Bo0 XOR rol64 Ba0 1"
    by (simp_all only: D)
  show ?thesis
    unfolding st
    by (subst round_lanes [OF assms(1) c d])
      (simp only: rho_pi_lanes chi_lanes E assms(2) krotl_rol64 list_update_code nth_Cons_0 xor.assoc
        zero_less_numeral zero_less_one)
qed

lemma round_lets:
  assumes "r < 24"
  shows "round64 r [Aba, Abe, Abi, Abo, Abu, Aga, Age, Agi, Ago, Agu, Aka, Ake, Aki, Ako, Aku, Ama, Ame, Ami, Amo, Amu, Asa, Ase, Asi, Aso, Asu] =
    (let Ba0 = Aba XOR Aga XOR Aka XOR Ama XOR Asa;
         Be0 = Abe XOR Age XOR Ake XOR Ame XOR Ase;
         Bi0 = Abi XOR Agi XOR Aki XOR Ami XOR Asi;
         Bo0 = Abo XOR Ago XOR Ako XOR Amo XOR Aso;
         Bu0 = Abu XOR Agu XOR Aku XOR Amu XOR Asu;
         Da = Bu0 XOR rol64 (Be0) 1;
         De = Ba0 XOR rol64 (Bi0) 1;
         Di = Be0 XOR rol64 (Bo0) 1;
         Do' = Bi0 XOR rol64 (Bu0) 1;
         Du = Bo0 XOR rol64 (Ba0) 1;
         Ba1 = Aba XOR Da;
         Be1 = rol64 (Age XOR De) 44;
         Bi1 = rol64 (Aki XOR Di) 43;
         Bo1 = rol64 (Amo XOR Do') 21;
         Bu1 = rol64 (Asu XOR Du) 14;
         Eba = Ba1 XOR (NOT Be1 AND Bi1) XOR ((round_constants ! r));
         Ebe = Be1 XOR (NOT Bi1 AND Bo1);
         Ebi = Bi1 XOR (NOT Bo1 AND Bu1);
         Ebo = Bo1 XOR (NOT Bu1 AND Ba1);
         Ebu = Bu1 XOR (NOT Ba1 AND Be1);
         Ba2 = rol64 (Abo XOR Do') 28;
         Be2 = rol64 (Agu XOR Du) 20;
         Bi2 = rol64 (Aka XOR Da) 3;
         Bo2 = rol64 (Ame XOR De) 45;
         Bu2 = rol64 (Asi XOR Di) 61;
         Ega = Ba2 XOR (NOT Be2 AND Bi2);
         Ege = Be2 XOR (NOT Bi2 AND Bo2);
         Egi = Bi2 XOR (NOT Bo2 AND Bu2);
         Ego = Bo2 XOR (NOT Bu2 AND Ba2);
         Egu = Bu2 XOR (NOT Ba2 AND Be2);
         Ba3 = rol64 (Abe XOR De) 1;
         Be3 = rol64 (Agi XOR Di) 6;
         Bi3 = rol64 (Ako XOR Do') 25;
         Bo3 = rol64 (Amu XOR Du) 8;
         Bu3 = rol64 (Asa XOR Da) 18;
         Eka = Ba3 XOR (NOT Be3 AND Bi3);
         Eke = Be3 XOR (NOT Bi3 AND Bo3);
         Eki = Bi3 XOR (NOT Bo3 AND Bu3);
         Eko = Bo3 XOR (NOT Bu3 AND Ba3);
         Eku = Bu3 XOR (NOT Ba3 AND Be3);
         Ba4 = rol64 (Abu XOR Du) 27;
         Be4 = rol64 (Aga XOR Da) 36;
         Bi4 = rol64 (Ake XOR De) 10;
         Bo4 = rol64 (Ami XOR Di) 15;
         Bu4 = rol64 (Aso XOR Do') 56;
         Ema = Ba4 XOR (NOT Be4 AND Bi4);
         Eme = Be4 XOR (NOT Bi4 AND Bo4);
         Emi = Bi4 XOR (NOT Bo4 AND Bu4);
         Emo = Bo4 XOR (NOT Bu4 AND Ba4);
         Emu = Bu4 XOR (NOT Ba4 AND Be4);
         Ba5 = rol64 (Abi XOR Di) 62;
         Be5 = rol64 (Ago XOR Do') 55;
         Bi5 = rol64 (Aku XOR Du) 39;
         Bo5 = rol64 (Ama XOR Da) 41;
         Bu5 = rol64 (Ase XOR De) 2;
         Esa = Ba5 XOR (NOT Be5 AND Bi5);
         Ese = Be5 XOR (NOT Bi5 AND Bo5);
         Esi = Bi5 XOR (NOT Bo5 AND Bu5);
         Eso = Bo5 XOR (NOT Bu5 AND Ba5);
         Esu = Bu5 XOR (NOT Ba5 AND Be5)
     in [Eba, Ebe, Ebi, Ebo, Ebu, Ega, Ege, Egi, Ego, Egu, Eka, Eke, Eki, Eko, Eku, Ema, Eme, Emi, Emo, Emu, Esa, Ese, Esi, Eso, Esu])"
  unfolding Let_def one_round [OF assms refl refl refl refl refl refl refl refl refl refl refl refl refl refl refl refl refl refl refl refl refl refl refl refl refl refl refl refl refl refl refl refl refl refl refl refl refl refl refl refl refl refl refl refl refl refl refl refl refl refl refl refl refl refl refl refl refl refl refl refl refl refl]
  by (rule refl)

lemma round_pull: "round64 r (Let a f) = Let a (\<lambda>x. round64 r (f x))"
  by (simp add: Let_def)

lemma round_names:
  assumes "length st = 25"
  shows "round64 r st = (let Aba = st ! 0; Abe = st ! 1; Abi = st ! 2; Abo = st ! 3; Abu = st ! 4; Aga = st ! 5; Age = st ! 6; Agi = st ! 7; Ago = st ! 8; Agu = st ! 9; Aka = st ! 10; Ake = st ! 11; Aki = st ! 12; Ako = st ! 13; Aku = st ! 14; Ama = st ! 15; Ame = st ! 16; Ami = st ! 17; Amo = st ! 18; Amu = st ! 19; Asa = st ! 20; Ase = st ! 21; Asi = st ! 22; Aso = st ! 23; Asu = st ! 24 in round64 r [Aba, Abe, Abi, Abo, Abu, Aga, Age, Agi, Ago, Agu, Aka, Ake, Aki, Ako, Aku, Ama, Ame, Ami, Amo, Amu, Asa, Ase, Asi, Aso, Asu])"
  unfolding Let_def list25 [OF assms, symmetric] ..

lemma two_rounds:
  assumes "r + 1 < 24" "length st = 25"
  shows "keccakf1600_rounds r st = round64 (r + 1) (round64 r st)"
proof -
  have r: "r < 24" using assms(1) by simp
  show ?thesis
    unfolding keccakf1600_rounds_def round_names [OF assms(2), of r] round_lets [OF r] round_pull round_lets [OF assms(1)]
    by (rule refl)
qed

lemma length_sha3_round:
  assumes "r < 24" "length st = 25"
  shows "length (round64 r st) = 25"
  unfolding round_names [OF assms(2), of r] round_lets [OF assms(1)] Let_def by simp

text \<open>The shader's permutation, one round at a time in loops, is the library's, which unrolls two
  rounds at a time.\<close>

lemma sha3_keccakf_eq:
  assumes "length st = 25"
  shows "sha3_keccakf int64_lanes st = keccakf1600 st"
proof -
  have "length (for_up (2 * n) round64 st) = 25 \<and>
      for_up (2 * n) round64 st = for_up n (\<lambda>i. keccakf1600_rounds (2 * i)) st" if "n \<le> 12" for n
    using that
  proof (induction n)
    case (Suc n)
    have ih: "length (for_up (2 * n) round64 st) = 25 \<and>
        for_up (2 * n) round64 st = for_up n (\<lambda>i. keccakf1600_rounds (2 * i)) st"
      by (rule Suc.IH) (use Suc.prems in simp)
    note ih [THEN conjunct1] ih [THEN conjunct2]
    moreover have "2 * n + 1 < 24" using Suc.prems by simp
    moreover have "for_up (2 * Suc n) round64 st =
        round64 (2 * n + 1) (round64 (2 * n) (for_up (2 * n) round64 st))"
      by (simp add: for_up_Suc)
    ultimately show ?case
      using length_sha3_round [of "2 * n + 1"] length_sha3_round [of "2 * n" "for_up (2 * n) round64 st"]
      by (simp only: for_up_Suc two_rounds)
  qed (simp add: assms for_up_def)
  from this [of 12] show ?thesis by (simp add: sha3_keccakf_def keccakf1600_def)
qed

end
