(* ===== verification/Progpow_Dag.thy ===== *)
theory Progpow_Dag
  imports Ethash Interfaces
begin

text \<open>
  \<^verbatim>\<open>algorithms/progpow/progpow_dag.{h,cpp}\<close>: the three epochs of a block, the sizes they give, and
  the process-wide light cache behind \<open>light_cache\<close> and \<open>dataset_item\<close>. The file's two static
  variables are the record \<open>dag_cache\<close>; its lock is held for the whole of every call, so a call is
  one step on that record. Whether \<^verbatim>\<open>resize\<close> finds memory is the argument \<open>alloc\<close>.
\<close>

section \<open>Epochs\<close>

definition kItemBytes :: nat where "kItemBytes = 64"
definition kItemWords :: nat where "kItemWords = kItemBytes div 4"

record epochs =
  e_seed :: u32
  e_light :: u32
  e_full :: u32

definition epochs_for :: "params \<Rightarrow> u32 \<Rightarrow> epochs" where
  "epochs_for p seed_epoch =
     (let scaled = (if dagchange_epoch p \<noteq> 0 \<and> dagchange_epoch p \<le> seed_epoch
                    then seed_epoch * dag_epoch_mul p else seed_epoch)
      in \<lparr>e_seed = seed_epoch, e_light = scaled, e_full = scaled + dag_full_off p\<rparr>)"

definition epochs_of :: "params \<Rightarrow> u64 \<Rightarrow> epochs" where
  "epochs_of p block_height = epochs_for p (ucast (block_height div ucast (epoch_length p)))"

definition epoch_seed :: "u32 \<Rightarrow> u8 list" where
  "epoch_seed seed_epoch = calculate_epoch_seed (sint seed_epoch)"

definition light_cache_items :: "u32 \<Rightarrow> u32" where
  "light_cache_items light_epoch = of_int (calculate_light_cache_num_items (sint light_epoch))"

definition light_cache_bytes :: "u32 \<Rightarrow> u64" where
  "light_cache_bytes light_epoch = ucast (light_cache_items light_epoch) * of_nat kItemBytes"

definition dag_items :: "u32 \<Rightarrow> u64" where
  "dag_items full_epoch = 2 * of_int (calculate_full_dataset_num_items (sint full_epoch))"

definition dag_bytes :: "u32 \<Rightarrow> u64" where
  "dag_bytes full_epoch = dag_items full_epoch * of_nat kItemBytes"

section \<open>The cache in hand\<close>

record dag_cache =
  cached_epochs :: epochs
  cached_cache :: "hash512 list"

definition dag_cache_init :: dag_cache where
  "dag_cache_init =
     \<lparr>cached_epochs = \<lparr>e_seed = - 1, e_light = - 1, e_full = - 1\<rparr>, cached_cache = []\<rparr>"

definition same_epochs :: "epochs \<Rightarrow> epochs \<Rightarrow> bool" where
  "same_epochs a b \<longleftrightarrow> e_seed a = e_seed b \<and> e_light a = e_light b \<and> e_full a = e_full b"

definition cache_for :: "epochs \<Rightarrow> bool \<Rightarrow> dag_cache \<Rightarrow> hash512 list option \<times> dag_cache" where
  "cache_for e alloc st =
     (if cached_cache st \<noteq> [] \<and> same_epochs (cached_epochs st) e then (Some (cached_cache st), st)
      else
        let items = sint (light_cache_items (e_light e));
            st = st\<lparr>cached_cache := []\<rparr>
        in if \<not> alloc then (None, st)
           else
             let st = st\<lparr>cached_cache :=
                          build_light_cache (nat items) (calculate_epoch_seed (sint (e_seed e))),
                        cached_epochs := e\<rparr>
             in (Some (cached_cache st), st))"

definition light_cache ::
  "epochs \<Rightarrow> u64 \<Rightarrow> u64 \<Rightarrow> bool \<Rightarrow> dag_cache \<Rightarrow> u8 list option \<times> dag_cache" where
  "light_cache e offset bytes alloc st =
     (let total = light_cache_bytes (e_light e) in
      if total < offset \<or> total - offset < bytes then (None, st)
      else
        let (cache, st) = cache_for e alloc st
        in case cache of None \<Rightarrow> (None, st)
           | Some cache \<Rightarrow>
               (Some (take (unat bytes) (drop (unat offset) (concat (map bytes_of cache)))), st))"

definition dataset_item ::
  "epochs \<Rightarrow> u64 \<Rightarrow> bool \<Rightarrow> dag_cache \<Rightarrow> u32 list option \<times> dag_cache" where
  "dataset_item e index alloc st =
     (if dag_items (e_full e) \<le> index then (None, st)
      else
        let (cache, st) = cache_for e alloc st
        in case cache of None \<Rightarrow> (None, st)
           | Some cache \<Rightarrow> (Some (calculate_dataset_item_512 cache index), st))"

text \<open>The push block of one slice of the setup pass.\<close>

record DagPush =
  dp_count :: u32
  dp_first :: u32
  dp_slot :: u32
  dp_cache_items :: u32

section \<open>Lemmas: shapes\<close>

lemma length_words_of64: "length (words_of64 ws) = 2 * length ws"
  by (induction ws) (simp_all add: words_of64_def)

lemma length_bytes_of: "length (bytes_of ws) = 4 * length ws"
  by (induction ws) (simp_all add: bytes_of_def)

lemma length_keccakf1600: "length (keccakf1600 st) = 25"
  unfolding keccakf1600_def
proof -
  have let_length: "length (Let a f) = k" if "\<And>x. length (f x) = k" for a :: u64 and f :: "u64 \<Rightarrow> u64 list" and k
    by (simp add: that)
  have "length (keccakf1600_rounds r s) = 25" for r s
    unfolding keccakf1600_rounds_def by (intro let_length) simp
  moreover have "(12 :: nat) = Suc 11" by simp
  ultimately show "length (for_up 12 (\<lambda>i. keccakf1600_rounds (2 * i)) st) = 25"
    by (simp only: for_up_Suc)
qed

lemma length_keccak512 [simp]: "length (keccak512 data) = 16"
  by (simp add: keccak512_def keccak_def length_words_of64 length_keccakf1600 Let_def split_beta)

lemma cache_chain_spec:
  "length (cache_chain keccak512 n item) = n"
  "h \<in> set (cache_chain keccak512 n item) \<Longrightarrow> length h = 16"
  by (induction n arbitrary: item) (auto simp: Let_def)

lemma build_light_cache_shape:
  assumes "0 < n"
  shows "length (build_light_cache n seed) = n" "\<forall>h \<in> set (build_light_cache n seed). length h = 16"
proof -
  let ?P = "\<lambda>cache. length cache = n \<and> (\<forall>h \<in> set cache. length h = 16)"
  have mix: "?P (cache_mix keccak512 n i cache)" if "?P cache" for i cache
    using that set_update_subset_insert [of cache i] by (fastforce simp: cache_mix_def Let_def)
  have inner: "?P (for_up m (cache_mix keccak512 n) cache)" if "?P cache" for m cache
    by (rule for_up_invariant [where P = "\<lambda>_. ?P"]) (use that mix in auto)
  have "?P (for_up k (\<lambda>_. for_up n (cache_mix keccak512 n)) cache)" if "?P cache" for k cache
    by (rule for_up_invariant [where P = "\<lambda>_. ?P"]) (use that inner in auto)
  moreover have "?P (keccak512 seed # cache_chain keccak512 (n - 1) (keccak512 seed))"
    using assms cache_chain_spec by auto
  ultimately have "?P (build_light_cache n seed)"
    unfolding build_light_cache_def Let_def by blast
  then show "length (build_light_cache n seed) = n" "\<forall>h \<in> set (build_light_cache n seed). length h = 16"
    by blast+
qed

lemma build_light_cache_nonempty: "build_light_cache n seed \<noteq> []"
proof -
  have "length (cache_mix keccak512 n i cache) = length cache" for i cache
    by (simp add: cache_mix_def Let_def)
  then have "length (for_up m (cache_mix keccak512 n) cache) = length cache" for m cache
    by (induction m) (simp_all add: for_up_Suc)
  then have "length (for_up k (\<lambda>_. for_up n (cache_mix keccak512 n)) cache) = length cache" for k cache
    by (induction k) (simp_all add: for_up_Suc)
  then show ?thesis by (simp add: build_light_cache_def Let_def flip: length_greater_0_conv)
qed

section \<open>The cache in hand is always the one its epochs name\<close>

definition built_cache :: "epochs \<Rightarrow> hash512 list" where
  "built_cache e =
     build_light_cache (nat (sint (light_cache_items (e_light e))))
       (calculate_epoch_seed (sint (e_seed e)))"

definition valid_cache :: "dag_cache \<Rightarrow> bool" where
  "valid_cache st \<longleftrightarrow> cached_cache st = [] \<or> cached_cache st = built_cache (cached_epochs st)"

lemma same_epochs_iff [simp]: "same_epochs a b \<longleftrightarrow> a = b"
  by (auto simp: same_epochs_def intro: epochs.equality)

interpretation dag: keyed_cache cache_for built_cache valid_cache
proof
  fix s k a
  assume "valid_cache s"
  then show "valid_cache (snd (cache_for k a s))"
    by (auto simp: valid_cache_def cache_for_def built_cache_def Let_def)
next
  fix s k a v
  assume "valid_cache s" "fst (cache_for k a s) = Some v"
  then show "v = built_cache k"
    by (auto simp: valid_cache_def cache_for_def built_cache_def Let_def split: if_splits)
next
  fix s k a
  assume "valid_cache s" "a"
  then show "fst (cache_for k a s) \<noteq> None"
    by (auto simp: cache_for_def Let_def)
next
  fix s k a v a'
  assume "valid_cache s" "fst (cache_for k a s) = Some v"
  then show "fst (cache_for k a' (snd (cache_for k a s))) \<noteq> None"
    by (auto simp: cache_for_def Let_def build_light_cache_nonempty split: if_splits)
qed

lemma valid_cache_init [simp]: "valid_cache dag_cache_init"
  by (simp add: valid_cache_def dag_cache_init_def)

lemma valid_light_cache: "valid_cache st \<Longrightarrow> valid_cache (snd (light_cache e off n a st))"
  using dag.valid_request [of st e a]
  by (auto simp: light_cache_def Let_def split: prod.splits option.splits)

lemma valid_dataset_item: "valid_cache st \<Longrightarrow> valid_cache (snd (dataset_item e i a st))"
  using dag.valid_request [of st e a]
  by (auto simp: dataset_item_def Let_def split: prod.splits option.splits)

definition item_of :: "epochs \<Rightarrow> u64 \<Rightarrow> u32 list" where
  "item_of e index = calculate_dataset_item_512 (built_cache e) index"

lemma dataset_item_answer:
  assumes "valid_cache st" "index < dag_items (e_full e)"
  shows "fst (dataset_item e index a st) =
    (if fst (cache_for e a st) = None then None else Some (item_of e index))"
  using assms dag.request_value [OF assms(1), of e a]
  by (auto simp: dataset_item_def item_of_def split_beta split: option.splits)

lemma dataset_item_served:
  assumes "valid_cache st"
  shows "fst (dataset_item e index True st) =
    (if index < dag_items (e_full e) then Some (item_of e index) else None)"
  using dataset_item_answer [OF assms, of index e True] dag.request_served [OF assms, of True e]
  by (auto simp: dataset_item_def)

section \<open>Sizes\<close>

lemma sint_u32_small:
  assumes "unat (w :: u32) < 2147483648"
  shows "sint w = int (unat w)"
proof -
  have u: "uint w = int (unat w)" by (rule uint_nat)
  have p: "(2 :: int) ^ 31 = 2147483648" by simp
  have "int (unat w) < 2147483648" "- 2147483648 \<le> int (unat w)" using assms by linarith+
  then have "signed_take_bit 31 (int (unat w)) = int (unat w)"
    by (intro signed_take_bit_int_eq_self) (simp_all only: p)
  moreover have "sint w = signed_take_bit 31 (uint w)" using sint_uint [of w] by simp
  ultimately show ?thesis by (simp only: u)
qed

lemma light_cache_items_exact:
  assumes "unat e \<le> 2 ^ 18"
  shows "int (unat (light_cache_items e)) = calculate_light_cache_num_items (int (unat e))"
    "sint (light_cache_items e) = calculate_light_cache_num_items (int (unat e))"
proof -
  let ?n = "calculate_light_cache_num_items (int (unat e))"
  have "unat e < 2147483648" using assms by simp
  then have s: "sint e = int (unat e)" by (rule sint_u32_small)
  have n: "2 \<le> ?n" "?n \<le> 2 ^ 18 + int (unat e) * 2 ^ 11"
    by (rule num_items_bounds, simp)+
  have "unat e \<le> 262144" using assms by simp
  then have "int (unat e) \<le> 262144" by linarith
  moreover have "?n \<le> 262144 + int (unat e) * 2048" using n(2) by simp
  ultimately have b: "?n < 2 ^ 31" by simp
  have i: "light_cache_items e = of_nat (nat ?n)"
    using n by (simp add: light_cache_items_def s of_nat_nat)
  moreover have "nat ?n < 4294967296" using b by simp
  ultimately have u: "unat (light_cache_items e) = nat ?n" by (simp only: unat_of_nat_u32)
  then show "int (unat (light_cache_items e)) = ?n" using n by simp
  show "sint (light_cache_items e) = ?n"
    using b n u by (subst sint_u32_small) auto
qed

lemma dag_items_exact:
  assumes "unat e \<le> 2 ^ 14"
  shows "int (unat (dag_items e)) = 2 * calculate_full_dataset_num_items (int (unat e))"
    "calculate_full_dataset_num_items (int (unat e)) < 2 ^ 31"
    "int (unat (dag_bytes e)) = 128 * calculate_full_dataset_num_items (int (unat e))"
proof -
  let ?n = "calculate_full_dataset_num_items (int (unat e))"
  have "unat e < 2147483648" using assms by simp
  then have s: "sint e = int (unat e)" by (rule sint_u32_small)
  have n: "2 \<le> ?n" "?n \<le> 2 ^ 23 + int (unat e) * 2 ^ 16"
    by (rule num_items_bounds, simp)+
  have "unat e \<le> 16384" using assms by simp
  then have "int (unat e) \<le> 16384" by linarith
  moreover have "?n \<le> 8388608 + int (unat e) * 65536" using n(2) by simp
  ultimately show b: "?n < 2 ^ 31" by simp
  have "dag_items e = of_nat (2 * nat ?n)"
    using n by (simp add: dag_items_def s of_nat_nat)
  then have u: "unat (dag_items e) = 2 * nat ?n" using b n by (subst \<open>dag_items e = _\<close>, subst unat_of_nat_u64) auto
  then show "int (unat (dag_items e)) = 2 * ?n" using n by simp
  have "unat (dag_bytes e) = 128 * nat ?n"
    unfolding dag_bytes_def using b n u by (subst unat_mult_exact) (simp_all add: kItemBytes_def)
  then show "int (unat (dag_bytes e)) = 128 * ?n" using n by simp
qed


lemma epochs_exact:
  assumes "p \<in> set kForks" "s \<le> max_epoch p"
  shows "unat (e_light (epochs_for p s)) =
      unat s * (if dagchange_epoch p \<noteq> 0 \<and> dagchange_epoch p \<le> s then unat (dag_epoch_mul p) else 1)"
    "unat (e_full (epochs_for p s)) = unat (e_light (epochs_for p s)) + unat (dag_full_off p)"
    "unat (e_full (epochs_for p s)) \<le> 1600" "unat (e_light (epochs_for p s)) \<le> 1600"
proof -
  let ?e = "epochs_for p s"
  have s: "unat s \<le> 1350" and m: "unat (dag_epoch_mul p) \<le> 4" and o: "unat (dag_full_off p) \<le> 256"
    using assms by (auto simp: kForks_def fork_defs word_le_nat_alt)
  have mul: "unat s * unat (dag_epoch_mul p) \<le> 1350 * 4" by (rule mult_mono) (use s m in auto)
  then have "unat (s * dag_epoch_mul p) = unat s * unat (dag_epoch_mul p)"
    by (intro unat_mult_exact) simp
  then show l: "unat (e_light ?e) =
       unat s * (if dagchange_epoch p \<noteq> 0 \<and> dagchange_epoch p \<le> s then unat (dag_epoch_mul p) else 1)"
    by (simp add: epochs_for_def Let_def)
  then have l': "unat (e_light ?e) \<le> 5400" using mul s by (auto split: if_splits)
  then show f: "unat (e_full ?e) = unat (e_light ?e) + unat (dag_full_off p)"
    using o by (simp add: epochs_for_def Let_def unat_add_exact)
  show "unat (e_full ?e) \<le> 1600" "unat (e_light ?e) \<le> 1600"
    using assms by (auto simp: f l kForks_def fork_defs word_le_nat_alt split: if_splits)
qed

section \<open>Properties\<close>

text \<open>
  Claim C28. Whatever epochs were asked for before, and whether memory could be had for them, a
  range inside the light cache is answered with exactly those bytes of the cache its epochs name,
  and a range that leaves it is refused; neither ever reads another epoch's cache.
\<close>

theorem light_cache_exact:
  assumes "valid_cache st"
  shows "fst (light_cache e offset bytes True st) =
     (if unat offset + unat bytes \<le> unat (light_cache_bytes (e_light e))
      then Some (take (unat bytes) (drop (unat offset) (concat (map bytes_of (built_cache e)))))
      else None) \<and>
   valid_cache (snd (light_cache e offset bytes a st))"
proof -
  let ?t = "light_cache_bytes (e_light e)"
  have range: "(?t < offset \<or> ?t - offset < bytes) \<longleftrightarrow> \<not> unat offset + unat bytes \<le> unat ?t"
  proof (cases "offset \<le> ?t")
    case True
    then have "unat (?t - offset) = unat ?t - unat offset" by (rule unat_sub_exact)
    with True show ?thesis by (auto simp: word_less_nat_alt word_le_nat_alt)
  next
    case False
    then show ?thesis by (auto simp: word_less_nat_alt word_le_nat_alt)
  qed
  have v: "fst (cache_for e True st) = Some (built_cache e)"
    using dag.request_answer [OF assms, of e True] dag.request_served [OF assms, of True e] by blast
  have "fst (light_cache e offset bytes True st) =
     (if unat offset + unat bytes \<le> unat ?t
      then Some (take (unat bytes) (drop (unat offset) (concat (map bytes_of (built_cache e)))))
      else None)"
  proof (cases "unat offset + unat bytes \<le> unat ?t")
    case True
    then show ?thesis
      by (simp only: light_cache_def Let_def range not_not if_True if_False simp_thms split_beta v
          option.case fst_conv)
  next
    case False
    then show ?thesis
      by (simp only: light_cache_def Let_def range not_not if_True if_False simp_thms split_beta fst_conv)
  qed
  then show ?thesis using valid_light_cache [OF assms] by blast
qed

theorem light_cache_exact_witness:
  "fst (light_cache \<lparr>e_seed = 3, e_light = 3, e_full = 3\<rparr> (- 1) 8 True dag_cache_init) = None"
proof -
  have "unat (light_cache_bytes 3) < unat (- 1 :: u64) + unat (8 :: u64)"
  proof -
    have "unat (- 1 :: u64) = 18446744073709551615" by (simp add: unsigned_minus_1_eq_mask mask_eq_exp_minus_1)
    moreover have "unat (light_cache_bytes 3) < 18446744073709551616" by (rule unat_u64_less)
    moreover have "unat (8 :: u64) = 8" by simp
    ultimately show ?thesis by linarith
  qed
  then show ?thesis
    using light_cache_exact [OF valid_cache_init, of "\<lparr>e_seed = 3, e_light = 3, e_full = 3\<rparr>" "- 1" 8]
    by simp
qed

text \<open>
  Claim C33. An item of the dataset depends on its epochs and its index alone: it is refused
  exactly past the end of that dataset, and two requests in any two states the cache can be
  in, with memory to be had, agree.
\<close>

theorem dataset_item_exact:
  assumes "valid_cache st"
  shows "fst (dataset_item e index True st) =
     (if index < dag_items (e_full e) then Some (item_of e index) else None) \<and>
   fst (dataset_item e index a st) \<in> {None, fst (dataset_item e index True dag_cache_init)} \<and>
   valid_cache (snd (dataset_item e index a st))"
proof -
  have "fst (dataset_item e index a st) \<in> {None, fst (dataset_item e index True dag_cache_init)}"
    using dataset_item_answer [OF assms, of index e a]
      dataset_item_served [OF valid_cache_init, of e index]
    by (cases "index < dag_items (e_full e)") (auto simp: dataset_item_def)
  then show ?thesis
    using dataset_item_served [OF assms] valid_dataset_item [OF assms] by simp
qed

theorem dataset_item_exact_witness:
  "fst (dataset_item \<lparr>e_seed = 0, e_light = 0, e_full = 0\<rparr> (dag_items 0) True dag_cache_init) = None"
  using dataset_item_exact [OF valid_cache_init, of "\<lparr>e_seed = 0, e_light = 0, e_full = 0\<rparr>" "dag_items 0" True]
  by simp

text \<open>
  Claim C34. Up to the largest epoch each fork declares, none of the arithmetic an epoch's sizes
  go through leaves its type: the scaled and offset epochs do not wrap, C's \<open>int\<close> does not
  overflow, and the byte counts are the exact products.
\<close>

theorem epoch_sizes_exact:
  assumes "p \<in> set kForks" "s \<le> max_epoch p"
  shows "unat (e_light (epochs_for p s)) =
       unat s * (if dagchange_epoch p \<noteq> 0 \<and> dagchange_epoch p \<le> s then unat (dag_epoch_mul p) else 1) \<and>
     unat (e_full (epochs_for p s)) = unat (e_light (epochs_for p s)) + unat (dag_full_off p) \<and>
     calculate_full_dataset_num_items (int (unat (e_full (epochs_for p s)))) < 2 ^ 31 \<and>
     int (unat (dag_bytes (e_full (epochs_for p s)))) =
       128 * calculate_full_dataset_num_items (int (unat (e_full (epochs_for p s)))) \<and>
     int (unat (light_cache_bytes (e_light (epochs_for p s)))) =
       64 * calculate_light_cache_num_items (int (unat (e_light (epochs_for p s))))"
proof -
  let ?e = "epochs_for p s"
  note ex = epochs_exact [OF assms]
  have f': "unat (e_full ?e) \<le> 2 ^ 14" using ex(3) by simp
  have "unat (light_cache_items (e_light ?e)) < 4294967296" by (rule unat_u32_less)
  then have "unat (light_cache_items (e_light ?e)) < 288230376151711744" by linarith
  then have "unat (light_cache_bytes (e_light ?e)) = unat (light_cache_items (e_light ?e)) * 64"
    by (simp add: light_cache_bytes_def kItemBytes_def unat_mult_exact unsigned_ucast_eq take_bit_nat_eq_self)
  then have "int (unat (light_cache_bytes (e_light ?e))) =
       64 * calculate_light_cache_num_items (int (unat (e_light ?e)))"
    using light_cache_items_exact(1) [of "e_light ?e"] ex(4) by simp
  with ex(1,2) dag_items_exact(2,3) [OF f'] show ?thesis by blast
qed

theorem epoch_sizes_exact_witness:
  "int (unat (dag_bytes (e_full (epochs_for kMeowpow 400)))) =
     128 * calculate_full_dataset_num_items (int (unat (e_full (epochs_for kMeowpow 400))))"
proof -
  have "400 \<le> max_epoch kMeowpow" by (simp add: kMeowpow_def)
  moreover have "kMeowpow \<in> set kForks" by (simp add: kForks_def)
  ultimately show ?thesis using epoch_sizes_exact [of kMeowpow 400] by blast
qed

end
