(* ===== verification/Backend.thy ===== *)
theory Backend
  imports Prelude
begin

text \<open>
  \<^verbatim>\<open>backends/backend.h\<close> and \<^verbatim>\<open>algorithms/algorithm.{h,cpp}\<close>: what crosses between an algorithm and
  the device it runs on, and the comparison every share goes through. A pointer that may be null
  is an option; the string fields only a log reads are left out of the records.
\<close>

section \<open>What a device is\<close>

datatype DeviceKind = Discrete | Integrated | Virtual | Cpu | Other

record DeviceInfo =
  d_index :: int
  d_memory :: u64
  d_kind :: DeviceKind
  d_vendor_id :: u32
  d_device_id :: u32
  d_api_version :: u32
  d_driver_version :: u32
  d_subgroup_size :: u32
  d_max_invocations :: u32
  d_max_workgroup_size :: u32
  d_max_workgroup_count :: u32
  d_max_allocation :: u64
  d_max_binding_range :: u64
  d_max_storage_buffers :: u32
  d_max_shared_memory :: u32
  d_int64 :: bool
  d_int16 :: bool
  d_int8 :: bool
  d_subgroup_ballot :: bool
  d_subgroup_shuffle :: bool
  d_dot4x8 :: bool
  d_dot4x8_native :: bool

record Solution =
  s_nonce :: u64
  s_hash :: "u32 list"

definition kMaxCandidates :: nat where "kMaxCandidates = 32"
definition kMaxSharedChunks :: nat where "kMaxSharedChunks = 16"
definition kMaxProgramConstants :: nat where "kMaxProgramConstants = 256"
definition kMaxUniformBytes :: nat where "kMaxUniformBytes = 16384"

lemmas backend_limits = kMaxCandidates_def kMaxSharedChunks_def kMaxProgramConstants_def
  kMaxUniformBytes_def

section \<open>What a kernel is\<close>

record SetupPass =
  sp_spirv :: "u32 list option"
  sp_push_constant_bytes :: u32
  sp_local_size_x :: u32
  sp_seed_bytes :: u64
  sp_items :: u64

record KernelSpec =
  k_name :: string
  k_variant :: string
  k_spirv :: "u32 list option"
  k_storage_buffers :: u32
  k_push_constant_bytes :: u32
  k_local_size_x :: u32
  k_uniform_bytes :: u32
  k_lanes :: u32
  k_full_subgroups :: bool
  k_scratch_bytes :: u64
  k_shared_bytes :: u64
  k_shared_bytes_max :: u64
  k_size_override :: "string option"
  k_shared_chunks :: u32
  k_shared_chunk_bytes :: u64
  k_setup :: SetupPass
  k_program_constants :: u32
  k_constants :: "u32 list"
  k_queue_depth :: u32
  k_nonces_per_invocation :: u32
  k_concurrent_kernels :: u32

definition setup_pass_default :: SetupPass where
  "setup_pass_default = \<lparr>sp_spirv = None, sp_push_constant_bytes = 0, sp_local_size_x = 0,
     sp_seed_bytes = 0, sp_items = 0\<rparr>"

definition kernel_spec_default :: KernelSpec where
  "kernel_spec_default = \<lparr>k_name = [], k_variant = [], k_spirv = None, k_storage_buffers = 0,
     k_push_constant_bytes = 0, k_local_size_x = 0, k_uniform_bytes = 0, k_lanes = 0,
     k_full_subgroups = False, k_scratch_bytes = 0, k_shared_bytes = 0, k_shared_bytes_max = 0,
     k_size_override = None, k_shared_chunks = 0, k_shared_chunk_bytes = 0,
     k_setup = setup_pass_default, k_program_constants = 0, k_constants = [], k_queue_depth = 0,
     k_nonces_per_invocation = 0, k_concurrent_kernels = 1\<rparr>"

record Dispatch =
  dis_header :: "u32 list option"
  dis_target :: "u32 list option"
  dis_nonce_start :: u64
  dis_count :: u32
  dis_capacity :: u32

text \<open>A shader module: its words, storage buffers, push constant bytes and local size.\<close>

record ShaderModule =
  m_words :: "u32 list"
  m_storage_buffers :: u32
  m_push_constant_bytes :: u32
  m_local_size_x :: u32

section \<open>The comparison: src/core/util.c\<close>

primrec fulltest_from :: "nat \<Rightarrow> u32 list \<Rightarrow> u32 list \<Rightarrow> bool" where
  "fulltest_from 0 hash target = True"
| "fulltest_from (Suc i) hash target =
     (if target ! i < hash ! i then False
      else if hash ! i < target ! i then True
      else fulltest_from i hash target)"

definition fulltest :: "u32 list \<Rightarrow> u32 list \<Rightarrow> bool" where
  "fulltest hash target = fulltest_from 8 hash target"

definition verify :: "(u32 list \<Rightarrow> u64 \<Rightarrow> u32 list) \<Rightarrow> u32 list \<Rightarrow> u64 \<Rightarrow> u32 list \<Rightarrow> bool \<times> u32 list"
where
  "verify hash header nonce target = (let out = hash header nonce in (fulltest out target, out))"

text \<open>The value a list of words stands for, least significant word first.\<close>

definition words_value :: "nat \<Rightarrow> u32 list \<Rightarrow> nat" where
  "words_value n ws = (\<Sum>i<n. unat (ws ! i) * 2 ^ (32 * i))"

lemma words_value_less: "words_value n ws < 2 ^ (32 * n)"
proof (induction n)
  case (Suc n)
  have "unat (ws ! n) * 2 ^ (32 * n) \<le> (2 ^ 32 - 1) * 2 ^ (32 * n)"
    using unat_u32_less [of "ws ! n"] by (intro mult_right_mono) (simp_all del: unat_u32_less)
  then have "words_value (Suc n) ws < (2 ^ 32 - 1) * 2 ^ (32 * n) + 2 ^ (32 * n)"
    using Suc unfolding words_value_def by (simp only: sum.lessThan_Suc)
  also have "\<dots> = 2 ^ (32 * Suc n)" by (simp add: power_add algebra_simps)
  finally show ?case .
qed (simp add: words_value_def)

lemma fulltest_from_iff: "fulltest_from n h t \<longleftrightarrow> words_value n h \<le> words_value n t"
proof (induction n)
  case (Suc n)
  have v: "words_value (Suc n) ws = words_value n ws + unat (ws ! n) * 2 ^ (32 * n)" for ws
    by (simp add: words_value_def)
  have less: "words_value (Suc n) a < words_value (Suc n) b" if "a ! n < b ! n" for a b
  proof -
    have "Suc (unat (a ! n)) * 2 ^ (32 * n) \<le> unat (b ! n) * 2 ^ (32 * n)"
      using that by (intro mult_right_mono) (simp_all add: word_less_nat_alt)
    then show ?thesis using words_value_less [of n a] by (simp add: v)
  qed
  consider "h ! n < t ! n" | "t ! n < h ! n" | "h ! n = t ! n" by fastforce
  then show ?case
  proof cases
    case 1
    then show ?thesis using less [OF 1] by (auto simp: not_less)
  next
    case 2
    then show ?thesis using less [OF 2] by simp
  next
    case 3
    then show ?thesis using Suc by (simp add: v)
  qed
qed (simp add: words_value_def)

text \<open>
  Claim C31. The word-by-word comparison that decides what a share is decides it by the 256-bit
  numbers: a hash passes exactly when its value is at most the target's.
\<close>

theorem fulltest_value: "fulltest hash target \<longleftrightarrow> words_value 8 hash \<le> words_value 8 target"
  unfolding fulltest_def by (rule fulltest_from_iff)

section \<open>The algorithm's startup answers: algorithms/algorithm.cpp\<close>

record KnownAnswer =
  ka_label :: string
  ka_header :: "u8 list"
  ka_nonce :: u64
  ka_digest :: "u8 list"

definition startup_answers :: "KnownAnswer list \<Rightarrow> KnownAnswer list \<Rightarrow> KnownAnswer list \<times> bool" where
  "startup_answers known reference =
     (if known \<noteq> [] then (known, True) else (reference, False))"

definition default_kernels :: "KernelSpec \<Rightarrow> nat \<Rightarrow> KernelSpec list" where
  "default_kernels spec room =
     (if room = 0 then [] else if k_spirv spec \<noteq> None then [spec] else [])"

text \<open>A desktop device with the limits most of them report, for the examples.\<close>

definition desktop_device :: DeviceInfo where
  "desktop_device = \<lparr>d_index = 0, d_memory = 12884901888, d_kind = Discrete, d_vendor_id = 0,
     d_device_id = 0, d_api_version = 0, d_driver_version = 0, d_subgroup_size = 32,
     d_max_invocations = 1024, d_max_workgroup_size = 1024, d_max_workgroup_count = 65535,
     d_max_allocation = 4294967296, d_max_binding_range = 4294967295, d_max_storage_buffers = 32,
     d_max_shared_memory = 49152, d_int64 = True, d_int16 = True, d_int8 = True,
     d_subgroup_ballot = True, d_subgroup_shuffle = True, d_dot4x8 = True, d_dot4x8_native = True\<rparr>"

end
