(* ===== verification/Progpow.thy ===== *)
theory Progpow
  imports Progpow_Dag Backend
begin

text \<open>
  \<^verbatim>\<open>algorithms/progpow/progpow.{h,cpp}\<close>: the class \<open>ProgPow\<close>, one object per fork and worker. Its
  members are the record \<open>progpow\<close>; the light cache it shares with every other object of the
  process is threaded as a \<open>dag_cache\<close>. What the build and the machine supply are arguments:
  \<open>shaders\<close> is \<^verbatim>\<open>load_shader\<close>, \<open>declared\<close> the option \<open>--progpow-max-epoch\<close>, \<open>alloc\<close> whether
  memory for a cache can be had, \<open>stack\<close> the uninitialised words of the mix. The object's own
  memory of a loaded shader module is left out: loading it again gives the same module.
\<close>

section \<open>Constants\<close>

definition kHeaderWords :: nat where "kHeaderWords = 9"
definition kDerived :: nat where "kDerived = 2"
definition kProgramConstants :: nat where "kProgramConstants = kProgramWords + 1"
definition kShapeConstants :: nat where "kShapeConstants = 4"
definition kDeviceConstants :: nat where "kDeviceConstants = 2"
definition kKernelConstants :: nat where
  "kKernelConstants = kShapeConstants + kSealSeedWords + kSealFinalWords + kDeviceConstants"
definition kItemsPerLine :: nat where "kItemsPerLine = kLineWords * 4 div kItemBytes"
definition kL1Lines :: nat where "kL1Lines = kL1Words * 4 div (kLineWords * 4)"

lemmas progpow_consts = kHeaderWords_def kDerived_def kProgramConstants_def kShapeConstants_def
  kDeviceConstants_def kKernelConstants_def kItemsPerLine_def kL1Lines_def kLineWords_def
  kItemBytes_def kItemWords_def kL1Words_def kLanes_def kDagLoads_def

record ProgPowPush =
  pu_header :: "u32 list"
  pu_target :: "u32 list"
  pu_nonce_lo :: u32
  pu_nonce_hi :: u32
  pu_count :: u32
  pu_capacity :: u32
  pu_period_lo :: u32
  pu_period_hi :: u32
  pu_dag_lines :: u32

definition push_words :: "ProgPowPush \<Rightarrow> u32 list" where
  "push_words b = pu_header b @ pu_target b @
     [pu_nonce_lo b, pu_nonce_hi b, pu_count b, pu_capacity b, pu_period_lo b, pu_period_hi b,
      pu_dag_lines b]"

definition header_words :: "u32 list \<Rightarrow> u32 list" where
  "header_words header =
     (let bytes = concat (map (\<lambda>i. be32enc (header ! i)) [0..<8])
      in map (\<lambda>i. le32dec (take 4 (drop (i * 4) bytes))) [0..<8])"

text \<open>
  \<^verbatim>\<open>ReferenceLines::line\<close>. The four items are asked for in turn and the first refusal ends it.
\<close>

definition reference_line ::
  "epochs \<Rightarrow> bool \<Rightarrow> u64 \<Rightarrow> dag_cache \<Rightarrow> u32 list option \<times> dag_cache" where
  "reference_line e alloc index st =
     for_up kItemsPerLine (\<lambda>i (out, st).
       case out of None \<Rightarrow> (None, st)
       | Some out \<Rightarrow>
           let (item, st) = dataset_item e (index * of_nat kItemsPerLine + of_nat i) alloc st
           in case item of None \<Rightarrow> (None, st) | Some item \<Rightarrow> (Some (out @ item), st))
       (Some [], st)"

text \<open>
  \<open>chunk * 2\<close> wraps to zero once the chunk is the top bit, and then the loop never ends: not
  returning is \<open>None\<close>.
\<close>

partial_function (option) chunk_loop :: "u64 \<Rightarrow> u64 \<Rightarrow> u64 option" where
  "chunk_loop n chunk = (if chunk * 2 \<le> n then chunk_loop n (chunk * 2) else Some chunk)"

definition chunk_floor :: "u64 \<Rightarrow> u64 option" where
  "chunk_floor n = chunk_loop n (of_nat kLineWords * 4)"

section \<open>Published answers\<close>

definition kHeader49 :: "u8 list" where
  "kHeader49 =
     [0x63, 0x15, 0x5f, 0x73, 0x2f, 0x2b, 0xf5, 0x56, 0x96, 0x7f, 0x90, 0x61,
      0x55, 0xb5, 0x10, 0xc9, 0x17, 0xe4, 0x8e, 0x99, 0x68, 0x5e, 0xad, 0x76,
      0xea, 0x83, 0xf4, 0xec, 0xa0, 0x3a, 0xb1, 0x2b, 0x00, 0x00, 0x00, 0x31]"

definition kDigest49 :: "u8 list" where
  "kDigest49 =
     [0x63, 0x94, 0xfb, 0x6e, 0xb9, 0x99, 0x97, 0xac, 0xa4, 0x77, 0x3c, 0x49,
      0x50, 0xfe, 0x27, 0x93, 0x56, 0xe3, 0x48, 0x9f, 0x9f, 0xad, 0x55, 0x0a,
      0x50, 0xd2, 0x8f, 0x59, 0x24, 0xd1, 0xce, 0xe7]"

definition kHeader99 :: "u8 list" where
  "kHeader99 =
     [0xde, 0x37, 0xe1, 0x82, 0x4c, 0x86, 0xd3, 0x5d, 0x15, 0x4c, 0xf6, 0x5a,
      0x88, 0xde, 0x6d, 0x92, 0x86, 0xae, 0xc4, 0xf7, 0xf1, 0x0c, 0x3f, 0xc9,
      0xf0, 0xfa, 0x1b, 0xcc, 0x26, 0x87, 0x18, 0x8d, 0x00, 0x00, 0x00, 0x63]"

definition kDigest99 :: "u8 list" where
  "kDigest99 =
     [0x61, 0x3a, 0xec, 0x32, 0x7d, 0x3e, 0x84, 0x31, 0x72, 0x57, 0xf1, 0x1e,
      0xfd, 0xed, 0x15, 0x0e, 0x91, 0x37, 0x19, 0x02, 0xa5, 0x24, 0x43, 0x05,
      0x07, 0xe9, 0xf2, 0x90, 0x06, 0x34, 0x85, 0xaa]"

definition kFiroHeader1 :: "u8 list" where
  "kFiroHeader1 =
     [0x2d, 0x79, 0x4e, 0x90, 0x0d, 0xca, 0xd7, 0x79, 0xe6, 0x58, 0xde, 0x90,
      0x78, 0xd9, 0xa8, 0x8e, 0xee, 0x87, 0xd7, 0x5f, 0x7b, 0x09, 0xa8, 0xfd,
      0xd2, 0x70, 0xd3, 0xa8, 0xe7, 0x66, 0x50, 0xc7, 0x00, 0x00, 0x00, 0x01]"

definition kFiroDigest1 :: "u8 list" where
  "kFiroDigest1 =
     [0x2d, 0x9f, 0x92, 0x13, 0x6d, 0x8a, 0xf2, 0x2c, 0x59, 0x78, 0xd4, 0xf7,
      0x24, 0x36, 0x07, 0x82, 0x69, 0x54, 0x37, 0x35, 0xdd, 0xe3, 0xf9, 0x14,
      0x93, 0x49, 0xfa, 0xe1, 0x7d, 0x7c, 0x01, 0x00]"

definition kFiroHeader1299 :: "u8 list" where
  "kFiroHeader1299 =
     [0xe0, 0x72, 0x45, 0x17, 0x22, 0x99, 0x95, 0xbb, 0x72, 0xbf, 0x51, 0x6a,
      0x38, 0x57, 0x16, 0x62, 0x7d, 0xec, 0x52, 0x3f, 0x62, 0x2c, 0x79, 0x66,
      0x0a, 0x1d, 0x27, 0x42, 0x6c, 0xa8, 0xad, 0x23, 0x00, 0x00, 0x05, 0x13]"

definition kFiroDigest1299 :: "u8 list" where
  "kFiroDigest1299 =
     [0x4a, 0x7b, 0x81, 0x19, 0xfe, 0x56, 0xf8, 0x58, 0x2f, 0x3d, 0xc3, 0xad,
      0xb0, 0x7f, 0xa9, 0x7f, 0x8d, 0x75, 0x69, 0xb4, 0x85, 0x49, 0x15, 0x70,
      0x9f, 0xff, 0xdc, 0x1a, 0x43, 0x1f, 0x02, 0x00]"

definition kAnswers :: "KnownAnswer list" where
  "kAnswers =
     [\<lparr>ka_label = ''ProgPoW 0.9.4 block 49'', ka_header = kHeader49, ka_nonce = 0x07073c07,
        ka_digest = kDigest49\<rparr>,
      \<lparr>ka_label = ''ProgPoW 0.9.4 block 99'', ka_header = kHeader99, ka_nonce = 0x3917afab,
        ka_digest = kDigest99\<rparr>]"

definition kFiroAnswers :: "KnownAnswer list" where
  "kFiroAnswers =
     [\<lparr>ka_label = ''FiroPoW block 1'', ka_header = kFiroHeader1, ka_nonce = 0x85f22c9b3cd2f123,
        ka_digest = kFiroDigest1\<rparr>,
      \<lparr>ka_label = ''FiroPoW block 1299'', ka_header = kFiroHeader1299,
        ka_nonce = 0xdec25421bac291d6, ka_digest = kFiroDigest1299\<rparr>]"

definition kVectors :: "(string \<times> KnownAnswer list) list" where
  "kVectors = [(''kawpow'', kAnswers), (''firopow'', kFiroAnswers)]"

section \<open>The object\<close>

record progpow =
  pp_params :: params
  pp_epochs :: epochs
  pp_host_dag :: bool
  pp_lines :: u64
  pp_kernel_constants :: "u32 list"
  pp_l1 :: "u32 list"
  pp_l1_ready :: bool
  pp_derived :: "KnownAnswer list"
  pp_derived_ready :: bool

definition table_lines :: "epochs \<Rightarrow> u64" where
  "table_lines e = dag_items (e_full e) div of_nat kItemsPerLine"

definition ProgPow :: "params \<Rightarrow> u32 \<Rightarrow> u64 \<Rightarrow> bool \<Rightarrow> u32 list \<Rightarrow> progpow" where
  "ProgPow p epoch lines host_dag memory =
     (let e = epochs_for p epoch
      in \<lparr>pp_params = p, pp_epochs = e, pp_host_dag = host_dag,
          pp_lines = (if lines \<noteq> 0 then lines else table_lines e),
          pp_kernel_constants =
            [regs p, cache_ops p, math_ops p, rounds p] @
            map (\<lambda>i. seal_seed p ! i) [0..<kSealSeedWords] @
            map (\<lambda>i. seal_final p ! i) [0..<kSealFinalWords] @
            replicate kDeviceConstants 0,
          pp_l1 = memory, pp_l1_ready = False, pp_derived = [], pp_derived_ready = False\<rparr>)"

definition make_progpow :: "params \<Rightarrow> u32 \<Rightarrow> u32 list \<Rightarrow> progpow" where
  "make_progpow p epoch memory = ProgPow p epoch 0 False memory"

definition make_progpow_host_dag :: "params \<Rightarrow> u32 \<Rightarrow> u64 \<Rightarrow> u32 list \<Rightarrow> progpow" where
  "make_progpow_host_dag p epoch lines memory =
     (let lines = (if lines < of_nat kL1Lines then of_nat kL1Lines else lines)
      in ProgPow p epoch lines True memory)"

definition known_answers :: "progpow \<Rightarrow> KnownAnswer list" where
  "known_answers a =
     (if e_seed (pp_epochs a) \<noteq> 0 \<or> pp_host_dag a then []
      else case List.find (\<lambda>v. fst v = p_name (pp_params a)) kVectors of
             None \<Rightarrow> [] | Some v \<Rightarrow> snd v)"

definition nonce_bits :: u32 where "nonce_bits = 48"

section \<open>The reference hash\<close>

definition l1_cache :: "bool \<Rightarrow> progpow \<Rightarrow> dag_cache \<Rightarrow> bool \<times> progpow \<times> dag_cache" where
  "l1_cache alloc a st =
     (if pp_l1_ready a then (True, a, st)
      else
        let (ok, l1, st) =
              for_up (kL1Words div kItemWords) (\<lambda>i (ok, l1, st).
                if \<not> ok then (False, l1, st)
                else let (item, st) = dataset_item (pp_epochs a) (of_nat i) alloc st
                     in case item of None \<Rightarrow> (False, l1, st)
                        | Some item \<Rightarrow>
                            (True, take (i * kItemWords) l1 @ item @ drop (i * kItemWords + kItemWords) l1, st))
                (True, pp_l1 a, st)
        in (ok, a\<lparr>pp_l1 := l1, pp_l1_ready := ok\<rparr>, st))"

text \<open>
  The rounds ask for lines of one dataset only, so a hash's answers are those of the state it
  starts its rounds in, and the state it leaves is the one the first line's request leaves.
\<close>

definition first_index :: "progpow \<Rightarrow> mix \<Rightarrow> u32 list \<Rightarrow> u64 \<Rightarrow> u64" where
  "first_index a stack words nonce =
     (let seed = seed_state (pp_params a) words nonce
      in ucast (mix_get (init_mix (pp_params a) (seed ! 0) (seed ! 1) stack) 0 0) mod pp_lines a)"

definition full_hash ::
  "bool \<Rightarrow> mix \<Rightarrow> u32 list \<Rightarrow> u64 \<Rightarrow> progpow \<Rightarrow> dag_cache \<Rightarrow> pp_hash option \<times> progpow \<times> dag_cache"
where
  "full_hash alloc stack header nonce a st =
     (let program = build_program (pp_params a) (period_of (pp_params a) (ucast (header ! 8)));
          (ok, a, st) = l1_cache alloc a st
      in if \<not> ok then (None, a, st)
         else
           let words = header_words header;
               got = pp_hash_of (pp_params a) program (pp_l1 a) (pp_lines a)
                       (\<lambda>i. fst (reference_line (pp_epochs a) alloc i st)) stack words nonce;
               st' = (if pp_lines a = 0 \<or> rounds (pp_params a) = 0 then st
                      else snd (reference_line (pp_epochs a) alloc (first_index a stack words nonce) st))
           in (got, a, st'))"

definition hash_out :: "u32 list \<Rightarrow> u32 list" where
  "hash_out digest = map (\<lambda>j. be32dec (le32enc (digest ! (7 - j)))) [0..<8]"

definition progpow_hash ::
  "bool \<Rightarrow> mix \<Rightarrow> u32 list \<Rightarrow> u64 \<Rightarrow> progpow \<Rightarrow> dag_cache \<Rightarrow> u32 list \<times> progpow \<times> dag_cache" where
  "progpow_hash alloc stack header nonce a st =
     (let (got, a, st) = full_hash alloc stack header nonce a st
      in case got of None \<Rightarrow> (replicate 8 0, a, st) | Some got \<Rightarrow> (hash_out (h_digest got), a, st))"

definition submit_mix ::
  "bool \<Rightarrow> mix \<Rightarrow> u32 list \<Rightarrow> u64 \<Rightarrow> progpow \<Rightarrow> dag_cache \<Rightarrow> u8 list option \<times> progpow \<times> dag_cache"
where
  "submit_mix alloc stack header nonce a st =
     (let (got, a, st) = full_hash alloc stack header nonce a st
      in (map_option (\<lambda>got. concat (map (\<lambda>i. le32enc (h_mix got ! i)) [0..<8])) got, a, st))"

section \<open>Answers of this build's own\<close>

definition derived_header :: "params \<Rightarrow> nat \<Rightarrow> u8 list" where
  "derived_header p i =
     map (\<lambda>b. of_nat (0x11 * (b mod 16) + i)) [0..<32] @ be32enc (of_nat i * period_length p)"

definition derived_labels :: "string list" where
  "derived_labels = [''a header of this build's own, in the first program'',
     ''a header of this build's own, in the second'']"

definition derived_nonces :: "u64 list" where
  "derived_nonces = [0x0000c0ffee000001, 0x0000c0ffee000002]"

definition derive_answers :: "bool \<Rightarrow> mix \<Rightarrow> progpow \<Rightarrow> dag_cache \<Rightarrow> progpow \<times> dag_cache" where
  "derive_answers alloc stack a st =
     (let (answers, a, st) =
        for_up kDerived (\<lambda>i (answers, a, st).
          let bytes = derived_header (pp_params a) i;
              header = map (\<lambda>w. be32dec (take 4 (drop (w * 4) bytes))) [0..<kHeaderWords];
              (digest, a, st) = progpow_hash alloc stack header (derived_nonces ! i) a st
          in (answers @ [\<lparr>ka_label = derived_labels ! i, ka_header = bytes,
                ka_nonce = derived_nonces ! i, ka_digest = bytes_of digest\<rparr>], a, st))
          ([], a, st)
      in (a\<lparr>pp_derived := answers, pp_derived_ready := True\<rparr>, st))"

definition reference_answers ::
  "bool \<Rightarrow> mix \<Rightarrow> progpow \<Rightarrow> dag_cache \<Rightarrow> KnownAnswer list \<times> progpow \<times> dag_cache" where
  "reference_answers alloc stack a st =
     (if e_seed (pp_epochs a) \<noteq> 0 \<or> pp_host_dag a \<or> known_answers a \<noteq> [] then ([], a, st)
      else
        let (a, st) = (if \<not> pp_derived_ready a then derive_answers alloc stack a st else (a, st))
        in (take kDerived (pp_derived a), a, st))"

section \<open>What a job asks for\<close>

definition retarget :: "u32 list \<Rightarrow> progpow \<Rightarrow> bool \<times> progpow" where
  "retarget header a =
     (if pp_host_dag a then (False, a)
      else
        let e = epochs_of (pp_params a) (ucast (header ! 8))
        in if e_seed e = e_seed (pp_epochs a) then (False, a)
           else (True, a\<lparr>pp_epochs := e, pp_lines := table_lines e, pp_l1_ready := False\<rparr>))"

definition state_key :: "progpow \<Rightarrow> u64" where
  "state_key a = ucast (e_seed (pp_epochs a))"

definition program_key :: "progpow \<Rightarrow> u32 list \<Rightarrow> u64" where
  "program_key a header = period_of (pp_params a) (ucast (header ! 8))"

definition program_values :: "progpow \<Rightarrow> u64 \<Rightarrow> nat \<Rightarrow> u32 list" where
  "program_values a key room =
     (if room < kProgramConstants then []
      else map (\<lambda>i. build_program (pp_params a) key ! i) [0..<kProgramWords] @ [ucast (pp_lines a)])"

definition next_program_key :: "u64 \<Rightarrow> u64" where "next_program_key key = key + 1"

definition epochs_of_key :: "progpow \<Rightarrow> u64 \<Rightarrow> epochs" where
  "epochs_of_key a key = epochs_for (pp_params a) (ucast key)"

definition setup_seed ::
  "u64 \<Rightarrow> u64 \<Rightarrow> u64 \<Rightarrow> bool \<Rightarrow> progpow \<Rightarrow> dag_cache \<Rightarrow> u8 list option \<times> dag_cache" where
  "setup_seed key offset bytes alloc a st = light_cache (epochs_of_key a key) offset bytes alloc st"

definition setup_push :: "progpow \<Rightarrow> u64 \<Rightarrow> u64 \<Rightarrow> u64 \<Rightarrow> u32 \<Rightarrow> nat \<Rightarrow> DagPush option" where
  "setup_push a key first slot n capacity =
     (if capacity < 16 then None
      else Some \<lparr>dp_count = n, dp_first = ucast first, dp_slot = ucast slot,
             dp_cache_items = light_cache_items (e_light (epochs_of_key a key))\<rparr>)"

lemma at_in_item: "unat (offset mod 64 :: u64) < 64"
  using unat_mod_less [of "64 :: u64" offset] by simp

function shared_loop ::
  "epochs \<Rightarrow> bool \<Rightarrow> u64 \<Rightarrow> nat \<Rightarrow> u8 list \<Rightarrow> dag_cache \<Rightarrow> u8 list option \<times> dag_cache" where
  "shared_loop e alloc offset bytes out st =
     (if bytes = 0 then (Some out, st)
      else
        let index = offset div of_nat kItemBytes;
            at = unat (offset mod of_nat kItemBytes);
            span = (if bytes < kItemBytes - at then bytes else kItemBytes - at);
            (item, st) = dataset_item e index alloc st
        in case item of None \<Rightarrow> (None, st)
           | Some item \<Rightarrow>
               let bytes64 = concat (map (\<lambda>i. le32enc (item ! i)) [0..<kItemWords])
               in shared_loop e alloc (offset + of_nat span) (bytes - span)
                    (out @ take span (drop at bytes64)) st)"
  by pat_completeness auto
termination
  by (relation "measure (\<lambda>(_, _, _, bytes, _, _). bytes)")
    (auto simp: kItemBytes_def at_in_item)

declare shared_loop.simps [simp del]

definition shared_state ::
  "u64 \<Rightarrow> u64 \<Rightarrow> nat \<Rightarrow> bool \<Rightarrow> progpow \<Rightarrow> dag_cache \<Rightarrow> u8 list option \<times> dag_cache" where
  "shared_state key offset bytes alloc a st =
     (if \<not> pp_host_dag a then (None, st)
      else shared_loop (epochs_of_key a key) alloc offset bytes [] st)"

definition prepare :: "Dispatch \<Rightarrow> nat \<Rightarrow> progpow \<Rightarrow> u8 list" where
  "prepare dis capacity a =
     (case (dis_header dis, dis_target dis) of
        (Some header, Some target) \<Rightarrow>
          if capacity < 92 then []
          else
            let period = period_of (pp_params a) (ucast (header ! 8));
                b = \<lparr>pu_header = header_words header,
                      pu_target = map (\<lambda>i. target ! i) [0..<8],
                      pu_nonce_lo = ucast (dis_nonce_start dis),
                      pu_nonce_hi = ucast (drop_bit 32 (dis_nonce_start dis)),
                      pu_count = dis_count dis, pu_capacity = dis_capacity dis,
                      pu_period_lo = ucast period, pu_period_hi = ucast (drop_bit 32 period),
                      pu_dag_lines = ucast (pp_lines a)\<rparr>
            in bytes_of (push_words b)
      | _ \<Rightarrow> [])"

section \<open>What a device is offered\<close>

datatype Kind = kInterpreted | kSpecialized | kSpecializedSubgroup

definition can_shuffle_lanes :: "DeviceInfo \<Rightarrow> bool" where
  "can_shuffle_lanes d \<longleftrightarrow> d_subgroup_shuffle d \<and> of_nat kLanes \<le> d_subgroup_size d \<and>
     d_subgroup_size d mod of_nat kLanes = 0"

definition widest_workgroup :: "DeviceInfo \<Rightarrow> u64" where
  "widest_workgroup d =
     (let widest = ucast (d_max_workgroup_size d) in
      if d_max_invocations d \<noteq> 0 \<and> ucast (d_max_invocations d) < widest
      then ucast (d_max_invocations d) else widest)"

definition exchange_bytes :: "DeviceInfo \<Rightarrow> u64" where
  "exchange_bytes d = widest_workgroup d * 4"

definition seed_slot_bytes :: "DeviceInfo \<Rightarrow> u64" where
  "seed_slot_bytes d = (widest_workgroup d div of_nat kLanes * 8 + 1) * 4"

definition l1_shared_words :: "DeviceInfo \<Rightarrow> u32" where
  "l1_shared_words d =
     (let copy = (of_nat kL1Words + 1) * 4 in
      if ucast (d_max_shared_memory d) < copy + exchange_bytes d then 0 else of_nat kL1Words)"

definition seed_pre_pass :: "DeviceInfo \<Rightarrow> u32" where
  "seed_pre_pass d =
     (let taken = exchange_bytes d;
          taken = (if l1_shared_words d \<noteq> 0 then taken + (of_nat kL1Words + 1) * 4 else taken)
      in if taken + seed_slot_bytes d \<le> ucast (d_max_shared_memory d) then 1 else 0)"

definition spec_table :: "int \<Rightarrow> Kind \<Rightarrow> progpow \<Rightarrow> KernelSpec option" where
  "spec_table declared kind a =
     (let shared = pp_lines a * of_nat kLineWords * 4 in
      case (if pp_host_dag a then chunk_floor (shared div 4) else Some 0) of None \<Rightarrow> None
      | Some chunk \<Rightarrow>
          let spec = kernel_spec_default\<lparr>
                k_name := p_name (pp_params a),
                k_variant := (if kind = kSpecializedSubgroup then ''spec-sub''
                              else if kind \<noteq> kInterpreted then ''spec'' else ''interp''),
                k_lanes := of_nat kLanes,
                k_full_subgroups := kind = kSpecializedSubgroup,
                k_shared_bytes := shared,
                k_shared_chunks := of_nat kMaxSharedChunks,
                k_shared_chunk_bytes := chunk\<rparr>
          in if pp_host_dag a then Some spec
             else let epoch = (if 0 < declared then of_int declared else max_epoch (pp_params a))
                  in Some (spec\<lparr>
                       k_shared_bytes_max := dag_bytes (e_full (epochs_for (pp_params a) epoch)),
                       k_size_override := Some ''--progpow-max-epoch''\<rparr>))"

definition spec_for ::
  "(string \<Rightarrow> ShaderModule option) \<Rightarrow> int \<Rightarrow> DeviceInfo \<Rightarrow> Kind \<Rightarrow> progpow \<Rightarrow>
   (KernelSpec \<times> progpow) option" where
  "spec_for shaders declared d kind a =
     (case spec_table declared kind a of None \<Rightarrow> None
      | Some spec \<Rightarrow>
          case shaders (case kind of kSpecializedSubgroup \<Rightarrow> ''progpow_spec_sub''
                        | kSpecialized \<Rightarrow> ''progpow_spec'' | kInterpreted \<Rightarrow> ''progpow'') of
            None \<Rightarrow> Some (spec, a)
          | Some module \<Rightarrow>
              let consts = (pp_kernel_constants a)
                    [kKernelConstants - 2 := l1_shared_words d, kKernelConstants - 1 := seed_pre_pass d];
                  a = a\<lparr>pp_kernel_constants := consts\<rparr>;
                  spec = spec\<lparr>
                    k_spirv := Some (m_words module),
                    k_constants := consts,
                    k_storage_buffers := (if m_storage_buffers module \<noteq> 0 then m_storage_buffers module
                                          else 1 + of_nat kMaxSharedChunks),
                    k_push_constant_bytes := (if m_push_constant_bytes module \<noteq> 0
                                              then m_push_constant_bytes module else 92),
                    k_local_size_x := m_local_size_x module,
                    k_program_constants := (if kind \<noteq> kInterpreted then of_nat kProgramConstants else 0)\<rparr>
              in if pp_host_dag a then Some (spec, a)
                 else case shaders ''dag'' of None \<Rightarrow> Some (spec, a)
                      | Some setup \<Rightarrow>
                          Some (spec\<lparr>k_setup := \<lparr>sp_spirv = Some (m_words setup),
                                  sp_push_constant_bytes = 16, sp_local_size_x = 0,
                                  sp_seed_bytes = light_cache_bytes (e_light (pp_epochs a)),
                                  sp_items = pp_lines a * of_nat kItemsPerLine\<rparr>\<rparr>, a))"

definition kernel ::
  "(string \<Rightarrow> ShaderModule option) \<Rightarrow> int \<Rightarrow> DeviceInfo \<Rightarrow> progpow \<Rightarrow> (KernelSpec \<times> progpow) option"
where
  "kernel shaders declared d a = spec_for shaders declared d kInterpreted a"

definition offer ::
  "(string \<Rightarrow> ShaderModule option) \<Rightarrow> int \<Rightarrow> DeviceInfo \<Rightarrow> nat \<Rightarrow> Kind \<Rightarrow>
   KernelSpec list \<times> progpow \<Rightarrow> (KernelSpec list \<times> progpow) option" where
  "offer shaders declared d room kind s =
     (case s of (out, a) \<Rightarrow>
        case spec_for shaders declared d kind a of None \<Rightarrow> None
        | Some (spec, a) \<Rightarrow>
            Some (if length out < room \<and> k_spirv spec \<noteq> None then out @ [spec] else out, a))"

definition kernels ::
  "(string \<Rightarrow> ShaderModule option) \<Rightarrow> int \<Rightarrow> DeviceInfo \<Rightarrow> nat \<Rightarrow> progpow \<Rightarrow>
   (KernelSpec list \<times> progpow) option" where
  "kernels shaders declared d room a =
     fold_fail (offer shaders declared d room)
       ([kSpecialized] @ (if can_shuffle_lanes d then [kSpecializedSubgroup] else []) @ [kInterpreted])
       ([], a)"

section \<open>The pool's half of the epoch\<close>

definition progpow_seed_hash_check :: "string option \<Rightarrow> u64 \<Rightarrow> u8 list option \<Rightarrow> bool" where
  "progpow_seed_hash_check opt_algo height seed =
     (case (find_fork opt_algo, seed) of
        (Some fork, Some seed) \<Rightarrow> epoch_seed (e_seed (epochs_of fork height)) = seed
      | _ \<Rightarrow> True)"

section \<open>Lemmas: lines and the head of the table\<close>

lemma progpow_numbers:
  "kItemsPerLine = 4" "kItemWords = 16" "kItemBytes = 64" "kL1Words = 4096" "kL1Lines = 64"
  "kLineWords = 64" "kLanes = 16" "kKernelConstants = 30" "kSealSeedWords = 15" "kSealFinalWords = 9"
  "kDeviceConstants = 2" "kProgramConstants = 135" "kL1Words div kItemWords = 256"
  by (simp_all add: progpow_consts kSealSeedWords_def kSealFinalWords_def layout_simps)

definition line_of :: "epochs \<Rightarrow> u64 \<Rightarrow> u32 list" where
  "line_of e index = concat (map (\<lambda>i. item_of e (index * 4 + of_nat i)) [0..<4])"

definition l1_of :: "epochs \<Rightarrow> u32 list" where
  "l1_of e = concat (map (\<lambda>i. item_of e (of_nat i)) [0..<256])"

lemma length_item_of [simp]: "length (item_of e i) = 16"
  by (simp add: item_of_def calculate_dataset_item_512_def)

lemma valid_reference_line: "valid_cache st \<Longrightarrow> valid_cache (snd (reference_line e alloc index st))"
proof -
  assume v: "valid_cache st"
  let ?body = "\<lambda>i (out, st).
       case out of None \<Rightarrow> (None, st)
       | Some out \<Rightarrow>
           let (item, st) = dataset_item e (index * of_nat kItemsPerLine + of_nat i) alloc st
           in case item of None \<Rightarrow> (None, st) | Some item \<Rightarrow> (Some (out @ item), st)"
  have "valid_cache (snd (for_up n ?body (Some [], st)))" for n
    by (rule for_up_invariant [where P = "\<lambda>_ s. valid_cache (snd s)"])
      (use v valid_dataset_item in \<open>auto simp: split_beta split: option.splits\<close>)
  then show ?thesis by (simp only: reference_line_def)
qed

lemma reference_line_exact:
  assumes "valid_cache st" and "\<And>i. i < 4 \<Longrightarrow> index * 4 + of_nat i < dag_items (e_full e)"
  shows "fst (reference_line e True index st) = Some (line_of e index)"
proof -
  let ?body = "\<lambda>i (out, st).
       case out of None \<Rightarrow> (None, st)
       | Some out \<Rightarrow>
           let (item, st) = dataset_item e (index * 4 + of_nat i) True st
           in case item of None \<Rightarrow> (None, st) | Some item \<Rightarrow> (Some (out @ item), st)"
  let ?P = "\<lambda>i s. valid_cache (snd s) \<and>
    fst s = Some (concat (map (\<lambda>i. item_of e (index * 4 + of_nat i)) [0..<i]))"
  have "?P 4 (for_up 4 ?body (Some [], st))"
  proof (rule for_up_invariant [where P = ?P])
    fix i s assume i: "i < (4 :: nat)" and P: "?P i s"
    obtain out t where s: "s = (out, t)" by (cases s)
    have t: "valid_cache t" using P s by simp
    have d: "fst (dataset_item e (index * 4 + of_nat i) True t) = Some (item_of e (index * 4 + of_nat i))"
      using dataset_item_served [OF t] assms(2) [OF i] by simp
    show "?P (Suc i) (?body i s)"
      using P valid_dataset_item [OF t, of e "index * 4 + of_nat i" True]
      by (simp add: s split_beta d)
  qed (use assms(1) in simp)
  then show ?thesis unfolding reference_line_def line_of_def progpow_numbers of_nat_numeral by blast
qed

lemma l1_write:
  assumes "length l1 = 4096" "i < 256" "length item = 16"
  shows "length (take (i * 16) l1 @ item @ drop (i * 16 + 16) l1) = 4096"
    "take (Suc i * 16) (take (i * 16) l1 @ item @ drop (i * 16 + 16) l1) = take (i * 16) l1 @ item"
  using assms by (simp_all add: min_def)

lemma valid_l1_cache: "valid_cache st \<Longrightarrow> valid_cache (snd (snd (l1_cache alloc a st)))"
proof -
  assume v: "valid_cache st"
  let ?body = "\<lambda>i (ok, l1, st).
                if \<not> ok then (False, l1, st)
                else let (item, st) = dataset_item (pp_epochs a) (of_nat i) alloc st
                     in case item of None \<Rightarrow> (False, l1, st)
                        | Some item \<Rightarrow>
                            (True, take (i * kItemWords) l1 @ item @ drop (i * kItemWords + kItemWords) l1, st)"
  have "valid_cache (snd (snd (for_up n ?body (True, pp_l1 a, st))))" for n
    by (rule for_up_invariant [where P = "\<lambda>_ s. valid_cache (snd (snd s))"])
      (use v valid_dataset_item in \<open>auto simp: split_beta split: option.splits\<close>)
  then show ?thesis using v by (simp add: l1_cache_def split_beta Let_def)
qed

text \<open>What filling the head of the table leaves behind, whether or not it succeeds.\<close>

lemma l1_cache_spec:
  assumes "valid_cache st" "length (pp_l1 a) = 4096" "pp_l1_ready a \<longrightarrow> pp_l1 a = l1_of (pp_epochs a)"
  obtains l1 where
    "fst (snd (l1_cache alloc a st)) = a\<lparr>pp_l1 := l1, pp_l1_ready := fst (l1_cache alloc a st)\<rparr>"
    "length l1 = 4096" "fst (l1_cache alloc a st) \<longrightarrow> l1 = l1_of (pp_epochs a)"
proof (cases "pp_l1_ready a")
  case True
  show ?thesis by (rule that [of "pp_l1 a"]) (use True assms in \<open>simp_all add: l1_cache_def\<close>)
next
  case False
  let ?e = "pp_epochs a"
  let ?body = "\<lambda>i (ok, l1, st).
                if \<not> ok then (False, l1, st)
                else let (item, st) = dataset_item ?e (of_nat i) alloc st
                     in case item of None \<Rightarrow> (False, l1, st)
                        | Some item \<Rightarrow>
                            (True, take (i * 16) l1 @ item @ drop (i * 16 + 16) l1, st)"
  let ?P = "\<lambda>i s. valid_cache (snd (snd s)) \<and> length (fst (snd s)) = 4096 \<and>
    (fst s \<longrightarrow> take (i * 16) (fst (snd s)) = concat (map (\<lambda>i. item_of ?e (of_nat i)) [0..<i]))"
  let ?r = "for_up 256 ?body (True, pp_l1 a, st)"
  obtain ok l1 t where r: "?r = (ok, l1, t)" by (cases ?r)
  have "?P 256 ?r"
  proof (rule for_up_invariant [where P = ?P])
    fix i s assume i: "i < (256 :: nat)" and P: "?P i s"
    obtain ok l1 t where s: "s = (ok, l1, t)" by (cases s)
    have t: "valid_cache t" and l: "length l1 = 4096" using P s by simp_all
    show "?P (Suc i) (?body i s)"
    proof (cases "ok \<and> fst (dataset_item ?e (of_nat i) alloc t) \<noteq> None")
      case True
      then have d: "fst (dataset_item ?e (of_nat i) alloc t) = Some (item_of ?e (of_nat i))"
        using dataset_item_answer [OF t, of "of_nat i" ?e alloc]
        by (cases "of_nat i < dag_items (e_full ?e)") (auto simp: dataset_item_def split: if_splits)
      show ?thesis
        using P True valid_dataset_item [OF t, of ?e "of_nat i" alloc]
          l1_write [OF l i length_item_of, of ?e "of_nat i"]
        by (simp add: s split_beta d)
    next
      case False
      then show ?thesis
        using P valid_dataset_item [OF t, of ?e "of_nat i" alloc] by (auto simp: s split_beta)
    qed
  qed (use assms in simp)
  moreover have "l1_cache alloc a st =
      (fst ?r, a\<lparr>pp_l1 := fst (snd ?r), pp_l1_ready := fst ?r\<rparr>, snd (snd ?r))"
    using False unfolding l1_cache_def progpow_numbers by (simp add: split_beta Let_def)
  ultimately show ?thesis
    unfolding r by (intro that [of l1]) (auto simp: l1_of_def)
qed

lemma l1_cache_served:
  assumes "valid_cache st" "256 \<le> dag_items (e_full (pp_epochs a))"
  shows "fst (l1_cache True a st)"
proof (cases "pp_l1_ready a")
  case False
  let ?body = "\<lambda>i (ok, l1, st).
                if \<not> ok then (False, l1, st)
                else let (item, st) = dataset_item (pp_epochs a) (of_nat i) True st
                     in case item of None \<Rightarrow> (False, l1, st)
                        | Some item \<Rightarrow>
                            (True, take (i * 16) l1 @ item @ drop (i * 16 + 16) l1, st)"
  have "fst (for_up 256 ?body (True, pp_l1 a, st)) \<and> valid_cache (snd (snd (for_up 256 ?body (True, pp_l1 a, st))))"
  proof (rule for_up_invariant [where P = "\<lambda>i s. fst s \<and> valid_cache (snd (snd s))"])
    fix i and s :: "bool \<times> u32 list \<times> dag_cache" assume i: "i < (256 :: nat)" and P: "fst s \<and> valid_cache (snd (snd s))"
    obtain ok l1 t where s: "s = (ok, l1, t)" by (cases s)
    have t: "valid_cache t" using P s by simp
    have "(of_nat i :: u64) < 256" using i by (simp add: word_less_nat_alt)
    then have "of_nat i < dag_items (e_full (pp_epochs a))" using assms(2) by (rule order.strict_trans2)
    then have "fst (dataset_item (pp_epochs a) (of_nat i) True t) = Some (item_of (pp_epochs a) (of_nat i))"
      using dataset_item_served [OF t] by simp
    then show "fst (?body i s) \<and> valid_cache (snd (snd (?body i s)))"
      using P valid_dataset_item [OF t, of "pp_epochs a" "of_nat i" True] by (simp add: s split_beta)
  qed (use assms in simp)
  then show ?thesis
    using False unfolding l1_cache_def progpow_numbers by (simp add: split_beta Let_def)
qed (simp add: l1_cache_def)

section \<open>The object's invariant\<close>

definition fork_constants :: "params \<Rightarrow> u32 list" where
  "fork_constants p =
     [regs p, cache_ops p, math_ops p, rounds p] @
     map (\<lambda>i. seal_seed p ! i) [0..<kSealSeedWords] @ map (\<lambda>i. seal_final p ! i) [0..<kSealFinalWords]"

definition progpow_ok :: "progpow \<Rightarrow> bool" where
  "progpow_ok a \<longleftrightarrow> wf_params (pp_params a) \<and>
     pp_epochs a = epochs_for (pp_params a) (e_seed (pp_epochs a)) \<and>
     (\<not> pp_host_dag a \<longrightarrow> pp_lines a = table_lines (pp_epochs a)) \<and>
     length (pp_kernel_constants a) = kKernelConstants \<and>
     take 28 (pp_kernel_constants a) = fork_constants (pp_params a) \<and>
     length (pp_l1 a) = kL1Words \<and>
     (pp_l1_ready a \<longrightarrow> pp_l1 a = l1_of (pp_epochs a))"

lemma e_seed_epochs_for [simp]: "e_seed (epochs_for p s) = s"
  by (simp add: epochs_for_def Let_def)

lemma progpow_ok_new:
  assumes "wf_params p" "length memory = kL1Words"
  shows "progpow_ok (ProgPow p epoch 0 False memory)" "progpow_ok (ProgPow p epoch lines True memory)"
  using assms
  by (simp_all add: progpow_ok_def ProgPow_def Let_def fork_constants_def progpow_numbers)

lemma progpow_ok_retarget: "progpow_ok a \<Longrightarrow> progpow_ok (snd (retarget header a))"
  by (auto simp: retarget_def progpow_ok_def epochs_of_def Let_def)

lemma progpow_ok_l1_cache:
  assumes "progpow_ok a" "valid_cache st"
  shows "progpow_ok (fst (snd (l1_cache alloc a st)))"
    "pp_params (fst (snd (l1_cache alloc a st))) = pp_params a"
    "pp_epochs (fst (snd (l1_cache alloc a st))) = pp_epochs a"
    "pp_lines (fst (snd (l1_cache alloc a st))) = pp_lines a"
    "pp_host_dag (fst (snd (l1_cache alloc a st))) = pp_host_dag a"
    "fst (l1_cache alloc a st) \<Longrightarrow> pp_l1 (fst (snd (l1_cache alloc a st))) = l1_of (pp_epochs a)"
proof -
  from assms(1) have l: "length (pp_l1 a) = 4096" "pp_l1_ready a \<longrightarrow> pp_l1 a = l1_of (pp_epochs a)"
    by (simp_all add: progpow_ok_def progpow_numbers)
  obtain l1 where
    e: "fst (snd (l1_cache alloc a st)) = a\<lparr>pp_l1 := l1, pp_l1_ready := fst (l1_cache alloc a st)\<rparr>"
    and "length l1 = 4096" "fst (l1_cache alloc a st) \<longrightarrow> l1 = l1_of (pp_epochs a)"
    by (rule l1_cache_spec [OF assms(2) l])
  then show "progpow_ok (fst (snd (l1_cache alloc a st)))"
    "pp_params (fst (snd (l1_cache alloc a st))) = pp_params a"
    "pp_epochs (fst (snd (l1_cache alloc a st))) = pp_epochs a"
    "pp_lines (fst (snd (l1_cache alloc a st))) = pp_lines a"
    "pp_host_dag (fst (snd (l1_cache alloc a st))) = pp_host_dag a"
    "fst (l1_cache alloc a st) \<Longrightarrow> pp_l1 (fst (snd (l1_cache alloc a st))) = l1_of (pp_epochs a)"
    using assms(1) by (simp_all add: progpow_ok_def progpow_numbers)
qed

lemma full_hash_state:
  assumes "progpow_ok a" "valid_cache st"
  shows "fst (snd (full_hash alloc stack header nonce a st)) = fst (snd (l1_cache alloc a st))"
    "valid_cache (snd (snd (full_hash alloc stack header nonce a st)))"
  using valid_l1_cache [OF assms(2), of alloc a] valid_reference_line
  by (simp_all add: full_hash_def split_beta Let_def)

definition the_hash :: "params \<Rightarrow> epochs \<Rightarrow> u64 \<Rightarrow> mix \<Rightarrow> u32 list \<Rightarrow> u64 \<Rightarrow> pp_hash option" where
  "the_hash p e lines stack header nonce =
     pp_hash_of p (build_program p (period_of p (ucast (header ! 8)))) (l1_of e) lines
       (\<lambda>i. Some (line_of e i)) stack (header_words header) nonce"

lemma table_lines_index:
  assumes "index < table_lines e" "i < 4"
  shows "index * 4 + of_nat i < dag_items (e_full e)"
proof -
  let ?d = "dag_items (e_full e)"
  have "unat (table_lines e) = unat ?d div 4"
    by (simp add: table_lines_def progpow_numbers unat_div_distrib)
  then have "unat index < unat ?d div 4" using assms(1) by (simp add: word_less_nat_alt)
  then have b: "unat index * 4 + i < unat ?d" using assms(2) by linarith
  moreover have "unat ?d < 18446744073709551616" by (rule unat_u64_less)
  ultimately have "unat index * 4 + i < 18446744073709551616" by linarith
  then have "unat (index * 4 + of_nat i) = unat index * 4 + i"
    using assms(2) by (simp add: unat_add_exact unat_mult_exact)
  then show ?thesis using b by (simp add: word_less_nat_alt)
qed

lemma full_hash_exact:
  assumes ok: "progpow_ok a" and st: "valid_cache st" and host: "\<not> pp_host_dag a"
    and items: "256 \<le> dag_items (e_full (pp_epochs a))" and stack: "mix_shape stack"
  shows "fst (full_hash True stack header nonce a st) =
    the_hash (pp_params a) (pp_epochs a) (table_lines (pp_epochs a)) stack header nonce"
proof -
  let ?a = "fst (snd (l1_cache True a st))" and ?t = "snd (snd (l1_cache True a st))"
  note l1 = progpow_ok_l1_cache [OF ok st, of True] l1_cache_served [OF st items]
  have lines: "pp_lines a = table_lines (pp_epochs a)" and wf: "wf_params (pp_params a)"
    using ok host by (simp_all add: progpow_ok_def)
  have "fst (full_hash True stack header nonce a st) =
    pp_hash_of (pp_params a) (build_program (pp_params a) (period_of (pp_params a) (ucast (header ! 8))))
      (l1_of (pp_epochs a)) (table_lines (pp_epochs a))
      (\<lambda>i. fst (reference_line (pp_epochs a) True i ?t)) stack (header_words header) nonce"
    using l1 by (simp add: full_hash_def split_beta Let_def lines)
  also have "\<dots> = the_hash (pp_params a) (pp_epochs a) (table_lines (pp_epochs a)) stack header nonce"
    unfolding the_hash_def
    by (rule pp_hash_agree [OF program_ok_build [OF wf] stack stack])
      (intro reference_line_exact valid_l1_cache st table_lines_index)
  finally show ?thesis .
qed

section \<open>Any history\<close>

text \<open>
  What can happen to an object and the cache it shares: each of its own operations, and a
  request by another object of the process.
\<close>

inductive pp_step :: "progpow \<times> dag_cache \<Rightarrow> progpow \<times> dag_cache \<Rightarrow> bool" where
  job: "pp_step (a, st) (snd (retarget header a), st)"
| hash: "pp_step (a, st) (snd (progpow_hash alloc stack header nonce a st))"
| share: "pp_step (a, st) (snd (submit_mix alloc stack header nonce a st))"
| startup: "pp_step (a, st) (snd (reference_answers alloc stack a st))"
| seed: "pp_step (a, st) (a, snd (setup_seed key offset bytes alloc a st))"
| table: "pp_step (a, st) (a, snd (shared_state key offset n alloc a st))"
| offered: "kernels shaders declared d room a = Some (out, a') \<Longrightarrow> pp_step (a, st) (a', st)"
| other: "pp_step (a, st) (a, snd (cache_for e alloc st))"

inductive_cases pp_stepE: "pp_step (a, st) (a', st')"

definition pp_inv :: "params \<Rightarrow> bool \<Rightarrow> progpow \<times> dag_cache \<Rightarrow> bool" where
  "pp_inv p host s \<longleftrightarrow> progpow_ok (fst s) \<and> valid_cache (snd s) \<and> pp_params (fst s) = p \<and>
     pp_host_dag (fst s) = host"

lemma pp_inv_full_hash:
  assumes "pp_inv p host (a, st)"
  shows "pp_inv p host (snd (full_hash alloc stack header nonce a st))"
  using assms progpow_ok_l1_cache [of a st alloc] full_hash_state [of a st alloc stack header nonce]
  by (simp add: pp_inv_def)

lemma pp_inv_hash:
  assumes "pp_inv p host (a, st)"
  shows "pp_inv p host (snd (progpow_hash alloc stack header nonce a st))"
    "pp_inv p host (snd (submit_mix alloc stack header nonce a st))"
  using pp_inv_full_hash [OF assms, of alloc stack header nonce]
  by (simp_all add: progpow_hash_def submit_mix_def split_beta split: option.splits)

lemma pp_inv_answers:
  assumes "pp_inv p host (a, st)"
  shows "pp_inv p host (snd (reference_answers alloc stack a st))"
proof -
  let ?body = "\<lambda>i (answers, a, st).
          let bytes = derived_header (pp_params a) i;
              header = map (\<lambda>w. be32dec (take 4 (drop (w * 4) bytes))) [0..<kHeaderWords];
              (digest, a, st) = progpow_hash alloc stack header (derived_nonces ! i) a st
          in (answers @ [\<lparr>ka_label = derived_labels ! i, ka_header = bytes,
                ka_nonce = derived_nonces ! i, ka_digest = bytes_of digest\<rparr>], a, st)"
  obtain out b t where r: "for_up kDerived ?body ([], a, st) = (out, b, t)"
    by (cases "for_up kDerived ?body ([], a, st)")
  have "pp_inv p host (snd (for_up kDerived ?body ([], a, st)))"
    by (rule for_up_invariant [where P = "\<lambda>_ s. pp_inv p host (snd s)"])
      (use assms pp_inv_hash in \<open>auto simp: split_beta Let_def\<close>)
  then have "pp_inv p host (derive_answers alloc stack a st)"
    unfolding derive_answers_def r by (auto simp: pp_inv_def progpow_ok_def)
  then show ?thesis using assms by (simp add: reference_answers_def split_beta)
qed

lemma valid_shared_loop:
  "valid_cache st \<Longrightarrow> valid_cache (snd (shared_loop e alloc offset n out st))"
proof (induction e alloc offset n out st rule: shared_loop.induct)
  case (1 e alloc offset n out st)
  show ?case
  proof (cases "n = 0 \<or> fst (dataset_item e (offset div of_nat kItemBytes) alloc st) = None")
    case True
    then show ?thesis
      using 1 valid_dataset_item [OF "1.prems"]
      by (subst shared_loop.simps) (auto simp: split_beta Let_def)
  next
    case False
    then obtain item where "fst (dataset_item e (offset div of_nat kItemBytes) alloc st) = Some item" by auto
    then show ?thesis
      using False "1.IH" [OF _ refl refl refl prod.collapse] valid_dataset_item [OF "1.prems"]
      by (subst shared_loop.simps) (simp add: split_beta Let_def)
  qed
qed

lemma pp_ok_spec_for:
  assumes "spec_for shaders declared d kind a = Some (spec, a')" "progpow_ok a"
  shows "progpow_ok a'" "pp_params a' = pp_params a" "pp_host_dag a' = pp_host_dag a"
    "pp_epochs a' = pp_epochs a" "pp_lines a' = pp_lines a"
proof -
  have "a' = a \<or> (\<exists>x y. a' = a\<lparr>pp_kernel_constants := (pp_kernel_constants a)
      [kKernelConstants - 2 := x, kKernelConstants - 1 := y]\<rparr>)"
    using assms(1) by (auto simp: spec_for_def Let_def split: option.splits if_splits)
  then show "progpow_ok a'" "pp_params a' = pp_params a" "pp_host_dag a' = pp_host_dag a"
    "pp_epochs a' = pp_epochs a" "pp_lines a' = pp_lines a"
    using assms(2) by (auto simp: progpow_ok_def progpow_numbers)
qed

lemma fold_fail_invariant:
  assumes "fold_fail f xs s = Some t" "P s" "\<And>x s s'. P s \<Longrightarrow> f x s = Some s' \<Longrightarrow> P s'"
  shows "P t"
  using assms(1,2) by (induction xs arbitrary: s) (auto split: option.splits dest: assms(3))

lemma pp_inv_offer:
  assumes "offer shaders declared d room kind s = Some s'" "pp_inv p host (snd s, st)"
  shows "pp_inv p host (snd s', st)"
proof -
  obtain out a where s: "s = (out, a)" by (cases s)
  obtain spec b where "spec_for shaders declared d kind a = Some (spec, b)" "snd s' = b"
    using assms(1) by (auto simp: offer_def s split: option.splits)
  then show ?thesis using pp_ok_spec_for [of shaders declared d kind a spec b] assms(2)
    by (simp add: pp_inv_def s)
qed

lemma pp_inv_kernels:
  assumes "kernels shaders declared d room a = Some (out, a')" "pp_inv p host (a, st)"
  shows "pp_inv p host (a', st)"
proof -
  have "pp_inv p host (snd (out, a'), st)"
    using assms(1) unfolding kernels_def
    by (rule fold_fail_invariant [where P = "\<lambda>s. pp_inv p host (snd s, st)"])
      (use assms(2) pp_inv_offer in auto)
  then show ?thesis by simp
qed

lemma pp_inv_step:
  assumes "pp_step s s'" "pp_inv p host s"
  shows "pp_inv p host s'"
  using assms
proof induction
  case (job a st header)
  then show ?case
    using progpow_ok_retarget [of a header] by (auto simp: pp_inv_def retarget_def Let_def)
next
  case (seed a st key offset bytes alloc)
  then show ?case by (simp add: pp_inv_def setup_seed_def valid_light_cache)
next
  case (table a st key offset n alloc)
  then show ?case by (simp add: pp_inv_def shared_state_def valid_shared_loop)
next
  case (other a st e alloc)
  then show ?case by (simp add: pp_inv_def dag.valid_request)
qed (simp_all add: pp_inv_hash pp_inv_answers pp_inv_kernels)

lemma pp_inv_reach: "pp_step\<^sup>*\<^sup>* s s' \<Longrightarrow> pp_inv p host s \<Longrightarrow> pp_inv p host s'"
  by (induction rule: rtranclp_induct) (auto intro: pp_inv_step)

lemma dag_items_256:
  assumes "unat e \<le> 2 ^ 14"
  shows "256 \<le> dag_items e"
proof -
  have "is_odd_prime 257" by (simp add: is_odd_prime_def odd_prime_from.simps)
  then have p: "prime_int 257" using is_odd_prime_iff [of 257] by simp
  have "257 \<le> calculate_full_dataset_num_items (int (unat e))"
    unfolding calculate_full_dataset_num_items_def Let_def
    by (rule find_largest_prime_spec(3) [OF _ p])
      (simp_all add: full_dataset_init_size_def full_dataset_growth_def)
  then have "256 \<le> int (unat (dag_items e))" using dag_items_exact(1) [OF assms] by linarith
  then have "256 \<le> unat (dag_items e)" by linarith
  then show ?thesis by (simp add: word_le_nat_alt)
qed

lemma the_hash_total:
  assumes "256 \<le> dag_items (e_full e)"
  shows "\<exists>h. the_hash p e (table_lines e) stack header nonce = Some h"
proof -
  have "64 \<le> unat (table_lines e)"
    using assms by (simp add: table_lines_def progpow_numbers unat_div_distrib word_le_nat_alt)
  then have nz: "table_lines e \<noteq> 0" by auto
  obtain m where "hash_rounds p (build_program p (period_of p (ucast (header ! 8)))) (l1_of e) (table_lines e)
      (\<lambda>i. Some (line_of e i))
      (init_mix p (seed_state p (header_words header) nonce ! 0)
         (seed_state p (header_words header) nonce ! 1) stack) = Some m"
    using hash_rounds_total [of "table_lines e" "\<lambda>i. Some (line_of e i)", OF nz] by blast
  then show ?thesis by (simp add: the_hash_def pp_hash_of_def nz Let_def)
qed

section \<open>Properties\<close>

text \<open>
  Claim C2. Whatever jobs, hashes, shares, startup checks, kernels and requests by other objects
  came before, the host's own hash and the mix it submits are those of the epoch the object is
  on now: the pure hash over that epoch's dataset and the head of it, never a line or a cache
  of an epoch it has left.
\<close>

theorem reference_hash_is_current:
  assumes "wf_params p" "length memory = kL1Words" "mix_shape stack"
    and reach: "pp_step\<^sup>*\<^sup>* (make_progpow p epoch memory, dag_cache_init) (a, st)"
    and small: "unat (e_full (pp_epochs a)) \<le> 2 ^ 14"
  shows "\<exists>h. the_hash p (pp_epochs a) (table_lines (pp_epochs a)) stack header nonce = Some h \<and>
     fst (progpow_hash True stack header nonce a st) = hash_out (h_digest h) \<and>
     fst (submit_mix True stack header nonce a st) =
       Some (concat (map (\<lambda>i. le32enc (h_mix h ! i)) [0..<8]))"
proof -
  have "pp_inv p False (make_progpow p epoch memory, dag_cache_init)"
    using progpow_ok_new [OF assms(1,2)]
    by (simp add: pp_inv_def make_progpow_def) (simp add: ProgPow_def Let_def)
  then have inv: "pp_inv p False (a, st)" by (rule pp_inv_reach [OF reach])
  note items = dag_items_256 [OF small]
  obtain h where h: "the_hash p (pp_epochs a) (table_lines (pp_epochs a)) stack header nonce = Some h"
    using the_hash_total [OF items] by blast
  have "fst (full_hash True stack header nonce a st) = Some h"
    using full_hash_exact [OF _ _ _ items assms(3), of st header nonce] inv h
    by (simp add: pp_inv_def)
  then show ?thesis using h by (simp add: progpow_hash_def submit_mix_def split_beta)
qed

theorem reference_hash_is_current_witness:
  "\<exists>h. the_hash kKawpow (epochs_for kKawpow 5) (table_lines (epochs_for kKawpow 5))
      (replicate 16 (replicate 32 0)) (replicate 9 7) 77 = Some h \<and>
     fst (progpow_hash True (replicate 16 (replicate 32 0)) (replicate 9 7) 77
       (make_progpow kKawpow 5 (replicate kL1Words 0)) dag_cache_init) = hash_out (h_digest h)"
proof -
  have e: "pp_epochs (make_progpow kKawpow 5 (replicate kL1Words 0)) = epochs_for kKawpow 5"
    by (simp add: make_progpow_def ProgPow_def Let_def)
  have "unat (e_full (epochs_for kKawpow 5)) \<le> 2 ^ 14"
    by (simp add: epochs_for_def kKawpow_def Let_def)
  then show ?thesis
    using reference_hash_is_current [of kKawpow "replicate kL1Words 0" "replicate 16 (replicate 32 0)" 5
        "make_progpow kKawpow 5 (replicate kL1Words 0)" dag_cache_init "replicate 9 7" 77]
    by (auto simp: e mix_shape_def kLanes_def kMaxRegs_def)
qed

text \<open>
  A job of another epoch, and only that, makes the object stale: it then holds the
  epochs and the table length a new object for that epoch would, with nothing kept of the head
  of the old table. A host-built table never moves.
\<close>

theorem retarget_like_new:
  "retarget header a = (b, a') \<Longrightarrow> progpow_ok a \<Longrightarrow>
   (b \<longleftrightarrow> \<not> pp_host_dag a \<and>
      e_seed (epochs_of (pp_params a) (ucast (header ! 8))) \<noteq> e_seed (pp_epochs a)) \<and>
   (\<not> b \<longrightarrow> a' = a) \<and>
   (b \<longrightarrow> (let new = make_progpow (pp_params a) (e_seed (epochs_of (pp_params a) (ucast (header ! 8)))) (pp_l1 a)
          in pp_epochs a' = pp_epochs new \<and> pp_lines a' = pp_lines new \<and>
             pp_l1_ready a' = pp_l1_ready new \<and> state_key a' = state_key new))"
  by (auto simp: retarget_def Let_def make_progpow_def ProgPow_def epochs_of_def state_key_def
      split: if_splits)

theorem retarget_like_new_witness:
  "fst (retarget (replicate 8 0 @ [7500]) (make_progpow kKawpow 0 (replicate kL1Words 0)))"
  using retarget_like_new [of "replicate 8 0 @ [7500]" "make_progpow kKawpow 0 (replicate kL1Words 0)",
      OF prod.collapse [symmetric]] progpow_ok_new(1) [OF wf_kKawpow, of "replicate kL1Words 0" 0]
  by (simp add: make_progpow_def nth_append epochs_of_def) (simp add: ProgPow_def Let_def)

section \<open>Lemmas: byte order\<close>

lemma header_words_nth:
  assumes "i < 8"
  shows "header_words header ! i = le32dec (be32enc (header ! i))"
proof -
  have "take 4 (drop (i * 4) (concat (map (\<lambda>i. be32enc (header ! i)) [0..<8]))) =
      map (\<lambda>i. be32enc (header ! i)) [0..<8] ! i"
    by (rule concat_block) (use assms in auto)
  then show ?thesis using assms by (simp add: header_words_def Let_def)
qed

lemma bswap_involution: "le32dec (be32enc (le32dec (be32enc w))) = w"
proof -
  have r: "le32dec (be32enc x) = be32dec (le32enc x)" for x
    by (simp add: le32dec_def be32enc_def be32dec_def le32enc_def)
  have "length (be32enc w) = 4" by simp
  then have "le32enc (le32dec (be32enc w)) = be32enc w" by simp
  then have "be32dec (le32enc (le32dec (be32enc w))) = w" by simp
  then show ?thesis by (simp add: r)
qed

text \<open>
  The header's words reach the hash with their bytes reversed within each word and
  nothing else: swapping twice gives the eight words back.
\<close>

theorem header_words_involution:
  assumes "length header = 8"
  shows "header_words (header_words header) = header"
proof (rule nth_equalityI)
  show l: "length (header_words (header_words header)) = length header"
    by (simp add: header_words_def assms)
  show "header_words (header_words header) ! i = header ! i"
    if "i < length (header_words (header_words header))" for i
    using that by (simp add: l assms header_words_nth bswap_involution)
qed

theorem header_words_involution_witness:
  "header_words (header_words [1, 2, 3, 4, 5, 6, 7, 8]) = [1, 2, 3, 4, 5, 6, 7, 8]"
  by (rule header_words_involution) simp

text \<open>The number a byte string is, first byte most significant.\<close>

definition bytes_value :: "u8 list \<Rightarrow> nat" where
  "bytes_value bs = foldl (\<lambda>n b. n * 256 + unat b) 0 bs"

lemma bytes_value_append: "bytes_value (xs @ ys) = bytes_value xs * 256 ^ length ys + bytes_value ys"
proof (induction ys rule: rev_induct)
  case (snoc y ys)
  then show ?case unfolding bytes_value_def by (simp add: algebra_simps)
qed (simp add: bytes_value_def)

lemma unat_join4:
  "unat (join4 a b c d) = unat a + 256 * unat b + 65536 * unat c + 16777216 * unat d"
proof -
  have 8: "unat x < 256" for x :: u8 using unsigned_less [of x, where ?'a = nat] by simp
  have u: "unat (push_bit n (ucast x :: u32)) = 2 ^ n * unat x" if "n \<le> 24" for n and x :: u8
  proof -
    have "2 ^ n * unat x \<le> 2 ^ 24 * 255"
      using that 8 [of x] by (intro mult_mono power_increasing) auto
    then have b: "2 ^ n * unat x < 2 ^ 32" by simp
    have "unat (push_bit n (ucast x :: u32)) = take_bit 32 (push_bit n (unat (ucast x :: u32)))"
      by (simp add: unsigned_push_bit_eq)
    also have "unat (ucast x :: u32) = unat x"
      using 8 [of x] by (simp add: unsigned_ucast_eq take_bit_nat_eq_self)
    finally show ?thesis
      using b by (simp add: push_bit_eq_mult take_bit_nat_eq_self mult.commute)
  qed
  have "unat (ucast a :: u32) = unat a" using 8 [of a] by (simp add: unsigned_ucast_eq take_bit_nat_eq_self)
  then show ?thesis
    using 8 [of a] 8 [of b] 8 [of c] 8 [of d] u [of 8 b] u [of 16 c] u [of 24 d]
    by (simp add: join4_def unat_add_exact)
qed

lemma be32dec_value:
  assumes "length p = 4"
  shows "unat (be32dec p) = bytes_value p"
  using assms
proof (cases rule: list4_cases)
  case (1 a b c d)
  have "be32dec p = join4 d c b a" by (simp add: be32dec_def join4_def 1)
  then show ?thesis by (simp add: unat_join4 1 bytes_value_def)
qed

lemma words_value_Cons: "words_value (Suc n) (w # ws) = unat w + 2 ^ 32 * words_value n ws"
proof -
  have "words_value (Suc n) (w # ws) = unat w + (\<Sum>i<n. unat (ws ! i) * 2 ^ (32 * Suc i))"
    unfolding words_value_def by (subst sum.lessThan_Suc_shift) simp
  also have "(\<Sum>i<n. unat (ws ! i) * 2 ^ (32 * Suc i)) = 2 ^ 32 * words_value n ws"
    by (simp add: words_value_def sum_distrib_left power_add mult.left_commute)
  finally show ?thesis .
qed

lemma words_value_rev:
  "words_value (length ds) (map (\<lambda>w. be32dec (le32enc w)) (rev ds)) = bytes_value (bytes_of ds)"
proof (induction ds rule: rev_induct)
  case (snoc d ds)
  have "bytes_of (ds @ [d]) = bytes_of ds @ le32enc d" by (simp add: bytes_of_def)
  moreover have "unat (be32dec (le32enc d)) = bytes_value (le32enc d)" by (rule be32dec_value) simp
  ultimately show ?case using snoc by (simp add: words_value_Cons bytes_value_append)
qed (simp add: words_value_def bytes_of_def bytes_value_def)

lemma hash_out_value:
  assumes "length digest = 8"
  shows "words_value 8 (hash_out digest) = bytes_value (bytes_of digest)"
proof -
  have "hash_out digest = map (\<lambda>w. be32dec (le32enc w)) (rev digest)"
    by (rule nth_equalityI) (simp_all add: hash_out_def assms rev_nth)
  then show ?thesis using words_value_rev [of digest] by (simp add: assms)
qed

text \<open>
  What the share comparison sees of a digest is the number KawPoW means by it: the
  32 bytes of the digest read as one big-endian number, compared with the target.
\<close>

theorem digest_compared_as_number:
  assumes "length digest = 8"
  shows "fulltest (hash_out digest) target \<longleftrightarrow> bytes_value (bytes_of digest) \<le> words_value 8 target"
proof -
  have "fulltest (hash_out digest) target \<longleftrightarrow> words_value 8 (hash_out digest) \<le> words_value 8 target"
    unfolding fulltest_def by (rule fulltest_from_iff)
  then show ?thesis by (simp add: hash_out_value assms)
qed

theorem digest_compared_as_number_witness:
  "fulltest (hash_out (replicate 8 0)) (replicate 8 0)"
  using digest_compared_as_number [of "replicate 8 0" "replicate 8 0"]
  by (simp add: bytes_of_def le32enc_def bytes_value_def numeral_eq_Suc)

lemma bytes_of_word:
  assumes "k < length ws"
  shows "le32dec (take 4 (drop (k * 4) (bytes_of ws))) = ws ! k"
proof -
  have "take 4 (drop (k * 4) (bytes_of ws)) = map le32enc ws ! k"
    unfolding bytes_of_def by (rule concat_block) (use assms in auto)
  then show ?thesis using assms by simp
qed

lemma rejoin64: "ucast (ucast w :: u32) OR push_bit 32 (ucast (ucast (drop_bit 32 w) :: u32)) = w"
  for w :: u64
  by (rule bit_word_eqI) (auto simp: bit_simps)

text \<open>The \<open>k\<close>th 32-bit word of a block of push constants, as a little-endian device reads it.\<close>

definition push_word :: "u8 list \<Rightarrow> nat \<Rightarrow> u32" where
  "push_word out k = le32dec (take 4 (drop (k * 4) out))"

text \<open>
  The push block is 92 bytes whose words are, in the shader's order, the swapped
  header, the target, all 64 bits of the nonce, the count, the capacity, all 64 bits of the
  period and the table's length; without a header, a target or the room nothing is written.
\<close>

theorem prepare_layout:
  assumes "dis_header dis = Some header" "dis_target dis = Some target"
  shows "(capacity < 92 \<longrightarrow> prepare dis capacity a = []) \<and>
   (92 \<le> capacity \<longrightarrow>
     (let out = prepare dis capacity a in
        length out = 92 \<and>
        (\<forall>k < 8. push_word out k = header_words header ! k) \<and>
        (\<forall>k < 8. push_word out (8 + k) = target ! k) \<and>
        ucast (push_word out 16) OR push_bit 32 (ucast (push_word out 17)) = dis_nonce_start dis \<and>
        push_word out 18 = dis_count dis \<and> push_word out 19 = dis_capacity dis \<and>
        ucast (push_word out 20) OR push_bit 32 (ucast (push_word out 21))
          = period_of (pp_params a) (ucast (header ! 8)) \<and>
        push_word out 22 = ucast (pp_lines a)))"
proof (cases "capacity < 92")
  case False
  define ws where "ws = header_words header @ map (\<lambda>i. target ! i) [0..<8] @
     [ucast (dis_nonce_start dis), ucast (drop_bit 32 (dis_nonce_start dis)), dis_count dis,
      dis_capacity dis, ucast (period_of (pp_params a) (ucast (header ! 8))),
      ucast (drop_bit 32 (period_of (pp_params a) (ucast (header ! 8)))), ucast (pp_lines a)]"
  have h: "length (header_words header) = 8" by (simp add: header_words_def)
  have l: "length ws = 23" by (simp add: ws_def h)
  have p: "prepare dis capacity a = bytes_of ws"
    using False assms by (simp add: prepare_def push_words_def ws_def Let_def)
  have w: "push_word (bytes_of ws) k = ws ! k" if "k < 23" for k
    using bytes_of_word [of k ws] that l by (simp add: push_word_def)
  have "length (bytes_of ws) = 92" by (simp add: length_bytes_of l)
  moreover have "\<forall>k < 8. push_word (bytes_of ws) k = header_words header ! k"
    by (simp add: w) (simp add: ws_def nth_append h)
  moreover have "\<forall>k < 8. push_word (bytes_of ws) (8 + k) = target ! k"
    by (simp add: w) (simp add: ws_def nth_append h)
  moreover have "ws ! 16 = ucast (dis_nonce_start dis)" "ws ! 17 = ucast (drop_bit 32 (dis_nonce_start dis))"
    "ws ! 18 = dis_count dis" "ws ! 19 = dis_capacity dis"
    "ws ! 20 = ucast (period_of (pp_params a) (ucast (header ! 8)))"
    "ws ! 21 = ucast (drop_bit 32 (period_of (pp_params a) (ucast (header ! 8))))"
    "ws ! 22 = ucast (pp_lines a)"
    by (simp_all add: ws_def nth_append h)
  ultimately show ?thesis
    using False by (simp add: p w rejoin64 Let_def)
qed (use assms in \<open>simp add: prepare_def\<close>)

theorem prepare_layout_witness:
  "push_word (prepare \<lparr>dis_header = Some (replicate 9 7), dis_target = Some (replicate 8 1),
     dis_nonce_start = 5, dis_count = 1000, dis_capacity = 32\<rparr> 128
     (make_progpow kKawpow 0 (replicate kL1Words 0))) 18 = 1000"
  using prepare_layout [of "\<lparr>dis_header = Some (replicate 9 7), dis_target = Some (replicate 8 1),
     dis_nonce_start = 5, dis_count = 1000, dis_capacity = 32\<rparr>" "replicate 9 7" "replicate 8 1" 128
     "make_progpow kKawpow 0 (replicate kL1Words 0)"]
  by (simp add: Let_def)

section \<open>Workgroup memory\<close>

definition workgroup_width :: "DeviceInfo \<Rightarrow> nat" where
  "workgroup_width d =
     (if d_max_invocations d \<noteq> 0 then min (unat (d_max_invocations d)) (unat (d_max_workgroup_size d))
      else unat (d_max_workgroup_size d))"

lemma workgroup_bytes:
  "unat (widest_workgroup d) = workgroup_width d"
  "workgroup_width d < 4294967296"
  "unat (exchange_bytes d) = workgroup_width d * 4"
  "unat (seed_slot_bytes d) = (workgroup_width d div 16 * 8 + 1) * 4"
proof -
  show w: "unat (widest_workgroup d) = workgroup_width d"
    by (auto simp: widest_workgroup_def workgroup_width_def Let_def word_less_nat_alt)
  have "unat (d_max_workgroup_size d) < 4294967296" by (rule unat_u32_less)
  then show b: "workgroup_width d < 4294967296" by (simp add: workgroup_width_def min_def)
  show "unat (exchange_bytes d) = workgroup_width d * 4"
    unfolding exchange_bytes_def using b w by (subst unat_mult_exact) simp_all
  have d: "unat (widest_workgroup d div 16) = workgroup_width d div 16"
    by (simp add: unat_div_distrib w)
  have q: "workgroup_width d div 16 < 268435456" using b by (simp add: div_less_iff_less_mult)
  then have m: "unat (widest_workgroup d div 16 * 8) = workgroup_width d div 16 * 8"
    by (subst unat_mult_exact) (simp_all add: d)
  then have "unat (widest_workgroup d div 16 * 8 + 1) = workgroup_width d div 16 * 8 + 1"
    using q by (subst unat_add_exact) simp_all
  then show "unat (seed_slot_bytes d) = (workgroup_width d div 16 * 8 + 1) * 4"
    unfolding seed_slot_bytes_def kLanes_def of_nat_numeral
    using q by (subst unat_mult_exact) simp_all
qed

text \<open>
  What the specialized kernels put in workgroup memory fits a device that is offered
  it: at the widest workgroup the device allows, the lane exchange, the copy of the table's head
  and the parked seals never add up to more than the device has.
\<close>

theorem workgroup_memory_fits:
  assumes "l1_shared_words d \<noteq> 0 \<or> seed_pre_pass d \<noteq> 0"
  shows "workgroup_width d * 4 +
     (if l1_shared_words d \<noteq> 0 then (unat (l1_shared_words d) + 1) * 4 else 0) +
     (if seed_pre_pass d \<noteq> 0 then (workgroup_width d div 16 * 8 + 1) * 4 else 0)
       \<le> unat (d_max_shared_memory d)"
proof -
  note w = workgroup_bytes [of d]
  have q: "workgroup_width d div 16 \<le> 268435456" using w(2) by simp
  have s: "unat (ucast (d_max_shared_memory d) :: u64) = unat (d_max_shared_memory d)" by simp
  have e: "unat (16388 + exchange_bytes d) = 16388 + workgroup_width d * 4"
    using w(2,3) by (subst unat_add_exact) simp_all
  have t: "unat (exchange_bytes d + 16388) = workgroup_width d * 4 + 16388"
    using e by (simp add: add.commute)
  have l: "l1_shared_words d = (if unat (d_max_shared_memory d) < 16388 + workgroup_width d * 4 then 0 else 4096)"
    by (simp add: l1_shared_words_def progpow_numbers word_less_nat_alt e Let_def)
  have p1: "unat (exchange_bytes d + seed_slot_bytes d) =
      workgroup_width d * 4 + (workgroup_width d div 16 * 8 + 1) * 4"
    using w q by (subst unat_add_exact) simp_all
  have p2: "unat (exchange_bytes d + 16388 + seed_slot_bytes d) =
      workgroup_width d * 4 + 16388 + (workgroup_width d div 16 * 8 + 1) * 4"
    using w q t by (subst unat_add_exact) simp_all
  have p: "seed_pre_pass d = (if workgroup_width d * 4 + (if l1_shared_words d \<noteq> 0 then 16388 else 0) +
      (workgroup_width d div 16 * 8 + 1) * 4 \<le> unat (d_max_shared_memory d) then 1 else 0)"
    using p1 p2 by (simp add: seed_pre_pass_def progpow_numbers word_le_nat_alt Let_def)
  show ?thesis
    using assms by (simp add: l p split: if_splits)
qed

theorem workgroup_memory_fits_witness: "1024 * 4 + 4097 * 4 + 513 * 4 \<le> (49152 :: nat) \<and>
   workgroup_width desktop_device * 4 \<le> 49152"
  using workgroup_memory_fits [of desktop_device]
  by (simp add: desktop_device_def l1_shared_words_def progpow_numbers exchange_bytes_def
      widest_workgroup_def word_less_nat_alt)

section \<open>The table, byte by byte\<close>

definition table_byte :: "epochs \<Rightarrow> nat \<Rightarrow> u8" where
  "table_byte e k = bytes_of (item_of e (of_nat (k div 64))) ! (k mod 64)"

lemma item_bytes: "concat (map (\<lambda>i. le32enc (item_of e index ! i)) [0..<16]) = bytes_of (item_of e index)"
proof -
  have "map (\<lambda>i. le32enc (item_of e index ! i)) [0..<16] = map le32enc (item_of e index)"
    by (rule nth_equalityI) simp_all
  then show ?thesis by (simp add: bytes_of_def)
qed

lemma table_slice:
  assumes "k mod 64 + span \<le> 64"
  shows "take span (drop (k mod 64) (bytes_of (item_of e (of_nat (k div 64))))) =
    map (\<lambda>j. table_byte e (k + j)) [0..<span]"
proof (rule nth_equalityI)
  have l: "length (bytes_of (item_of e i)) = 64" for i by (simp add: length_bytes_of)
  show "length (take span (drop (k mod 64) (bytes_of (item_of e (of_nat (k div 64)))))) =
      length (map (\<lambda>j. table_byte e (k + j)) [0..<span])"
    using assms by (simp add: l)
  fix j assume "j < length (take span (drop (k mod 64) (bytes_of (item_of e (of_nat (k div 64))))))"
  then have j: "j < span" by simp
  have "k mod 64 + j < 64" using j assms by linarith
  moreover have "(64 * q + r) div 64 = q" "(64 * q + r) mod 64 = r" if "r < 64" for q r :: nat
    using that by simp_all
  moreover have "k + j = 64 * (k div 64) + (k mod 64 + j)" by simp
  ultimately have "(k + j) div 64 = k div 64" "(k + j) mod 64 = k mod 64 + j" by metis+
  then show "take span (drop (k mod 64) (bytes_of (item_of e (of_nat (k div 64))))) ! j =
      map (\<lambda>j. table_byte e (k + j)) [0..<span] ! j"
    using j assms by (simp add: table_byte_def l)
qed

lemma shared_loop_step:
  assumes "n \<noteq> 0" "dataset_item e (offset div of_nat kItemBytes) alloc st = (Some item, st')"
    "at = unat (offset mod of_nat kItemBytes)" "span = (if n < 64 - at then n else 64 - at)"
  shows "shared_loop e alloc offset n out st =
    shared_loop e alloc (offset + of_nat span) (n - span)
      (out @ take span (drop at (concat (map (\<lambda>i. le32enc (item ! i)) [0..<16])))) st'"
  unfolding assms(3,4)
  by (subst shared_loop.simps) (simp only: assms(1) assms(2) [unfolded progpow_numbers] if_False Let_def prod.case option.case progpow_numbers)

lemma shared_loop_exact:
  assumes "valid_cache st" "unat offset + n \<le> 64 * unat (dag_items (e_full e))"
    "unat (dag_items (e_full e)) < 2 ^ 58"
  shows "fst (shared_loop e True offset n out st) =
     Some (out @ map (\<lambda>j. table_byte e (unat offset + j)) [0..<n])"
  using assms(1,2)
proof (induction n arbitrary: offset out st rule: less_induct)
  case (less n)
  let ?o = "unat offset"
  show ?case
  proof (cases "n = 0")
    case True
    then show ?thesis by (subst shared_loop.simps) simp
  next
    case False
    define span where "span = (if n < 64 - ?o mod 64 then n else 64 - ?o mod 64)"
    have m: "?o mod 64 < 64" by simp
    have span: "0 < span" "span \<le> n" "?o mod 64 + span \<le> 64"
      using False m by (auto simp: span_def)
    have at: "unat (offset mod of_nat kItemBytes) = ?o mod 64"
      by (simp add: kItemBytes_def unat_mod_distrib)
    have ix: "unat (offset div of_nat kItemBytes) = ?o div 64"
      by (simp add: kItemBytes_def unat_div_distrib)
    have "?o < 64 * unat (dag_items (e_full e))" using less.prems(2) False by linarith
    then have "?o div 64 < unat (dag_items (e_full e))" by (simp add: div_less_iff_less_mult mult.commute)
    then have "offset div of_nat kItemBytes < dag_items (e_full e)" by (simp add: word_less_nat_alt ix)
    moreover have ixw: "offset div of_nat kItemBytes = of_nat (?o div 64)"
      unfolding ix [symmetric] by simp
    ultimately have d: "fst (dataset_item e (offset div of_nat kItemBytes) True st) =
        Some (item_of e (of_nat (?o div 64)))"
      using dataset_item_served [OF less.prems(1)] by simp
    have "?o + span < 2 ^ 64"
      using span less.prems(2) assms(3) by simp
    then have nx: "unat (offset + of_nat span) = ?o + span"
      using span by (subst unat_add_exact) simp_all
    let ?st = "snd (dataset_item e (offset div of_nat kItemBytes) True st)"
    have de: "dataset_item e (offset div of_nat kItemBytes) True st = (Some (item_of e (of_nat (?o div 64))), ?st)"
      using d by (simp add: prod_eq_iff)
    have "take span (drop (?o mod 64) (concat (map (\<lambda>i. le32enc (item_of e (of_nat (?o div 64)) ! i)) [0..<16])))
        = map (\<lambda>j. table_byte e (?o + j)) [0..<span]"
      unfolding item_bytes by (rule table_slice [OF span(3)])
    then have "fst (shared_loop e True offset n out st) =
      fst (shared_loop e True (offset + of_nat span) (n - span)
        (out @ map (\<lambda>j. table_byte e (?o + j)) [0..<span]) ?st)"
      using shared_loop_step [OF False de at [symmetric] span_def, of out] by simp
    also have "\<dots> = Some ((out @ map (\<lambda>j. table_byte e (?o + j)) [0..<span]) @
        map (\<lambda>j. table_byte e (?o + span + j)) [0..<n - span])"
      using span less.prems(2) valid_dataset_item [OF less.prems(1)]
      by (subst less.IH) (simp_all add: nx)
    finally have "fst (shared_loop e True offset n out st) =
        Some ((out @ map (\<lambda>j. table_byte e (?o + j)) [0..<span]) @
          map (\<lambda>j. table_byte e (?o + span + j)) [0..<n - span])" .
    moreover have "map (\<lambda>j. table_byte e (?o + j)) [0..<span] @
        map (\<lambda>j. table_byte e (?o + span + j)) [0..<n - span] = map (\<lambda>j. table_byte e (?o + j)) [0..<n]"
      using span(2) by (intro nth_equalityI) (auto simp: nth_append)
    ultimately show ?thesis by simp
  qed
qed

text \<open>
  A host-built table is the same bytes however the caller cuts it up: any range
  inside the dataset, wherever it starts and ends within an item, is answered with exactly the
  bytes of the table at those places.
\<close>

theorem shared_state_any_range:
  assumes "valid_cache st" "pp_host_dag a" "unat (e_full (epochs_of_key a key)) \<le> 2 ^ 14"
    and "unat offset + n \<le> unat (dag_bytes (e_full (epochs_of_key a key)))"
  shows "fst (shared_state key offset n True a st) =
    Some (map (\<lambda>j. table_byte (epochs_of_key a key) (unat offset + j)) [0..<n])"
proof -
  let ?e = "epochs_of_key a key" and ?n = "calculate_full_dataset_num_items (int (unat (e_full (epochs_of_key a key))))"
  note d = dag_items_exact [OF assms(3)]
  have "int (unat (dag_bytes (e_full ?e))) = 64 * int (unat (dag_items (e_full ?e)))"
    using d(1,3) by linarith
  then have b: "unat (dag_bytes (e_full ?e)) = 64 * unat (dag_items (e_full ?e))" by linarith
  have "?n < 2147483648" using d(2) by simp
  then have "int (unat (dag_items (e_full ?e))) < 4294967296" using d(1) by linarith
  then have "unat (dag_items (e_full ?e)) < 4294967296" by linarith
  then have "unat (dag_items (e_full ?e)) < 2 ^ 58" by simp
  then show ?thesis
    using shared_loop_exact [OF assms(1), of offset n ?e "[]"] assms(2,4)
    by (simp add: shared_state_def b)
qed

lemma dag_bytes_128:
  assumes "unat e \<le> 2 ^ 14"
  shows "128 \<le> unat (dag_bytes e)"
proof -
  have "2 \<le> calculate_full_dataset_num_items (int (unat e))" by (rule num_items_bounds) simp
  then have "128 \<le> int (unat (dag_bytes e))" using dag_items_exact(3) [OF assms] by linarith
  then show ?thesis by linarith
qed

theorem shared_state_any_range_witness:
  "fst (shared_state 0 60 10 True (make_progpow_host_dag kKawpow 0 64 []) dag_cache_init) =
     Some (map (\<lambda>j. table_byte (epochs_for kKawpow 0) (60 + j)) [0..<10])"
proof -
  have "unat (e_full (epochs_for kKawpow 0)) \<le> 2 ^ 14"
    by (simp add: epochs_for_def kKawpow_def Let_def)
  then show ?thesis
    using shared_state_any_range [of dag_cache_init "make_progpow_host_dag kKawpow 0 64 []" 0 60 10]
      dag_bytes_128 [of "e_full (epochs_for kKawpow 0)"]
    by (simp add: make_progpow_host_dag_def ProgPow_def epochs_of_key_def Let_def)
qed

section \<open>Lemmas: the chunk size of a host-built table\<close>

lemma chunk_loop_spec:
  assumes "unat chunk = 2 ^ k" "unat n < 2 ^ 62" "k \<le> 62"
  shows "\<exists>c j. chunk_loop n chunk = Some c \<and> unat c = 2 ^ j \<and> k \<le> j \<and> j \<le> 62 \<and>
    (unat chunk \<le> unat n \<longrightarrow> unat c \<le> unat n) \<and> unat n < 2 * unat c"
  using assms
proof (induction "62 - k" arbitrary: k chunk)
  case (0 k chunk)
  then have k: "unat chunk = 2 ^ 62" by simp
  then have "unat (chunk * 2) = 2 ^ 63" by (subst unat_mult_exact) simp_all
  then have "\<not> chunk * 2 \<le> n" using 0 by (simp add: word_le_nat_alt)
  then have "chunk_loop n chunk = Some chunk" by (subst chunk_loop.simps) simp
  moreover have "k = 62" using 0 by simp
  ultimately show ?case using 0 k by (intro exI [of _ chunk] exI [of _ 62]) auto
next
  case (Suc d k chunk)
  then have k: "k < 62" by simp
  have p: "(2 :: nat) ^ k * 2 \<le> 2 ^ 62" using power_increasing [of "Suc k" 62 "2 :: nat"] k by simp
  then have u: "unat (chunk * 2) = 2 ^ Suc k"
    using Suc.prems(1) by (subst unat_mult_exact) simp_all
  show ?case
  proof (cases "chunk * 2 \<le> n")
    case True
    then have eq: "chunk_loop n chunk = chunk_loop n (chunk * 2)" by (subst chunk_loop.simps) simp
    have le: "unat (chunk * 2) \<le> unat n" using True by (simp add: word_le_nat_alt)
    have "d = 62 - Suc k" "Suc k \<le> 62" using Suc.hyps(2) k by simp_all
    from Suc.hyps(1) [OF this(1) u Suc.prems(2) this(2)] obtain c j where
      "chunk_loop n (chunk * 2) = Some c" "unat c = 2 ^ j" "Suc k \<le> j" "j \<le> 62"
      "unat (chunk * 2) \<le> unat n \<longrightarrow> unat c \<le> unat n" "unat n < 2 * unat c"
      by blast
    then show ?thesis unfolding eq using le by (intro exI [of _ c] exI [of _ j]) simp
  next
    case False
    then have "chunk_loop n chunk = Some chunk" by (subst chunk_loop.simps) simp
    moreover have "unat n < 2 * unat chunk"
      using False u Suc.prems(1) by (simp add: word_le_nat_alt not_le)
    ultimately show ?thesis using Suc.prems k by auto
  qed
qed

lemma chunk_floor_returns:
  assumes "unat n < 2 ^ 62"
  shows "\<exists>c j. chunk_floor n = Some c \<and> unat c = 2 ^ j \<and> 8 \<le> j \<and>
    (256 \<le> unat n \<longrightarrow> unat c \<le> unat n) \<and> unat n < 2 * unat c"
  using chunk_loop_spec [of "of_nat kLineWords * 4" 8 n] assms
  by (auto simp: chunk_floor_def progpow_numbers)

text \<open>
  The chunk size of a host-built table is found for every table: the largest power
  of two not above a quarter of it, and never less than a line.
\<close>

theorem chunk_floor_largest:
  assumes "unat n < 2 ^ 62"
  shows "\<exists>c j. chunk_floor n = Some c \<and> unat c = 2 ^ j \<and> 8 \<le> j \<and>
    (256 \<le> unat n \<longrightarrow> unat c \<le> unat n) \<and> unat n < 2 * unat c"
  using assms by (rule chunk_floor_returns)

theorem chunk_floor_largest_witness:
  "\<exists>c. chunk_floor 4096 = Some c \<and> unat c \<le> 4096 \<and> 4096 < 2 * unat c"
  using chunk_floor_largest [of 4096] by auto

section \<open>Lemmas: what a device is offered\<close>

lemma spec_table_returns: "\<exists>spec. spec_table declared kind a = Some spec"
proof -
  have "unat (shared div 4 :: u64) < 2 ^ 62" for shared
    by (simp add: unat_div_distrib div_less_iff_less_mult)
  then obtain c where "chunk_floor (pp_lines a * of_nat kLineWords * 4 div 4) = Some c"
    using chunk_floor_returns by blast
  then show ?thesis by (simp add: spec_table_def Let_def)
qed

lemma spec_table_fields:
  assumes "spec_table declared kind a = Some spec"
  shows "k_lanes spec = 16" "k_shared_bytes spec = pp_lines a * 256"
    "k_full_subgroups spec \<longleftrightarrow> kind = kSpecializedSubgroup" "k_spirv spec = None"
    "k_setup spec = setup_pass_default"
  using assms
  by (auto simp: spec_table_def Let_def progpow_numbers kernel_spec_default_def mult.assoc
      split: option.splits if_splits)

definition spec_shape :: "DeviceInfo \<Rightarrow> progpow \<Rightarrow> KernelSpec \<Rightarrow> bool" where
  "spec_shape d a spec \<longleftrightarrow> k_spirv spec \<noteq> None \<and> k_lanes spec = 16 \<and>
     k_shared_bytes spec = pp_lines a * 256 \<and>
     k_constants spec = fork_constants (pp_params a) @ [l1_shared_words d, seed_pre_pass d] \<and>
     (k_full_subgroups spec \<longrightarrow> can_shuffle_lanes d)"

lemma update_last_two:
  assumes "length c = Suc (Suc n)"
  shows "c[n := x, Suc n := y] = take n c @ [x, y]"
proof -
  obtain a b where "c = take n c @ [a, b]"
  proof
    show "c = take n c @ [c ! n, c ! Suc n]"
      using id_take_nth_drop [of n c] Cons_nth_drop_Suc [of "Suc n" c] assms by simp
  qed
  moreover have "length (take n c) = n" using assms by simp
  moreover have "(ys @ [a, b])[n := x, Suc n := y] = ys @ [x, y]" if "length ys = n" for ys
    using that by (auto simp: list_update_append)
  ultimately show ?thesis by metis
qed

lemma kernel_constants_device:
  assumes "progpow_ok a"
  shows "(pp_kernel_constants a)[kKernelConstants - 2 := x, kKernelConstants - 1 := y] =
    fork_constants (pp_params a) @ [x, y]"
proof -
  let ?c = "pp_kernel_constants a"
  have l: "length ?c = 30" and t: "take 28 ?c = fork_constants (pp_params a)"
    using assms by (simp_all add: progpow_ok_def progpow_numbers)
  have "?c[28 := x, 29 := y] = take 28 ?c @ [x, y]"
    using update_last_two [of ?c 28] l by simp
  then show ?thesis by (simp add: progpow_numbers t)
qed

lemma option_caseE:
  assumes "(case x of None \<Rightarrow> a | Some y \<Rightarrow> f y) = Some z"
  obtains "x = None" "a = Some z" | y where "x = Some y" "f y = Some z"
  using assms by (cases x) auto

lemma spec_for_shape:
  assumes "spec_for shaders declared d kind a = Some (spec, a')" "progpow_ok a"
    "k_spirv spec \<noteq> None" "kind = kSpecializedSubgroup \<longrightarrow> can_shuffle_lanes d"
  shows "spec_shape d a spec"
proof -
  obtain base where b: "spec_table declared kind a = Some base"
    using assms(1) by (auto simp: spec_for_def split: option.splits)
  note base = spec_table_fields [OF b]
  have "k_lanes spec = k_lanes base \<and> k_shared_bytes spec = k_shared_bytes base \<and>
      k_full_subgroups spec = k_full_subgroups base \<and>
      k_constants spec = fork_constants (pp_params a) @ [l1_shared_words d, seed_pre_pass d]"
  proof (cases "pp_host_dag a")
    case True
    show ?thesis
      using assms(1,3) base(4)
      unfolding spec_for_def b option.case kernel_constants_device [OF assms(2)] Let_def
      by (elim option_caseE) (auto simp: True)
  next
    case False
    have "\<not> pp_host_dag (a\<lparr>pp_kernel_constants := c\<rparr>)" for c using False by simp
    then show ?thesis
      using assms(1,3) base(4)
      unfolding spec_for_def b option.case kernel_constants_device [OF assms(2)] Let_def
      by (elim option_caseE) (auto simp: False elim: option_caseE)
  qed
  then show ?thesis using base assms(3,4) by (simp add: spec_shape_def)
qed

lemma spec_for_returns: "\<exists>spec a'. spec_for shaders declared d kind a = Some (spec, a')"
  using spec_table_returns [of declared kind a]
  by (auto simp: spec_for_def Let_def split: option.split)

lemma spec_shape_cong:
  "pp_params a' = pp_params a \<Longrightarrow> pp_lines a' = pp_lines a \<Longrightarrow> spec_shape d a' = spec_shape d a"
  by (rule ext) (simp add: spec_shape_def)

lemma offers_shape:
  assumes "progpow_ok a" "kSpecializedSubgroup \<in> set kinds \<longrightarrow> can_shuffle_lanes d"
    "length out \<le> room" "\<forall>s \<in> set out. spec_shape d a s"
  shows "\<exists>out' a'. fold_fail (offer shaders declared d room) kinds (out, a) = Some (out', a') \<and>
    length out' \<le> room \<and> (\<forall>s \<in> set out'. spec_shape d a s)"
  using assms
proof (induction kinds arbitrary: out a)
  case (Cons kind kinds)
  obtain spec b where s: "spec_for shaders declared d kind a = Some (spec, b)"
    using spec_for_returns by blast
  note b = pp_ok_spec_for [OF s Cons.prems(1)]
  define out1 where "out1 = (if length out < room \<and> k_spirv spec \<noteq> None then out @ [spec] else out)"
  have o: "offer shaders declared d room kind (out, a) = Some (out1, b)"
    by (simp add: offer_def s out1_def)
  have "length out1 \<le> room" using Cons.prems(3) by (simp add: out1_def)
  moreover have "\<forall>s \<in> set out1. spec_shape d a s"
    using spec_for_shape [OF s Cons.prems(1)] Cons.prems(2,4) by (auto simp: out1_def)
  moreover have "spec_shape d b = spec_shape d a" using b by (intro spec_shape_cong)
  ultimately show ?case
    using Cons.IH [of b out1] b(1) Cons.prems(2) by (auto simp: o)
qed simp

text \<open>
  Every device is offered its kernels: the call returns, gives no more than it has
  room for, and each one given has a shader, sixteen lanes to a nonce, the same table, the
  fork's own constants followed by this device's two, and asks for whole subgroups only where
  the device's subgroups are a multiple of the lanes.
\<close>

theorem kernels_offered:
  assumes "progpow_ok a"
  shows "\<exists>out a'. kernels shaders declared d room a = Some (out, a') \<and> length out \<le> room \<and>
     (\<forall>s \<in> set out. k_spirv s \<noteq> None \<and> k_lanes s = 16 \<and> k_shared_bytes s = pp_lines a * 256 \<and>
        k_constants s = fork_constants (pp_params a) @ [l1_shared_words d, seed_pre_pass d] \<and>
        (k_full_subgroups s \<longrightarrow> d_subgroup_shuffle d \<and> 16 \<le> d_subgroup_size d \<and>
           d_subgroup_size d mod 16 = 0))"
proof -
  obtain out a' where "kernels shaders declared d room a = Some (out, a')" "length out \<le> room"
    "\<forall>s \<in> set out. spec_shape d a s"
    using offers_shape [OF assms, of "[kSpecialized] @
      (if can_shuffle_lanes d then [kSpecializedSubgroup] else []) @ [kInterpreted]" d "[]" room shaders declared]
    by (auto simp: kernels_def)
  then show ?thesis by (auto simp: spec_shape_def can_shuffle_lanes_def kLanes_def)
qed

theorem kernels_offered_witness:
  "\<exists>out a'. kernels (\<lambda>_. Some \<lparr>m_words = [7], m_storage_buffers = 0, m_push_constant_bytes = 0,
      m_local_size_x = 0\<rparr>) 0 desktop_device 3 (make_progpow kKawpow 0 (replicate kL1Words 0)) = Some (out, a') \<and>
     length out \<le> 3"
  using kernels_offered [of "make_progpow kKawpow 0 (replicate kL1Words 0)"
      "\<lambda>_. Some \<lparr>m_words = [7], m_storage_buffers = 0, m_push_constant_bytes = 0, m_local_size_x = 0\<rparr>"
      0 desktop_device 3]
  by (auto simp: make_progpow_def progpow_ok_new)

lemma table_bytes_exact:
  assumes "unat (e_full e) \<le> 2 ^ 14"
  shows "unat (table_lines e) * 4 \<le> unat (dag_items (e_full e))"
    "unat (table_lines e * 4) = unat (table_lines e) * 4"
    "unat (table_lines e * 256) = unat (table_lines e) * 256"
proof -
  let ?n = "calculate_full_dataset_num_items (int (unat (e_full e)))"
  have "?n < 2147483648" using dag_items_exact(2) [OF assms] by simp
  then have "int (unat (dag_items (e_full e))) < 4294967296"
    using dag_items_exact(1) [OF assms] by linarith
  then have d: "unat (dag_items (e_full e)) < 4294967296" by linarith
  have l: "unat (table_lines e) = unat (dag_items (e_full e)) div 4"
    by (simp add: table_lines_def progpow_numbers unat_div_distrib)
  then show a: "unat (table_lines e) * 4 \<le> unat (dag_items (e_full e))" by simp
  show "unat (table_lines e * 4) = unat (table_lines e) * 4"
    "unat (table_lines e * 256) = unat (table_lines e) * 256"
    using a d by (subst unat_mult_exact; simp)+
qed

lemma setup_pass_fields:
  assumes "progpow_ok a" "\<not> pp_host_dag a"
    and spec: "spec_for shaders declared d kind a = Some (spec, a')"
    and pass: "sp_spirv (k_setup spec) \<noteq> None"
  shows "sp_items (k_setup spec) = table_lines (pp_epochs a) * 4"
    "sp_seed_bytes (k_setup spec) = light_cache_bytes (e_light (pp_epochs a))"
    "sp_push_constant_bytes (k_setup spec) = 16"
    "k_shared_bytes spec = table_lines (pp_epochs a) * 256"
proof -
  have lines: "pp_lines a = table_lines (pp_epochs a)"
    using assms(1,2) by (simp_all add: progpow_ok_def)
  obtain base where b: "spec_table declared kind a = Some base"
    using spec by (auto simp: spec_for_def split: option.splits)
  note base = spec_table_fields [OF b]
  show "sp_items (k_setup spec) = table_lines (pp_epochs a) * 4"
    "sp_seed_bytes (k_setup spec) = light_cache_bytes (e_light (pp_epochs a))"
    "sp_push_constant_bytes (k_setup spec) = 16"
    "k_shared_bytes spec = table_lines (pp_epochs a) * 256"
    using spec pass base assms(2)
    by (auto simp: spec_for_def b Let_def lines progpow_numbers setup_pass_default_def
        split: option.splits if_splits)
qed

lemma key_of_state:
  assumes "progpow_ok a"
  shows "epochs_of_key a (state_key a) = pp_epochs a"
proof -
  have e: "pp_epochs a = epochs_for (pp_params a) (e_seed (pp_epochs a))"
    using assms by (simp add: progpow_ok_def)
  have "(ucast (ucast (e_seed (pp_epochs a)) :: u64) :: u32) = e_seed (pp_epochs a)"
    by (rule bit_word_eqI) (auto simp: bit_simps)
  then show ?thesis by (simp add: epochs_of_key_def state_key_def flip: e)
qed

text \<open>
  The setup pass a kernel is offered with is sized for the table it fills and the
  seed it is given: a 64-byte item for every 64 bytes of the table and none past the end of the
  dataset, and a seed that is, to the byte, the light cache whose item count the pushes carry.
\<close>

theorem setup_pass_sized:
  assumes "progpow_ok a" "\<not> pp_host_dag a" "unat (e_full (pp_epochs a)) \<le> 2 ^ 14"
    and spec: "spec_for shaders declared d kind a = Some (spec, a')"
    and pass: "sp_spirv (k_setup spec) \<noteq> None"
  shows "unat (sp_items (k_setup spec)) * 64 = unat (k_shared_bytes spec) \<and>
     sp_items (k_setup spec) \<le> dag_items (e_full (pp_epochs a)) \<and>
     (\<exists>push. setup_push a (state_key a) first slot n 16 = Some push \<and>
        sp_push_constant_bytes (k_setup spec) = 16 \<and>
        sp_seed_bytes (k_setup spec) = ucast (dp_cache_items push) * 64)"
proof -
  note f = setup_pass_fields [OF assms(1,2) spec pass]
  show ?thesis
    using table_bytes_exact [OF assms(3)]
    by (simp add: f setup_push_def key_of_state [OF assms(1)] light_cache_bytes_def progpow_numbers word_le_nat_alt)
qed

theorem setup_pass_sized_witness:
  "\<exists>spec a'. spec_for (\<lambda>_. Some \<lparr>m_words = [7], m_storage_buffers = 0, m_push_constant_bytes = 0,
      m_local_size_x = 0\<rparr>) 0 desktop_device kSpecialized (make_progpow kKawpow 0 (replicate kL1Words 0))
        = Some (spec, a') \<and>
     unat (sp_items (k_setup spec)) * 64 = unat (k_shared_bytes spec)"
proof -
  let ?m = "\<lambda>_ :: string. Some \<lparr>m_words = [7 :: u32], m_storage_buffers = 0, m_push_constant_bytes = 0,
      m_local_size_x = 0\<rparr>" and ?a = "make_progpow kKawpow 0 (replicate kL1Words 0)"
  obtain spec a' where s: "spec_for ?m 0 desktop_device kSpecialized ?a = Some (spec, a')"
    using spec_for_returns by blast
  have h: "\<not> pp_host_dag ?a" "pp_epochs ?a = epochs_for kKawpow 0" "progpow_ok ?a"
    using progpow_ok_new(1) [OF wf_kKawpow, of "replicate kL1Words 0" 0]
    by (simp_all add: make_progpow_def) (simp_all add: ProgPow_def Let_def)
  then have p: "sp_spirv (k_setup spec) \<noteq> None"
    using s by (auto simp: spec_for_def Let_def split: option.splits)
  have "unat (e_full (epochs_for kKawpow 0)) \<le> 2 ^ 14"
    by (simp add: epochs_for_def kKawpow_def Let_def)
  then show ?thesis
    using setup_pass_sized [OF h(3,1) _ s p] s by (auto simp: h(2))
qed

end
