(* ===== verification/Shared_State.thy ===== *)
theory Shared_State
  imports Backend Interfaces Complex_Main
begin

text \<open>
  \<^verbatim>\<open>backends/vulkan/shared_state.{h,cpp}\<close>: the device's table, how it is cut into pieces, and the
  two ways it is filled. \<open>plan\<close> is kept at 64 bits; the sizes the loops count are below \<open>2 ^ 64\<close>
  and are \<open>nat\<close>s. What the driver does is an argument: whether an allocation succeeds, whether a
  copy or a dispatch completes, how many seconds a slice took (a rational where the source has a
  double) and what the setup shader does to the buffer bound to it. A loop that would not return
  is \<open>None\<close>; the lemmas show that none of them does not.
\<close>

section \<open>Cutting a table up\<close>

definition kStagingBytes :: nat where "kStagingBytes = 8 * 2 ^ 20"
definition kFirstSlice :: nat where "kFirstSlice = 2 ^ 10"
definition kMaxSlice :: nat where "kMaxSlice = 2 ^ 20"
definition kSliceSeconds :: rat where "kSliceSeconds = 1 / 4"
definition kSliceGrowth :: rat where "kSliceGrowth = 4"

text \<open>The counter starts at one and doubles below the top bit, so it is never the zero the guard
  excludes.\<close>

function floor_pow2_from :: "u64 \<Rightarrow> u64 \<Rightarrow> u64" where
  "floor_pow2_from n p = (if p \<noteq> 0 \<and> p \<le> n div 2 then floor_pow2_from n (p * 2) else p)"
  by pat_completeness auto
termination
proof (relation "measure (\<lambda>(n, p). unat n - unat p)")
  fix n p :: u64
  assume "p \<noteq> 0 \<and> p \<le> n div 2"
  then have p: "0 < unat p" "unat p \<le> unat n div 2"
    by (auto simp: word_le_nat_alt unat_div_distrib unat_gt_0)
  then have "unat p * 2 \<le> unat n" by linarith
  moreover have "unat n < 18446744073709551616" by (rule unat_u64_less)
  ultimately have "unat p * 2 < 18446744073709551616" by linarith
  then have "unat (p * 2) = unat p * 2" by (subst unat_mult_exact) simp_all
  then show "((n, p * 2), n, p) \<in> measure (\<lambda>(n, p). unat n - unat p)"
    using p by simp
qed simp

declare floor_pow2_from.simps [simp del]

definition floor_pow2 :: "u64 \<Rightarrow> u64" where
  "floor_pow2 n = floor_pow2_from n 1"

datatype plan_error =
    NoState
  | TornQuads u64 u64
  | TooManyDeclared u64
  | TooManyPieces u64 u64

definition plan_most :: "DeviceInfo \<Rightarrow> u64 \<Rightarrow> u64" where
  "plan_most info bytes =
     (let most = bytes;
          most = (if d_max_allocation info \<noteq> 0 \<and> d_max_allocation info < most
                  then d_max_allocation info else most)
      in if d_max_binding_range info \<noteq> 0 \<and> d_max_binding_range info < most
         then d_max_binding_range info else most)"

definition plan_chunk :: "DeviceInfo \<Rightarrow> KernelSpec \<Rightarrow> u64 \<Rightarrow> u64" where
  "plan_chunk info spec bytes =
     (let most = plan_most info bytes;
          chunk = bytes;
          chunk = (if k_shared_chunk_bytes spec \<noteq> 0 \<and> k_shared_chunk_bytes spec < chunk
                   then k_shared_chunk_bytes spec else chunk);
          chunk = (if most < chunk then most else chunk)
      in if chunk < bytes then floor_pow2 chunk else chunk)"

definition plan :: "DeviceInfo \<Rightarrow> KernelSpec \<Rightarrow> u64 \<Rightarrow> plan_error + u64 \<times> u64" where
  "plan info spec bytes =
     (if plan_most info bytes = 0 then Inl NoState
      else
        let chunk = plan_chunk info spec bytes;
            pieces = (bytes + chunk - 1) div chunk
        in if bytes mod 16 \<noteq> 0 \<or> chunk mod 16 \<noteq> 0 then Inl (TornQuads bytes chunk)
           else
             let declared = (if k_shared_chunks spec \<noteq> 0 then ucast (k_shared_chunks spec) else 1)
             in if of_nat kMaxSharedChunks < declared then Inl (TooManyDeclared declared)
                else if declared < pieces then Inl (TooManyPieces pieces declared)
                else Inr (chunk, pieces))"

section \<open>The table\<close>

record SharedState =
  ss_setup :: SetupPass
  ss_chunk :: "u8 list list"
  ss_bytes :: nat
  ss_chunk_bytes :: nat
  ss_key :: u64
  ss_ready :: bool

text \<open>\<open>alloc i\<close> says whether piece \<open>i\<close> can be allocated, \<open>junk\<close> what fresh device memory holds.\<close>

partial_function (option) create_loop ::
  "(nat \<Rightarrow> bool) \<Rightarrow> (nat \<Rightarrow> u8) \<Rightarrow> nat \<Rightarrow> nat \<Rightarrow> nat \<Rightarrow> u8 list list \<Rightarrow> (u8 list list) option option" where
  "create_loop alloc junk bytes chunk first pieces =
     (if first < bytes then
        let left = bytes - first;
            size = (if left < chunk then left else chunk)
        in if \<not> alloc (length pieces) then Some None
           else create_loop alloc junk bytes chunk (first + chunk) (pieces @ [map junk [0..<size]])
      else Some (Some pieces))"

definition create_state ::
  "(nat \<Rightarrow> bool) \<Rightarrow> (nat \<Rightarrow> u8) \<Rightarrow> DeviceInfo \<Rightarrow> KernelSpec \<Rightarrow> SharedState option option" where
  "create_state alloc junk info spec =
     (let bytes = k_shared_bytes spec in
      case plan info spec bytes of Inl _ \<Rightarrow> Some None
      | Inr (chunk, n) \<Rightarrow>
          case create_loop alloc junk (unat bytes) (unat chunk) 0 [] of
            None \<Rightarrow> None
          | Some None \<Rightarrow> Some None
          | Some (Some pieces) \<Rightarrow>
              Some (Some \<lparr>ss_setup = k_setup spec, ss_chunk = pieces, ss_bytes = unat bytes,
                ss_chunk_bytes = unat chunk, ss_key = 0, ss_ready = False\<rparr>))"

section \<open>Filling it from the host\<close>

text \<open>
  \<open>produce offset span\<close> is the algorithm's producer, \<open>copied offset\<close> whether the flush, the
  submission and the wait of that copy succeed. A copy that does not complete leaves whatever it
  leaves: the table is not ready then and nothing reads it.
\<close>

partial_function (option) upload_loop ::
  "(nat \<Rightarrow> nat \<Rightarrow> u8 list option) \<Rightarrow> (nat \<Rightarrow> bool) \<Rightarrow> nat \<Rightarrow> nat \<Rightarrow> nat \<Rightarrow> nat \<Rightarrow> nat \<Rightarrow>
   u8 list list \<Rightarrow> (bool \<times> u8 list list) option" where
  "upload_loop produce copied whole chunk offset piece inside dst =
     (if offset < whole then
        let step = piece < length dst \<and> inside = length (dst ! piece);
            piece = (if step then piece + 1 else piece);
            inside = (if step then 0 else inside)
        in if length dst \<le> piece then Some (False, dst)
           else
             let span = chunk;
                 span = (if length (dst ! piece) - inside < span then length (dst ! piece) - inside else span);
                 span = (if whole - offset < span then whole - offset else span)
             in case produce offset span of None \<Rightarrow> Some (False, dst)
                | Some bytes \<Rightarrow>
                    if \<not> copied offset then Some (False, dst)
                    else upload_loop produce copied whole chunk (offset + span) piece (inside + span)
                           (dst[piece := take inside (dst ! piece) @ take span bytes @
                                         drop (inside + span) (dst ! piece)])
      else Some (True, dst))"

definition upload ::
  "(nat \<Rightarrow> nat \<Rightarrow> u8 list option) \<Rightarrow> (nat \<Rightarrow> bool) \<Rightarrow> bool \<Rightarrow> nat \<Rightarrow> u8 list list \<Rightarrow>
   (bool \<times> u8 list list) option" where
  "upload produce copied staged whole dst =
     (let chunk = (if whole < kStagingBytes then whole else kStagingBytes)
      in if \<not> staged then Some (False, dst)
         else upload_loop produce copied whole chunk 0 0 0 dst)"

section \<open>Filling it on the device\<close>

definition next_slice :: "nat \<Rightarrow> rat \<Rightarrow> nat" where
  "next_slice width seconds =
     (let want = (if 0 < seconds then of_nat width * (kSliceSeconds / seconds)
                  else of_nat width * kSliceGrowth);
          want = (if of_nat width * kSliceGrowth < want then of_nat width * kSliceGrowth else want);
          want = (if want < 1 then 1 else want)
      in if of_nat kMaxSlice < want then kMaxSlice else nat \<lfloor>want\<rfloor>)"

definition setup_local_size :: "DeviceInfo \<Rightarrow> SetupPass \<Rightarrow> u32" where
  "setup_local_size info pass =
     (let local = (if sp_local_size_x pass \<noteq> 0 then sp_local_size_x pass else 64);
          local = (if d_max_workgroup_size info \<noteq> 0 \<and> d_max_workgroup_size info < local
                   then d_max_workgroup_size info else local)
      in if d_max_invocations info \<noteq> 0 \<and> d_max_invocations info < local
         then d_max_invocations info else local)"

text \<open>
  \<open>push first place n\<close> is the algorithm's push block, \<open>None\<close> where its size is not the one
  declared; \<open>shader\<close> is the module run over the bound piece; \<open>went i\<close> and \<open>seconds i\<close> are how the
  \<open>i\<close>th slice went.
\<close>

partial_function (option) generate_loop ::
  "(nat \<Rightarrow> nat \<Rightarrow> nat \<Rightarrow> 'p option) \<Rightarrow> ('p \<Rightarrow> u8 list \<Rightarrow> u8 list) \<Rightarrow> (nat \<Rightarrow> bool) \<Rightarrow> (nat \<Rightarrow> rat) \<Rightarrow>
   nat \<Rightarrow> nat \<Rightarrow> nat \<Rightarrow> nat \<Rightarrow> nat \<Rightarrow> u8 list list \<Rightarrow> (bool \<times> u8 list list) option" where
  "generate_loop push shader went seconds items per_chunk i first width chunks =
     (if first < items then
        let piece = first div per_chunk;
            place = first - piece * per_chunk;
            left = items - first;
            left = (if per_chunk - place < left then per_chunk - place else left);
            n = (if left < width then left else width)
        in case push first place n of None \<Rightarrow> Some (False, chunks)
           | Some block \<Rightarrow>
               if \<not> went i then Some (False, chunks)
               else generate_loop push shader went seconds items per_chunk (i + 1) (first + n)
                      (next_slice width (seconds i))
                      (chunks[piece := shader block (chunks ! piece)])
      else Some (True, chunks))"

text \<open>Items per piece, or \<open>None\<close> where an item would straddle two.\<close>

definition items_per_chunk :: "nat \<Rightarrow> nat \<Rightarrow> nat \<Rightarrow> nat \<Rightarrow> nat option" where
  "items_per_chunk items bytes chunk_bytes pieces =
     (if 1 < pieces then
        let item_bytes = (if items \<noteq> 0 then bytes div items else 0)
        in if item_bytes = 0 \<or> item_bytes * items \<noteq> bytes \<or> chunk_bytes mod item_bytes \<noteq> 0 then None
           else Some (chunk_bytes div item_bytes)
      else Some items)"

record 'p device_run =
  dr_seed_alloc :: bool
  dr_staged :: bool
  dr_copied :: "nat \<Rightarrow> bool"
  dr_pipeline :: bool
  dr_ran :: "nat \<Rightarrow> bool"
  dr_seconds :: "nat \<Rightarrow> rat"
  dr_junk :: "nat \<Rightarrow> u8"
  dr_shader :: "u8 list \<Rightarrow> 'p \<Rightarrow> u8 list \<Rightarrow> u8 list"

definition generate ::
  "'p device_run \<Rightarrow> (nat \<Rightarrow> nat \<Rightarrow> u8 list option) \<Rightarrow> (nat \<Rightarrow> nat \<Rightarrow> nat \<Rightarrow> 'p option) \<Rightarrow> SharedState \<Rightarrow>
   (bool \<times> u8 list list) option" where
  "generate dev seed_of push s =
     (let seed_bytes = unat (sp_seed_bytes (ss_setup s));
          seeded = (if seed_bytes = 0 then Some (True, [[]])
                    else if \<not> dr_seed_alloc dev then Some (False, [[]])
                    else upload seed_of (dr_copied dev) (dr_staged dev) seed_bytes
                           [map (dr_junk dev) [0..<seed_bytes]])
      in case seeded of None \<Rightarrow> None
         | Some (False, _) \<Rightarrow> Some (False, ss_chunk s)
         | Some (True, seed) \<Rightarrow>
             if \<not> dr_pipeline dev then Some (False, ss_chunk s)
             else
               let items = unat (sp_items (ss_setup s)) in
               case items_per_chunk items (ss_bytes s) (ss_chunk_bytes s) (length (ss_chunk s)) of
                 None \<Rightarrow> Some (False, ss_chunk s)
               | Some per_chunk \<Rightarrow>
                   generate_loop push (dr_shader dev (concat seed)) (dr_ran dev) (dr_seconds dev)
                     items per_chunk 0 0 kFirstSlice (ss_chunk s))"

section \<open>The table a key names\<close>

text \<open>What the algorithm of a table answers: its two producers and its push block, by key.\<close>

record 'p table_source =
  ts_shared_state :: "u64 \<Rightarrow> nat \<Rightarrow> nat \<Rightarrow> u8 list option"
  ts_setup_seed :: "u64 \<Rightarrow> nat \<Rightarrow> nat \<Rightarrow> u8 list option"
  ts_setup_push :: "u64 \<Rightarrow> nat \<Rightarrow> nat \<Rightarrow> nat \<Rightarrow> 'p option"

definition ensure :: "'p device_run \<Rightarrow> 'p table_source \<Rightarrow> u64 \<Rightarrow> SharedState \<Rightarrow> (bool \<times> SharedState) option"
where
  "ensure dev source key s =
     (if ss_ready s \<and> ss_key s = key then Some (True, s)
      else
        let s = (if ss_ready s then s\<lparr>ss_ready := False\<rparr> else s)
        in case (if sp_spirv (ss_setup s) \<noteq> None
                 then generate dev (ts_setup_seed source key) (ts_setup_push source key) s
                 else upload (ts_shared_state source key) (dr_copied dev) (dr_staged dev)
                        (ss_bytes s) (ss_chunk s)) of
             None \<Rightarrow> None
           | Some (ok, chunks) \<Rightarrow>
               if \<not> ok then Some (False, s\<lparr>ss_chunk := chunks\<rparr>)
               else Some (True, s\<lparr>ss_chunk := chunks, ss_key := key, ss_ready := True\<rparr>))"

section \<open>Lemmas: the plan\<close>

lemma floor_pow2_from_spec:
  assumes "unat p = 2 ^ k" "unat p \<le> unat n"
  shows "\<exists>j. unat (floor_pow2_from n p) = 2 ^ j \<and> k \<le> j \<and> unat (floor_pow2_from n p) \<le> unat n \<and>
    unat n < 2 * unat (floor_pow2_from n p)"
  using assms
proof (induction n p arbitrary: k rule: floor_pow2_from.induct)
  case (1 n p)
  have nz: "p \<noteq> 0" using "1.prems"(1) by auto
  show ?case
  proof (cases "p \<le> n div 2")
    case True
    then have "unat p \<le> unat n div 2" by (simp add: word_le_nat_alt unat_div_distrib)
    then have le: "unat p * 2 \<le> unat n" by linarith
    moreover have "unat n < 18446744073709551616" by (rule unat_u64_less)
    ultimately have "unat p * 2 < 18446744073709551616" by linarith
    then have u: "unat (p * 2) = 2 ^ Suc k"
      using "1.prems"(1) by (subst unat_mult_exact) simp_all
    moreover have "unat (p * 2) \<le> unat n" using le u "1.prems"(1) by simp
    moreover have "floor_pow2_from n p = floor_pow2_from n (p * 2)"
      using True nz by (subst floor_pow2_from.simps) simp
    ultimately show ?thesis
      using "1.IH" [of "Suc k"] True nz by (metis Suc_leD)
  next
    case False
    then have "floor_pow2_from n p = p" by (subst floor_pow2_from.simps) simp
    moreover have "unat n < 2 * unat p"
      using False by (simp add: word_le_nat_alt unat_div_distrib not_le)
    ultimately show ?thesis using "1.prems" by auto
  qed
qed

lemma floor_pow2_spec:
  assumes "n \<noteq> 0"
  shows "\<exists>j. unat (floor_pow2 n) = 2 ^ j \<and> unat (floor_pow2 n) \<le> unat n \<and>
    unat n < 2 * unat (floor_pow2 n)"
proof -
  have "0 < unat n" using assms by (simp add: unat_gt_0)
  then show ?thesis
    using floor_pow2_from_spec [of 1 0 n] unfolding floor_pow2_def by auto
qed

lemma plan_most_spec:
  "plan_most info bytes \<le> bytes"
  "d_max_allocation info \<noteq> 0 \<Longrightarrow> plan_most info bytes \<le> d_max_allocation info"
  "d_max_binding_range info \<noteq> 0 \<Longrightarrow> plan_most info bytes \<le> d_max_binding_range info"
  by (auto simp: plan_most_def Let_def)

lemma plan_chunk_spec:
  assumes "plan_most info bytes \<noteq> 0"
  shows "plan_chunk info spec bytes \<noteq> 0" "plan_chunk info spec bytes \<le> plan_most info bytes"
    "plan_chunk info spec bytes \<noteq> bytes \<Longrightarrow> \<exists>j. unat (plan_chunk info spec bytes) = 2 ^ j"
proof -
  let ?most = "plan_most info bytes"
  define c where "c = (let chunk = bytes;
          chunk = (if k_shared_chunk_bytes spec \<noteq> 0 \<and> k_shared_chunk_bytes spec < chunk
                   then k_shared_chunk_bytes spec else chunk)
          in if ?most < chunk then ?most else chunk)"
  have e: "plan_chunk info spec bytes = (if c < bytes then floor_pow2 c else c)"
    by (simp add: plan_chunk_def c_def Let_def)
  have b: "?most \<le> bytes" by (rule plan_most_spec)
  have nz: "c \<noteq> 0" using assms b by (auto simp: c_def Let_def split: if_splits)
  have le: "c \<le> ?most" by (auto simp: c_def Let_def not_less)
  obtain j where j: "unat (floor_pow2 c) = 2 ^ j" "unat (floor_pow2 c) \<le> unat c"
    using floor_pow2_spec [OF nz] by blast
  have "floor_pow2 c \<noteq> 0" using j(1) by auto
  then show "plan_chunk info spec bytes \<noteq> 0" using nz by (simp add: e)
  have "floor_pow2 c \<le> c" using j(2) by (simp add: word_le_nat_alt)
  then show "plan_chunk info spec bytes \<le> ?most" using le by (auto simp: e)
  show "\<exists>j. unat (plan_chunk info spec bytes) = 2 ^ j" if "plan_chunk info spec bytes \<noteq> bytes"
    using that le b j(1) by (auto simp: e split: if_splits)
qed

lemma ceil_div_cover:
  assumes "0 < (c :: nat)" "0 < b"
  shows "b \<le> c * ((b + c - 1) div c)" "c * ((b + c - 1) div c - 1) < b"
proof -
  let ?q = "(b + c - 1) div c"
  have e: "c * ?q + (b + c - 1) mod c = b + c - 1" by (rule mult_div_mod_eq)
  have m: "(b + c - 1) mod c < c" using assms by simp
  show "b \<le> c * ?q" using e m by linarith
  have "1 \<le> ?q" using assms by (simp add: div_greater_zero_iff Suc_le_eq)
  then have "c * (?q - 1) = c * ?q - c" by (simp add: diff_mult_distrib2)
  moreover have "c * ?q \<le> b + c - 1" using e by linarith
  ultimately show "c * (?q - 1) < b" using assms by linarith
qed

lemma plan_spec:
  assumes "plan info spec bytes = Inr (chunk, pieces)" "unat bytes < 2 ^ 63"
  shows "chunk \<noteq> 0" "chunk \<le> plan_most info bytes" "unat chunk mod 16 = 0" "unat bytes mod 16 = 0"
    "unat pieces = (unat bytes + unat chunk - 1) div unat chunk"
    "0 < unat bytes" "unat pieces \<le> 16"
    "unat pieces \<le> max 1 (unat (k_shared_chunks spec))"
    "chunk \<noteq> bytes \<Longrightarrow> \<exists>j. unat chunk = 2 ^ j"
proof -
  from assms(1) have m: "plan_most info bytes \<noteq> 0" and c: "chunk = plan_chunk info spec bytes"
    and p: "pieces = (bytes + chunk - 1) div chunk"
    and q: "bytes mod 16 = 0" "chunk mod 16 = 0"
    and d: "\<not> 16 < (if k_shared_chunks spec \<noteq> 0 then ucast (k_shared_chunks spec) else 1 :: u64)"
      "\<not> (if k_shared_chunks spec \<noteq> 0 then ucast (k_shared_chunks spec) else 1) < pieces"
    by (auto simp: plan_def Let_def kMaxSharedChunks_def split: if_splits)
  note chunk = plan_chunk_spec [OF m, of spec, folded c]
  show "chunk \<noteq> 0" "chunk \<le> plan_most info bytes" "chunk \<noteq> bytes \<Longrightarrow> \<exists>j. unat chunk = 2 ^ j"
    using chunk by blast+
  have "unat (bytes mod 16) = unat bytes mod 16" "unat (chunk mod 16) = unat chunk mod 16"
    by (simp_all add: unat_mod_distrib)
  then show "unat chunk mod 16 = 0" "unat bytes mod 16 = 0" using q by simp_all
  have le: "unat chunk \<le> unat bytes"
    using chunk(2) plan_most_spec(1) [of info bytes] by (auto simp: word_le_nat_alt)
  have c0: "0 < unat chunk" using chunk(1) by (simp add: unat_gt_0)
  show b0: "0 < unat bytes" using le c0 by linarith
  have "unat (bytes + chunk) = unat bytes + unat chunk"
    using le assms(2) by (subst unat_add_exact) simp_all
  moreover from this have "unat (bytes + chunk - 1) = unat bytes + unat chunk - 1"
    using c0 b0 by (subst unat_sub_exact) (simp_all add: word_le_nat_alt)
  ultimately show "unat pieces = (unat bytes + unat chunk - 1) div unat chunk"
    by (simp add: p unat_div_distrib)
  show "unat pieces \<le> 16" "unat pieces \<le> max 1 (unat (k_shared_chunks spec))"
    using d by (auto simp: word_less_nat_alt not_less split: if_splits)
qed

section \<open>Lemmas: allocation\<close>

definition cut_into :: "nat \<Rightarrow> nat \<Rightarrow> 'a list list \<Rightarrow> bool" where
  "cut_into bytes chunk pieces \<longleftrightarrow> length pieces = (bytes + chunk - 1) div chunk \<and>
     (\<forall>i < length pieces. length (pieces ! i) = min chunk (bytes - i * chunk))"

lemma create_loop_spec:
  assumes "0 < chunk" "first = length ps * chunk" "ps \<noteq> [] \<longrightarrow> (length ps - 1) * chunk < bytes"
    "\<forall>i < length ps. length (ps ! i) = min chunk (bytes - i * chunk)"
  shows "\<exists>r. create_loop alloc junk bytes chunk first ps = Some r \<and>
    (\<forall>qs. r = Some qs \<longrightarrow> cut_into bytes chunk qs) \<and> ((\<forall>i. alloc i) \<longrightarrow> r \<noteq> None)"
  using assms(2-)
proof (induction "bytes + chunk - first" arbitrary: first ps rule: less_induct)
  case less
  show ?case
  proof (cases "first < bytes")
    case True
    define size where "size = (if bytes - first < chunk then bytes - first else chunk)"
    let ?ps = "ps @ [map junk [0..<size]]"
    have eq: "create_loop alloc junk bytes chunk first ps =
        (if \<not> alloc (length ps) then Some None else create_loop alloc junk bytes chunk (first + chunk) ?ps)"
      using True by (subst create_loop.simps) (simp add: Let_def size_def)
    have "size = min chunk (bytes - length ps * chunk)" using less.prems(1) by (simp add: size_def min_def)
    then have "\<forall>i < length ?ps. length (?ps ! i) = min chunk (bytes - i * chunk)"
      using less.prems(3) by (auto simp: nth_append less_Suc_eq)
    moreover have "bytes + chunk - (first + chunk) < bytes + chunk - first" using True assms(1) by simp
    moreover have "first + chunk = length ?ps * chunk" using less.prems(1) by simp
    moreover have "(length ?ps - 1) * chunk < bytes" using True less.prems(1) by simp
    ultimately have "\<exists>r. create_loop alloc junk bytes chunk (first + chunk) ?ps = Some r \<and>
        (\<forall>qs. r = Some qs \<longrightarrow> cut_into bytes chunk qs) \<and> ((\<forall>i. alloc i) \<longrightarrow> r \<noteq> None)"
      using less.hyps by blast
    then show ?thesis by (auto simp: eq)
  next
    case False
    then have "create_loop alloc junk bytes chunk first ps = Some (Some ps)"
      by (subst create_loop.simps) simp
    moreover have "length ps = (bytes + chunk - 1) div chunk"
    proof (cases "ps = []")
      case True
      then have "bytes = 0" using False less.prems(1) by simp
      then show ?thesis using True assms(1) by simp
    next
      case nonempty: False
      define n where "n = length ps - 1"
      have n: "length ps = Suc n" using nonempty by (cases ps) (simp_all add: n_def)
      have "n * chunk < bytes" "bytes \<le> n * chunk + chunk"
        using less.prems(1,2) nonempty False by (simp_all add: n)
      then have r: "bytes + chunk - 1 = Suc n * chunk + (bytes - n * chunk - 1)" "bytes - n * chunk - 1 < chunk"
        using assms(1) by simp_all
      then show ?thesis using assms(1) by (simp only: r(1) n div_mult_self3 div_less add_0_right)
    qed
    ultimately show ?thesis using less.prems(3) by (simp add: cut_into_def)
  qed
qed

lemma cut_into_concat:
  assumes "cut_into bytes chunk ps" "0 < chunk" "k \<le> length ps"
  shows "length (concat (take k ps)) = min (k * chunk) bytes"
  using assms(3)
proof (induction k)
  case (Suc k)
  then have k: "k < length ps" by simp
  have "length (ps ! k) = min chunk (bytes - k * chunk)" using assms(1) k by (simp add: cut_into_def)
  then show ?case using Suc k by (auto simp: length_concat_take min_def le_diff_conv2)
qed simp

lemma cut_into_all:
  assumes "cut_into bytes chunk ps" "0 < chunk"
  shows "length (concat ps) = bytes"
proof (cases "bytes = 0")
  case True
  then have "ps = []" using assms by (simp add: cut_into_def)
  then show ?thesis using True by simp
next
  case False
  then have "bytes \<le> chunk * length ps" using ceil_div_cover(1) assms by (simp add: cut_into_def)
  then show ?thesis using cut_into_concat [OF assms, of "length ps"] by (simp add: min_def mult.commute)
qed

section \<open>Lemmas: filling from a producer\<close>

lemma length_concat_take_le: "length (concat (take n xss)) \<le> length (concat xss)"
proof -
  have "concat xss = concat (take n xss) @ concat (drop n xss)"
    by (simp flip: concat_append)
  then show ?thesis by simp
qed

context byte_source
begin

lemma upload_loop_spec:
  assumes "0 < chunk" "whole < 2 ^ 64" and known: "known key"
  shows "offset \<le> whole \<Longrightarrow> (if piece < length dst then inside \<le> length (dst ! piece) else inside = 0) \<Longrightarrow>
    offset = length (concat (take piece dst)) + inside \<Longrightarrow>
    take offset (concat dst) = map (content key) [0..<offset] \<Longrightarrow>
    \<exists>ok dst'. upload_loop (produce key) copied whole chunk offset piece inside dst = Some (ok, dst') \<and>
      map length dst' = map length dst \<and>
      (ok \<longrightarrow> take whole (concat dst') = map (content key) [0..<whole]) \<and>
      ((\<forall>off n. off + n \<le> whole \<longrightarrow> produce key off n \<noteq> None) \<and> (\<forall>i. copied i) \<and>
         whole \<le> length (concat dst) \<longrightarrow> ok)"
proof (induction "(whole - offset) + (length dst - piece)" arbitrary: offset piece inside dst rule: less_induct)
  case less
  show ?case
  proof (cases "offset < whole")
    case False
    then have "upload_loop (produce key) copied whole chunk offset piece inside dst = Some (True, dst)"
      by (subst upload_loop.simps) simp
    then show ?thesis using less.prems False by (intro exI [of _ True] exI [of _ dst]) simp
  next
    case True
    define step where "step \<longleftrightarrow> piece < length dst \<and> inside = length (dst ! piece)"
    define p where "p = (if step then piece + 1 else piece)"
    define k where "k = (if step then 0 else inside)"
    have off: "offset = length (concat (take p dst)) + k"
      using less.prems(3) length_concat_take [of piece dst] by (auto simp: p_def k_def step_def)
    show ?thesis
    proof (cases "p < length dst")
      case False
      then have "upload_loop (produce key) copied whole chunk offset piece inside dst = Some (False, dst)"
        using True by (subst upload_loop.simps) (simp add: Let_def p_def k_def step_def)
      moreover have "length (concat dst) \<le> offset" using off False by simp
      ultimately show ?thesis using True by (intro exI [of _ False] exI [of _ dst]) simp
    next
      case p: True
      have k: "k < length (dst ! p) \<or> (step \<and> k = 0)" using less.prems(2) p
        by (auto simp: p_def k_def step_def split: if_splits)
      define fit where "fit = (if length (dst ! p) - k < chunk then length (dst ! p) - k else chunk)"
      define span where "span = (if whole - offset < fit then whole - offset else fit)"
      have spans: "span = min (min chunk (length (dst ! p) - k)) (whole - offset)"
        by (auto simp: span_def fit_def)
      have span: "span \<le> whole - offset" "k + span \<le> length (dst ! p)" "span \<le> chunk"
        using k by (auto simp: spans)
      have np: "(length dst \<le> p) = False" using p by simp
      have eq: "upload_loop (produce key) copied whole chunk offset piece inside dst =
        (case produce key offset span of None \<Rightarrow> Some (False, dst)
         | Some bytes \<Rightarrow> if \<not> copied offset then Some (False, dst)
             else upload_loop (produce key) copied whole chunk (offset + span) p (k + span)
               (dst[p := take k (dst ! p) @ take span bytes @ drop (k + span) (dst ! p)]))"
        by (subst upload_loop.simps)
          (simp only: Let_def True if_True if_False step_def [symmetric] p_def [symmetric]
            k_def [symmetric] np fit_def [symmetric] span_def [symmetric])
      show ?thesis
      proof (cases "produce key offset span")
        case None
        moreover have "offset + span \<le> whole" using span True by simp
        ultimately show ?thesis using eq by (intro exI [of _ False] exI [of _ dst]) auto
      next
        case (Some bytes)
        show ?thesis
        proof (cases "copied offset")
          case False
          then show ?thesis using eq Some by (intro exI [of _ False] exI [of _ dst]) auto
        next
          case copied: True
          have "offset + span < 2 ^ 64" using span True assms(2) by linarith
          note bytes = produce_bytes [OF known Some this] produce_length [OF known Some this]
          define dst1 where "dst1 = dst[p := take k (dst ! p) @ bytes @ drop (k + span) (dst ! p)]"
          have len: "map length dst1 = map length dst"
            using span p bytes(2) by (intro nth_equalityI) (auto simp: dst1_def nth_list_update)
          have cat: "concat dst1 = take offset (concat dst) @ bytes @ drop (offset + span) (concat dst)"
            using concat_update [OF p, of k bytes] span(2) bytes(2) off by (simp add: dst1_def)
          have room: "offset + span \<le> length (concat dst)"
            using off span(2) length_concat_take [OF p] length_concat_take_le [of "Suc p" dst] by linarith
          have "take (offset + span) (concat dst1) = take offset (concat dst) @ bytes"
            using room bytes(2) unfolding cat by simp
          also have "\<dots> = map (content key) [0..<offset + span]"
            unfolding less.prems(4) bytes(1) map_append [symmetric]
            using upt_add_eq_append [of 0 offset span] by simp
          finally have inv4: "take (offset + span) (concat dst1) = map (content key) [0..<offset + span]" .
          have inv2: "if p < length dst1 then k + span \<le> length (dst1 ! p) else k + span = 0"
            using p span(2) bytes(2) by (simp add: dst1_def)
          have "take p dst1 = take p dst" by (simp add: dst1_def)
          then have inv3: "offset + span = length (concat (take p dst1)) + (k + span)" using off by simp
          have "0 < span \<or> piece < p"
            using k True assms(1) by (auto simp: spans p_def)
          then have dec: "(whole - (offset + span)) + (length dst1 - p) < (whole - offset) + (length dst - piece)"
            using True p span(1) by (auto simp: dst1_def p_def split: if_splits)
          have "offset + span \<le> whole" using span(1) True by simp
          from less.hyps [OF dec this inv2 inv3 inv4] show ?thesis
            using eq Some copied bytes(2) len length_concat_map [OF len] by (simp add: dst1_def)
        qed
      qed
    qed
  qed
qed

end

section \<open>Lemmas: filling on the device\<close>

lemma next_slice_bounds:
  assumes "1 \<le> s" "s \<le> kMaxSlice"
  shows "1 \<le> next_slice s seconds" "next_slice s seconds \<le> kMaxSlice" "next_slice s seconds \<le> 4 * s"
proof -
  define w0 where "w0 = (if 0 < seconds then of_nat s * (kSliceSeconds / seconds) else of_nat s * kSliceGrowth)"
  define w where "w = (if of_nat s * kSliceGrowth < w0 then of_nat s * kSliceGrowth else w0)"
  define v where "v = (if w < 1 then 1 else w)"
  have e: "next_slice s seconds = (if of_nat kMaxSlice < v then kMaxSlice else nat \<lfloor>v\<rfloor>)"
    by (simp only: next_slice_def Let_def w0_def [symmetric] w_def [symmetric] v_def [symmetric])
  have v1: "1 \<le> v" by (simp add: v_def)
  have "w \<le> of_nat s * 4" by (auto simp: w_def kSliceGrowth_def)
  moreover have "1 \<le> (of_nat s :: rat) * 4" using assms(1) by (cases s) simp_all
  ultimately have v4: "v \<le> of_nat (4 * s)" by (auto simp: v_def mult.commute)
  have f: "1 \<le> \<lfloor>v\<rfloor>" using v1 by (simp add: le_floor_iff)
  have "\<lfloor>v\<rfloor> \<le> int (4 * s)" using v4 by (metis floor_mono floor_of_nat)
  then show "next_slice s seconds \<le> 4 * s"
  proof (cases "of_nat kMaxSlice < v")
    case True
    then have "(of_nat kMaxSlice :: rat) < of_nat (4 * s)" using v4 by linarith
    then show ?thesis using True by (simp only: e if_True of_nat_less_iff)
  next
    case False
    then show ?thesis using \<open>\<lfloor>v\<rfloor> \<le> int (4 * s)\<close> by (simp add: e nat_le_iff)
  qed
  have "1 \<le> nat \<lfloor>v\<rfloor>" using f by linarith
  then show "1 \<le> next_slice s seconds" by (simp add: e kMaxSlice_def)
  have "\<lfloor>v\<rfloor> \<le> int kMaxSlice" if "\<not> of_nat kMaxSlice < v"
    using that by (metis floor_mono floor_of_nat not_less)
  then show "next_slice s seconds \<le> kMaxSlice" by (auto simp: e nat_le_iff)
qed

text \<open>
  What the setup module owes: run over a piece with the push block of \<open>n\<close> items from \<open>first\<close>
  landing at \<open>place\<close>, it writes those items there and nothing else. It owes this only for slices
  that lie inside the piece and inside the table and are no longer than the longest slice.
\<close>

definition setup_contract ::
  "nat \<Rightarrow> (nat \<Rightarrow> u8 list) \<Rightarrow> nat \<Rightarrow> (nat \<Rightarrow> nat \<Rightarrow> nat \<Rightarrow> 'p option) \<Rightarrow> ('p \<Rightarrow> u8 list \<Rightarrow> u8 list) \<Rightarrow> bool"
where
  "setup_contract ib item items push shader \<longleftrightarrow>
     0 < ib \<and> (\<forall>i. length (item i) = ib) \<and>
     (\<forall>first place n block piece. push first place n = Some block \<longrightarrow> 0 < n \<longrightarrow> n \<le> kMaxSlice \<longrightarrow>
        first + n \<le> items \<longrightarrow> place \<le> first \<longrightarrow> (place + n) * ib \<le> length piece \<longrightarrow>
        shader block piece = take (place * ib) piece @ concat (map item [first..<first + n]) @
          drop ((place + n) * ib) piece)"

lemma length_items:
  assumes "\<And>i. length (item i) = ib"
  shows "length (concat (map item xs)) = length xs * ib"
  by (induction xs) (simp_all add: assms)

lemma generate_loop_spec:
  assumes c: "setup_contract ib item items push shader" and per: "0 < per"
  shows "1 \<le> width \<Longrightarrow> width \<le> kMaxSlice \<Longrightarrow> first \<le> items \<Longrightarrow>
    cut_into (items * ib) (per * ib) chunks \<Longrightarrow>
    take (first * ib) (concat chunks) = concat (map item [0..<first]) \<Longrightarrow>
    \<exists>ok chunks'. generate_loop push shader went seconds items per i first width chunks = Some (ok, chunks') \<and>
      map length chunks' = map length chunks \<and>
      (ok \<longrightarrow> concat chunks' = concat (map item [0..<items])) \<and>
      ((\<forall>f p n. push f p n \<noteq> None) \<and> (\<forall>i. went i) \<longrightarrow> ok)"
proof (induction "items - first" arbitrary: i first width chunks rule: less_induct)
  case less
  have ib: "0 < ib" and item: "\<And>i. length (item i) = ib" using c by (auto simp: setup_contract_def)
  have cut: "length (concat chunks) = items * ib"
    using cut_into_all [OF less.prems(4)] per ib by simp
  show ?case
  proof (cases "first < items")
    case False
    then have "generate_loop push shader went seconds items per i first width chunks = Some (True, chunks)"
      by (subst generate_loop.simps) simp
    moreover have "first = items" using False less.prems(3) by simp
    ultimately show ?thesis
      using less.prems(5) cut by (intro exI [of _ True] exI [of _ chunks]) simp
  next
    case True
    define piece where "piece = first div per"
    define place where "place = first - piece * per"
    define left1 where "left1 = items - first"
    define left2 where "left2 = (if per - place < left1 then per - place else left1)"
    define n where "n = (if left2 < width then left2 else width)"
    have place: "place = first mod per" "place < per"
      using per by (simp_all add: place_def piece_def minus_div_mult_eq_mod)
    have first: "first = piece * per + place" by (simp add: place(1) piece_def)
    have n: "0 < n" "n \<le> width" "n \<le> items - first" "place + n \<le> per"
      using True place(2) less.prems(1) by (auto simp: n_def left2_def left1_def)
    have eq: "generate_loop push shader went seconds items per i first width chunks =
      (case push first place n of None \<Rightarrow> Some (False, chunks)
       | Some block \<Rightarrow> if \<not> went i then Some (False, chunks)
           else generate_loop push shader went seconds items per (i + 1) (first + n)
             (next_slice width (seconds i)) (chunks[piece := shader block (chunks ! piece)]))"
      by (subst generate_loop.simps)
        (simp only: Let_def True if_True piece_def [symmetric] place_def [symmetric] left1_def [symmetric]
          left2_def [symmetric] n_def [symmetric])
    show ?thesis
    proof (cases "push first place n = None \<or> \<not> went i")
      case True
      then show ?thesis
        using eq by (intro exI [of _ False] exI [of _ chunks]) (auto split: option.splits)
    next
      case False
      then obtain block where block: "push first place n = Some block" and went: "went i" by auto
      have "piece * per < items" using first True by linarith
      then have pb: "piece * (per * ib) < items * ib" using ib by (simp add: mult.assoc [symmetric])
      have p: "piece < length chunks"
      proof (rule ccontr)
        assume "\<not> piece < length chunks"
        then have "length chunks * (per * ib) \<le> piece * (per * ib)" by (intro mult_right_mono) auto
        then have "length chunks * (per * ib) < items * ib" using pb by linarith
        moreover have "length (concat (take (length chunks) chunks)) = min (length chunks * (per * ib)) (items * ib)"
          by (rule cut_into_concat [OF less.prems(4)]) (use per ib in simp_all)
        ultimately show False using cut by simp
      qed
      have pos: "length (concat (take piece chunks)) = piece * per * ib"
        using cut_into_concat [OF less.prems(4), of piece] p pb per ib by (simp add: min_def mult.assoc)
      have "(place + n) * ib \<le> per * ib" using n(4) by (rule mult_right_mono) simp
      moreover have "piece * per + (place + n) \<le> items" using n(3) True first by linarith
      then have "(piece * per + (place + n)) * ib \<le> items * ib" by (rule mult_right_mono) simp
      then have "(place + n) * ib \<le> items * ib - piece * (per * ib)"
        by (simp add: add_mult_distrib mult.assoc)
      ultimately have room: "(place + n) * ib \<le> length (chunks ! piece)"
        using less.prems(4) p by (simp add: cut_into_def)
      define ys where "ys = concat (map item [first..<first + n])"
      have ys: "length ys = n * ib" by (simp add: ys_def length_items item)
      have pf: "place \<le> first" by (simp add: place_def)
      have sh: "shader block (chunks ! piece) =
          take (place * ib) (chunks ! piece) @ ys @ drop (place * ib + length ys) (chunks ! piece)"
        using c block n(1,2,3) less.prems(2) True room ys pf
        unfolding setup_contract_def ys_def by (simp add: add_mult_distrib)
      define chunks1 where "chunks1 = chunks[piece := shader block (chunks ! piece)]"
      have r: "place * ib + length ys \<le> length (chunks ! piece)" using room ys by (simp add: add_mult_distrib)
      have fp: "length (concat (take piece chunks)) + place * ib = first * ib"
        by (simp add: pos first add_mult_distrib)
      have cat: "concat chunks1 = take (first * ib) (concat chunks) @ ys @
          drop (first * ib + length ys) (concat chunks)"
        using concat_update [OF p r] unfolding chunks1_def sh fp by simp
      have len: "map length chunks1 = map length chunks"
        using r p by (intro nth_equalityI) (auto simp: chunks1_def nth_list_update sh)
      have "first * ib \<le> items * ib" using less.prems(3) by (rule mult_right_mono) simp
      then have "take ((first + n) * ib) (concat chunks1) = take (first * ib) (concat chunks) @ ys"
        unfolding cat using ys cut by (simp add: add_mult_distrib)
      also have "\<dots> = concat (map item [0..<first + n])"
        unfolding less.prems(5) ys_def using upt_add_eq_append [of 0 first n] by simp
      finally have inv: "take ((first + n) * ib) (concat chunks1) = concat (map item [0..<first + n])" .
      have cut1: "cut_into (items * ib) (per * ib) chunks1"
      proof -
        have "length chunks1 = length chunks" using len by (metis length_map)
        moreover have "length (chunks1 ! j) = length (chunks ! j)" if "j < length chunks" for j
          using len that by (metis nth_map calculation)
        ultimately show ?thesis using less.prems(4) by (simp add: cut_into_def)
      qed
      have "items - (first + n) < items - first" "first + n \<le> items" using n True by auto
      from less.hyps [OF this(1) next_slice_bounds(1,2) [OF less.prems(1,2)] this(2) cut1 inv]
      show ?thesis using eq block went len by (simp add: chunks1_def)
    qed
  qed
qed

context byte_source
begin

lemma upload_loop_start:
  assumes "0 < chunk" "whole < 2 ^ 64" "known key"
  shows "\<exists>ok dst'. upload_loop (produce key) copied whole chunk 0 0 0 dst = Some (ok, dst') \<and>
    map length dst' = map length dst \<and> (ok \<longrightarrow> take whole (concat dst') = map (content key) [0..<whole]) \<and>
    ((\<forall>off n. off + n \<le> whole \<longrightarrow> produce key off n \<noteq> None) \<and> (\<forall>i. copied i) \<and> whole \<le> length (concat dst) \<longrightarrow> ok)"
proof -
  have "if 0 < length dst then 0 \<le> length (dst ! 0) else (0 :: nat) = 0" by simp
  from upload_loop_spec [OF assms _ this, of 0 copied] show ?thesis by auto
qed

end

section \<open>The contract of a table\<close>

text \<open>
  What holds of a table between calls: it is cut as planned, and once ready it holds the bytes of
  its key. A setup pass fits a table when it has an item for every \<open>ib\<close> bytes of it and a seed.
\<close>

definition table_ok :: "(u64 \<Rightarrow> nat \<Rightarrow> u8) \<Rightarrow> SharedState \<Rightarrow> bool" where
  "table_ok table s \<longleftrightarrow> 0 < ss_bytes s \<and> ss_bytes s < 2 ^ 64 \<and> 0 < ss_chunk_bytes s \<and>
     cut_into (ss_bytes s) (ss_chunk_bytes s) (ss_chunk s) \<and>
     (ss_ready s \<longrightarrow> concat (ss_chunk s) = map (table (ss_key s)) [0..<ss_bytes s])"

definition fits_state :: "(u64 \<Rightarrow> nat \<Rightarrow> nat \<Rightarrow> bool) \<Rightarrow> nat \<Rightarrow> u64 \<Rightarrow> SharedState \<Rightarrow> bool" where
  "fits_state fits ib key s \<longleftrightarrow> (sp_spirv (ss_setup s) \<noteq> None \<longrightarrow>
     fits key (unat (sp_seed_bytes (ss_setup s))) (unat (sp_items (ss_setup s))) \<and>
     unat (sp_items (ss_setup s)) * ib = ss_bytes s \<and> sp_seed_bytes (ss_setup s) \<noteq> 0)"

text \<open>A driver that refuses nothing.\<close>

definition grants :: "'p device_run \<Rightarrow> bool" where
  "grants dev \<longleftrightarrow> dr_seed_alloc dev \<and> dr_staged dev \<and> (\<forall>i. dr_copied dev i) \<and> dr_pipeline dev \<and> (\<forall>i. dr_ran dev i)"

text \<open>
  A table whose setup pass has all it needs: a module, its seed, its push blocks, and pieces that
  hold whole items.
\<close>

definition served_state :: "'p table_source \<Rightarrow> nat \<Rightarrow> u64 \<Rightarrow> SharedState \<Rightarrow> bool" where
  "served_state source ib key s \<longleftrightarrow> sp_spirv (ss_setup s) \<noteq> None \<and>
     (\<forall>off n. off + n \<le> unat (sp_seed_bytes (ss_setup s)) \<longrightarrow> ts_setup_seed source key off n \<noteq> None) \<and>
     (\<forall>first place n. ts_setup_push source key first place n \<noteq> None) \<and>
     (ss_bytes s \<le> ss_chunk_bytes s \<or> ib dvd ss_chunk_bytes s)"

lemma cut_into_cong: "map length xs = map length ys \<Longrightarrow> cut_into b c xs = cut_into b c ys"
  unfolding cut_into_def by (metis length_map nth_map)

text \<open>
  An algorithm whose tables a device holds: both its producers answer with the bytes a key names,
  and its setup module, run with the seed of a key over slices of a table that \<open>fits\<close>, writes
  that key's items of \<open>ib\<close> bytes.
\<close>

locale table_provider =
  host: byte_source "ts_shared_state source" table known +
  seed: byte_source "ts_setup_seed source" seed_byte known
  for source :: "'p table_source" and table :: "u64 \<Rightarrow> nat \<Rightarrow> u8" and seed_byte :: "u64 \<Rightarrow> nat \<Rightarrow> u8"
    and known :: "u64 \<Rightarrow> bool" +
  fixes dev :: "'p device_run" and fits :: "u64 \<Rightarrow> nat \<Rightarrow> nat \<Rightarrow> bool" and ib :: nat
  assumes shader_contract:
    "known key \<Longrightarrow> fits key seed_bytes items \<Longrightarrow>
     setup_contract ib (\<lambda>i. map (table key) [i * ib..<i * ib + ib]) items (ts_setup_push source key)
       (dr_shader dev (map (seed_byte key) [0..<seed_bytes]))"
begin

lemma items_table:
  "concat (map (\<lambda>i. map (table key) [i * ib..<i * ib + ib]) [0..<n]) = map (table key) [0..<n * ib]"
proof (induction n)
  case (Suc n)
  then show ?case using upt_add_eq_append [of 0 "n * ib" ib] by (simp add: add.commute)
qed simp

lemma upload_exact:
  assumes "table_ok table s" and known: "known key"
  shows "\<exists>ok chunks. upload (ts_shared_state source key) copied staged (ss_bytes s) (ss_chunk s) = Some (ok, chunks) \<and>
    map length chunks = map length (ss_chunk s) \<and>
    (ok \<longrightarrow> concat chunks = map (table key) [0..<ss_bytes s])"
proof (cases staged)
  case True
  let ?c = "if ss_bytes s < kStagingBytes then ss_bytes s else kStagingBytes"
  have len: "length (concat (ss_chunk s)) = ss_bytes s"
    using assms by (auto simp: table_ok_def intro: cut_into_all)
  have "0 < ?c" "ss_bytes s < 2 ^ 64" using assms by (auto simp: table_ok_def kStagingBytes_def)
  from host.upload_loop_start [OF this known, of copied "ss_chunk s"] obtain ok chunks where
    "upload_loop (ts_shared_state source key) copied (ss_bytes s) ?c 0 0 0 (ss_chunk s) = Some (ok, chunks)"
    "map length chunks = map length (ss_chunk s)"
    "ok \<longrightarrow> take (ss_bytes s) (concat chunks) = map (table key) [0..<ss_bytes s]"
    by blast
  then show ?thesis
    using True length_concat_map [of chunks "ss_chunk s"] len by (auto simp: upload_def Let_def)
qed (auto simp: upload_def)

lemma seed_exact:
  assumes "0 < n" "n < 2 ^ 64" and known: "known key"
  shows "\<exists>ok out. upload (ts_setup_seed source key) copied staged n [map junk [0..<n]] = Some (ok, out) \<and>
    (ok \<longrightarrow> concat out = map (seed_byte key) [0..<n]) \<and>
    (staged \<and> (\<forall>i. copied i) \<and> (\<forall>off k. off + k \<le> n \<longrightarrow> ts_setup_seed source key off k \<noteq> None) \<longrightarrow> ok)"
proof (cases staged)
  case True
  let ?c = "if n < kStagingBytes then n else kStagingBytes"
  have "0 < ?c" using assms by (auto simp: kStagingBytes_def)
  from seed.upload_loop_start [OF this assms(2) known, of copied "[map junk [0..<n]]"] obtain ok out where
    "upload_loop (ts_setup_seed source key) copied n ?c 0 0 0 [map junk [0..<n]] = Some (ok, out)"
    "map length out = map length [map junk [0..<n]]"
    "ok \<longrightarrow> take n (concat out) = map (seed_byte key) [0..<n]"
    "(\<forall>off k. off + k \<le> n \<longrightarrow> ts_setup_seed source key off k \<noteq> None) \<and> (\<forall>i. copied i) \<and>
       n \<le> length (concat [map junk [0..<n]]) \<longrightarrow> ok"
    by blast
  then show ?thesis
    using True length_concat_map [of out "[map junk [0..<n]]"] by (auto simp: upload_def Let_def)
qed (auto simp: upload_def)

lemma items_per_chunk_spec:
  assumes "table_ok table s" "items * ib = ss_bytes s" "0 < ib"
    "items_per_chunk items (ss_bytes s) (ss_chunk_bytes s) (length (ss_chunk s)) = Some per"
  shows "0 < per \<and> cut_into (items * ib) (per * ib) (ss_chunk s)"
proof (cases "1 < length (ss_chunk s)")
  case True
  have "0 < items" using assms(1,2) by (auto simp: table_ok_def intro: gr0I)
  then have "ss_bytes s div items = ib" using assms(2) by (metis nonzero_mult_div_cancel_left not_gr0)
  then have d: "ib dvd ss_chunk_bytes s" "per = ss_chunk_bytes s div ib"
    using assms(4) True \<open>0 < items\<close> by (auto simp: items_per_chunk_def Let_def split: if_splits)
  then have "per * ib = ss_chunk_bytes s" by simp
  then show ?thesis using assms(1,2) by (auto simp: table_ok_def intro: gr0I)
next
  case False
  then have per: "per = items" using assms(4) by (simp add: items_per_chunk_def)
  have items: "0 < items" using assms(1,2) by (auto simp: table_ok_def intro: gr0I)
  have cut: "cut_into (ss_bytes s) (ss_chunk_bytes s) (ss_chunk s)" "0 < ss_bytes s" "0 < ss_chunk_bytes s"
    using assms(1) by (simp_all add: table_ok_def)
  have all: "length (concat (ss_chunk s)) = ss_bytes s" by (rule cut_into_all [OF cut(1,3)])
  then obtain c where c: "ss_chunk s = [c]" "length c = ss_bytes s"
    using False cut(2) by (cases "ss_chunk s"; cases "tl (ss_chunk s)") auto
  have "(ss_bytes s + ss_bytes s - 1) div ss_bytes s = 1"
    using cut(2) by (simp add: div_nat_eqI)
  then show ?thesis using c cut(2) items by (simp add: per cut_into_def assms(2))
qed

lemma items_per_chunk_served:
  assumes "table_ok table s" "items * ib = ss_bytes s" "ss_bytes s \<le> ss_chunk_bytes s \<or> ib dvd ss_chunk_bytes s"
  shows "items_per_chunk items (ss_bytes s) (ss_chunk_bytes s) (length (ss_chunk s)) \<noteq> None"
proof (cases "1 < length (ss_chunk s)")
  case True
  have c: "0 < ss_bytes s" "0 < ss_chunk_bytes s" "length (ss_chunk s) = (ss_bytes s + ss_chunk_bytes s - 1) div ss_chunk_bytes s"
    using assms(1) by (simp_all add: table_ok_def cut_into_def)
  have "\<not> ss_bytes s \<le> ss_chunk_bytes s"
  proof
    assume "ss_bytes s \<le> ss_chunk_bytes s"
    then have "(ss_bytes s + ss_chunk_bytes s - 1) div ss_chunk_bytes s = 1" using c by (simp add: div_nat_eqI)
    then show False using True c(3) by simp
  qed
  then have "ib dvd ss_chunk_bytes s" using assms(3) by blast
  moreover have "items \<noteq> 0" "ib \<noteq> 0" using assms(2) c(1) by (auto intro: gr0I)
  moreover have "ss_bytes s div items = ib" using assms(2) \<open>items \<noteq> 0\<close> by (metis nonzero_mult_div_cancel_left)
  ultimately show ?thesis using assms(2) by (simp add: items_per_chunk_def Let_def mult.commute)
qed (simp add: items_per_chunk_def)

lemma generate_exact:
  assumes ok: "table_ok table s" and known: "known key" and fits: "fits_state fits ib key s" and pass: "sp_spirv (ss_setup s) \<noteq> None"
  shows "\<exists>ok chunks. generate dev (ts_setup_seed source key) (ts_setup_push source key) s = Some (ok, chunks) \<and>
    map length chunks = map length (ss_chunk s) \<and>
    (ok \<longrightarrow> concat chunks = map (table key) [0..<ss_bytes s]) \<and>
    (grants dev \<and> served_state source ib key s \<longrightarrow> ok)"
proof -
  let ?sb = "unat (sp_seed_bytes (ss_setup s))" and ?items = "unat (sp_items (ss_setup s))"
  have f: "fits key ?sb ?items" "?items * ib = ss_bytes s" and sb: "0 < ?sb"
    using fits pass by (auto simp: fits_state_def unat_gt_0)
  note contract = shader_contract [OF known f(1)]
  have ib: "0 < ib" using contract by (simp add: setup_contract_def)
  have "?sb < 2 ^ 64" using unat_u64_less [of "sp_seed_bytes (ss_setup s)"] by (simp del: unat_u64_less)
  from seed_exact [OF sb this known, of "dr_copied dev" "dr_staged dev" "dr_junk dev"] obtain sok out where
    up: "upload (ts_setup_seed source key) (dr_copied dev) (dr_staged dev) ?sb [map (dr_junk dev) [0..<?sb]] = Some (sok, out)"
    and out: "sok \<longrightarrow> concat out = map (seed_byte key) [0..<?sb]"
    and granted: "dr_staged dev \<and> (\<forall>i. dr_copied dev i) \<and>
      (\<forall>off k. off + k \<le> ?sb \<longrightarrow> ts_setup_seed source key off k \<noteq> None) \<longrightarrow> sok" by blast
  show ?thesis
  proof (cases "dr_seed_alloc dev \<and> sok \<and> dr_pipeline dev \<and>
      items_per_chunk ?items (ss_bytes s) (ss_chunk_bytes s) (length (ss_chunk s)) \<noteq> None")
    case False
    then have "generate dev (ts_setup_seed source key) (ts_setup_push source key) s = Some (False, ss_chunk s)"
      using sb up by (cases sok) (auto simp: generate_def Let_def split: option.splits)
    moreover have "\<not> (grants dev \<and> served_state source ib key s)"
      using False granted items_per_chunk_served [OF ok f(2)] by (auto simp: grants_def served_state_def)
    ultimately show ?thesis by (intro exI [of _ False] exI [of _ "ss_chunk s"]) simp
  next
    case True
    then obtain per where per: "items_per_chunk ?items (ss_bytes s) (ss_chunk_bytes s) (length (ss_chunk s)) = Some per"
      by auto
    have p: "0 < per" "cut_into (?items * ib) (per * ib) (ss_chunk s)"
      using items_per_chunk_spec [OF ok f(2) ib per] by simp_all
    have g: "generate dev (ts_setup_seed source key) (ts_setup_push source key) s =
        generate_loop (ts_setup_push source key) (dr_shader dev (map (seed_byte key) [0..<?sb])) (dr_ran dev)
          (dr_seconds dev) ?items per 0 0 kFirstSlice (ss_chunk s)"
      using True sb up out per by (simp add: generate_def Let_def)
    have k: "1 \<le> kFirstSlice" "kFirstSlice \<le> kMaxSlice" by (simp_all add: kFirstSlice_def kMaxSlice_def)
    have "take (0 * ib) (concat (ss_chunk s)) = concat (map (\<lambda>i. map (table key) [i * ib..<i * ib + ib]) [0..<0])" by simp
    note loop = generate_loop_spec [OF contract p(1) k le0 p(2) this, of "dr_ran dev" "dr_seconds dev" 0]
    have "grants dev \<and> served_state source ib key s \<longrightarrow> (\<forall>f p n. ts_setup_push source key f p n \<noteq> None) \<and> (\<forall>i. dr_ran dev i)"
      by (simp add: grants_def served_state_def)
    then show ?thesis using loop unfolding g items_table f(2) by blast
  qed
qed

lemma ensure_exact:
  assumes ok: "table_ok table s" and known: "known key" and fits: "fits_state fits ib key s"
  shows "\<exists>b s'. ensure dev source key s = Some (b, s') \<and> table_ok table s' \<and>
    ss_bytes s' = ss_bytes s \<and> ss_chunk_bytes s' = ss_chunk_bytes s \<and> ss_setup s' = ss_setup s \<and>
    ss_ready s' = b \<and>
    (b \<longrightarrow> ss_key s' = key \<and> concat (ss_chunk s') = map (table key) [0..<ss_bytes s]) \<and>
    (grants dev \<and> served_state source ib key s \<longrightarrow> b)"
proof (cases "ss_ready s \<and> ss_key s = key")
  case True
  then show ?thesis using ok by (auto simp: ensure_def table_ok_def)
next
  case False
  define t where "t = (if ss_ready s then s\<lparr>ss_ready := False\<rparr> else s)"
  have t: "table_ok table t" "fits_state fits ib key t" "\<not> ss_ready t" "ss_bytes t = ss_bytes s"
    "ss_chunk_bytes t = ss_chunk_bytes s" "ss_setup t = ss_setup s" "ss_chunk t = ss_chunk s"
    "served_state source ib key t = served_state source ib key s"
    using ok fits by (auto simp: t_def table_ok_def fits_state_def served_state_def)
  let ?fill = "if sp_spirv (ss_setup t) \<noteq> None
      then generate dev (ts_setup_seed source key) (ts_setup_push source key) t
      else upload (ts_shared_state source key) (dr_copied dev) (dr_staged dev) (ss_bytes t) (ss_chunk t)"
  obtain b chunks where fill: "?fill = Some (b, chunks)" "map length chunks = map length (ss_chunk t)"
    "b \<longrightarrow> concat chunks = map (table key) [0..<ss_bytes t]"
    "grants dev \<and> served_state source ib key t \<longrightarrow> b"
    using generate_exact [OF t(1) known t(2)] upload_exact [OF t(1) known, of "dr_copied dev" "dr_staged dev"]
    by (cases "sp_spirv (ss_setup t) \<noteq> None") (simp_all add: served_state_def, blast+)
  have e: "ensure dev source key s =
      (if \<not> b then Some (False, t\<lparr>ss_chunk := chunks\<rparr>)
       else Some (True, t\<lparr>ss_chunk := chunks, ss_key := key, ss_ready := True\<rparr>))"
    by (simp only: ensure_def if_not_P [OF False] Let_def t_def [symmetric] fill(1) option.case prod.case)
  show ?thesis
    using t fill(2-4) cut_into_cong [OF fill(2), of "ss_bytes t" "ss_chunk_bytes t"]
    by (cases b) (auto simp: e table_ok_def)
qed

end

section \<open>Properties\<close>

text \<open>
  Claim C29. A table that is planned is one a shader can address: no piece is above either of the
  device's limits, every piece is a whole number of 16-byte quads, the pieces cover the table
  with none to spare and are no more than the shader declares, and where there is more than one
  the piece size is a power of two.
\<close>

theorem plan_cuts:
  assumes "plan info spec bytes = Inr (chunk, pieces)" "unat bytes < 2 ^ 63"
  shows "0 < unat chunk \<and> chunk \<le> bytes \<and>
    (d_max_allocation info \<noteq> 0 \<longrightarrow> chunk \<le> d_max_allocation info) \<and>
    (d_max_binding_range info \<noteq> 0 \<longrightarrow> chunk \<le> d_max_binding_range info) \<and>
    unat chunk mod 16 = 0 \<and> unat bytes mod 16 = 0 \<and>
    unat bytes \<le> unat chunk * unat pieces \<and> unat chunk * (unat pieces - 1) < unat bytes \<and>
    unat pieces \<le> 16 \<and> unat pieces \<le> max 1 (unat (k_shared_chunks spec)) \<and>
    (1 < unat pieces \<longrightarrow> (\<exists>j. unat chunk = 2 ^ j))"
proof -
  note p = plan_spec [OF assms]
  have c: "0 < unat chunk" using p(1) by (simp add: unat_gt_0)
  have one: "unat pieces = 1" if "chunk = bytes"
    using p(5,6) that by (simp add: div_nat_eqI)
  have pow: "\<exists>j. unat chunk = 2 ^ j" if "1 < unat pieces"
    using p(9) one that by fastforce
  show ?thesis
    using p(2) plan_most_spec [of info bytes] ceil_div_cover [OF c p(6)] c p(3,4,7,8) pow
    unfolding p(5) [symmetric] by (auto intro: order.trans)
qed

lemma plan_desktop: "plan desktop_device kernel_spec_default 4096 = Inr (4096, 1)"
  by (simp add: plan_def plan_most_def plan_chunk_def desktop_device_def kernel_spec_default_def
      kMaxSharedChunks_def Let_def)

theorem plan_cuts_witness:
  "plan desktop_device kernel_spec_default 4096 = Inr (4096, 1) \<and> (4096 :: u64) \<le> d_max_allocation desktop_device"
  using plan_cuts [OF plan_desktop] plan_desktop by (simp add: desktop_device_def)

text \<open>A table of at least a kilobyte in no more than sixteen pieces has pieces of whole 64-byte items.\<close>

lemma plan_pieces_whole:
  assumes "plan info spec bytes = Inr (chunk, pieces)" "unat bytes < 2 ^ 63" "1024 \<le> unat bytes"
  shows "unat bytes \<le> unat chunk \<or> 64 dvd unat chunk"
proof (cases "chunk = bytes")
  case False
  note p = plan_spec [OF assms(1,2)]
  obtain j where j: "unat chunk = 2 ^ j" using p(9) [OF False] by blast
  have c: "0 < unat chunk" using p(1) by (simp add: unat_gt_0)
  have "unat bytes \<le> unat chunk * unat pieces" using ceil_div_cover(1) [OF c p(6)] by (simp add: p(5))
  also have "\<dots> \<le> unat chunk * 16" using p(7) by (rule mult_left_mono) simp
  finally have "(2 :: nat) ^ 6 \<le> 2 ^ j" using assms(3) j by simp
  then have "6 \<le> j" by (rule power_le_imp_le_exp [rotated]) simp
  then have "(2 :: nat) ^ 6 dvd 2 ^ j" by (rule le_imp_power_dvd)
  then show ?thesis by (simp add: j)
qed simp

lemma create_state_spec:
  assumes "unat (k_shared_bytes spec) < 2 ^ 63"
  shows "\<exists>r. create_state alloc junk info spec = Some r \<and>
    (\<forall>s. r = Some s \<longrightarrow> table_ok table s \<and> \<not> ss_ready s \<and> ss_setup s = k_setup spec \<and>
       ss_bytes s = unat (k_shared_bytes spec) \<and>
       (1024 \<le> unat (k_shared_bytes spec) \<longrightarrow> ss_bytes s \<le> ss_chunk_bytes s \<or> 64 dvd ss_chunk_bytes s)) \<and>
    ((\<forall>i. alloc i) \<and> (\<forall>e. plan info spec (k_shared_bytes spec) \<noteq> Inl e) \<longrightarrow> r \<noteq> None)"
proof (cases "plan info spec (k_shared_bytes spec)")
  case (Inr cp)
  obtain chunk pieces where cp: "cp = (chunk, pieces)" by (cases cp)
  note p = plan_spec [OF Inr [unfolded cp] assms]
  have c: "0 < unat chunk" using p(1) by (simp add: unat_gt_0)
  obtain r where r: "create_loop alloc junk (unat (k_shared_bytes spec)) (unat chunk) 0 [] = Some r"
    "\<forall>qs. r = Some qs \<longrightarrow> cut_into (unat (k_shared_bytes spec)) (unat chunk) qs"
    "(\<forall>i. alloc i) \<longrightarrow> r \<noteq> None"
    using create_loop_spec [OF c, of 0 "[]" "unat (k_shared_bytes spec)" alloc junk] by auto
  have "unat (k_shared_bytes spec) < 2 ^ 64" using assms by simp
  then show ?thesis
    using r p(6) c plan_pieces_whole [OF Inr [unfolded cp] assms]
    by (cases r) (auto simp: create_state_def Inr cp Let_def table_ok_def)
qed (simp add: create_state_def)

text \<open>
  Allocating a table returns, whatever the device refuses; where it gives one, the
  table is cut as planned, holds every byte asked for and is not ready for any key.
\<close>

theorem create_state_cuts:
  assumes "unat (k_shared_bytes spec) < 2 ^ 63"
  shows "\<exists>r. create_state alloc junk info spec = Some r \<and>
    (\<forall>s. r = Some s \<longrightarrow> \<not> ss_ready s \<and> ss_bytes s = unat (k_shared_bytes spec) \<and>
       length (concat (ss_chunk s)) = ss_bytes s \<and>
       (\<forall>i < length (ss_chunk s). length (ss_chunk s ! i) = min (ss_chunk_bytes s) (ss_bytes s - i * ss_chunk_bytes s)))"
proof -
  obtain r where r: "create_state alloc junk info spec = Some r"
    "\<forall>s. r = Some s \<longrightarrow> table_ok (\<lambda>_ _. 0) s \<and> \<not> ss_ready s \<and> ss_setup s = k_setup spec \<and>
       ss_bytes s = unat (k_shared_bytes spec)"
    using create_state_spec [OF assms] by blast
  moreover have "length (concat (ss_chunk s)) = ss_bytes s"
    "\<forall>i < length (ss_chunk s). length (ss_chunk s ! i) = min (ss_chunk_bytes s) (ss_bytes s - i * ss_chunk_bytes s)"
    if "table_ok (\<lambda>_ _. 0) s" for s
    using that cut_into_all by (auto simp: table_ok_def cut_into_def)
  ultimately show ?thesis by blast
qed

theorem create_state_cuts_witness:
  "\<exists>r. create_state (\<lambda>i. i < 1) (\<lambda>_. 7) desktop_device (kernel_spec_default\<lparr>k_shared_bytes := 4096\<rparr>) = Some r \<and>
    (\<forall>s. r = Some s \<longrightarrow> \<not> ss_ready s)"
  using create_state_cuts [of "kernel_spec_default\<lparr>k_shared_bytes := 4096\<rparr>" "\<lambda>i. i < 1" "\<lambda>_. 7" desktop_device]
  by auto

text \<open>
  The slices of a setup pass adapt without ever stalling or overrunning: from any
  legal width and any measurement, the next is at least one item, at most the longest allowed
  and at most four times the last.
\<close>

theorem next_slice_adapts:
  assumes "1 \<le> s" "s \<le> kMaxSlice"
  shows "1 \<le> next_slice s seconds \<and> next_slice s seconds \<le> kMaxSlice \<and> next_slice s seconds \<le> 4 * s"
  using next_slice_bounds [OF assms] by blast

theorem next_slice_adapts_witness: "1 \<le> next_slice 1024 (1 / 1000) \<and> next_slice 1024 (1 / 1000) \<le> 4096"
  using next_slice_adapts [of 1024 "1 / 1000"] by (simp add: kMaxSlice_def)

end
