(* ===== verification/Progpow_Table.thy ===== *)
theory Progpow_Table
  imports Progpow Shared_State Sha3
begin

text \<open>
  The table of a ProgPoW fork as a device holds it: the setup shader
  \<^verbatim>\<open>algorithms/progpow/dag.comp\<close>, the object of \<^verbatim>\<open>progpow.cpp\<close> as the provider
  \<^verbatim>\<open>shared_state.cpp\<close> asks, and the proof that a table \<open>ensure\<close> reports ready holds the dataset
  the host's own hash reads.
\<close>

section \<open>The setup shader\<close>

text \<open>
  It includes \<^verbatim>\<open>sha3.glsl\<close> without defining \<^verbatim>\<open>VKMINER_SHA3_INT64\<close>, on every device, so its lanes
  are pairs of 32-bit words.
\<close>

definition dag_keccak512 :: "u32 list \<Rightarrow> u32 list" where
  "dag_keccak512 m =
     (let a = map (\<lambda>i. klane (m ! (2 * i)) (m ! (2 * i + 1))) [0..<8] @
              [klane 0x00000001 0x80000000] @ replicate 16 (klane 0 0);
          a = sha3_keccakf uvec2_lanes a
      in concat (map (\<lambda>i. [klo (a ! i), khi (a ! i)]) [0..<8]))"

definition dag_parents :: nat where "dag_parents = 512"

definition dag_invocation :: "(nat \<Rightarrow> u32) \<Rightarrow> u32 \<Rightarrow> u32 \<Rightarrow> u32 list" where
  "dag_invocation cache cache_items index =
     (let base = unat ((index mod cache_items) * 16);
          mix = map (\<lambda>j. cache (base + j)) [0..<16];
          mix = dag_keccak512 (mix[0 := mix ! 0 XOR index]);
          mix = for_up dag_parents (\<lambda>r mix.
                  let t = fnv1 (index XOR of_nat r) (mix ! (r mod 16));
                      parent = unat ((t mod cache_items) * 16)
                  in map (\<lambda>j. fnv1 (mix ! j) (cache (parent + j))) [0..<16]) mix
      in dag_keccak512 mix)"

text \<open>
  A dispatch over the piece bound to it. The invocations are concurrent and each writes its own
  64 bytes, so their order does not matter; those past the count write nothing.
\<close>

definition dag_comp :: "u8 list \<Rightarrow> DagPush \<Rightarrow> u8 list \<Rightarrow> u8 list" where
  "dag_comp seed push piece =
     for_up (unat (dp_count push)) (\<lambda>i piece.
       let out = bytes_of (dag_invocation (\<lambda>k. le32dec (take 4 (drop (k * 4) seed)))
                             (dp_cache_items push) (dp_first push + of_nat i));
           place = unat ((dp_slot push + of_nat i) * 16) * 4
       in take place piece @ out @ drop (place + length out) piece) piece"

section \<open>Lemmas: the shader's permutation call is the library's sponge\<close>

lemma load_le_bit:
  assumes "length bs = 8"
  shows "bit (load_le bs) k \<longleftrightarrow> k < 64 \<and> bit (bs ! (k div 8)) (k mod 8)"
proof -
  have "bit (fold (\<lambda>i w. w OR push_bit (8 * i) (ucast (bs ! i))) [0..<n] (0 :: u64)) k \<longleftrightarrow>
      k < 64 \<and> k div 8 < n \<and> bit (bs ! (k div 8)) (k mod 8)" for n
  proof (induction n)
    case (Suc n)
    have "bit (push_bit (8 * n) (ucast (bs ! n) :: u64)) k \<longleftrightarrow> k < 64 \<and> k div 8 = n \<and> bit (bs ! n) (k mod 8)"
    proof (cases "8 * n \<le> k \<and> k < 8 * n + 8")
      case True
      then have d: "k div 8 = n" by auto
      moreover have "k mod 8 = k - 8 * n" using minus_mult_div_eq_mod [of k 8] unfolding d by simp
      ultimately show ?thesis using True by (auto simp: bit_simps)
    next
      case False
      then have "k div 8 \<noteq> n" by auto
      moreover have "\<not> bit (bs ! n) (k - 8 * n)" if "8 * n \<le> k"
        using False that by (auto dest!: bit_imp_le_length)
      ultimately show ?thesis by (auto simp: bit_simps)
    qed
    then show ?case using Suc by (auto simp: bit_or_iff less_Suc_eq)
  qed simp
  from this [of 8] show ?thesis by (simp add: load_le_def div_less_iff_less_mult)
qed

lemma le32enc_bit:
  assumes "j < 4"
  shows "bit (le32enc w ! j) k \<longleftrightarrow> k < 8 \<and> bit w (8 * j + k)"
proof -
  have m: "(x AND 0xff) = take_bit 8 x" for x :: u32
    by (simp add: take_bit_eq_mask mask_eq_exp_minus_1)
  have "j = 0 \<or> j = 1 \<or> j = 2 \<or> j = 3" using assms by auto
  then show ?thesis by (auto simp: le32enc_def m bit_simps numeral_eq_Suc dest: bit_imp_le_length)
qed

lemma load_le_words: "load_le (le32enc a @ le32enc b) = klane64 a b"
  unfolding klane64_def
proof (rule bit_word_eqI)
  fix k assume "k < LENGTH(64)"
  then have k: "k < 64" by simp
  have kk: "k = 8 * (k div 8) + k mod 8" by simp
  show "bit (load_le (le32enc a @ le32enc b)) k \<longleftrightarrow> bit (ucast a OR push_bit 32 (ucast b) :: u64) k"
  proof (cases "k < 32")
    case True
    then have "k div 8 < 4" by simp
    then have "bit ((le32enc a @ le32enc b) ! (k div 8)) (k mod 8) \<longleftrightarrow> bit a k"
      using le32enc_bit [of "k div 8" a "k mod 8"] by (simp add: nth_append)
    then show ?thesis using True by (auto simp: load_le_bit bit_simps)
  next
    case False
    have d: "k div 8 - 4 < 4" "4 \<le> k div 8" using k False by auto
    have "8 * (k div 8 - 4) + k mod 8 = k - 32" using kk d(2) by linarith
    then have "bit ((le32enc a @ le32enc b) ! (k div 8)) (k mod 8) \<longleftrightarrow> bit b (k - 32)"
      using le32enc_bit [OF d(1), of b "k mod 8"] d by (simp add: nth_append)
    then show ?thesis
      using False k by (auto simp: load_le_bit bit_simps dest: bit_imp_le_length)
  qed
qed

lemma absorb_words_spec:
  assumes "n \<le> length st"
  shows "absorb_words n bs st = map (\<lambda>i. st ! i XOR load_le (take 8 (drop (8 * i) bs))) [0..<n] @ drop n st"
  using assms
proof (induction n)
  case (Suc n)
  then have "absorb_words n bs st = map (\<lambda>i. st ! i XOR load_le (take 8 (drop (8 * i) bs))) [0..<n] @ drop n st"
    by simp
  moreover have "drop n st = st ! n # drop (Suc n) st" using Suc.prems by (simp add: Cons_nth_drop_Suc)
  ultimately show ?case
    by (simp add: absorb_words_def for_up_Suc xor_word_def list_update_append nth_append)
qed (simp add: absorb_words_def)

lemma keccak512_64:
  assumes "length m = 16"
  shows "keccak512 (bytes_of m) = dag_keccak512 m"
proof -
  have l: "length (bytes_of m) = 64" by (simp add: length_bytes_of assms)
  have ab: "absorb_blocks 72 (bytes_of m) st = (bytes_of m, st)" for st
    by (subst absorb_blocks.simps) (simp add: l)
  have w: "load_le (take 8 (drop (8 * i) (bytes_of m))) = klane64 (m ! (2 * i)) (m ! (2 * i + 1))"
    if "i < 8" for i
  proof -
    have b: "take 4 (drop (k * 4) (bytes_of m)) = le32enc (m ! k)" if "k < 16" for k
      unfolding bytes_of_def using that assms by (subst concat_block [where k = 4]) auto
    have "take 8 (drop (8 * i) (bytes_of m)) =
        take 4 (drop (2 * i * 4) (bytes_of m)) @ take 4 (drop ((2 * i + 1) * 4) (bytes_of m))"
      using take_add [of 4 4 "drop (8 * i) (bytes_of m)"] by (simp add: add.commute mult.commute)
    then show ?thesis using b [of "2 * i"] b [of "2 * i + 1"] that by (simp add: load_le_words)
  qed
  have one: "load_le ([0x01] @ replicate 7 0) = 1"
  proof (rule bit_word_eqI)
    fix k assume "k < LENGTH(64)"
    then show "bit (load_le ([0x01] @ replicate 7 0)) k \<longleftrightarrow> bit (1 :: u64) k"
      by (subst load_le_bit) (auto simp: nth_Cons' bit_1_iff)
  qed
  let ?a = "map (\<lambda>i. klane64 (m ! (2 * i)) (m ! (2 * i + 1))) [0..<8] :: u64 list"
  have st: "absorb_words 8 (bytes_of m) (replicate 25 0) = ?a @ replicate 17 0"
    by (simp add: absorb_words_spec w del: upt_Suc cong: map_cong)
  have r: "replicate 17 (0 :: u64) = 0 # replicate 16 0" by (simp add: replicate_eqI numeral_eq_Suc)
  have xw: "xor_word 8 y (as @ x # bs) = as @ (x XOR y) # bs" if "length as = 8" for x y :: u64 and as bs
    using that by (simp add: xor_word_def nth_append list_update_append)
  have x: "xor_word 8 0x8000000000000000 (xor_word 8 1 (?a @ replicate 17 0)) =
      ?a @ [0x8000000000000001] @ replicate 16 0"
    unfolding r by (subst xw, simp, subst xw, simp, simp)
  have pad: "klane64 0x00000001 0x80000000 = 0x8000000000000001" "klane64 0 0 = 0" by (simp_all add: klane64_def)
  define b where "b = map (\<lambda>i. klane (m ! (2 * i)) (m ! (2 * i + 1))) [0..<8] @
      [klane 0x00000001 0x80000000] @ replicate 16 (klane 0 0)"
  have b: "lanes64 b = ?a @ [0x8000000000000001] @ replicate 16 0" "length b = 25"
    by (simp_all add: b_def klane_def lane64_def pad del: upt_Suc)
  define f where "f = sha3_keccakf uvec2_lanes b"
  have f: "lanes64 f = keccakf1600 (lanes64 b)" "length f = 25"
    using keccakf_lanes64 [OF b(2)] sha3_keccakf_eq [of "lanes64 b"] b(2) by (simp_all add: f_def)
  have half: "ucast (lane64 x) = klo x" "ucast (drop_bit 32 (lane64 x)) = khi x" for x
    using halves_lane64 by simp_all
  have "keccak 512 (bytes_of m) = take 8 (lanes64 f)"
    using one x by (simp add: keccak_def Let_def ab l st f b)
  moreover have "words_of64 (take 8 s) = concat (map (\<lambda>i. [ucast (s ! i), ucast (drop_bit 32 (s ! i))]) [0..<8])"
    if "length s = 25" for s
  proof -
    have "take 8 s = map ((!) s) [0..<8]" using that by (intro nth_equalityI) auto
    then show ?thesis by (simp add: words_of64_def comp_def del: upt_Suc)
  qed
  ultimately have "keccak512 (bytes_of m) = concat (map (\<lambda>i. [ucast (lanes64 f ! i), ucast (drop_bit 32 (lanes64 f ! i))]) [0..<8])"
    using f(2) by (simp add: keccak512_def)
  also have "\<dots> = concat (map (\<lambda>i. [klo (f ! i), khi (f ! i)]) [0..<8])"
    using f(2) by (intro arg_cong [where f = concat] map_cong) (simp_all add: half)
  finally show ?thesis by (simp only: dag_keccak512_def Let_def f_def b_def)
qed

section \<open>Lemmas: an invocation computes the item the host does\<close>

lemma built_cache_shape:
  assumes "unat (e_light e) \<le> 2 ^ 14"
  shows "length (built_cache e) = unat (light_cache_items (e_light e))"
    "\<forall>h \<in> set (built_cache e). length h = 16"
    "0 < unat (light_cache_items (e_light e))" "unat (light_cache_items (e_light e)) < 2 ^ 28"
proof -
  let ?n = "calculate_light_cache_num_items (int (unat (e_light e)))"
  have "unat (e_light e) \<le> 2 ^ 18" using assms by simp
  note i = light_cache_items_exact [OF this]
  have n: "2 \<le> ?n" "?n \<le> 2 ^ 18 + int (unat (e_light e)) * 2 ^ 11" by (rule num_items_bounds, simp)+
  show p: "0 < unat (light_cache_items (e_light e))" using n i(1) by linarith
  have "unat (e_light e) \<le> 16384" using assms by simp
  then have "int (unat (e_light e)) \<le> 16384" by linarith
  moreover have "?n \<le> 262144 + int (unat (e_light e)) * 2048" using n(2) by simp
  ultimately have "int (unat (light_cache_items (e_light e))) < 268435456" using i(1) by linarith
  then have "unat (light_cache_items (e_light e)) < 268435456" by linarith
  then show "unat (light_cache_items (e_light e)) < 2 ^ 28" by simp
  have z: "nat (sint (light_cache_items (e_light e))) = unat (light_cache_items (e_light e))"
    using i by linarith
  show "length (built_cache e) = unat (light_cache_items (e_light e))"
    "\<forall>h \<in> set (built_cache e). length h = 16"
    unfolding built_cache_def z using build_light_cache_shape [OF p] by blast+
qed

definition seed_bytes :: "epochs \<Rightarrow> u8 list" where
  "seed_bytes e = concat (map bytes_of (built_cache e))"

abbreviation seed_word :: "u8 list \<Rightarrow> nat \<Rightarrow> u32" where
  "seed_word seed k \<equiv> le32dec (take 4 (drop (k * 4) seed))"

lemma bytes_of_words: "concat (map bytes_of hs) = bytes_of (concat hs)"
  by (induction hs) (simp_all add: bytes_of_def)

lemma seed_word_nth:
  assumes "k < length ws"
  shows "seed_word (bytes_of ws) k = ws ! k"
proof -
  have "take 4 (drop (k * 4) (bytes_of ws)) = le32enc (ws ! k)"
    unfolding bytes_of_def using assms by (subst concat_block [where k = 4]) auto
  then show ?thesis by simp
qed

lemma concat_nth_16:
  assumes "\<forall>h \<in> set hs. length h = (16 :: nat)" "i < length hs" "j < 16"
  shows "concat hs ! (i * 16 + j) = hs ! i ! j"
proof -
  have "take 16 (drop (i * 16) (concat hs)) = hs ! i" using assms by (intro concat_block) auto
  then have "take 16 (drop (i * 16) (concat hs)) ! j = hs ! i ! j" by simp
  moreover have "i * 16 \<le> length (concat hs)"
    using concat_blocks_length [of hs 16] assms(1,2) by simp
  ultimately show ?thesis using assms(3) by simp
qed

lemma seed_word_item:
  assumes e: "unat (e_light e) \<le> 2 ^ 14" and i: "i < unat (light_cache_items (e_light e))" and j: "j < 16"
  shows "seed_word (seed_bytes e) (i * 16 + j) = built_cache e ! i ! j"
proof -
  note s = built_cache_shape [OF e]
  have "length (concat (built_cache e)) = length (built_cache e) * 16"
    using s(2) by (intro concat_blocks_length) auto
  moreover have "i * 16 + j < length (built_cache e) * 16" using s(1) i j by linarith
  ultimately have "i * 16 + j < length (concat (built_cache e))" by linarith
  then show ?thesis
    unfolding seed_bytes_def bytes_of_words using s(1,2) i j
    by (simp only: seed_word_nth concat_nth_16)
qed

lemma unat_times_16:
  assumes "unat (w :: u32) < 2 ^ 28"
  shows "unat (w * 16) = unat w * 16"
  using assms by (subst unat_mult_exact) simp_all

lemma mod_items:
  assumes "unat (c :: u32) < 2 ^ 28" "0 < unat c"
  shows "unat ((w mod c) * 16) = unat w mod unat c * 16" "unat w mod unat c < unat c"
proof -
  show l: "unat w mod unat c < unat c" using assms(2) by simp
  have "unat (w mod c) = unat w mod unat c" by (simp add: unat_mod_distrib)
  moreover have "unat (w mod c) < 2 ^ 28" using l assms(1) calculation by linarith
  ultimately show "unat ((w mod c) * 16) = unat w mod unat c * 16" by (simp only: unat_times_16)
qed

lemma item_words:
  assumes e: "unat (e_light e) \<le> 2 ^ 14" and i: "i < unat (light_cache_items (e_light e))"
  shows "map (\<lambda>j. f j (seed_word (seed_bytes e) (i * 16 + j))) [0..<16] =
    map (\<lambda>j. f j (built_cache e ! i ! j)) [0..<16]"
  using seed_word_item [OF e i] by (intro map_cong) auto

lemma dag_invocation_item:
  assumes e: "unat (e_light e) \<le> 2 ^ 14" and k: "k < 2 ^ 32"
  shows "dag_invocation (seed_word (seed_bytes e)) (light_cache_items (e_light e)) (of_nat k) =
    item_of e (of_nat k)"
proof -
  note s = built_cache_shape [OF e]
  let ?n = "light_cache_items (e_light e)" and ?c = "built_cache e"
  have k32: "unat (of_nat k :: u32) = k" using k by (simp add: unat_of_nat_u32)
  have k64: "unat (of_nat k :: u64) = k" using k by (simp add: unat_of_nat_u64)
  have uk: "ucast (of_nat k :: u64) = (of_nat k :: u32)"
    by (rule word_unat_eq_iff [THEN iffD2]) (use k in \<open>simp add: k64 k32 unsigned_ucast_eq take_bit_nat_eq_self\<close>)
  note m = mod_items [OF s(4,3)]
  have len: "length (?c ! i) = 16" if "i < unat ?n" for i using s(1,2) that by simp
  have "unat (of_nat k mod of_nat (length ?c) :: u64) = k mod unat ?n"
    using s(1) by (simp add: unat_mod_distrib k64 unat_of_nat_u64)
  then have init: "item_init ?c (of_nat k) =
      keccak512 (bytes_of ((?c ! (k mod unat ?n))[0 := ?c ! (k mod unat ?n) ! 0 XOR of_nat k]))"
    by (simp add: item_init_def uk Let_def)
  have first: "map (\<lambda>j. seed_word (seed_bytes e) (unat ((of_nat k mod ?n) * 16) + j)) [0..<16] = ?c ! (k mod unat ?n)"
  proof -
    have "map (\<lambda>j. seed_word (seed_bytes e) (k mod unat ?n * 16 + j)) [0..<16] =
        map (\<lambda>j. ?c ! (k mod unat ?n) ! j) [0..<16]"
      using item_words [OF e, of "k mod unat ?n" "\<lambda>_ x. x"] s(3) by simp
    also have "\<dots> = ?c ! (k mod unat ?n)"
      using len [of "k mod unat ?n"] s(3) by (intro nth_equalityI) auto
    finally show ?thesis using m(1) [of "of_nat k"] by (simp only: k32)
  qed
  have step: "map (\<lambda>j. fnv1 (mix ! j) (seed_word (seed_bytes e) (unat ((t mod ?n) * 16) + j))) [0..<16] =
      fnv1_512 mix (?c ! (unat t mod length ?c))" for mix t
    unfolding m(1) fnv1_512_def s(1)
    using item_words [OF e m(2), of "\<lambda>j x. fnv1 (mix ! j) x" t] by simp
  let ?l = "(?c ! (k mod unat ?n))[0 := ?c ! (k mod unat ?n) ! 0 XOR of_nat k]"
  have "length ?l = 16" using len [of "k mod unat ?n"] s(3) by simp
  then have a: "dag_keccak512 ?l = item_init ?c (of_nat k)" unfolding init by (rule keccak512_64 [symmetric])
  have b: "for_up dag_parents (\<lambda>r mix.
        let t = fnv1 (of_nat k XOR of_nat r) (mix ! (r mod 16)); parent = unat ((t mod ?n) * 16)
        in map (\<lambda>j. fnv1 (mix ! j) (seed_word (seed_bytes e) (parent + j))) [0..<16]) mix =
      for_up full_dataset_item_parents (item_update ?c (of_nat k)) mix" for mix
    unfolding dag_parents_def full_dataset_item_parents_def Let_def step item_update_def ..
  have "length (for_up full_dataset_item_parents (item_update ?c (of_nat k)) (item_init ?c (of_nat k))) = 16"
    by (rule for_up_invariant [where P = "\<lambda>_ mix. length mix = 16"])
      (simp_all add: item_init_def item_update_def fnv1_512_def Let_def)
  then show ?thesis
    unfolding dag_invocation_def Let_def [of "unat ((of_nat k mod ?n) * 16)"] Let_def [of "map _ _"]
      Let_def [of "dag_keccak512 _"] first a Let_def [of "for_up _ _ _"] b
    by (simp only: item_of_def calculate_dataset_item_512_def uk keccak512_64 Let_def)
qed

section \<open>Lemmas: a dispatch writes its items and nothing else\<close>

lemma table_item: "map (table_byte e) [i * 64..<i * 64 + 64] = bytes_of (item_of e (of_nat i))"
proof -
  have l: "length (bytes_of (item_of e (of_nat i))) = 64" by (simp add: length_bytes_of)
  have "map (table_byte e) [i * 64..<i * 64 + 64] = map (\<lambda>j. table_byte e (i * 64 + j)) [0..<64]"
    by (intro nth_equalityI) simp_all
  also have "\<dots> = bytes_of (item_of e (of_nat i))"
    using table_slice [of "i * 64" 64 e] l by simp
  finally show ?thesis .
qed

lemma narrow_of_nat: "(ucast (of_nat k :: u64) :: u32) = of_nat k"
  by (rule bit_word_eqI) (auto simp: bit_simps bit_of_nat_iff_bit)

lemma dag_comp_items:
  assumes e: "unat (e_light e) \<le> 2 ^ 14" and n: "first + n \<le> 2 ^ 28" "place \<le> first" "n < 2 ^ 32"
    and room: "(place + n) * 64 \<le> length piece"
    and push: "dp_count push = of_nat n" "dp_first push = of_nat first" "dp_slot push = of_nat place"
      "dp_cache_items push = light_cache_items (e_light e)"
  shows "dag_comp (seed_bytes e) push piece =
    take (place * 64) piece @ concat (map (\<lambda>i. bytes_of (item_of e (of_nat i))) [first..<first + n]) @
      drop ((place + n) * 64) piece"
proof -
  have c: "unat (of_nat n :: u32) = n" using n(3) by (simp add: unat_of_nat_u32)
  let ?item = "\<lambda>i. bytes_of (item_of e (of_nat i))"
  have len: "length (?item i) = 64" for i by (simp add: length_bytes_of)
  have lens: "length (concat (map ?item [first..<first + i])) = i * 64" for i
    using concat_blocks_length [of "map ?item [first..<first + i]" 64] len by auto
  have P: "i \<le> n \<Longrightarrow> for_up i (\<lambda>i piece.
       let out = bytes_of (dag_invocation (seed_word (seed_bytes e)) (dp_cache_items push) (dp_first push + of_nat i));
           place = unat ((dp_slot push + of_nat i) * 16) * 4
       in take place piece @ out @ drop (place + length out) piece) piece =
     take (place * 64) piece @ concat (map ?item [first..<first + i]) @ drop ((place + i) * 64) piece" for i
  proof (induction i)
    case 0
    then show ?case by (simp add: for_up_def)
  next
    case (Suc i)
    let ?p = "take (place * 64) piece @ concat (map ?item [first..<first + i]) @ drop ((place + i) * 64) piece"
    have i: "i < n" "i \<le> n" using Suc.prems by simp_all
    have out: "bytes_of (dag_invocation (seed_word (seed_bytes e)) (dp_cache_items push) (dp_first push + of_nat i)) =
        ?item (first + i)"
      using dag_invocation_item [OF e, of "first + i"] n(1) i by (simp add: push)
    define w where "w = place + i"
    have "w < 2 ^ 28" using n(1,2) i by (simp add: w_def)
    then have "unat ((of_nat w :: u32) * 16) = w * 16"
      by (subst unat_times_16) (simp_all add: unat_of_nat_u32)
    then have at: "unat ((dp_slot push + of_nat i) * 16) * 4 = (place + i) * 64"
      by (simp add: push w_def)
    have r: "(place + Suc i) * 64 \<le> length piece"
      using room i by (meson Suc_leI add_le_mono1 add_left_mono le_trans mult_le_mono1)
    then have pl: "length (take (place * 64) piece @ concat (map ?item [first..<first + i])) = (place + i) * 64"
      using lens [of i] by simp
    have parts: "take ((place + i) * 64) ?p = take (place * 64) piece @ concat (map ?item [first..<first + i])"
      "drop ((place + i) * 64 + 64) ?p = drop ((place + Suc i) * 64) piece"
      using pl by (simp_all only: append_assoc [symmetric] take_append drop_append) (simp_all add: add.commute)
    show ?case
      unfolding for_up_Suc Suc.IH [OF i(2)]
      unfolding Let_def out at len parts by (simp add: add.commute)
  qed
  show ?thesis unfolding dag_comp_def push(1) c by (rule P) simp
qed

section \<open>Lemmas: what the object answers as a producer\<close>

lemma length_seed_bytes:
  assumes e: "unat (e_light e) \<le> 2 ^ 14"
  shows "length (seed_bytes e) = unat (light_cache_bytes (e_light e))"
proof -
  note s = built_cache_shape [OF e]
  have "unat (light_cache_bytes (e_light e)) = unat (light_cache_items (e_light e)) * 64"
    using s(4) by (simp add: light_cache_bytes_def kItemBytes_def unat_mult_exact unsigned_ucast_eq take_bit_nat_eq_self)
  moreover have "length (seed_bytes e) = length (built_cache e) * 64"
    unfolding seed_bytes_def by (subst concat_blocks_length [where k = 64]) (use s(2) in \<open>auto simp: length_bytes_of\<close>)
  ultimately show ?thesis using s(1) by simp
qed

lemma light_cache_some:
  assumes v: "valid_cache st" and e: "unat (e_light e) \<le> 2 ^ 14"
    and some: "fst (light_cache e offset n a st) = Some bs"
  shows "bs = map (\<lambda>i. seed_bytes e ! i) [unat offset..<unat offset + unat n]"
proof -
  let ?t = "light_cache_bytes (e_light e)"
  note len = length_seed_bytes [OF e]
  have ge: "\<not> ?t < offset" "\<not> ?t - offset < n" using some by (auto simp: light_cache_def Let_def split: if_splits)
  then have "unat (?t - offset) = unat ?t - unat offset" by (intro unat_sub_exact) simp
  then have r: "unat offset + unat n \<le> unat ?t" using ge by (simp add: word_less_nat_alt word_le_nat_alt)
  have "bs = take (unat n) (drop (unat offset) (seed_bytes e))"
    using some ge dag.request_value [OF v, of e a]
    by (auto simp: light_cache_def Let_def split_beta seed_bytes_def split: option.splits)
  also have "\<dots> = map (\<lambda>i. seed_bytes e ! i) [unat offset..<unat offset + unat n]"
    using r len by (intro nth_equalityI) auto
  finally show ?thesis .
qed

lemma shared_loop_some:
  assumes "valid_cache st" "unat offset + n < 2 ^ 64"
    and "fst (shared_loop e a offset n out st) = Some bs"
  shows "bs = out @ map (table_byte e) [unat offset..<unat offset + n]"
  using assms
proof (induction n arbitrary: offset out st rule: less_induct)
  case (less n)
  let ?o = "unat offset"
  show ?case
  proof (cases "n = 0")
    case True
    then show ?thesis using less.prems(3) by (subst (asm) shared_loop.simps) simp
  next
    case False
    define span where "span = (if n < 64 - ?o mod 64 then n else 64 - ?o mod 64)"
    have m: "?o mod 64 < 64" by simp
    have span: "0 < span" "span \<le> n" "?o mod 64 + span \<le> 64"
      using False m by (auto simp: span_def)
    have at: "unat (offset mod of_nat kItemBytes) = ?o mod 64"
      by (simp add: kItemBytes_def unat_mod_distrib)
    have ix: "unat (offset div of_nat kItemBytes) = ?o div 64"
      by (simp add: kItemBytes_def unat_div_distrib)
    have ixw: "offset div of_nat kItemBytes = of_nat (?o div 64)"
      unfolding ix [symmetric] by simp
    obtain item st' where d: "dataset_item e (offset div of_nat kItemBytes) a st = (item, st')"
      by (cases "dataset_item e (offset div of_nat kItemBytes) a st")
    have "item \<noteq> None"
    proof
      assume "item = None"
      then have "fst (shared_loop e a offset n out st) = None"
        using False d by (subst shared_loop.simps) (simp add: Let_def)
      then show False using less.prems(3) by simp
    qed
    then have it: "item = Some (item_of e (of_nat (?o div 64)))"
      using dataset_item_answer [OF less.prems(1), of "offset div of_nat kItemBytes" e a] d
      by (cases "offset div of_nat kItemBytes < dag_items (e_full e)")
        (auto simp: ixw dataset_item_def split: if_splits)
    have nx: "unat (offset + of_nat span) = ?o + span"
      using span less.prems(2) by (subst unat_add_exact) simp_all
    have v: "valid_cache st'"
      using valid_dataset_item [OF less.prems(1), of e "offset div of_nat kItemBytes" a] d by simp
    have slice: "take span (drop (?o mod 64) (concat (map (\<lambda>i. le32enc (item_of e (of_nat (?o div 64)) ! i)) [0..<16])))
        = map (\<lambda>j. table_byte e (?o + j)) [0..<span]"
      unfolding item_bytes by (rule table_slice [OF span(3)])
    have next_some: "fst (shared_loop e a (offset + of_nat span) (n - span)
        (out @ map (\<lambda>j. table_byte e (?o + j)) [0..<span]) st') = Some bs"
      using less.prems(3) shared_loop_step [OF False d [unfolded it] at [symmetric] span_def, of out]
      by (simp only: slice)
    have "bs = (out @ map (\<lambda>j. table_byte e (?o + j)) [0..<span]) @
        map (table_byte e) [?o + span..<?o + span + (n - span)]"
      using less.IH [OF _ v _ next_some] span less.prems(2) by (simp add: nx)
    moreover have "map (\<lambda>j. table_byte e (?o + j)) [0..<span] @
        map (table_byte e) [?o + span..<?o + span + (n - span)] = map (table_byte e) [?o..<?o + n]"
      using span(2) by (intro nth_equalityI) (auto simp: nth_append)
    ultimately show ?thesis by simp
  qed
qed

section \<open>The object as the provider of its table\<close>

text \<open>
  Whether memory can be had and what state the process-wide cache is in when a call arrives are
  arbitrary, call by call. The push buffer of \<^verbatim>\<open>shared_state.cpp\<close> holds 128 bytes.
\<close>

definition progpow_source ::
  "(u64 \<Rightarrow> nat \<Rightarrow> nat \<Rightarrow> bool) \<Rightarrow> (u64 \<Rightarrow> nat \<Rightarrow> nat \<Rightarrow> dag_cache) \<Rightarrow> progpow \<Rightarrow> DagPush table_source"
where
  "progpow_source alloc st a =
     \<lparr>ts_shared_state = \<lambda>key offset n.
        fst (shared_state key (of_nat offset) n (alloc key offset n) a (st key offset n)),
      ts_setup_seed = \<lambda>key offset n.
        fst (setup_seed key (of_nat offset) (of_nat n) (alloc key offset n) a (st key offset n)),
      ts_setup_push = \<lambda>key first place n. setup_push a key (of_nat first) (of_nat place) (of_nat n) 128\<rparr>"

abbreviation progpow_key :: "progpow \<Rightarrow> u64 \<Rightarrow> bool" where
  "progpow_key a key \<equiv> unat (e_light (epochs_of_key a key)) \<le> 2 ^ 14"

abbreviation progpow_fits :: "progpow \<Rightarrow> u64 \<Rightarrow> nat \<Rightarrow> nat \<Rightarrow> bool" where
  "progpow_fits a key sb items \<equiv> sb = length (seed_bytes (epochs_of_key a key)) \<and> items \<le> 2 ^ 28"

lemma progpow_host:
  assumes v: "\<And>key offset n. valid_cache (st key offset n)"
  shows "byte_source (ts_shared_state (progpow_source alloc st a)) (\<lambda>key. table_byte (epochs_of_key a key))
    (progpow_key a)"
proof
  fix key offset n bs
  assume some: "ts_shared_state (progpow_source alloc st a) key offset n = Some bs" and r: "offset + n < 2 ^ 64"
  then have o: "unat (of_nat offset :: u64) = offset" by (simp add: unat_of_nat_u64)
  have "fst (shared_loop (epochs_of_key a key) (alloc key offset n) (of_nat offset) n [] (st key offset n)) = Some bs"
    using some by (auto simp: progpow_source_def shared_state_def split: if_splits)
  from shared_loop_some [OF v _ this] r
  show "bs = map (table_byte (epochs_of_key a key)) [offset..<offset + n]" by (simp add: o)
qed

lemma progpow_seed:
  assumes v: "\<And>key offset n. valid_cache (st key offset n)"
  shows "byte_source (ts_setup_seed (progpow_source alloc st a)) (\<lambda>key i. seed_bytes (epochs_of_key a key) ! i)
    (progpow_key a)"
proof
  fix key offset n bs
  assume k: "progpow_key a key" and some: "ts_setup_seed (progpow_source alloc st a) key offset n = Some bs"
    and r: "offset + n < 2 ^ 64"
  then have o: "unat (of_nat offset :: u64) = offset" "unat (of_nat n :: u64) = n" by (simp_all add: unat_of_nat_u64)
  have "fst (light_cache (epochs_of_key a key) (of_nat offset) (of_nat n) (alloc key offset n) (st key offset n)) = Some bs"
    using some by (simp add: progpow_source_def setup_seed_def)
  from light_cache_some [OF v k this]
  show "bs = map (\<lambda>i. seed_bytes (epochs_of_key a key) ! i) [offset..<offset + n]" by (simp add: o)
qed

lemma progpow_provider:
  assumes v: "\<And>key offset n. valid_cache (st key offset n)"
  shows "table_provider (progpow_source alloc st a) (\<lambda>key. table_byte (epochs_of_key a key))
    (\<lambda>key i. seed_bytes (epochs_of_key a key) ! i) (progpow_key a) (dev\<lparr>dr_shader := dag_comp\<rparr>)
    (progpow_fits a) 64"
  unfolding table_provider_def
proof (intro conjI progpow_host progpow_seed v, unfold_locales)
  fix key sb items
  assume k: "progpow_key a key" and f: "progpow_fits a key sb items"
  let ?e = "epochs_of_key a key"
  have seed: "map ((!) (seed_bytes ?e)) [0..<sb] = seed_bytes ?e" using f by (simp add: map_nth)
  show "setup_contract 64 (\<lambda>i. map (table_byte ?e) [i * 64..<i * 64 + 64]) items
      (ts_setup_push (progpow_source alloc st a) key)
      (dr_shader (dev\<lparr>dr_shader := dag_comp\<rparr>) (map ((!) (seed_bytes ?e)) [0..<sb]))"
    unfolding setup_contract_def seed table_item
  proof (intro conjI allI impI)
    fix first place n block and piece :: "u8 list"
    assume p: "ts_setup_push (progpow_source alloc st a) key first place n = Some block" and n: "n \<le> kMaxSlice"
      "first + n \<le> items" "place \<le> first" "(place + n) * 64 \<le> length piece"
    have "first + n \<le> 2 ^ 28" "n < 2 ^ 32" using n f by (simp_all add: kMaxSlice_def)
    moreover have "dp_count block = of_nat n" "dp_first block = of_nat first" "dp_slot block = of_nat place"
      "dp_cache_items block = light_cache_items (e_light ?e)"
      using p by (auto simp: progpow_source_def setup_push_def narrow_of_nat split: if_splits)
    ultimately show "dr_shader (dev\<lparr>dr_shader := dag_comp\<rparr>) (seed_bytes ?e) block piece =
        take (place * 64) piece @ concat (map (\<lambda>i. bytes_of (item_of ?e (of_nat i))) [first..<first + n]) @
        drop ((place + n) * 64) piece"
      using dag_comp_items [OF k, of first n place piece block] n by simp
  qed (simp_all add: length_bytes_of)
qed

interpretation progpow: table_provider "progpow_source alloc (\<lambda>_ _ _. dag_cache_init) a"
  "\<lambda>key. table_byte (epochs_of_key a key)" "\<lambda>key i. seed_bytes (epochs_of_key a key) ! i" "progpow_key a"
  "dev\<lparr>dr_shader := dag_comp\<rparr>" "progpow_fits a" 64
  for alloc a and dev :: "DagPush device_run"
  by (rule progpow_provider) simp

section \<open>Properties\<close>

text \<open>
  One call of \<open>ensure\<close>: the driver it meets, what memory the host can have and the state the
  process-wide cache is in at each question.
\<close>

type_synonym ensure_call = "DagPush device_run \<times> (u64 \<Rightarrow> nat \<Rightarrow> nat \<Rightarrow> bool) \<times> (u64 \<Rightarrow> nat \<Rightarrow> nat \<Rightarrow> dag_cache)"

definition ensure_try :: "progpow \<Rightarrow> u64 \<Rightarrow> ensure_call \<Rightarrow> SharedState \<Rightarrow> (bool \<times> SharedState) option" where
  "ensure_try a key = (\<lambda>(dev, alloc, st). ensure (dev\<lparr>dr_shader := dag_comp\<rparr>) (progpow_source alloc st a) key)"

definition attempt :: "progpow \<Rightarrow> u64 \<Rightarrow> ensure_call \<Rightarrow> SharedState \<Rightarrow> SharedState" where
  "attempt a key x s = (case ensure_try a key x s of Some (_, s') \<Rightarrow> s' | None \<Rightarrow> s)"

definition valid_try :: "ensure_call \<Rightarrow> bool" where
  "valid_try = (\<lambda>(_, _, st). \<forall>key offset n. valid_cache (st key offset n))"

text \<open>One in which nothing is refused.\<close>

definition granted_try :: "ensure_call \<Rightarrow> bool" where
  "granted_try = (\<lambda>(dev, alloc, _). grants dev \<and> (\<forall>key offset n. alloc key offset n))"

lemma ensure_try_exact:
  assumes x: "valid_try x"
    and s: "table_ok (\<lambda>key. table_byte (epochs_of_key a key)) s" and k: "progpow_key a key"
    and fits: "fits_state (progpow_fits a) 64 key s"
  shows "\<exists>b s'. ensure_try a key x s = Some (b, s') \<and> table_ok (\<lambda>key. table_byte (epochs_of_key a key)) s' \<and>
    ss_bytes s' = ss_bytes s \<and> ss_chunk_bytes s' = ss_chunk_bytes s \<and> ss_setup s' = ss_setup s \<and>
    ss_ready s' = b \<and>
    (b \<longrightarrow> concat (ss_chunk s') = map (table_byte (epochs_of_key a key)) [0..<ss_bytes s]) \<and>
    (granted_try x \<and> sp_spirv (ss_setup s) \<noteq> None \<and> (ss_bytes s \<le> ss_chunk_bytes s \<or> 64 dvd ss_chunk_bytes s) \<longrightarrow> b)"
proof -
  obtain dev alloc st where x_eq: "x = (dev, alloc, st)" by (cases x)
  have v: "valid_cache (st key offset n)" for key offset n using x by (simp add: valid_try_def x_eq)
  let ?e = "epochs_of_key a key" and ?source = "progpow_source alloc st a"
  have "served_state ?source 64 key s"
    if g: "\<forall>key offset n. alloc key offset n" and m: "sp_spirv (ss_setup s) \<noteq> None"
      and c: "ss_bytes s \<le> ss_chunk_bytes s \<or> 64 dvd ss_chunk_bytes s"
  proof -
    have sb: "unat (sp_seed_bytes (ss_setup s)) = unat (light_cache_bytes (e_light ?e))"
      using fits m length_seed_bytes [OF k] by (simp add: fits_state_def)
    have "ts_setup_seed ?source key off n \<noteq> None" if "off + n \<le> unat (sp_seed_bytes (ss_setup s))" for off n
    proof -
      have l: "off + n \<le> unat (light_cache_bytes (e_light ?e))" using that sb by simp
      then have "off + n < 18446744073709551616"
        using unat_u64_less [of "light_cache_bytes (e_light ?e)"] by linarith
      then have u: "unat (of_nat off :: u64) = off" "unat (of_nat n :: u64) = n"
        by (simp_all add: unat_of_nat_u64)
      have "\<not> light_cache_bytes (e_light ?e) < of_nat off" using l by (simp add: word_less_nat_alt u)
      moreover from this have "unat (light_cache_bytes (e_light ?e) - of_nat off) = unat (light_cache_bytes (e_light ?e)) - off"
        by (subst unat_sub_exact) (simp_all add: u)
      then have "\<not> light_cache_bytes (e_light ?e) - of_nat off < of_nat n"
        using l by (simp add: word_less_nat_alt u)
      moreover have "fst (cache_for ?e True (st key off n)) \<noteq> None" by (rule dag.request_served [OF v]) simp
      ultimately show ?thesis
        using g by (auto simp: progpow_source_def setup_seed_def light_cache_def Let_def split_beta split: option.splits)
    qed
    then show ?thesis using m c by (simp add: served_state_def progpow_source_def setup_push_def)
  qed
  then show ?thesis
    using table_provider.ensure_exact [OF progpow_provider [where st = st and alloc = alloc and dev = dev, OF v] s k fits]
    by (auto simp: ensure_try_def granted_try_def x_eq grants_def)
qed

lemma attempts_ok:
  assumes "\<forall>x \<in> set past. valid_try x"
    and "table_ok (\<lambda>key. table_byte (epochs_of_key a key)) s" and k: "progpow_key a key"
    and "fits_state (progpow_fits a) 64 key s"
  shows "table_ok (\<lambda>key. table_byte (epochs_of_key a key)) (fold (attempt a key) past s) \<and>
    fits_state (progpow_fits a) 64 key (fold (attempt a key) past s) \<and>
    ss_bytes (fold (attempt a key) past s) = ss_bytes s \<and>
    ss_chunk_bytes (fold (attempt a key) past s) = ss_chunk_bytes s \<and>
    ss_setup (fold (attempt a key) past s) = ss_setup s"
  using assms(1,2,4)
proof (induction past arbitrary: s)
  case (Cons x past)
  obtain b t where t: "ensure_try a key x s = Some (b, t)"
    "table_ok (\<lambda>key. table_byte (epochs_of_key a key)) t" "ss_bytes t = ss_bytes s"
    "ss_chunk_bytes t = ss_chunk_bytes s" "ss_setup t = ss_setup s"
    using ensure_try_exact [OF _ Cons.prems(2) k Cons.prems(3), of x] Cons.prems(1) by auto
  moreover have "fits_state (progpow_fits a) 64 key t"
    using Cons.prems(3) t(3,5) by (simp add: fits_state_def)
  ultimately show ?case using Cons.IH [of t] Cons.prems(1) by (simp add: attempt_def)
qed simp

lemma dataset_items_large:
  assumes "0 \<le> e"
  shows "11 \<le> calculate_full_dataset_num_items e"
proof -
  have "is_odd_prime 11" by (simp add: is_odd_prime_def odd_prime_from.simps)
  then have "prime_int 11" using is_odd_prime_iff [of 11] by simp
  then show ?thesis
    using find_largest_prime_spec(3) [of "8388608 + e * 65536" 11] assms
    by (simp add: calculate_full_dataset_num_items_def full_dataset_init_size_def full_dataset_growth_def)
qed

lemma fork_kernel_fits:
  assumes p: "p \<in> set kForks" "epoch \<le> max_epoch p" "length memory = kL1Words"
    and a: "a = make_progpow p epoch memory"
    and spec: "spec_for shaders declared d kind a = Some (spec, a')"
    and pass: "sp_spirv (k_setup spec) \<noteq> None"
  shows "progpow_key a (state_key a)" "unat (k_shared_bytes spec) < 2 ^ 63" "epochs_of_key a (state_key a) = pp_epochs a"
    "ss_setup s = k_setup spec \<Longrightarrow> ss_bytes s = unat (k_shared_bytes spec) \<Longrightarrow>
      fits_state (progpow_fits a) 64 (state_key a) s"
    "1024 \<le> unat (k_shared_bytes spec)" "unat (k_shared_bytes spec) \<le> 2 ^ 34"
proof -
  have ok: "progpow_ok a" and host: "\<not> pp_host_dag a" and e: "pp_epochs a = epochs_for p epoch"
    using wf_forks p progpow_ok_new(1) [of p memory epoch] by (auto simp: a make_progpow_def ProgPow_def Let_def)
  show key: "epochs_of_key a (state_key a) = pp_epochs a" by (rule key_of_state [OF ok])
  note ex = epochs_exact [OF p(1,2)]
  have small: "unat (e_light (pp_epochs a)) \<le> 2 ^ 14" "unat (e_full (pp_epochs a)) \<le> 2 ^ 14"
    using ex(3,4) by (simp_all add: e)
  show "progpow_key a (state_key a)" using small(1) by (simp add: key)
  note f = setup_pass_fields [OF ok host spec pass]
  note t = table_bytes_exact [OF small(2)]
  let ?n = "calculate_full_dataset_num_items (int (unat (e_full (pp_epochs a))))"
  have "?n \<le> 2 ^ 23 + int (unat (e_full (pp_epochs a))) * 2 ^ 16" by (rule num_items_bounds) simp
  moreover have "unat (e_full (pp_epochs a)) \<le> 1600" using ex(3) by (simp only: e)
  then have "int (unat (e_full (pp_epochs a))) \<le> 1600" by linarith
  ultimately have "?n \<le> 8388608 + 1600 * 65536" by simp
  then have "int (unat (dag_items (e_full (pp_epochs a)))) \<le> 268435456"
    using dag_items_exact(1) [OF small(2)] by simp
  then have items: "unat (table_lines (pp_epochs a)) * 4 \<le> 268435456" using t(1) by linarith
  then show "unat (k_shared_bytes spec) < 2 ^ 63" "unat (k_shared_bytes spec) \<le> 2 ^ 34" using t(3) by (simp_all add: f)
  have "11 \<le> ?n" by (rule dataset_items_large) simp
  then have "16 \<le> unat (dag_items (e_full (pp_epochs a)))" using dag_items_exact(1) [OF small(2)] by linarith
  then have "4 \<le> unat (table_lines (pp_epochs a))" by (simp add: table_lines_def progpow_numbers unat_div_distrib)
  then show "1024 \<le> unat (k_shared_bytes spec)" using t(3) by (simp add: f)
  have "unat (light_cache_bytes (e_light (pp_epochs a))) = length (seed_bytes (pp_epochs a))"
    by (rule length_seed_bytes [OF small(1), symmetric])
  moreover have "0 < unat (light_cache_bytes (e_light (pp_epochs a)))"
    using length_seed_bytes [OF small(1)] built_cache_shape [OF small(1)]
    by (simp add: light_cache_bytes_def kItemBytes_def unat_mult_exact unsigned_ucast_eq take_bit_nat_eq_self)
  ultimately show "fits_state (progpow_fits a) 64 (state_key a) s"
    if "ss_setup s = k_setup spec" "ss_bytes s = unat (k_shared_bytes spec)"
    using items t(2,3) by (auto simp: fits_state_def that f key)
qed

text \<open>
  Claim C1. A table a device reports ready is the dataset: for every fork up to the largest epoch
  it declares, cutting the table up and building it return whatever the driver and the allocator
  do, any number of failed or repeated attempts included, and where the last one reports the
  table ready, its pieces hold, byte for byte, the items the host's own hash reads. A table whose
  plan is accepted and whose memory is granted is there, and an attempt in which nothing is
  refused does report it ready, whatever was tried before. It rests on the setup shader as it is
  compiled, with lanes of two words, over the light cache the object uploads.
\<close>

theorem table_ready_exact:
  assumes "p \<in> set kForks" "epoch \<le> max_epoch p" "length memory = kL1Words"
    and a: "a = make_progpow p epoch memory"
    and spec: "spec_for shaders declared d kind a = Some (spec, a')"
    and pass: "sp_spirv (k_setup spec) \<noteq> None"
    and past: "\<forall>x \<in> set past. valid_try x" and x: "valid_try x"
  shows "\<exists>r. create_state room junk d spec = Some r \<and>
    ((\<forall>i. room i) \<and> (\<forall>e. plan d spec (k_shared_bytes spec) \<noteq> Inl e) \<longrightarrow> r \<noteq> None) \<and>
    (\<forall>s. r = Some s \<longrightarrow> (\<exists>b s'.
       ensure_try a (state_key a) x (fold (attempt a (state_key a)) past s) = Some (b, s') \<and> ss_ready s' = b \<and>
       (b \<longrightarrow> concat (ss_chunk s') = map (table_byte (pp_epochs a)) [0..<unat (k_shared_bytes spec)]) \<and>
       (granted_try x \<longrightarrow> b)))"
proof -
  note k = fork_kernel_fits [OF assms(1-6)]
  let ?table = "\<lambda>key. table_byte (epochs_of_key a key)"
  obtain r where r: "create_state room junk d spec = Some r"
    "\<And>s. r = Some s \<Longrightarrow> table_ok ?table s \<and> ss_setup s = k_setup spec \<and>
       ss_bytes s = unat (k_shared_bytes spec) \<and> (ss_bytes s \<le> ss_chunk_bytes s \<or> 64 dvd ss_chunk_bytes s)"
    "(\<forall>i. room i) \<and> (\<forall>e. plan d spec (k_shared_bytes spec) \<noteq> Inl e) \<longrightarrow> r \<noteq> None"
    using create_state_spec [OF k(2)] k(5) by blast
  have "\<exists>b s'. ensure_try a (state_key a) x (fold (attempt a (state_key a)) past s) = Some (b, s') \<and> ss_ready s' = b \<and>
       (b \<longrightarrow> concat (ss_chunk s') = map (table_byte (pp_epochs a)) [0..<unat (k_shared_bytes spec)]) \<and>
       (granted_try x \<longrightarrow> b)"
    if "r = Some s" for s
  proof -
    note s = r(2) [OF that]
    have "fits_state (progpow_fits a) 64 (state_key a) s" using s by (intro k(4)) blast+
    note t = attempts_ok [OF past s [THEN conjunct1] k(1) this]
    show ?thesis
      using ensure_try_exact [OF x t [THEN conjunct1] k(1) t [THEN conjunct2, THEN conjunct1]] t s pass k(3) by metis
  qed
  with r(1,3) show ?thesis by blast
qed

text \<open>The table of a fork's first epoch on a desktop card: one piece.\<close>

lemma kawpow_plan:
  assumes spec: "spec_for shaders declared desktop_device kSpecialized (make_progpow kKawpow 0 (replicate kL1Words 0)) = Some (spec, a')"
    and pass: "sp_spirv (k_setup spec) \<noteq> None"
  shows "plan desktop_device spec (k_shared_bytes spec) = Inr (k_shared_bytes spec, 1)"
proof -
  let ?a = "make_progpow kKawpow 0 (replicate kL1Words 0)" and ?b = "k_shared_bytes spec"
  have fork: "kKawpow \<in> set kForks" "0 \<le> max_epoch kKawpow" "length (replicate kL1Words (0 :: u32)) = kL1Words"
    by (simp_all add: kForks_def)
  have host: "\<not> pp_host_dag ?a" by (simp add: make_progpow_def) (simp add: ProgPow_def Let_def)
  have e: "pp_epochs ?a = epochs_for kKawpow 0" by (simp add: make_progpow_def) (simp add: ProgPow_def Let_def)
  note k = fork_kernel_fits [OF fork refl spec pass]
  have ok: "progpow_ok ?a"
    using wf_forks fork(1) progpow_ok_new(1) [of kKawpow "replicate kL1Words 0" 0] by (auto simp: make_progpow_def)
  have full: "e_full (epochs_for kKawpow 0) = 0" by (simp add: epochs_for_def kKawpow_def Let_def)
  have "calculate_full_dataset_num_items 0 \<le> 8388608" using num_items_bounds(4) [of 0] by simp
  then have "int (unat (dag_items 0)) \<le> 16777216" using dag_items_exact(1) [of 0] by simp
  then have "unat (dag_items 0) \<le> 16777216" by (simp only: of_nat_le_iff [of _ 16777216, where 'a = int, symmetric] of_nat_numeral)
  then have "unat (table_lines (epochs_for kKawpow 0)) \<le> 4194304"
    by (simp add: table_lines_def progpow_numbers unat_div_distrib full)
  moreover have t: "?b = table_lines (epochs_for kKawpow 0) * 256"
    using setup_pass_fields(4) [OF ok host spec pass] e by simp
  ultimately have b: "unat ?b = unat (table_lines (epochs_for kKawpow 0)) * 256" "unat ?b \<le> 1073741824"
    by (simp_all add: unat_mult_exact)
  have "unat (?b mod 16) = 0" by (simp add: unat_mod_distrib b(1) mod_mult_right_eq)
  then have m: "?b mod 16 = 0" by (simp add: unat_eq_0)
  have nz: "?b \<noteq> 0" using k(5) by auto
  have most: "plan_most desktop_device ?b = ?b"
    using b(2) by (simp add: plan_most_def desktop_device_def word_less_nat_alt)
  have chunks: "k_shared_chunk_bytes spec = 0" "k_shared_chunks spec = of_nat kMaxSharedChunks"
    using spec host by (auto simp: spec_for_def spec_table_def Let_def kernel_spec_default_def split: option.splits if_splits)
  have c: "plan_chunk desktop_device spec ?b = ?b" by (simp add: plan_chunk_def most chunks(1))
  have "unat (?b + ?b - 1) = unat ?b + unat ?b - 1"
  proof -
    have "unat (?b + ?b) = unat ?b + unat ?b" using b(2) by (intro unat_add_exact) simp
    then show ?thesis using k(5) by (subst unat_sub_exact) (simp_all add: word_le_nat_alt del: mult_2 mult_2_right)
  qed
  then have "unat ((?b + ?b - 1) div ?b) = 1"
    using k(5) by (simp add: unat_div_distrib div_nat_eqI)
  then have one: "(?b + ?b - 1) div ?b = 1" by (simp add: word_unat_eq_iff)
  show ?thesis
    unfolding plan_def most c Let_def one by (simp add: nz m chunks(2) kMaxSharedChunks_def)
qed

text \<open>
  Memory for the table, a first attempt to which the driver refuses even the seed's buffer, and a
  second to which nothing is refused.
\<close>

definition refusing_device :: "DagPush device_run" where
  "refusing_device = \<lparr>dr_seed_alloc = False, dr_staged = False, dr_copied = \<lambda>_. False, dr_pipeline = False,
     dr_ran = \<lambda>_. False, dr_seconds = \<lambda>_. 0, dr_junk = \<lambda>_. 0, dr_shader = dag_comp\<rparr>"

definition granting_device :: "DagPush device_run" where
  "granting_device = \<lparr>dr_seed_alloc = True, dr_staged = True, dr_copied = \<lambda>_. True, dr_pipeline = True,
     dr_ran = \<lambda>_. True, dr_seconds = \<lambda>_. 1 / 10, dr_junk = \<lambda>_. 0xaa, dr_shader = dag_comp\<rparr>"

theorem table_ready_exact_witness:
  "\<exists>spec a' s s'. spec_for (\<lambda>_. Some \<lparr>m_words = [7], m_storage_buffers = 0, m_push_constant_bytes = 0,
      m_local_size_x = 0\<rparr>) 0 desktop_device kSpecialized (make_progpow kKawpow 0 (replicate kL1Words 0))
        = Some (spec, a') \<and>
    create_state (\<lambda>_. True) (\<lambda>_. 0) desktop_device spec = Some (Some s) \<and>
    ensure_try (make_progpow kKawpow 0 (replicate kL1Words 0)) (state_key (make_progpow kKawpow 0 (replicate kL1Words 0)))
      (granting_device, \<lambda>_ _ _. True, \<lambda>_ _ _. dag_cache_init)
      (attempt (make_progpow kKawpow 0 (replicate kL1Words 0)) (state_key (make_progpow kKawpow 0 (replicate kL1Words 0)))
        (refusing_device, \<lambda>_ _ _. False, \<lambda>_ _ _. dag_cache_init) s) = Some (True, s') \<and>
    ss_ready s' \<and> 1024 \<le> length (concat (ss_chunk s')) \<and>
    concat (ss_chunk s') = map (table_byte (pp_epochs (make_progpow kKawpow 0 (replicate kL1Words 0))))
      [0..<unat (k_shared_bytes spec)]"
proof -
  let ?m = "\<lambda>_ :: string. Some \<lparr>m_words = [7 :: u32], m_storage_buffers = 0, m_push_constant_bytes = 0,
      m_local_size_x = 0\<rparr>" and ?a = "make_progpow kKawpow 0 (replicate kL1Words 0)"
  let ?no = "(refusing_device, \<lambda>_ _ _. False, \<lambda>_ _ _. dag_cache_init) :: ensure_call"
    and ?yes = "(granting_device, \<lambda>_ _ _. True, \<lambda>_ _ _. dag_cache_init) :: ensure_call"
  obtain spec a' where s: "spec_for ?m 0 desktop_device kSpecialized ?a = Some (spec, a')"
    using spec_for_returns by blast
  have "\<not> pp_host_dag ?a" by (simp add: make_progpow_def) (simp add: ProgPow_def Let_def)
  then have p: "sp_spirv (k_setup spec) \<noteq> None"
    using s by (auto simp: spec_for_def Let_def split: option.splits)
  have fork: "kKawpow \<in> set kForks" "0 \<le> max_epoch kKawpow" "length (replicate kL1Words (0 :: u32)) = kL1Words"
    by (simp_all add: kForks_def)
  have v: "\<forall>x \<in> set [?no]. valid_try x" "valid_try ?yes" by (simp_all add: valid_try_def)
  have g: "granted_try ?yes" by (simp add: granted_try_def grants_def granting_device_def)
  note big = fork_kernel_fits(5) [OF fork refl s p]
  obtain r where "create_state (\<lambda>_. True) (\<lambda>_. 0) desktop_device spec = Some r" "r \<noteq> None"
    "\<forall>t. r = Some t \<longrightarrow> (\<exists>b s'. ensure_try ?a (state_key ?a) ?yes (fold (attempt ?a (state_key ?a)) [?no] t) = Some (b, s') \<and>
       ss_ready s' = b \<and>
       (b \<longrightarrow> concat (ss_chunk s') = map (table_byte (pp_epochs ?a)) [0..<unat (k_shared_bytes spec)]) \<and>
       (granted_try ?yes \<longrightarrow> b))"
    using table_ready_exact [OF fork refl s p v, of "\<lambda>_. True" "\<lambda>_. 0"] kawpow_plan [OF s p] by auto
  then show ?thesis using s g big by fastforce
qed

text \<open>
  Claim C27. The setup shader computes the dataset: run over the bytes of the light cache the
  object uploads, one invocation's sixteen words are the item the host's library computes for
  that index, for every index of every fork's dataset.
\<close>

theorem shader_item_exact:
  assumes "p \<in> set kForks" "epoch \<le> max_epoch p" "e = epochs_for p epoch" "k < unat (dag_items (e_full e))"
    and "valid_cache st" "valid_cache st'"
  shows "\<exists>seed. fst (light_cache e 0 (light_cache_bytes (e_light e)) True st) = Some seed \<and>
    fst (dataset_item e (of_nat k) True st') =
      Some (dag_invocation (\<lambda>j. le32dec (take 4 (drop (j * 4) seed))) (light_cache_items (e_light e)) (of_nat k))"
proof -
  have e: "unat (e_light e) \<le> 2 ^ 14" "unat (e_full e) \<le> 2 ^ 14"
    using epochs_exact(3,4) [OF assms(1,2)] assms(3) by simp_all
  have "calculate_full_dataset_num_items (int (unat (e_full e))) < 2147483648"
    using dag_items_exact(2) [OF e(2)] by simp
  then have "int (unat (dag_items (e_full e))) < 4294967296" using dag_items_exact(1) [OF e(2)] by linarith
  then have "unat (dag_items (e_full e)) < 4294967296" by linarith
  then have k: "k < 2 ^ 32" using assms(4) by simp
  then have "unat (of_nat k :: u64) = k" by (simp add: unat_of_nat_u64)
  then have "of_nat k < dag_items (e_full e)" using assms(4) by (simp add: word_less_nat_alt)
  then have item: "fst (dataset_item e (of_nat k) True st') = Some (item_of e (of_nat k))"
    using dataset_item_served [OF assms(6)] by simp
  let ?t = "light_cache_bytes (e_light e)"
  have served: "fst (cache_for e True st) \<noteq> None" by (rule dag.request_served [OF assms(5)]) simp
  then have "fst (light_cache e 0 ?t True st) \<noteq> None"
    by (auto simp: light_cache_def Let_def split_beta split: option.splits)
  then obtain seed where seed: "fst (light_cache e 0 ?t True st) = Some seed" by blast
  have "seed = map ((!) (seed_bytes e)) [0..<length (seed_bytes e)]"
    using light_cache_some [OF assms(5) e(1) seed] length_seed_bytes [OF e(1)] by simp
  then have "seed = seed_bytes e" by (simp add: map_nth)
  then show ?thesis using item seed dag_invocation_item [OF e(1) k] by auto
qed

theorem shader_item_exact_witness:
  "\<exists>seed. fst (light_cache (epochs_for kKawpow 0) 0 (light_cache_bytes (e_light (epochs_for kKawpow 0))) True dag_cache_init) = Some seed \<and>
    fst (dataset_item (epochs_for kKawpow 0) 0 True dag_cache_init) =
      Some (dag_invocation (\<lambda>j. le32dec (take 4 (drop (j * 4) seed)))
        (light_cache_items (e_light (epochs_for kKawpow 0))) 0)"
proof -
  have "kKawpow \<in> set kForks" "0 \<le> max_epoch kKawpow" by (simp_all add: kForks_def)
  moreover have "unat (e_full (epochs_for kKawpow 0)) \<le> 2 ^ 14"
    by (simp add: epochs_for_def kKawpow_def Let_def)
  note b = dag_items_exact(1) [OF this]
  have "2 \<le> calculate_full_dataset_num_items (int (unat (e_full (epochs_for kKawpow 0))))"
    by (rule num_items_bounds) simp
  then have "0 < unat (dag_items (e_full (epochs_for kKawpow 0)))" using b by linarith
  ultimately show ?thesis
    using shader_item_exact [OF _ _ refl _ valid_cache_init valid_cache_init, of kKawpow 0 0] by simp
qed

end
