(* ===== verification/Kernel_Fit.thy ===== *)
theory Kernel_Fit
  imports Backend Complex_Main
begin

text \<open>
  The shape a kernel runs in: \<^verbatim>\<open>vulkan_kernel_fit\<close>, the two memory budgets and
  \<^verbatim>\<open>choose_local_size\<close> of \<^verbatim>\<open>backends/vulkan/vulkan_kernel.{h,cpp}\<close>, and the scan of a module for a
  specialization constant of \<^verbatim>\<open>vulkan_pipeline.cpp\<close>. A share of the memory is a rational where
  the source multiplies doubles, so a budget here is the exact quotient rounded down. The text
  written where a kernel does not fit is the constructor of \<open>fit_error\<close>.
\<close>

section \<open>Constants and options\<close>

definition kMinBatch :: u32 where "kMinBatch = 2 ^ 12"
definition kMaxBatch :: u32 where "kMaxBatch = 2 ^ 28"
definition kDefaultDepth :: u32 where "kDefaultDepth = 3"
definition kNoncesConstantId :: u32 where "kNoncesConstantId = 5"
definition kMaxNoncesPerInvocation :: u32 where "kMaxNoncesPerInvocation = 256"

lemmas kernel_numbers = kMinBatch_def kMaxBatch_def kDefaultDepth_def kNoncesConstantId_def
  kMaxNoncesPerInvocation_def

text \<open>The process-wide options the fit reads, zero where they were not given.\<close>

record fit_options =
  opt_queue_depth :: int
  opt_workgroup :: int
  opt_nonces_per_invocation :: int

section \<open>A module's specialization constants\<close>

function declares_from :: "u32 list \<Rightarrow> u32 \<Rightarrow> nat \<Rightarrow> bool" where
  "declares_from words ident i =
     (if i < length words then
        let len = unat (drop_bit 16 (words ! i));
            opcode = words ! i AND 0xffff
        in if len = 0 \<or> length words < i + len then False
           else if opcode = 71 \<and> 4 \<le> len \<and> words ! (i + 2) = 1 \<and> words ! (i + 3) = ident then True
           else declares_from words ident (i + len)
      else False)"
  by pat_completeness auto
termination
  by (relation "measure (\<lambda>(words, _, i). length words - i)") auto

declare declares_from.simps [simp del]

definition spirv_declares_constant :: "u32 list option \<Rightarrow> u32 \<Rightarrow> bool" where
  "spirv_declares_constant spirv ident =
     (case spirv of None \<Rightarrow> False
      | Some words \<Rightarrow> if length words < 5 then False else declares_from words ident 5)"

section \<open>Budgets\<close>

definition vulkan_table_budget :: "DeviceInfo \<Rightarrow> u64" where
  "vulkan_table_budget info =
     (let share = (if d_kind info = Discrete then 9 / 10 else 1 / 4 :: rat)
      in of_nat (nat \<lfloor>of_nat (unat (d_memory info)) * share\<rfloor>))"

definition vulkan_scratch_budget :: "DeviceInfo \<Rightarrow> u64" where
  "vulkan_scratch_budget info =
     (let soft = (d_kind info = Cpu);
          shares_host_ram = (d_kind info \<noteq> Discrete);
          share = (if soft then 15 / 100 else if shares_host_ram then 1 / 4 else 3 / 4 :: rat);
          usable = of_nat (nat \<lfloor>of_nat (unat (d_memory info)) * share\<rfloor>);
          ceiling = (if soft then push_bit 20 256 else if shares_host_ram then push_bit 30 1 else NOT 0)
      in if usable < ceiling then usable else ceiling)"

section \<open>The shape\<close>

definition choose_local_size :: "DeviceInfo \<Rightarrow> u32" where
  "choose_local_size info =
     (let local = 256;
          local = (if d_max_workgroup_size info \<noteq> 0 \<and> d_max_workgroup_size info < local
                   then d_max_workgroup_size info else local);
          local = (if d_max_invocations info \<noteq> 0 \<and> d_max_invocations info < local
                   then d_max_invocations info else local);
          local = (if 1 < d_subgroup_size info \<and> d_subgroup_size info < local
                   then let whole = local - local mod d_subgroup_size info
                        in if whole \<noteq> 0 then whole else local
                   else local)
      in if local \<noteq> 0 then local else 1)"

record KernelFit =
  fit_local_size_x :: u32
  fit_lanes :: u32
  fit_nonces :: u32
  fit_per_group :: u32
  fit_depth :: u32
  fit_max_batch :: u32
  fit_per_nonce :: u64

datatype fit_error =
    LanesDoNotFit u32 u32
  | NoWholeSubgroups u32 u32
  | TooManyNonces u32 u32
  | MemoryUnknown
  | NoRoomForScratch u64
  | LessThanAWorkgroup u64 u32

text \<open>A width rounded down to whole steps, and one step where that leaves nothing.\<close>

definition whole_steps :: "u32 \<Rightarrow> u32 \<Rightarrow> u32" where
  "whole_steps local step = (let whole = local - local mod step in if whole \<noteq> 0 then whole else step)"

definition fit_depth_of :: "fit_options \<Rightarrow> KernelSpec \<Rightarrow> u32" where
  "fit_depth_of opts spec =
     (if k_queue_depth spec \<noteq> 0 then k_queue_depth spec
      else if 0 < opt_queue_depth opts then of_int (opt_queue_depth opts) else kDefaultDepth)"

definition fit_width_of :: "fit_options \<Rightarrow> DeviceInfo \<Rightarrow> KernelSpec \<Rightarrow> u32" where
  "fit_width_of opts info spec =
     (if k_local_size_x spec \<noteq> 0 then k_local_size_x spec
      else if 0 < opt_workgroup opts then of_int (opt_workgroup opts) else choose_local_size info)"

definition fit_width :: "fit_options \<Rightarrow> DeviceInfo \<Rightarrow> KernelSpec \<Rightarrow> fit_error + u32 \<times> u32" where
  "fit_width opts info spec =
     (let local = fit_width_of opts info spec;
          lanes = (if k_lanes spec \<noteq> 0 then k_lanes spec else 1)
      in if d_max_invocations info \<noteq> 0 \<and> d_max_invocations info < lanes
         then Inl (LanesDoNotFit lanes (d_max_invocations info))
         else
           let local = (if 1 < lanes then whole_steps local lanes else local)
           in if k_full_subgroups spec then
                let step = of_nat (lcm (unat lanes) (unat (d_subgroup_size info)))
                in if step = 0 \<or> (d_max_invocations info \<noteq> 0 \<and> d_max_invocations info < step)
                   then Inl (NoWholeSubgroups (d_subgroup_size info) (d_max_invocations info))
                   else Inr (whole_steps local step, lanes)
              else Inr (local, lanes))"

definition fit_nonces_of :: "fit_options \<Rightarrow> KernelSpec \<Rightarrow> u32 \<Rightarrow> fit_error + u32" where
  "fit_nonces_of opts spec lanes =
     (let most = (if lanes = 1 \<and> spirv_declares_constant (k_spirv spec) kNoncesConstantId
                  then kMaxNoncesPerInvocation else 1)
      in if most < k_nonces_per_invocation spec then Inl (TooManyNonces (k_nonces_per_invocation spec) most)
         else Inr (if k_nonces_per_invocation spec \<noteq> 0 then k_nonces_per_invocation spec
                   else if 0 < opt_nonces_per_invocation opts
                        then min (of_int (opt_nonces_per_invocation opts)) most else 1))"

definition fit_scratch :: "DeviceInfo \<Rightarrow> KernelSpec \<Rightarrow> u64 \<Rightarrow> KernelFit \<Rightarrow> fit_error + KernelFit" where
  "fit_scratch info spec shared_bytes fit =
     (if d_memory info = 0 then Inl MemoryUnknown
      else
        let budget = vulkan_scratch_budget info
        in if budget \<le> shared_bytes then Inl (NoRoomForScratch shared_bytes)
           else
             let left = budget - shared_bytes;
                 left = left div (if k_concurrent_kernels spec \<noteq> 0 then ucast (k_concurrent_kernels spec) else 1);
                 per_nonce = k_scratch_bytes spec * ucast (fit_depth fit) * ucast (fit_lanes fit);
                 fits = left div (if per_nonce \<noteq> 0 then per_nonce else 1);
                 fits = (if ucast kMaxBatch < fits then ucast kMaxBatch else fits)
             in if fits < ucast (fit_per_group fit) then Inl (LessThanAWorkgroup fits (fit_per_group fit))
                else Inr (fit\<lparr>fit_per_nonce := per_nonce,
                       fit_max_batch := ucast (fits div ucast (fit_per_group fit)) * fit_per_group fit\<rparr>))"

definition vulkan_kernel_fit ::
  "fit_options \<Rightarrow> DeviceInfo \<Rightarrow> KernelSpec \<Rightarrow> u64 \<Rightarrow> fit_error + KernelFit" where
  "vulkan_kernel_fit opts info spec shared_bytes =
     (case fit_width opts info spec of Inl e \<Rightarrow> Inl e
      | Inr (local, lanes) \<Rightarrow>
          case fit_nonces_of opts spec lanes of Inl e \<Rightarrow> Inl e
          | Inr nonces \<Rightarrow>
              let per_group = local div lanes * nonces;
                  per_group = (if per_group \<noteq> 0 then per_group else 1);
                  fit = \<lparr>fit_local_size_x = local, fit_lanes = lanes, fit_nonces = nonces,
                         fit_per_group = per_group, fit_depth = fit_depth_of opts spec,
                         fit_max_batch = kMaxBatch, fit_per_nonce = 0\<rparr>
              in if k_scratch_bytes spec = 0 then Inr fit
                 else fit_scratch info spec shared_bytes fit)"

section \<open>Lemmas: the scan\<close>

text \<open>
  What a module's instruction stream declares, read as a list of instructions: each is as long as
  the upper half of its first word says, and the stream ends at the first that is empty or runs
  past the end.
\<close>

function instructions :: "u32 list \<Rightarrow> u32 list list" where
  "instructions ws =
     (if ws \<noteq> [] \<and> drop_bit 16 (hd ws) \<noteq> 0 \<and> unat (drop_bit 16 (hd ws)) \<le> length ws
      then take (unat (drop_bit 16 (hd ws))) ws # instructions (drop (unat (drop_bit 16 (hd ws))) ws)
      else [])"
  by pat_completeness auto
termination
  by (relation "measure length") (auto simp: unat_gt_0)

declare instructions.simps [simp del]

definition decorates :: "u32 \<Rightarrow> u32 list \<Rightarrow> bool" where
  "decorates ident op \<longleftrightarrow> 4 \<le> length op \<and> op ! 0 AND 0xffff = 71 \<and> op ! 2 = 1 \<and> op ! 3 = ident"

lemma declares_from_iff:
  assumes "i \<le> length words"
  shows "declares_from words ident i \<longleftrightarrow> (\<exists>op \<in> set (instructions (drop i words)). decorates ident op)"
  using assms
proof (induction words ident i rule: declares_from.induct)
  case (1 words ident i)
  let ?len = "unat (drop_bit 16 (words ! i))"
  show ?case
  proof (cases "i < length words \<and> ?len \<noteq> 0 \<and> i + ?len \<le> length words")
    case False
    then have "\<not> declares_from words ident i"
      by (subst declares_from.simps) (auto simp: Let_def)
    moreover have "instructions (drop i words) = []"
      using False "1.prems" by (subst instructions.simps) (auto simp: hd_drop_conv_nth unat_eq_zero)
    ultimately show ?thesis by simp
  next
    case True
    let ?op = "take ?len (drop i words)"
    have hd: "hd (drop i words) = words ! i" using True by (simp add: hd_drop_conv_nth)
    have ins: "instructions (drop i words) = ?op # instructions (drop (i + ?len) words)"
      using True by (subst instructions.simps) (auto simp: hd add.commute)
    have dec: "decorates ident ?op \<longleftrightarrow>
        4 \<le> ?len \<and> words ! i AND 0xffff = 71 \<and> words ! (i + 2) = 1 \<and> words ! (i + 3) = ident"
      using True by (auto simp: decorates_def)
    have eq: "declares_from words ident i \<longleftrightarrow> decorates ident ?op \<or> declares_from words ident (i + ?len)"
      using True by (subst declares_from.simps) (auto simp: Let_def dec)
    show ?thesis
    proof (cases "decorates ident ?op")
      case False
      have "declares_from words ident (i + ?len) \<longleftrightarrow>
          (\<exists>op \<in> set (instructions (drop (i + ?len) words)). decorates ident op)"
        by (rule "1.IH") (use True False dec in auto)
      then show ?thesis using eq ins by simp
    qed (use eq ins in simp)
  qed
qed

section \<open>Lemmas: the shape\<close>

lemma whole_steps_spec:
  assumes "step \<noteq> 0"
  shows "unat step dvd unat (whole_steps local step)" "whole_steps local step \<noteq> 0"
    "unat (whole_steps local step) \<le> max (unat local) (unat step)"
proof -
  have le: "local mod step \<le> local" by (simp add: word_le_nat_alt unat_mod_distrib)
  then have u: "unat (local - local mod step) = unat local - unat local mod unat step"
    by (subst unat_sub_exact) (simp_all add: unat_mod_distrib)
  have "unat step dvd unat local - unat local mod unat step"
    by (simp add: dvd_minus_mod)
  then show "unat step dvd unat (whole_steps local step)" by (simp add: whole_steps_def Let_def u)
  show "whole_steps local step \<noteq> 0" using assms by (simp add: whole_steps_def Let_def)
  show "unat (whole_steps local step) \<le> max (unat local) (unat step)"
    by (auto simp: whole_steps_def Let_def u)
qed

lemma lcm_le_mult: "lcm (a :: nat) b \<le> a * b"
proof (cases "a * b = 0")
  case False
  have "lcm a b dvd a * b" by (rule lcm_least) simp_all
  then show ?thesis using False by (intro dvd_imp_le) simp_all
qed auto

lemma fit_width_spec:
  assumes "fit_width opts info spec = Inr (local, lanes)"
    and "unat (k_lanes spec) * unat (d_subgroup_size info) < 2 ^ 32"
  shows "lanes = (if k_lanes spec \<noteq> 0 then k_lanes spec else 1)"
    "d_max_invocations info \<noteq> 0 \<Longrightarrow> lanes \<le> d_max_invocations info"
    "unat lanes dvd unat local"
    "k_full_subgroups spec \<Longrightarrow> unat (d_subgroup_size info) dvd unat local \<and> d_subgroup_size info \<noteq> 0"
proof -
  show l: "lanes = (if k_lanes spec \<noteq> 0 then k_lanes spec else 1)"
    using assms(1) by (auto simp: fit_width_def Let_def split: if_splits)
  show "lanes \<le> d_max_invocations info" if "d_max_invocations info \<noteq> 0"
    by (rule ccontr) (use assms(1) that in \<open>auto simp: fit_width_def Let_def not_le l\<close>)
  have nz: "lanes \<noteq> 0" by (simp add: l)
  let ?step = "of_nat (lcm (unat lanes) (unat (d_subgroup_size info))) :: u32"
  have step: "unat lanes dvd unat ?step" "unat (d_subgroup_size info) dvd unat ?step"
  proof -
    have "lcm (unat lanes) (unat (d_subgroup_size info)) \<le> unat lanes * unat (d_subgroup_size info)"
      by (rule lcm_le_mult)
    moreover have "unat lanes * unat (d_subgroup_size info) < 4294967296"
      using assms(2) unat_u32_less [of "d_subgroup_size info"] by (simp add: l)
    ultimately have "unat ?step = lcm (unat lanes) (unat (d_subgroup_size info))" by simp
    then show "unat lanes dvd unat ?step" "unat (d_subgroup_size info) dvd unat ?step" by simp_all
  qed
  define w where "w = (if 1 < lanes then whole_steps (fit_width_of opts info spec) lanes else fit_width_of opts info spec)"
  have w: "unat lanes dvd unat w"
  proof (cases "1 < lanes")
    case True
    then show ?thesis using whole_steps_spec(1) [OF nz] by (simp add: w_def)
  next
    case False
    then have "unat lanes \<le> 1" by (simp add: word_less_nat_alt)
    moreover have "unat lanes \<noteq> 0" using nz by (simp add: unat_eq_zero)
    ultimately have "unat lanes = 1" by linarith
    then show ?thesis by simp
  qed
  show "unat lanes dvd unat local"
    "k_full_subgroups spec \<Longrightarrow> unat (d_subgroup_size info) dvd unat local \<and> d_subgroup_size info \<noteq> 0"
  proof -
    consider "\<not> k_full_subgroups spec" "local = w" | "k_full_subgroups spec" "?step \<noteq> 0" "local = whole_steps w ?step"
      using assms(1) by (auto simp: fit_width_def Let_def w_def l split: if_splits)
    then have "unat lanes dvd unat local \<and> (k_full_subgroups spec \<longrightarrow>
        unat (d_subgroup_size info) dvd unat local \<and> d_subgroup_size info \<noteq> 0)"
    proof cases
      case 1
      then show ?thesis using w by simp
    next
      case 2
      note ws = whole_steps_spec(1) [OF 2(2), of w]
      have "d_subgroup_size info \<noteq> 0" using 2(2) by auto
      then show ?thesis using dvd_trans [OF step(1) ws] dvd_trans [OF step(2) ws] 2(3) by simp
    qed
    then show "unat lanes dvd unat local"
      "k_full_subgroups spec \<Longrightarrow> unat (d_subgroup_size info) dvd unat local \<and> d_subgroup_size info \<noteq> 0"
      by blast+
  qed
qed

lemma fit_width_positive:
  assumes "fit_width opts info spec = Inr (local, lanes)" "1 < lanes"
  shows "local \<noteq> 0"
  using assms by (auto simp: fit_width_def whole_steps_def Let_def split: if_splits)

lemma fit_scratch_shape:
  assumes fit: "fit_scratch info spec shared fit0 = Inr fit" and pg: "fit_per_group fit0 \<noteq> 0"
  shows "fit_per_group fit = fit_per_group fit0" "fit_lanes fit = fit_lanes fit0"
    "fit_local_size_x fit = fit_local_size_x fit0" "fit_nonces fit = fit_nonces fit0" "fit_depth fit = fit_depth fit0"
    "unat (fit_per_group fit) dvd unat (fit_max_batch fit)" "fit_per_group fit \<le> fit_max_batch fit"
    "fit_max_batch fit \<le> kMaxBatch"
    "shared < vulkan_scratch_budget info"
    "unat (fit_max_batch fit) \<le> unat ((vulkan_scratch_budget info - shared) div
       (if k_concurrent_kernels spec \<noteq> 0 then ucast (k_concurrent_kernels spec) else 1) div
       (if k_scratch_bytes spec * ucast (fit_depth fit0) * ucast (fit_lanes fit0) \<noteq> 0
        then k_scratch_bytes spec * ucast (fit_depth fit0) * ucast (fit_lanes fit0) else 1))"
proof -
  let ?budget = "vulkan_scratch_budget info" and ?pg = "fit_per_group fit0"
  define con where "con = (if k_concurrent_kernels spec \<noteq> 0 then ucast (k_concurrent_kernels spec) else (1 :: u64))"
  define left where "left = (?budget - shared) div con"
  define per where "per = k_scratch_bytes spec * ucast (fit_depth fit0) * ucast (fit_lanes fit0)"
  define raw where "raw = left div (if per \<noteq> 0 then per else 1)"
  define fits where "fits = (if ucast kMaxBatch < raw then ucast kMaxBatch else raw)"
  have eq: "\<not> ?budget \<le> shared" "\<not> fits < ucast ?pg"
    "fit = fit0\<lparr>fit_per_nonce := per, fit_max_batch := ucast (fits div ucast ?pg) * ?pg\<rparr>"
    using fit unfolding fit_scratch_def Let_def con_def [symmetric] left_def [symmetric] per_def [symmetric]
      raw_def [symmetric] fits_def [symmetric]
    by (auto split: if_splits)
  show f: "fit_per_group fit = ?pg" "fit_lanes fit = fit_lanes fit0" "fit_local_size_x fit = fit_local_size_x fit0"
    "fit_nonces fit = fit_nonces fit0" "fit_depth fit = fit_depth fit0"
    by (simp_all add: eq(3))
  have u28: "unat (ucast kMaxBatch :: u64) = 2 ^ 28" by (simp add: kMaxBatch_def)
  have fits: "unat fits \<le> 268435456" "unat fits \<le> unat raw"
    using u28 by (auto simp: fits_def word_less_nat_alt)
  have pgl: "unat ?pg \<le> unat fits" using eq(2) by (simp add: word_less_nat_alt)
  have pg0: "0 < unat ?pg" using pg by (simp add: unat_gt_0)
  have q: "unat (fits div ucast ?pg) = unat fits div unat ?pg" by (simp add: unat_div_distrib)
  have qq: "unat fits div unat ?pg * unat ?pg \<le> unat fits" by simp
  have qq': "unat fits div unat ?pg * unat ?pg \<le> 268435456" using qq fits(1) by linarith
  then have qq'': "unat fits div unat ?pg * unat ?pg < 4294967296" by linarith
  have "unat (fits div ucast ?pg) \<le> 268435456"
    using q fits(1) div_le_dividend [of "unat fits" "unat ?pg"] by linarith
  then have "unat (fits div ucast ?pg) < 4294967296" by linarith
  then have "unat (ucast (fits div ucast ?pg) :: u32) = unat fits div unat ?pg"
    by (simp add: q unsigned_ucast_eq take_bit_nat_eq_self)
  then have m: "unat (fit_max_batch fit) = unat fits div unat ?pg * unat ?pg"
    using qq'' by (subst eq(3), simp) (subst unat_mult_exact, simp_all)
  show "unat (fit_per_group fit) dvd unat (fit_max_batch fit)" by (simp add: m f)
  have "1 \<le> unat fits div unat ?pg" using pgl pg0 by (simp add: Suc_leI div_greater_zero_iff)
  then show "fit_per_group fit \<le> fit_max_batch fit" by (simp add: word_le_nat_alt m f)
  show "fit_max_batch fit \<le> kMaxBatch"
    using qq' by (simp add: word_le_nat_alt m kMaxBatch_def)
  show "shared < ?budget" using eq(1) by simp
  have "unat (fit_max_batch fit) \<le> unat raw" using m qq fits(2) by linarith
  then show "unat (fit_max_batch fit) \<le> unat ((?budget - shared) div
       (if k_concurrent_kernels spec \<noteq> 0 then ucast (k_concurrent_kernels spec) else 1) div
       (if k_scratch_bytes spec * ucast (fit_depth fit0) * ucast (fit_lanes fit0) \<noteq> 0
        then k_scratch_bytes spec * ucast (fit_depth fit0) * ucast (fit_lanes fit0) else 1))"
    by (simp only: raw_def left_def con_def per_def)
qed

lemma fit_scratch_memory:
  assumes fit: "fit_scratch info spec shared fit0 = Inr fit" and pg: "fit_per_group fit0 \<noteq> 0"
    and small: "unat (k_scratch_bytes spec) * unat (fit_depth fit0) * unat (fit_lanes fit0) < 2 ^ 64"
  shows "unat shared + unat (fit_max_batch fit) *
       (unat (k_scratch_bytes spec) * unat (fit_depth fit) * unat (fit_lanes fit)) *
       max 1 (unat (k_concurrent_kernels spec)) \<le> unat (vulkan_scratch_budget info)"
proof -
  note shape = fit_scratch_shape [OF fit pg]
  let ?budget = "vulkan_scratch_budget info"
  define con where "con = (if k_concurrent_kernels spec \<noteq> 0 then ucast (k_concurrent_kernels spec) else (1 :: u64))"
  define left where "left = (?budget - shared) div con"
  define per where "per = k_scratch_bytes spec * ucast (fit_depth fit0) * ucast (fit_lanes fit0)"
  define raw where "raw = left div (if per \<noteq> 0 then per else 1)"
  have per: "unat per = unat (k_scratch_bytes spec) * unat (fit_depth fit0) * unat (fit_lanes fit0)"
    using small unfolding per_def
  proof (cases "fit_lanes fit0 = 0")
    case True
    then show "unat (k_scratch_bytes spec * ucast (fit_depth fit0) * ucast (fit_lanes fit0)) =
        unat (k_scratch_bytes spec) * unat (fit_depth fit0) * unat (fit_lanes fit0)" by simp
  next
    case False
    then have "1 \<le> unat (fit_lanes fit0)" by (simp add: unat_gt_0 Suc_leI)
    then have "unat (k_scratch_bytes spec) * unat (fit_depth fit0) * 1 \<le>
        unat (k_scratch_bytes spec) * unat (fit_depth fit0) * unat (fit_lanes fit0)" by (rule mult_left_mono) simp
    then have "unat (k_scratch_bytes spec) * unat (fit_depth fit0) < 2 ^ 64" using small by linarith
    then have "unat (k_scratch_bytes spec * ucast (fit_depth fit0)) = unat (k_scratch_bytes spec) * unat (fit_depth fit0)"
      by (subst unat_mult_exact) simp_all
    then show "unat (k_scratch_bytes spec * ucast (fit_depth fit0) * ucast (fit_lanes fit0)) =
        unat (k_scratch_bytes spec) * unat (fit_depth fit0) * unat (fit_lanes fit0)"
      using small by (subst unat_mult_exact) simp_all
  qed
  have con: "unat con = max 1 (unat (k_concurrent_kernels spec))"
    by (auto simp: con_def unat_gt_0 Suc_leI max_def not_le)
  have sub: "unat (?budget - shared) = unat ?budget - unat shared" "unat shared \<le> unat ?budget"
    using shape(9) by (auto simp: word_less_nat_alt word_le_nat_alt intro!: unat_sub_exact)
  have left: "unat left * unat con \<le> unat ?budget - unat shared"
    by (simp add: left_def unat_div_distrib sub(1))
  have "unat raw * unat per \<le> unat left"
    by (auto simp: raw_def unat_div_distrib)
  moreover have "unat (fit_max_batch fit) \<le> unat raw"
    using shape(10) by (simp only: raw_def left_def con_def per_def)
  ultimately have "unat (fit_max_batch fit) * unat per \<le> unat left"
    by (meson le_trans mult_le_mono1)
  then have "unat (fit_max_batch fit) * unat per * unat con \<le> unat ?budget - unat shared"
    using left by (meson le_trans mult_le_mono1)
  then show ?thesis
    using sub(2) by (simp add: per con shape)
qed

text \<open>What every fit has, whatever the sizes it was asked for.\<close>

lemma fit_basics:
  assumes "vulkan_kernel_fit opts info spec shared = Inr fit"
  shows "fit_per_group fit \<noteq> 0" "fit_max_batch fit \<noteq> 0" "fit_max_batch fit \<le> kMaxBatch"
    "fit_depth fit = fit_depth_of opts spec"
    "k_scratch_bytes spec \<noteq> 0 \<Longrightarrow> unat (fit_per_group fit) dvd unat (fit_max_batch fit)"
proof -
  obtain local lanes nonces where w: "fit_width opts info spec = Inr (local, lanes)"
    and n: "fit_nonces_of opts spec lanes = Inr nonces"
    using assms by (auto simp: vulkan_kernel_fit_def split: sum.splits)
  define per where "per = (if local div lanes * nonces \<noteq> 0 then local div lanes * nonces else 1)"
  define f0 where "f0 = \<lparr>fit_local_size_x = local, fit_lanes = lanes, fit_nonces = nonces, fit_per_group = per,
      fit_depth = fit_depth_of opts spec, fit_max_batch = kMaxBatch, fit_per_nonce = 0\<rparr>"
  have eq: "(if k_scratch_bytes spec = 0 then Inr f0 else fit_scratch info spec shared f0) = Inr fit"
    using assms by (simp add: vulkan_kernel_fit_def w n Let_def f0_def per_def cong: if_cong)
  have per: "per \<noteq> 0" by (simp add: per_def)
  have "fit_per_group fit \<noteq> 0 \<and> fit_max_batch fit \<noteq> 0 \<and> fit_max_batch fit \<le> kMaxBatch \<and>
    fit_depth fit = fit_depth_of opts spec \<and>
    (k_scratch_bytes spec \<noteq> 0 \<longrightarrow> unat (fit_per_group fit) dvd unat (fit_max_batch fit))"
  proof (cases "k_scratch_bytes spec = 0")
    case True
    then have "fit = f0" using eq by simp
    then show ?thesis using True per by (simp add: f0_def kMaxBatch_def)
  next
    case False
    then have fs: "fit_scratch info spec shared f0 = Inr fit" using eq by simp
    have pg: "fit_per_group f0 \<noteq> 0" using per by (simp add: f0_def)
    note sp = fit_scratch_shape [OF fs pg]
    have "fit_max_batch fit \<noteq> 0" using sp(7) per by (auto simp: sp(1) f0_def)
    then show ?thesis using per sp(1,5,6,8) by (simp add: f0_def)
  qed
  then show "fit_per_group fit \<noteq> 0" "fit_max_batch fit \<noteq> 0" "fit_max_batch fit \<le> kMaxBatch"
    "fit_depth fit = fit_depth_of opts spec"
    "k_scratch_bytes spec \<noteq> 0 \<Longrightarrow> unat (fit_per_group fit) dvd unat (fit_max_batch fit)" by blast+
qed

lemma share_le:
  assumes "0 \<le> share" "share \<le> (1 :: rat)"
  shows "unat (of_nat (nat \<lfloor>of_nat (unat (w :: u64)) * share\<rfloor>) :: u64) \<le> unat w"
proof -
  have "of_nat (unat w) * share \<le> of_nat (unat w)"
    using mult_left_mono [OF assms(2), of "of_nat (unat w)"] by (simp only: mult_1_right of_nat_0_le_iff)
  then have "\<lfloor>of_nat (unat w) * share\<rfloor> \<le> int (unat w)"
    by (metis floor_mono floor_of_nat)
  then have le: "nat \<lfloor>of_nat (unat w) * share\<rfloor> \<le> unat w" by linarith
  moreover have "unat w < 18446744073709551616" by (rule unat_u64_less)
  ultimately have "nat \<lfloor>of_nat (unat w) * share\<rfloor> < 18446744073709551616" by linarith
  then show ?thesis using le by (simp only: unat_of_nat_u64)
qed

lemma scratch_budget_le: "unat (vulkan_scratch_budget info) \<le> unat (d_memory info)"
proof -
  define share where "share = (if d_kind info = Cpu then 15 / 100 else if d_kind info \<noteq> Discrete then 1 / 4 else 3 / 4 :: rat)"
  define usable where "usable = (of_nat (nat \<lfloor>of_nat (unat (d_memory info)) * share\<rfloor>) :: u64)"
  have "0 \<le> share" "share \<le> 1" by (simp_all add: share_def)
  then have "unat usable \<le> unat (d_memory info)" unfolding usable_def by (rule share_le)
  moreover have "unat (vulkan_scratch_budget info) \<le> unat usable"
    unfolding vulkan_scratch_budget_def Let_def share_def [symmetric] usable_def [symmetric]
    by (auto simp: word_less_nat_alt not_less)
  ultimately show ?thesis by linarith
qed

lemma table_budget_le: "unat (vulkan_table_budget info) \<le> unat (d_memory info)"
  unfolding vulkan_table_budget_def Let_def by (rule share_le) simp_all

text \<open>The shape a fit promises.\<close>

definition fits_device :: "fit_options \<Rightarrow> DeviceInfo \<Rightarrow> KernelSpec \<Rightarrow> u64 \<Rightarrow> KernelFit \<Rightarrow> bool" where
  "fits_device opts info spec shared fit \<longleftrightarrow>
     fit_depth fit = fit_depth_of opts spec \<and>
     fit_lanes fit = (if k_lanes spec \<noteq> 0 then k_lanes spec else 1) \<and>
     (d_max_invocations info \<noteq> 0 \<longrightarrow> fit_lanes fit \<le> d_max_invocations info) \<and>
     unat (fit_lanes fit) dvd unat (fit_local_size_x fit) \<and>
     (k_full_subgroups spec \<longrightarrow> unat (d_subgroup_size info) dvd unat (fit_local_size_x fit)) \<and>
     fit_per_group fit \<noteq> 0 \<and> fit_max_batch fit \<noteq> 0 \<and> fit_max_batch fit \<le> kMaxBatch \<and>
     (k_scratch_bytes spec \<noteq> 0 \<longrightarrow>
        unat (fit_per_group fit) dvd unat (fit_max_batch fit) \<and> fit_per_group fit \<le> fit_max_batch fit \<and>
        unat shared + unat (fit_max_batch fit) *
          (unat (k_scratch_bytes spec) * unat (fit_depth fit) * unat (fit_lanes fit)) *
          max 1 (unat (k_concurrent_kernels spec)) \<le> unat (d_memory info))"

lemma kernel_fit_fits:
  assumes fit: "vulkan_kernel_fit opts info spec shared = Inr fit"
    and lcm: "unat (k_lanes spec) * unat (d_subgroup_size info) < 2 ^ 32"
    and small: "unat (k_scratch_bytes spec) * unat (fit_depth_of opts spec) * max 1 (unat (k_lanes spec)) < 2 ^ 64"
  shows "fits_device opts info spec shared fit"
proof -
  obtain local lanes nonces where w: "fit_width opts info spec = Inr (local, lanes)"
    and n: "fit_nonces_of opts spec lanes = Inr nonces"
    using fit by (auto simp: vulkan_kernel_fit_def split: sum.splits)
  note ws = fit_width_spec [OF w lcm]
  define per where "per = (if local div lanes * nonces \<noteq> 0 then local div lanes * nonces else 1)"
  define f0 where "f0 = \<lparr>fit_local_size_x = local, fit_lanes = lanes, fit_nonces = nonces, fit_per_group = per,
      fit_depth = fit_depth_of opts spec, fit_max_batch = kMaxBatch, fit_per_nonce = 0\<rparr>"
  have eq: "(if k_scratch_bytes spec = 0 then Inr f0 else fit_scratch info spec shared f0) = Inr fit"
    using fit by (simp add: vulkan_kernel_fit_def w n Let_def f0_def per_def cong: if_cong)
  have per: "per \<noteq> 0" by (simp add: per_def)
  show ?thesis
  proof (cases "k_scratch_bytes spec = 0")
    case True
    then have "fit = f0" using eq by simp
    then show ?thesis using True ws per by (simp add: f0_def fits_device_def kMaxBatch_def)
  next
    case False
    then have fs: "fit_scratch info spec shared f0 = Inr fit" using eq by simp
    have pg: "fit_per_group f0 \<noteq> 0" using per by (simp add: f0_def)
    have "max 1 (unat (k_lanes spec)) = unat lanes" by (auto simp: ws(1) unat_gt_0 Suc_leI max_def not_le)
    then have "unat (k_scratch_bytes spec) * unat (fit_depth f0) * unat (fit_lanes f0) < 2 ^ 64"
      using small by (simp add: f0_def)
    note sp = fit_scratch_shape [OF fs pg] and room = fit_scratch_memory [OF fs pg this]
    have "fit_max_batch fit \<noteq> 0" using sp(7) per by (auto simp: sp(1) f0_def)
    then show ?thesis
      using ws per sp(1-8) order.trans [OF room scratch_budget_le] by (simp add: f0_def fits_device_def)
  qed
qed

text \<open>
  The invocations of a workgroup against the hashes it is counted as: never more than the lanes of
  those, and exactly as many where a hash has more lanes than one.
\<close>

lemma kernel_fit_invocations:
  assumes fit: "vulkan_kernel_fit opts info spec shared = Inr fit"
    and lcm: "unat (k_lanes spec) * unat (d_subgroup_size info) < 2 ^ 32"
    and wide: "unat (fit_local_size_x fit) * unat kMaxNoncesPerInvocation < 2 ^ 32"
    and opt: "opt_nonces_per_invocation opts < 2 ^ 31"
  shows "unat (fit_lanes fit) = max 1 (unat (k_lanes spec))"
    "unat (fit_local_size_x fit) \<le> unat (fit_per_group fit) * unat (fit_lanes fit)"
    "1 < unat (k_lanes spec) \<Longrightarrow> unat (fit_local_size_x fit) = unat (fit_per_group fit) * unat (fit_lanes fit)"
proof -
  obtain local lanes nonces where w: "fit_width opts info spec = Inr (local, lanes)"
    and n: "fit_nonces_of opts spec lanes = Inr nonces"
    using fit by (auto simp: vulkan_kernel_fit_def split: sum.splits)
  note ws = fit_width_spec [OF w lcm]
  define per where "per = (if local div lanes * nonces \<noteq> 0 then local div lanes * nonces else 1)"
  define f0 where "f0 = \<lparr>fit_local_size_x = local, fit_lanes = lanes, fit_nonces = nonces, fit_per_group = per,
      fit_depth = fit_depth_of opts spec, fit_max_batch = kMaxBatch, fit_per_nonce = 0\<rparr>"
  have eq: "(if k_scratch_bytes spec = 0 then Inr f0 else fit_scratch info spec shared f0) = Inr fit"
    using fit by (simp add: vulkan_kernel_fit_def w n Let_def f0_def per_def cong: if_cong)
  have "fit_per_group f0 \<noteq> 0" by (simp add: f0_def per_def)
  then have f: "fit_local_size_x fit = local" "fit_lanes fit = lanes" "fit_per_group fit = per"
    using eq fit_scratch_shape(1-3) [of info spec shared f0 fit] by (auto simp: f0_def split: if_splits)
  show lanes: "unat (fit_lanes fit) = max 1 (unat (k_lanes spec))"
    by (auto simp: f(2) ws(1) unat_gt_0 Suc_leI max_def not_le)
  have nz: "unat lanes \<noteq> 0" using lanes f(2) by simp
  obtain q where q: "unat local = q * unat lanes" using ws(3) by (metis dvd_def mult.commute)
  have d: "unat (local div lanes) = q" using nz by (simp add: unat_div_distrib q)
  have no: "0 < unat nonces \<and> unat nonces \<le> 256 \<and> (lanes \<noteq> 1 \<longrightarrow> nonces = 1)"
  proof -
    define most :: u32 where "most = (if lanes = 1 \<and> spirv_declares_constant (k_spirv spec) kNoncesConstantId
        then kMaxNoncesPerInvocation else 1)"
    define asked :: u32 where "asked = of_int (opt_nonces_per_invocation opts)"
    have asked: "unat asked = nat (opt_nonces_per_invocation opts)" if "0 < opt_nonces_per_invocation opts"
      using that opt by (simp add: asked_def unat_eq_nat_uint uint_word_of_int_eq take_bit_int_eq_self)
    have e: "\<not> most < k_nonces_per_invocation spec" "nonces = (if k_nonces_per_invocation spec \<noteq> 0 then k_nonces_per_invocation spec
        else if 0 < opt_nonces_per_invocation opts then min asked most else 1)"
      using n unfolding fit_nonces_of_def Let_def most_def [symmetric] asked_def [symmetric] by (auto split: if_splits)
    have mo: "unat most \<le> 256" "1 \<le> unat most" "lanes \<noteq> 1 \<Longrightarrow> unat most = 1"
      by (simp_all add: most_def kMaxNoncesPerInvocation_def)
    have um: "unat (min asked most) = min (unat asked) (unat most)" by (simp add: min_def word_le_nat_alt)
    consider "k_nonces_per_invocation spec \<noteq> 0" "nonces = k_nonces_per_invocation spec"
      | "0 < opt_nonces_per_invocation opts" "nonces = min asked most" | "nonces = 1"
      using e(2) by (auto split: if_splits)
    then have s: "0 < unat nonces \<and> unat nonces \<le> unat most"
    proof cases
      case 1
      then show ?thesis using e(1) by (simp add: word_less_nat_alt not_less unat_gt_0)
    next
      case 2
      then show ?thesis using asked mo(2) um by simp
    next
      case 3
      then show ?thesis using mo(2) by simp
    qed
    moreover have "nonces = 1" if "lanes \<noteq> 1"
    proof -
      have "unat nonces = 1" using s mo(3) [OF that] by linarith
      then show ?thesis by (simp add: word_unat_eq_iff)
    qed
    ultimately show ?thesis using mo(1) by linarith
  qed
  have "q * unat nonces \<le> unat local * 256" using no nz q by (intro mult_mono) auto
  then have "q * unat nonces < 2 ^ 32" using wide by (simp add: f kMaxNoncesPerInvocation_def)
  then have m: "unat (local div lanes * nonces) = q * unat nonces" by (subst unat_mult_exact) (simp_all add: d)
  have "q \<le> q * unat nonces" using no by simp
  then have p: "q \<le> unat per" using m by (auto simp: per_def)
  then show "unat (fit_local_size_x fit) \<le> unat (fit_per_group fit) * unat (fit_lanes fit)"
    by (simp add: f q)
  show "unat (fit_local_size_x fit) = unat (fit_per_group fit) * unat (fit_lanes fit)" if l: "1 < unat (k_lanes spec)"
  proof -
    have lk: "lanes = k_lanes spec" "1 < lanes" using l ws(1) by (auto simp: word_less_nat_alt)
    then have "local \<noteq> 0" using fit_width_positive [OF w] nz by (auto simp: word_less_nat_alt)
    then have "unat local \<noteq> 0" by (simp add: unat_eq_zero)
    then have "q \<noteq> 0" using q by (metis mult_0)
    moreover have "nonces = 1" using no lk by auto
    ultimately have "unat per = q" using m by (auto simp: per_def unat_eq_zero [symmetric])
    then show ?thesis by (simp add: f q)
  qed
qed

section \<open>Properties\<close>

text \<open>
  Claim C40. A kernel that fits fits: its lanes divide its width and are no more than a workgroup
  may have, a kernel that asks for whole subgroups gets a width of whole subgroups, a dispatch is
  at least one workgroup and at most \<open>2 ^ 28\<close> hashes, and where hashes have scratchpads, the
  largest dispatch is whole workgroups and the shared table, the scratchpads of every dispatch in
  flight and those of every kernel the caller is about to build add up to no more than the
  device's memory.
\<close>

theorem kernel_fit_sound:
  assumes "vulkan_kernel_fit opts info spec shared = Inr fit"
    and "unat (k_lanes spec) * unat (d_subgroup_size info) < 2 ^ 32"
    and "unat (k_scratch_bytes spec) * unat (fit_depth_of opts spec) * max 1 (unat (k_lanes spec)) < 2 ^ 64"
  shows "(d_max_invocations info \<noteq> 0 \<longrightarrow> fit_lanes fit \<le> d_max_invocations info) \<and>
     unat (fit_lanes fit) dvd unat (fit_local_size_x fit) \<and>
     (k_full_subgroups spec \<longrightarrow> unat (d_subgroup_size info) dvd unat (fit_local_size_x fit)) \<and>
     0 < unat (fit_per_group fit) \<and> 0 < unat (fit_max_batch fit) \<and> unat (fit_max_batch fit) \<le> 2 ^ 28 \<and>
     (k_scratch_bytes spec \<noteq> 0 \<longrightarrow>
        unat (fit_per_group fit) dvd unat (fit_max_batch fit) \<and>
        unat shared + unat (fit_max_batch fit) *
          (unat (k_scratch_bytes spec) * unat (fit_depth fit) * unat (fit_lanes fit)) *
          max 1 (unat (k_concurrent_kernels spec)) \<le> unat (d_memory info))"
proof -
  note f = kernel_fit_fits [OF assms, unfolded fits_device_def]
  have "0 < unat (fit_per_group fit)" "0 < unat (fit_max_batch fit)" using f by (simp_all add: unat_gt_0)
  moreover have "unat (fit_max_batch fit) \<le> 2 ^ 28" using f by (simp add: word_le_nat_alt kMaxBatch_def)
  ultimately show ?thesis using f by blast
qed

theorem kernel_fit_sound_witness:
  "\<exists>fit. vulkan_kernel_fit \<lparr>opt_queue_depth = 0, opt_workgroup = 0, opt_nonces_per_invocation = 0\<rparr> desktop_device
      (kernel_spec_default\<lparr>k_scratch_bytes := 131072, k_lanes := 4\<rparr>) 0 = Inr fit \<and>
     unat (fit_max_batch fit) * (131072 * 3 * 4) \<le> 12884901888"
proof -
  let ?opts = "\<lparr>opt_queue_depth = 0, opt_workgroup = 0, opt_nonces_per_invocation = 0\<rparr>"
    and ?spec = "kernel_spec_default\<lparr>k_scratch_bytes := 131072, k_lanes := 4\<rparr>"
  have floor: "\<lfloor>(12884901888 :: rat) * (3 / 4)\<rfloor> = 9663676416" by (simp add: floor_eq_iff)
  have budget: "vulkan_scratch_budget desktop_device = 9663676416"
    by (simp add: vulkan_scratch_budget_def desktop_device_def floor)
  have width: "fit_width ?opts desktop_device ?spec = Inr (256, 4)"
    by (simp add: fit_width_def fit_width_of_def whole_steps_def choose_local_size_def desktop_device_def
        kernel_spec_default_def Let_def)
  have nonces: "fit_nonces_of ?opts ?spec 4 = Inr 1"
    by (simp add: fit_nonces_of_def kernel_spec_default_def Let_def)
  have info: "d_memory desktop_device = 12884901888" "d_subgroup_size desktop_device = 32"
    by (simp_all add: desktop_device_def)
  have spec: "k_scratch_bytes ?spec = 131072" "k_lanes ?spec = 4" "k_concurrent_kernels ?spec = 1"
    "fit_depth_of ?opts ?spec = 3"
    by (simp_all add: kernel_spec_default_def fit_depth_of_def kDefaultDepth_def)
  have fs: "\<exists>fit. vulkan_kernel_fit ?opts desktop_device ?spec 0 = Inr fit \<and> fit_depth fit = 3 \<and> fit_lanes fit = 4"
    unfolding vulkan_kernel_fit_def width nonces sum.case prod.case spec
    by (simp add: fit_scratch_def budget info spec kMaxBatch_def Let_def)
  then obtain fit where fit: "vulkan_kernel_fit ?opts desktop_device ?spec 0 = Inr fit"
    "fit_depth fit = 3" "fit_lanes fit = 4" by blast
  then show ?thesis
    using kernel_fit_sound [OF fit(1)] by (simp add: info spec)
qed

text \<open>
  The scan of a module says what the module says: a module declares a specialization
  constant exactly when one of the whole instructions of its stream is a decoration with that id,
  and the scan ends on every list of words, well-formed or not.
\<close>

theorem spirv_scan_exact:
  "spirv_declares_constant (Some words) ident \<longleftrightarrow>
     5 \<le> length words \<and> (\<exists>op \<in> set (instructions (drop 5 words)). decorates ident op)"
  using declares_from_iff [of 5 words ident] by (auto simp: spirv_declares_constant_def)

theorem spirv_scan_exact_witness:
  "spirv_declares_constant (Some [0x07230203, 0x10000, 0, 100, 0, 0x40047, 7, 1, 5]) kNoncesConstantId"
  using spirv_scan_exact [of "[0x07230203, 0x10000, 0, 100, 0, 0x40047, 7, 1, 5]" kNoncesConstantId]
  by (simp add: instructions.simps decorates_def kNoncesConstantId_def)

end
