(* ===== verification/Command_Ring.thy ===== *)
theory Command_Ring
  imports Prelude
begin

text \<open>
  \<^verbatim>\<open>backends/vulkan/command_ring.{h,cpp}\<close>: the command buffers a kernel records into, each with the
  fence of its last submission. What the driver answers is an argument. The device is the other
  half of the state: what is recorded in each command buffer, and which of them it is executing;
  it may finish one at any moment. A command buffer and its fence are named by their position, and
  positions are \<open>nat\<close>.
\<close>

section \<open>The device's side\<close>

text \<open>
  \<open>dq_running i\<close> are the commands the device has been given from buffer \<open>i\<close> and has not finished.
  A wait answers \<open>Signalled\<close>, runs into its timeout, or reports any other result.
\<close>

record 'c device_queue =
  dq_cmd :: "nat \<Rightarrow> 'c list"
  dq_running :: "nat \<Rightarrow> 'c list option"

datatype fence_result = Signalled | TimedOut | DeviceError

record begin_answers =
  ba_fence :: fence_result
  ba_reset :: bool
  ba_begin :: bool

record submit_answers =
  sa_end :: bool
  sa_reset :: bool
  sa_queue :: bool

section \<open>The ring\<close>

record ring_slot =
  rs_pending :: bool
  rs_index :: nat

record CommandRing =
  cr_slots :: "ring_slot list"
  cr_next :: nat

primrec create_fences :: "(nat \<Rightarrow> bool) \<Rightarrow> nat \<Rightarrow> ring_slot list option" where
  "create_fences fence 0 = Some []"
| "create_fences fence (Suc i) =
     (case create_fences fence i of None \<Rightarrow> None
      | Some done \<Rightarrow> if \<not> fence i then None else Some (done @ [\<lparr>rs_pending = False, rs_index = i\<rparr>]))"

definition ring_create :: "bool \<Rightarrow> bool \<Rightarrow> (nat \<Rightarrow> bool) \<Rightarrow> nat \<Rightarrow> CommandRing option" where
  "ring_create pool buffers fence slots =
     (if slots = 0 then None
      else if \<not> pool then None
      else if \<not> buffers then None
      else case create_fences fence slots of None \<Rightarrow> None
           | Some made \<Rightarrow> Some \<lparr>cr_slots = made, cr_next = 0\<rparr>)"

text \<open>The first component is what the call returns, the second what it writes to \<^verbatim>\<open>*done\<close>.\<close>

definition ring_poll :: "fence_result \<Rightarrow> nat \<Rightarrow> CommandRing \<Rightarrow> (bool \<times> bool) \<times> CommandRing" where
  "ring_poll answer i r =
     (if \<not> rs_pending (cr_slots r ! i) then ((True, True), r)
      else case answer of
        TimedOut \<Rightarrow> ((True, False), r)
      | DeviceError \<Rightarrow> ((False, True), r)
      | Signalled \<Rightarrow>
          ((True, True), r\<lparr>cr_slots := (cr_slots r)[i := (cr_slots r ! i)\<lparr>rs_pending := False\<rparr>]\<rparr>))"

definition ring_wait :: "fence_result \<Rightarrow> nat \<Rightarrow> CommandRing \<Rightarrow> bool \<times> CommandRing" where
  "ring_wait answer i r =
     (case ring_poll answer i r of
        ((False, finished), r) \<Rightarrow> (False, r)
      | ((True, finished), r) \<Rightarrow> (finished, r))"

definition ring_begin ::
  "begin_answers \<Rightarrow> CommandRing \<Rightarrow> ('c, 'g) device_queue_scheme \<Rightarrow>
   nat option \<times> CommandRing \<times> ('c, 'g) device_queue_scheme" where
  "ring_begin ans r g =
     (let i = cr_next r;
          r = r\<lparr>cr_next := (cr_next r + 1) mod length (cr_slots r)\<rparr>;
          (free, r) = (if rs_pending (cr_slots r ! i) then ring_wait (ba_fence ans) i r else (True, r))
      in if \<not> free then (None, r, g)
         else if \<not> ba_reset ans then (None, r, g)
         else
           let g = g\<lparr>dq_cmd := (dq_cmd g)(i := [])\<rparr>
           in if \<not> ba_begin ans then (None, r, g)
              else (Some i, r, g))"

definition ring_submit ::
  "submit_answers \<Rightarrow> nat \<Rightarrow> CommandRing \<Rightarrow> ('c, 'g) device_queue_scheme \<Rightarrow>
   bool \<times> CommandRing \<times> ('c, 'g) device_queue_scheme" where
  "ring_submit ans i r g =
     (if \<not> sa_end ans then (False, r, g)
      else if \<not> sa_reset ans then (False, r, g)
      else if \<not> sa_queue ans then (False, r, g)
      else (True, r\<lparr>cr_slots := (cr_slots r)[i := (cr_slots r ! i)\<lparr>rs_pending := True\<rparr>]\<rparr>,
            g\<lparr>dq_running := (dq_running g)(i := Some (dq_cmd g i))\<rparr>))"

section \<open>What a driver may answer, and the steps a ring goes through\<close>

text \<open>A fence is signalled only once everything submitted with it has been executed.\<close>

definition honest :: "fence_result \<Rightarrow> nat \<Rightarrow> ('c, 'g) device_queue_scheme \<Rightarrow> bool" where
  "honest answer i g \<longleftrightarrow> (answer = Signalled \<longrightarrow> dq_running g i = None)"

text \<open>
  A client records into a slot it was given and submits it; the device finishes what it runs
  whenever it does.
\<close>

inductive ring_step :: "CommandRing \<times> 'c device_queue \<Rightarrow> CommandRing \<times> 'c device_queue \<Rightarrow> bool" where
  step_begin: "honest (ba_fence ans) (cr_next r) g \<Longrightarrow> ring_begin ans r g = (got, r', g') \<Longrightarrow>
     ring_step (r, g) (r', g')"
| step_record: "i < length (cr_slots r) \<Longrightarrow> \<not> rs_pending (cr_slots r ! i) \<Longrightarrow>
     ring_step (r, g) (r, g\<lparr>dq_cmd := (dq_cmd g)(i := cs)\<rparr>)"
| step_submit: "i < length (cr_slots r) \<Longrightarrow> \<not> rs_pending (cr_slots r ! i) \<Longrightarrow>
     ring_submit sub i r g = (ok, r', g') \<Longrightarrow> ring_step (r, g) (r', g')"
| step_poll: "i < length (cr_slots r) \<Longrightarrow> honest answer i g \<Longrightarrow> ring_poll answer i r = (res, r') \<Longrightarrow>
     ring_step (r, g) (r', g)"
| step_complete: "ring_step (r, g) (r, g\<lparr>dq_running := (dq_running g)(i := None)\<rparr>)"

inductive_cases ring_stepE: "ring_step (r, g) (r', g')"

text \<open>Whatever the device is running is in a slot marked pending; slots know their position.\<close>

definition ring_ok :: "CommandRing \<Rightarrow> ('c, 'g) device_queue_scheme \<Rightarrow> bool" where
  "ring_ok r g \<longleftrightarrow> cr_next r < length (cr_slots r) \<and>
     (\<forall>i < length (cr_slots r). rs_index (cr_slots r ! i) = i) \<and>
     (\<forall>i. dq_running g i \<noteq> None \<longrightarrow> i < length (cr_slots r) \<and> rs_pending (cr_slots r ! i))"

section \<open>Lemmas: each operation\<close>

lemma nth_update_iff: "xs[i := x] ! j = (if i = j \<and> i < length xs then x else xs ! j)"
  by (cases "i < length xs") (auto simp: nth_list_update list_update_beyond not_less)

lemma Suc_mod_less: "i < n \<Longrightarrow> Suc i mod n < n"
  by (rule mod_less_divisor) simp

lemma create_fences_spec:
  "create_fences fence n = Some made \<Longrightarrow>
     length made = n \<and> (\<forall>i < n. made ! i = \<lparr>rs_pending = False, rs_index = i\<rparr>)"
  by (induction n arbitrary: made) (auto simp: nth_append less_Suc_eq split: option.splits if_splits)

lemma ring_create_spec:
  assumes "ring_create pool buffers fence slots = Some r"
  shows "length (cr_slots r) = slots" "0 < slots" "cr_next r = 0"
    "i < slots \<Longrightarrow> cr_slots r ! i = \<lparr>rs_pending = False, rs_index = i\<rparr>"
  using assms create_fences_spec [of fence slots]
  by (auto simp: ring_create_def split: if_splits option.splits)

lemma ring_create_ok:
  assumes "ring_create pool buffers fence slots = Some r" "\<And>i. dq_running g i = None"
  shows "ring_ok r g"
  using ring_create_spec [OF assms(1)] by (simp add: ring_ok_def assms(2))

lemma ring_poll_frame:
  assumes "ring_poll answer i r = (res, r')"
  shows "length (cr_slots r') = length (cr_slots r)" "cr_next r' = cr_next r"
    "j \<noteq> i \<Longrightarrow> cr_slots r' ! j = cr_slots r ! j" "rs_index (cr_slots r' ! j) = rs_index (cr_slots r ! j)"
    "rs_pending (cr_slots r' ! j) \<Longrightarrow> rs_pending (cr_slots r ! j)"
  using assms
  by (auto simp: ring_poll_def nth_update_iff split: if_splits fence_result.splits)

lemma ring_poll_done:
  assumes "ring_poll answer i r = ((True, True), r')" "honest answer i g" "ring_ok r g" "i < length (cr_slots r)"
  shows "\<not> rs_pending (cr_slots r' ! i)" "dq_running g i = None"
  using assms by (auto simp: ring_poll_def honest_def ring_ok_def split: if_splits fence_result.splits)

lemma ring_poll_ok:
  assumes "ring_poll answer i r = (res, r')" "honest answer i g" "ring_ok r g"
  shows "ring_ok r' g"
  using assms by (auto simp: ring_poll_def honest_def ring_ok_def nth_update_iff split: if_splits fence_result.splits)

lemma ring_wait_poll:
  "ring_wait answer i r = (ok, r') \<longleftrightarrow> (\<exists>ret finished. ring_poll answer i r = ((ret, finished), r') \<and> ok = (ret \<and> finished))"
  by (auto simp: ring_wait_def split: prod.splits bool.splits)

lemma ring_begin_some:
  assumes "ring_begin ans r g = (Some i, r', g')"
  shows "i = cr_next r" "cr_next r' = (cr_next r + 1) mod length (cr_slots r)"
    "length (cr_slots r') = length (cr_slots r)" "g' = g\<lparr>dq_cmd := (dq_cmd g)(i := [])\<rparr>"
    "j \<noteq> i \<Longrightarrow> cr_slots r' ! j = cr_slots r ! j"
  using assms
  by (auto simp: ring_begin_def Let_def ring_wait_def ring_poll_def split: prod.splits if_splits bool.splits fence_result.splits)

lemma ring_begin_frame:
  assumes "ring_begin ans r g = (got, r', g')"
  shows "length (cr_slots r') = length (cr_slots r)" "cr_next r' = (cr_next r + 1) mod length (cr_slots r)"
    "dq_running g' = dq_running g" "j \<noteq> cr_next r \<Longrightarrow> cr_slots r' ! j = cr_slots r ! j"
    "\<exists>cs. g' = g\<lparr>dq_cmd := cs\<rparr>"
  using assms
  by (auto simp: ring_begin_def Let_def ring_wait_def ring_poll_def split: prod.splits if_splits bool.splits fence_result.splits)
     (metis device_queue.surjective device_queue.update_convs(1))+

lemma ring_begin_ok:
  assumes "ring_begin ans r g = (got, r', g')" "honest (ba_fence ans) (cr_next r) g" "ring_ok r g"
  shows "ring_ok r' g'"
  using assms
  by (auto simp: ring_begin_def Let_def ring_wait_def ring_poll_def ring_ok_def honest_def nth_update_iff Suc_mod_less
      split: prod.splits if_splits bool.splits fence_result.splits)

lemma ring_begin_free:
  assumes "ring_begin ans r g = (Some i, r', g')" "honest (ba_fence ans) (cr_next r) g" "ring_ok r g"
  shows "dq_running g i = None" "\<not> rs_pending (cr_slots r' ! i)" "i < length (cr_slots r')"
  using assms
  by (auto simp: ring_begin_def Let_def ring_wait_def ring_poll_def ring_ok_def honest_def nth_update_iff
      split: prod.splits if_splits bool.splits fence_result.splits)

lemma ring_submit_ok:
  assumes "ring_submit sub i r g = (ok, r', g')" "ring_ok r g" "i < length (cr_slots r)"
  shows "ring_ok r' g'"
  using assms by (auto simp: ring_submit_def ring_ok_def nth_update_iff split: if_splits)

lemma ring_step_ok:
  assumes "ring_step (r, g) (r', g')" "ring_ok r g"
  shows "ring_ok r' g'"
  using assms(1)
proof cases
  case (step_begin ans got)
  then show ?thesis using ring_begin_ok assms(2) by blast
next
  case (step_submit i sub ok)
  then show ?thesis using ring_submit_ok assms(2) by blast
next
  case (step_poll i answer res)
  then show ?thesis using ring_poll_ok assms(2) by blast
qed (use assms(2) in \<open>auto simp: ring_ok_def\<close>)

section \<open>Properties\<close>

text \<open>
  Claim C39. A slot handed out for recording is never one the device is still executing, after any
  sequence of recordings, submissions, waits that end in a timeout or an error, and completions;
  slots are handed out in turn; and a begin that finds its slot still busy leaves its commands as
  they were.
\<close>

theorem begin_never_reuses_running:
  assumes "ring_create pool buffers fence slots = Some r0" "\<And>i. dq_running g0 i = None"
    and "ring_step\<^sup>*\<^sup>* (r0, g0) (r, g)"
    and "honest (ba_fence ans) (cr_next r) g" "ring_begin ans r g = (got, r', g')"
  shows "(case got of None \<Rightarrow> True | Some i \<Rightarrow> i = cr_next r \<and> i < slots \<and> dq_running g i = None) \<and>
     cr_next r' = (cr_next r + 1) mod slots \<and>
     (dq_running g (cr_next r) \<noteq> None \<longrightarrow> got = None \<and> g' = g)"
proof -
  have "ring_ok r g \<and> length (cr_slots r) = slots"
    using assms(3)
  proof (induction "(r, g)" arbitrary: r g rule: rtranclp_induct)
    case base
    show ?case using ring_create_ok [OF assms(1,2)] ring_create_spec(1) [OF assms(1)] by simp
  next
    case (step s)
    obtain r1 g1 where s: "s = (r1, g1)" by (cases s)
    have ih: "ring_ok r1 g1" "length (cr_slots r1) = slots" using step(3) s by simp_all
    have "length (cr_slots r) = length (cr_slots r1)"
      using step(2) unfolding s
      by (cases rule: ring_stepE) (auto simp: ring_begin_frame(1) ring_poll_frame(1) ring_submit_def split: if_splits)
    then show ?case using ring_step_ok [OF _ ih(1)] step(2) ih(2) unfolding s by simp
  qed
  then have ok: "ring_ok r g" and len: "length (cr_slots r) = slots" by simp_all
  have "case got of None \<Rightarrow> True | Some i \<Rightarrow> i = cr_next r \<and> i < slots \<and> dq_running g i = None"
    using ring_begin_some [of ans r g _ r' g'] ring_begin_free [of ans r g _ r' g'] assms(4,5) ok len
    by (cases got) auto
  moreover have "dq_running g (cr_next r) \<noteq> None \<Longrightarrow> got = None \<and> g' = g"
    using assms(4,5) ok
    by (auto simp: ring_begin_def Let_def ring_wait_def ring_poll_def ring_ok_def honest_def
        split: prod.splits if_splits bool.splits fence_result.splits)
  ultimately show ?thesis using ring_begin_frame(2) [OF assms(5)] len by simp
qed

text \<open>A ring of one slot, submitted and still running: the next begin waits, and gives up.\<close>

theorem begin_never_reuses_running_witness:
  "fst (ring_begin \<lparr>ba_fence = TimedOut, ba_reset = True, ba_begin = True\<rparr>
     \<lparr>cr_slots = [\<lparr>rs_pending = True, rs_index = 0\<rparr>], cr_next = 0\<rparr>
     \<lparr>dq_cmd = (\<lambda>_. [7 :: nat]), dq_running = (\<lambda>_. None)(0 := Some [7])\<rparr>) = None"
proof -
  let ?ans = "\<lparr>ba_fence = TimedOut, ba_reset = True, ba_begin = True\<rparr>"
    and ?made = "\<lparr>cr_slots = [\<lparr>rs_pending = False, rs_index = 0\<rparr>], cr_next = 0\<rparr>"
    and ?r = "\<lparr>cr_slots = [\<lparr>rs_pending = True, rs_index = 0\<rparr>], cr_next = 0\<rparr>"
    and ?idle = "\<lparr>dq_cmd = (\<lambda>_. [7 :: nat]), dq_running = (\<lambda>_. None)\<rparr>"
    and ?g = "\<lparr>dq_cmd = (\<lambda>_. [7 :: nat]), dq_running = (\<lambda>_. None)(0 := Some [7])\<rparr>"
  have create: "ring_create True True (\<lambda>_. True) (Suc 0) = Some ?made"
    by (simp add: ring_create_def)
  have "ring_step (?made, ?idle) (?r, ?g)"
    by (rule step_submit [of 0 _ "\<lparr>sa_end = True, sa_reset = True, sa_queue = True\<rparr>" _ True])
       (simp_all add: ring_submit_def)
  then have steps: "ring_step\<^sup>*\<^sup>* (?made, ?idle) (?r, ?g)" by (rule r_into_rtranclp)
  obtain got r' g' where b: "ring_begin ?ans ?r ?g = (got, r', g')" by (cases "ring_begin ?ans ?r ?g")
  have "honest (ba_fence ?ans) (cr_next ?r) ?g" by (simp add: honest_def)
  from begin_never_reuses_running [OF create _ steps this b] show ?thesis by (simp add: b)
qed

end
