(* ===== verification/Vulkan_Kernel.thy ===== *)
theory Vulkan_Kernel
  imports Kernel_Fit Command_Ring Shared_State
begin

text \<open>
  \<^verbatim>\<open>class VulkanKernel\<close> of \<^verbatim>\<open>backends/vulkan/vulkan_kernel.cpp\<close>: what it builds at init, the program it
  loads, a dispatch, a collect, and how it sizes the next dispatch. The algorithm it points at is
  the record \<open>algorithm_ops\<close>, an argument of every operation that calls it; what the driver answers
  is an argument too, and so is the compiled shader. Positions and counts of dispatches are \<open>nat\<close>,
  numbers of nonces and bytes keep their width, seconds and ratios are rationals. Log lines, the
  kernel's name and the statistics of its pipelines are left out.
\<close>

section \<open>Constants\<close>

definition kCandidateWords :: nat where "kCandidateWords = 10"
definition kFoundWord :: nat where "kFoundWord = 0"
definition kBestWord :: nat where "kBestWord = 1"
definition kReachedWord :: nat where "kReachedWord = 2"
definition kResultHeaderWords :: nat where "kResultHeaderWords = 3"
definition kResultWords :: nat where
  "kResultWords = kResultHeaderWords + kMaxCandidates * kCandidateWords"
definition kTargetSeconds :: rat where "kTargetSeconds = 5 / 100"

lemmas result_layout = kCandidateWords_def kFoundWord_def kBestWord_def kReachedWord_def
  kResultHeaderWords_def kResultWords_def kMaxCandidates_def

section \<open>What the kernel asks of its algorithm\<close>

record 'p algorithm_ops =
  al_prepare :: "Dispatch \<Rightarrow> nat \<Rightarrow> u8 list"
  al_prepare_uniform :: "Dispatch \<Rightarrow> nat \<Rightarrow> u8 list"
  al_program_values :: "u64 \<Rightarrow> nat \<Rightarrow> u32 list"
  al_next_program_key :: "u64 \<Rightarrow> u64"
  al_table :: "'p table_source"

section \<open>Pipelines, buffers and what the device does with them\<close>

datatype buffer = Results nat | Readback nat | Scratch nat | Uniform nat | TablePiece nat

record ComputePipelineDesc =
  de_spirv :: "u32 list option"
  de_storage_buffers :: u32
  de_push_constant_bytes :: u32
  de_local_size_x :: u32
  de_uniform_buffer :: bool
  de_probe_best :: bool
  de_count_reached :: bool
  de_nonces_per_invocation :: u32
  de_shared_chunks :: u32
  de_shared_chunk_words :: u32
  de_program :: "u32 list option"
  de_program_count :: u32
  de_constants :: "u32 list"
  de_sets :: nat

text \<open>A pipeline is named by a number; its sets are the buffers each of them points at.\<close>

record pipeline =
  pl_id :: nat
  pl_desc :: ComputePipelineDesc
  pl_sets :: "buffer list list"
  pl_uniforms :: "buffer list"

text \<open>
  The commands of a dispatch: fills of one word and from a word to the end, the run of a pipeline
  with one of its sets, and the copy of a slot's results to the buffer the host reads.
\<close>

datatype command =
    FillWord nat nat u32
  | FillFrom nat nat u32
  | Barrier
  | RunPipeline pipeline nat u32 "u8 list"
  | CopyResults nat nat

record kernel_gpu = "command device_queue" +
  kg_results :: "nat \<Rightarrow> u32 list"
  kg_readback :: "nat \<Rightarrow> u32 list"
  kg_uniform :: "nat \<Rightarrow> u8 list"
  kg_made :: nat
  kg_live :: "nat set"

text \<open>
  The compiled shader, as an argument: what it leaves in each word of the results buffer, from the
  pipeline's description, the workgroups it is run in, the push block, the uniform block and the
  buffer as it found it.
\<close>

type_synonym shader = "ComputePipelineDesc \<Rightarrow> u32 \<Rightarrow> u8 list \<Rightarrow> u8 list \<Rightarrow> u32 list \<Rightarrow> nat \<Rightarrow> u32"

definition uniform_of :: "pipeline \<Rightarrow> nat \<Rightarrow> kernel_gpu \<Rightarrow> u8 list" where
  "uniform_of p i g =
     (if i < length (pl_uniforms p)
      then case pl_uniforms p ! i of Uniform u \<Rightarrow> kg_uniform g u | _ \<Rightarrow> []
      else [])"

primrec execute :: "shader \<Rightarrow> command \<Rightarrow> kernel_gpu \<Rightarrow> kernel_gpu" where
  "execute run (FillWord i w v) g = g\<lparr>kg_results := (kg_results g)(i := (kg_results g i)[w := v])\<rparr>"
| "execute run (FillFrom i w v) g =
     g\<lparr>kg_results := (kg_results g)(i := take w (kg_results g i) @ replicate (length (kg_results g i) - w) v)\<rparr>"
| "execute run Barrier g = g"
| "execute run (RunPipeline p i groups push) g =
     (case pl_sets p ! i ! 0 of
        Results j \<Rightarrow> g\<lparr>kg_results := (kg_results g)(j :=
            map (run (pl_desc p) groups push (uniform_of p i g) (kg_results g j)) [0..<length (kg_results g j)])\<rparr>
      | _ \<Rightarrow> g)"
| "execute run (CopyResults i n) g =
     g\<lparr>kg_readback := (kg_readback g)(i := take n (kg_results g i) @ drop n (kg_readback g i))\<rparr>"

text \<open>
  The device finishing what it runs from slot \<open>i\<close>, at whatever moment it does; a wait whose fence
  is signalled is one after that, and waiting for the device waits for all of it.
\<close>

definition finish :: "shader \<Rightarrow> nat \<Rightarrow> kernel_gpu \<Rightarrow> kernel_gpu" where
  "finish run i g =
     (case dq_running g i of None \<Rightarrow> g
      | Some cs \<Rightarrow> let g = fold (execute run) cs g in g\<lparr>dq_running := (dq_running g)(i := None)\<rparr>)"

definition fence_waited :: "shader \<Rightarrow> fence_result \<Rightarrow> nat \<Rightarrow> kernel_gpu \<Rightarrow> kernel_gpu" where
  "fence_waited run answer i g = (if answer = Signalled then finish run i g else g)"

definition wait_idle :: "shader \<Rightarrow> nat \<Rightarrow> kernel_gpu \<Rightarrow> kernel_gpu" where
  "wait_idle run slots g = for_up slots (finish run) g"

definition destroy_pipeline :: "pipeline option \<Rightarrow> kernel_gpu \<Rightarrow> kernel_gpu" where
  "destroy_pipeline p g = (case p of None \<Rightarrow> g | Some p \<Rightarrow> g\<lparr>kg_live := kg_live g - {pl_id p}\<rparr>)"

section \<open>The kernel's state\<close>

record Pending =
  pe_slot :: nat
  pe_count :: u32
  pe_full_batch :: bool

record VulkanKernel =
  vk_pipeline :: "pipeline option"
  vk_ring :: CommandRing
  vk_desc :: ComputePipelineDesc
  vk_bound :: "buffer list list"
  vk_program_constants :: u32
  vk_program_key :: u64
  vk_program_ready :: bool
  vk_retiring :: "pipeline option"
  vk_ahead :: "u64 option"
  vk_builds :: u64
  vk_ahead_used :: u64
  vk_state_key :: u64
  vk_state_ready :: bool
  vk_queue :: "Pending list"
  vk_depth :: nat
  vk_head :: nat
  vk_inflight :: nat
  vk_last_done :: rat
  vk_prev_full :: bool
  vk_hold :: nat
  vk_push_bytes :: u32
  vk_uniform_bytes :: u32
  vk_local :: u32
  vk_batch :: u32
  vk_lanes :: u32
  vk_nonces :: u32
  vk_per_group :: u32
  vk_max_batch :: u32
  vk_probe_best :: bool
  vk_best_ratio_sum :: rat
  vk_best_samples :: u64
  vk_count_reached :: bool
  vk_reached_total :: u64
  vk_reached_dispatched :: u64
  vk_reached_samples :: u64
  vk_reached_short :: u64

section \<open>How many nonces a dispatch carries\<close>

definition clamp_batch :: "DeviceInfo \<Rightarrow> VulkanKernel \<Rightarrow> VulkanKernel" where
  "clamp_batch info k =
     (let least = kMinBatch div vk_lanes k * vk_nonces k;
          least = (if least < vk_per_group k then vk_per_group k else least);
          batch = (if vk_batch k < least then least else vk_batch k);
          batch = (if kMaxBatch < batch then kMaxBatch else batch);
          batch = (if vk_max_batch k < batch then vk_max_batch k else batch);
          batch = (if d_max_workgroup_count info \<noteq> 0
                   then let most = ucast (d_max_workgroup_count info) * ucast (vk_per_group k) :: u64
                        in if most < ucast batch then ucast most else batch
                   else batch)
      in k\<lparr>vk_batch := batch\<rparr>)"

definition retune :: "DeviceInfo \<Rightarrow> rat \<Rightarrow> VulkanKernel \<Rightarrow> VulkanKernel" where
  "retune info seconds k =
     (if seconds \<le> 0 then k
      else if vk_hold k \<noteq> 0 then k\<lparr>vk_hold := vk_hold k - 1\<rparr>
      else
        let scale = kTargetSeconds / seconds;
            scale = (if scale > 4 then 4 else scale);
            scale = (if scale < 1 / 4 then 1 / 4 else scale);
            before = vk_batch k;
            wanted = of_nat (unat (vk_batch k)) * scale;
            k = k\<lparr>vk_batch := (if of_nat (unat kMaxBatch) \<le> wanted then kMaxBatch
                              else of_nat (nat \<lfloor>wanted\<rfloor>))\<rparr>;
            k = clamp_batch info k
        in if vk_batch k \<noteq> before then k\<lparr>vk_hold := vk_depth k\<rparr> else k)"

section \<open>Pipelines, and the program a header names\<close>

text \<open>\<open>created\<close> is the driver's answer to building the pipeline.\<close>

definition build_pipeline ::
  "bool \<Rightarrow> u32 list option \<Rightarrow> VulkanKernel \<Rightarrow> kernel_gpu \<Rightarrow> pipeline option \<times> VulkanKernel \<times> kernel_gpu" where
  "build_pipeline created program k g =
     (let desc = (vk_desc k)\<lparr>de_program := program,
                    de_program_count := (if program \<noteq> None then vk_program_constants k else 0)\<rparr>
      in if \<not> created then (None, k, g)
         else (Some \<lparr>pl_id = kg_made g, pl_desc = desc, pl_sets = vk_bound k,
                 pl_uniforms = (if vk_uniform_bytes k \<noteq> 0 then map Uniform [0..<length (vk_bound k)] else [])\<rparr>,
               k\<lparr>vk_builds := vk_builds k + 1\<rparr>,
               g\<lparr>kg_made := kg_made g + 1, kg_live := insert (kg_made g) (kg_live g)\<rparr>))"

definition kernel_build_program ::
  "bool \<Rightarrow> 'p algorithm_ops option \<Rightarrow> u64 \<Rightarrow> VulkanKernel \<Rightarrow> kernel_gpu \<Rightarrow>
   pipeline option \<times> VulkanKernel \<times> kernel_gpu" where
  "kernel_build_program created alg key k g =
     (let values = (case alg of None \<Rightarrow> []
                    | Some a \<Rightarrow> al_program_values a key (unat (vk_program_constants k)))
      in if length values \<noteq> unat (vk_program_constants k) then (None, k, g)
         else build_pipeline created (Some values) k g)"

definition start_ahead :: "u64 \<Rightarrow> VulkanKernel \<Rightarrow> VulkanKernel" where
  "start_ahead key k =
     (if key = 0 \<or> vk_ahead k \<noteq> None then k
      else if vk_program_ready k \<and> key = vk_program_key k then k
      else k\<lparr>vk_ahead := Some key\<rparr>)"

text \<open>
  The background build is taken to run when its thread is joined: it touches nothing the other
  thread does. What it built is used when it is for the program wanted, and destroyed otherwise.
\<close>

definition join_ahead ::
  "bool \<Rightarrow> 'p algorithm_ops option \<Rightarrow> u64 \<Rightarrow> VulkanKernel \<Rightarrow> kernel_gpu \<Rightarrow>
   pipeline option \<times> VulkanKernel \<times> kernel_gpu" where
  "join_ahead created alg key k g =
     (case vk_ahead k of None \<Rightarrow> (None, k, g)
      | Some ahead_key \<Rightarrow>
          let (built, k, g) = kernel_build_program created alg ahead_key k g;
              k = k\<lparr>vk_ahead := None\<rparr>
          in if ahead_key = key \<and> built \<noteq> None
             then (built, k\<lparr>vk_ahead_used := vk_ahead_used k + 1\<rparr>, g)
             else (None, k, destroy_pipeline built g))"

definition retire :: "shader \<Rightarrow> pipeline option \<Rightarrow> VulkanKernel \<Rightarrow> kernel_gpu \<Rightarrow> VulkanKernel \<times> kernel_gpu" where
  "retire run old k g =
     (if old = None then (k, g)
      else
        let (k, g) = (if vk_retiring k \<noteq> None
                      then (k\<lparr>vk_retiring := None\<rparr>,
                            destroy_pipeline (vk_retiring k) (wait_idle run (vk_depth k) g))
                      else (k, g))
        in if vk_inflight k \<noteq> 0 then (k\<lparr>vk_retiring := old\<rparr>, g)
           else (k, destroy_pipeline old g))"

record program_answers =
  pa_ahead :: bool
  pa_build :: bool

definition prepare_program ::
  "shader \<Rightarrow> program_answers \<Rightarrow> 'p algorithm_ops option \<Rightarrow> u64 \<Rightarrow> VulkanKernel \<Rightarrow> kernel_gpu \<Rightarrow>
   bool \<times> VulkanKernel \<times> kernel_gpu" where
  "prepare_program run ans alg key k g =
     (if vk_program_constants k = 0 then (True, k, g)
      else if vk_program_ready k \<and> key = vk_program_key k then (True, k, g)
      else
        let (ready, k, g) = join_ahead (pa_ahead ans) alg key k g;
            (ready, k, g) = (if ready \<noteq> None then (ready, k, g)
                             else kernel_build_program (pa_build ans) alg key k g)
        in if ready = None then (False, k, g)
           else
             let (k, g) = retire run (vk_pipeline k) k g;
                 k = k\<lparr>vk_pipeline := ready, vk_program_key := key, vk_program_ready := True\<rparr>
             in (True, start_ahead (case alg of None \<Rightarrow> 0 | Some a \<Rightarrow> al_next_program_key a key) k, g))"

definition program_stats :: "VulkanKernel \<Rightarrow> u64 \<times> u64" where
  "program_stats k = (vk_builds k, vk_ahead_used k)"

section \<open>The table\<close>

text \<open>
  The table is the device's, and other kernels use it: it is passed in as it is now and handed
  back. A kernel without one has \<open>None\<close>.
\<close>

definition prepare_state ::
  "'p device_run \<Rightarrow> 'p algorithm_ops option \<Rightarrow> u64 \<Rightarrow> VulkanKernel \<Rightarrow> SharedState option \<Rightarrow>
   (bool \<times> VulkanKernel \<times> SharedState option) option" where
  "prepare_state dev alg key k shared =
     (case shared of None \<Rightarrow> Some (True, k, None)
      | Some s \<Rightarrow>
          case alg of None \<Rightarrow> Some (False, k, shared)
          | Some a \<Rightarrow>
              case ensure dev (al_table a) key s of None \<Rightarrow> None
              | Some (ok, s) \<Rightarrow>
                  if \<not> ok then Some (False, k, Some s)
                  else Some (True, k\<lparr>vk_state_key := key, vk_state_ready := True\<rparr>, Some s))"

section \<open>A dispatch\<close>

record 'p dispatch_answers =
  da_table :: "'p device_run"
  da_ring :: begin_answers
  da_flush :: bool
  da_submit :: submit_answers

text \<open>Whether the table holds what this kernel was last told to hash against, put right if not.\<close>

definition dispatch_table ::
  "'p device_run \<Rightarrow> 'p algorithm_ops option \<Rightarrow> VulkanKernel \<Rightarrow> SharedState option \<Rightarrow>
   (bool \<times> SharedState option) option" where
  "dispatch_table dev alg k shared =
     (case shared of None \<Rightarrow> Some (True, None)
      | Some s \<Rightarrow>
          if \<not> vk_state_ready k then Some (False, shared)
          else case alg of None \<Rightarrow> Some (False, shared)
               | Some a \<Rightarrow> map_option (\<lambda>(ok, s). (ok, Some s)) (ensure dev (al_table a) (vk_state_key k) s))"

definition dispatch_job :: "u32 list \<Rightarrow> u32 list \<Rightarrow> u64 \<Rightarrow> u32 \<Rightarrow> Dispatch" where
  "dispatch_job header target nonce_start n =
     \<lparr>dis_header = Some header, dis_target = Some target, dis_nonce_start = nonce_start,
      dis_count = n, dis_capacity = of_nat kMaxCandidates\<rparr>"

definition dispatch_commands :: "pipeline \<Rightarrow> nat \<Rightarrow> u32 \<Rightarrow> u8 list \<Rightarrow> command list" where
  "dispatch_commands p index groups push =
     [FillWord index kFoundWord 0, FillWord index kBestWord 0xffffffff, FillFrom index kReachedWord 0,
      Barrier, RunPipeline p index groups push, Barrier, CopyResults index kResultWords]"

definition groups_of :: "VulkanKernel \<Rightarrow> u32 \<Rightarrow> u32" where
  "groups_of k n = (n + vk_per_group k - 1) div vk_per_group k"

text \<open>What the algorithm makes of the job, refused unless it fills exactly the declared blocks.\<close>

definition dispatch_blocks ::
  "'p algorithm_ops option \<Rightarrow> Dispatch \<Rightarrow> VulkanKernel \<Rightarrow> (u8 list \<times> u8 list) option" where
  "dispatch_blocks alg job k =
     (let push = (case alg of None \<Rightarrow> [] | Some a \<Rightarrow> al_prepare a job 128)
      in if length push \<noteq> unat (vk_push_bytes k) then None
         else if vk_uniform_bytes k \<noteq> 0
         then let block = (case alg of None \<Rightarrow> [] | Some a \<Rightarrow> al_prepare_uniform a job kMaxUniformBytes)
              in if length block \<noteq> unat (vk_uniform_bytes k) then None else Some (push, block)
         else Some (push, []))"

text \<open>The part of a dispatch that holds a slot of the ring.\<close>

definition dispatch_slot ::
  "'p dispatch_answers \<Rightarrow> nat \<Rightarrow> u32 \<Rightarrow> u8 list \<Rightarrow> u8 list \<Rightarrow> VulkanKernel \<Rightarrow> kernel_gpu \<Rightarrow>
   bool \<times> VulkanKernel \<times> kernel_gpu" where
  "dispatch_slot ans index n push block k g =
     (let g = (if vk_uniform_bytes k \<noteq> 0 then g\<lparr>kg_uniform := (kg_uniform g)(index := block)\<rparr> else g)
      in if vk_uniform_bytes k \<noteq> 0 \<and> \<not> da_flush ans then (False, k, g)
         else
           let cs = (case vk_pipeline k of None \<Rightarrow> []
                     | Some p \<Rightarrow> dispatch_commands p index (groups_of k n) push);
               g = g\<lparr>dq_cmd := (dq_cmd g)(index := dq_cmd g index @ cs)\<rparr>;
               (sent, ring, g) = ring_submit (da_submit ans) index (vk_ring k) g;
               k = k\<lparr>vk_ring := ring\<rparr>
           in if \<not> sent then (False, k, g)
              else
                let entry = \<lparr>pe_slot = index, pe_count = n, pe_full_batch = (n = vk_batch k)\<rparr>
                in (True,
                    k\<lparr>vk_queue := (vk_queue k)[(vk_head k + vk_inflight k) mod vk_depth k := entry],
                      vk_inflight := vk_inflight k + 1\<rparr>, g))"

definition dispatch_ready :: "VulkanKernel \<Rightarrow> u32 \<Rightarrow> bool" where
  "dispatch_ready k n \<longleftrightarrow>
     \<not> (vk_program_constants k \<noteq> 0 \<and> \<not> vk_program_ready k) \<and> \<not> vk_max_batch k < n \<and>
     \<not> vk_depth k \<le> vk_inflight k"

definition dispatch_run ::
  "shader \<Rightarrow> 'p dispatch_answers \<Rightarrow> 'p algorithm_ops option \<Rightarrow> Dispatch \<Rightarrow> VulkanKernel \<Rightarrow> kernel_gpu \<Rightarrow>
   bool \<times> VulkanKernel \<times> kernel_gpu" where
  "dispatch_run run ans alg job k g =
     (if \<not> dispatch_ready k (dis_count job) then (False, k, g)
      else case dispatch_blocks alg job k of None \<Rightarrow> (False, k, g)
      | Some (push, block) \<Rightarrow>
          let g = fence_waited run (ba_fence (da_ring ans)) (cr_next (vk_ring k)) g;
              (slot, ring, g) = ring_begin (da_ring ans) (vk_ring k) g;
              k = k\<lparr>vk_ring := ring\<rparr>
          in case slot of None \<Rightarrow> (False, k, g)
             | Some i \<Rightarrow> dispatch_slot ans (rs_index (cr_slots ring ! i)) (dis_count job) push block k g)"

definition dispatch ::
  "shader \<Rightarrow> 'p dispatch_answers \<Rightarrow> 'p algorithm_ops option \<Rightarrow> u32 list \<Rightarrow> u32 list \<Rightarrow> u64 \<Rightarrow> u32 \<Rightarrow>
   VulkanKernel \<Rightarrow> kernel_gpu \<Rightarrow> SharedState option \<Rightarrow>
   (bool \<times> VulkanKernel \<times> kernel_gpu \<times> SharedState option) option" where
  "dispatch run ans alg header target nonce_start n k g shared =
     (if n = 0 then Some (False, k, g, shared)
      else case dispatch_table (da_table ans) alg k shared of None \<Rightarrow> None
      | Some (False, shared) \<Rightarrow> Some (False, k, g, shared)
      | Some (True, shared) \<Rightarrow>
          let (ok, k, g) = dispatch_run run ans alg (dispatch_job header target nonce_start n) k g
          in Some (ok, k, g, shared))"

section \<open>A collect\<close>

record collect_answers =
  ca_poll :: fence_result
  ca_wait :: fence_result
  ca_now :: rat
  ca_invalidate :: bool

definition candidate_at :: "u32 list \<Rightarrow> nat \<Rightarrow> Solution" where
  "candidate_at result i =
     (let candidate = drop (kResultHeaderWords + i * kCandidateWords) result
      in \<lparr>s_nonce = ucast (candidate ! 0) OR push_bit 32 (ucast (candidate ! 1)),
          s_hash = take 8 (drop 2 candidate)\<rparr>)"

definition read_candidates :: "u32 list \<Rightarrow> int \<Rightarrow> Solution list" where
  "read_candidates result most =
     (let found = result ! kFoundWord;
          found = (if of_nat kMaxCandidates < found then of_nat kMaxCandidates else found);
          found = (if 0 \<le> most \<and> most < uint found then of_int most else found)
      in map (candidate_at result) [0..<unat found])"

text \<open>The two counters a collect keeps where it was asked to.\<close>

definition count_probes :: "u32 list \<Rightarrow> u32 \<Rightarrow> VulkanKernel \<Rightarrow> VulkanKernel" where
  "count_probes result n k =
     (let k = (if vk_probe_best k
               then k\<lparr>vk_best_ratio_sum := vk_best_ratio_sum k
                        + of_nat (unat (result ! kBestWord)) * of_nat (unat n) / 4294967296,
                      vk_best_samples := vk_best_samples k + 1\<rparr>
               else k)
      in if vk_count_reached k
         then let reached = result ! kReachedWord
              in k\<lparr>vk_reached_total := vk_reached_total k + ucast reached,
                   vk_reached_dispatched := vk_reached_dispatched k + ucast n,
                   vk_reached_samples := vk_reached_samples k + 1,
                   vk_reached_short := (if reached \<noteq> n then vk_reached_short k + 1
                                        else vk_reached_short k)\<rparr>
         else k)"

text \<open>The wait for the oldest dispatch: whether it finished, and whether it did so in time.\<close>

definition collect_wait ::
  "shader \<Rightarrow> DeviceInfo \<Rightarrow> collect_answers \<Rightarrow> Pending \<Rightarrow> VulkanKernel \<Rightarrow> kernel_gpu \<Rightarrow>
   (bool \<times> bool) \<times> VulkanKernel \<times> kernel_gpu" where
  "collect_wait run info ans entry k g =
     (let g = fence_waited run (ca_poll ans) (pe_slot entry) g;
          ((ok, finished), ring) = ring_poll (ca_poll ans) (pe_slot entry) (vk_ring k);
          k = k\<lparr>vk_ring := ring\<rparr>
      in if \<not> ok then ((False, finished), k, g)
         else if finished then ((True, True), k, g)
         else
           let k = (if pe_count entry = vk_batch k
                    then (clamp_batch info (k\<lparr>vk_batch := vk_batch k div 4\<rparr>))\<lparr>vk_hold := vk_depth k\<rparr>
                    else k);
               g = fence_waited run (ca_wait ans) (pe_slot entry) g;
               (ok, ring) = ring_wait (ca_wait ans) (pe_slot entry) (vk_ring k)
           in ((ok, False), k\<lparr>vk_ring := ring\<rparr>, g))"

definition collect ::
  "shader \<Rightarrow> DeviceInfo \<Rightarrow> collect_answers \<Rightarrow> int \<Rightarrow> VulkanKernel \<Rightarrow> kernel_gpu \<Rightarrow>
   Solution list option \<times> VulkanKernel \<times> kernel_gpu" where
  "collect run info ans most k g =
     (if vk_inflight k = 0 then (Some [], k, g)
      else
        let entry = vk_queue k ! vk_head k;
            was_full = (vk_inflight k = vk_depth k);
            k = k\<lparr>vk_head := (vk_head k + 1) mod vk_depth k, vk_inflight := vk_inflight k - 1\<rparr>;
            (k, g) = (if vk_inflight k = 0
                      then (k\<lparr>vk_retiring := None\<rparr>, destroy_pipeline (vk_retiring k) g) else (k, g));
            ((ok, in_time), k, g) = collect_wait run info ans entry k g
        in if \<not> ok then (None, k, g)
           else
             let k = (if in_time \<and> was_full \<and> vk_prev_full k \<and> pe_full_batch entry
                      then retune info (ca_now ans - vk_last_done k) k else k);
                 k = k\<lparr>vk_prev_full := was_full, vk_last_done := ca_now ans\<rparr>
             in if \<not> ca_invalidate ans then (None, k, g)
                else let result = kg_readback g (pe_slot entry)
                     in (Some (read_candidates result most), count_probes result (pe_count entry) k, g))"

definition best_digest :: "VulkanKernel \<Rightarrow> rat \<times> u64" where
  "best_digest k = (vk_best_ratio_sum k, vk_best_samples k)"

definition reached_count :: "VulkanKernel \<Rightarrow> u64 \<times> u64 \<times> u64 \<times> u64" where
  "reached_count k = (vk_reached_total k, vk_reached_dispatched k, vk_reached_samples k, vk_reached_short k)"

definition preferred_batch :: "VulkanKernel \<Rightarrow> u32" where "preferred_batch k = vk_batch k"

definition queue_depth :: "VulkanKernel \<Rightarrow> nat" where "queue_depth k = vk_depth k"

section \<open>Building a kernel\<close>

text \<open>The process-wide options init reads besides those of the fit, and the driver's answers.\<close>

record kernel_options =
  ko_fit :: fit_options
  ko_vk_probe_best :: bool
  ko_vk_count_reached :: bool

record init_answers =
  ia_buffer :: "buffer \<Rightarrow> u64 \<Rightarrow> bool"
  ia_memory :: "buffer \<Rightarrow> nat \<Rightarrow> u32"
  ia_pipeline :: bool
  ia_pool :: bool
  ia_commands :: bool
  ia_fence :: "nat \<Rightarrow> bool"

datatype init_error =
    GivenNoSharedState u64
  | PushConstantsTooLarge u32
  | UniformBlockTooLarge u32
  | DoesNotFit fit_error
  | TooManyTableBindings u32
  | TooFewStorageBuffers u32 u32
  | TooManyProgramConstants u32
  | NoBuffer buffer
  | NoPipeline
  | NoCommandRing

definition shared_bindings :: "KernelSpec \<Rightarrow> u32" where
  "shared_bindings spec =
     (if k_shared_bytes spec \<noteq> 0 then (if k_shared_chunks spec \<noteq> 0 then k_shared_chunks spec else 1) else 0)"

definition bindings_needed :: "KernelSpec \<Rightarrow> u32" where
  "bindings_needed spec = 1 + (if k_scratch_bytes spec \<noteq> 0 then 1 else 0) + shared_bindings spec"

definition storage_buffers :: "KernelSpec \<Rightarrow> u32" where
  "storage_buffers spec = (if k_storage_buffers spec \<noteq> 0 then k_storage_buffers spec else 1)"

text \<open>The refusals of init, in their order, and the shape it goes on with.\<close>

definition init_checks ::
  "kernel_options \<Rightarrow> DeviceInfo \<Rightarrow> KernelSpec \<Rightarrow> SharedState option \<Rightarrow> init_error + KernelFit" where
  "init_checks opts info spec shared =
     (if k_shared_bytes spec \<noteq> 0 \<and> shared = None then Inl (GivenNoSharedState (k_shared_bytes spec))
      else if 128 < k_push_constant_bytes spec then Inl (PushConstantsTooLarge (k_push_constant_bytes spec))
      else if of_nat kMaxUniformBytes < k_uniform_bytes spec then Inl (UniformBlockTooLarge (k_uniform_bytes spec))
      else case vulkan_kernel_fit (ko_fit opts) info spec
                  (case shared of None \<Rightarrow> 0 | Some s \<Rightarrow> of_nat (ss_bytes s)) of
             Inl why \<Rightarrow> Inl (DoesNotFit why)
           | Inr fit \<Rightarrow>
               if of_nat kMaxSharedChunks < shared_bindings spec then Inl (TooManyTableBindings (shared_bindings spec))
               else if storage_buffers spec < bindings_needed spec
               then Inl (TooFewStorageBuffers (storage_buffers spec) (bindings_needed spec))
               else if of_nat kMaxProgramConstants < k_program_constants spec
               then Inl (TooManyProgramConstants (k_program_constants spec))
               else Inr fit)"

definition init_desc ::
  "kernel_options \<Rightarrow> KernelSpec \<Rightarrow> KernelFit \<Rightarrow> SharedState option \<Rightarrow> ComputePipelineDesc" where
  "init_desc opts spec fit shared =
     \<lparr>de_spirv = k_spirv spec, de_storage_buffers = storage_buffers spec,
      de_push_constant_bytes = k_push_constant_bytes spec, de_local_size_x = fit_local_size_x fit,
      de_uniform_buffer = (k_uniform_bytes spec \<noteq> 0), de_probe_best = ko_vk_probe_best opts,
      de_count_reached = ko_vk_count_reached opts, de_nonces_per_invocation = fit_nonces fit,
      de_shared_chunks = (case shared of None \<Rightarrow> 0 | Some s \<Rightarrow> of_nat (length (ss_chunk s))),
      de_shared_chunk_words = (case shared of None \<Rightarrow> 0 | Some s \<Rightarrow> of_nat (ss_chunk_bytes s div 4)),
      de_program = None, de_program_count = 0, de_constants = k_constants spec,
      de_sets = unat (fit_depth fit)\<rparr>"

text \<open>What one slot needs: its buffers, and what its descriptor set points at.\<close>

definition slot_bound :: "KernelSpec \<Rightarrow> SharedState option \<Rightarrow> nat \<Rightarrow> buffer list" where
  "slot_bound spec shared i =
     [Results i] @ (if k_scratch_bytes spec \<noteq> 0 then [Scratch i] else []) @
     (case shared of None \<Rightarrow> []
      | Some s \<Rightarrow> map (\<lambda>c. TablePiece (if c < length (ss_chunk s) then c else length (ss_chunk s) - 1))
                   [0..<unat (shared_bindings spec)])"

definition slot_buffers :: "init_answers \<Rightarrow> KernelSpec \<Rightarrow> KernelFit \<Rightarrow> nat \<Rightarrow> buffer option" where
  "slot_buffers ans spec fit i =
     (let bytes = of_nat (kResultWords * 4)
      in if \<not> ia_buffer ans (Results i) bytes then Some (Results i)
         else if \<not> ia_buffer ans (Readback i) bytes then Some (Readback i)
         else if k_scratch_bytes spec \<noteq> 0
                 \<and> \<not> ia_buffer ans (Scratch i) (ucast (fit_max_batch fit) * k_scratch_bytes spec)
         then Some (Scratch i)
         else if k_uniform_bytes spec \<noteq> 0 \<and> \<not> ia_buffer ans (Uniform i) (ucast (k_uniform_bytes spec))
         then Some (Uniform i)
         else None)"

primrec init_slots ::
  "init_answers \<Rightarrow> KernelSpec \<Rightarrow> KernelFit \<Rightarrow> SharedState option \<Rightarrow> nat \<Rightarrow> init_error + buffer list list" where
  "init_slots ans spec fit shared 0 = Inr []"
| "init_slots ans spec fit shared (Suc i) =
     (case init_slots ans spec fit shared i of Inl e \<Rightarrow> Inl e
      | Inr bound \<Rightarrow>
          case slot_buffers ans spec fit i of Some b \<Rightarrow> Inl (NoBuffer b)
          | None \<Rightarrow> Inr (bound @ [slot_bound spec shared i]))"

text \<open>The members as the constructor leaves them, with what init has decided by then.\<close>

definition fresh_kernel ::
  "kernel_options \<Rightarrow> KernelSpec \<Rightarrow> KernelFit \<Rightarrow> SharedState option \<Rightarrow> buffer list list \<Rightarrow> VulkanKernel" where
  "fresh_kernel opts spec fit shared bound =
     \<lparr>vk_pipeline = None, vk_ring = \<lparr>cr_slots = [], cr_next = 0\<rparr>, vk_desc = init_desc opts spec fit shared,
      vk_bound = bound, vk_program_constants = k_program_constants spec, vk_program_key = 0,
      vk_program_ready = False, vk_retiring = None, vk_ahead = None, vk_builds = 0, vk_ahead_used = 0,
      vk_state_key = 0, vk_state_ready = False,
      vk_queue = replicate (unat (fit_depth fit)) \<lparr>pe_slot = 0, pe_count = 0, pe_full_batch = False\<rparr>,
      vk_depth = unat (fit_depth fit), vk_head = 0, vk_inflight = 0, vk_last_done = 0,
      vk_prev_full = False, vk_hold = 0, vk_push_bytes = k_push_constant_bytes spec,
      vk_uniform_bytes = k_uniform_bytes spec, vk_local = fit_local_size_x fit, vk_batch = kMinBatch,
      vk_lanes = fit_lanes fit, vk_nonces = fit_nonces fit, vk_per_group = fit_per_group fit,
      vk_max_batch = fit_max_batch fit, vk_probe_best = ko_vk_probe_best opts,
      vk_best_ratio_sum = 0, vk_best_samples = 0, vk_count_reached = ko_vk_count_reached opts,
      vk_reached_total = 0, vk_reached_dispatched = 0, vk_reached_samples = 0, vk_reached_short = 0\<rparr>"

text \<open>The device as init finds it: its buffers hold whatever they hold, and nothing runs.\<close>

definition fresh_gpu :: "init_answers \<Rightarrow> kernel_gpu" where
  "fresh_gpu ans =
     \<lparr>dq_cmd = (\<lambda>_. []), dq_running = (\<lambda>_. None),
      kg_results = (\<lambda>i. map (ia_memory ans (Results i)) [0..<kResultWords]),
      kg_readback = (\<lambda>i. map (ia_memory ans (Readback i)) [0..<kResultWords]),
      kg_uniform = (\<lambda>_. []), kg_made = 0, kg_live = {}\<rparr>"

definition first_batch :: "DeviceInfo \<Rightarrow> VulkanKernel \<Rightarrow> VulkanKernel" where
  "first_batch info k =
     clamp_batch info (k\<lparr>vk_batch := (if d_kind info = Cpu then 0 else push_bit 20 1 div vk_lanes k)\<rparr>)"

definition init ::
  "kernel_options \<Rightarrow> init_answers \<Rightarrow> DeviceInfo \<Rightarrow> KernelSpec \<Rightarrow> SharedState option \<Rightarrow>
   init_error + VulkanKernel \<times> kernel_gpu" where
  "init opts ans info spec shared =
     (case init_checks opts info spec shared of Inl e \<Rightarrow> Inl e
      | Inr fit \<Rightarrow>
          case init_slots ans spec fit shared (unat (fit_depth fit)) of Inl e \<Rightarrow> Inl e
          | Inr bound \<Rightarrow>
              let k = fresh_kernel opts spec fit shared bound;
                  (p, k, g) = (if vk_program_constants k = 0
                               then build_pipeline (ia_pipeline ans) None k (fresh_gpu ans)
                               else (None, k, fresh_gpu ans));
                  k = k\<lparr>vk_pipeline := p\<rparr>
              in if vk_program_constants k = 0 \<and> p = None then Inl NoPipeline
                 else case ring_create (ia_pool ans) (ia_commands ans) (ia_fence ans) (vk_depth k) of
                        None \<Rightarrow> Inl NoCommandRing
                      | Some ring \<Rightarrow> Inr (first_batch info (k\<lparr>vk_ring := ring\<rparr>), g))"

definition make_vulkan_kernel ::
  "kernel_options \<Rightarrow> init_answers \<Rightarrow> DeviceInfo \<Rightarrow> KernelSpec \<Rightarrow> SharedState option \<Rightarrow>
   (VulkanKernel \<times> kernel_gpu) option" where
  "make_vulkan_kernel opts ans info spec shared =
     (case init opts ans info spec shared of Inl _ \<Rightarrow> None | Inr made \<Rightarrow> Some made)"

end
