(* ===== verification/Kernel_Steps.thy ===== *)
theory Kernel_Steps
  imports Vulkan_Kernel
begin


text \<open>
  What the operations of a Vulkan kernel leave alone, the steps a kernel goes through, and the
  bounds on what it dispatches: how many nonces it asks for, how fast that moves, and that no
  dispatch it accepts reaches past what was allocated for it.
\<close>

section \<open>What an operation leaves alone\<close>

text \<open>What is settled at init, and what only a collect moves.\<close>

definition settled :: "VulkanKernel \<Rightarrow> nat \<times> (u32 \<times> u32 \<times> u32 \<times> u32) \<times> ComputePipelineDesc \<times> buffer list list \<times> u32 \<times> u32 \<times> u32"
where
  "settled k = (vk_depth k, (vk_lanes k, vk_nonces k, vk_per_group k, vk_max_batch k), vk_desc k,
     vk_bound k, vk_program_constants k, vk_push_bytes k, vk_uniform_bytes k)"

definition pace :: "VulkanKernel \<Rightarrow> u32 \<times> nat \<times> rat \<times> bool" where
  "pace k = (vk_batch k, vk_hold k, vk_last_done k, vk_prev_full k)"

definition queued :: "VulkanKernel \<Rightarrow> CommandRing \<times> Pending list \<times> nat \<times> nat" where
  "queued k = (vk_ring k, vk_queue k, vk_head k, vk_inflight k)"

definition program :: "VulkanKernel \<Rightarrow> pipeline option \<times> u64 \<times> bool \<times> u64 option" where
  "program k = (vk_pipeline k, vk_program_key k, vk_program_ready k, vk_ahead k)"

lemmas frames = settled_def pace_def queued_def program_def

lemma clamp_batch_frame [simp]:
  "settled (clamp_batch info k) = settled k" "queued (clamp_batch info k) = queued k"
  "program (clamp_batch info k) = program k" "vk_retiring (clamp_batch info k) = vk_retiring k"
  by (simp_all add: clamp_batch_def frames Let_def)

lemma retune_frame [simp]:
  "settled (retune info t k) = settled k" "queued (retune info t k) = queued k"
  "program (retune info t k) = program k" "vk_retiring (retune info t k) = vk_retiring k"
  by (simp_all add: retune_def clamp_batch_def frames Let_def)

lemma count_probes_frame [simp]:
  "settled (count_probes ws n k) = settled k" "queued (count_probes ws n k) = queued k"
  "program (count_probes ws n k) = program k" "pace (count_probes ws n k) = pace k"
  "vk_retiring (count_probes ws n k) = vk_retiring k"
  by (simp_all add: count_probes_def frames Let_def)

lemma build_pipeline_frame:
  assumes "build_pipeline created p k g = (res, k', g')"
  shows "settled k' = settled k" "queued k' = queued k" "program k' = program k" "pace k' = pace k"
    "vk_retiring k' = vk_retiring k"
  using assms by (auto simp: build_pipeline_def frames Let_def split: if_splits)

lemma kernel_build_program_frame:
  assumes "kernel_build_program created alg key k g = (res, k', g')"
  shows "settled k' = settled k" "queued k' = queued k" "program k' = program k" "pace k' = pace k"
    "vk_retiring k' = vk_retiring k"
  using assms build_pipeline_frame [of created _ k g res k' g']
  by (auto simp: kernel_build_program_def Let_def split: if_splits)

lemma join_ahead_frame:
  assumes "join_ahead created alg key k g = (res, k', g')"
  shows "settled k' = settled k" "queued k' = queued k" "pace k' = pace k" "vk_retiring k' = vk_retiring k"
    "vk_pipeline k' = vk_pipeline k" "vk_program_key k' = vk_program_key k"
    "vk_program_ready k' = vk_program_ready k" "vk_ahead k' = None"
  using assms kernel_build_program_frame [of created alg _ k g]
  by (auto simp: join_ahead_def frames Let_def split: option.splits prod.splits if_splits)

lemma retire_frame:
  assumes "retire run old k g = (k', g')"
  shows "settled k' = settled k" "queued k' = queued k" "pace k' = pace k" "program k' = program k"
  using assms by (auto simp: retire_def frames Let_def split: if_splits)

lemma start_ahead_frame [simp]:
  "settled (start_ahead key k) = settled k" "queued (start_ahead key k) = queued k"
  "pace (start_ahead key k) = pace k" "vk_retiring (start_ahead key k) = vk_retiring k"
  "vk_pipeline (start_ahead key k) = vk_pipeline k" "vk_program_key (start_ahead key k) = vk_program_key k"
  "vk_program_ready (start_ahead key k) = vk_program_ready k"
  by (simp_all add: start_ahead_def frames)

text \<open>A program that is loaded, seen as its stages.\<close>

lemma prepare_program_stages:
  assumes "prepare_program run ans alg key k g = (ok, k', g')"
  obtains (kept) "ok" "k' = k" "g' = g" "vk_program_constants k = 0 \<or> vk_program_ready k \<and> key = vk_program_key k"
  | (refused) k1 g1 where "join_ahead (pa_ahead ans) alg key k g = (None, k1, g1)"
      "kernel_build_program (pa_build ans) alg key k1 g1 = (None, k', g')" "\<not> ok" "vk_program_constants k \<noteq> 0"
  | (loaded) p k1 g1 k2 where "ok" "vk_program_constants k \<noteq> 0" "\<not> (vk_program_ready k \<and> key = vk_program_key k)"
      "join_ahead (pa_ahead ans) alg key k g = (Some p, k1, g1) \<or>
       (\<exists>k0 g0. join_ahead (pa_ahead ans) alg key k g = (None, k0, g0) \<and>
                kernel_build_program (pa_build ans) alg key k0 g0 = (Some p, k1, g1))"
      "retire run (vk_pipeline k1) k1 g1 = (k2, g')"
      "k' = start_ahead (case alg of None \<Rightarrow> 0 | Some a \<Rightarrow> al_next_program_key a key)
              (k2\<lparr>vk_pipeline := Some p, vk_program_key := key, vk_program_ready := True\<rparr>)"
proof (cases "vk_program_constants k = 0 \<or> vk_program_ready k \<and> key = vk_program_key k")
  case True
  then show ?thesis using assms kept by (auto simp: prepare_program_def split: if_splits)
next
  case False
  obtain r1 k1 g1 where j: "join_ahead (pa_ahead ans) alg key k g = (r1, k1, g1)" by (metis prod_cases3)
  obtain r2 k2 g2 where b: "kernel_build_program (pa_build ans) alg key k1 g1 = (r2, k2, g2)" by (metis prod_cases3)
  have c: "vk_program_constants k \<noteq> 0" "\<not> (vk_program_ready k \<and> key = vk_program_key k)" using False by auto
  note e = assms [unfolded prepare_program_def Let_def j b prod.case if_not_P [OF c(1)] if_not_P [OF c(2)]]
  show ?thesis
  proof (cases r1)
    case (Some p)
    obtain k3 g3 where t: "retire run (vk_pipeline k1) k1 g1 = (k3, g3)" by (metis surj_pair)
    show ?thesis by (rule loaded [of p k1 g1 k3]) (use e j c t Some in simp_all)
  next
    case None
    show ?thesis
    proof (cases r2)
      case None2: None
      show ?thesis by (rule refused [of k1 g1]) (use e j b c None None2 in simp_all)
    next
      case (Some p)
      obtain k3 g3 where t: "retire run (vk_pipeline k2) k2 g2 = (k3, g3)" by (metis surj_pair)
      show ?thesis by (rule loaded [of p k2 g2 k3]) (use e j b c t None Some in simp_all)
    qed
  qed
qed

lemma prepare_program_frame:
  assumes "prepare_program run ans alg key k g = (ok, k', g')"
  shows "settled k' = settled k" "queued k' = queued k" "pace k' = pace k"
proof -
  have upd: "settled (k\<lparr>vk_pipeline := a, vk_program_key := b, vk_program_ready := c\<rparr>) = settled k"
    "queued (k\<lparr>vk_pipeline := a, vk_program_key := b, vk_program_ready := c\<rparr>) = queued k"
    "pace (k\<lparr>vk_pipeline := a, vk_program_key := b, vk_program_ready := c\<rparr>) = pace k" for a b c k
    by (simp_all add: frames)
  have "settled k' = settled k \<and> queued k' = queued k \<and> pace k' = pace k"
    using assms
  proof (cases rule: prepare_program_stages)
    case (refused k1 g1)
    show ?thesis using join_ahead_frame(1-3) [OF refused(1)] kernel_build_program_frame(1,2,4) [OF refused(2)] by simp
  next
    case (loaded p k1 g1 k2)
    have "settled k1 = settled k \<and> queued k1 = queued k \<and> pace k1 = pace k"
      using loaded(4)
    proof (elim disjE exE conjE)
      assume j: "join_ahead (pa_ahead ans) alg key k g = (Some p, k1, g1)"
      show ?thesis using join_ahead_frame(1-3) [OF j] by simp
    next
      fix k0 g0
      assume j: "join_ahead (pa_ahead ans) alg key k g = (None, k0, g0)"
        and b: "kernel_build_program (pa_build ans) alg key k0 g0 = (Some p, k1, g1)"
      show ?thesis using join_ahead_frame(1-3) [OF j] kernel_build_program_frame(1,2,4) [OF b] by simp
    qed
    then show ?thesis using retire_frame(1-3) [OF loaded(5)] by (simp add: loaded(6) upd)
  qed simp
  then show "settled k' = settled k" "queued k' = queued k" "pace k' = pace k" by simp_all
qed

lemma prepare_state_frame:
  assumes "prepare_state dev alg key k sh = Some (ok, k', sh')"
  shows "settled k' = settled k" "queued k' = queued k" "pace k' = pace k" "program k' = program k"
    "vk_retiring k' = vk_retiring k"
  using assms by (auto simp: prepare_state_def frames split: option.splits if_splits)

lemma dispatch_slot_frame:
  assumes "dispatch_slot ans i n push block k g = (ok, k', g')"
  shows "settled k' = settled k" "pace k' = pace k" "program k' = program k" "vk_retiring k' = vk_retiring k"
  using assms by (auto simp: dispatch_slot_def frames Let_def split: prod.splits if_splits)

lemma dispatch_run_frame:
  assumes "dispatch_run run ans alg job k g = (ok, k', g')"
  shows "settled k' = settled k" "pace k' = pace k" "program k' = program k" "vk_retiring k' = vk_retiring k"
proof -
  have *: "settled (k\<lparr>vk_ring := r\<rparr>) = settled k" "pace (k\<lparr>vk_ring := r\<rparr>) = pace k" "program (k\<lparr>vk_ring := r\<rparr>) = program k"
    "vk_retiring (k\<lparr>vk_ring := r\<rparr>) = vk_retiring k" for r by (simp_all add: frames)
  show "settled k' = settled k" "pace k' = pace k" "program k' = program k" "vk_retiring k' = vk_retiring k"
    using assms
    by (auto simp: dispatch_run_def Let_def * dest: dispatch_slot_frame split: prod.splits if_splits option.splits)
qed

lemma dispatch_frame:
  assumes "dispatch run ans alg header target nonce n k g sh = Some (ok, k', g', sh')"
  shows "settled k' = settled k" "pace k' = pace k" "program k' = program k" "vk_retiring k' = vk_retiring k"
  using assms dispatch_run_frame [of run ans alg _ k g]
  by (auto simp: dispatch_def Let_def split: prod.splits if_splits option.splits bool.splits)

text \<open>The state a collect ends in: the wait, then what it measures and counts.\<close>

lemma collect_wait_stages:
  assumes "collect_wait run info ans entry k g = (res, k', g')"
  obtains (error) finished r where "res = (False, finished)"
      "ring_poll (ca_poll ans) (pe_slot entry) (vk_ring k) = ((False, finished), r)"
      "k' = k\<lparr>vk_ring := r\<rparr>" "g' = fence_waited run (ca_poll ans) (pe_slot entry) g"
  | (prompt) r where "res = (True, True)"
      "ring_poll (ca_poll ans) (pe_slot entry) (vk_ring k) = ((True, True), r)"
      "k' = k\<lparr>vk_ring := r\<rparr>" "g' = fence_waited run (ca_poll ans) (pe_slot entry) g"
  | (slow) ok r k1 r' where "res = (ok, False)"
      "ring_poll (ca_poll ans) (pe_slot entry) (vk_ring k) = ((True, False), r)"
      "ring_wait (ca_wait ans) (pe_slot entry) r = (ok, r')"
      "k1 = (if pe_count entry = vk_batch k
             then (clamp_batch info (k\<lparr>vk_ring := r, vk_batch := vk_batch k div 4\<rparr>))\<lparr>vk_hold := vk_depth k\<rparr>
             else k\<lparr>vk_ring := r\<rparr>)" "k' = k1\<lparr>vk_ring := r'\<rparr>"
      "g' = fence_waited run (ca_wait ans) (pe_slot entry) (fence_waited run (ca_poll ans) (pe_slot entry) g)"
proof -
  obtain ok fin r where p: "ring_poll (ca_poll ans) (pe_slot entry) (vk_ring k) = ((ok, fin), r)" by (metis surj_pair)
  obtain ok2 r2 where w: "ring_wait (ca_wait ans) (pe_slot entry) r = (ok2, r2)" by (metis surj_pair)
  note e = assms [unfolded collect_wait_def Let_def p prod.case]
  consider "\<not> ok" | "ok" "fin" | "ok" "\<not> fin" by blast
  then show ?thesis
  proof cases
    case 1
    show ?thesis by (rule error [of fin r]) (use e p 1 in simp_all)
  next
    case 2
    show ?thesis by (rule prompt [of r]) (use e p 2 in simp_all)
  next
    case 3
    let ?k = "if pe_count entry = vk_batch k
             then (clamp_batch info (k\<lparr>vk_ring := r, vk_batch := vk_batch k div 4\<rparr>))\<lparr>vk_hold := vk_depth k\<rparr>
             else k\<lparr>vk_ring := r\<rparr>"
    have r: "vk_ring ?k = r" by (simp add: clamp_batch_def Let_def)
    show ?thesis by (rule slow [of ok2 r r2 ?k]) (use e p w 3 r in \<open>simp_all split: if_splits\<close>)
  qed
qed

lemma clamp_then_frame:
  "settled (clamp_batch info (k\<lparr>vk_ring := r, vk_batch := b\<rparr>)\<lparr>vk_hold := h\<rparr>) = settled k"
  "program (clamp_batch info (k\<lparr>vk_ring := r, vk_batch := b\<rparr>)\<lparr>vk_hold := h\<rparr>) = program k"
  "vk_retiring (clamp_batch info (k\<lparr>vk_ring := r, vk_batch := b\<rparr>)) = vk_retiring k"
  "vk_queue (clamp_batch info (k\<lparr>vk_ring := r, vk_batch := b\<rparr>)) = vk_queue k"
  "vk_head (clamp_batch info (k\<lparr>vk_ring := r, vk_batch := b\<rparr>)) = vk_head k"
  "vk_inflight (clamp_batch info (k\<lparr>vk_ring := r, vk_batch := b\<rparr>)) = vk_inflight k"
  by (simp_all add: clamp_batch_def frames Let_def)

lemma collect_wait_frame:
  assumes "collect_wait run info ans entry k g = (res, k', g')"
  shows "settled k' = settled k" "program k' = program k" "vk_retiring k' = vk_retiring k"
    "vk_queue k' = vk_queue k" "vk_head k' = vk_head k" "vk_inflight k' = vk_inflight k"
proof -
  have ring: "settled (k\<lparr>vk_ring := r\<rparr>) = settled k" "program (k\<lparr>vk_ring := r\<rparr>) = program k" for r k
    by (simp_all add: frames)
  have "settled k' = settled k \<and> program k' = program k \<and> vk_retiring k' = vk_retiring k \<and>
    vk_queue k' = vk_queue k \<and> vk_head k' = vk_head k \<and> vk_inflight k' = vk_inflight k"
    using assms
  proof (cases rule: collect_wait_stages)
    case (error finished r)
    show ?thesis by (simp add: error(3) ring)
  next
    case (prompt r)
    show ?thesis by (simp add: prompt(3) ring)
  next
    case (slow ok r k1 r')
    show ?thesis unfolding slow(4,5) by (simp add: ring clamp_then_frame)
  qed
  then show "settled k' = settled k" "program k' = program k" "vk_retiring k' = vk_retiring k"
    "vk_queue k' = vk_queue k" "vk_head k' = vk_head k" "vk_inflight k' = vk_inflight k" by simp_all
qed

text \<open>A collect of something outstanding, seen as its stages.\<close>

definition taken :: "VulkanKernel \<Rightarrow> VulkanKernel" where
  "taken k = k\<lparr>vk_head := (vk_head k + 1) mod vk_depth k, vk_inflight := vk_inflight k - 1,
     vk_retiring := (if vk_inflight k = 1 then None else vk_retiring k)\<rparr>"

definition measured :: "DeviceInfo \<Rightarrow> rat \<Rightarrow> bool \<Rightarrow> bool \<Rightarrow> VulkanKernel \<Rightarrow> VulkanKernel" where
  "measured info now was_full sound k =
     (if sound then retune info (now - vk_last_done k) k else k)\<lparr>vk_prev_full := was_full, vk_last_done := now\<rparr>"

lemma measured_frame [simp]:
  "settled (measured info now f s k) = settled k" "queued (measured info now f s k) = queued k"
  "program (measured info now f s k) = program k" "vk_retiring (measured info now f s k) = vk_retiring k"
proof -
  have upd: "settled (k\<lparr>vk_prev_full := f, vk_last_done := t\<rparr>) = settled k"
    "queued (k\<lparr>vk_prev_full := f, vk_last_done := t\<rparr>) = queued k"
    "program (k\<lparr>vk_prev_full := f, vk_last_done := t\<rparr>) = program k" for k t by (simp_all add: frames)
  show "settled (measured info now f s k) = settled k" "queued (measured info now f s k) = queued k"
    "program (measured info now f s k) = program k" "vk_retiring (measured info now f s k) = vk_retiring k"
    by (simp_all add: measured_def upd)
qed

lemma collect_stages:
  assumes "collect run info ans most k g = (res, k', g')" "vk_inflight k \<noteq> 0"
  obtains ok in_time k1 g1 where
    "collect_wait run info ans (vk_queue k ! vk_head k) (taken k)
       (if vk_inflight k = 1 then destroy_pipeline (vk_retiring k) g else g) = ((ok, in_time), k1, g')"
    "\<not> ok \<Longrightarrow> res = None \<and> k' = k1"
    "ok \<Longrightarrow> \<exists>sound k2. (sound \<longrightarrow> in_time) \<and> k2 = measured info (ca_now ans) (vk_inflight k = vk_depth k) sound k1 \<and>
        (res = None \<and> k' = k2 \<or>
         res = Some (read_candidates (kg_readback g' (pe_slot (vk_queue k ! vk_head k))) most) \<and>
         k' = count_probes (kg_readback g' (pe_slot (vk_queue k ! vk_head k))) (pe_count (vk_queue k ! vk_head k)) k2)"
proof -
  let ?e = "vk_queue k ! vk_head k"
  obtain ok it k1 g1 where w: "collect_wait run info ans ?e (taken k)
      (if vk_inflight k = 1 then destroy_pipeline (vk_retiring k) g else g) = ((ok, it), k1, g1)"
    by (metis surj_pair)
  have c: "collect run info ans most k g =
     (if \<not> ok then (None, k1, g1)
      else let k2 = measured info (ca_now ans) (vk_inflight k = vk_depth k)
                      (it \<and> vk_inflight k = vk_depth k \<and> vk_prev_full k1 \<and> pe_full_batch ?e) k1
           in if \<not> ca_invalidate ans then (None, k2, g1)
              else (Some (read_candidates (kg_readback g1 (pe_slot ?e)) most),
                    count_probes (kg_readback g1 (pe_slot ?e)) (pe_count ?e) k2, g1))"
  proof (cases "vk_inflight k = 1")
    case True
    have "taken k = k\<lparr>vk_head := (vk_head k + 1) mod vk_depth k, vk_inflight := 0, vk_retiring := None\<rparr>"
      by (simp add: taken_def True)
    with w True show ?thesis by (simp add: collect_def measured_def Let_def)
  next
    case False
    then have nz: "vk_inflight k - 1 \<noteq> 0" using assms(2) by simp
    have "taken k = k\<lparr>vk_head := (vk_head k + 1) mod vk_depth k, vk_inflight := vk_inflight k - 1\<rparr>"
      using False by (simp add: taken_def)
    with w False nz assms(2) show ?thesis by (simp add: collect_def measured_def Let_def)
  qed
  note e = trans [OF c [symmetric] assms(1), unfolded Let_def]
  have g1: "g1 = g'" using c assms(1) by (simp add: Let_def split: if_splits)
  show ?thesis
  proof (rule that [of ok it k1])
    show "collect_wait run info ans ?e (taken k)
      (if vk_inflight k = 1 then destroy_pipeline (vk_retiring k) g else g) = ((ok, it), k1, g')"
      using w by (simp only: g1)
    show "res = None \<and> k' = k1" if "\<not> ok"
      using c assms(1) that by simp
    show "\<exists>sound k2. (sound \<longrightarrow> it) \<and> k2 = measured info (ca_now ans) (vk_inflight k = vk_depth k) sound k1 \<and>
        (res = None \<and> k' = k2 \<or>
         res = Some (read_candidates (kg_readback g' (pe_slot ?e)) most) \<and>
         k' = count_probes (kg_readback g' (pe_slot ?e)) (pe_count ?e) k2)" if ok
    proof -
      let ?s = "it \<and> vk_inflight k = vk_depth k \<and> vk_prev_full k1 \<and> pe_full_batch ?e"
      have "(if \<not> ca_invalidate ans then (None, measured info (ca_now ans) (vk_inflight k = vk_depth k) ?s k1, g1)
             else (Some (read_candidates (kg_readback g1 (pe_slot ?e)) most),
                   count_probes (kg_readback g1 (pe_slot ?e)) (pe_count ?e)
                     (measured info (ca_now ans) (vk_inflight k = vk_depth k) ?s k1), g1)) = (res, k', g')"
        using e that by (simp only: if_False not_True_eq_False)
      then have "res = None \<and> k' = measured info (ca_now ans) (vk_inflight k = vk_depth k) ?s k1 \<or>
         res = Some (read_candidates (kg_readback g' (pe_slot ?e)) most) \<and>
         k' = count_probes (kg_readback g' (pe_slot ?e)) (pe_count ?e)
                (measured info (ca_now ans) (vk_inflight k = vk_depth k) ?s k1)"
        unfolding g1 by (metis Pair_inject)
      then show ?thesis
        by (intro exI [of _ ?s] exI [of _ "measured info (ca_now ans) (vk_inflight k = vk_depth k) ?s k1"] conjI impI refl)
           (elim conjE, assumption)
    qed
  qed
qed

text \<open>A driver that answers has the batch handed back.\<close>

lemma collect_answered:
  assumes "ca_poll ans = Signalled" "ca_invalidate ans"
  shows "fst (collect run info ans most k g) \<noteq> None"
proof -
  have "fst (ring_poll Signalled i r) = (True, True)" for i r by (simp add: ring_poll_def)
  then have "fst (collect_wait run info ans e k g) = (True, True)" for e k g
    using assms(1) by (simp add: collect_wait_def Let_def split_beta)
  then show ?thesis using assms(2) by (simp add: collect_def Let_def split_beta)
qed

lemma collect_frame:
  assumes "collect run info ans most k g = (res, k', g')"
  shows "settled k' = settled k" "program k' = program k"
proof -
  have t: "settled (taken k) = settled k" "program (taken k) = program k" by (simp_all add: taken_def frames)
  have "settled k' = settled k \<and> program k' = program k"
  proof (cases "vk_inflight k = 0")
    case True
    then show ?thesis using assms by (simp add: collect_def)
  next
    case False
    from assms False show ?thesis
    proof (rule collect_stages)
      fix ok it k1
      assume w: "collect_wait run info ans (vk_queue k ! vk_head k) (taken k)
          (if vk_inflight k = 1 then destroy_pipeline (vk_retiring k) g else g) = ((ok, it), k1, g')"
        and bad: "\<not> ok \<Longrightarrow> res = None \<and> k' = k1"
        and good: "ok \<Longrightarrow> \<exists>sound k2. (sound \<longrightarrow> it) \<and> k2 = measured info (ca_now ans) (vk_inflight k = vk_depth k) sound k1 \<and>
        (res = None \<and> k' = k2 \<or>
         res = Some (read_candidates (kg_readback g' (pe_slot (vk_queue k ! vk_head k))) most) \<and>
         k' = count_probes (kg_readback g' (pe_slot (vk_queue k ! vk_head k))) (pe_count (vk_queue k ! vk_head k)) k2)"
      note f = collect_wait_frame(1,2) [OF w]
      show ?thesis
      proof (cases ok)
        case True
        then show ?thesis using good f t by auto
      qed (use bad f t in simp)
    qed
  qed
  then show "settled k' = settled k" "program k' = program k" by simp_all
qed

section \<open>The steps of a kernel\<close>

text \<open>
  Everything its client may call, in any order and with whatever answers of the driver and
  contents of the device's table, and the device finishing what it runs.
\<close>

inductive kernel_step ::
  "shader \<Rightarrow> DeviceInfo \<Rightarrow> 'p algorithm_ops option \<Rightarrow> VulkanKernel \<times> kernel_gpu \<Rightarrow> VulkanKernel \<times> kernel_gpu \<Rightarrow> bool"
  for run info alg where
  does_state: "prepare_state dev alg key k sh = Some (ok, k', sh') \<Longrightarrow> kernel_step run info alg (k, g) (k', g)"
| does_program: "prepare_program run ans alg key k g = (ok, k', g') \<Longrightarrow> kernel_step run info alg (k, g) (k', g')"
| does_dispatch: "dispatch run da alg header target nonce n k g sh = Some (ok, k', g', sh') \<Longrightarrow>
     kernel_step run info alg (k, g) (k', g')"
| does_collect: "collect run info ca most k g = (res, k', g') \<Longrightarrow> kernel_step run info alg (k, g) (k', g')"
| does_finish: "kernel_step run info alg (k, g) (k, finish run i g)"

lemma kernel_step_settled:
  "kernel_step run info alg (k, g) (k', g') \<Longrightarrow> settled k' = settled k"
  by (erule kernel_step.cases)
     (auto dest: prepare_state_frame(1) prepare_program_frame(1) dispatch_frame(1) collect_frame(1))


section \<open>Sizing\<close>

text \<open>What clamping makes of a number of nonces, as numbers.\<close>

definition most_nonces :: "DeviceInfo \<Rightarrow> VulkanKernel \<Rightarrow> nat" where
  "most_nonces info k =
     min (min (2 ^ 28) (unat (vk_max_batch k)))
       (if d_max_workgroup_count info = 0 then 2 ^ 28
        else unat (d_max_workgroup_count info) * unat (vk_per_group k))"

definition least_nonces :: "VulkanKernel \<Rightarrow> nat" where
  "least_nonces k = max (unat (kMinBatch div vk_lanes k * vk_nonces k)) (unat (vk_per_group k))"

lemma unat_if: "unat (if b then x else y) = (if b then unat x else unat y)"
  by simp

lemma clamp_batch_value:
  "unat (vk_batch (clamp_batch info k)) = min (max (unat (vk_batch k)) (least_nonces k)) (most_nonces info k)"
proof -
  define a where "a = (if vk_batch k < (if kMinBatch div vk_lanes k * vk_nonces k < vk_per_group k
      then vk_per_group k else kMinBatch div vk_lanes k * vk_nonces k)
     then (if kMinBatch div vk_lanes k * vk_nonces k < vk_per_group k
      then vk_per_group k else kMinBatch div vk_lanes k * vk_nonces k) else vk_batch k)"
  have a: "unat a = max (unat (vk_batch k)) (least_nonces k)"
    by (auto simp: a_def least_nonces_def word_less_nat_alt max_def)
  define b where "b = (if kMaxBatch < a then kMaxBatch else a)"
  have b: "unat b = min (2 ^ 28) (unat a)"
    by (auto simp: b_def kMaxBatch_def word_less_nat_alt min_def)
  define c where "c = (if vk_max_batch k < b then vk_max_batch k else b)"
  have c: "unat c = min (unat b) (unat (vk_max_batch k))"
    by (auto simp: c_def word_less_nat_alt min_def)
  let ?m = "ucast (d_max_workgroup_count info) * ucast (vk_per_group k) :: u64"
  have big: "unat (d_max_workgroup_count info) * unat (vk_per_group k) < 2 ^ 64"
  proof -
    have "unat (d_max_workgroup_count info) < 2 ^ 32" "unat (vk_per_group k) < 2 ^ 32"
      using unsigned_less [of "d_max_workgroup_count info"] unsigned_less [of "vk_per_group k"] by simp_all
    then have "unat (d_max_workgroup_count info) * unat (vk_per_group k) < 2 ^ 32 * 2 ^ 32"
      by (rule mult_strict_mono) simp_all
    then show ?thesis by simp
  qed
  then have m: "unat ?m = unat (d_max_workgroup_count info) * unat (vk_per_group k)"
    by (simp add: unat_mult_lem [THEN iffD1])
  have "vk_batch (clamp_batch info k) = (if d_max_workgroup_count info \<noteq> 0 then if ?m < ucast c then ucast ?m else c else c)"
    unfolding clamp_batch_def Let_def by (simp add: a_def b_def c_def)
  moreover have "unat (if ?m < ucast c then ucast ?m else c) = min (unat c) (unat ?m)"
  proof (cases "?m < ucast c")
    case True
    then have l: "unat ?m < unat c" by (simp add: word_less_nat_alt)
    moreover have "unat c < 2 ^ 32" using unsigned_less [of c] by simp
    ultimately have "unat ?m < 2 ^ 32" by linarith
    then have "unat (ucast ?m :: u32) = unat ?m" by (simp only: unsigned_ucast_eq) (simp add: take_bit_nat_eq_self)
    then show ?thesis using True l by simp
  next
    case False
    then have "unat c \<le> unat ?m" by (simp add: word_less_nat_alt not_less)
    then show ?thesis using False by simp
  qed
  ultimately show ?thesis
    by (auto simp: most_nonces_def a b c m min.assoc min.commute min.left_commute)
qed



definition sized :: "DeviceInfo \<Rightarrow> VulkanKernel \<Rightarrow> bool" where
  "sized info k \<longleftrightarrow> vk_per_group k \<noteq> 0 \<and> vk_max_batch k \<noteq> 0 \<and>
     min (least_nonces k) (most_nonces info k) \<le> unat (vk_batch k) \<and> unat (vk_batch k) \<le> most_nonces info k"

lemma limits_settled:
  assumes "settled k' = settled k"
  shows "most_nonces info k' = most_nonces info k" "least_nonces k' = least_nonces k"
    "vk_per_group k' = vk_per_group k" "vk_max_batch k' = vk_max_batch k" "vk_depth k' = vk_depth k"
    "vk_program_constants k' = vk_program_constants k" "vk_uniform_bytes k' = vk_uniform_bytes k"
    "vk_push_bytes k' = vk_push_bytes k" "vk_bound k' = vk_bound k" "vk_desc k' = vk_desc k"
  using assms by (simp_all add: settled_def most_nonces_def least_nonces_def)

lemma most_nonces_pos:
  assumes "vk_per_group k \<noteq> 0" "vk_max_batch k \<noteq> 0"
  shows "0 < most_nonces info k"
  using assms by (auto simp: most_nonces_def unat_gt_0)

lemma least_nonces_pos: "vk_per_group k \<noteq> 0 \<Longrightarrow> 0 < least_nonces k"
  by (simp add: least_nonces_def unat_gt_0 less_max_iff_disj)

lemma clamp_batch_sized:
  assumes "vk_per_group k \<noteq> 0" "vk_max_batch k \<noteq> 0"
  shows "sized info (clamp_batch info k)"
proof -
  note l = limits_settled [OF clamp_batch_frame(1)]
  show ?thesis using assms by (auto simp: sized_def l clamp_batch_value)
qed

lemma sized_transfer:
  assumes "sized info k" "settled k' = settled k" "vk_batch k' = vk_batch k"
  shows "sized info k'"
  using assms(1,3) by (simp add: sized_def limits_settled [OF assms(2)])

text \<open>The two ways a number of nonces moves, each by a factor of four at most.\<close>

definition moved :: "VulkanKernel \<Rightarrow> VulkanKernel \<Rightarrow> bool" where
  "moved k k' \<longleftrightarrow> unat (vk_batch k') \<le> 4 * unat (vk_batch k) \<and> unat (vk_batch k) div 4 \<le> unat (vk_batch k') \<and>
     (vk_batch k' \<noteq> vk_batch k \<longrightarrow> vk_hold k' = vk_depth k)"

lemma moved_same: "vk_batch k' = vk_batch k \<Longrightarrow> moved k k'"
  by (simp add: moved_def)

lemma clamped_move:
  assumes "sized info k" "unat b \<le> 4 * unat (vk_batch k)" "unat (vk_batch k) div 4 \<le> unat b"
  shows "unat (vk_batch (clamp_batch info (k\<lparr>vk_batch := b\<rparr>))) \<le> 4 * unat (vk_batch k)"
    "unat (vk_batch k) div 4 \<le> unat (vk_batch (clamp_batch info (k\<lparr>vk_batch := b\<rparr>)))"
proof -
  have s: "settled (k\<lparr>vk_batch := b\<rparr>) = settled k" by (simp add: settled_def)
  show "unat (vk_batch (clamp_batch info (k\<lparr>vk_batch := b\<rparr>))) \<le> 4 * unat (vk_batch k)"
    "unat (vk_batch k) div 4 \<le> unat (vk_batch (clamp_batch info (k\<lparr>vk_batch := b\<rparr>)))"
    using assms unfolding sized_def clamp_batch_value limits_settled [OF s] by (auto simp: min_def max_def split: if_splits)
qed

lemma scale_bounds:
  fixes scale :: rat and n :: nat
  assumes "1 / 4 \<le> scale" "scale \<le> 4" "n \<le> 2 ^ 28"
  defines "next_b \<equiv> (if of_nat (2 ^ 28) \<le> of_nat n * scale then 2 ^ 28 else of_nat (nat \<lfloor>of_nat n * scale\<rfloor>)) :: u32"
  shows "unat next_b \<le> 4 * n" "n div 4 \<le> unat next_b"
proof -
  let ?w = "of_nat n * scale"
  have up: "?w \<le> of_nat (4 * n)"
    using mult_left_mono [OF assms(2), of "of_nat n"] by (simp add: mult.commute)
  have "of_nat (4 * (n div 4)) \<le> (of_nat n :: rat)" by (rule of_nat_mono) simp
  then have "of_nat (n div 4) \<le> (of_nat n :: rat) * (1 / 4)" by simp
  also have "\<dots> \<le> ?w" by (rule mult_left_mono [OF assms(1)]) simp
  finally have low: "of_nat (n div 4) \<le> ?w" .
  have fl: "nat \<lfloor>?w\<rfloor> \<le> 4 * n" "n div 4 \<le> nat \<lfloor>?w\<rfloor>"
    using floor_mono [OF up] floor_mono [OF low] unfolding floor_of_nat by linarith+
  have "unat next_b \<le> 4 * n \<and> n div 4 \<le> unat next_b"
  proof (cases "of_nat (2 ^ 28) \<le> ?w")
    case True
    then have "of_nat (2 ^ 28) \<le> (of_nat (4 * n) :: rat)" using up by (rule order.trans)
    then have "2 ^ 28 \<le> 4 * n" by (simp only: of_nat_le_iff)
    moreover have "unat next_b = 2 ^ 28" using True by (simp add: next_b_def)
    ultimately show ?thesis using assms(3) by auto
  next
    case False
    then have "?w < of_nat (2 ^ 28)" by simp
    then have "\<lfloor>?w\<rfloor> < 268435456" by (simp add: floor_less_iff)
    then have "nat \<lfloor>?w\<rfloor> < 4294967296" by linarith
    then have "unat (of_nat (nat \<lfloor>?w\<rfloor>) :: u32) = nat \<lfloor>?w\<rfloor>" by (simp add: unat_of_nat take_bit_nat_eq_self)
    moreover have "next_b = of_nat (nat \<lfloor>?w\<rfloor>)" using False by (simp add: next_b_def)
    ultimately show ?thesis using fl by simp_all
  qed
  then show "unat next_b \<le> 4 * n" "n div 4 \<le> unat next_b" by simp_all
qed

lemma retune_sized:
  assumes "sized info k"
  shows "sized info (retune info t k)" "moved k (retune info t k)"
proof -
  define scale where "scale = (let s = kTargetSeconds / t; s = (if s > 4 then 4 else s) in if s < 1 / 4 then 1 / 4 else s)"
  have scale: "1 / 4 \<le> scale" "scale \<le> 4" by (auto simp: scale_def Let_def)
  define b :: u32 where "b = (if of_nat (2 ^ 28) \<le> of_nat (unat (vk_batch k)) * scale then 2 ^ 28
      else of_nat (nat \<lfloor>of_nat (unat (vk_batch k)) * scale\<rfloor>))"
  have "unat (vk_batch k) \<le> 2 ^ 28" using assms by (simp add: sized_def most_nonces_def)
  note b = scale_bounds [OF scale this, folded b_def]
  define k1 where "k1 = clamp_batch info (k\<lparr>vk_batch := b\<rparr>)"
  have r: "retune info t k = (if t \<le> 0 then k else if vk_hold k \<noteq> 0 then k\<lparr>vk_hold := vk_hold k - 1\<rparr>
      else if vk_batch k1 \<noteq> vk_batch k then k1\<lparr>vk_hold := vk_depth k1\<rparr> else k1)"
    unfolding retune_def Let_def k1_def b_def scale_def kMaxBatch_def by simp
  have d: "settled k1 = settled k"
    by (simp add: k1_def) (simp add: settled_def)
  have "sized info k1"
    unfolding k1_def by (rule clamp_batch_sized) (use assms in \<open>simp_all add: sized_def\<close>)
  then have "sized info (k1\<lparr>vk_hold := h\<rparr>)" for h by (rule sized_transfer) (simp_all add: settled_def)
  moreover have "sized info (k\<lparr>vk_hold := h\<rparr>)" for h using assms by (rule sized_transfer) (simp_all add: settled_def)
  ultimately show "sized info (retune info t k)" using assms \<open>sized info k1\<close> by (simp add: r)
  note m = clamped_move [OF assms b, folded k1_def]
  show "moved k (retune info t k)"
    using m limits_settled(5) [OF d] by (auto simp: r moved_def)
qed

lemma collect_wait_sized:
  assumes "sized info k" "collect_wait run info ans entry k g = ((ok, it), k1, g')"
  shows "sized info k1 \<and> moved k k1 \<and> (it \<longrightarrow> vk_batch k1 = vk_batch k)"
  using assms(2)
proof (cases rule: collect_wait_stages)
  case (error finished r)
  have "sized info k1" by (rule sized_transfer [OF assms(1)]) (simp_all add: error(3) settled_def)
  then show ?thesis by (simp add: error(3) moved_same)
next
  case (prompt r)
  have "sized info k1" by (rule sized_transfer [OF assms(1)]) (simp_all add: prompt(3) settled_def)
  then show ?thesis by (simp add: prompt(3) moved_same)
next
  case (slow ok' r k2 r')
  define c where "c = clamp_batch info (k\<lparr>vk_ring := r, vk_batch := vk_batch k div 4\<rparr>)"
  have e: "k1 = (if pe_count entry = vk_batch k then c\<lparr>vk_hold := vk_depth k, vk_ring := r'\<rparr> else k\<lparr>vk_ring := r'\<rparr>)"
    unfolding slow(5) slow(4) c_def by simp
  have sc: "settled c = settled k" by (simp add: c_def) (simp add: settled_def)
  have "sized info c" unfolding c_def by (rule clamp_batch_sized) (use assms(1) in \<open>simp_all add: sized_def\<close>)
  then have s1: "sized info (c\<lparr>vk_hold := h, vk_ring := r'\<rparr>)" for h by (rule sized_transfer) (simp_all add: settled_def)
  have s2: "sized info (k\<lparr>vk_ring := r'\<rparr>)" using assms(1) by (rule sized_transfer) (simp_all add: settled_def)
  have kr: "sized info (k\<lparr>vk_ring := r\<rparr>)" using assms(1) by (rule sized_transfer) (simp_all add: settled_def)
  have q: "unat (vk_batch k div 4) = unat (vk_batch k) div 4" by (simp add: unat_div_distrib)
  have m: "unat (vk_batch c) \<le> 4 * unat (vk_batch k)" "unat (vk_batch k) div 4 \<le> unat (vk_batch c)"
    using clamped_move [OF kr, of "vk_batch k div 4"] by (simp_all add: c_def q)
  then show ?thesis using slow(1) s1 s2 by (simp add: e moved_def)
qed

lemma collect_sized:
  assumes "sized info k" "collect run info ans most k g = (res, k', g')"
  shows "sized info k' \<and> moved k k'"
proof (cases "vk_inflight k = 0")
  case True
  then show ?thesis using assms by (simp add: collect_def moved_same)
next
  case False
  have t: "settled (taken k) = settled k" "vk_batch (taken k) = vk_batch k" by (simp_all add: taken_def settled_def)
  have st: "sized info (taken k)" by (rule sized_transfer [OF assms(1) t])
  from assms(2) False show ?thesis
  proof (rule collect_stages)
    fix ok it k1
    assume w: "collect_wait run info ans (vk_queue k ! vk_head k) (taken k)
        (if vk_inflight k = 1 then destroy_pipeline (vk_retiring k) g else g) = ((ok, it), k1, g')"
      and bad: "\<not> ok \<Longrightarrow> res = None \<and> k' = k1"
      and good: "ok \<Longrightarrow> \<exists>sound k2. (sound \<longrightarrow> it) \<and> k2 = measured info (ca_now ans) (vk_inflight k = vk_depth k) sound k1 \<and>
        (res = None \<and> k' = k2 \<or>
         res = Some (read_candidates (kg_readback g' (pe_slot (vk_queue k ! vk_head k))) most) \<and>
         k' = count_probes (kg_readback g' (pe_slot (vk_queue k ! vk_head k))) (pe_count (vk_queue k ! vk_head k)) k2)"
    note cw = collect_wait_sized [OF st w]
    have sk: "settled k1 = settled k" using collect_wait_frame(1) [OF w] t by simp
    show ?thesis
    proof (cases ok)
      case False
      then show ?thesis using bad cw t limits_settled(5) [OF t(1)] by (simp add: moved_def)
    next
      case True
      then obtain sound k2 where k2: "sound \<longrightarrow> it" "k2 = measured info (ca_now ans) (vk_inflight k = vk_depth k) sound k1"
        "k' = k2 \<or> (\<exists>ws n. k' = count_probes ws n k2)"
        using good by blast
      have pk: "settled k' = settled k2" "pace k' = pace k2" using k2(3) by auto
      have "sized info k2 \<and> moved k k2"
      proof (cases sound)
        case s: True
        define k3 where "k3 = retune info (ca_now ans - vk_last_done k1) k1"
        have e: "k2 = k3\<lparr>vk_prev_full := (vk_inflight k = vk_depth k), vk_last_done := ca_now ans\<rparr>"
          using s by (simp add: k2(2) measured_def k3_def)
        have k3: "sized info k3" "moved k1 k3" using retune_sized cw by (simp_all add: k3_def)
        have "sized info k2" using k3(1) by (rule sized_transfer) (simp_all add: e settled_def)
        moreover have "vk_batch k2 = vk_batch k3" "vk_hold k2 = vk_hold k3" by (simp_all add: e)
        then have "moved k k2" using k3(2) cw s k2(1) t(2) limits_settled(5) [OF sk] by (simp add: moved_def)
        ultimately show ?thesis by blast
      next
        case False
        then have e: "k2 = k1\<lparr>vk_prev_full := (vk_inflight k = vk_depth k), vk_last_done := ca_now ans\<rparr>"
          by (simp add: k2(2) measured_def)
        have "sized info k1" using cw by blast
        then have "sized info k2" by (rule sized_transfer) (simp_all add: e settled_def)
        moreover have "vk_batch k2 = vk_batch k1" "vk_hold k2 = vk_hold k1" by (simp_all add: e)
        then have "moved k k2" using cw t(2) limits_settled(5) [OF t(1)] by (simp add: moved_def)
        ultimately show ?thesis by blast
      qed
      then show ?thesis using pk sized_transfer [of info k2 k'] by (simp add: pace_def moved_def)
    qed
  qed
qed

section \<open>A kernel that was built\<close>

definition first_pipeline :: "VulkanKernel \<Rightarrow> pipeline" where
  "first_pipeline k = \<lparr>pl_id = 0, pl_desc = (vk_desc k)\<lparr>de_program := None, de_program_count := 0\<rparr>,
     pl_sets = vk_bound k,
     pl_uniforms = (if vk_uniform_bytes k \<noteq> 0 then map Uniform [0..<length (vk_bound k)] else [])\<rparr>"

lemma first_batch_frame:
  "settled (first_batch info k) = settled k" "queued (first_batch info k) = queued k"
  "program (first_batch info k) = program k" "vk_retiring (first_batch info k) = vk_retiring k"
proof -
  have "settled (k\<lparr>vk_batch := b\<rparr>) = settled k" "queued (k\<lparr>vk_batch := b\<rparr>) = queued k"
    "program (k\<lparr>vk_batch := b\<rparr>) = program k" "vk_retiring (k\<lparr>vk_batch := b\<rparr>) = vk_retiring k" for b
    by (simp_all add: frames)
  then show "settled (first_batch info k) = settled k" "queued (first_batch info k) = queued k"
    "program (first_batch info k) = program k" "vk_retiring (first_batch info k) = vk_retiring k"
    by (simp_all add: first_batch_def)
qed

lemma init_spec:
  assumes "init opts ans info spec sh = Inr (k, g)"
  obtains fit bound ring where
    "vulkan_kernel_fit (ko_fit opts) info spec (case sh of None \<Rightarrow> 0 | Some s \<Rightarrow> of_nat (ss_bytes s)) = Inr fit"
    "init_slots ans spec fit sh (unat (fit_depth fit)) = Inr bound"
    "ring_create (ia_pool ans) (ia_commands ans) (ia_fence ans) (unat (fit_depth fit)) = Some ring"
    "settled k = settled (fresh_kernel opts spec fit sh bound)"
    "queued k = (ring, replicate (unat (fit_depth fit)) \<lparr>pe_slot = 0, pe_count = 0, pe_full_batch = False\<rparr>, 0, 0)"
    "program k = (if k_program_constants spec = 0 then Some (first_pipeline k) else None, 0, False, None)"
    "vk_retiring k = None" "sized info k"
    "g = (if k_program_constants spec = 0 then (fresh_gpu ans)\<lparr>kg_made := 1, kg_live := {0}\<rparr> else fresh_gpu ans)"
proof -
  obtain fit where c: "init_checks opts info spec sh = Inr fit"
    using assms by (auto simp: init_def split: sum.splits)
  have fit: "vulkan_kernel_fit (ko_fit opts) info spec (case sh of None \<Rightarrow> 0 | Some s \<Rightarrow> of_nat (ss_bytes s)) = Inr fit"
    using c by (auto simp: init_checks_def split: if_splits sum.splits)
  obtain bound where b: "init_slots ans spec fit sh (unat (fit_depth fit)) = Inr bound"
    using assms c by (auto simp: init_def split: sum.splits)
  let ?k = "fresh_kernel opts spec fit sh bound"
  obtain p k1 g1 where p: "(if vk_program_constants ?k = 0 then build_pipeline (ia_pipeline ans) None ?k (fresh_gpu ans)
      else (None, ?k, fresh_gpu ans)) = (p, k1, g1)" by (metis surj_pair)
  let ?k1 = "k1\<lparr>vk_pipeline := p\<rparr>"
  note e = assms [unfolded init_def c b sum.case Let_def p prod.case]
  have np: "\<not> (vk_program_constants ?k1 = 0 \<and> p = None)" using e by (auto split: if_splits)
  note e = e [unfolded if_not_P [OF np]]
  have k1: "settled k1 = settled ?k" "queued k1 = queued ?k" "vk_retiring k1 = None"
    "vk_program_key k1 = 0" "\<not> vk_program_ready k1" "vk_ahead k1 = None"
    using p build_pipeline_frame [of "ia_pipeline ans" None ?k "fresh_gpu ans"]
    by (auto simp: frames fresh_kernel_def split: if_splits)
  have d: "vk_depth ?k1 = unat (fit_depth fit)" using k1(1) by (simp add: settled_def fresh_kernel_def)
  obtain ring where r: "ring_create (ia_pool ans) (ia_commands ans) (ia_fence ans) (unat (fit_depth fit)) = Some ring"
    using e d by (auto split: option.splits)
  have k: "k = first_batch info (?k1\<lparr>vk_ring := ring\<rparr>)" "g = g1"
    using e d r by auto
  have u: "settled (?k1\<lparr>vk_ring := ring\<rparr>) = settled k1" by (simp add: settled_def)
  have s: "settled k = settled ?k" by (simp only: k(1) first_batch_frame u k1)
  have pc: "vk_program_constants k1 = k_program_constants spec" "vk_program_constants ?k = k_program_constants spec"
    using limits_settled(6) [OF k1(1)] by (simp_all add: fresh_kernel_def)
  have nz: "vk_per_group (?k1\<lparr>vk_ring := ring\<rparr>) \<noteq> 0" "vk_max_batch (?k1\<lparr>vk_ring := ring\<rparr>) \<noteq> 0"
    using fit_basics(1,2) [OF fit] limits_settled(3,4) [OF k1(1)] by (simp_all add: fresh_kernel_def)
  have q: "queued k = (ring, replicate (unat (fit_depth fit)) \<lparr>pe_slot = 0, pe_count = 0, pe_full_batch = False\<rparr>, 0, 0)"
    using k1(2) by (simp add: k(1) first_batch_frame) (simp add: queued_def fresh_kernel_def)
  have "vk_retiring k = None" using k1(3) by (simp add: k(1) first_batch_frame)
  have z: "sized info k"
    unfolding k(1) first_batch_def by (rule clamp_batch_sized) (use nz in simp_all)
  have pk: "program k = (p, 0, False, None)"
    using k1 by (simp add: k(1) first_batch_frame) (simp add: program_def)
  have pp: "p = (if k_program_constants spec = 0 then Some (first_pipeline k) else None)
      \<and> g1 = (if k_program_constants spec = 0 then (fresh_gpu ans)\<lparr>kg_made := 1, kg_live := {0}\<rparr> else fresh_gpu ans)"
  proof (cases "k_program_constants spec = 0")
    case True
    then have "build_pipeline (ia_pipeline ans) None ?k (fresh_gpu ans) = (p, k1, g1)" using p pc by simp
    moreover have "p \<noteq> None" using np pc True by simp
    ultimately show ?thesis
      using True limits_settled(7,9,10) [OF s]
      by (auto simp: build_pipeline_def first_pipeline_def fresh_gpu_def Let_def split: if_splits)
  qed (use p pc in simp)
  show ?thesis
    by (rule that [OF fit b r s q]) (use pk pp k(2) z \<open>vk_retiring k = None\<close> in simp_all)
qed


lemma init_slots_granted:
  assumes "init_slots ans spec fit sh n = Inr bound"
  shows "length bound = n" "i < n \<Longrightarrow> bound ! i = slot_bound spec sh i" "i < n \<Longrightarrow> slot_buffers ans spec fit i = None"
  using assms
  by (induction n arbitrary: bound) (auto simp: nth_append less_Suc_eq split: sum.splits option.splits)

lemma kernel_steps_sized:
  assumes "(kernel_step run info alg)\<^sup>*\<^sup>* (k0, g0) (k, g)" "sized info k0"
  shows "sized info k \<and> settled k = settled k0"
  using assms(1)
proof (induction "(k, g)" arbitrary: k g rule: rtranclp_induct)
  case base
  then show ?case using assms(2) by simp
next
  case (step s)
  obtain k1 g1 where s: "s = (k1, g1)" by (cases s)
  have ih: "sized info k1" "settled k1 = settled k0" using step(3) s by simp_all
  have st: "settled k = settled k1" using step(2) s kernel_step_settled by blast
  have "sized info k"
    using step(2) unfolding s
  proof cases
    case (does_state dev key sh ok sh')
    then show ?thesis using sized_transfer [OF ih(1) st] prepare_state_frame(3) by (fastforce simp: pace_def)
  next
    case (does_program ans key ok)
    then show ?thesis using sized_transfer [OF ih(1) st] prepare_program_frame(3) by (fastforce simp: pace_def)
  next
    case (does_dispatch da header target nonce n sh ok sh')
    then show ?thesis using sized_transfer [OF ih(1) st] dispatch_frame(2) by (fastforce simp: pace_def)
  next
    case (does_collect ca most res)
    then show ?thesis using collect_sized [OF ih(1)] by blast
  next
    case (does_finish i)
    then show ?thesis using ih by simp
  qed
  then show ?case using st ih by simp
qed

lemma groups_value:
  assumes "unat n \<le> 2 ^ 28" "unat (vk_per_group k) \<le> 2 ^ 28" "vk_per_group k \<noteq> 0"
  shows "unat (groups_of k n) = (unat n + unat (vk_per_group k) - 1) div unat (vk_per_group k)"
proof -
  have pos: "1 \<le> unat (vk_per_group k)" using assms(3) by (simp add: Suc_leI unat_gt_0)
  have small: "unat n + unat (vk_per_group k) < 4294967296" using assms by simp
  then have add: "unat (n + vk_per_group k) = unat n + unat (vk_per_group k)"
    by (subst unat_plus_simple [THEN iffD1]) (simp_all add: no_olen_add_nat)
  have "(1 :: u32) \<le> n + vk_per_group k" using pos by (simp only: word_le_nat_alt add) simp
  then have "unat (n + vk_per_group k - 1) = unat n + unat (vk_per_group k) - 1"
    by (simp only: unat_sub_exact add) simp
  then show ?thesis by (simp add: groups_of_def unat_div_distrib)
qed

lemma groups_cover:
  fixes n p :: nat
  assumes "0 < p" "n \<le> m * p"
  shows "(n + p - 1) div p \<le> m"
proof -
  have "n + p - 1 < Suc m * p" using assms by (simp add: algebra_simps)
  then have "(n + p - 1) div p < Suc m" by (rule less_mult_imp_div_less)
  then show ?thesis by simp
qed

lemma dispatch_accepted:
  assumes "dispatch run ans alg header target nonce n k g sh = Some (True, k', g', sh')"
  shows "n \<noteq> 0" "dispatch_ready k n"
proof -
  show nz: "n \<noteq> 0" using assms by (auto simp: dispatch_def)
  obtain sh1 where "dispatch_run run ans alg (dispatch_job header target nonce n) k g = (True, k', g')"
    using assms nz by (auto simp: dispatch_def Let_def split: option.splits prod.splits bool.splits)
  then show "dispatch_ready k n"
    by (auto simp: dispatch_run_def dispatch_job_def split: if_splits)
qed

text \<open>A held size, by a collect whose wait is answered in time.\<close>

lemma measured_held:
  assumes "vk_hold k \<noteq> 0"
  shows "vk_batch (measured info now f s k) = vk_batch k" "vk_hold k - 1 \<le> vk_hold (measured info now f s k)"
  using assms by (simp_all add: measured_def retune_def)

lemma collect_held:
  assumes "collect run info ca most k g = (res, k', g')" "vk_hold k \<noteq> 0" "ca_poll ca \<noteq> TimedOut"
  shows "vk_batch k' = vk_batch k \<and> vk_hold k - 1 \<le> vk_hold k'"
proof (cases "vk_inflight k = 0")
  case True
  then show ?thesis using assms by (simp add: collect_def)
next
  case False
  from assms(1) False show ?thesis
  proof (rule collect_stages)
    fix ok it k1
    assume w: "collect_wait run info ca (vk_queue k ! vk_head k) (taken k)
        (if vk_inflight k = 1 then destroy_pipeline (vk_retiring k) g else g) = ((ok, it), k1, g')"
      and bad: "\<not> ok \<Longrightarrow> res = None \<and> k' = k1"
      and good: "ok \<Longrightarrow> \<exists>sound k2. (sound \<longrightarrow> it) \<and> k2 = measured info (ca_now ca) (vk_inflight k = vk_depth k) sound k1 \<and>
        (res = None \<and> k' = k2 \<or>
         res = Some (read_candidates (kg_readback g' (pe_slot (vk_queue k ! vk_head k))) most) \<and>
         k' = count_probes (kg_readback g' (pe_slot (vk_queue k ! vk_head k))) (pe_count (vk_queue k ! vk_head k)) k2)"
    have k1: "vk_batch k1 = vk_batch k \<and> vk_hold k1 = vk_hold k"
      using w
    proof (cases rule: collect_wait_stages)
      case (error finished r)
      show ?thesis by (simp add: error(3) taken_def)
    next
      case (prompt r)
      show ?thesis by (simp add: prompt(3) taken_def)
    next
      case (slow ok' r k2 r')
      then show ?thesis using assms(3) by (auto simp: ring_poll_def split: if_splits fence_result.splits)
    qed
    show ?thesis
    proof (cases ok)
      case False
      then show ?thesis using bad k1 by simp
    next
      case True
      then obtain sound k2 where k2: "k2 = measured info (ca_now ca) (vk_inflight k = vk_depth k) sound k1"
        "k' = k2 \<or> (\<exists>ws n. k' = count_probes ws n k2)"
        using good by blast
      have "pace k' = pace k2" using k2(2) by auto
      then show ?thesis using measured_held [of k1] k1 assms(2) by (simp add: k2(1) pace_def)
    qed
  qed
qed

section \<open>Properties\<close>

text \<open>
  Whatever its client and its device do, what a kernel asks for per dispatch is at least
  one nonce, at most what its buffers are for and what the fit allows, and no more workgroups than
  the device takes in one call.
\<close>

theorem preferred_batch_bounded:
  assumes "init opts ans info spec sh = Inr (k0, g0)" "unat (vk_per_group k0) \<le> 2 ^ 28"
    and "(kernel_step run info alg)\<^sup>*\<^sup>* (k0, g0) (k, g)"
  shows "0 < preferred_batch k \<and> preferred_batch k \<le> vk_max_batch k \<and> preferred_batch k \<le> kMaxBatch \<and>
     (d_max_workgroup_count info \<noteq> 0 \<longrightarrow> groups_of k (preferred_batch k) \<le> d_max_workgroup_count info)"
proof -
  from assms(1) have "sized info k0" by (rule init_spec)
  with assms(3) have k: "sized info k" "settled k = settled k0" using kernel_steps_sized by blast+
  have pg: "unat (vk_per_group k) \<le> 2 ^ 28" using assms(2) limits_settled(3) [OF k(2)] by simp
  have nz: "vk_per_group k \<noteq> 0" "vk_max_batch k \<noteq> 0" using k(1) by (simp_all add: sized_def)
  have most: "unat (vk_batch k) \<le> most_nonces info k" "min (least_nonces k) (most_nonces info k) \<le> unat (vk_batch k)"
    using k(1) by (simp_all add: sized_def)
  have pos: "0 < unat (vk_batch k)"
    using most_nonces_pos [OF nz, of info] least_nonces_pos [OF nz(1)] most(2) by linarith
  have le: "unat (vk_batch k) \<le> unat (vk_max_batch k)" "unat (vk_batch k) \<le> 2 ^ 28"
    using most(1) by (simp_all add: most_nonces_def)
  have "groups_of k (vk_batch k) \<le> d_max_workgroup_count info" if "d_max_workgroup_count info \<noteq> 0"
  proof -
    have "unat (vk_batch k) \<le> unat (d_max_workgroup_count info) * unat (vk_per_group k)"
      using most(1) that by (simp add: most_nonces_def)
    then show ?thesis
      using groups_value [OF le(2) pg nz(1)] groups_cover [of "unat (vk_per_group k)"] nz(1)
      by (simp add: word_le_nat_alt unat_gt_0)
  qed
  then show ?thesis using pos le by (simp add: preferred_batch_def word_le_nat_alt kMaxBatch_def unat_gt_0 word_gt_0)
qed

text \<open>
  One completion moves what is asked for per dispatch by a factor of four at most, either
  way, and a new size is left alone for as many completions as there are dispatches of the old one
  still queued, unless one of those runs into the timeout.
\<close>

theorem collect_moves_batch:
  assumes "init opts ans info spec sh = Inr (k0, g0)" "(kernel_step run info alg)\<^sup>*\<^sup>* (k0, g0) (k, g)"
    and "collect run info ca most k g = (res, k', g')"
  shows "unat (preferred_batch k') \<le> 4 * unat (preferred_batch k) \<and>
     unat (preferred_batch k) div 4 \<le> unat (preferred_batch k') \<and>
     (preferred_batch k' \<noteq> preferred_batch k \<longrightarrow> vk_hold k' = vk_depth k) \<and>
     (vk_hold k \<noteq> 0 \<and> ca_poll ca \<noteq> TimedOut \<longrightarrow>
        preferred_batch k' = preferred_batch k \<and> vk_hold k - 1 \<le> vk_hold k')"
proof -
  from assms(1) have "sized info k0" by (rule init_spec)
  then show ?thesis
    using kernel_steps_sized [OF assms(2)] collect_sized [OF _ assms(3)] collect_held [OF assms(3)]
    by (simp add: moved_def preferred_batch_def)
qed

text \<open>The invocations an accepted dispatch of \<open>n\<close> hashes runs.\<close>

definition invocations :: "VulkanKernel \<Rightarrow> u32 \<Rightarrow> nat" where
  "invocations k n = unat (groups_of k n) * unat (de_local_size_x (vk_desc k))"

text \<open>
  What init asked for and what a dispatch runs, of a kernel with scratchpads: its hashes in whole
  workgroups are no more than the buffers were counted for, and the buffers have one pad for each.
\<close>

lemma scratch_counts:
  assumes i: "init opts ans info spec sh = Inr (k0, g0)" and sc: "k_scratch_bytes spec \<noteq> 0"
    and ks: "(kernel_step run info alg)\<^sup>*\<^sup>* (k0, g0) (k, g)"
    and d: "dispatch run da alg header target nonce n k g sh1 = Some (True, k', g', sh2)"
    and lcm: "unat (k_lanes spec) * unat (d_subgroup_size info) < 2 ^ 32"
    and small: "unat (k_scratch_bytes spec) * unat (fit_depth_of (ko_fit opts) spec) * max 1 (unat (k_lanes spec)) < 2 ^ 64"
    and wide: "unat (de_local_size_x (vk_desc k)) * unat kMaxNoncesPerInvocation < 2 ^ 32"
    and opt: "opt_nonces_per_invocation (ko_fit opts) < 2 ^ 31"
  shows "unat (groups_of k n) * unat (vk_per_group k) \<le> unat (vk_max_batch k)"
    "unat n \<le> unat (groups_of k n) * unat (vk_per_group k)"
    "invocations k n \<le> unat (groups_of k n) * unat (vk_per_group k) * max 1 (unat (k_lanes spec))"
    "1 < unat (k_lanes spec) \<Longrightarrow>
      invocations k n = unat (groups_of k n) * unat (vk_per_group k) * unat (k_lanes spec)"
    "\<And>j. j < vk_depth k \<Longrightarrow> ia_buffer ans (Scratch j) (ucast (vk_max_batch k) * k_scratch_bytes spec)"
    "0 < vk_depth k \<Longrightarrow>
      unat (ucast (vk_max_batch k) * k_scratch_bytes spec) = unat (vk_max_batch k) * unat (k_scratch_bytes spec)"
proof -
  from i obtain fit bound ring where
    fit: "vulkan_kernel_fit (ko_fit opts) info spec (case sh of None \<Rightarrow> 0 | Some s \<Rightarrow> of_nat (ss_bytes s)) = Inr fit"
    and b: "init_slots ans spec fit sh (unat (fit_depth fit)) = Inr bound"
    and st: "settled k0 = settled (fresh_kernel opts spec fit sh bound)" and sz: "sized info k0"
    by (rule init_spec)
  have k: "settled k = settled (fresh_kernel opts spec fit sh bound)" using kernel_steps_sized [OF ks sz] st by simp
  have f: "vk_per_group k = fit_per_group fit" "vk_max_batch k = fit_max_batch fit" "vk_depth k = unat (fit_depth fit)"
    "de_local_size_x (vk_desc k) = fit_local_size_x fit"
    using limits_settled(3-5,10) [OF k] by (simp_all add: fresh_kernel_def init_desc_def)
  note fb = fit_basics [OF fit]
  obtain m where m: "unat (fit_max_batch fit) = m * unat (fit_per_group fit)"
    using fb(5) [OF sc] by (metis dvd_def mult.commute)
  have le: "unat n \<le> unat (fit_max_batch fit)"
    using dispatch_accepted(2) [OF d] f by (simp add: dispatch_ready_def word_le_nat_alt not_less)
  have mb: "unat (fit_max_batch fit) \<le> 2 ^ 28" using fb(3) by (simp add: word_le_nat_alt kMaxBatch_def)
  have pos: "0 < unat (fit_per_group fit)" using fb(1) by (simp add: unat_gt_0)
  have pm: "unat (fit_per_group fit) \<le> unat (fit_max_batch fit)"
    using fb(2) m by (cases m) (auto simp: unat_eq_zero)
  have n: "unat n \<le> 2 ^ 28" "unat (vk_per_group k) \<le> 2 ^ 28" "unat n \<le> m * unat (fit_per_group fit)"
    using order.trans [OF le mb] order.trans [OF pm mb] le unfolding f(1) m by blast+
  have g: "unat (groups_of k n) = (unat n + unat (fit_per_group fit) - 1) div unat (fit_per_group fit)"
    using groups_value [OF n(1,2)] fb(1) f(1) by simp
  then have "unat (groups_of k n) \<le> m" using groups_cover [OF pos n(3)] by simp
  then show "unat (groups_of k n) * unat (vk_per_group k) \<le> unat (vk_max_batch k)"
    unfolding f m by (rule mult_le_mono1)
  show "unat n \<le> unat (groups_of k n) * unat (vk_per_group k)"
  proof (cases "unat n = 0")
    case False
    then show ?thesis using ceil_div_cover(1) [OF pos] by (simp add: g f mult.commute)
  qed simp
  note w = kernel_fit_invocations [OF fit lcm wide [unfolded f] opt]
  show "invocations k n \<le> unat (groups_of k n) * unat (vk_per_group k) * max 1 (unat (k_lanes spec))"
    using mult_le_mono2 [OF w(2), of "unat (groups_of k n)"] by (simp add: invocations_def f w(1) mult.assoc)
  show "invocations k n = unat (groups_of k n) * unat (vk_per_group k) * unat (k_lanes spec)" if "1 < unat (k_lanes spec)"
    using w(1) w(3) [OF that] that by (simp add: invocations_def f max_def)
  show "ia_buffer ans (Scratch j) (ucast (vk_max_batch k) * k_scratch_bytes spec)" if "j < vk_depth k" for j
    using init_slots_granted(3) [OF b, of j] that sc f by (simp add: slot_buffers_def Let_def split: if_splits)
  show "unat (ucast (vk_max_batch k) * k_scratch_bytes spec) = unat (vk_max_batch k) * unat (k_scratch_bytes spec)"
    if dep: "0 < vk_depth k"
  proof -
    let ?c = "unat (k_scratch_bytes spec)" and ?b = "unat (vk_max_batch k)"
    let ?r = "?b * (?c * unat (fit_depth fit) * unat (fit_lanes fit)) * max 1 (unat (k_concurrent_kernels spec))"
    have "unat (case sh of None \<Rightarrow> (0 :: u64) | Some s \<Rightarrow> of_nat (ss_bytes s)) + ?r \<le> unat (d_memory info)"
      using kernel_fit_fits [OF fit lcm small] sc unfolding fits_device_def f by blast
    then have "?r \<le> unat (d_memory info)" by (rule add_leD2)
    moreover have "1 \<le> unat (fit_depth fit) * unat (fit_lanes fit) * max 1 (unat (k_concurrent_kernels spec))"
      using dep w(1) by (simp add: f Suc_le_eq less_max_iff_disj)
    then have "?b * ?c * 1 \<le> ?b * ?c * (unat (fit_depth fit) * unat (fit_lanes fit) * max 1 (unat (k_concurrent_kernels spec)))"
      by (rule mult_le_mono2)
    ultimately have "?b * ?c \<le> unat (d_memory info)" by (simp only: mult.assoc mult_1_right)
    then have "?b * ?c < 2 ^ 64" using unat_u64_less [of "d_memory info"] by (simp del: unat_u64_less)
    then show ?thesis by (subst unat_mult_exact) simp_all
  qed
qed

text \<open>
  Claim C38. Where every invocation has a scratchpad and a hash is one invocation, no dispatch a kernel
  accepts runs an invocation whose pad was not allocated: the pads of all the invocations of its
  workgroups lie inside the buffer of each slot, whose size in bytes is the product the driver was asked
  for, not wrapped. What the fit multiplies has to be below \<open>2 ^ 64\<close> and a workgroup below \<open>2 ^ 24\<close> wide.
  For a hash of several lanes it is not so, as \<open>lanes_outgrow_scratch\<close> shows.
\<close>

theorem dispatch_within_scratch:
  assumes "init opts ans info spec sh = Inr (k0, g0)" "k_scratch_bytes spec \<noteq> 0" "k_lanes spec \<le> 1"
    and "(kernel_step run info alg)\<^sup>*\<^sup>* (k0, g0) (k, g)"
    and "dispatch run da alg header target nonce n k g sh1 = Some (True, k', g', sh2)"
    and "unat (k_scratch_bytes spec) * unat (fit_depth_of (ko_fit opts) spec) < 2 ^ 64"
    and "unat (de_local_size_x (vk_desc k)) < 2 ^ 24" "opt_nonces_per_invocation (ko_fit opts) < 2 ^ 31"
  shows "\<forall>i < vk_depth k. \<exists>bytes. ia_buffer ans (Scratch i) bytes \<and>
     unat bytes = unat (vk_max_batch k) * unat (k_scratch_bytes spec) \<and>
     unat n \<le> unat (groups_of k n) * unat (vk_per_group k) \<and>
     invocations k n * unat (k_scratch_bytes spec) \<le> unat bytes"
proof (intro allI impI)
  fix i assume "i < vk_depth k"
  have "unat (k_lanes spec) \<le> 1" using assms(3) by (simp add: word_le_nat_alt)
  then have l: "unat (k_lanes spec) * unat (d_subgroup_size info) < 2 ^ 32" "max 1 (unat (k_lanes spec)) = 1"
    using unat_u32_less [of "d_subgroup_size info"] by (cases "unat (k_lanes spec)"; simp)+
  have "unat (de_local_size_x (vk_desc k)) * unat kMaxNoncesPerInvocation < 2 ^ 32"
    using assms(7) by (simp add: kMaxNoncesPerInvocation_def)
  note c = scratch_counts [OF assms(1,2,4,5) l(1) _ this assms(8)]
  have small: "unat (k_scratch_bytes spec) * unat (fit_depth_of (ko_fit opts) spec) * max 1 (unat (k_lanes spec)) < 2 ^ 64"
    unfolding l(2) using assms(6) by simp
  note c = c [OF small]
  have "invocations k n \<le> unat (vk_max_batch k)" using c(1,3) l(2) by simp
  then have "invocations k n * unat (k_scratch_bytes spec) \<le> unat (vk_max_batch k) * unat (k_scratch_bytes spec)"
    by (rule mult_le_mono1)
  then show "\<exists>bytes. ia_buffer ans (Scratch i) bytes \<and>
     unat bytes = unat (vk_max_batch k) * unat (k_scratch_bytes spec) \<and>
     unat n \<le> unat (groups_of k n) * unat (vk_per_group k) \<and>
     invocations k n * unat (k_scratch_bytes spec) \<le> unat bytes"
    using c(2) c(5) [OF \<open>i < vk_depth k\<close>] c(6) \<open>i < vk_depth k\<close> by auto
qed

text \<open>
  Where several invocations share a hash, each with a scratchpad of its own, the fit charges the pads of
  all of them and init allocates one for each hash: the largest dispatch runs more invocations than
  there are pads.
\<close>

theorem lanes_outgrow_scratch:
  assumes "init opts ans info spec sh = Inr (k0, g0)" "k_scratch_bytes spec \<noteq> 0" "1 < unat (k_lanes spec)"
    and "(kernel_step run info alg)\<^sup>*\<^sup>* (k0, g0) (k, g)"
    and "dispatch run da alg header target nonce (vk_max_batch k) k g sh1 = Some (True, k', g', sh2)"
    and "unat (k_lanes spec) * unat (d_subgroup_size info) < 2 ^ 32"
    and "unat (k_scratch_bytes spec) * unat (fit_depth_of (ko_fit opts) spec) * unat (k_lanes spec) < 2 ^ 64"
    and "unat (de_local_size_x (vk_desc k)) < 2 ^ 24" "opt_nonces_per_invocation (ko_fit opts) < 2 ^ 31"
    and "i < vk_depth k" "vk_max_batch k \<noteq> 0"
  shows "unat (ucast (vk_max_batch k) * k_scratch_bytes spec) < invocations k (vk_max_batch k) * unat (k_scratch_bytes spec)"
proof -
  have w: "unat (de_local_size_x (vk_desc k)) * unat kMaxNoncesPerInvocation < 2 ^ 32"
    using assms(8) by (simp add: kMaxNoncesPerInvocation_def)
  have small: "unat (k_scratch_bytes spec) * unat (fit_depth_of (ko_fit opts) spec) * max 1 (unat (k_lanes spec)) < 2 ^ 64"
    using assms(3,7) by (simp add: max_def)
  note c = scratch_counts [OF assms(1,2,4,5,6) small w assms(9)]
  let ?m = "unat (vk_max_batch k)" and ?s = "unat (k_scratch_bytes spec)"
  have p: "0 < ?m" "0 < ?s" using assms(2,11) by (simp_all add: unat_gt_0)
  have "invocations k (vk_max_batch k) = ?m * unat (k_lanes spec)" using c(1,2) c(4) [OF assms(3)] by simp
  moreover have "?m * 1 < ?m * unat (k_lanes spec)" using p(1) assms(3) by (intro mult_strict_left_mono) simp_all
  ultimately have "?m * ?s < invocations k (vk_max_batch k) * ?s" using p(2) by simp
  then show ?thesis using c(6) assms(10) by simp
qed

section \<open>When a dispatch is accepted\<close>

definition driver_grants :: "VulkanKernel \<Rightarrow> 'p dispatch_answers \<Rightarrow> bool" where
  "driver_grants k ans \<longleftrightarrow>
     (rs_pending (cr_slots (vk_ring k) ! cr_next (vk_ring k)) \<longrightarrow> ba_fence (da_ring ans) = Signalled) \<and>
     ba_reset (da_ring ans) \<and> ba_begin (da_ring ans) \<and> (vk_uniform_bytes k \<noteq> 0 \<longrightarrow> da_flush ans) \<and>
     sa_end (da_submit ans) \<and> sa_reset (da_submit ans) \<and> sa_queue (da_submit ans)"

lemma dispatch_run_accepts:
  "fst (dispatch_run run ans alg job k g) \<longleftrightarrow>
     dispatch_ready k (dis_count job) \<and> dispatch_blocks alg job k \<noteq> None \<and> driver_grants k ans"
  by (auto simp: dispatch_run_def dispatch_slot_def driver_grants_def ring_begin_def ring_wait_def ring_poll_def
      ring_submit_def Let_def split: option.splits prod.splits fence_result.splits bool.splits if_splits)

lemma dispatch_accepts:
  "(\<exists>k' g' sh'. dispatch run ans alg header target nonce n k g sh = Some (True, k', g', sh')) \<longleftrightarrow>
     n \<noteq> 0 \<and> (\<exists>sh'. dispatch_table (da_table ans) alg k sh = Some (True, sh')) \<and> dispatch_ready k n \<and>
     dispatch_blocks alg (dispatch_job header target nonce n) k \<noteq> None \<and> driver_grants k ans"
proof -
  obtain ok k1 g1 where r: "dispatch_run run ans alg (dispatch_job header target nonce n) k g = (ok, k1, g1)"
    by (metis surj_pair)
  have "dis_count (dispatch_job header target nonce n) = n" by (simp add: dispatch_job_def)
  then show ?thesis
    using dispatch_run_accepts [of run ans alg "dispatch_job header target nonce n" k g]
    by (auto simp: dispatch_def r split: option.splits prod.splits bool.splits)
qed

section \<open>A kernel for the examples\<close>

definition example_algorithm :: "'p algorithm_ops" where
  "example_algorithm = \<lparr>al_prepare = (\<lambda>_ _. [1, 2, 3, 4]), al_prepare_uniform = (\<lambda>_ _. []),
     al_program_values = (\<lambda>key n. replicate n (ucast key)), al_next_program_key = (\<lambda>key. key + 1),
     al_table = \<lparr>ts_shared_state = (\<lambda>_ _ _. None), ts_setup_seed = (\<lambda>_ _ _. None), ts_setup_push = (\<lambda>_ _ _ _. None)\<rparr>\<rparr>"

definition example_spec :: "u32 \<Rightarrow> KernelSpec" where
  "example_spec constants = kernel_spec_default\<lparr>k_scratch_bytes := 131072, k_storage_buffers := 2,
     k_push_constant_bytes := 4, k_queue_depth := 2, k_program_constants := constants\<rparr>"

definition example_options :: kernel_options where
  "example_options = \<lparr>ko_fit = \<lparr>opt_queue_depth = 0, opt_workgroup = 0, opt_nonces_per_invocation = 0\<rparr>,
     ko_vk_probe_best = False, ko_vk_count_reached = False\<rparr>"

definition example_init :: init_answers where
  "example_init = \<lparr>ia_buffer = (\<lambda>_ _. True), ia_memory = (\<lambda>_ _. 7), ia_pipeline = True, ia_pool = True,
     ia_commands = True, ia_fence = (\<lambda>_. True)\<rparr>"

definition example_dispatch :: "'p dispatch_answers" where
  "example_dispatch = \<lparr>da_table = \<lparr>dr_seed_alloc = False, dr_staged = False, dr_copied = (\<lambda>_. False),
       dr_pipeline = False, dr_ran = (\<lambda>_. False), dr_seconds = (\<lambda>_. 0), dr_junk = (\<lambda>_. 0),
       dr_shader = (\<lambda>_ _ bs. bs)\<rparr>,
     da_ring = \<lparr>ba_fence = Signalled, ba_reset = True, ba_begin = True\<rparr>, da_flush = True,
     da_submit = \<lparr>sa_end = True, sa_reset = True, sa_queue = True\<rparr>\<rparr>"

definition example_fit :: KernelFit where
  "example_fit = \<lparr>fit_local_size_x = 256, fit_lanes = 1, fit_nonces = 1, fit_per_group = 256, fit_depth = 2,
     fit_max_batch = 36864, fit_per_nonce = 262144\<rparr>"

lemma example_fits: "vulkan_kernel_fit (ko_fit example_options) desktop_device (example_spec c) 0 = Inr example_fit"
proof -
  have floor: "\<lfloor>(12884901888 :: rat) * (3 / 4)\<rfloor> = 9663676416" by (simp add: floor_eq_iff)
  have budget: "vulkan_scratch_budget desktop_device = 9663676416"
    by (simp add: vulkan_scratch_budget_def desktop_device_def floor)
  have width: "fit_width (ko_fit example_options) desktop_device (example_spec c) = Inr (256, 1)"
    by (simp add: fit_width_def fit_width_of_def choose_local_size_def desktop_device_def example_options_def
        example_spec_def kernel_spec_default_def Let_def)
  have nonces: "fit_nonces_of (ko_fit example_options) (example_spec c) 1 = Inr 1"
    by (simp add: fit_nonces_of_def example_options_def example_spec_def kernel_spec_default_def spirv_declares_constant_def Let_def)
  have spec: "k_scratch_bytes (example_spec c) = 131072" "k_concurrent_kernels (example_spec c) = 1"
    "fit_depth_of (ko_fit example_options) (example_spec c) = 2"
    by (simp_all add: example_spec_def kernel_spec_default_def fit_depth_of_def)
  have mem: "d_memory desktop_device = 12884901888" by (simp add: desktop_device_def)
  show ?thesis
    unfolding vulkan_kernel_fit_def width nonces sum.case prod.case spec
    by (simp add: fit_scratch_def budget spec mem kMaxBatch_def example_fit_def Let_def)
qed

lemma example_init_built:
  assumes checks: "init_checks example_options desktop_device spec None = Inr fit" and depth: "fit_depth fit \<noteq> 0"
  shows "\<exists>k g. init example_options example_init desktop_device spec None = Inr (k, g)"
proof -
  have slots: "\<exists>b. init_slots example_init spec fit None n = Inr b" for n
    by (induction n) (auto simp: slot_buffers_def example_init_def Let_def)
  obtain b where b: "init_slots example_init spec fit None (unat (fit_depth fit)) = Inr b"
    using slots by blast
  have fences: "\<exists>m. create_fences (\<lambda>_. True) n = Some m" for n by (induction n) auto
  have ring: "\<exists>r. ring_create True True (\<lambda>_. True) n = Some r" if "n \<noteq> 0" for n
    using fences [of n] that by (auto simp: ring_create_def)
  obtain r where "ring_create True True (\<lambda>_. True) (unat (fit_depth fit)) = Some r"
    using ring [of "unat (fit_depth fit)"] depth by (auto simp: unat_eq_zero)
  moreover have "ia_pipeline example_init" "ia_pool example_init" "ia_commands example_init"
    "ia_fence example_init = (\<lambda>_. True)" by (simp_all add: example_init_def)
  ultimately show ?thesis
    by (simp add: init_def checks b Let_def build_pipeline_def fresh_kernel_def)
qed

lemma example_built:
  assumes "c \<le> 256"
  shows "\<exists>k g. init example_options example_init desktop_device (example_spec c) None = Inr (k, g)"
proof (rule example_init_built)
  show "init_checks example_options desktop_device (example_spec c) None = Inr example_fit"
    using example_fits
    by (simp add: init_checks_def shared_bindings_def bindings_needed_def storage_buffers_def)
      (use assms in \<open>simp add: example_spec_def kernel_spec_default_def backend_limits not_less\<close>)
qed (simp add: example_fit_def)

text \<open>The kernel init builds there, ready and idle, and its first dispatch.\<close>

lemma example_kernel:
  assumes "c \<le> 256"
  obtains k g where "init example_options example_init desktop_device (example_spec c) None = Inr (k, g)"
    "vk_per_group k = 256" "vk_max_batch k = 36864" "vk_depth k = 2" "vk_inflight k = 0"
    "c = 0 \<Longrightarrow> dispatch_ready k 256" "vk_push_bytes k = 4" "vk_uniform_bytes k = 0"
    "vk_program_constants k = c" "\<not> vk_program_ready k" "vk_pipeline k = None \<or> c = 0" "vk_ahead k = None"
    "de_local_size_x (vk_desc k) = 256"
proof -
  obtain k g where i: "init example_options example_init desktop_device (example_spec c) None = Inr (k, g)"
    using example_built [OF assms] by blast
  from i obtain fit bound ring where
    fit: "vulkan_kernel_fit (ko_fit example_options) desktop_device (example_spec c) (case (None :: SharedState option) of None \<Rightarrow> 0 | Some s \<Rightarrow> of_nat (ss_bytes s)) = Inr fit"
    and st: "settled k = settled (fresh_kernel example_options (example_spec c) fit None bound)"
    and q: "queued k = (ring, replicate (unat (fit_depth fit)) \<lparr>pe_slot = 0, pe_count = 0, pe_full_batch = False\<rparr>, 0, 0)"
    and pr: "program k = (if k_program_constants (example_spec c) = 0 then Some (first_pipeline k) else None, 0, False, None)"
    by (rule init_spec)
  have f: "fit = example_fit" using fit example_fits by simp
  note l = limits_settled [OF st]
  have "vk_program_constants k = c" by (simp add: l(6) fresh_kernel_def example_spec_def kernel_spec_default_def)
  then show ?thesis
    using l(3-8,10) q pr
    by (intro that [OF i]) (simp_all add: program_def f example_fit_def fresh_kernel_def init_desc_def queued_def dispatch_ready_def
        example_spec_def kernel_spec_default_def)
qed

lemma example_dispatched:
  assumes "init example_options example_init desktop_device (example_spec c) None = Inr (k, g)"
    "dispatch_ready k n" "vk_push_bytes k = 4" "vk_uniform_bytes k = 0" "n \<noteq> 0"
  obtains k' g' where "dispatch run (example_dispatch :: 'p dispatch_answers) (Some example_algorithm) header target nonce n k g None
      = Some (True, k', g', None)"
proof -
  have "dispatch_blocks (Some example_algorithm) (dispatch_job header target nonce n) k = Some ([1, 2, 3, 4], [])"
    using assms by (simp add: dispatch_blocks_def example_algorithm_def Let_def)
  moreover have "driver_grants k (example_dispatch :: 'p dispatch_answers)"
    using assms by (simp add: driver_grants_def example_dispatch_def)
  moreover have "dispatch_table (da_table (example_dispatch :: 'p dispatch_answers)) (Some example_algorithm) k None = Some (True, None)"
    by (simp add: dispatch_table_def)
  ultimately obtain k' g' sh' where d: "dispatch run (example_dispatch :: 'p dispatch_answers) (Some example_algorithm) header target nonce n k g None
      = Some (True, k', g', sh')"
    using dispatch_accepts [of run "example_dispatch :: 'p dispatch_answers" "Some example_algorithm" header target nonce n k g None] assms by auto
  have "sh' = None"
    using d by (auto simp: dispatch_def dispatch_table_def Let_def split: if_splits prod.splits)
  with d show ?thesis by (auto intro: that)
qed

theorem preferred_batch_bounded_witness:
  "\<exists>k g. init example_options example_init desktop_device (example_spec 0) None = Inr (k, g) \<and>
     0 < preferred_batch k \<and> groups_of k (preferred_batch k) \<le> 65535"
proof (rule example_kernel [of 0])
  fix k g
  assume i: "init example_options example_init desktop_device (example_spec 0) None = Inr (k, g)"
    and p: "vk_per_group k = 256"
  have "0 < preferred_batch k \<and> groups_of k (preferred_batch k) \<le> 65535"
    using preferred_batch_bounded [OF i _ rtranclp.rtrancl_refl] p by (simp add: desktop_device_def)
  then show ?thesis using i by blast
qed simp

theorem collect_moves_batch_witness:
  "\<exists>k g k' g' res. init example_options example_init desktop_device (example_spec 0) None = Inr (k, g) \<and>
     collect (\<lambda>_ _ _ _ _ _. 0) desktop_device \<lparr>ca_poll = TimedOut, ca_wait = Signalled, ca_now = 1, ca_invalidate = True\<rparr>
       32 k g = (res, k', g') \<and> unat (preferred_batch k') \<le> 4 * unat (preferred_batch k)"
proof (rule example_kernel [of 0])
  fix k g
  assume i: "init example_options example_init desktop_device (example_spec 0) None = Inr (k, g)"
  obtain res k' g' where c: "collect (\<lambda>_ _ _ _ _ _. 0) desktop_device
      \<lparr>ca_poll = TimedOut, ca_wait = Signalled, ca_now = 1, ca_invalidate = True\<rparr> 32 k g = (res, k', g')"
    by (metis surj_pair)
  have "unat (preferred_batch k') \<le> 4 * unat (preferred_batch k)"
    using collect_moves_batch [OF i rtranclp.rtrancl_refl c] by blast
  then show ?thesis using i c by blast
qed simp

theorem dispatch_within_scratch_witness:
  "\<exists>k g k' g'. init example_options example_init desktop_device (example_spec 0) None = Inr (k, g) \<and>
     dispatch (\<lambda>_ _ _ _ _ _. 0) (example_dispatch :: nat dispatch_answers) (Some example_algorithm) [] [] 0 256 k g None = Some (True, k', g', None) \<and>
     vk_depth k = 2 \<and> 256 \<le> unat (groups_of k 256) * 256 \<and> invocations k 256 * 131072 \<le> 36864 * 131072"
proof (rule example_kernel [of 0])
  fix k g
  assume i: "init example_options example_init desktop_device (example_spec 0) None = Inr (k, g)"
    and f: "vk_per_group k = 256" "vk_max_batch k = 36864" "vk_depth k = 2" "(0 :: u32) = 0 \<Longrightarrow> dispatch_ready k 256" "vk_push_bytes k = 4" "vk_uniform_bytes k = 0"
    and w: "de_local_size_x (vk_desc k) = 256"
  from i f(4) [OF refl] f(5,6) obtain k' g' where
    d: "dispatch (\<lambda>_ _ _ _ _ _. 0) (example_dispatch :: nat dispatch_answers) (Some example_algorithm) [] [] 0 256 k g None = Some (True, k', g', None)"
    by (rule example_dispatched) simp
  have s: "k_scratch_bytes (example_spec 0) = 131072" "k_lanes (example_spec 0) \<le> 1" "k_queue_depth (example_spec 0) = 2"
    by (simp_all add: example_spec_def kernel_spec_default_def)
  have "\<forall>i < vk_depth k. \<exists>bytes. ia_buffer example_init (Scratch i) bytes \<and>
     unat bytes = unat (vk_max_batch k) * unat (k_scratch_bytes (example_spec 0)) \<and>
     unat (256 :: u32) \<le> unat (groups_of k 256) * unat (vk_per_group k) \<and>
     invocations k 256 * unat (k_scratch_bytes (example_spec 0)) \<le> unat bytes"
    by (rule dispatch_within_scratch [OF i _ s(2) rtranclp.rtrancl_refl d])
      (simp_all add: s w fit_depth_of_def example_options_def)
  then have "256 \<le> unat (groups_of k 256) * 256 \<and> invocations k 256 * 131072 \<le> 36864 * 131072"
    by (auto simp: f s dest: spec [of _ 0])
  then show ?thesis using i d f(3) by blast
qed simp

end
