(* ===== verification/Kernel_Queue.thy ===== *)
theory Kernel_Queue
  imports Kernel_Steps Interfaces
begin

text \<open>
  A Vulkan kernel as the queue its clients take it for: a dispatch appends a job, a collect answers
  the oldest with what its own pipeline left in its own buffers, and nothing in between changes
  what a job comes to. And what a kernel built per program runs.
\<close>

section \<open>Jobs\<close>

text \<open>
  What a job comes to: how many nonces it covers, and what the host will read once the device has
  run it over buffers cleared for it.
\<close>

definition cleared :: "u32 list" where
  "cleared = [0, 0xffffffff] @ replicate (kResultWords - 2) 0"

definition job_result :: "shader \<Rightarrow> ComputePipelineDesc \<Rightarrow> u32 \<Rightarrow> u8 list \<Rightarrow> u8 list \<Rightarrow> u32 list" where
  "job_result run desc groups push block = map (run desc groups push block cleared) [0..<kResultWords]"

definition due :: "shader \<Rightarrow> kernel_gpu \<Rightarrow> nat \<Rightarrow> u32 list" where
  "due run g i = kg_readback (finish run i g) i"

definition entries :: "VulkanKernel \<Rightarrow> Pending list" where
  "entries k = map (\<lambda>j. vk_queue k ! ((vk_head k + j) mod vk_depth k)) [0..<vk_inflight k]"

definition outstanding :: "shader \<Rightarrow> VulkanKernel \<times> kernel_gpu \<Rightarrow> (u32 \<times> u32 list) list" where
  "outstanding run s = map (\<lambda>e. (pe_count e, due run (snd s) (pe_slot e))) (entries (fst s))"

section \<open>Slots do not interfere\<close>

text \<open>Each set of a pipeline points at the buffers of its own slot.\<close>

definition binds :: "nat \<Rightarrow> u32 \<Rightarrow> pipeline \<Rightarrow> bool" where
  "binds slots uniform_bytes p \<longleftrightarrow>
     (\<forall>i < slots. pl_sets p ! i ! 0 = Results i) \<and>
     pl_uniforms p = (if uniform_bytes \<noteq> 0 then map Uniform [0..<slots] else [])"

definition slot_commands :: "nat \<Rightarrow> u32 \<Rightarrow> nat \<Rightarrow> command list \<Rightarrow> bool" where
  "slot_commands slots uniform_bytes i cs \<longleftrightarrow>
     (\<exists>p groups push. cs = dispatch_commands p i groups push \<and> binds slots uniform_bytes p)"

definition gpu_ok :: "nat \<Rightarrow> u32 \<Rightarrow> kernel_gpu \<Rightarrow> bool" where
  "gpu_ok slots uniform_bytes g \<longleftrightarrow>
     (\<forall>i. length (kg_results g i) = kResultWords \<and> length (kg_readback g i) = kResultWords) \<and>
     (\<forall>i cs. dq_running g i = Some cs \<longrightarrow> i < slots \<and> slot_commands slots uniform_bytes i cs)"

text \<open>What one slot of the device looks like.\<close>

definition slot_view :: "kernel_gpu \<Rightarrow> nat \<Rightarrow> command list option \<times> u32 list \<times> u32 list \<times> u8 list" where
  "slot_view g i = (dq_running g i, kg_results g i, kg_readback g i, kg_uniform g i)"

lemma fills_clear:
  assumes "length xs = kResultWords"
  shows "(let r = xs[kFoundWord := 0]; r = r[kBestWord := 0xffffffff]
          in take kReachedWord r @ replicate (length r - kReachedWord) 0) = cleared"
proof -
  obtain a b c xs' where "xs = a # b # c # xs'" "length xs' = kResultWords - 3"
    using assms by (cases xs; cases "tl xs"; cases "tl (tl xs)") (auto simp: result_layout)
  then show ?thesis by (simp add: cleared_def result_layout)
qed

lemma commands_run:
  assumes "binds slots ub p" "i < slots" "length (kg_results g i) = kResultWords" "length (kg_readback g i) = kResultWords"
  shows "fold (execute run) (dispatch_commands p i groups push) g =
    g\<lparr>kg_results := (kg_results g)(i := job_result run (pl_desc p) groups push (if ub \<noteq> 0 then kg_uniform g i else [])),
      kg_readback := (kg_readback g)(i := job_result run (pl_desc p) groups push (if ub \<noteq> 0 then kg_uniform g i else []))\<rparr>"
proof -
  have r: "pl_sets p ! i ! 0 = Results i" using assms(1,2) by (simp add: binds_def)
  have u: "uniform_of p i h = (if ub \<noteq> 0 then kg_uniform h i else [])" for h
    using assms(1,2) by (simp add: uniform_of_def binds_def)
  have l: "length cleared = kResultWords" by (simp add: cleared_def result_layout)
  note c = fills_clear [OF assms(3), unfolded Let_def]
  show ?thesis
    by (simp add: dispatch_commands_def r u c [simplified] l job_result_def assms(4))
qed


lemma finish_idle: "dq_running g i = None \<Longrightarrow> finish run i g = g"
  by (simp add: finish_def)

lemma finish_running:
  assumes "gpu_ok slots ub g" "dq_running g i = Some cs"
  obtains r where "finish run i g =
      g\<lparr>kg_results := (kg_results g)(i := r), kg_readback := (kg_readback g)(i := r),
        dq_running := (dq_running g)(i := None)\<rparr>" "length r = kResultWords"
    "\<And>g'. slot_view g' i = slot_view g i \<Longrightarrow> finish run i g' =
      g'\<lparr>kg_results := (kg_results g')(i := r), kg_readback := (kg_readback g')(i := r),
        dq_running := (dq_running g')(i := None)\<rparr>"
proof -
  have "i < slots \<and> slot_commands slots ub i cs" using assms by (simp add: gpu_ok_def)
  then obtain p groups push where c: "cs = dispatch_commands p i groups push" "binds slots ub p" "i < slots"
    by (auto simp: slot_commands_def)
  let ?r = "\<lambda>g. job_result run (pl_desc p) groups push (if ub \<noteq> 0 then kg_uniform g i else [])"
  have f: "finish run i h = h\<lparr>kg_results := (kg_results h)(i := ?r h), kg_readback := (kg_readback h)(i := ?r h),
        dq_running := (dq_running h)(i := None)\<rparr>" if "slot_view h i = slot_view g i" for h
  proof -
    have v: "dq_running h i = Some (dispatch_commands p i groups push)" "length (kg_results h i) = kResultWords"
      "length (kg_readback h i) = kResultWords"
      using that assms c(1) by (simp_all add: slot_view_def gpu_ok_def)
    show ?thesis
      using commands_run [OF c(2,3) v(2,3)] by (simp add: finish_def v(1) Let_def)
  qed
  show ?thesis
  proof (rule that [of "?r g"])
    show "length (?r g) = kResultWords" by (simp add: job_result_def)
    show "finish run i h = h\<lparr>kg_results := (kg_results h)(i := ?r g), kg_readback := (kg_readback h)(i := ?r g),
        dq_running := (dq_running h)(i := None)\<rparr>" if "slot_view h i = slot_view g i" for h
    proof -
      have "?r h = ?r g" using that by (simp add: slot_view_def)
      then show ?thesis using f [OF that] by simp
    qed
    show "finish run i g = g\<lparr>kg_results := (kg_results g)(i := ?r g), kg_readback := (kg_readback g)(i := ?r g),
        dq_running := (dq_running g)(i := None)\<rparr>" by (rule f) simp
  qed
qed

lemma finish_spec:
  assumes "gpu_ok slots ub g"
  shows "gpu_ok slots ub (finish run i g)" "dq_running (finish run i g) i = None"
    "j \<noteq> i \<Longrightarrow> slot_view (finish run i g) j = slot_view g j"
    "kg_live (finish run i g) = kg_live g" "dq_cmd (finish run i g) = dq_cmd g" "kg_made (finish run i g) = kg_made g"
    "kg_uniform (finish run i g) = kg_uniform g"
proof -
  have "gpu_ok slots ub (finish run i g) \<and> dq_running (finish run i g) i = None \<and>
    (\<forall>j. j \<noteq> i \<longrightarrow> slot_view (finish run i g) j = slot_view g j) \<and>
    kg_live (finish run i g) = kg_live g \<and> dq_cmd (finish run i g) = dq_cmd g \<and> kg_made (finish run i g) = kg_made g \<and>
    kg_uniform (finish run i g) = kg_uniform g"
  proof (cases "dq_running g i")
    case None
    then show ?thesis using assms by (simp add: finish_idle)
  next
    case (Some cs)
    from assms Some obtain r where r: "finish run i g =
      g\<lparr>kg_results := (kg_results g)(i := r), kg_readback := (kg_readback g)(i := r),
        dq_running := (dq_running g)(i := None)\<rparr>" "length r = kResultWords"
      by (rule finish_running [where run = run])
    show ?thesis using assms r(2) by (simp add: r(1) gpu_ok_def slot_view_def)
  qed
  then show "gpu_ok slots ub (finish run i g)" "dq_running (finish run i g) i = None"
    "j \<noteq> i \<Longrightarrow> slot_view (finish run i g) j = slot_view g j"
    "kg_live (finish run i g) = kg_live g" "dq_cmd (finish run i g) = dq_cmd g" "kg_made (finish run i g) = kg_made g"
    "kg_uniform (finish run i g) = kg_uniform g"
    by blast+
qed

lemma due_view:
  assumes "gpu_ok slots ub g" "slot_view g' i = slot_view g i"
  shows "due run g' i = due run g i"
proof (cases "dq_running g i")
  case None
  then show ?thesis using assms(2) by (simp add: due_def finish_idle slot_view_def)
next
  case (Some cs)
  from assms(1) Some show ?thesis
  proof (rule finish_running [where run = run])
    fix r
    assume g: "finish run i g = g\<lparr>kg_results := (kg_results g)(i := r), kg_readback := (kg_readback g)(i := r),
        dq_running := (dq_running g)(i := None)\<rparr>"
      and g': "\<And>g'. slot_view g' i = slot_view g i \<Longrightarrow> finish run i g' =
      g'\<lparr>kg_results := (kg_results g')(i := r), kg_readback := (kg_readback g')(i := r),
        dq_running := (dq_running g')(i := None)\<rparr>"
    show ?thesis by (simp add: due_def g g' [OF assms(2)])
  qed
qed

lemma due_finish:
  assumes "gpu_ok slots ub g"
  shows "due run (finish run j g) i = due run g i"
proof (cases "i = j")
  case True
  then show ?thesis using finish_spec(2) [OF assms, where run = run and i = j] by (simp add: due_def finish_idle)
next
  case False
  then show ?thesis using finish_spec(3) [OF assms] by (intro due_view [OF assms]) simp
qed

lemma fence_waited_spec:
  assumes "gpu_ok slots ub g"
  shows "gpu_ok slots ub (fence_waited run a i g)" "honest a i (fence_waited run a i g)"
    "j \<noteq> i \<Longrightarrow> slot_view (fence_waited run a i g) j = slot_view g j"
    "due run (fence_waited run a i g) j = due run g j"
    "kg_live (fence_waited run a i g) = kg_live g" "kg_made (fence_waited run a i g) = kg_made g"
    "dq_running (fence_waited run a i g) j \<noteq> None \<Longrightarrow> dq_running (fence_waited run a i g) j = dq_running g j"
proof -
  have *: "dq_running (finish run i g) j \<noteq> None \<Longrightarrow> dq_running (finish run i g) j = dq_running g j"
    using finish_spec(2,3) [OF assms, where run = run and i = i] by (cases "i = j") (auto simp: slot_view_def)
  show "gpu_ok slots ub (fence_waited run a i g)" "honest a i (fence_waited run a i g)"
    "j \<noteq> i \<Longrightarrow> slot_view (fence_waited run a i g) j = slot_view g j"
    "due run (fence_waited run a i g) j = due run g j"
    "kg_live (fence_waited run a i g) = kg_live g" "kg_made (fence_waited run a i g) = kg_made g"
    "dq_running (fence_waited run a i g) j \<noteq> None \<Longrightarrow> dq_running (fence_waited run a i g) j = dq_running g j"
    using finish_spec [OF assms, where run = run and i = i] due_finish [OF assms] * assms
    by (auto simp: fence_waited_def honest_def)
qed

lemma ring_ok_running:
  assumes "ring_ok r g" "\<And>j. dq_running g' j \<noteq> None \<Longrightarrow> dq_running g j \<noteq> None"
  shows "ring_ok r g'"
  using assms by (auto simp: ring_ok_def)

section \<open>The queue of what is outstanding\<close>

lemma mod_neq:
  fixes h :: nat
  assumes "j < m" "m < D"
  shows "(h + j) mod D \<noteq> (h + m) mod D"
proof
  assume "(h + j) mod D = (h + m) mod D"
  then have "(h + m) mod D = (h + j) mod D" by simp
  then have "D dvd (h + m) - (h + j)" using mod_eq_dvd_iff_nat [of "h + j" "h + m" D] assms by simp
  then show False using assms by (auto dest: dvd_imp_le)
qed

lemma entries_put:
  assumes "vk_inflight k < vk_depth k" "length (vk_queue k) = vk_depth k"
    "vk_queue k' = (vk_queue k)[(vk_head k + vk_inflight k) mod vk_depth k := e]"
    "vk_inflight k' = vk_inflight k + 1" "vk_head k' = vk_head k" "vk_depth k' = vk_depth k"
  shows "entries k' = entries k @ [e]"
proof -
  have "(vk_head k + vk_inflight k) mod vk_depth k < length (vk_queue k)" using assms(1,2) by simp
  moreover have "vk_queue k' ! ((vk_head k + j) mod vk_depth k) = vk_queue k ! ((vk_head k + j) mod vk_depth k)"
    if "j < vk_inflight k" for j
    using mod_neq [OF that assms(1), of "vk_head k"] by (simp add: assms(3))
  ultimately show ?thesis by (simp add: entries_def assms(3-6) cong: map_cong)
qed

lemma entries_take:
  assumes "vk_inflight k \<noteq> 0" "vk_head k < vk_depth k"
    "vk_queue k' = vk_queue k" "vk_inflight k' = vk_inflight k - 1" "vk_head k' = (vk_head k + 1) mod vk_depth k"
    "vk_depth k' = vk_depth k"
  shows "entries k = (vk_queue k ! vk_head k) # entries k'"
proof -
  obtain m where m: "vk_inflight k = Suc m" using assms(1) by (cases "vk_inflight k") auto
  have "entries k = map (\<lambda>j. vk_queue k ! ((vk_head k + j) mod vk_depth k)) (0 # map Suc [0..<m])"
    by (simp only: entries_def m map_Suc_upt upt_conv_Cons zero_less_Suc)
  also have "\<dots> = (vk_queue k ! vk_head k) # map (\<lambda>j. vk_queue k ! ((vk_head k + Suc j) mod vk_depth k)) [0..<m]"
    using assms(2) by (simp add: o_def)
  also have "map (\<lambda>j. vk_queue k ! ((vk_head k + Suc j) mod vk_depth k)) [0..<m] = entries k'"
    by (simp add: entries_def assms(3-6) m mod_add_left_eq)
  finally show ?thesis .
qed

lemma entries_same:
  assumes "vk_queue k' = vk_queue k" "vk_inflight k' = vk_inflight k" "vk_head k' = vk_head k" "vk_depth k' = vk_depth k"
  shows "entries k' = entries k"
  by (simp add: entries_def assms)

lemma length_entries [simp]: "length (entries k) = vk_inflight k"
  by (simp add: entries_def)

section \<open>What keeps the queue\<close>

text \<open>The device going from one state to another without changing what any slot will come to.\<close>

definition calm :: "shader \<Rightarrow> nat \<Rightarrow> u32 \<Rightarrow> kernel_gpu \<Rightarrow> kernel_gpu \<Rightarrow> bool" where
  "calm run slots ub g g' \<longleftrightarrow> gpu_ok slots ub g' \<and> (\<forall>i. due run g' i = due run g i) \<and>
     (\<forall>i. dq_running g' i \<noteq> None \<longrightarrow> dq_running g' i = dq_running g i)"

named_theorems calm_intros

lemma calm_refl [calm_intros]: "gpu_ok slots ub g \<Longrightarrow> calm run slots ub g g"
  by (simp add: calm_def)

lemma calm_trans: "calm run slots ub g g' \<Longrightarrow> calm run slots ub g' g'' \<Longrightarrow> calm run slots ub g g''"
  unfolding calm_def by (intro conjI) (blast | metis)+

lemma calm_gpu_ok: "calm run slots ub g g' \<Longrightarrow> gpu_ok slots ub g'"
  by (simp add: calm_def)

lemma calm_views:
  assumes "gpu_ok slots ub g" "\<And>i. slot_view g' i = slot_view g i"
  shows "calm run slots ub g g'"
proof -
  have v: "dq_running g' = dq_running g" "kg_results g' = kg_results g" "kg_readback g' = kg_readback g"
    using assms(2) by (auto simp: slot_view_def)
  have "gpu_ok slots ub g'" using assms(1) by (simp add: gpu_ok_def v)
  moreover have "due run g' i = due run g i" for i by (rule due_view [OF assms(1) assms(2)])
  ultimately show ?thesis by (simp add: calm_def v)
qed

lemma calm_fence [calm_intros]: "gpu_ok slots ub g \<Longrightarrow> calm run slots ub g (fence_waited run a i g)"
  using fence_waited_spec(1,4,7) [of slots ub g, where run = run and a = a and i = i] by (simp add: calm_def)

lemma calm_finish [calm_intros]: "gpu_ok slots ub g \<Longrightarrow> calm run slots ub g (finish run i g)"
  using calm_fence [of slots ub g run Signalled i] by (simp add: fence_waited_def)

lemma calm_destroy [calm_intros]: "gpu_ok slots ub g \<Longrightarrow> calm run slots ub g (destroy_pipeline p g)"
  by (rule calm_views) (simp_all add: destroy_pipeline_def slot_view_def split: option.split)

lemma calm_idle [calm_intros]:
  assumes "gpu_ok slots ub g"
  shows "calm run slots ub g (wait_idle run n g)"
  unfolding wait_idle_def
  by (rule for_up_invariant [where P = "\<lambda>_ h. calm run slots ub g h"])
     (use assms calm_finish calm_gpu_ok in \<open>blast intro: calm_refl calm_trans\<close>)+

lemma calm_build_pipeline:
  assumes "gpu_ok slots ub g" "build_pipeline created p k g = (res, k', g')"
  shows "calm run slots ub g g'"
  by (rule calm_views [OF assms(1)]) (use assms(2) in \<open>auto simp: build_pipeline_def slot_view_def Let_def split: if_splits\<close>)

lemma calm_kernel_build_program:
  assumes "gpu_ok slots ub g" "kernel_build_program created alg key k g = (res, k', g')"
  shows "calm run slots ub g g'"
  using assms calm_build_pipeline calm_refl by (auto simp: kernel_build_program_def Let_def split: if_splits)

lemma calm_join:
  assumes "gpu_ok slots ub g" "join_ahead created alg key k g = (res, k', g')"
  shows "calm run slots ub g g'"
proof (cases "vk_ahead k")
  case None
  then show ?thesis using assms by (simp add: join_ahead_def calm_refl)
next
  case (Some a)
  obtain b k1 g1 where b: "kernel_build_program created alg a k g = (b, k1, g1)" by (metis prod_cases3)
  note c = calm_kernel_build_program [OF assms(1) b, of run]
  have "calm run slots ub g1 (destroy_pipeline b g1)" by (rule calm_destroy [OF calm_gpu_ok [OF c]])
  then show ?thesis
    using assms(2) c calm_trans [OF c] by (auto simp: join_ahead_def Some b Let_def split: if_splits)
qed

lemma calm_retire:
  assumes "gpu_ok slots ub g" "retire run old k g = (k', g')"
  shows "calm run slots ub g g'"
proof -
  have w: "calm run slots ub g (destroy_pipeline p (wait_idle run n g))" for p n
    using calm_idle [OF assms(1)] calm_destroy calm_gpu_ok calm_trans by blast
  have ww: "calm run slots ub g (destroy_pipeline q (destroy_pipeline p (wait_idle run n g)))" for p q n
    using w calm_destroy calm_gpu_ok calm_trans by blast
  show ?thesis
    using assms(2) w ww calm_destroy [OF assms(1)] calm_refl [OF assms(1)]
    by (auto simp: retire_def Let_def split: if_splits)
qed

lemma calm_prepare_program:
  assumes "gpu_ok slots ub g" "prepare_program run ans alg key k g = (ok, k', g')"
  shows "calm run slots ub g g'"
  using assms(2)
proof (cases rule: prepare_program_stages)
  case kept
  then show ?thesis using assms(1) by (simp add: calm_refl)
next
  case (refused k1 g1)
  note j = calm_join [OF assms(1) refused(1), of run]
  show ?thesis by (rule calm_trans [OF j calm_kernel_build_program [OF calm_gpu_ok [OF j] refused(2)]])
next
  case (loaded p k1 g1 k2)
  have j: "calm run slots ub g g1"
    using loaded(4)
  proof (elim disjE exE conjE)
    assume "join_ahead (pa_ahead ans) alg key k g = (Some p, k1, g1)"
    then show ?thesis by (rule calm_join [OF assms(1)])
  next
    fix k0 g0
    assume j: "join_ahead (pa_ahead ans) alg key k g = (None, k0, g0)"
      and b: "kernel_build_program (pa_build ans) alg key k0 g0 = (Some p, k1, g1)"
    note c = calm_join [OF assms(1) j, of run]
    show ?thesis by (rule calm_trans [OF c calm_kernel_build_program [OF calm_gpu_ok [OF c] b]])
  qed
  show ?thesis by (rule calm_trans [OF j calm_retire [OF calm_gpu_ok [OF j] loaded(5)]])
qed

section \<open>The invariant\<close>

definition kernel_ok :: "VulkanKernel \<Rightarrow> kernel_gpu \<Rightarrow> bool" where
  "kernel_ok k g \<longleftrightarrow>
     length (cr_slots (vk_ring k)) = vk_depth k \<and> ring_ok (vk_ring k) g \<and>
     length (vk_queue k) = vk_depth k \<and> vk_head k < vk_depth k \<and> vk_inflight k \<le> vk_depth k \<and>
     gpu_ok (vk_depth k) (vk_uniform_bytes k) g \<and>
     length (vk_bound k) = vk_depth k \<and> (\<forall>i < vk_depth k. vk_bound k ! i ! 0 = Results i) \<and>
     (\<forall>p. vk_pipeline k = Some p \<longrightarrow> binds (vk_depth k) (vk_uniform_bytes k) p) \<and>
     (vk_program_constants k = 0 \<or> vk_program_ready k \<longrightarrow> vk_pipeline k \<noteq> None)"

text \<open>The outstanding dispatches hold the slots just before the one the ring hands out next.\<close>

definition lockstep :: "VulkanKernel \<Rightarrow> bool" where
  "lockstep k \<longleftrightarrow> map pe_slot (entries k) =
     map (\<lambda>j. (cr_next (vk_ring k) + vk_depth k - vk_inflight k + j) mod vk_depth k) [0..<vk_inflight k]"

lemma kernel_ok_calm:
  assumes "kernel_ok k g" "calm run (vk_depth k) (vk_uniform_bytes k) g g'"
  shows "kernel_ok k g'" "outstanding run (k, g') = outstanding run (k, g)"
  using assms by (auto simp: kernel_ok_def calm_def ring_ok_def outstanding_def)

lemma kernel_ok_frame:
  assumes "kernel_ok k g" "settled k' = settled k" "queued k' = queued k" "program k' = program k"
  shows "kernel_ok k' g" "lockstep k' = lockstep k" "outstanding run (k', g) = outstanding run (k, g)"
  using assms limits_settled [OF assms(2)]
  by (simp_all add: kernel_ok_def lockstep_def outstanding_def entries_def queued_def program_def)

lemma kernel_build_program_binds:
  assumes "kernel_build_program created alg key k g = (Some p, k', g')" "kernel_ok k0 g0" "settled k = settled k0"
  shows "binds (vk_depth k0) (vk_uniform_bytes k0) p"
  using assms(1,2) limits_settled [OF assms(3)]
  by (auto simp: kernel_build_program_def build_pipeline_def binds_def kernel_ok_def Let_def split: if_splits)

lemma join_ahead_binds:
  assumes "join_ahead created alg key k g = (Some p, k', g')" "kernel_ok k g"
  shows "binds (vk_depth k) (vk_uniform_bytes k) p"
proof (cases "vk_ahead k")
  case None
  then show ?thesis using assms(1) by (simp add: join_ahead_def)
next
  case (Some a)
  obtain b k1 g1 where b: "kernel_build_program created alg a k g = (b, k1, g1)" by (metis prod_cases3)
  then have "b = Some p" using assms(1) by (auto simp: join_ahead_def Some Let_def split: if_splits)
  then show ?thesis using kernel_build_program_binds [OF _ assms(2) refl, of created alg a g p k1 g1] b by simp
qed

lemma prepare_program_queue:
  assumes "kernel_ok k g" "prepare_program run ans alg key k g = (ok, k', g')"
  shows "kernel_ok k' g'" "lockstep k' = lockstep k" "outstanding run (k', g') = outstanding run (k, g)"
proof -
  note f = prepare_program_frame [OF assms(2)] and l = limits_settled [OF prepare_program_frame(1) [OF assms(2)]]
  have c: "calm run (vk_depth k) (vk_uniform_bytes k) g g'"
    by (rule calm_prepare_program [OF _ assms(2)]) (use assms(1) in \<open>simp add: kernel_ok_def\<close>)
  note kg = kernel_ok_calm [OF assms(1) c]
  have p: "(\<forall>p. vk_pipeline k' = Some p \<longrightarrow> binds (vk_depth k) (vk_uniform_bytes k) p) \<and>
     (vk_program_constants k = 0 \<or> vk_program_ready k' \<longrightarrow> vk_pipeline k' \<noteq> None)"
    using assms(2)
  proof (cases rule: prepare_program_stages)
    case kept
    then show ?thesis using assms(1) by (simp add: kernel_ok_def)
  next
    case (refused k1 g1)
    have "program k' = program k1" by (rule kernel_build_program_frame(3) [OF refused(2)])
    then have "vk_pipeline k' = vk_pipeline k" "vk_program_ready k' = vk_program_ready k"
      using join_ahead_frame(5,7) [OF refused(1)] by (simp_all add: program_def)
    then show ?thesis using assms(1) by (simp add: kernel_ok_def)
  next
    case (loaded p k1 g1 k2)
    have "binds (vk_depth k) (vk_uniform_bytes k) p"
      using loaded(4)
    proof (elim disjE exE conjE)
      assume "join_ahead (pa_ahead ans) alg key k g = (Some p, k1, g1)"
      then show ?thesis by (rule join_ahead_binds [OF _ assms(1)])
    next
      fix k0 g0
      assume j: "join_ahead (pa_ahead ans) alg key k g = (None, k0, g0)"
        and b: "kernel_build_program (pa_build ans) alg key k0 g0 = (Some p, k1, g1)"
      show ?thesis by (rule kernel_build_program_binds [OF b assms(1) join_ahead_frame(1) [OF j]])
    qed
    then show ?thesis by (simp add: loaded(6))
  qed
  show "kernel_ok k' g'" using kg(1) p f(2) l by (simp add: kernel_ok_def queued_def)
  show "lockstep k' = lockstep k" using f(2) l by (simp add: lockstep_def entries_def queued_def)
  have "entries k' = entries k" using f(2) l by (simp add: entries_def queued_def)
  then show "outstanding run (k', g') = outstanding run (k, g)" using kg(2) by (simp add: outstanding_def)
qed


text \<open>What a job will come to, as the kernel and its algorithm are when it is given.\<close>

definition job_of :: "shader \<Rightarrow> 'p algorithm_ops option \<Rightarrow> Dispatch \<Rightarrow> VulkanKernel \<Rightarrow> u32 \<times> u32 list" where
  "job_of run alg job k =
     (case (vk_pipeline k, dispatch_blocks alg job k) of
        (Some p, Some (push, block)) \<Rightarrow>
          (dis_count job, job_result run (pl_desc p) (groups_of k (dis_count job)) push block)
      | _ \<Rightarrow> (dis_count job, []))"

lemma dispatch_slot_spec:
  assumes "dispatch_slot ans i n push block k g = (ok, k', g')" "vk_pipeline k = Some p" "dq_cmd g i = []"
  shows "\<not> ok \<Longrightarrow> k' = k \<and> dq_running g' = dq_running g \<and> kg_results g' = kg_results g \<and>
      kg_readback g' = kg_readback g \<and> (\<forall>j. j \<noteq> i \<longrightarrow> kg_uniform g' j = kg_uniform g j)"
    "ok \<Longrightarrow> k' = k\<lparr>vk_ring := (vk_ring k)\<lparr>cr_slots := (cr_slots (vk_ring k))
                 [i := (cr_slots (vk_ring k) ! i)\<lparr>rs_pending := True\<rparr>]\<rparr>,
          vk_queue := (vk_queue k)[(vk_head k + vk_inflight k) mod vk_depth k :=
                 \<lparr>pe_slot = i, pe_count = n, pe_full_batch = (n = vk_batch k)\<rparr>],
          vk_inflight := vk_inflight k + 1\<rparr> \<and>
      dq_running g' = (dq_running g)(i := Some (dispatch_commands p i (groups_of k n) push)) \<and>
      kg_results g' = kg_results g \<and> kg_readback g' = kg_readback g \<and>
      kg_uniform g' = (if vk_uniform_bytes k \<noteq> 0 then (kg_uniform g)(i := block) else kg_uniform g)"
  using assms
  by (auto simp: dispatch_slot_def ring_submit_def Let_def split: if_splits)

lemma due_submitted:
  assumes "dq_running g i = Some (dispatch_commands p i groups push)" "binds slots ub p" "i < slots" "gpu_ok slots ub g"
  shows "due run g i = job_result run (pl_desc p) groups push (if ub \<noteq> 0 then kg_uniform g i else [])"
  using commands_run [OF assms(2,3), of g run groups push] assms(4)
  by (simp add: due_def finish_def assms(1) Let_def gpu_ok_def)

lemma dispatch_run_queue:
  assumes "kernel_ok k g" "lockstep k" "dispatch_run run ans alg job k g = (ok, k', g')"
  shows "kernel_ok k' g' \<and>
     (if ok then outstanding run (k', g') = outstanding run (k, g) @ [job_of run alg job k] \<and> lockstep k'
      else outstanding run (k', g') = outstanding run (k, g))"
proof (cases "dispatch_ready k (dis_count job) \<and> dispatch_blocks alg job k \<noteq> None")
  case False
  then have "dispatch_run run ans alg job k g = (False, k, g)"
    by (cases "dispatch_blocks alg job k") (auto simp: dispatch_run_def)
  then have "\<not> ok" "k' = k" "g' = g" using assms(3) by simp_all
  then show ?thesis using assms(1) by simp
next
  case True
  let ?D = "vk_depth k" and ?ub = "vk_uniform_bytes k" and ?n = "cr_next (vk_ring k)"
  obtain push block where bl: "dispatch_blocks alg job k = Some (push, block)" using True by auto
  define g1 where "g1 = fence_waited run (ba_fence (da_ring ans)) ?n g"
  obtain got ring g2 where b: "ring_begin (da_ring ans) (vk_ring k) g1 = (got, ring, g2)" by (metis prod_cases3)
  let ?k = "k\<lparr>vk_ring := ring\<rparr>"
  have ok0: "gpu_ok ?D ?ub g" "ring_ok (vk_ring k) g" using assms(1) by (simp_all add: kernel_ok_def)
  note fw = fence_waited_spec [OF ok0(1), where run = run and a = "ba_fence (da_ring ans)" and i = ?n, folded g1_def]
  have r1: "ring_ok (vk_ring k) g1" using fw(7) by (intro ring_ok_running [OF ok0(2)]) fastforce
  note bo = ring_begin_ok [OF b fw(2) r1] and bf = ring_begin_frame [OF b]
  have g2: "calm run ?D ?ub g1 g2"
    by (rule calm_views [OF fw(1)]) (use bf(5) in \<open>auto simp: slot_view_def\<close>)
  have c: "calm run ?D ?ub g g2"
    using calm_trans [OF calm_fence [OF ok0(1)] g2 [unfolded g1_def]] by simp
  note kc = kernel_ok_calm [OF assms(1) c]
  have kr: "kernel_ok ?k g2" using kc(1) bo bf(1) by (simp add: kernel_ok_def)
  have er: "entries ?k = entries k" by (rule entries_same) simp_all
  have outr: "outstanding run (?k, g2) = outstanding run (k, g)" using kc(2) by (simp add: outstanding_def er)
  have e: "(case got of None \<Rightarrow> (False, ?k, g2)
      | Some i \<Rightarrow> dispatch_slot ans (rs_index (cr_slots ring ! i)) (dis_count job) push block ?k g2) = (ok, k', g')"
    using assms(3) True by (simp add: dispatch_run_def bl g1_def [symmetric] b Let_def)
  show ?thesis
  proof (cases got)
    case None
    then show ?thesis using e kr outr by simp
  next
    case (Some i)
    note bs = ring_begin_some [OF b [unfolded Some]] and bfree = ring_begin_free [OF b [unfolded Some] fw(2) r1]
    have len: "length (cr_slots ring) = ?D" using bf(1) assms(1) by (simp add: kernel_ok_def)
    have i: "i = ?n" "i < ?D" using bs(1) bfree(3) len by simp_all
    have idx: "rs_index (cr_slots ring ! i) = i" using bo i len by (simp add: ring_ok_def)
    have room: "vk_inflight k < ?D" using True by (simp add: dispatch_ready_def)
    obtain p where p: "vk_pipeline k = Some p"
      using assms(1) True by (auto simp: kernel_ok_def dispatch_ready_def)
    have pb: "binds ?D ?ub p" using assms(1) p by (simp add: kernel_ok_def)
    have cmd: "dq_cmd g2 i = []" by (simp add: bs(4))
    have run_i: "dq_running g2 i = None" using bfree(1) bs(4) by simp
    have ds: "dispatch_slot ans i (dis_count job) push block ?k g2 = (ok, k', g')" using e Some idx by simp
    note spec = dispatch_slot_spec [OF ds _ cmd, of p]
    have gk: "gpu_ok ?D ?ub g2" by (rule calm_gpu_ok [OF c])
    text \<open>No outstanding dispatch holds the slot.\<close>
    have notin: "i \<notin> pe_slot ` set (entries k)"
    proof
      assume "i \<in> pe_slot ` set (entries k)"
      then have "i \<in> set (map pe_slot (entries k))" by simp
      then have "i \<in> set (map (\<lambda>j. (?n + ?D - vk_inflight k + j) mod ?D) [0..<vk_inflight k])"
        using assms(2) by (simp only: lockstep_def)
      then obtain j where j: "j < vk_inflight k" "i = (?n + ?D - vk_inflight k + j) mod ?D" by auto
      have "(?n + (?D - vk_inflight k + j)) mod ?D = (?n + 0) mod ?D"
        using j room i by (simp add: add.assoc)
      moreover have "(?n + 0) mod ?D \<noteq> (?n + (?D - vk_inflight k + j)) mod ?D"
        by (rule mod_neq) (use j room in linarith)+
      ultimately show False by simp
    qed
    have same: "outstanding run (k, h) = outstanding run (k, g2)"
      if v: "\<And>j. j \<noteq> i \<Longrightarrow> slot_view h j = slot_view g2 j" for h
    proof -
      have "due run h (pe_slot e) = due run g2 (pe_slot e)" if "e \<in> set (entries k)" for e
        by (rule due_view [OF gk v]) (use notin that in blast)
      then show ?thesis by (simp add: outstanding_def)
    qed
    show ?thesis
    proof (cases ok)
      case False
      have s: "k' = ?k" "dq_running g' = dq_running g2" "kg_results g' = kg_results g2" "kg_readback g' = kg_readback g2"
        "\<And>j. j \<noteq> i \<Longrightarrow> kg_uniform g' j = kg_uniform g2 j" using spec(1) False p by auto
      have "gpu_ok ?D ?ub g'" "ring_ok ring g'" using gk bo by (simp_all add: gpu_ok_def ring_ok_def s(2-4))
      then have "kernel_ok k' g'" using kr by (simp add: kernel_ok_def s(1))
      moreover have "outstanding run (k, g') = outstanding run (k, g2)"
        by (rule same) (simp add: slot_view_def s)
      ultimately show ?thesis using False kc(2) by (simp add: outstanding_def s(1) er)
    next
      case True
      let ?cs = "dispatch_commands p i (groups_of k (dis_count job)) push"
      have grp: "groups_of ?k n = groups_of k n" for n by (simp add: groups_of_def)
      have s: "k' = ?k\<lparr>vk_ring := ring\<lparr>cr_slots := (cr_slots ring)[i := (cr_slots ring ! i)\<lparr>rs_pending := True\<rparr>]\<rparr>,
          vk_queue := (vk_queue k)[(vk_head k + vk_inflight k) mod ?D :=
                 \<lparr>pe_slot = i, pe_count = dis_count job, pe_full_batch = (dis_count job = vk_batch k)\<rparr>],
          vk_inflight := vk_inflight k + 1\<rparr>"
        "dq_running g' = (dq_running g2)(i := Some ?cs)" "kg_results g' = kg_results g2" "kg_readback g' = kg_readback g2"
        "kg_uniform g' = (if ?ub \<noteq> 0 then (kg_uniform g2)(i := block) else kg_uniform g2)"
        using spec(2) True p by (simp_all add: grp)
      have gk': "gpu_ok ?D ?ub g'"
        using gk i(2) pb by (auto simp: gpu_ok_def s(2-5) slot_commands_def)
      have ring': "ring_ok (vk_ring k') g'"
        using bo i(2) len by (auto simp: ring_ok_def s(1,2) nth_update_iff)
      have ko: "kernel_ok k' g'"
        using kr gk' ring' room len by (auto simp: kernel_ok_def s(1))
      have ent: "entries k' = entries k @ [\<lparr>pe_slot = i, pe_count = dis_count job, pe_full_batch = (dis_count job = vk_batch k)\<rparr>]"
        using room assms(1) by (intro entries_put) (simp_all add: s(1) kernel_ok_def)
      have others: "outstanding run (k, g') = outstanding run (k, g)"
        using same [of g'] kc(2) by (simp add: slot_view_def s(2-5))
      have "due run g' i = job_result run (pl_desc p) (groups_of k (dis_count job)) push (if ?ub \<noteq> 0 then kg_uniform g' i else [])"
        by (rule due_submitted [OF _ pb i(2) gk']) (simp add: s(2))
      moreover have "(if ?ub \<noteq> 0 then kg_uniform g' i else []) = block"
        using bl by (auto simp: s(5) dispatch_blocks_def Let_def split: if_splits)
      ultimately have mine: "(dis_count job, due run g' i) = job_of run alg job k"
        by (simp add: job_of_def p bl)
      have out': "outstanding run (k', g') = outstanding run (k, g) @ [job_of run alg job k]"
        using others mine by (simp add: outstanding_def ent)
      have "lockstep k'"
      proof -
        let ?m = "vk_inflight k"
        have next': "cr_next ring = (?n + 1) mod ?D" using bf(2) assms(1) by (simp add: kernel_ok_def)
        have nl: "?n < ?D" using i by simp
        have shift: "((?n + 1) mod ?D + ?D - (?m + 1) + j) mod ?D = (?n + ?D - ?m + j) mod ?D" for j
        proof -
          have "((?n + 1) mod ?D + ?D - (?m + 1) + j) mod ?D = ((?n + 1) mod ?D + (?D - (?m + 1) + j)) mod ?D"
            using room by (simp add: add.assoc)
          also have "\<dots> = (?n + 1 + (?D - (?m + 1) + j)) mod ?D" by (rule mod_add_left_eq)
          also have "?n + 1 + (?D - (?m + 1) + j) = ?n + ?D - ?m + j" using room by simp
          finally show ?thesis .
        qed
        have last: "(?n + ?D - ?m + ?m) mod ?D = i" using room nl i by simp
        have "map pe_slot (entries k') = map (\<lambda>j. (?n + ?D - ?m + j) mod ?D) [0..<?m] @ [i]"
          using assms(2) by (simp add: ent lockstep_def)
        also have "\<dots> = map (\<lambda>j. (?n + ?D - ?m + j) mod ?D) [0..<?m + 1]" using last by simp
        also have "\<dots> = map (\<lambda>j. (cr_next (vk_ring k') + vk_depth k' - vk_inflight k' + j) mod vk_depth k') [0..<vk_inflight k']"
          using shift next' by (simp add: s(1))
        finally show ?thesis by (simp add: lockstep_def)
      qed
      then show ?thesis using True ko out' by simp
    qed
  qed
qed

lemma taken_queue:
  assumes "kernel_ok k g" "vk_inflight k \<noteq> 0"
  shows "kernel_ok (taken k) g" "entries k = (vk_queue k ! vk_head k) # entries (taken k)"
    "lockstep k \<Longrightarrow> lockstep (taken k)"
proof -
  show e: "entries k = (vk_queue k ! vk_head k) # entries (taken k)"
    by (rule entries_take) (use assms in \<open>simp_all add: taken_def kernel_ok_def\<close>)
  show "kernel_ok (taken k) g" using assms by (auto simp: kernel_ok_def taken_def)
  show "lockstep (taken k)" if "lockstep k"
  proof -
    obtain m where m: "vk_inflight k = Suc m" using assms(2) by (cases "vk_inflight k") auto
    have le: "Suc m \<le> vk_depth k" using assms(1) m by (simp add: kernel_ok_def)
    let ?f = "\<lambda>j. (cr_next (vk_ring k) + vk_depth k - Suc m + j) mod vk_depth k"
    have "pe_slot (vk_queue k ! vk_head k) # map pe_slot (entries (taken k)) = map ?f (0 # map Suc [0..<m])"
      using that by (simp only: lockstep_def m e list.map map_Suc_upt upt_conv_Cons [OF zero_less_Suc])
    then have "map pe_slot (entries (taken k)) = map (\<lambda>j. ?f (Suc j)) [0..<m]" by (simp add: o_def)
    moreover have "?f (Suc j) = (cr_next (vk_ring k) + vk_depth k - m + j) mod vk_depth k" for j
    proof -
      have "cr_next (vk_ring k) + vk_depth k - Suc m + Suc j = cr_next (vk_ring k) + vk_depth k - m + j"
        using le by simp
      then show ?thesis by (rule arg_cong)
    qed
    ultimately show ?thesis by (simp add: lockstep_def taken_def m)
  qed
qed

lemma collect_wait_queue:
  assumes "kernel_ok k g" "collect_wait run info ans entry k g = ((ok, it), k1, g1)"
  shows "kernel_ok k1 g1" "calm run (vk_depth k) (vk_uniform_bytes k) g g1" "cr_next (vk_ring k1) = cr_next (vk_ring k)"
    "ok \<Longrightarrow> kg_readback g1 (pe_slot entry) = due run g (pe_slot entry)"
proof -
  let ?D = "vk_depth k" and ?ub = "vk_uniform_bytes k" and ?i = "pe_slot entry"
  have g: "gpu_ok ?D ?ub g" and r: "ring_ok (vk_ring k) g" using assms(1) by (simp_all add: kernel_ok_def)
  note f = collect_wait_frame [OF assms(2)] and l = limits_settled [OF collect_wait_frame(1) [OF assms(2)]]
  define ga where "ga = fence_waited run (ca_poll ans) ?i g"
  note fa = fence_waited_spec [OF g, where run = run and a = "ca_poll ans" and i = ?i, folded ga_def]
  have ca: "calm run ?D ?ub g ga" unfolding ga_def by (rule calm_fence [OF g])
  have ra: "ring_ok (vk_ring k) ga" using fa(7) by (intro ring_ok_running [OF r]) fastforce
  have idle: "kg_readback h ?i = due run g ?i" if "calm run ?D ?ub g h" "dq_running h ?i = None" for h
  proof -
    have "due run h ?i = kg_readback h ?i" by (simp add: due_def finish_idle [OF that(2)])
    then show ?thesis using that(1) by (simp add: calm_def)
  qed
  have ko: "kernel_ok k1 h" if "calm run ?D ?ub g h" "ring_ok (vk_ring k1) h" "length (cr_slots (vk_ring k1)) = ?D" for h
    using kernel_ok_calm(1) [OF assms(1) that(1)] that(2,3) f l by (simp add: kernel_ok_def program_def)
  have lk: "length (cr_slots (vk_ring k)) = ?D" using assms(1) by (simp add: kernel_ok_def)
  have "kernel_ok k1 g1 \<and> calm run ?D ?ub g g1 \<and> cr_next (vk_ring k1) = cr_next (vk_ring k) \<and>
      (ok \<longrightarrow> kg_readback g1 ?i = due run g ?i)"
    using assms(2)
  proof (cases rule: collect_wait_stages)
    case (error fin r')
    have "ring_ok r' ga" "cr_next r' = cr_next (vk_ring k)" "length (cr_slots r') = ?D"
      using ring_poll_ok [OF error(2) fa(2) ra] ring_poll_frame(1,2) [OF error(2)] lk by simp_all
    then show ?thesis using ko [of ga] ca error by (simp add: ga_def)
  next
    case (prompt r')
    have "ring_ok r' ga" "cr_next r' = cr_next (vk_ring k)" "length (cr_slots r') = ?D"
      using ring_poll_ok [OF prompt(2) fa(2) ra] ring_poll_frame(1,2) [OF prompt(2)] lk by simp_all
    moreover have "dq_running ga ?i = None"
      using prompt(2) fa(2) ra by (auto simp: ring_poll_def honest_def ring_ok_def split: if_splits fence_result.splits)
    ultimately show ?thesis using ko [of ga] ca prompt idle [OF ca] by (simp add: ga_def)
  next
    case (slow ok' ra' k2 rb)
    define gb where "gb = fence_waited run (ca_wait ans) ?i ga"
    note fb = fence_waited_spec [OF calm_gpu_ok [OF ca], where run = run and a = "ca_wait ans" and i = ?i, folded gb_def]
    have cb: "calm run ?D ?ub g gb"
      unfolding gb_def by (rule calm_trans [OF ca calm_fence [OF calm_gpu_ok [OF ca]]])
    have r2: "ring_ok ra' gb"
      using fb(7) by (intro ring_ok_running [OF ring_poll_ok [OF slow(2) fa(2) ra]]) fastforce
    obtain ret fin where w: "ring_poll (ca_wait ans) ?i ra' = ((ret, fin), rb)" "ok' = (ret \<and> fin)"
      using slow(3) by (auto simp: ring_wait_poll)
    have k1: "vk_ring k1 = rb" by (simp add: slow(5))
    have "ring_ok rb gb" "cr_next rb = cr_next (vk_ring k)" "length (cr_slots rb) = ?D"
      using ring_poll_ok [OF w(1) fb(2) r2] ring_poll_frame(1,2) [OF w(1)] ring_poll_frame(1,2) [OF slow(2)] lk by simp_all
    moreover have "dq_running gb ?i = None" if ok'
      using w that fb(2) r2 by (auto simp: ring_poll_def honest_def ring_ok_def split: if_splits fence_result.splits)
    moreover have "g1 = gb" by (simp add: slow(6) gb_def ga_def)
    ultimately show ?thesis using ko [of gb] cb slow(1) idle [OF cb] k1 by simp
  qed
  then show "kernel_ok k1 g1" "calm run (vk_depth k) (vk_uniform_bytes k) g g1" "cr_next (vk_ring k1) = cr_next (vk_ring k)"
    "ok \<Longrightarrow> kg_readback g1 (pe_slot entry) = due run g (pe_slot entry)" by blast+
qed

lemma collect_queue:
  assumes "kernel_ok k g" "vk_inflight k \<noteq> 0" "collect run info ans most k g = (res, k', g')"
  shows "kernel_ok k' g'" "outstanding run (k', g') = tl (outstanding run (k, g))" "lockstep k \<Longrightarrow> lockstep k'"
    "res = None \<or> res = Some (read_candidates (snd (hd (outstanding run (k, g)))) most)"
proof -
  let ?e = "vk_queue k ! vk_head k"
  let ?g = "if vk_inflight k = 1 then destroy_pipeline (vk_retiring k) g else g"
  note t = taken_queue [OF assms(1,2)]
  have gok: "gpu_ok (vk_depth k) (vk_uniform_bytes k) g" using assms(1) by (simp add: kernel_ok_def)
  have ts: "vk_depth (taken k) = vk_depth k" "vk_uniform_bytes (taken k) = vk_uniform_bytes k" by (simp_all add: taken_def)
  have c0: "calm run (vk_depth k) (vk_uniform_bytes k) g ?g" using calm_destroy [OF gok] calm_refl [OF gok] by simp
  have t0: "kernel_ok (taken k) ?g" "outstanding run (taken k, ?g) = outstanding run (taken k, g)"
    using kernel_ok_calm [OF t(1)] c0 ts by metis+
  have out: "outstanding run (k, g) = (pe_count ?e, due run g (pe_slot ?e)) # outstanding run (taken k, g)"
    by (simp add: outstanding_def t(2))
  have "kernel_ok k' g' \<and> outstanding run (k', g') = outstanding run (taken k, g) \<and> (lockstep k \<longrightarrow> lockstep k') \<and>
    (res = None \<or> res = Some (read_candidates (due run g (pe_slot ?e)) most))"
    using assms(3,2)
  proof (rule collect_stages)
    fix ok it k1
    assume w: "collect_wait run info ans ?e (taken k) ?g = ((ok, it), k1, g')"
      and bad: "\<not> ok \<Longrightarrow> res = None \<and> k' = k1"
      and good: "ok \<Longrightarrow> \<exists>sound k2. (sound \<longrightarrow> it) \<and> k2 = measured info (ca_now ans) (vk_inflight k = vk_depth k) sound k1 \<and>
        (res = None \<and> k' = k2 \<or>
         res = Some (read_candidates (kg_readback g' (pe_slot ?e)) most) \<and>
         k' = count_probes (kg_readback g' (pe_slot ?e)) (pe_count ?e) k2)"
    note q = collect_wait_queue [OF t0(1) w] and f = collect_wait_frame [OF w]
    note l = limits_settled [OF f(1)]
    have c1: "calm run (vk_depth k) (vk_uniform_bytes k) g g'" using calm_trans [OF c0] q(2) ts by simp
    have o1: "outstanding run (k1, g') = outstanding run (taken k, g)"
      using f l(5) kernel_ok_calm(2) [OF t(1)] c1 ts by (simp add: outstanding_def entries_def)
    have l1: "lockstep k \<longrightarrow> lockstep k1" using t(3) f l q(3) by (simp add: lockstep_def entries_def)
    have kp: "res = None \<or> res = Some (read_candidates (due run g (pe_slot ?e)) most)"
      "settled k' = settled k1 \<and> queued k' = queued k1 \<and> program k' = program k1"
    proof -
      have "kg_readback g' (pe_slot ?e) = due run g (pe_slot ?e)" if ok
        using q(4) [OF that] c0 by (simp add: calm_def)
      then have "(res = None \<or> res = Some (read_candidates (due run g (pe_slot ?e)) most)) \<and>
        settled k' = settled k1 \<and> queued k' = queued k1 \<and> program k' = program k1"
      proof (cases ok)
        case False
        then show ?thesis using bad by simp
      next
        case True
        then obtain sound k2 where "k2 = measured info (ca_now ans) (vk_inflight k = vk_depth k) sound k1"
          "res = None \<and> k' = k2 \<or>
           res = Some (read_candidates (kg_readback g' (pe_slot ?e)) most) \<and>
           k' = count_probes (kg_readback g' (pe_slot ?e)) (pe_count ?e) k2"
          using good by blast
        then show ?thesis using \<open>ok \<Longrightarrow> kg_readback g' (pe_slot ?e) = due run g (pe_slot ?e)\<close> True by auto
      qed
      then show "res = None \<or> res = Some (read_candidates (due run g (pe_slot ?e)) most)"
        "settled k' = settled k1 \<and> queued k' = queued k1 \<and> program k' = program k1" by blast+
    qed
    then show ?thesis
      using kernel_ok_frame [OF q(1)] o1 l1 by metis
  qed
  then show "kernel_ok k' g'" "outstanding run (k', g') = tl (outstanding run (k, g))" "lockstep k \<Longrightarrow> lockstep k'"
    "res = None \<or> res = Some (read_candidates (snd (hd (outstanding run (k, g)))) most)"
    by (simp_all add: out)
qed

section \<open>The kernel is a queue\<close>

definition kernel_put ::
  "shader \<Rightarrow> 'p algorithm_ops option \<Rightarrow> 'p dispatch_answers \<times> Dispatch \<times> SharedState option \<Rightarrow>
   VulkanKernel \<times> kernel_gpu \<Rightarrow> bool \<times> VulkanKernel \<times> kernel_gpu" where
  "kernel_put run alg d s =
     (let (ans, job, shared) = d; (k, g) = s
      in case dispatch run ans alg (the (dis_header job)) (the (dis_target job)) (dis_nonce_start job) (dis_count job) k g shared of
           None \<Rightarrow> (False, k, g)
         | Some (ok, k, g, _) \<Rightarrow> (ok, k, g))"

definition kernel_get ::
  "shader \<Rightarrow> DeviceInfo \<Rightarrow> collect_answers \<times> int \<Rightarrow> VulkanKernel \<times> kernel_gpu \<Rightarrow>
   Solution list option \<times> VulkanKernel \<times> kernel_gpu" where
  "kernel_get run info c s = (let (ans, most) = c; (k, g) = s in collect run info ans most k g)"

definition kernel_job :: "shader \<Rightarrow> 'p algorithm_ops option \<Rightarrow> 'd \<times> Dispatch \<times> 'e \<Rightarrow> VulkanKernel \<times> kernel_gpu \<Rightarrow> u32 \<times> u32 list" where
  "kernel_job run alg d s =
     job_of run alg (dispatch_job (the (dis_header (fst (snd d)))) (the (dis_target (fst (snd d))))
       (dis_nonce_start (fst (snd d))) (dis_count (fst (snd d)))) (fst s)"

lemma dispatch_queue_cases:
  assumes "kernel_ok k g" "lockstep k" "dispatch run ans alg header target nonce n k g sh = Some (ok, k', g', sh')"
  shows "kernel_ok k' g' \<and>
     (if ok then outstanding run (k', g') = outstanding run (k, g) @ [job_of run alg (dispatch_job header target nonce n) k] \<and> lockstep k'
      else outstanding run (k', g') = outstanding run (k, g))"
proof -
  obtain ok1 k1 g1 where r: "dispatch_run run ans alg (dispatch_job header target nonce n) k g = (ok1, k1, g1)"
    by (metis surj_pair)
  have "(k', g', ok) = (k, g, False) \<or> (k', g', ok) = (k1, g1, ok1)"
    using assms(3) by (auto simp: dispatch_def r split: if_splits option.splits prod.splits bool.splits)
  then show ?thesis using dispatch_run_queue [OF assms(1,2) r] assms(1) by auto
qed

lemma length_outstanding [simp]: "length (outstanding run s) = vk_inflight (fst s)"
  by (simp add: outstanding_def)

lemma idle_lockstep: "vk_inflight k = 0 \<Longrightarrow> lockstep k"
  by (simp add: lockstep_def entries_def)

interpretation kq: dispatch_queue "kernel_put run alg" "kernel_get run info" "outstanding run" "kernel_job run alg"
  "\<lambda>c j. read_candidates (snd j) (snd c)" "\<lambda>s. vk_depth (fst s)"
  "\<lambda>s. kernel_ok (fst s) (snd s) \<and> lockstep (fst s)" "\<lambda>s. kernel_ok (fst s) (snd s)"
  for run :: shader and alg :: "'p algorithm_ops option" and info :: DeviceInfo
proof
  fix s s' :: "VulkanKernel \<times> kernel_gpu" and d :: "'p dispatch_answers \<times> Dispatch \<times> SharedState option"
    and c :: "collect_answers \<times> int" and r :: "Solution list option" and j :: "u32 \<times> u32 list" and js
  show "kernel_ok (fst s) (snd s) \<and> lockstep (fst s) \<Longrightarrow> kernel_ok (fst s) (snd s)" by simp
  show "kernel_ok (fst s) (snd s) \<Longrightarrow> outstanding run s = [] \<Longrightarrow> kernel_ok (fst s) (snd s) \<and> lockstep (fst s)"
    using idle_lockstep length_entries [of "fst s"] by (auto simp: outstanding_def)
  show "kernel_ok (fst s) (snd s) \<Longrightarrow> length (outstanding run s) \<le> vk_depth (fst s)"
    by (simp add: outstanding_def kernel_ok_def)
  show "outstanding run s' = outstanding run s @ [kernel_job run alg d s] \<and>
      (kernel_ok (fst s') (snd s') \<and> lockstep (fst s')) \<and> vk_depth (fst s') = vk_depth (fst s)"
    if rdy: "kernel_ok (fst s) (snd s) \<and> lockstep (fst s)" and call: "kernel_put run alg d s = (True, s')"
  proof -
    obtain ans job sh where d: "d = (ans, job, sh)" by (cases d)
    obtain sh' where e: "dispatch run ans alg (the (dis_header job)) (the (dis_target job)) (dis_nonce_start job)
        (dis_count job) (fst s) (snd s) sh = Some (True, fst s', snd s', sh')"
      using call by (auto simp: kernel_put_def d split: option.splits prod.splits)
    show ?thesis
      using dispatch_queue_cases [OF _ _ e] rdy limits_settled(5) [OF dispatch_frame(1) [OF e]]
      by (simp add: kernel_job_def d)
  qed
  show "outstanding run s' = outstanding run s \<and> kernel_ok (fst s') (snd s') \<and> vk_depth (fst s') = vk_depth (fst s)"
    if rdy: "kernel_ok (fst s) (snd s) \<and> lockstep (fst s)" and call: "kernel_put run alg d s = (False, s')"
  proof -
    obtain ans job sh where d: "d = (ans, job, sh)" by (cases d)
    let ?x = "dispatch run ans alg (the (dis_header job)) (the (dis_target job)) (dis_nonce_start job)
        (dis_count job) (fst s) (snd s) sh"
    consider "?x = None" "s' = s" | sh' where "?x = Some (False, fst s', snd s', sh')"
      using call by (auto simp: kernel_put_def d split: option.splits prod.splits)
    then show ?thesis
    proof cases
      case 1
      then show ?thesis using rdy by simp
    next
      case 2
      show ?thesis using dispatch_queue_cases [OF _ _ 2] rdy limits_settled(5) [OF dispatch_frame(1) [OF 2]] by simp
    qed
  qed
  show "outstanding run s' = js \<and> (r = None \<or> r = Some (read_candidates (snd j) (snd c))) \<and>
      kernel_ok (fst s') (snd s') \<and>
      (kernel_ok (fst s) (snd s) \<and> lockstep (fst s) \<longrightarrow> kernel_ok (fst s') (snd s') \<and> lockstep (fst s')) \<and>
      vk_depth (fst s') = vk_depth (fst s)"
    if rdy: "kernel_ok (fst s) (snd s)" and h: "outstanding run s = j # js" and call: "kernel_get run info c s = (r, s')"
  proof -
    have e: "collect run info (fst c) (snd c) (fst s) (snd s) = (r, fst s', snd s')"
      using call by (auto simp: kernel_get_def split: prod.splits)
    have nz: "vk_inflight (fst s) \<noteq> 0" using h length_outstanding [of run s] by auto
    show ?thesis
      using collect_queue [OF rdy nz e] limits_settled(5) [OF collect_frame(1) [OF e]] h by auto
  qed
qed

section \<open>What a client may do\<close>

text \<open>
  A client that, after a dispatch that failed with others outstanding, only collects until there
  are none. The flag says it is in the middle of that.
\<close>

inductive client_step ::
  "shader \<Rightarrow> DeviceInfo \<Rightarrow> 'p algorithm_ops option \<Rightarrow> bool \<times> VulkanKernel \<times> kernel_gpu \<Rightarrow>
   bool \<times> VulkanKernel \<times> kernel_gpu \<Rightarrow> bool"
  for run info alg where
  client_state: "prepare_state dev alg key k sh = Some (ok, k', sh') \<Longrightarrow> client_step run info alg (d, k, g) (d, k', g)"
| client_program: "prepare_program run ans alg key k g = (ok, k', g') \<Longrightarrow> client_step run info alg (d, k, g) (d, k', g')"
| client_dispatch: "dispatch run da alg header target nonce n k g sh = Some (ok, k', g', sh') \<Longrightarrow>
     client_step run info alg (False, k, g) (\<not> ok \<and> vk_inflight k' \<noteq> 0, k', g')"
| client_collect: "collect run info ca most k g = (res, k', g') \<Longrightarrow>
     client_step run info alg (d, k, g) (d \<and> vk_inflight k' \<noteq> 0, k', g')"
| client_finish: "client_step run info alg (d, k, g) (d, k, finish run i g)"

definition client_ok :: "bool \<times> VulkanKernel \<times> kernel_gpu \<Rightarrow> bool" where
  "client_ok s \<longleftrightarrow> (let (d, k, g) = s in kernel_ok k g \<and> (\<not> d \<longrightarrow> lockstep k))"

lemma client_step_kernel: "client_step run info alg (d, k, g) (d', k', g') \<Longrightarrow> kernel_step run info alg (k, g) (k', g')"
  by (erule client_step.cases) (auto intro: kernel_step.intros)

lemma client_step_ok:
  assumes "client_step run info alg s s'" "client_ok s"
  shows "client_ok s'"
  using assms
proof cases
  case (client_state dev key k sh ok k' sh' d g)
  then show ?thesis using assms(2) kernel_ok_frame(1,2) [OF _ prepare_state_frame(1,2,4) [OF client_state(3)]]
    by (auto simp: client_ok_def)
next
  case (client_program ans key k g ok k' g' d)
  then show ?thesis using assms(2) prepare_program_queue(1,2) [OF _ client_program(3)] by (auto simp: client_ok_def)
next
  case (client_dispatch da header target nonce n k g sh ok k' g' sh')
  have "kernel_ok k g" "lockstep k" using assms(2) client_dispatch(1) by (simp_all add: client_ok_def)
  from dispatch_queue_cases [OF this client_dispatch(3)] show ?thesis
    using idle_lockstep [of k'] by (auto simp: client_ok_def client_dispatch(2) split: if_splits)
next
  case (client_collect ca most k g res k' g' d)
  have ok: "kernel_ok k g" "\<not> d \<longrightarrow> lockstep k" using assms(2) client_collect(1) by (simp_all add: client_ok_def)
  have "kernel_ok k' g' \<and> (lockstep k \<longrightarrow> lockstep k')"
  proof (cases "vk_inflight k = 0")
    case True
    then show ?thesis using client_collect(3) ok by (simp add: collect_def)
  next
    case False
    show ?thesis using collect_queue [OF ok(1) False client_collect(3)] by blast
  qed
  then show ?thesis using idle_lockstep [of k'] ok by (auto simp: client_ok_def client_collect(2))
next
  case (client_finish d k g i)
  have "kernel_ok k g" using assms(2) client_finish(1) by (simp add: client_ok_def)
  then have "gpu_ok (vk_depth k) (vk_uniform_bytes k) g" by (simp add: kernel_ok_def)
  then have "kernel_ok k (finish run i g)"
    by (rule kernel_ok_calm(1) [OF \<open>kernel_ok k g\<close> calm_finish [where run = run]])
  then show ?thesis using assms(2) client_finish by (simp add: client_ok_def)
qed


lemma init_kernel_ok:
  assumes "init opts ans info spec sh = Inr (k, g)"
  shows "kernel_ok k g" "vk_inflight k = 0" "vk_retiring k = None"
proof -
  from assms obtain fit bound ring where
    b: "init_slots ans spec fit sh (unat (fit_depth fit)) = Inr bound"
    and r: "ring_create (ia_pool ans) (ia_commands ans) (ia_fence ans) (unat (fit_depth fit)) = Some ring"
    and st: "settled k = settled (fresh_kernel opts spec fit sh bound)"
    and q: "queued k = (ring, replicate (unat (fit_depth fit)) \<lparr>pe_slot = 0, pe_count = 0, pe_full_batch = False\<rparr>, 0, 0)"
    and p: "program k = (if k_program_constants spec = 0 then Some (first_pipeline k) else None, 0, False, None)"
    and rt: "vk_retiring k = None"
    and g: "g = (if k_program_constants spec = 0 then (fresh_gpu ans)\<lparr>kg_made := 1, kg_live := {0}\<rparr> else fresh_gpu ans)"
    by (rule init_spec)
  let ?D = "unat (fit_depth fit)"
  note l = limits_settled [OF st]
  have idle: "dq_running g i = None" "length (kg_results g i) = kResultWords" "length (kg_readback g i) = kResultWords" for i
    by (simp_all add: g fresh_gpu_def)
  have k: "vk_depth k = ?D" "vk_bound k = bound" "vk_program_constants k = k_program_constants spec"
    "vk_ring k = ring" "vk_head k = 0" "vk_inflight k = 0" "length (vk_queue k) = ?D"
    using l q by (simp_all add: fresh_kernel_def queued_def)
  have bound: "length bound = ?D" "\<And>i. i < ?D \<Longrightarrow> bound ! i ! 0 = Results i"
    using init_slots_granted(1,2) [OF b] by (simp_all add: slot_bound_def)
  have ring: "ring_ok ring g" by (rule ring_create_ok [OF r idle(1)])
  have pipe: "\<forall>p. vk_pipeline k = Some p \<longrightarrow> binds ?D (vk_uniform_bytes k) p"
    using p bound by (auto simp: program_def binds_def first_pipeline_def k split: if_splits)
  show "kernel_ok k g"
    using ring_create_spec(1,2) [OF r] k bound ring pipe p idle
    by (simp add: kernel_ok_def gpu_ok_def program_def)
  show "vk_inflight k = 0" "vk_retiring k = None" by (simp_all add: k rt)
qed

lemma client_steps_ok:
  assumes "init opts ans info spec sh = Inr (k0, g0)" "(client_step run info alg)\<^sup>*\<^sup>* (False, k0, g0) (d, k, g)"
  shows "kernel_ok k g" "\<not> d \<Longrightarrow> lockstep k"
proof -
  have "client_ok (d, k, g)"
    using assms(2)
  proof (induction "(d, k, g)" arbitrary: d k g rule: rtranclp_induct)
    case base
    show ?case using init_kernel_ok [OF assms(1)] idle_lockstep by (simp add: client_ok_def)
  next
    case (step s)
    have "client_ok s" using step.hyps(3) by (cases s) simp
    then show ?case by (rule client_step_ok [OF step.hyps(2)])
  qed
  then show "kernel_ok k g" "\<not> d \<Longrightarrow> lockstep k" by (simp_all add: client_ok_def)
qed

section \<open>Properties\<close>

text \<open>
  Claim C36. A kernel is a queue of its jobs. An accepted dispatch appends one: what it will come to
  is settled then, by the pipeline loaded and the blocks the algorithm filled. A collect takes the
  oldest off, whatever the driver answers, and what it returns is read from that job's result and no
  other; nothing else its client or the device does, not even a program change or a dispatch that
  fails half-way, changes what is outstanding or what it will come to. The client is one that only
  collects after such a failure until nothing is outstanding.
\<close>

theorem kernel_is_a_queue:
  assumes "init opts ans info spec sh = Inr (k0, g0)"
    and "(client_step run info alg)\<^sup>*\<^sup>* (False, k0, g0) (d, k, g)"
  shows "(\<not> d \<and> dispatch run da alg header target nonce n k g sh1 = Some (ok, k1, g1, sh2) \<longrightarrow>
       outstanding run (k1, g1) = outstanding run (k, g) @
         (if ok then [job_of run alg (dispatch_job header target nonce n) k] else []))
     \<and> (collect run info ca most k g = (res, k1, g1) \<longrightarrow>
       outstanding run (k1, g1) = tl (outstanding run (k, g)) \<and>
       (case outstanding run (k, g) of [] \<Rightarrow> res = Some []
        | (m, result) # _ \<Rightarrow> res \<in> {None, Some (read_candidates result most)}))
     \<and> (prepare_program run pa alg key k g = (ok, k1, g1) \<longrightarrow> outstanding run (k1, g1) = outstanding run (k, g))
     \<and> (prepare_state dev alg key k sh1 = Some (ok, k1, sh2) \<longrightarrow> outstanding run (k1, g) = outstanding run (k, g))
     \<and> outstanding run (k, finish run i g) = outstanding run (k, g)"
proof (intro conjI impI)
  note kok = client_steps_ok [OF assms]
  have s: "kernel_ok (fst (k, g)) (snd (k, g))" using kok(1) by simp
  show "outstanding run (k1, g1) = outstanding run (k, g) @
         (if ok then [job_of run alg (dispatch_job header target nonce n) k] else [])"
    if "\<not> d \<and> dispatch run da alg header target nonce n k g sh1 = Some (ok, k1, g1, sh2)"
  proof -
    let ?d = "(da, dispatch_job header target nonce n, sh1)"
    have r: "kernel_ok (fst (k, g)) (snd (k, g)) \<and> lockstep (fst (k, g))" using kok that by simp
    have p: "kernel_put run alg ?d (k, g) = (ok, k1, g1)"
      using that by (simp add: kernel_put_def dispatch_job_def)
    have "kernel_job run alg ?d (k, g) = job_of run alg (dispatch_job header target nonce n) k"
      by (simp add: kernel_job_def dispatch_job_def)
    then show ?thesis
      using kq.put_taken [OF r, of run alg ?d "(k1, g1)"] kq.put_refused [OF r, of run alg ?d "(k1, g1)"] p by (cases ok) simp_all
  qed
  show "outstanding run (k1, g1) = tl (outstanding run (k, g))"
    "case outstanding run (k, g) of [] \<Rightarrow> res = Some []
        | (m, result) # _ \<Rightarrow> res \<in> {None, Some (read_candidates result most)}"
    if c: "collect run info ca most k g = (res, k1, g1)"
  proof -
    have "outstanding run (k1, g1) = tl (outstanding run (k, g)) \<and>
      (case outstanding run (k, g) of [] \<Rightarrow> res = Some []
        | (m, result) # _ \<Rightarrow> res \<in> {None, Some (read_candidates result most)})"
    proof (cases "outstanding run (k, g)")
      case Nil
      then have "vk_inflight k = 0" using length_outstanding [of run "(k, g)"] by simp
      then show ?thesis using c Nil by (simp add: collect_def)
    next
      case (Cons j js)
      have "kernel_get run info (ca, most) (k, g) = (res, k1, g1)" using c by (simp add: kernel_get_def)
      from kq.get_oldest [OF s Cons this] show ?thesis using Cons by (cases j) auto
    qed
    then show "outstanding run (k1, g1) = tl (outstanding run (k, g))"
      "case outstanding run (k, g) of [] \<Rightarrow> res = Some []
        | (m, result) # _ \<Rightarrow> res \<in> {None, Some (read_candidates result most)}" by blast+
  qed
  show "outstanding run (k1, g1) = outstanding run (k, g)" if "prepare_program run pa alg key k g = (ok, k1, g1)"
    by (rule prepare_program_queue(3) [OF kok(1) that])
  show "outstanding run (k1, g) = outstanding run (k, g)" if "prepare_state dev alg key k sh1 = Some (ok, k1, sh2)"
    by (rule kernel_ok_frame(3) [OF kok(1) prepare_state_frame(1,2,4) [OF that]])
  have "gpu_ok (vk_depth k) (vk_uniform_bytes k) g" using kok(1) by (simp add: kernel_ok_def)
  then show "outstanding run (k, finish run i g) = outstanding run (k, g)"
    by (rule kernel_ok_calm(2) [OF kok(1) calm_finish])
qed

section \<open>The program a kernel runs\<close>

definition program_desc :: "'p algorithm_ops \<Rightarrow> u64 \<Rightarrow> VulkanKernel \<Rightarrow> ComputePipelineDesc" where
  "program_desc a key k = (vk_desc k)\<lparr>
     de_program := Some (al_program_values a key (unat (vk_program_constants k))),
     de_program_count := vk_program_constants k\<rparr>"

definition loaded_ok :: "'p algorithm_ops option \<Rightarrow> VulkanKernel \<Rightarrow> bool" where
  "loaded_ok alg k \<longleftrightarrow> (vk_program_constants k \<noteq> 0 \<and> vk_program_ready k \<longrightarrow>
     (\<exists>a p. alg = Some a \<and> vk_pipeline k = Some p \<and> pl_desc p = program_desc a (vk_program_key k) k))"

lemma program_desc_settled:
  assumes "settled k' = settled k"
  shows "program_desc a key k' = program_desc a key k"
  by (simp add: program_desc_def limits_settled [OF assms])

lemma kernel_build_program_desc:
  assumes "kernel_build_program created alg key k g = (Some p, k', g')" "vk_program_constants k \<noteq> 0"
  shows "\<exists>a. alg = Some a \<and> pl_desc p = program_desc a key k"
  using assms
  by (auto simp: kernel_build_program_def build_pipeline_def program_desc_def Let_def unat_eq_zero split: if_splits option.splits)

lemma join_ahead_desc:
  assumes "join_ahead created alg key k g = (Some p, k', g')" "vk_program_constants k \<noteq> 0"
  shows "\<exists>a. alg = Some a \<and> pl_desc p = program_desc a key k"
proof (cases "vk_ahead k")
  case None
  then show ?thesis using assms(1) by (simp add: join_ahead_def)
next
  case (Some a)
  obtain b k1 g1 where b: "kernel_build_program created alg a k g = (b, k1, g1)" by (metis prod_cases3)
  then have "b = Some p" "a = key" using assms(1) by (auto simp: join_ahead_def Some Let_def split: if_splits)
  then show ?thesis using kernel_build_program_desc [of created alg a k g p k1 g1] b assms(2) by simp
qed

lemma prepared_desc:
  assumes "prepare_program run ans alg key k g = (True, k', g')" "vk_program_constants k \<noteq> 0" "loaded_ok alg k"
  shows "\<exists>a p. alg = Some a \<and> vk_pipeline k' = Some p \<and> pl_desc p = program_desc a key k" "loaded_ok alg k'"
proof -
  have st: "settled k' = settled k" by (rule prepare_program_frame(1) [OF assms(1)])
  note pd = program_desc_settled [OF st] and pc = limits_settled(6) [OF st]
  have "(\<exists>a p. alg = Some a \<and> vk_pipeline k' = Some p \<and> pl_desc p = program_desc a key k) \<and> loaded_ok alg k'"
    using assms(1)
  proof (cases rule: prepare_program_stages)
    case kept
    then show ?thesis using assms(2,3) by (auto simp: loaded_ok_def)
  next
    case (loaded p k1 g1 k2)
    have "\<exists>a. alg = Some a \<and> pl_desc p = program_desc a key k"
      using loaded(4)
    proof (elim disjE exE conjE)
      assume "join_ahead (pa_ahead ans) alg key k g = (Some p, k1, g1)"
      then show ?thesis using assms(2) by (rule join_ahead_desc)
    next
      fix k0 g0
      assume j: "join_ahead (pa_ahead ans) alg key k g = (None, k0, g0)"
        and b: "kernel_build_program (pa_build ans) alg key k0 g0 = (Some p, k1, g1)"
      note s0 = join_ahead_frame(1) [OF j]
      show ?thesis using kernel_build_program_desc [OF b] limits_settled(6) [OF s0] program_desc_settled [OF s0] assms(2) by metis
    qed
    then obtain a where "alg = Some a" "pl_desc p = program_desc a key k" by blast
    moreover have "vk_pipeline k' = Some p" "vk_program_key k' = key" by (simp_all add: loaded(6))
    ultimately show ?thesis by (auto simp: loaded_ok_def pd)
  qed auto
  then show "\<exists>a p. alg = Some a \<and> vk_pipeline k' = Some p \<and> pl_desc p = program_desc a key k" "loaded_ok alg k'"
    by blast+
qed

lemma loaded_ok_frame:
  assumes "settled k' = settled k" "program k' = program k" "loaded_ok alg k"
  shows "loaded_ok alg k'"
  using assms(2,3) by (simp add: loaded_ok_def program_desc_settled [OF assms(1)] limits_settled(6) [OF assms(1)] program_def)

lemma prepare_program_failed:
  assumes "prepare_program run ans alg key k g = (False, k', g')"
  shows "vk_pipeline k' = vk_pipeline k" "vk_program_key k' = vk_program_key k" "vk_program_ready k' = vk_program_ready k"
proof -
  have "vk_pipeline k' = vk_pipeline k \<and> vk_program_key k' = vk_program_key k \<and> vk_program_ready k' = vk_program_ready k"
    using assms
  proof (cases rule: prepare_program_stages)
    case (refused k1 g1)
    then show ?thesis
      using join_ahead_frame(5-7) [OF refused(1)] kernel_build_program_frame(3) [OF refused(2)] by (simp add: program_def)
  qed auto
  then show "vk_pipeline k' = vk_pipeline k" "vk_program_key k' = vk_program_key k" "vk_program_ready k' = vk_program_ready k"
    by simp_all
qed

lemma kernel_step_program:
  assumes "kernel_step run info alg (k, g) (k', g')" "loaded_ok alg k"
  shows "loaded_ok alg k'"
  using assms(1)
proof cases
  case (does_state dev key sh ok sh')
  show ?thesis by (rule loaded_ok_frame [OF prepare_state_frame(1,4) [OF does_state(2)] assms(2)])
next
  case (does_program ans key ok)
  show ?thesis
  proof (cases "ok \<and> vk_program_constants k \<noteq> 0")
    case True
    then show ?thesis using prepared_desc(2) [OF _ _ assms(2)] does_program by simp
  next
    case False
    have st: "settled k' = settled k" by (rule prepare_program_frame(1) [OF does_program])
    show ?thesis
    proof (cases ok)
      case True
      then show ?thesis using False limits_settled(6) [OF st] by (simp add: loaded_ok_def)
    next
      case F: False
      then have "prepare_program run ans alg key k g = (False, k', g')" using does_program by simp
      note f = prepare_program_failed [OF this]
      show ?thesis using assms(2) by (simp add: loaded_ok_def f program_desc_settled [OF st] limits_settled(6) [OF st])
    qed
  qed
next
  case (does_dispatch da header target nonce n sh ok sh')
  show ?thesis by (rule loaded_ok_frame [OF dispatch_frame(1,3) [OF does_dispatch] assms(2)])
next
  case (does_collect ca most res)
  show ?thesis by (rule loaded_ok_frame [OF collect_frame(1,2) [OF does_collect] assms(2)])
next
  case (does_finish i)
  then show ?thesis using assms(2) by simp
qed

lemma client_steps_program:
  assumes "init opts ans info spec sh = Inr (k0, g0)" "(client_step run info alg)\<^sup>*\<^sup>* (False, k0, g0) (d, k, g)"
  shows "loaded_ok alg k \<and> settled k = settled k0"
  using assms(2)
proof (induction "(d, k, g)" arbitrary: d k g rule: rtranclp_induct)
  case base
  from assms(1) have "program k0 = (if k_program_constants spec = 0 then Some (first_pipeline k0) else None, 0, False, None)"
    by (rule init_spec)
  then show ?case by (simp add: loaded_ok_def program_def)
next
  case (step s)
  obtain d1 k1 g1 where s: "s = (d1, k1, g1)" by (cases s)
  have "kernel_step run info alg (k1, g1) (k, g)" using step.hyps(2) s client_step_kernel by blast
  then show ?case using kernel_step_program kernel_step_settled step.hyps(3) [OF s] by metis
qed

text \<open>
  Claim C37. What a kernel built per program runs is the program it was last told to prepare: after a
  prepare that succeeds, whether the pipeline was at hand, built ahead in the background or built
  then, a dispatch that is accepted is run by a pipeline made of the values the algorithm gives for
  that program's key and of nothing else that changes, and answered from what that leaves.
\<close>

theorem dispatch_runs_prepared_program:
  assumes "init opts ans info spec sh = Inr (k0, g0)" "k_program_constants spec \<noteq> 0"
    and "(client_step run info (Some a))\<^sup>*\<^sup>* (False, k0, g0) (False, k, g)"
    and "prepare_program run pa (Some a) key k g = (True, k1, g1)"
    and "dispatch run da (Some a) header target nonce n k1 g1 sh1 = Some (True, k2, g2, sh2)"
  shows "\<exists>push block. dispatch_blocks (Some a) (dispatch_job header target nonce n) k = Some (push, block) \<and>
     outstanding run (k2, g2) = outstanding run (k, g) @
       [(n, job_result run ((vk_desc k0)\<lparr>de_program := Some (al_program_values a key (unat (k_program_constants spec))),
                             de_program_count := k_program_constants spec\<rparr>) (groups_of k n) push block)]"
proof -
  have p: "loaded_ok (Some a) k" "settled k = settled k0" using client_steps_program [OF assms(1,3)] by blast+
  have pc: "vk_program_constants k = k_program_constants spec"
  proof -
    from assms(1) obtain fit bound where "settled k0 = settled (fresh_kernel opts spec fit sh bound)" by (rule init_spec)
    then show ?thesis using p(2) by (simp add: settled_def fresh_kernel_def)
  qed
  from prepared_desc(1) [OF assms(4) _ p(1)] pc assms(2) obtain q where
    q: "vk_pipeline k1 = Some q" "pl_desc q = program_desc a key k" by auto
  note f = prepare_program_frame [OF assms(4)] and l = limits_settled [OF prepare_program_frame(1) [OF assms(4)]]
  have ok: "kernel_ok k g" "lockstep k" using client_steps_ok [OF assms(1,3)] by simp_all
  note pq = prepare_program_queue [OF ok(1) assms(4)]
  have d: "outstanding run (k2, g2) = outstanding run (k, g) @ [job_of run (Some a) (dispatch_job header target nonce n) k1]"
    using dispatch_queue_cases [OF pq(1) _ assms(5)] pq(2,3) ok(2) by simp
  have blocks: "dispatch_blocks (Some a) (dispatch_job header target nonce n) k1 =
      dispatch_blocks (Some a) (dispatch_job header target nonce n) k"
    by (simp add: dispatch_blocks_def l Let_def)
  have "\<exists>k' g' sh'. dispatch run da (Some a) header target nonce n k1 g1 sh1 = Some (True, k', g', sh')"
    using assms(5) by blast
  then have "dispatch_blocks (Some a) (dispatch_job header target nonce n) k1 \<noteq> None"
    unfolding dispatch_accepts by blast
  then obtain push block where b: "dispatch_blocks (Some a) (dispatch_job header target nonce n) k = Some (push, block)"
    using blocks by auto
  have "program_desc a key k = (vk_desc k0)\<lparr>de_program := Some (al_program_values a key (unat (k_program_constants spec))),
      de_program_count := k_program_constants spec\<rparr>"
    using limits_settled(10) [OF p(2)] pc by (simp add: program_desc_def)
  then have "job_of run (Some a) (dispatch_job header target nonce n) k1 =
      (n, job_result run ((vk_desc k0)\<lparr>de_program := Some (al_program_values a key (unat (k_program_constants spec))),
                             de_program_count := k_program_constants spec\<rparr>) (groups_of k n) push block)"
    using q b blocks by (simp add: job_of_def groups_of_def l dispatch_job_def)
  then show ?thesis using d b by simp
qed

theorem kernel_is_a_queue_witness:
  "\<exists>k g k1 g1. init example_options example_init desktop_device (example_spec 0) None = Inr (k, g) \<and>
     dispatch (\<lambda>_ _ _ _ _ _. 0) (example_dispatch :: nat dispatch_answers) (Some example_algorithm) [] [] 0 256 k g None
       = Some (True, k1, g1, None) \<and>
     outstanding (\<lambda>_ _ _ _ _ _. 0) (k1, g1) =
       outstanding (\<lambda>_ _ _ _ _ _. 0) (k, g) @
         [job_of (\<lambda>_ _ _ _ _ _. 0) (Some (example_algorithm :: nat algorithm_ops)) (dispatch_job [] [] 0 256) k]"
proof (rule example_kernel [of 0])
  fix k g
  assume i: "init example_options example_init desktop_device (example_spec 0) None = Inr (k, g)"
    and f: "(0 :: u32) = 0 \<Longrightarrow> dispatch_ready k 256" "vk_push_bytes k = 4" "vk_uniform_bytes k = 0"
  from i f(1) [OF refl] f(2,3) obtain k1 g1 where
    d: "dispatch (\<lambda>_ _ _ _ _ _. 0) (example_dispatch :: nat dispatch_answers) (Some example_algorithm) [] [] 0 256 k g None
       = Some (True, k1, g1, None)"
    by (rule example_dispatched) simp
  have "outstanding (\<lambda>_ _ _ _ _ _. 0) (k1, g1) =
       outstanding (\<lambda>_ _ _ _ _ _. 0) (k, g) @
         [job_of (\<lambda>_ _ _ _ _ _. 0) (Some (example_algorithm :: nat algorithm_ops)) (dispatch_job [] [] 0 256) k]"
    using conjunct1 [OF kernel_is_a_queue [OF i rtranclp.rtrancl_refl,
        where alg = "Some (example_algorithm :: nat algorithm_ops)" and run = "\<lambda>_ _ _ _ _ _. 0"]] d
    by simp
  then show ?thesis using i d by blast
qed simp

section \<open>Loading a program, for the examples\<close>

lemma example_prepared:
  assumes "init example_options example_init desktop_device (example_spec 2) None = Inr (k, g)"
    "vk_program_constants k = 2" "\<not> vk_program_ready k" "vk_ahead k = None" "vk_pipeline k = None"
  obtains k1 g1 where "prepare_program run \<lparr>pa_ahead = True, pa_build = True\<rparr> (Some (example_algorithm :: 'p algorithm_ops)) key k g
      = (True, k1, g1)" "vk_program_ready k1" "vk_depth k1 = vk_depth k" "vk_inflight k1 = vk_inflight k"
      "vk_max_batch k1 = vk_max_batch k" "vk_push_bytes k1 = vk_push_bytes k" "vk_uniform_bytes k1 = vk_uniform_bytes k"
proof -
  obtain ok k1 g1 where p: "prepare_program run \<lparr>pa_ahead = True, pa_build = True\<rparr> (Some (example_algorithm :: 'p algorithm_ops)) key k g
      = (ok, k1, g1)" by (metis surj_pair)
  have j: "join_ahead True (Some (example_algorithm :: 'p algorithm_ops)) key k g = (None, k, g)"
    using assms by (simp add: join_ahead_def)
  obtain q k2 g2 where b: "kernel_build_program True (Some (example_algorithm :: 'p algorithm_ops)) key k g = (Some q, k2, g2)"
    using assms(2) by (simp add: kernel_build_program_def build_pipeline_def example_algorithm_def Let_def)
  have np: "vk_pipeline k2 = None" using kernel_build_program_frame(3) [OF b] assms(5) by (simp add: program_def)
  have ok: "ok" "vk_program_ready k1"
    using p assms(2,3) np by (auto simp: prepare_program_def j b retire_def start_ahead_def Let_def split: if_splits)
  note f = prepare_program_frame [OF p] and l = limits_settled [OF prepare_program_frame(1) [OF p]]
  show ?thesis using that p ok f(2) l by (simp add: queued_def)
qed

theorem dispatch_runs_prepared_program_witness:
  "\<exists>k g k1 g1 k2 g2. init example_options example_init desktop_device (example_spec 2) None = Inr (k, g) \<and>
     prepare_program (\<lambda>_ _ _ _ _ _. 0) \<lparr>pa_ahead = True, pa_build = True\<rparr> (Some (example_algorithm :: nat algorithm_ops)) 9 k g
       = (True, k1, g1) \<and>
     dispatch (\<lambda>_ _ _ _ _ _. 0) (example_dispatch :: nat dispatch_answers) (Some example_algorithm) [] [] 0 256 k1 g1 None
       = Some (True, k2, g2, None) \<and>
     (\<exists>groups push block. snd (last (outstanding (\<lambda>_ _ _ _ _ _. 0) (k2, g2))) =
        job_result (\<lambda>_ _ _ _ _ _. 0) ((vk_desc k)\<lparr>de_program := Some [9, 9], de_program_count := 2\<rparr>) groups push block)"
proof (rule example_kernel [of 2])
  fix k g
  assume i: "init example_options example_init desktop_device (example_spec 2) None = Inr (k, g)"
    and f: "vk_max_batch k = 36864" "vk_depth k = 2" "vk_inflight k = 0" "vk_push_bytes k = 4" "vk_uniform_bytes k = 0"
      "vk_program_constants k = 2" "\<not> vk_program_ready k" "vk_pipeline k = None \<or> (2 :: u32) = 0" "vk_ahead k = None"
  have vp: "vk_pipeline k = None" using f(8) by simp
  from i f(6,7,9) vp obtain k1 g1 where
    p: "prepare_program (\<lambda>_ _ _ _ _ _. 0) \<lparr>pa_ahead = True, pa_build = True\<rparr> (Some (example_algorithm :: nat algorithm_ops)) 9 k g
       = (True, k1, g1)" "vk_program_ready k1" "vk_depth k1 = vk_depth k" "vk_inflight k1 = vk_inflight k"
      "vk_max_batch k1 = vk_max_batch k" "vk_push_bytes k1 = vk_push_bytes k" "vk_uniform_bytes k1 = vk_uniform_bytes k"
    by (rule example_prepared)
  have "dispatch_ready k1 256" using p f by (simp add: dispatch_ready_def)
  moreover have "dispatch_blocks (Some (example_algorithm :: nat algorithm_ops)) (dispatch_job [] [] 0 256) k1 \<noteq> None"
    using p f by (simp add: dispatch_blocks_def example_algorithm_def Let_def)
  moreover have "driver_grants k1 (example_dispatch :: nat dispatch_answers)"
    using p f by (simp add: driver_grants_def example_dispatch_def)
  ultimately obtain k2 g2 sh2 where
    d: "dispatch (\<lambda>_ _ _ _ _ _. 0) (example_dispatch :: nat dispatch_answers) (Some example_algorithm) [] [] 0 256 k1 g1 None
       = Some (True, k2, g2, sh2)"
    using dispatch_accepts [of "\<lambda>_ _ _ _ _ _. 0" "example_dispatch :: nat dispatch_answers" "Some example_algorithm" "[]" "[]" 0 256 k1 g1 None]
    by (auto simp: dispatch_table_def)
  then have sh2: "sh2 = None" by (auto simp: dispatch_def dispatch_table_def Let_def split: prod.splits)
  have s: "k_program_constants (example_spec 2) = 2" by (simp add: example_spec_def)
  then have nz: "k_program_constants (example_spec 2) \<noteq> 0" by simp
  have u: "unat (2 :: u32) = Suc (Suc 0)" by simp
  have v: "al_program_values (example_algorithm :: nat algorithm_ops) 9 (unat (2 :: u32)) = [9, 9]"
    by (simp only: u) (simp add: example_algorithm_def)
  from dispatch_runs_prepared_program [OF i nz rtranclp.rtrancl_refl p(1) d, unfolded s v]
  obtain push block where "outstanding (\<lambda>_ _ _ _ _ _. 0) (k2, g2) = outstanding (\<lambda>_ _ _ _ _ _. 0) (k, g) @
       [(256, job_result (\<lambda>_ _ _ _ _ _. 0) ((vk_desc k)\<lparr>de_program := Some [9, 9], de_program_count := 2\<rparr>) (groups_of k 256) push block)]"
    by blast
  then have "snd (last (outstanding (\<lambda>_ _ _ _ _ _. 0) (k2, g2))) =
      job_result (\<lambda>_ _ _ _ _ _. 0) ((vk_desc k)\<lparr>de_program := Some [9, 9], de_program_count := 2\<rparr>) (groups_of k 256) push block"
    by simp
  then have "\<exists>groups push block. snd (last (outstanding (\<lambda>_ _ _ _ _ _. 0) (k2, g2))) =
        job_result (\<lambda>_ _ _ _ _ _. 0) ((vk_desc k)\<lparr>de_program := Some [9, 9], de_program_count := 2\<rparr>) groups push block"
    by (intro exI)
  then show ?thesis using i p(1) d sh2 by blast
qed simp

end
