(* ===== verification/Sha256.thy ===== *)
theory Sha256
  imports Prelude
begin

text \<open>
  \<^verbatim>\<open>src/core/sha256.c\<close>: the scalar SHA-256 every share of a sha256d chain is checked with and every
  merkle root is made with, and the two routines that carry a header's compression as far as it goes
  before the nonce is needed. The eight working variables are a tuple, the chaining state and the
  message schedule are lists of words.
\<close>

section \<open>The constants and the functions of a round\<close>

definition kSha256 :: "u32 list" where
  "kSha256 = concat
    [[0x428a2f98, 0x71374491, 0xb5c0fbcf, 0xe9b5dba5],
     [0x3956c25b, 0x59f111f1, 0x923f82a4, 0xab1c5ed5],
     [0xd807aa98, 0x12835b01, 0x243185be, 0x550c7dc3],
     [0x72be5d74, 0x80deb1fe, 0x9bdc06a7, 0xc19bf174],
     [0xe49b69c1, 0xefbe4786, 0x0fc19dc6, 0x240ca1cc],
     [0x2de92c6f, 0x4a7484aa, 0x5cb0a9dc, 0x76f988da],
     [0x983e5152, 0xa831c66d, 0xb00327c8, 0xbf597fc7],
     [0xc6e00bf3, 0xd5a79147, 0x06ca6351, 0x14292967],
     [0x27b70a85, 0x2e1b2138, 0x4d2c6dfc, 0x53380d13],
     [0x650a7354, 0x766a0abb, 0x81c2c92e, 0x92722c85],
     [0xa2bfe8a1, 0xa81a664b, 0xc24b8b70, 0xc76c51a3],
     [0xd192e819, 0xd6990624, 0xf40e3585, 0x106aa070],
     [0x19a4c116, 0x1e376c08, 0x2748774c, 0x34b0bcb5],
     [0x391c0cb3, 0x4ed8aa4a, 0x5b9cca4f, 0x682e6ff3],
     [0x748f82ee, 0x78a5636f, 0x84c87814, 0x8cc70208],
     [0x90befffa, 0xa4506ceb, 0xbef9a3f7, 0xc67178f2]]"

definition kSha256IV :: "u32 list" where
  "kSha256IV = [0x6a09e667, 0xbb67ae85, 0x3c6ef372, 0xa54ff53a,
                0x510e527f, 0x9b05688c, 0x1f83d9ab, 0x5be0cd19]"

definition ror :: "u32 \<Rightarrow> nat \<Rightarrow> u32" where
  "ror x n = drop_bit n x OR push_bit (32 - n) x"

definition small_s0 :: "u32 \<Rightarrow> u32" where
  "small_s0 x = ror x 7 XOR ror x 18 XOR drop_bit 3 x"

definition small_s1 :: "u32 \<Rightarrow> u32" where
  "small_s1 x = ror x 17 XOR ror x 19 XOR drop_bit 10 x"

definition big_s0 :: "u32 \<Rightarrow> u32" where
  "big_s0 x = ror x 2 XOR ror x 13 XOR ror x 22"

definition big_s1 :: "u32 \<Rightarrow> u32" where
  "big_s1 x = ror x 6 XOR ror x 11 XOR ror x 25"

definition sha_ch :: "u32 \<Rightarrow> u32 \<Rightarrow> u32 \<Rightarrow> u32" where
  "sha_ch x y z = (x AND y) XOR (NOT x AND z)"

definition sha_maj :: "u32 \<Rightarrow> u32 \<Rightarrow> u32 \<Rightarrow> u32" where
  "sha_maj x y z = (x AND y) XOR (x AND z) XOR (y AND z)"

section \<open>The compression\<close>

definition schedule_word :: "u32 list \<Rightarrow> nat \<Rightarrow> u32" where
  "schedule_word w i = w ! (i - 16) + small_s0 (w ! (i - 15)) + w ! (i - 7) + small_s1 (w ! (i - 2))"

text \<open>The first sixteen words carried on to \<open>n\<close> of them.\<close>

definition schedule :: "nat \<Rightarrow> u32 list \<Rightarrow> u32 list" where
  "schedule n w = fold (\<lambda>i w. w @ [schedule_word w i]) [16..<n] w"

type_synonym sha_vars = "u32 \<times> u32 \<times> u32 \<times> u32 \<times> u32 \<times> u32 \<times> u32 \<times> u32"

definition sha_round :: "u32 \<Rightarrow> u32 \<Rightarrow> sha_vars \<Rightarrow> sha_vars" where
  "sha_round k w v =
     (let (a, b, c, d, e, f, g, h) = v;
          t1 = h + big_s1 e + sha_ch e f g + k + w;
          t2 = big_s0 a + sha_maj a b c
      in (t1 + t2, a, b, c, d + t1, e, f, g))"

definition sha_rounds :: "nat \<Rightarrow> nat \<Rightarrow> u32 list \<Rightarrow> sha_vars \<Rightarrow> sha_vars" where
  "sha_rounds i j w v = fold (\<lambda>i. sha_round (kSha256 ! i) (w ! i)) [i..<j] v"

definition sha_vars_of :: "u32 list \<Rightarrow> sha_vars" where
  "sha_vars_of s = (s ! 0, s ! 1, s ! 2, s ! 3, s ! 4, s ! 5, s ! 6, s ! 7)"

definition list_of_vars :: "sha_vars \<Rightarrow> u32 list" where
  "list_of_vars v = (let (a, b, c, d, e, f, g, h) = v in [a, b, c, d, e, f, g, h])"

definition sha_compress :: "u32 list \<Rightarrow> u32 list \<Rightarrow> u32 list" where
  "sha_compress state w =
     map2 (+) state (list_of_vars (sha_rounds 0 64 (schedule 64 w) (sha_vars_of state)))"

definition block_word :: "u8 list \<Rightarrow> nat \<Rightarrow> u32" where
  "block_word block i =
     push_bit 24 (ucast (block ! (i * 4))) OR push_bit 16 (ucast (block ! (i * 4 + 1))) OR
     push_bit 8 (ucast (block ! (i * 4 + 2))) OR ucast (block ! (i * 4 + 3))"

definition sha256_transform :: "u32 list \<Rightarrow> u8 list \<Rightarrow> u32 list" where
  "sha256_transform state block = sha_compress state (map (block_word block) [0..<16])"

section \<open>The hash\<close>

text \<open>Every whole block of the message, and what is left of it.\<close>

function absorb_message :: "u32 list \<Rightarrow> u8 list \<Rightarrow> u32 list \<times> u8 list" where
  "absorb_message state p =
     (if 64 \<le> length p then absorb_message (sha256_transform state (take 64 p)) (drop 64 p)
      else (state, p))"
  by auto
termination by (relation "measure (\<lambda>(_, p). length p)") auto

declare absorb_message.simps [simp del]

definition sha_tail_len :: "nat \<Rightarrow> nat" where
  "sha_tail_len rem = (if rem < 56 then 64 else 128)"

definition sha_tail :: "u8 list \<Rightarrow> u64 \<Rightarrow> u8 list" where
  "sha_tail p bits =
     (let tail_len = sha_tail_len (length p);
          tail = p @ [0x80] @ replicate (tail_len - length p - 1) 0
      in for_up 8 (\<lambda>i tail. tail[tail_len - 1 - i := ucast (drop_bit (i * 8) bits)]) tail)"

definition sha_output :: "u32 list \<Rightarrow> u8 list" where
  "sha_output state =
     concat (map (\<lambda>s. [ucast (drop_bit 24 s), ucast (drop_bit 16 s), ucast (drop_bit 8 s), ucast s]) state)"

definition sha256_full :: "u8 list \<Rightarrow> u8 list" where
  "sha256_full data =
     (let bits = of_nat (length data) * 8;
          (state, p) = absorb_message kSha256IV data;
          tail = sha_tail p bits;
          state = sha256_transform state (take 64 tail);
          state = (if sha_tail_len (length p) = 128 then sha256_transform state (drop 64 tail) else state)
      in sha_output state)"

definition sha256d :: "u8 list \<Rightarrow> u8 list" where
  "sha256d data = sha256_full (sha256_full data)"

section \<open>What of a header can be done before its nonce is known\<close>

definition sha256_midstate :: "u32 list \<Rightarrow> u32 list" where
  "sha256_midstate words =
     sha256_transform kSha256IV
       (concat (map (\<lambda>i. [ucast (drop_bit 24 (words ! i)), ucast (drop_bit 16 (words ! i)),
                          ucast (drop_bit 8 (words ! i)), ucast (words ! i)]) [0..<16]))"

definition sha256_advance_nonce_block :: "u32 list \<Rightarrow> u32 list \<Rightarrow> u32 list \<times> u32 list" where
  "sha256_advance_nonce_block state tail =
     (let w = [tail ! 0, tail ! 1, tail ! 2, 0, 0x80000000] @ replicate 10 0 @ [0x280];
          w = schedule 20 w;
          v = sha_rounds 0 4 w (sha_vars_of state)
      in (list_of_vars v, map (\<lambda>i. w ! (16 + i)) [0..<4]))"

text \<open>For a 112-byte message, leaving out of five schedule words the term the nonce reaches.\<close>

definition short_schedule_word :: "u32 list \<Rightarrow> nat \<Rightarrow> u32" where
  "short_schedule_word w i =
     w ! (i - 16) + small_s0 (w ! (i - 15)) +
     (if i = 20 \<or> i = 22 \<or> i = 24 then 0 else small_s1 (w ! (i - 2))) +
     (if i = 18 \<or> i = 25 then 0 else w ! (i - 7))"

definition sha256_advance_nonce_block_112 :: "u32 list \<Rightarrow> u32 list \<Rightarrow> u32 list \<times> u32 list" where
  "sha256_advance_nonce_block_112 state tail =
     (let w = map (\<lambda>i. tail ! i) [0..<11] @ [0, 0x80000000, 0, 0, 0x380];
          w = fold (\<lambda>i w. w @ [short_schedule_word w i]) [16..<26] w;
          v = sha_rounds 0 12 w (sha_vars_of state)
      in (list_of_vars v, map (\<lambda>i. w ! (16 + i)) [0..<10]))"

section \<open>Lemmas: words and bytes\<close>

lemma word_bytes: "[ucast (drop_bit 24 s), ucast (drop_bit 16 s), ucast (drop_bit 8 s), ucast s] = be32enc s"
  by (simp add: be32enc_def)

lemma sha_output_bytes: "sha_output state = concat (map be32enc state)"
  by (simp add: sha_output_def word_bytes)

lemma block_word_be32dec:
  assumes "i * 4 + 4 \<le> length block"
  shows "block_word block i = be32dec (take 4 (drop (i * 4) block))"
proof -
  have "block_word block i = join4 (block ! (i * 4 + 3)) (block ! (i * 4 + 2)) (block ! (i * 4 + 1)) (block ! (i * 4))"
    by (rule bit_word_eqI) (auto simp: block_word_def bit_join4 bit_simps dest: bit_imp_le_length)
  also have "\<dots> = be32dec (take 4 (drop (i * 4) block))"
    using assms by (simp add: join4_def be32dec_def)
  finally show ?thesis .
qed

lemma length_concat_be32enc: "length (concat (map be32enc ws)) = 4 * length ws"
  by (induction ws) auto

lemma block_words:
  assumes "length ws = 16"
  shows "map (block_word (concat (map be32enc ws))) [0..<16] = ws"
proof (rule nth_equalityI)
  fix i assume "i < length (map (block_word (concat (map be32enc ws))) [0..<16])"
  then have i: "i < 16" by simp
  have l: "length (concat (map be32enc ws)) = 64" by (simp add: length_concat_be32enc assms)
  have "take 4 (drop (i * 4) (concat (map be32enc ws))) = be32enc (ws ! i)"
    using concat_block [of "map be32enc ws" 4 i] i assms by fastforce
  then show "map (block_word (concat (map be32enc ws))) [0..<16] ! i = ws ! i"
    using i l by (simp add: block_word_be32dec)
qed (use assms in simp)

lemma transform_words:
  assumes "length ws = 16"
  shows "sha256_transform state (concat (map be32enc ws)) = sha_compress state ws"
  by (simp add: sha256_transform_def block_words [OF assms])

lemma midstate_compress: "sha256_midstate words = sha_compress kSha256IV (map ((!) words) [0..<16])"
proof -
  have "sha256_midstate words = sha256_transform kSha256IV (concat (map be32enc (map ((!) words) [0..<16])))"
    by (simp add: sha256_midstate_def word_bytes o_def)
  then show ?thesis by (simp only: transform_words length_map length_upt diff_zero)
qed

section \<open>Lemmas: the message schedule\<close>

text \<open>The schedule as the recurrence it is.\<close>

fun sched_at :: "u32 list \<Rightarrow> nat \<Rightarrow> u32" where
  "sched_at w i =
     (if i < 16 then w ! i
      else sched_at w (i - 16) + small_s0 (sched_at w (i - 15)) + sched_at w (i - 7) + small_s1 (sched_at w (i - 2)))"

declare sched_at.simps [simp del]

lemma sched_at_start: "i < 16 \<Longrightarrow> sched_at w i = w ! i"
  by (subst sched_at.simps) simp

lemma sched_at_step: "16 \<le> i \<Longrightarrow>
   sched_at w i = sched_at w (i - 16) + small_s0 (sched_at w (i - 15)) + sched_at w (i - 7) + small_s1 (sched_at w (i - 2))"
  by (subst sched_at.simps) simp

lemma schedule_at:
  assumes "length w = 16" "16 \<le> n"
  shows "schedule n w = map (sched_at w) [0..<n]"
  using assms(2)
proof (induction n rule: dec_induct)
  case base
  show ?case
    by (rule nth_equalityI) (simp_all add: schedule_def assms(1) sched_at_start)
next
  case (step n)
  have "schedule (Suc n) w = schedule n w @ [schedule_word (schedule n w) n]"
    using step.hyps(1) by (simp add: schedule_def)
  also have "schedule_word (schedule n w) n = sched_at w n"
    using step.hyps(1) by (simp add: step.IH schedule_word_def sched_at_step)
  finally show ?case by (simp add: step.IH)
qed

lemma nth_schedule:
  assumes "length w = 16" "16 \<le> n" "i < n"
  shows "schedule n w ! i = sched_at w i"
  using assms(3) by (simp add: schedule_at [OF assms(1,2)])

lemma length_schedule:
  assumes "length w = 16" "16 \<le> n"
  shows "length (schedule n w) = n"
  by (simp add: schedule_at [OF assms])

lemma upt_split: "i \<le> j \<Longrightarrow> j \<le> n \<Longrightarrow> [i..<n] = [i..<j] @ [j..<n]"
  using upt_add_eq_append [of i j "n - j"] by simp

lemma sha_rounds_split: "i \<le> j \<Longrightarrow> j \<le> n \<Longrightarrow> sha_rounds i n w v = sha_rounds j n w (sha_rounds i j w v)"
  by (simp only: sha_rounds_def upt_split [of i j n] fold_append comp_apply)

lemma sha_rounds_cong:
  assumes "\<And>k. i \<le> k \<Longrightarrow> k < j \<Longrightarrow> w ! k = w' ! k"
  shows "sha_rounds i j w v = sha_rounds i j w' v"
  unfolding sha_rounds_def by (rule fold_cong) (use assms in auto)

lemma sha_vars_of_list [simp]: "sha_vars_of (list_of_vars v) = v"
  by (simp add: sha_vars_of_def list_of_vars_def split: prod.split)

lemma length_list_of_vars [simp]: "length (list_of_vars v) = 8"
  by (simp add: list_of_vars_def split: prod.split)

lemma length_sha_compress [simp, len_simps]: "length (sha_compress s w) = min (length s) 8"
  by (simp add: sha_compress_def)

lemma length_transform [simp, len_simps]: "length (sha256_transform s b) = min (length s) 8"
  by (simp add: sha256_transform_def)

lemma length_kSha256IV [simp]: "length kSha256IV = 8"
  by (simp add: kSha256IV_def)

lemma length_absorb: "length s = 8 \<Longrightarrow> length (fst (absorb_message s p)) = 8"
  by (induction s p rule: absorb_message.induct) (subst absorb_message.simps, simp)

lemma absorb_short: "length p < 64 \<Longrightarrow> absorb_message s p = (s, p)"
  by (subst absorb_message.simps) simp

lemma absorb_block: "length b = 64 \<Longrightarrow> absorb_message s (b @ p) = absorb_message (sha256_transform s b) p"
  by (subst absorb_message.simps) simp

lemma length_sha256_full [simp]: "length (sha256_full data) = 32"
  using length_absorb [of kSha256IV data]
  by (cases "absorb_message kSha256IV data") (simp add: sha256_full_def Let_def sha_output_bytes length_concat_be32enc)

section \<open>Lemmas: the padding\<close>

definition be64_bytes :: "u64 \<Rightarrow> u8 list" where
  "be64_bytes x = map (\<lambda>i. ucast (drop_bit (56 - 8 * i) x)) [0..<8]"

lemma nth_be64_bytes: "i < 8 \<Longrightarrow> be64_bytes x ! i = ucast (drop_bit (56 - 8 * i) x)"
  by (simp add: be64_bytes_def)

lemma nth_for_up_back:
  assumes "n \<le> L" "length t = L" "j < L"
  shows "for_up n (\<lambda>i t. t[L - 1 - i := f i]) t ! j = (if L - n \<le> j then f (L - 1 - j) else t ! j)"
proof -
  have len: "length (for_up m (\<lambda>i t. t[L - 1 - i := f i]) t) = L" for m
    by (induction m) (simp_all add: for_up_Suc assms(2))
  show ?thesis using assms(1)
  proof (induction n)
    case 0
    then show ?case using assms(3) by simp
  next
    case (Suc n)
    then show ?case using assms(3) len [of n] by (auto simp: for_up_Suc nth_list_update)
  qed
qed

lemma sha_tail_bytes:
  assumes "length p < 64"
  shows "sha_tail p bits = p @ [0x80] @ replicate (sha_tail_len (length p) - length p - 9) 0 @ be64_bytes bits"
proof (rule nth_equalityI)
  let ?L = "sha_tail_len (length p)" and ?t = "p @ [0x80] @ replicate (sha_tail_len (length p) - length p - 1) (0 :: u8)"
  have L: "length p + 9 \<le> ?L" using assms by (simp add: sha_tail_len_def)
  then have t: "length ?t = ?L" by (simp only: length_append length_replicate list.size)
  have len: "length (for_up m (\<lambda>i t. t[?L - 1 - i := ucast (drop_bit (i * 8) bits)]) ?t) = ?L" for m
    by (induction m) (simp_all only: for_up_0 for_up_Suc length_list_update t)
  have e: "sha_tail p bits = for_up 8 (\<lambda>i t. t[?L - 1 - i := ucast (drop_bit (i * 8) bits)]) ?t"
    by (simp add: sha_tail_def Let_def)
  show "length (sha_tail p bits) =
      length (p @ [0x80] @ replicate (?L - length p - 9) 0 @ be64_bytes bits)"
    using L by (simp only: e len) (simp add: be64_bytes_def)
  fix j assume "j < length (sha_tail p bits)"
  then have j: "j < ?L" by (simp only: e len)
  have "sha_tail p bits ! j = (if ?L - 8 \<le> j then ucast (drop_bit ((?L - 1 - j) * 8) bits) else ?t ! j)"
    unfolding e by (rule nth_for_up_back [OF _ t j]) (use L in linarith)
  moreover have "(p @ [0x80] @ replicate (?L - length p - 9) 0 @ be64_bytes bits) ! j =
      (if ?L - 8 \<le> j then ucast (drop_bit ((?L - 1 - j) * 8) bits) else ?t ! j)"
  proof (cases "?L - 8 \<le> j")
    case True
    have "(p @ [0x80] @ replicate (?L - length p - 9) 0 @ be64_bytes bits) ! j = be64_bytes bits ! (j - (?L - 8))"
      using True L by (auto simp: nth_append nth_Cons' add.commute)
    also have "\<dots> = ucast (drop_bit (56 - 8 * (j - (?L - 8))) bits)"
      by (rule nth_be64_bytes) (use True j L in linarith)
    also have "56 - 8 * (j - (?L - 8)) = (?L - 1 - j) * 8" using True j L by linarith
    finally show ?thesis using True by simp
  next
    case False
    then show ?thesis using L by (auto simp: nth_append nth_Cons')
  qed
  ultimately show "sha_tail p bits ! j = (p @ [0x80] @ replicate (?L - length p - 9) 0 @ be64_bytes bits) ! j"
    by simp
qed

text \<open>The message padded to whole blocks, as the standard has it.\<close>

definition sha_padded :: "u8 list \<Rightarrow> u8 list" where
  "sha_padded data =
     data @ [0x80] @ replicate ((119 - length data mod 64) mod 64) 0 @ be64_bytes (of_nat (length data) * 8)"

lemma absorb_rest:
  "absorb_message s data = (s', p) \<Longrightarrow>
   absorb_message s (data @ t) = absorb_message s' (p @ t) \<and> length p = length data mod 64"
proof (induction s data arbitrary: s' p rule: absorb_message.induct)
  case (1 s data)
  show ?case
  proof (cases "64 \<le> length data")
    case True
    have a: "absorb_message (sha256_transform s (take 64 data)) (drop 64 data) = (s', p)"
      using 1(2) True by (subst (asm) absorb_message.simps) simp
    have "absorb_message s (data @ t) = absorb_message (sha256_transform s (take 64 data)) (drop 64 data @ t)"
      using True absorb_block [of "take 64 data" s "drop 64 data @ t"] by (simp flip: append_assoc)
    then show ?thesis using 1(1) [OF True a] True by (simp add: le_mod_geq)
  next
    case False
    then show ?thesis using 1(2) absorb_short [of data s] by simp
  qed
qed

lemma absorb_blocks:
  "length p = 64 * n \<Longrightarrow>
   absorb_message s p = (fold (\<lambda>i s. sha256_transform s (take 64 (drop (64 * i) p))) [0..<n] s, [])"
proof (induction n arbitrary: p s)
  case 0
  then show ?case by (simp add: absorb_short)
next
  case (Suc n)
  have p: "p = take 64 p @ drop 64 p" "length (take 64 p) = 64" "length (drop 64 p) = 64 * n" using Suc.prems by auto
  have "absorb_message s p = absorb_message (sha256_transform s (take 64 p)) (drop 64 p)"
    using absorb_block [OF p(2), of s "drop 64 p"] p(1) by simp
  also have "\<dots> = (fold (\<lambda>i s. sha256_transform s (take 64 (drop (64 * i) (drop 64 p)))) [0..<n]
      (sha256_transform s (take 64 p)), [])"
    by (rule Suc.IH [OF p(3)])
  also have "fold (\<lambda>i s. sha256_transform s (take 64 (drop (64 * i) (drop 64 p)))) [0..<n] (sha256_transform s (take 64 p))
      = fold (\<lambda>i s. sha256_transform s (take 64 (drop (64 * i) p))) [0..<Suc n] s"
    by (simp add: upt_conv_Cons [of 0 "Suc n"] fold_map o_def add.commute flip: map_Suc_upt del: upt_Suc)
  finally show ?case .
qed

lemma sha256_full_absorb:
  assumes "absorb_message kSha256IV (sha_padded data) = (s, q)"
  shows "sha256_full data = sha_output s" "64 dvd length (sha_padded data)"
proof -
  obtain s' p where a: "absorb_message kSha256IV data = (s', p)" by (metis surj_pair)
  let ?b = "of_nat (length data) * 8 :: u64"
  note r = absorb_rest [OF a]
  have p: "length p < 64" "length p = length data mod 64" using r [of "[]"] by simp_all
  let ?L = "sha_tail_len (length p)"
  have z: "(119 - length data mod 64) mod 64 = ?L - length p - 9"
  proof (cases "length p < 56")
    case True
    then have "119 - length p = (55 - length p) + 64" by linarith
    then have "(119 - length p) mod 64 = 55 - length p" using True by (simp only: mod_add_self2) simp
    then show ?thesis using True p(2) by (simp add: sha_tail_len_def)
  next
    case False
    then show ?thesis using p by (simp add: sha_tail_len_def)
  qed
  have t: "p @ [0x80] @ replicate ((119 - length data mod 64) mod 64) 0 @ be64_bytes ?b = sha_tail p ?b"
    using sha_tail_bytes [OF p(1)] by (simp only: z)
  have L: "length (sha_tail p ?b) = ?L"
    using p(1) by (simp only: sha_tail_bytes [OF p(1)]) (simp add: be64_bytes_def sha_tail_len_def)
  have ab: "absorb_message kSha256IV (sha_padded data) = absorb_message s' (sha_tail p ?b)"
    using r [of "[0x80] @ replicate ((119 - length data mod 64) mod 64) 0 @ be64_bytes ?b"]
    by (simp only: sha_padded_def t)
  show "sha256_full data = sha_output s"
  proof (cases "?L = 128")
    case True
    have "absorb_message s' (sha_tail p ?b) =
        (sha256_transform (sha256_transform s' (take 64 (sha_tail p ?b))) (drop 64 (sha_tail p ?b)), [])"
      using absorb_blocks [of "sha_tail p ?b" 2 s'] L True by (simp add: numeral_2_eq_2)
    then show ?thesis using assms ab by (simp add: sha256_full_def a Let_def True)
  next
    case False
    then have "?L = 64" by (simp add: sha_tail_len_def split: if_splits)
    then have "absorb_message s' (sha_tail p ?b) = (sha256_transform s' (take 64 (sha_tail p ?b)), [])"
      using absorb_blocks [of "sha_tail p ?b" 1 s'] L by simp
    then show ?thesis using assms ab False by (simp add: sha256_full_def a Let_def)
  qed
  have "length data = 64 * (length data div 64) + length p" using p(2) by simp
  then have "length (sha_padded data) = 64 * (length data div 64) + (length p + 9 + (?L - length p - 9))"
    by (simp only: sha_padded_def z length_append length_replicate be64_bytes_def length_map length_upt list.size)
  also have "length p + 9 + (?L - length p - 9) = ?L" using p(1) by (simp add: sha_tail_len_def)
  finally show "64 dvd length (sha_padded data)" by (simp add: sha_tail_len_def)
qed

text \<open>
  Claim C26. The hash is the standard's: whatever its length, the message followed by a one bit, the
  fewest zeros that leave room for its length in bits as eight bytes at the end of a block, and that
  length, compressed block by block from the initial value. The two shapes of the last block or two
  that the code builds by hand come to that.
\<close>

theorem sha256_full_padded:
  "sha256_full data = sha_output
     (fold (\<lambda>i s. sha256_transform s (take 64 (drop (64 * i) (sha_padded data))))
        [0..<length (sha_padded data) div 64] kSha256IV)
   \<and> length (sha_padded data) mod 64 = 0 \<and> length (sha256_full data) = 32"
proof -
  obtain s q where a: "absorb_message kSha256IV (sha_padded data) = (s, q)" by (metis surj_pair)
  note f = sha256_full_absorb [OF a]
  have "length (sha_padded data) = 64 * (length (sha_padded data) div 64)" using f(2) by simp
  from absorb_blocks [OF this, of kSha256IV]
  have "s = fold (\<lambda>i s. sha256_transform s (take 64 (drop (64 * i) (sha_padded data))))
        [0..<length (sha_padded data) div 64] kSha256IV" using a by simp
  then show ?thesis using f length_sha256_full [of data] by (simp only: dvd_eq_mod_eq_0)
qed

section \<open>Lemmas: where the nonce enters\<close>

text \<open>The two working variables the round a nonce is added in leaves it in.\<close>

definition add_nonce :: "u32 \<Rightarrow> sha_vars \<Rightarrow> sha_vars" where
  "add_nonce n v = (let (a, b, c, d, e, f, g, h) = v in (a + n, b, c, d, e + n, f, g, h))"

lemma sha_round_nonce: "sha_round k (w + n) v = add_nonce n (sha_round k w v)"
  by (simp add: sha_round_def add_nonce_def Let_def add.assoc add.left_commute add.commute split: prod.split)

lemma small_zero [simp]: "small_s0 0 = 0" "small_s1 0 = 0"
  by (simp_all add: small_s0_def small_s1_def ror_def)

lemma sha_rounds_step: "sha_rounds i (Suc j) w v = (if i \<le> j then sha_round (kSha256 ! j) (w ! j) (sha_rounds i j w v) else v)"
  by (simp add: sha_rounds_def)

text \<open>The block of an 80-byte header that holds its nonce, and the one of a 112-byte header.\<close>

definition nonce_block :: "u32 list \<Rightarrow> u32 \<Rightarrow> u32 list" where
  "nonce_block tail nonce = [tail ! 0, tail ! 1, tail ! 2, nonce, 0x80000000] @ replicate 10 0 @ [0x280]"

definition nonce_block_112 :: "u32 list \<Rightarrow> u32 \<Rightarrow> u32 list" where
  "nonce_block_112 tail nonce = map (\<lambda>i. tail ! i) [0..<11] @ [nonce, 0x80000000, 0, 0, 0x380]"

lemma nonce_block_words:
  "nonce_block tail n =
     [tail ! 0, tail ! 1, tail ! 2, n, 0x80000000, 0, 0, 0, 0, 0, 0, 0, 0, 0, 0, 0x280]"
  by (simp add: nonce_block_def numeral_eq_Suc)

lemma nonce_block_112_words:
  "nonce_block_112 tail n =
     [tail ! 0, tail ! 1, tail ! 2, tail ! 3, tail ! 4, tail ! 5, tail ! 6, tail ! 7, tail ! 8, tail ! 9,
      tail ! 10, n, 0x80000000, 0, 0, 0x380]"
  by (simp add: nonce_block_112_def upt_conv_Cons eval_nat_numeral)

lemma nonce_schedule:
  assumes "i < 20"
  shows "sched_at (nonce_block tail n) i = sched_at (nonce_block tail 0) i +
     (if i = 3 then n else if i = 18 then small_s0 n else if i = 19 then n else 0)"
proof -
  let ?S = "\<lambda>n. sched_at (nonce_block tail n)"
  have early: "?S n j = (if j = 3 then n else ?S 0 j)" if "j < 16" for n j
    using that by (simp add: sched_at_start nonce_block_words nth_Cons')
  have zero: "?S 0 3 = 0" by (simp add: sched_at_start nonce_block_words)
  have 16: "?S n 16 = ?S 0 16" by (simp add: sched_at_step [of 16] early [where n = n])
  have 17: "?S n 17 = ?S 0 17" by (simp add: sched_at_step [of 17] early [where n = n])
  have 18: "?S n 18 = ?S 0 18 + small_s0 n"
    by (simp add: sched_at_step [of 18] early [where n = n] zero 16)
  have 19: "?S n 19 = ?S 0 19 + n"
    by (simp add: sched_at_step [of 19] early [where n = n] zero 17)
  have "i < 16 \<or> i = 16 \<or> i = 17 \<or> i = 18 \<or> i = 19" using assms by linarith
  then show ?thesis
    using 16 17 18 19 early [of i n] zero by auto
qed

lemma advance_nonce_block:
  assumes "sha256_advance_nonce_block state tail = (adv, sched)"
  shows "sha_rounds 0 4 (schedule 64 (nonce_block tail n)) (sha_vars_of state) = add_nonce n (sha_vars_of adv)"
    "i < 4 \<Longrightarrow> schedule 64 (nonce_block tail n) ! (16 + i) =
       sched ! i + (if i = 2 then small_s0 n else if i = 3 then n else 0)"
    "length adv = 8" "length sched = 4"
proof -
  have l: "length (nonce_block tail n) = 16" for n by (simp add: nonce_block_words)
  have w: "schedule 20 (nonce_block tail 0) = map (sched_at (nonce_block tail 0)) [0..<20]"
    by (rule schedule_at [OF l]) simp
  have w64: "schedule 64 (nonce_block tail n) = map (sched_at (nonce_block tail n)) [0..<64]" for n
    by (rule schedule_at [OF l]) simp
  have a: "adv = list_of_vars (sha_rounds 0 4 (schedule 20 (nonce_block tail 0)) (sha_vars_of state))"
    "sched = map (\<lambda>i. schedule 20 (nonce_block tail 0) ! (16 + i)) [0..<4]"
    using assms by (simp_all add: sha256_advance_nonce_block_def nonce_block_def Let_def)
  have three: "sha_rounds 0 3 (schedule 64 (nonce_block tail n)) (sha_vars_of state) =
      sha_rounds 0 3 (schedule 20 (nonce_block tail 0)) (sha_vars_of state)"
    by (rule sha_rounds_cong) (simp add: w w64 nonce_schedule [where n = n])
  have four: "sha_rounds 0 4 u s = sha_round (kSha256 ! 3) (u ! 3) (sha_rounds 0 3 u s)" for u s
    using sha_rounds_step [of 0 3 u s] by simp
  show "sha_rounds 0 4 (schedule 64 (nonce_block tail n)) (sha_vars_of state) = add_nonce n (sha_vars_of adv)"
    unfolding a sha_vars_of_list four three by (simp add: w w64 nonce_schedule [of 3 tail n] sha_round_nonce)
  show "schedule 64 (nonce_block tail n) ! (16 + i) =
       sched ! i + (if i = 2 then small_s0 n else if i = 3 then n else 0)" if "i < 4"
    using that nonce_schedule [of "16 + i" tail n] by (simp add: a w w64)
  show "length adv = 8" "length sched = 4" by (simp_all add: a)
qed

text \<open>A list grown by one word at a time, each made of the words before it.\<close>

lemma grown_list:
  assumes "\<And>i w w'. m \<le> i \<Longrightarrow> (\<And>j. j < i \<Longrightarrow> w ! j = w' ! j) \<Longrightarrow> F w i = F w' i" "length w = m" "m \<le> n"
  shows "length (fold (\<lambda>i w. w @ [F w i]) [m..<n] w) = n"
    "i < m \<Longrightarrow> fold (\<lambda>i w. w @ [F w i]) [m..<n] w ! i = w ! i"
    "m \<le> i \<Longrightarrow> i < n \<Longrightarrow> fold (\<lambda>i w. w @ [F w i]) [m..<n] w ! i = F (fold (\<lambda>i w. w @ [F w i]) [m..<n] w) i"
proof -
  let ?W = "\<lambda>n. fold (\<lambda>i w. w @ [F w i]) [m..<n] w"
  have "length (?W n) = n \<and> (\<forall>i < m. ?W n ! i = w ! i) \<and> (\<forall>i. m \<le> i \<longrightarrow> i < n \<longrightarrow> ?W n ! i = F (?W n) i)"
    using assms(3)
  proof (induction n rule: dec_induct)
    case base
    then show ?case by (simp add: assms(2))
  next
    case (step n)
    have e: "?W (Suc n) = ?W n @ [F (?W n) n]" using step.hyps(1) by simp
    have l: "length (?W n) = n" using step.IH by simp
    have same: "F (?W (Suc n)) i = F (?W n) i" if "m \<le> i" "i \<le> n" for i
      by (rule assms(1) [OF that(1)]) (use that l in \<open>simp add: e nth_append\<close>)
    have "?W (Suc n) ! i = F (?W (Suc n)) i" if "m \<le> i" "i < Suc n" for i
      using that step.IH same [of i] by (cases "i = n") (simp_all add: e nth_append)
    moreover have "?W (Suc n) ! i = w ! i" if "i < m" for i
      using that step.IH step.hyps(1) by (simp add: e nth_append)
    ultimately show ?case using l e by simp
  qed
  then show "length (?W n) = n" "i < m \<Longrightarrow> ?W n ! i = w ! i"
    "m \<le> i \<Longrightarrow> i < n \<Longrightarrow> ?W n ! i = F (?W n) i" by blast+
qed

lemma short_schedule_local:
  "16 \<le> i \<Longrightarrow> (\<And>j. j < i \<Longrightarrow> w ! j = w' ! j) \<Longrightarrow> short_schedule_word w i = short_schedule_word w' i"
  by (simp add: short_schedule_word_def)

text \<open>The ten words put right once the nonce is known, as the device does it.\<close>

definition resumed_112 :: "u32 list \<Rightarrow> u32 \<Rightarrow> u32 list" where
  "resumed_112 sched nonce =
     (let w18 = sched ! 2 + nonce;
          w20 = sched ! 4 + small_s1 w18;
          w22 = sched ! 6 + small_s1 w20;
          w24 = sched ! 8 + small_s1 w22
      in [sched ! 0, sched ! 1, w18, sched ! 3, w20, sched ! 5, w22, sched ! 7, w24, sched ! 9 + w18])"

lemma less_26_cases:
  fixes i :: nat
  assumes "i < 26"
  obtains "i < 16" | "i = 16" | "i = 17" | "i = 18" | "i = 19" | "i = 20" | "i = 21" | "i = 22" | "i = 23"
    | "i = 24" | "i = 25"
proof -
  have "i < 16 \<or> i = 16 \<or> i = 17 \<or> i = 18 \<or> i = 19 \<or> i = 20 \<or> i = 21 \<or> i = 22 \<or> i = 23 \<or> i = 24 \<or> i = 25"
    using assms by presburger
  then show thesis using that by blast
qed

lemma nonce_block_112_same: "i < 11 \<Longrightarrow> nonce_block_112 tail n ! i = tail ! i"
  by (simp add: nonce_block_112_def nth_append)

lemma resumed_schedule_112:
  assumes "W = fold (\<lambda>i w. w @ [short_schedule_word w i]) [16..<26] (nonce_block_112 tail 0)"
    "sched = map (\<lambda>i. W ! (16 + i)) [0..<10]"
  shows "i < 16 \<Longrightarrow> W ! i = nonce_block_112 tail 0 ! i"
    "i < 10 \<Longrightarrow> sched_at (nonce_block_112 tail n) (16 + i) = resumed_112 sched n ! i"
proof -
  let ?S = "sched_at (nonce_block_112 tail n)"
  have l: "length (nonce_block_112 tail 0) = 16" by (simp add: nonce_block_112_words)
  note g = grown_list [where F = short_schedule_word and m = 16 and n = 26, OF short_schedule_local l, folded assms(1)]
  show first: "i < 16 \<Longrightarrow> W ! i = nonce_block_112 tail 0 ! i" for i by (rule g(2)) simp_all
  have W: "W ! i = short_schedule_word W i" if "16 \<le> i" "i < 26" for i by (rule g(3)) (use that in simp_all)
  have early: "?S j = (if j = 11 then n else W ! j)" if "j < 16" for j
    using that by (simp add: sched_at_start first nonce_block_112_words nth_Cons')
  have zero: "W ! 11 = 0" by (simp add: first nonce_block_112_words)
  note e = early zero sched_at_step W short_schedule_word_def
  have 16: "?S 16 = W ! 16" by (simp add: e(1,2) sched_at_step [of 16] W [of 16] short_schedule_word_def)
  have 17: "?S 17 = W ! 17" by (simp add: e(1,2) sched_at_step [of 17] W [of 17] short_schedule_word_def)
  have 18: "?S 18 = W ! 18 + n" by (simp add: e(1,2) 16 sched_at_step [of 18] W [of 18] short_schedule_word_def)
  have 19: "?S 19 = W ! 19" by (simp add: e(1,2) 17 sched_at_step [of 19] W [of 19] short_schedule_word_def)
  have 20: "?S 20 = W ! 20 + small_s1 (?S 18)" by (simp add: e(1,2) sched_at_step [of 20] W [of 20] short_schedule_word_def)
  have 21: "?S 21 = W ! 21" by (simp add: e(1,2) 19 sched_at_step [of 21] W [of 21] short_schedule_word_def)
  have 22: "?S 22 = W ! 22 + small_s1 (?S 20)" by (simp add: e(1,2) sched_at_step [of 22] W [of 22] short_schedule_word_def)
  have 23: "?S 23 = W ! 23" by (simp add: e(1,2) 16 21 sched_at_step [of 23] W [of 23] short_schedule_word_def)
  have 24: "?S 24 = W ! 24 + small_s1 (?S 22)" by (simp add: e(1,2) 17 sched_at_step [of 24] W [of 24] short_schedule_word_def)
  have 25: "?S 25 = W ! 25 + ?S 18" by (simp add: e(1,2) 23 sched_at_step [of 25] W [of 25] short_schedule_word_def)
  have s: "sched ! j = W ! (16 + j)" if "j < 10" for j using that by (simp add: assms(2))
  show "i < 10 \<Longrightarrow> ?S (16 + i) = resumed_112 sched n ! i"
    by (rule less_26_cases [of "16 + i"])
      (simp_all add: resumed_112_def Let_def s 16 17 18 19 20 21 22 23 24 25)
qed

lemma resume_112:
  assumes "sha256_advance_nonce_block_112 state tail = (adv, sched)"
  shows "sha_compress state (nonce_block_112 tail n) = map2 (+) state (list_of_vars
      (sha_rounds 12 64 (fold (\<lambda>i w. w @ [schedule_word w i]) [26..<64] (nonce_block_112 tail n @ resumed_112 sched n))
         (add_nonce n (sha_vars_of adv))))"
proof -
  define W where "W = fold (\<lambda>i w. w @ [short_schedule_word w i]) [16..<26] (nonce_block_112 tail 0)"
  let ?B = "nonce_block_112 tail n"
  have a: "adv = list_of_vars (sha_rounds 0 12 W (sha_vars_of state))" "sched = map (\<lambda>i. W ! (16 + i)) [0..<10]"
    using assms unfolding sha256_advance_nonce_block_112_def nonce_block_112_def W_def Let_def
    by (simp_all only: prod.inject)
  note r = resumed_schedule_112 [OF W_def a(2)]
  have l: "length ?B = 16" by (simp add: nonce_block_112_words)
  have "schedule 26 ?B = ?B @ resumed_112 sched n"
  proof (rule nth_equalityI)
    show "length (schedule 26 ?B) = length (?B @ resumed_112 sched n)"
      by (simp add: length_schedule [OF l] l resumed_112_def Let_def)
    fix i assume "i < length (schedule 26 ?B)"
    then have i: "i < 26" by (simp add: length_schedule [OF l])
    show "schedule 26 ?B ! i = (?B @ resumed_112 sched n) ! i"
    proof (cases "i < 16")
      case True
      then show ?thesis by (simp add: nth_schedule [OF l] l nth_append sched_at_start)
    next
      case False
      then have "i = 16 + (i - 16)" "i - 16 < 10" using i by linarith+
      then obtain j where "i = 16 + j" "j < 10" by blast
      then show ?thesis using r(2) [of j n] by (simp add: nth_schedule [OF l] l nth_append)
    qed
  qed
  moreover have "schedule 64 ?B = fold (\<lambda>i w. w @ [schedule_word w i]) [26..<64] (schedule 26 ?B)"
  proof -
    have "[16..<64] = [16..<26] @ [26..<64 :: nat]" by (rule upt_split) simp_all
    then show ?thesis by (simp only: schedule_def fold_append comp_apply)
  qed
  ultimately have sch: "schedule 64 ?B = fold (\<lambda>i w. w @ [schedule_word w i]) [26..<64] (?B @ resumed_112 sched n)" by (simp only:)
  have w64: "schedule 64 ?B ! i = ?B ! i" if "i < 16" for i
    using that by (simp add: nth_schedule [OF l] sched_at_start)
  have eleven: "sha_rounds 0 11 (schedule 64 ?B) v = sha_rounds 0 11 W v" for v
    by (rule sha_rounds_cong) (simp add: w64 r(1) nonce_block_112_same)
  have twelve: "sha_rounds 0 12 u s = sha_round (kSha256 ! 11) (u ! 11) (sha_rounds 0 11 u s)" for u s
    using sha_rounds_step [of 0 11 u s] by simp
  have z: "W ! 11 = 0" "?B ! 11 = n" by (simp_all add: r(1) nonce_block_112_words)
  have "sha_round (kSha256 ! 11) (schedule 64 ?B ! 11) v = add_nonce n (sha_round (kSha256 ! 11) (W ! 11) v)" for v
    using sha_round_nonce [of "kSha256 ! 11" 0 n v] w64 [of 11] z by simp
  then have "sha_rounds 0 12 (schedule 64 ?B) (sha_vars_of state) = add_nonce n (sha_vars_of adv)"
    by (simp only: twelve eleven a(1) sha_vars_of_list)
  then have "sha_rounds 0 64 (schedule 64 ?B) (sha_vars_of state) = sha_rounds 12 64 (schedule 64 ?B) (add_nonce n (sha_vars_of adv))"
    by (simp only: sha_rounds_split [of 0 12 64 "schedule 64 ?B" "sha_vars_of state"] zero_le numeral_le_iff semiring_norm)
  then show ?thesis by (simp only: sha_compress_def sch)
qed

text \<open>
  Claim C25. What the host does of an LBRY header's second block before the nonce is known is exactly
  what the compression does, for every nonce: put back as the device does it, two additions make the
  working variables those entering round 12, and the ten schedule words, five of them short of a
  term, become those of the block that holds the nonce; so the compression of that block is the
  remaining rounds over them.
\<close>

theorem advance_112_resumes:
  "sha_compress state (nonce_block_112 tail n) = map2 (+) state (list_of_vars
     (sha_rounds 12 64
        (fold (\<lambda>i w. w @ [schedule_word w i]) [26..<64]
           (nonce_block_112 tail n @ resumed_112 (snd (sha256_advance_nonce_block_112 state tail)) n))
        (add_nonce n (sha_vars_of (fst (sha256_advance_nonce_block_112 state tail))))))"
  by (rule resume_112 [OF prod.collapse [symmetric]])

end
