(* ===== verification/Sha256d.thy ===== *)
theory Sha256d
  imports Sha256 Backend
begin

text \<open>
  \<^verbatim>\<open>algorithms/sha256d\<close>: the algorithm object (what it hashes, what it sends the device for a
  dispatch, the kernel it offers) and \<^verbatim>\<open>sha256d.comp\<close>, the shader one invocation of which tests one
  nonce, with the parts of \<^verbatim>\<open>shaders/common\<close> it is made of. The shader's local memory is whatever it
  is when an invocation starts: an argument.
\<close>

section \<open>The push block and the published answers\<close>

record Sha256dPush =
  sp_midstate :: "u32 list"
  sp_advanced :: "u32 list"
  sp_sched :: "u32 list"
  sp_target :: "u32 list"
  sp_nonce_start :: u32
  sp_count :: u32
  sp_capacity :: u32

definition sha256d_push_words :: "Sha256dPush \<Rightarrow> u32 list" where
  "sha256d_push_words b = sp_midstate b @ sp_advanced b @ sp_sched b @ sp_target b @
     [sp_nonce_start b, sp_count b, sp_capacity b]"

definition kHeader125552 :: "u8 list" where
  "kHeader125552 =
    [0x01, 0x00, 0x00, 0x00, 0x81, 0xcd, 0x02, 0xab, 0x7e, 0x56, 0x9e, 0x8b, 0xcd, 0x93, 0x17, 0xe2,
     0xfe, 0x99, 0xf2, 0xde, 0x44, 0xd4, 0x9a, 0xb2, 0xb8, 0x85, 0x1b, 0xa4, 0xa3, 0x08, 0x00, 0x00,
     0x00, 0x00, 0x00, 0x00, 0xe3, 0x20, 0xb6, 0xc2, 0xff, 0xfc, 0x8d, 0x75, 0x04, 0x23, 0xdb, 0x8b,
     0x1e, 0xb9, 0x42, 0xae, 0x71, 0x0e, 0x95, 0x1e, 0xd7, 0x97, 0xf7, 0xaf, 0xfc, 0x88, 0x92, 0xb0,
     0xf1, 0xfc, 0x12, 0x2b, 0xc7, 0xf5, 0xd7, 0x4d, 0xf2, 0xb9, 0x44, 0x1a, 0x42, 0xa1, 0x46, 0x95]"

definition kDigest125552 :: "u8 list" where
  "kDigest125552 =
    [0x1d, 0xbd, 0x98, 0x1f, 0xe6, 0x98, 0x57, 0x76, 0xb6, 0x44, 0xb1, 0x73, 0xa4, 0xd0, 0x38, 0x5d,
     0xdc, 0x1a, 0xa2, 0xa8, 0x29, 0x68, 0x8d, 0x1e, 0x00, 0x00, 0x00, 0x00, 0x00, 0x00, 0x00, 0x00]"

definition kHeader957533 :: "u8 list" where
  "kHeader957533 =
    [0x00, 0xe0, 0xff, 0x3f, 0x43, 0xd4, 0x81, 0xb0, 0x07, 0x92, 0x8a, 0x01, 0xbd, 0x44, 0xd1, 0x65,
     0x57, 0xc3, 0xb7, 0xe1, 0xd5, 0xdb, 0x3a, 0x5f, 0x6f, 0x80, 0x01, 0x00, 0x00, 0x00, 0x00, 0x00,
     0x00, 0x00, 0x00, 0x00, 0x10, 0x9b, 0xa8, 0x64, 0xa7, 0x69, 0x50, 0x10, 0xb1, 0x92, 0x6e, 0x6d,
     0xc4, 0xaf, 0xf1, 0x17, 0xa0, 0xe7, 0x7c, 0xc8, 0xbe, 0x78, 0x09, 0x92, 0x3e, 0x5e, 0xff, 0x80,
     0x4c, 0x36, 0x8e, 0xd2, 0x64, 0xe9, 0x51, 0x6a, 0x42, 0x1a, 0x02, 0x17, 0xad, 0x4e, 0xf3, 0x29]"

definition kDigest957533 :: "u8 list" where
  "kDigest957533 =
    [0xb4, 0x4c, 0x27, 0x7b, 0xc4, 0xde, 0x10, 0x0b, 0xd0, 0x2f, 0x22, 0x76, 0xae, 0xf4, 0xbc, 0xc0,
     0xdb, 0x31, 0x1c, 0x43, 0xb8, 0xe9, 0x00, 0x00, 0x00, 0x00, 0x00, 0x00, 0x00, 0x00, 0x00, 0x00]"

definition sha256d_answers :: "KnownAnswer list" where
  "sha256d_answers =
     [\<lparr>ka_label = ''block 125552'', ka_header = kHeader125552, ka_nonce = 0x42a14695, ka_digest = kDigest125552\<rparr>,
      \<lparr>ka_label = ''block 957533'', ka_header = kHeader957533, ka_nonce = 0xad4ef329, ka_digest = kDigest957533\<rparr>]"

section \<open>class Sha256d\<close>

text \<open>\<open>shader\<close> is the module \<^verbatim>\<open>load_shader\<close> finds under the algorithm's name, if it finds one.\<close>

definition sha256d_kernel :: "ShaderModule option \<Rightarrow> KernelSpec" where
  "sha256d_kernel shader =
     (let spec = kernel_spec_default\<lparr>k_name := ''sha256d''\<rparr>
      in case shader of None \<Rightarrow> spec
         | Some module \<Rightarrow> spec\<lparr>
             k_spirv := Some (m_words module),
             k_storage_buffers := (if m_storage_buffers module \<noteq> 0 then m_storage_buffers module else 1),
             k_push_constant_bytes := (if m_push_constant_bytes module \<noteq> 0
                                       then m_push_constant_bytes module else 124),
             k_local_size_x := m_local_size_x module\<rparr>)"

definition sha256d_push :: "u32 list \<Rightarrow> u32 list \<Rightarrow> u64 \<Rightarrow> u32 \<Rightarrow> u32 \<Rightarrow> Sha256dPush" where
  "sha256d_push header target nonce_start n capacity =
     (let tail = map (\<lambda>i. header ! (16 + i)) [0..<3];
          midstate = sha256_midstate header;
          (advanced, sched) = sha256_advance_nonce_block midstate tail
      in \<lparr>sp_midstate = midstate, sp_advanced = advanced, sp_sched = sched,
          sp_target = map (\<lambda>i. target ! i) [0..<8], sp_nonce_start = ucast nonce_start,
          sp_count = n, sp_capacity = capacity\<rparr>)"

definition sha256d_prepare :: "Dispatch \<Rightarrow> nat \<Rightarrow> u8 list" where
  "sha256d_prepare dis capacity =
     (case (dis_header dis, dis_target dis) of
        (Some header, Some target) \<Rightarrow>
          if capacity < 124 then []
          else concat (map le32enc (sha256d_push_words
                 (sha256d_push header target (dis_nonce_start dis) (dis_count dis) (dis_capacity dis))))
      | _ \<Rightarrow> [])"

text \<open>The digest's bytes land in the caller's eight words, which is a little-endian read of them.\<close>

definition sha256d_hash :: "u32 list \<Rightarrow> u64 \<Rightarrow> u32 list" where
  "sha256d_hash header nonce =
     (let bytes = concat (map (\<lambda>i. be32enc (header ! i)) [0..<19]) @ be32enc (ucast nonce);
          digest = sha256d bytes
      in map (\<lambda>i. le32dec (take 4 (drop (i * 4) digest))) [0..<8])"

section \<open>shaders/common\<close>

definition bswap32 :: "u32 \<Rightarrow> u32" where
  "bswap32 x = drop_bit 24 x OR (drop_bit 8 x AND 0x0000ff00) OR (push_bit 8 x AND 0x00ff0000) OR push_bit 24 x"

text \<open>The buffer an invocation reports in, as the words the host will read.\<close>

definition probe_best :: "bool \<Rightarrow> bool \<Rightarrow> u32 \<Rightarrow> u32 list \<Rightarrow> u32 list" where
  "probe_best kProbeBest kCountReached top_word buf =
     (let buf = (if kProbeBest then buf[1 := min (buf ! 1) top_word] else buf)
      in if kCountReached then buf[2 := buf ! 2 + 1] else buf)"

definition emit_candidate64 :: "u32 \<Rightarrow> u32 \<Rightarrow> u32 \<Rightarrow> u32 list \<Rightarrow> u32 list \<Rightarrow> u32 list" where
  "emit_candidate64 capacity nonce_lo nonce_hi hash buf =
     (let slot = buf ! 0;
          buf = buf[0 := buf ! 0 + 1]
      in if capacity \<le> slot then buf
         else let base = 3 + unat (slot * 10);
                  buf = buf[base := nonce_lo];
                  buf = buf[base + 1 := nonce_hi]
              in for_up 8 (\<lambda>i buf. buf[base + 2 + i := hash ! i]) buf)"

definition emit_candidate :: "u32 \<Rightarrow> u32 \<Rightarrow> u32 list \<Rightarrow> u32 list \<Rightarrow> u32 list" where
  "emit_candidate capacity nonce hash buf = emit_candidate64 capacity nonce 0 hash buf"

section \<open>sha256d.comp\<close>

text \<open>A round, by the variables it writes: \<open>d\<close> and \<open>h\<close>.\<close>

definition sha256d_round ::
  "u32 \<Rightarrow> u32 \<Rightarrow> u32 \<Rightarrow> u32 \<Rightarrow> u32 \<Rightarrow> u32 \<Rightarrow> u32 \<Rightarrow> u32 \<Rightarrow> u32 \<Rightarrow> u32 \<Rightarrow> u32 \<times> u32" where
  "sha256d_round a b c d e f g h k w =
     (let t1 = h + big_s1 e + sha_ch e f g + k + w;
          t2 = big_s0 a + sha_maj a b c
      in (d + t1, t1 + t2))"

definition sha256d_round4 :: "nat \<Rightarrow> u32 list \<Rightarrow> sha_vars \<Rightarrow> sha_vars" where
  "sha256d_round4 i w v =
     (let (a, b, c, d, e, f, g, h) = v;
          (d, h) = sha256d_round a b c d e f g h (kSha256 ! i) (w ! i);
          (c, g) = sha256d_round h a b c d e f g (kSha256 ! (i + 1)) (w ! (i + 1));
          (b, f) = sha256d_round g h a b c d e f (kSha256 ! (i + 2)) (w ! (i + 2));
          (a, e) = sha256d_round f g h a b c d e (kSha256 ! (i + 3)) (w ! (i + 3))
      in (a, b, c, d, e, f, g, h))"

definition sha256d_round4_shifted :: "nat \<Rightarrow> u32 list \<Rightarrow> sha_vars \<Rightarrow> sha_vars" where
  "sha256d_round4_shifted i w v =
     (let (a, b, c, d, e, f, g, h) = v;
          (h, d) = sha256d_round e f g h a b c d (kSha256 ! i) (w ! i);
          (g, c) = sha256d_round d e f g h a b c (kSha256 ! (i + 1)) (w ! (i + 1));
          (f, b) = sha256d_round c d e f g h a b (kSha256 ! (i + 2)) (w ! (i + 2));
          (e, a) = sha256d_round b c d e f g h a (kSha256 ! (i + 3)) (w ! (i + 3))
      in (a, b, c, d, e, f, g, h))"

definition sha256d_round8 :: "nat \<Rightarrow> u32 list \<Rightarrow> sha_vars \<Rightarrow> sha_vars" where
  "sha256d_round8 i w v = sha256d_round4_shifted (i + 4) w (sha256d_round4 i w v)"

definition sha256d_rounds_to55 :: "u32 list \<Rightarrow> sha_vars \<Rightarrow> sha_vars" where
  "sha256d_rounds_to55 w v = fold (\<lambda>i. sha256d_round8 i w) [0, 8, 16, 24, 32, 40, 48] v"

definition sha256d_rounds_from4 :: "u32 list \<Rightarrow> sha_vars \<Rightarrow> sha_vars" where
  "sha256d_rounds_from4 w v =
     sha256d_round4 60 w (fold (\<lambda>i. sha256d_round8 i w) [4, 12, 20, 28, 36, 44, 52] v)"

text \<open>The schedule, word by word in place: \<open>from\<close> up to \<open>to\<close>.\<close>

definition sha256d_sched :: "nat \<Rightarrow> nat \<Rightarrow> u32 list \<Rightarrow> u32 list" where
  "sha256d_sched from to w = fold (\<lambda>i w. w[i := schedule_word w i]) [from..<to] w"

definition sha256d_first_words :: "u32 list \<Rightarrow> Sha256dPush \<Rightarrow> u32 \<Rightarrow> u32 list" where
  "sha256d_first_words w push nonce =
     w[4 := 0x80000000, 5 := 0, 6 := 0, 7 := 0, 8 := 0, 9 := 0, 10 := 0, 11 := 0,
       12 := 0, 13 := 0, 14 := 0, 15 := 0x280,
       16 := sp_sched push ! 0, 17 := sp_sched push ! 1, 18 := sp_sched push ! 2 + small_s0 nonce,
       19 := sp_sched push ! 3 + nonce]"

definition sha256d_first :: "u32 list \<Rightarrow> Sha256dPush \<Rightarrow> sha_vars \<Rightarrow> u32 list" where
  "sha256d_first w push v =
     (let (a, b, c, d, e, f, g, h) = sha256d_rounds_from4 w v
      in [sp_midstate push ! 0 + e, sp_midstate push ! 1 + f, sp_midstate push ! 2 + g, sp_midstate push ! 3 + h,
          sp_midstate push ! 4 + a, sp_midstate push ! 5 + b, sp_midstate push ! 6 + c, sp_midstate push ! 7 + d])"

definition sha256d_second_words :: "u32 list \<Rightarrow> u32 list \<Rightarrow> u32 list" where
  "sha256d_second_words w first =
     w[0 := first ! 0, 1 := first ! 1, 2 := first ! 2, 3 := first ! 3, 4 := first ! 4, 5 := first ! 5,
       6 := first ! 6, 7 := first ! 7, 8 := 0x80000000, 9 := 0, 10 := 0, 11 := 0, 12 := 0, 13 := 0,
       14 := 0, 15 := 0x100]"

text \<open>The comparison, from word \<open>n - 1\<close> down: whether it gets to the end without a return.\<close>

primrec sha256d_meets :: "nat \<Rightarrow> u32 list \<Rightarrow> u32 list \<Rightarrow> bool" where
  "sha256d_meets 0 state target = True"
| "sha256d_meets (Suc i) state target =
     (let word = bswap32 (state ! i)
      in if target ! i < word then False
         else if word < target ! i then True
         else sha256d_meets i state target)"

text \<open>
  One invocation that has a nonce: the digest word it offers the probe, and the digest it emits if it
  emits one.
\<close>

definition sha256d_digest :: "(nat \<Rightarrow> u32) \<Rightarrow> Sha256dPush \<Rightarrow> u32 \<Rightarrow> u32 \<times> u32 list option" where
  "sha256d_digest memory push nonce =
     (let w = map memory [0..<64];
          w = sha256d_sched 20 64 (sha256d_first_words w push nonce);
          v = (sp_advanced push ! 0 + nonce, sp_advanced push ! 1, sp_advanced push ! 2, sp_advanced push ! 3,
               sp_advanced push ! 4 + nonce, sp_advanced push ! 5, sp_advanced push ! 6, sp_advanced push ! 7);
          first = sha256d_first w push v;
          w = sha256d_sched 16 61 (sha256d_second_words w first);
          v = sha256d_round4 56 w (sha256d_rounds_to55 w (sha_vars_of kSha256IV));
          (a, b, c, d, e, f, g, h) = v;
          t60 = d + big_s1 a + sha_ch a b c + kSha256 ! 60 + w ! 60;
          top_word = bswap32 (kSha256IV ! 7 + h + t60)
      in if sp_target push ! 7 < top_word then (top_word, None)
         else
           let w = sha256d_sched 61 64 w;
               (a, b, c, d, e, f, g, h) = sha256d_round4_shifted 60 w v;
               state = [kSha256IV ! 0 + a, kSha256IV ! 1 + b, kSha256IV ! 2 + c, kSha256IV ! 3 + d,
                        kSha256IV ! 4 + e, kSha256IV ! 5 + f, kSha256IV ! 6 + g, kSha256IV ! 7 + h]
           in if sha256d_meets 8 state (sp_target push)
              then (top_word, Some (map (\<lambda>i. bswap32 (state ! i)) [0..<8])) else (top_word, None))"

definition sha256d_main ::
  "bool \<Rightarrow> bool \<Rightarrow> (nat \<Rightarrow> u32) \<Rightarrow> Sha256dPush \<Rightarrow> u32 \<Rightarrow> u32 list \<Rightarrow> u32 list" where
  "sha256d_main kProbeBest kCountReached memory push index buf =
     (if sp_count push \<le> index then buf
      else
        let nonce = sp_nonce_start push + index;
            (top_word, digest) = sha256d_digest memory push nonce;
            buf = probe_best kProbeBest kCountReached top_word buf
        in case digest of None \<Rightarrow> buf
           | Some hash \<Rightarrow> emit_candidate (sp_capacity push) nonce hash buf)"


section \<open>Lemmas: the rounds of the shader are the rounds\<close>

definition swap4 :: "sha_vars \<Rightarrow> sha_vars" where
  "swap4 v = (let (a, b, c, d, e, f, g, h) = v in (e, f, g, h, a, b, c, d))"

lemma sha_vars_cases:
  obtains a b c d e f g h where "(v :: sha_vars) = (a, b, c, d, e, f, g, h)"
  by (metis surj_pair)

lemma swap4_twice [simp]: "swap4 (swap4 v) = v"
  by (cases v rule: sha_vars_cases) (simp add: swap4_def)

lemma sha_round_macro:
  "sha256d_round a b c d e f g h k w = (d', h') \<Longrightarrow>
   sha_round k w (a, b, c, d, e, f, g, h) = (h', a, b, c, d', e, f, g)"
  by (auto simp: sha256d_round_def sha_round_def Let_def)

lemma sha_rounds_four:
  "sha_rounds i (i + 4) w v = sha_round (kSha256 ! (i + 3)) (w ! (i + 3)) (sha_round (kSha256 ! (i + 2)) (w ! (i + 2))
     (sha_round (kSha256 ! (i + 1)) (w ! (i + 1)) (sha_round (kSha256 ! i) (w ! i) v)))"
  by (simp add: sha_rounds_def eval_nat_numeral)

lemma sha256d_round4_rounds: "sha256d_round4 i w v = swap4 (sha_rounds i (i + 4) w v)"
proof -
  obtain a b c d e f g h where v: "v = (a, b, c, d, e, f, g, h)" by (rule sha_vars_cases)
  obtain d1 h1 where r1: "sha256d_round a b c d e f g h (kSha256 ! i) (w ! i) = (d1, h1)" by (metis surj_pair)
  obtain c1 g1 where r2: "sha256d_round h1 a b c d1 e f g (kSha256 ! (i + 1)) (w ! (i + 1)) = (c1, g1)" by (metis surj_pair)
  obtain b1 f1 where r3: "sha256d_round g1 h1 a b c1 d1 e f (kSha256 ! (i + 2)) (w ! (i + 2)) = (b1, f1)" by (metis surj_pair)
  obtain a1 e1 where r4: "sha256d_round f1 g1 h1 a b1 c1 d1 e (kSha256 ! (i + 3)) (w ! (i + 3)) = (a1, e1)" by (metis surj_pair)
  show ?thesis
    unfolding sha_rounds_four v
    by (simp add: sha_round_macro [OF r1] sha_round_macro [OF r2] sha_round_macro [OF r3] sha_round_macro [OF r4]
        sha256d_round4_def Let_def r1 r2 r3 r4 swap4_def del: One_nat_def add_2_eq_Suc')
qed

lemma sha256d_round4_shifted_rounds: "sha256d_round4_shifted i w v = sha_rounds i (i + 4) w (swap4 v)"
proof -
  obtain a b c d e f g h where v: "v = (a, b, c, d, e, f, g, h)" by (rule sha_vars_cases)
  obtain h1 d1 where r1: "sha256d_round e f g h a b c d (kSha256 ! i) (w ! i) = (h1, d1)" by (metis surj_pair)
  obtain g1 c1 where r2: "sha256d_round d1 e f g h1 a b c (kSha256 ! (i + 1)) (w ! (i + 1)) = (g1, c1)" by (metis surj_pair)
  obtain f1 b1 where r3: "sha256d_round c1 d1 e f g1 h1 a b (kSha256 ! (i + 2)) (w ! (i + 2)) = (f1, b1)" by (metis surj_pair)
  obtain e1 a1 where r4: "sha256d_round b1 c1 d1 e f1 g1 h1 a (kSha256 ! (i + 3)) (w ! (i + 3)) = (e1, a1)" by (metis surj_pair)
  show ?thesis
    unfolding sha_rounds_four v
    by (simp add: sha_round_macro [OF r1] sha_round_macro [OF r2] sha_round_macro [OF r3] sha_round_macro [OF r4]
        sha256d_round4_shifted_def Let_def r1 r2 r3 r4 swap4_def del: One_nat_def add_2_eq_Suc')
qed

lemma sha256d_round8_rounds: "sha256d_round8 i w v = sha_rounds i (i + 8) w v"
proof -
  have "sha_rounds (i + 4) (i + 4 + 4) w (sha_rounds i (i + 4) w v) = sha_rounds i (i + 8) w v"
    using sha_rounds_split [of i "i + 4" "i + 8" w v] by (simp add: add.assoc)
  then show ?thesis by (simp only: sha256d_round8_def sha256d_round4_rounds sha256d_round4_shifted_rounds swap4_twice)
qed

lemma rounds_chain: "sha_rounds j n w (sha_rounds i j w v) = sha_rounds i n w v" if "i \<le> j" "j \<le> n"
  using sha_rounds_split [OF that] by simp

lemma sha256d_rounds_to55_rounds: "sha256d_rounds_to55 w v = sha_rounds 0 56 w v"
  by (simp add: sha256d_rounds_to55_def sha256d_round8_rounds rounds_chain)

lemma sha256d_rounds_from4_rounds: "sha256d_rounds_from4 w v = swap4 (sha_rounds 4 64 w v)"
  by (simp add: sha256d_rounds_from4_def sha256d_round8_rounds sha256d_round4_rounds rounds_chain)

section \<open>Lemmas: the schedule in place\<close>

lemma length_sched [simp]: "length (sha256d_sched i j w) = length w"
proof (induction j)
  case (Suc j)
  then show ?case by (cases "i \<le> j") (simp_all add: sha256d_sched_def)
qed (simp add: sha256d_sched_def)

lemma sched_in_place:
  assumes "lo + 16 \<le> i" "i \<le> j" "j \<le> length w" "\<And>m. lo \<le> m \<Longrightarrow> m < i \<Longrightarrow> w ! m = sched_at B m" "lo \<le> m" "m < j"
  shows "sha256d_sched i j w ! m = sched_at B m"
  using assms(2,3,5,6)
proof (induction j arbitrary: m rule: dec_induct)
  case base
  then show ?case using assms(4) by (simp add: sha256d_sched_def)
next
  case (step n)
  let ?w = "sha256d_sched i n w"
  have e: "sha256d_sched i (Suc n) w = ?w[n := schedule_word ?w n]"
    using step.hyps(1) by (simp add: sha256d_sched_def)
  have p: "?w ! k = sched_at B k" if "lo \<le> k" "k < n" for k
    using step.IH [of k] that step.prems(1) by simp
  have "schedule_word ?w n = sched_at B n"
    using step.hyps(1) assms(1) by (simp add: schedule_word_def p sched_at_step [of n])
  then show ?case using step.prems p by (auto simp: e nth_list_update less_Suc_eq)
qed

section \<open>Lemmas: the two compressions\<close>

lemma list4: "length xs = 4 \<Longrightarrow> xs = [xs ! 0, xs ! 1, xs ! 2, xs ! 3]"
  by (rule nth_equalityI) (auto simp: nth_Cons' eval_nat_numeral less_Suc_eq)

lemma first_words_at:
  assumes "length w = 64" "sha256_advance_nonce_block state tail = (adv, sched)" "sp_sched push = sched" "4 \<le> m" "m < 20"
  shows "sha256d_first_words w push n ! m = sched_at (nonce_block tail n) m"
proof -
  have l: "length (nonce_block tail n) = 16" by (simp add: nonce_block_words)
  have early: "sched_at (nonce_block tail n) k =
      [tail ! 0, tail ! 1, tail ! 2, n, 0x80000000, 0, 0, 0, 0, 0, 0, 0, 0, 0, 0, 0x280] ! k" if "k < 16" for k
    using that by (simp add: sched_at_start nonce_block_words)
  have late: "sched_at (nonce_block tail n) (16 + i) = sched ! i + (if i = 2 then small_s0 n else if i = 3 then n else 0)"
    if "i < 4" for i
    using advance_nonce_block(2) [OF assms(2) that, of n] that by (simp add: nth_schedule [OF l])
  have last: "sched_at (nonce_block tail n) 16 = sched ! 0" "sched_at (nonce_block tail n) 17 = sched ! 1"
    "sched_at (nonce_block tail n) 18 = sched ! 2 + small_s0 n" "sched_at (nonce_block tail n) 19 = sched ! 3 + n"
    using late [of 0] late [of 1] late [of 2] late [of 3] by simp_all
  have "m = 4 \<or> m = 5 \<or> m = 6 \<or> m = 7 \<or> m = 8 \<or> m = 9 \<or> m = 10 \<or> m = 11 \<or> m = 12 \<or> m = 13 \<or> m = 14 \<or> m = 15 \<or>
      m = 16 \<or> m = 17 \<or> m = 18 \<or> m = 19" using assms(4,5) by presburger
  then show ?thesis
    by (elim disjE)
      (simp_all add: sha256d_first_words_def last early assms(1,3))
qed


lemma vars_eq:
  "sha_vars_of xs = (xs ! 0, xs ! 1, xs ! 2, xs ! 3, xs ! 4, xs ! 5, xs ! 6, xs ! 7)"
  by (simp add: sha_vars_of_def)

lemma list8: "length xs = 8 \<Longrightarrow> xs = [xs ! 0, xs ! 1, xs ! 2, xs ! 3, xs ! 4, xs ! 5, xs ! 6, xs ! 7]"
proof -
  assume "length xs = 8"
  then have "xs = map ((!) xs) [0..<8]" by (intro nth_equalityI) auto
  also have "\<dots> = [xs ! 0, xs ! 1, xs ! 2, xs ! 3, xs ! 4, xs ! 5, xs ! 6, xs ! 7]"
    by (simp add: upt_conv_Cons eval_nat_numeral)
  finally show ?thesis .
qed

lemma compress_vars:
  assumes "length s = 8" "sha_rounds 0 64 (schedule 64 B) (sha_vars_of s) = (a, b, c, d, e, f, g, h)"
  shows "sha_compress s B = [s ! 0 + a, s ! 1 + b, s ! 2 + c, s ! 3 + d, s ! 4 + e, s ! 5 + f, s ! 6 + g, s ! 7 + h]"
proof -
  have "\<exists>s0 s1 s2 s3 s4 s5 s6 s7. s = [s0, s1, s2, s3, s4, s5, s6, s7]"
    by (intro exI) (rule list8 [OF assms(1)])
  then obtain s0 s1 s2 s3 s4 s5 s6 s7 where s: "s = [s0, s1, s2, s3, s4, s5, s6, s7]" by blast
  show ?thesis using assms(2) unfolding sha_compress_def s by (simp add: list_of_vars_def)
qed

text \<open>The first compression, from where the host left it, is the one of the block with the nonce.\<close>

lemma sha256d_first_compress:
  assumes "length w = 64" "length (sp_midstate push) = 8"
    "sha256_advance_nonce_block (sp_midstate push) tail = (sp_advanced push, sp_sched push)"
  shows "sha256d_first (sha256d_sched 20 64 (sha256d_first_words w push n)) push
      (add_nonce n (sha_vars_of (sp_advanced push))) = sha_compress (sp_midstate push) (nonce_block tail n)"
proof -
  let ?w = "sha256d_sched 20 64 (sha256d_first_words w push n)" and ?W = "schedule 64 (nonce_block tail n)"
  have l: "length (nonce_block tail n) = 16" by (simp add: nonce_block_words)
  have lw: "length (sha256d_first_words w push n) = 64" by (simp add: sha256d_first_words_def assms(1))
  have at: "?w ! m = sched_at (nonce_block tail n) m" if "4 \<le> m" "m < 64" for m
    by (rule sched_in_place [where lo = 4]) (use that lw first_words_at [OF assms(1,3) refl] in simp_all)
  obtain a b c d e f g h where v: "sha_rounds 0 64 ?W (sha_vars_of (sp_midstate push)) = (a, b, c, d, e, f, g, h)"
    by (rule sha_vars_cases)
  have "sha_rounds 4 64 ?w (add_nonce n (sha_vars_of (sp_advanced push))) =
      sha_rounds 4 64 ?W (sha_rounds 0 4 ?W (sha_vars_of (sp_midstate push)))"
    unfolding advance_nonce_block(1) [OF assms(3)] by (rule sha_rounds_cong) (simp add: at nth_schedule [OF l])
  also have "\<dots> = (a, b, c, d, e, f, g, h)" by (simp add: rounds_chain v)
  finally have "sha256d_rounds_from4 ?w (add_nonce n (sha_vars_of (sp_advanced push))) = (e, f, g, h, a, b, c, d)"
    by (simp only: sha256d_rounds_from4_rounds) (simp add: swap4_def)
  then show ?thesis by (simp only: sha256d_first_def compress_vars [OF assms(2) v]) simp
qed

definition second_block :: "u32 list \<Rightarrow> u32 list" where
  "second_block first = first @ [0x80000000, 0, 0, 0, 0, 0, 0, 0x100]"

lemma second_words_at:
  assumes "length w = 64" "length first = 8" "m < 16"
  shows "sha256d_second_words w first ! m = sched_at (second_block first) m"
proof -
  have b: "second_block first = [first ! 0, first ! 1, first ! 2, first ! 3, first ! 4, first ! 5, first ! 6, first ! 7,
      0x80000000, 0, 0, 0, 0, 0, 0, 0x100]"
    by (subst second_block_def, subst list8 [OF assms(2)]) simp
  have "m = 0 \<or> m = 1 \<or> m = 2 \<or> m = 3 \<or> m = 4 \<or> m = 5 \<or> m = 6 \<or> m = 7 \<or> m = 8 \<or> m = 9 \<or> m = 10 \<or> m = 11 \<or>
      m = 12 \<or> m = 13 \<or> m = 14 \<or> m = 15" using assms(3) by presburger
  moreover have "sched_at (second_block first) m = [first ! 0, first ! 1, first ! 2, first ! 3, first ! 4, first ! 5,
      first ! 6, first ! 7, 0x80000000, 0, 0, 0, 0, 0, 0, 0x100] ! m"
    by (simp only: sched_at_start [OF assms(3)] b)
  ultimately show ?thesis
    by (elim disjE) (simp_all add: sha256d_second_words_def assms(1))
qed

lemma last_word_early:
  assumes "sha_rounds 0 60 W v = (a, b, c, d, e, f, g, h)" "sha_rounds 0 64 W v = (a', b', c', d', e', f', g', h')"
  shows "h' = d + (h + big_s1 e + sha_ch e f g + kSha256 ! 60 + W ! 60)"
proof -
  have "sha_rounds 0 64 W v = sha_rounds 60 64 W (sha_rounds 0 60 W v)" by (simp add: rounds_chain)
  also have "\<dots> = sha_round (kSha256 ! 63) (W ! 63) (sha_round (kSha256 ! 62) (W ! 62)
     (sha_round (kSha256 ! 61) (W ! 61) (sha_round (kSha256 ! 60) (W ! 60) (sha_rounds 0 60 W v))))"
    using sha_rounds_four [of 60 W "sha_rounds 0 60 W v"] by simp
  finally have e: "(a', b', c', d', e', f', g', h') = sha_round (kSha256 ! 63) (W ! 63) (sha_round (kSha256 ! 62) (W ! 62)
     (sha_round (kSha256 ! 61) (W ! 61) (sha_round (kSha256 ! 60) (W ! 60) (a, b, c, d, e, f, g, h))))"
    by (simp only: assms)
  have r: "\<exists>x y. sha_round k w (a, b, c, d, e, f, g, h) = (x, a, b, c, y, e, f, g)" for k w a b c d e f g h
    by (simp add: sha_round_def Let_def)
  obtain x1 where r1: "sha_round (kSha256 ! 60) (W ! 60) (a, b, c, d, e, f, g, h) =
      (x1, a, b, c, d + (h + big_s1 e + sha_ch e f g + kSha256 ! 60 + W ! 60), e, f, g)"
    by (simp add: sha_round_def Let_def)
  let ?y = "d + (h + big_s1 e + sha_ch e f g + kSha256 ! 60 + W ! 60)"
  obtain x2 y2 where r2: "sha_round (kSha256 ! 61) (W ! 61) (x1, a, b, c, ?y, e, f, g) = (x2, x1, a, b, y2, ?y, e, f)"
    using r by blast
  obtain x3 y3 where r3: "sha_round (kSha256 ! 62) (W ! 62) (x2, x1, a, b, y2, ?y, e, f) = (x3, x2, x1, a, y3, y2, ?y, e)"
    using r by blast
  obtain x4 y4 where r4: "sha_round (kSha256 ! 63) (W ! 63) (x3, x2, x1, a, y3, y2, ?y, e) = (x4, x3, x2, x1, y4, y3, y2, ?y)"
    using r by blast
  show ?thesis using e by (simp only: r1 r2 r3 r4 prod.inject)
qed


section \<open>Lemmas: the host's hash, in words\<close>

lemma padded_words:
  assumes "sha_padded data = concat (map be32enc (ws @ ws'))" "length ws = 16" "length ws' = 16"
  shows "sha256_full data = concat (map be32enc (sha_compress (sha_compress kSha256IV ws) ws'))"
proof -
  have l: "length (concat (map be32enc xs)) = 64" if "length xs = 16" for xs
    using that by (simp add: length_concat_be32enc)
  have "absorb_message kSha256IV (sha_padded data) = (sha_compress (sha_compress kSha256IV ws) ws', [])"
    using absorb_block [OF l [OF assms(2)], of kSha256IV "concat (map be32enc ws')"]
      absorb_block [OF l [OF assms(3)], of _ "[]"]
    by (simp add: assms(1) transform_words assms(2,3) absorb_short)
  then show ?thesis by (simp add: sha256_full_absorb(1) sha_output_bytes)
qed

lemma padded_words_one:
  assumes "sha_padded data = concat (map be32enc ws)" "length ws = 16"
  shows "sha256_full data = concat (map be32enc (sha_compress kSha256IV ws))"
proof -
  have l: "length (concat (map be32enc ws)) = 64" using assms(2) by (simp add: length_concat_be32enc)
  have "absorb_message kSha256IV (sha_padded data) = (sha_compress kSha256IV ws, [])"
    using absorb_block [OF l, of kSha256IV "[]"] by (simp add: assms(1) transform_words assms(2) absorb_short)
  then show ?thesis by (simp add: sha256_full_absorb(1) sha_output_bytes)
qed

lemma padding_zeros:
  "replicate 39 (0 :: u8) = [0, 0, 0, 0, 0, 0, 0, 0, 0, 0, 0, 0, 0, 0, 0, 0, 0, 0, 0, 0, 0, 0, 0, 0, 0, 0, 0, 0, 0, 0, 0, 0, 0, 0, 0, 0, 0, 0, 0]"
  "replicate 23 (0 :: u8) = [0, 0, 0, 0, 0, 0, 0, 0, 0, 0, 0, 0, 0, 0, 0, 0, 0, 0, 0, 0, 0, 0, 0]"
  "replicate 10 (0 :: u32) = [0, 0, 0, 0, 0, 0, 0, 0, 0, 0]"
  by (simp_all add: numeral_eq_Suc)

lemma padding_words:
  "be32enc 0x80000000 = [0x80, 0, 0, 0]" "be32enc 0 = [0, 0, 0, 0]" "be32enc 0x280 = [0, 0, 2, 0x80]"
  "be32enc 0x100 = [0, 0, 1, 0]" "be64_bytes 640 = [0, 0, 0, 0, 0, 0, 2, 0x80]" "be64_bytes 256 = [0, 0, 0, 0, 0, 0, 1, 0]"
  by (simp_all add: be32enc_def be64_bytes_def upt_conv_Cons)

lemma padding_bytes:
  "[0x80] @ replicate 39 0 @ be64_bytes 640 = concat (map be32enc ([0x80000000] @ replicate 10 0 @ [0x280]))"
  "[0x80] @ replicate 23 0 @ be64_bytes 256 = concat (map be32enc [0x80000000, 0, 0, 0, 0, 0, 0, 0x100])"
  by (simp_all only: padding_zeros padding_words append.simps list.map concat.simps)

lemma header_words_20:
  "map (\<lambda>i. header ! i) [0..<19] @ [nonce] @ [0x80000000] @ replicate 10 0 @ [0x280] =
   map ((!) header) [0..<16] @ nonce_block (map (\<lambda>i. header ! (16 + i)) [0..<3]) nonce"
  by (simp add: nonce_block_def upt_conv_Cons eval_nat_numeral)

lemma sha256d_hash_compress:
  "sha256d_hash header nonce =
     map (\<lambda>s. le32dec (be32enc s)) (sha_compress kSha256IV (second_block
       (sha_compress (sha256_midstate header) (nonce_block (map (\<lambda>i. header ! (16 + i)) [0..<3]) (ucast nonce)))))"
proof -
  let ?tail = "map (\<lambda>i. header ! (16 + i)) [0..<3]" and ?n = "ucast nonce :: u32"
  define data where "data = concat (map (\<lambda>i. be32enc (header ! i)) [0..<19]) @ be32enc ?n"
  define first where "first = sha_compress (sha256_midstate header) (nonce_block ?tail ?n)"
  have d: "data = concat (map be32enc (map (\<lambda>i. header ! i) [0..<19] @ [?n]))"
    by (simp add: data_def o_def)
  have len: "length data = 80" unfolding d by (simp only: length_concat_be32enc) simp
  have "sha_padded data = data @ [0x80] @ replicate 39 0 @ be64_bytes 640"
    by (simp add: sha_padded_def len)
  also have "\<dots> = concat (map be32enc ((map (\<lambda>i. header ! i) [0..<19] @ [?n]) @ ([0x80000000] @ replicate 10 0 @ [0x280])))"
    unfolding padding_bytes(1) d by (simp only: map_append concat_append)
  also have "\<dots> = concat (map be32enc (map ((!) header) [0..<16] @ nonce_block ?tail ?n))"
    by (simp only: append_assoc header_words_20)
  finally have p: "sha_padded data = concat (map be32enc (map ((!) header) [0..<16] @ nonce_block ?tail ?n))" .
  have one: "sha256_full data = concat (map be32enc first)"
    unfolding first_def midstate_compress by (rule padded_words [OF p]) (simp_all add: nonce_block_words)
  have l: "length first = 8" by (simp add: first_def midstate_compress)
  have "sha_padded (sha256_full data) = concat (map be32enc first) @ [0x80] @ replicate 23 0 @ be64_bytes 256"
    by (simp add: sha_padded_def one length_concat_be32enc l)
  also have "\<dots> = concat (map be32enc (second_block first))"
    unfolding padding_bytes(2) second_block_def by (simp only: map_append concat_append)
  finally have two: "sha256d data = concat (map be32enc (sha_compress kSha256IV (second_block first)))"
    unfolding sha256d_def by (rule padded_words_one) (simp add: second_block_def l)
  have c: "length (sha_compress kSha256IV (second_block first)) = 8" by simp
  have "sha256d_hash header nonce =
      map (\<lambda>i. le32dec (take 4 (drop (i * 4) (concat (map be32enc (sha_compress kSha256IV (second_block first))))))) [0..<8]"
    by (simp only: sha256d_hash_def Let_def data_def [symmetric] two)
  also have "\<dots> = map (\<lambda>i. le32dec (be32enc (sha_compress kSha256IV (second_block first) ! i))) [0..<8]"
  proof (rule map_cong [OF refl])
    fix i :: nat assume "i \<in> set [0..<8]"
    then have i: "i < length (map be32enc (sha_compress kSha256IV (second_block first)))" by simp
    have "length x = 4" if "x \<in> set (map be32enc (sha_compress kSha256IV (second_block first)))" for x
      using that by fastforce
    from concat_block [OF this i]
    show "le32dec (take 4 (drop (i * 4) (concat (map be32enc (sha_compress kSha256IV (second_block first)))))) =
        le32dec (be32enc (sha_compress kSha256IV (second_block first) ! i))"
      using i by simp
  qed
  also have "\<dots> = map (\<lambda>s. le32dec (be32enc s)) (map ((!) (sha_compress kSha256IV (second_block first))) [0..<8])"
    by (simp only: map_map o_def)
  also have "map ((!) (sha_compress kSha256IV (second_block first))) [0..<8] = sha_compress kSha256IV (second_block first)"
    using map_nth [of "sha_compress kSha256IV (second_block first)"] c by (simp only:)
  finally show ?thesis by (simp only: first_def)
qed

lemma bswap32_bytes: "bswap32 x = le32dec (be32enc x)"
proof -
  have "le32dec (be32enc x) = join4 (ucast (drop_bit 24 x)) (ucast (drop_bit 16 x)) (ucast (drop_bit 8 x)) (ucast x)"
    by (simp add: le32dec_def be32enc_def join4_def)
  moreover have "drop_bit 8 x AND 0x0000ff00 = push_bit 8 (take_bit 8 (drop_bit 16 x))"
  proof -
    have c: "(0x0000ff00 :: u32) = push_bit 8 (mask 8)" by (simp add: mask_eq_exp_minus_1)
    show ?thesis unfolding c by (rule bit_word_eqI) (auto simp: bit_simps)
  qed
  moreover have "push_bit 8 x AND 0x00ff0000 = push_bit 16 (take_bit 8 (drop_bit 8 x))"
  proof -
    have c: "(0x00ff0000 :: u32) = push_bit 16 (mask 8)" by (simp add: mask_eq_exp_minus_1)
    show ?thesis unfolding c by (rule bit_word_eqI) (auto simp: bit_simps)
  qed
  ultimately have e: "bswap32 x = drop_bit 24 x OR push_bit 8 (take_bit 8 (drop_bit 16 x)) OR
      push_bit 16 (take_bit 8 (drop_bit 8 x)) OR push_bit 24 x"
    "le32dec (be32enc x) = join4 (ucast (drop_bit 24 x)) (ucast (drop_bit 16 x)) (ucast (drop_bit 8 x)) (ucast x)"
    by (simp_all only: bswap32_def)
  have out: "\<not> bit x m" if "32 \<le> m" for m using that bit_imp_le_length [of x m] by auto
  show ?thesis
  proof (rule bit_word_eqI)
    fix n assume "n < LENGTH(32)"
    then consider "n < 8" | "8 \<le> n" "n < 16" | "16 \<le> n" "n < 24" | "24 \<le> n" "n < 32" by fastforce
    then show "bit (bswap32 x) n = bit (le32dec (be32enc x)) n"
    proof cases
      case 2
      then have "16 + (n - 8) = 8 + n" by linarith
      then show ?thesis using 2 out by (simp add: e bit_simps bit_join4)
    next
      case 3
      then have "8 + (n - 16) = n - 8" "\<not> n - 8 < 8" by linarith+
      then show ?thesis using 3 out by (simp add: e bit_simps bit_join4)
    next
      case 4
      then have "\<not> n - 16 < 8" "n - 24 < 8" by linarith+
      then show ?thesis using 4 out by (simp add: e bit_simps bit_join4)
    qed (use out in \<open>simp add: e bit_simps bit_join4\<close>)
  qed
qed

lemma sha256d_meets_fulltest:
  "n \<le> length state \<Longrightarrow> sha256d_meets n state target = fulltest_from n (map bswap32 state) target"
  by (induction n) (simp_all add: Let_def)


lemma length_first_words [simp]: "length (sha256d_first_words w push n) = length w"
  by (simp add: sha256d_first_words_def)

lemma length_second_words [simp]: "length (sha256d_second_words w first) = length w"
  by (simp add: sha256d_second_words_def)

text \<open>
  Claim C23. The shader is the reference. Whatever is in its local memory, an invocation of
  \<^verbatim>\<open>sha256d.comp\<close> given the block the host prepares for a header computes, for every nonce, the hash
  the host checks a share with: it offers the probe that hash's top word, and emits a candidate if and
  only if the host's comparison accepts the hash, with exactly its eight words. Starting at round 4
  from what the host worked out at a nonce of zero, stopping four rounds early and screening on one
  word lose nothing and let nothing through.
\<close>

theorem sha256d_shader_is_reference:
  "sha256d_digest memory (sha256d_push header target nonce_start n capacity) nonce =
     (sha256d_hash header (ucast nonce) ! 7,
      if fst (verify sha256d_hash header (ucast nonce) target) then Some (sha256d_hash header (ucast nonce)) else None)"
proof -
  define push where "push = sha256d_push header target nonce_start n capacity"
  define w where "w = map memory [0..<64]"
  have lw0: "length w = 64" by (simp add: w_def)
  let ?tail = "map (\<lambda>i. header ! (16 + i)) [0..<3]"
  obtain adv sched where a: "sha256_advance_nonce_block (sha256_midstate header) ?tail = (adv, sched)" by (metis surj_pair)
  have p: "sp_midstate push = sha256_midstate header" "sp_advanced push = adv" "sp_sched push = sched"
    "sp_target push = map ((!) target) [0..<8]"
    by (simp_all add: push_def sha256d_push_def a Let_def)
  have lm: "length (sp_midstate push) = 8" by (simp add: p midstate_compress)
  define w1 where "w1 = sha256d_sched 20 64 (sha256d_first_words w push nonce)"
  define first where "first = sha256d_first w1 push (add_nonce nonce (sha_vars_of (sp_advanced push)))"
  have f: "first = sha_compress (sha256_midstate header) (nonce_block ?tail nonce)"
    using sha256d_first_compress [OF lw0 lm, of ?tail nonce] a unfolding first_def w1_def by (simp only: p)
  have lf: "length first = 8" by (simp add: f midstate_compress)
  define w2 where "w2 = sha256d_sched 16 61 (sha256d_second_words w1 first)"
  define w3 where "w3 = sha256d_sched 61 64 w2"
  let ?B = "second_block first" and ?IV = "sha_vars_of kSha256IV"
  have lB: "length ?B = 16" by (simp add: second_block_def lf)
  have lw: "length w1 = 64" "length w2 = 64" by (simp_all add: w1_def w2_def lw0)
  have w2: "w2 ! m = sched_at ?B m" if "m < 61" for m
    unfolding w2_def by (rule sched_in_place [where lo = 0]) (use that lw second_words_at [OF lw(1) lf] in simp_all)
  have w3: "w3 ! m = sched_at ?B m" if "m < 64" for m
    unfolding w3_def by (rule sched_in_place [where lo = 0]) (use that lw w2 in simp_all)
  obtain a b c d e f g h where v60: "sha_rounds 0 60 (schedule 64 ?B) ?IV = (a, b, c, d, e, f, g, h)" by (rule sha_vars_cases)
  obtain a' b' c' d' e' f' g' h' where v64: "sha_rounds 0 64 (schedule 64 ?B) ?IV = (a', b', c', d', e', f', g', h')"
    by (rule sha_vars_cases)
  have W: "schedule 64 ?B ! m = sched_at ?B m" if "m < 64" for m using that by (simp add: nth_schedule [OF lB])
  have "sha_rounds 0 60 w2 ?IV = sha_rounds 0 60 (schedule 64 ?B) ?IV"
    by (rule sha_rounds_cong) (simp add: W w2)
  then have r60: "sha256d_round4 56 w2 (sha256d_rounds_to55 w2 ?IV) = (e, f, g, h, a, b, c, d)"
    using rounds_chain [of 0 56 60 w2 ?IV] v60
    by (simp add: sha256d_round4_rounds sha256d_rounds_to55_rounds swap4_def)
  have "sha_rounds 60 64 w3 (sha_rounds 0 60 (schedule 64 ?B) ?IV) = sha_rounds 60 64 (schedule 64 ?B) (sha_rounds 0 60 (schedule 64 ?B) ?IV)"
    by (rule sha_rounds_cong) (simp add: W w3)
  then have r64: "sha256d_round4_shifted 60 w3 (e, f, g, h, a, b, c, d) = (a', b', c', d', e', f', g', h')"
    using rounds_chain [of 0 60 64 "schedule 64 ?B" ?IV] v60 v64
    by (simp add: sha256d_round4_shifted_rounds swap4_def)
  have state: "sha_compress kSha256IV ?B = [kSha256IV ! 0 + a', kSha256IV ! 1 + b', kSha256IV ! 2 + c', kSha256IV ! 3 + d',
      kSha256IV ! 4 + e', kSha256IV ! 5 + f', kSha256IV ! 6 + g', kSha256IV ! 7 + h']"
    by (rule compress_vars [OF length_kSha256IV v64])
  have top: "kSha256IV ! 7 + d + (h + big_s1 e + sha_ch e f g + kSha256 ! 60 + w2 ! 60) = sha_compress kSha256IV ?B ! 7"
    using last_word_early [OF v60 v64] by (simp add: state W w2 add.assoc)
  have hash: "sha256d_hash header (ucast nonce) = map bswap32 (sha_compress kSha256IV ?B)"
  proof -
    have "(ucast (ucast nonce :: u64) :: u32) = nonce" by (rule bit_word_eqI) (simp add: bit_simps)
    moreover have "bswap32 = (\<lambda>s. le32dec (be32enc s))" by (rule ext) (rule bswap32_bytes)
    ultimately show ?thesis by (simp only: sha256d_hash_compress f)
  qed
  have l8: "length (sha_compress kSha256IV ?B) = 8" by simp
  have m8: "map (\<lambda>i. bswap32 (xs ! i)) [0..<8] = map bswap32 xs" if "length xs = 8" for xs
    using that by (intro nth_equalityI) simp_all
  have ft: "fulltest_from i hs (map ((!) target) [0..<8]) = fulltest_from i hs target" if "i \<le> 8" for i hs
    using that by (induction i) simp_all
  have d: "sha256d_digest memory push nonce =
     (let top_word = bswap32 (sha_compress kSha256IV ?B ! 7)
      in if sp_target push ! 7 < top_word then (top_word, None)
         else if sha256d_meets 8 (sha_compress kSha256IV ?B) (sp_target push)
         then (top_word, Some (map (\<lambda>i. bswap32 (sha_compress kSha256IV ?B ! i)) [0..<8])) else (top_word, None))"
  proof -
    have v: "(sp_advanced push ! 0 + nonce, sp_advanced push ! 1, sp_advanced push ! 2, sp_advanced push ! 3,
        sp_advanced push ! 4 + nonce, sp_advanced push ! 5, sp_advanced push ! 6, sp_advanced push ! 7)
      = add_nonce nonce (sha_vars_of (sp_advanced push))"
      by (simp add: add_nonce_def sha_vars_of_def)
    show ?thesis
      unfolding sha256d_digest_def Let_def v w_def [symmetric] w1_def [symmetric] first_def [symmetric] w2_def [symmetric] r60
        prod.case top w3_def [symmetric] r64 state [symmetric] ..
  qed
  have meets: "sha256d_meets 8 (sha_compress kSha256IV ?B) (sp_target push) = fulltest (sha256d_hash header (ucast nonce)) target"
    using sha256d_meets_fulltest [of 8 "sha_compress kSha256IV ?B" "sp_target push"] ft [of 8]
    by (simp only: fulltest_def hash p l8 order_refl)
  have screen: "\<not> fulltest (sha256d_hash header (ucast nonce)) target" if "sp_target push ! 7 < bswap32 (sha_compress kSha256IV ?B ! 7)"
  proof -
    have "fulltest_from (Suc 7) (sha256d_hash header (ucast nonce)) target = False"
      using that l8 by (simp only: fulltest_from.simps) (simp add: hash p)
    then show ?thesis by (simp add: fulltest_def)
  qed
  have "sha256d_digest memory push nonce =
     (sha256d_hash header (ucast nonce) ! 7,
      if fulltest (sha256d_hash header (ucast nonce)) target then Some (sha256d_hash header (ucast nonce)) else None)"
    unfolding d Let_def meets m8 [OF l8] hash [symmetric] using screen l8 by (auto simp: hash)
  then show ?thesis by (simp only: push_def verify_def Let_def fst_conv)
qed

end
