(* ===== verification/Sha256d_Kernel.thy ===== *)
theory Sha256d_Kernel
  imports Sha256d Kernel_Queue
begin

text \<open>
  A dispatch of \<^verbatim>\<open>sha256d.comp\<close> as a Vulkan kernel runs it: every invocation once, in whatever order
  the device takes them, reporting in the one buffer of the slot; and what the host reads from it.
\<close>

section \<open>The shader of a kernel\<close>

definition push_of_bytes :: "u8 list \<Rightarrow> Sha256dPush" where
  "push_of_bytes push =
     (let word = \<lambda>i. le32dec (take 4 (drop (i * 4) push))
      in \<lparr>sp_midstate = map word [0..<8], sp_advanced = map (\<lambda>i. word (8 + i)) [0..<8],
          sp_sched = map (\<lambda>i. word (16 + i)) [0..<4], sp_target = map (\<lambda>i. word (20 + i)) [0..<8],
          sp_nonce_start = word 28, sp_count = word 29, sp_capacity = word 30\<rparr>)"

text \<open>
  \<open>order n\<close> is the order in which \<open>n\<close> invocations get to the buffer, \<open>memory i\<close> what the local memory
  of the \<open>i\<close>-th holds.
\<close>

definition sha256d_shader :: "(nat \<Rightarrow> nat list) \<Rightarrow> (nat \<Rightarrow> nat \<Rightarrow> u32) \<Rightarrow> shader" where
  "sha256d_shader order memory desc groups push uniform results j =
     fold (\<lambda>i. sha256d_main (de_probe_best desc) (de_count_reached desc) (memory i) (push_of_bytes push) (of_nat i))
       (order (unat groups * unat (de_local_size_x desc))) results ! j"

definition sha256d_ops :: "'p table_source \<Rightarrow> 'p algorithm_ops" where
  "sha256d_ops table =
     \<lparr>al_prepare = sha256d_prepare, al_prepare_uniform = (\<lambda>_ _. []), al_program_values = (\<lambda>_ _. []),
      al_next_program_key = (\<lambda>_. 0), al_table = table\<rparr>"

section \<open>Lemmas: the push block\<close>

lemma push_of_words:
  assumes "length ws = 31" "i < 31"
  shows "le32dec (take 4 (drop (i * 4) (concat (map le32enc ws)))) = ws ! i"
proof -
  have "take 4 (drop (i * 4) (concat (map le32enc ws))) = map le32enc ws ! i"
    by (rule concat_block) (use assms in auto)
  then show ?thesis using assms by simp
qed

lemma push_of_push_words:
  assumes "length (sp_midstate b) = 8" "length (sp_advanced b) = 8" "length (sp_sched b) = 4" "length (sp_target b) = 8"
  shows "push_of_bytes (concat (map le32enc (sha256d_push_words b))) = b"
proof -
  let ?ws = "sha256d_push_words b"
  have l: "length ?ws = 31" using assms by (simp add: sha256d_push_words_def)
  have n: "?ws ! i = (if i < 8 then sp_midstate b ! i else if i < 16 then sp_advanced b ! (i - 8)
      else if i < 20 then sp_sched b ! (i - 16) else if i < 28 then sp_target b ! (i - 20)
      else [sp_nonce_start b, sp_count b, sp_capacity b] ! (i - 28))" for i
    using assms by (auto simp: sha256d_push_words_def nth_append)
  have m: "map (\<lambda>i. le32dec (take 4 (drop ((k + i) * 4) (concat (map le32enc ?ws))))) [0..<length xs] = xs"
    if "k + length xs \<le> 31" "\<And>i. i < length xs \<Longrightarrow> ?ws ! (k + i) = xs ! i" for k and xs :: "u32 list"
  proof (rule nth_equalityI)
    fix i assume "i < length (map (\<lambda>i. le32dec (take 4 (drop ((k + i) * 4) (concat (map le32enc ?ws))))) [0..<length xs])"
    then show "map (\<lambda>i. le32dec (take 4 (drop ((k + i) * 4) (concat (map le32enc ?ws))))) [0..<length xs] ! i = xs ! i"
      using that push_of_words [OF l, of "k + i"] by (simp del: add_mult_distrib)
  qed simp
  have "map (\<lambda>i. le32dec (take 4 (drop (i * 4) (concat (map le32enc ?ws))))) [0..<8] = sp_midstate b"
    using m [of 0 "sp_midstate b"] assms(1) by (simp add: n)
  moreover have "map (\<lambda>i. le32dec (take 4 (drop ((8 + i) * 4) (concat (map le32enc ?ws))))) [0..<8] = sp_advanced b"
    using m [of 8 "sp_advanced b"] assms(2) by (simp add: n)
  moreover have "map (\<lambda>i. le32dec (take 4 (drop ((16 + i) * 4) (concat (map le32enc ?ws))))) [0..<4] = sp_sched b"
    using m [of 16 "sp_sched b"] assms(3) by (simp add: n)
  moreover have "map (\<lambda>i. le32dec (take 4 (drop ((20 + i) * 4) (concat (map le32enc ?ws))))) [0..<8] = sp_target b"
    using m [of 20 "sp_target b"] assms(4) by (simp add: n)
  moreover have "le32dec (take 4 (drop (28 * 4) (concat (map le32enc ?ws)))) = sp_nonce_start b"
    "le32dec (take 4 (drop (29 * 4) (concat (map le32enc ?ws)))) = sp_count b"
    "le32dec (take 4 (drop (30 * 4) (concat (map le32enc ?ws)))) = sp_capacity b"
    using push_of_words [OF l, of 28] push_of_words [OF l, of 29] push_of_words [OF l, of 30] by (simp_all add: n)
  ultimately show ?thesis
    by (intro Sha256dPush.equality) (simp_all only: push_of_bytes_def Let_def Sha256dPush.simps, simp)
qed

lemma sha256d_push_shape:
  "length (sp_midstate (sha256d_push header target start n cap)) = 8"
  "length (sp_advanced (sha256d_push header target start n cap)) = 8"
  "length (sp_sched (sha256d_push header target start n cap)) = 4"
  "length (sp_target (sha256d_push header target start n cap)) = 8"
  "sp_nonce_start (sha256d_push header target start n cap) = ucast start"
  "sp_count (sha256d_push header target start n cap) = n"
  "sp_capacity (sha256d_push header target start n cap) = cap"
proof -
  obtain adv sched where a: "sha256_advance_nonce_block (sha256_midstate header) (map (\<lambda>i. header ! (16 + i)) [0..<3]) = (adv, sched)"
    by (metis surj_pair)
  note l = advance_nonce_block(3,4) [OF a]
  have m: "length (sha256_midstate header) = 8" by (simp add: midstate_compress)
  show "length (sp_midstate (sha256d_push header target start n cap)) = 8"
    "length (sp_advanced (sha256d_push header target start n cap)) = 8"
    "length (sp_sched (sha256d_push header target start n cap)) = 4"
    "length (sp_target (sha256d_push header target start n cap)) = 8"
    "sp_nonce_start (sha256d_push header target start n cap) = ucast start"
    "sp_count (sha256d_push header target start n cap) = n"
    "sp_capacity (sha256d_push header target start n cap) = cap"
    by (simp_all add: sha256d_push_def a l m Let_def)
qed

lemma prepare_push:
  "push_of_bytes (sha256d_prepare (dispatch_job header target start n) 128) =
     sha256d_push header target start n (of_nat kMaxCandidates)"
  using push_of_push_words [OF sha256d_push_shape(1-4)] by (simp add: sha256d_prepare_def dispatch_job_def)

section \<open>Lemmas: reporting\<close>

lemma nth_for_up_block:
  assumes "c + n \<le> length b"
  shows "for_up n (\<lambda>i b. b[c + i := f i]) b ! j = (if c \<le> j \<and> j < c + n then f (j - c) else b ! j)"
    "length (for_up n (\<lambda>i b. b[c + i := f i]) b) = length b"
proof -
  have len: "length (for_up m (\<lambda>i b. b[c + i := f i]) b) = length b" for m
    by (induction m) (simp_all add: for_up_Suc)
  then show "length (for_up n (\<lambda>i b. b[c + i := f i]) b) = length b" .
  show "for_up n (\<lambda>i b. b[c + i := f i]) b ! j = (if c \<le> j \<and> j < c + n then f (j - c) else b ! j)"
    using assms
  proof (induction n)
    case (Suc n)
    then show ?case by (auto simp: for_up_Suc nth_list_update len)
  qed auto
qed

lemma emit_nth:
  assumes "length buf = kResultWords" "buf ! 0 < of_nat kMaxCandidates" "length hash = 8"
  defines "base \<equiv> 3 + unat (buf ! 0) * 10"
  shows "emit_candidate (of_nat kMaxCandidates) nonce hash buf ! j =
     (if j = 0 then buf ! 0 + 1
      else if base \<le> j \<and> j < base + 10 then (nonce # 0 # hash) ! (j - base) else buf ! j)"
    "length (emit_candidate (of_nat kMaxCandidates) nonce hash buf) = kResultWords"
proof -
  have s: "unat (buf ! 0) < 32" using assms(2) by (simp add: word_less_nat_alt kMaxCandidates_def)
  have "unat (buf ! 0 * 10) = unat (buf ! 0) * 10" using s by (subst unat_mult_exact) simp_all
  then have b: "3 + unat (buf ! 0 * 10) = base" by (simp add: base_def)
  have l: "base + 10 \<le> length buf" using s by (simp add: base_def assms(1) result_layout)
  have b0: "3 \<le> base" by (simp add: base_def)
  let ?b = "buf[0 := buf ! 0 + 1, base := nonce, base + 1 := 0]"
  have e: "emit_candidate (of_nat kMaxCandidates) nonce hash buf = for_up 8 (\<lambda>i buf. buf[base + 2 + i := hash ! i]) ?b"
  proof -
    have "\<not> of_nat kMaxCandidates \<le> buf ! 0" using assms(2) by (simp only: not_le)
    then show ?thesis by (simp only: emit_candidate_def emit_candidate64_def Let_def if_False b)
  qed
  have n: "base + 2 + 8 \<le> length ?b" using l by simp
  note f = nth_for_up_block [OF n, of "\<lambda>i. hash ! i", folded e]
  have "0 < length buf" by (simp add: assms(1) result_layout)
  then have q: "?b ! j = (if j = 0 then buf ! 0 + 1 else if j = base then nonce else if j = base + 1 then 0 else buf ! j)"
    using l b0 by (auto simp: nth_list_update)
  show "emit_candidate (of_nat kMaxCandidates) nonce hash buf ! j =
     (if j = 0 then buf ! 0 + 1
      else if base \<le> j \<and> j < base + 10 then (nonce # 0 # hash) ! (j - base) else buf ! j)"
  proof (cases "base + 2 \<le> j \<and> j < base + 2 + 8")
    case True
    then obtain m where m: "j = base + 2 + m" "m < 8" by (metis le_Suc_ex add_less_cancel_left)
    then show ?thesis using b0 by (simp only: f(1)) simp
  next
    case False
    then have "emit_candidate (of_nat kMaxCandidates) nonce hash buf ! j = ?b ! j" by (simp only: f(1) if_False)
    then show ?thesis using False b0 unfolding q by (auto simp: nth_Cons')
  qed
  show "length (emit_candidate (of_nat kMaxCandidates) nonce hash buf) = kResultWords"
    using f(2) assms(1) by simp
qed

lemma emit_full:
  assumes "of_nat kMaxCandidates \<le> buf ! 0"
  shows "emit_candidate (of_nat kMaxCandidates) nonce hash buf = buf[0 := buf ! 0 + 1]"
  using assms by (simp add: emit_candidate_def emit_candidate64_def Let_def)

section \<open>Lemmas: one invocation after another\<close>

text \<open>
  What the invocations of a dispatch are about: the nonce of each, its hash, and whether the host
  accepts it.
\<close>

definition nonce_of :: "u64 \<Rightarrow> nat \<Rightarrow> u32" where
  "nonce_of start i = ucast start + of_nat i"

definition found_at :: "u32 list \<Rightarrow> u64 \<Rightarrow> nat \<Rightarrow> Solution" where
  "found_at header start i =
     \<lparr>s_nonce = ucast (nonce_of start i), s_hash = sha256d_hash header (ucast (nonce_of start i))\<rparr>"

definition accepted :: "u32 list \<Rightarrow> u32 list \<Rightarrow> u64 \<Rightarrow> nat \<Rightarrow> bool" where
  "accepted header target start i \<longleftrightarrow> fst (verify sha256d_hash header (ucast (nonce_of start i)) target)"

definition reported :: "u32 list \<Rightarrow> u32 list \<Rightarrow> u64 \<Rightarrow> u32 \<Rightarrow> nat list \<Rightarrow> nat list" where
  "reported header target start n is = filter (\<lambda>i. i < unat n \<and> accepted header target start i) is"

definition buffer_after ::
  "bool \<Rightarrow> bool \<Rightarrow> u32 list \<Rightarrow> u32 list \<Rightarrow> u64 \<Rightarrow> u32 \<Rightarrow> nat list \<Rightarrow> u32 list \<Rightarrow> bool" where
  "buffer_after probe counting header target start n is buf \<longleftrightarrow>
     (let hits = reported header target start n is; run = filter (\<lambda>i. i < unat n) is
      in length buf = kResultWords \<and> unat (buf ! 0) = length hits \<and>
         (\<forall>s < min (length hits) kMaxCandidates. candidate_at buf s = found_at header start (hits ! s)) \<and>
         buf ! 1 = (if probe then fold (\<lambda>i. min (s_hash (found_at header start i) ! 7)) run 0xffffffff else 0xffffffff) \<and>
         buf ! 2 = (if counting then of_nat (length run) else 0))"

lemma candidate_at_cong:
  assumes "length b = length b'" "s < kMaxCandidates" "length b = kResultWords"
    "\<And>j. 3 + s * 10 \<le> j \<Longrightarrow> j < 3 + s * 10 + 10 \<Longrightarrow> b ! j = b' ! j"
  shows "candidate_at b s = candidate_at b' s"
proof -
  have "take 10 (drop (3 + s * 10) b) = take 10 (drop (3 + s * 10) b')"
    by (rule nth_equalityI) (use assms in \<open>simp_all add: result_layout\<close>)
  then have t: "take 8 (drop 2 (take 10 (drop (3 + s * 10) b))) = take 8 (drop 2 (take 10 (drop (3 + s * 10) b')))"
    by simp
  have "b ! (3 + s * 10) = b' ! (3 + s * 10)" "b ! (3 + s * 10 + 1) = b' ! (3 + s * 10 + 1)"
    by (rule assms(4), simp, simp)+
  then show ?thesis
    using t assms(1-3) by (simp add: candidate_at_def Let_def result_layout drop_take min_def)
qed

lemma probe_best_spec:
  assumes "length buf = kResultWords"
  shows "length (probe_best p c w buf) = kResultWords"
    "probe_best p c w buf ! 1 = (if p then min (buf ! 1) w else buf ! 1)"
    "probe_best p c w buf ! 2 = (if c then buf ! 2 + 1 else buf ! 2)"
    "j \<noteq> 1 \<Longrightarrow> j \<noteq> 2 \<Longrightarrow> probe_best p c w buf ! j = buf ! j"
  using assms by (simp_all add: probe_best_def Let_def result_layout)

lemma length_sha256d_hash [simp]: "length (sha256d_hash header nonce) = 8"
  by (simp add: sha256d_hash_def Let_def)

lemma main_digest:
  assumes "i < 2 ^ 32"
  shows "sha256d_main p c memory (sha256d_push header target start n cap) (of_nat i) buf =
     (if unat n \<le> i then buf
      else let buf = probe_best p c (s_hash (found_at header start i) ! 7) buf
           in if accepted header target start i
              then emit_candidate cap (nonce_of start i) (s_hash (found_at header start i)) buf else buf)"
proof -
  have "unat (of_nat i :: u32) = i" using assms by (intro unat_of_nat_small) simp
  then have "(n \<le> of_nat i) = (unat n \<le> i)" by (simp add: word_le_nat_alt)
  then show ?thesis
    by (simp add: sha256d_main_def sha256d_push_shape sha256d_shader_is_reference nonce_of_def [symmetric]
        found_at_def accepted_def Let_def)
qed

lemma candidate_emitted:
  assumes "length buf = kResultWords" "buf ! 0 < of_nat kMaxCandidates" "length hash = 8"
  shows "candidate_at (emit_candidate (of_nat kMaxCandidates) nonce hash buf) (unat (buf ! 0)) = \<lparr>s_nonce = ucast nonce, s_hash = hash\<rparr>"
    "s < unat (buf ! 0) \<Longrightarrow> candidate_at (emit_candidate (of_nat kMaxCandidates) nonce hash buf) s = candidate_at buf s"
proof -
  let ?e = "emit_candidate (of_nat kMaxCandidates) nonce hash buf" and ?b = "3 + unat (buf ! 0) * 10"
  note n = emit_nth(1) [OF assms] and l = emit_nth(2) [OF assms]
  have c: "unat (buf ! 0) < 32" using assms(2) by (simp add: word_less_nat_alt kMaxCandidates_def)
  have k: "kResultWords = 323" by (simp add: result_layout)
  have "?e ! (?b + m) = (nonce # 0 # hash) ! m" if "m < 10" for m
    using that by (simp only: n) simp
  then have d: "drop ?b ?e ! m = (nonce # 0 # hash) ! m" if "m < 10" for m
    using that c l by (simp add: k)
  have h: "take 8 (drop 2 (drop ?b ?e)) = hash"
  proof (rule nth_equalityI)
    show "length (take 8 (drop 2 (drop ?b ?e))) = length hash" using c by (simp add: l k assms(3))
    fix m assume "m < length (take 8 (drop 2 (drop ?b ?e)))"
    then have m: "m < 8" by simp
    have "drop ?b ?e ! (2 + m) = hash ! m" using d [of "2 + m"] m by simp
    then show "take 8 (drop 2 (drop ?b ?e)) ! m = hash ! m" using m c l by (simp add: k add.assoc)
  qed
  have "candidate_at ?e (unat (buf ! 0)) = \<lparr>s_nonce = ucast (drop ?b ?e ! 0) OR push_bit 32 (ucast (drop ?b ?e ! 1)),
      s_hash = take 8 (drop 2 (drop ?b ?e))\<rparr>"
    by (simp add: candidate_at_def Let_def result_layout)
  then show "candidate_at ?e (unat (buf ! 0)) = \<lparr>s_nonce = ucast nonce, s_hash = hash\<rparr>"
    using d [of 0] d [of 1] by (simp only: h) simp
  show "candidate_at ?e s = candidate_at buf s" if s: "s < unat (buf ! 0)"
  proof (rule candidate_at_cong)
    fix j assume "3 + s * 10 \<le> j" "j < 3 + s * 10 + 10"
    then have "j \<noteq> 0" "\<not> (?b \<le> j \<and> j < ?b + 10)" using s by linarith+
    then show "?e ! j = buf ! j" by (simp only: n if_False)
  qed (use s c l assms(1) in \<open>simp_all add: kMaxCandidates_def\<close>)
qed

lemma buffer_step:
  assumes "buffer_after p c header target start n is buf" "i < 2 ^ 32" "length is + 1 < 2 ^ 32"
  shows "buffer_after p c header target start n (is @ [i])
     (sha256d_main p c memory (sha256d_push header target start n (of_nat kMaxCandidates)) (of_nat i) buf)"
proof (cases "unat n \<le> i")
  case True
  then show ?thesis using assms(1) by (simp add: main_digest [OF assms(2)] buffer_after_def reported_def)
next
  case False
  let ?hits = "reported header target start n is" and ?run = "filter (\<lambda>i. i < unat n) is"
  let ?x = "found_at header start i"
  define b where "b = probe_best p c (s_hash ?x ! 7) buf"
  have a: "length buf = kResultWords" "unat (buf ! 0) = length ?hits"
    "\<And>s. s < min (length ?hits) kMaxCandidates \<Longrightarrow> candidate_at buf s = found_at header start (?hits ! s)"
    "buf ! 1 = (if p then fold (\<lambda>i. min (s_hash (found_at header start i) ! 7)) ?run 0xffffffff else 0xffffffff)"
    "buf ! 2 = (if c then of_nat (length ?run) else 0)"
    using assms(1) by (simp_all only: buffer_after_def Let_def)
  note pb = probe_best_spec [where p = p and c = c and w = "s_hash ?x ! 7", OF a(1), folded b_def]
  have b: "length b = kResultWords" "unat (b ! 0) = length ?hits"
    "\<And>s. s < min (length ?hits) kMaxCandidates \<Longrightarrow> candidate_at b s = found_at header start (?hits ! s)"
    "b ! 1 = (if p then fold (\<lambda>i. min (s_hash (found_at header start i) ! 7)) (?run @ [i]) 0xffffffff else 0xffffffff)"
    "b ! 2 = (if c then of_nat (length (?run @ [i])) else 0)"
  proof -
    show "length b = kResultWords" "unat (b ! 0) = length ?hits" using pb a by simp_all
    show "b ! 1 = (if p then fold (\<lambda>i. min (s_hash (found_at header start i) ! 7)) (?run @ [i]) 0xffffffff else 0xffffffff)"
      using pb(2) a(4) by (simp add: min.commute)
    show "b ! 2 = (if c then of_nat (length (?run @ [i])) else 0)" using pb(3) a(5) by simp
    fix s assume s: "s < min (length ?hits) kMaxCandidates"
    have "candidate_at b s = candidate_at buf s"
      by (rule candidate_at_cong) (use s pb a(1) in simp_all)
    then show "candidate_at b s = found_at header start (?hits ! s)" using a(3) [OF s] by simp
  qed
  have run: "filter (\<lambda>i. i < unat n) (is @ [i]) = ?run @ [i]" using False by simp
  have len: "length ?hits + 1 < 2 ^ 32" using assms(3) length_filter_le [of _ "is"] unfolding reported_def
    by (metis (no_types, lifting) add_le_mono1 order_le_less_trans)
  show ?thesis
  proof (cases "accepted header target start i")
    case no: False
    have "reported header target start n (is @ [i]) = ?hits" using no by (simp add: reported_def)
    moreover have "sha256d_main p c memory (sha256d_push header target start n (of_nat kMaxCandidates)) (of_nat i) buf = b"
      using False no by (simp add: main_digest [OF assms(2)] b_def)
    ultimately show ?thesis unfolding buffer_after_def Let_def run using b by simp
  next
    case yes: True
    have hits: "reported header target start n (is @ [i]) = ?hits @ [i]" using yes False by (simp add: reported_def)
    let ?e = "emit_candidate (of_nat kMaxCandidates) (nonce_of start i) (s_hash ?x) b"
    have main: "sha256d_main p c memory (sha256d_push header target start n (of_nat kMaxCandidates)) (of_nat i) buf = ?e"
      using False yes by (simp add: main_digest [OF assms(2)] b_def Let_def)
    have inc: "unat (b ! 0 + 1) = length ?hits + 1"
      using len b(2) by (subst unat_add_exact) simp_all
    have "length ?e = kResultWords \<and> ?e ! 0 = b ! 0 + 1 \<and> ?e ! 1 = b ! 1 \<and> ?e ! 2 = b ! 2 \<and>
        (\<forall>s < min (length (?hits @ [i])) kMaxCandidates. candidate_at ?e s = found_at header start ((?hits @ [i]) ! s))"
    proof (cases "length ?hits < kMaxCandidates")
      case True
      have room: "b ! 0 < of_nat kMaxCandidates"
        using True b(2) by (simp add: word_less_nat_alt kMaxCandidates_def)
      have h8: "length (s_hash ?x) = 8" by (simp add: found_at_def)
      note en = emit_nth [OF b(1) room h8] and ce = candidate_emitted [OF b(1) room h8]
      have x: "\<lparr>s_nonce = ucast (nonce_of start i), s_hash = s_hash ?x\<rparr> = ?x" by (simp add: found_at_def)
      have "candidate_at ?e s = found_at header start ((?hits @ [i]) ! s)"
        if s: "s < min (length (?hits @ [i])) kMaxCandidates" for s
      proof (cases "s = length ?hits")
        case True
        then show ?thesis using ce(1) [of "nonce_of start i"] b(2) by (simp add: x)
      next
        case False
        then have "s < length ?hits" using s by simp
        then show ?thesis using ce(2) [of s "nonce_of start i"] b(2,3) s by (simp add: nth_append)
      qed
      then show ?thesis using en(2) by (simp add: en(1))
    next
      case full: False
      have "of_nat kMaxCandidates \<le> b ! 0"
        using full b(2) by (simp add: word_le_nat_alt kMaxCandidates_def)
      note e = emit_full [OF this, of "nonce_of start i" "s_hash ?x"]
      have "candidate_at ?e s = found_at header start ((?hits @ [i]) ! s)"
        if s: "s < min (length (?hits @ [i])) kMaxCandidates" for s
      proof -
        have "candidate_at ?e s = candidate_at b s"
          by (rule candidate_at_cong) (use s b(1) in \<open>simp_all add: e\<close>)
        then show ?thesis using b(3) [of s] s full by (simp add: nth_append)
      qed
      moreover have "length b = 323" using b(1) by (simp add: result_layout)
      then have "length ?e = kResultWords \<and> ?e ! 0 = b ! 0 + 1 \<and> ?e ! 1 = b ! 1 \<and> ?e ! 2 = b ! 2"
        unfolding e using b(1) by simp
      ultimately show ?thesis by blast
    qed
    then show ?thesis unfolding buffer_after_def Let_def hits run main using b(4,5) inc by simp
  qed
qed

lemma buffer_cleared: "buffer_after p c header target start n [] cleared"
  by (simp add: buffer_after_def reported_def cleared_def result_layout)

lemma buffer_run:
  assumes "\<And>i. i \<in> set is \<Longrightarrow> i < 2 ^ 32" "length is < 2 ^ 32"
  shows "buffer_after p c header target start n is
     (fold (\<lambda>i. sha256d_main p c (memory i) (sha256d_push header target start n (of_nat kMaxCandidates)) (of_nat i)) is cleared)"
  using assms
proof (induction "is" rule: rev_induct)
  case Nil
  then show ?case by (simp add: buffer_cleared)
next
  case (snoc i "is")
  have "buffer_after p c header target start n is
     (fold (\<lambda>i. sha256d_main p c (memory i) (sha256d_push header target start n (of_nat kMaxCandidates)) (of_nat i)) is cleared)"
    by (rule snoc.IH) (use snoc.prems in auto)
  then have "buffer_after p c header target start n (is @ [i]) (sha256d_main p c (memory i)
      (sha256d_push header target start n (of_nat kMaxCandidates)) (of_nat i)
      (fold (\<lambda>i. sha256d_main p c (memory i) (sha256d_push header target start n (of_nat kMaxCandidates)) (of_nat i)) is cleared))"
    by (rule buffer_step) (use snoc.prems in auto)
  then show ?case by simp
qed

section \<open>What the host reads\<close>

definition sha256d_results :: "u32 list \<Rightarrow> u32 list \<Rightarrow> u64 \<Rightarrow> u32 \<Rightarrow> Solution list" where
  "sha256d_results header target start n =
     map (found_at header start) (filter (accepted header target start) [0..<unat n])"

lemma job_result_list:
  "length (fold f xs cleared) = kResultWords \<Longrightarrow> map (\<lambda>j. fold f xs cleared ! j) [0..<kResultWords] = fold f xs cleared"
  using map_nth [of "fold f xs cleared"] by simp

lemma sha256d_dispatch_result:
  fixes n groups :: u32
  assumes order: "\<And>N. mset (order N) = mset [0..<N]"
    and "unat n \<le> unat groups * unat (de_local_size_x desc)" "unat groups * unat (de_local_size_x desc) < 2 ^ 32"
  shows "let result = job_result (sha256d_shader order memory) desc groups
                     (sha256d_prepare (dispatch_job header target start n) 128) [];
       solutions = sha256d_results header target start n
     in unat (result ! kFoundWord) = length solutions
    \<and> (length solutions \<le> kMaxCandidates \<longrightarrow> mset (read_candidates result kMaxCandidates) = mset solutions)
    \<and> (de_probe_best desc \<longrightarrow> result ! kBestWord =
         Min (insert 0xffffffff ((\<lambda>i. s_hash (found_at header start i) ! 7) ` {..<unat n})))
    \<and> (de_count_reached desc \<longrightarrow> result ! kReachedWord = n)
    \<and> mset (read_candidates result kMaxCandidates) \<subseteq># mset solutions
    \<and> length (read_candidates result kMaxCandidates) = min kMaxCandidates (length solutions)"
proof -
  define result where "result = job_result (sha256d_shader order memory) desc groups
      (sha256d_prepare (dispatch_job header target start n) 128) []"
  define solutions where "solutions = sha256d_results header target start n"
  let ?N = "unat groups * unat (de_local_size_x desc)"
  let ?f = "\<lambda>i. sha256d_main (de_probe_best desc) (de_count_reached desc) (memory i)
      (sha256d_push header target start n (of_nat kMaxCandidates)) (of_nat i)"
  have set: "set (order ?N) = {..<?N}" using arg_cong [OF order, of set_mset] by (simp add: lessThan_atLeast0)
  have len: "length (order ?N) = ?N" using mset_eq_length [OF order] by simp
  have B: "buffer_after (de_probe_best desc) (de_count_reached desc) header target start n (order ?N) (fold ?f (order ?N) cleared)"
    by (rule buffer_run) (use set len assms(3) in auto)
  then have "length (fold ?f (order ?N) cleared) = kResultWords" by (simp add: buffer_after_def Let_def)
  moreover have "sha256d_shader order memory desc groups (sha256d_prepare (dispatch_job header target start n) 128) [] cleared
      = (\<lambda>j. fold ?f (order ?N) cleared ! j)"
    by (rule ext) (simp only: sha256d_shader_def prepare_push)
  ultimately have r: "result = fold ?f (order ?N) cleared"
    unfolding result_def job_result_def by (simp only: job_result_list)
  let ?hits = "reported header target start n (order ?N)" and ?run = "filter (\<lambda>i. i < unat n) (order ?N)"
  have run: "mset ?run = mset [0..<unat n]"
  proof -
    have "mset ?run = filter_mset (\<lambda>i. i < unat n) (mset [0..<?N])" by (simp only: mset_filter order)
    also have "\<dots> = mset (filter (\<lambda>i. i < unat n) [0..<?N])" by (simp only: mset_filter)
    also have "filter (\<lambda>i. i < unat n) [0..<?N] = [0..<unat n]"
      using upt_split [of 0 "unat n" ?N] assms(2) by (simp add: filter_empty_conv)
    finally show ?thesis .
  qed
  have "?hits = filter (accepted header target start) ?run"
    by (simp add: reported_def conj_commute)
  then have hits: "mset ?hits = mset (filter (accepted header target start) [0..<unat n])" by (metis mset_filter run)
  have lh: "length ?hits = length solutions"
    using mset_eq_length [OF hits] by (simp add: solutions_def sha256d_results_def)
  have a: "unat (result ! 0) = length ?hits"
    "\<And>s. s < min (length ?hits) kMaxCandidates \<Longrightarrow> candidate_at result s = found_at header start (?hits ! s)"
    "result ! 1 = (if de_probe_best desc then fold (\<lambda>i. min (s_hash (found_at header start i) ! 7)) ?run 0xffffffff else 0xffffffff)"
    "result ! 2 = (if de_count_reached desc then of_nat (length ?run) else 0)"
    using B by (simp_all only: buffer_after_def Let_def r)
  have read: "read_candidates result kMaxCandidates = map (found_at header start) (take kMaxCandidates ?hits)"
  proof -
    let ?c = "if of_nat kMaxCandidates < result ! 0 then of_nat kMaxCandidates else result ! 0"
    have k: "unat (of_nat kMaxCandidates :: u32) = kMaxCandidates" by (simp add: kMaxCandidates_def)
    have c: "unat ?c = min kMaxCandidates (length ?hits)"
      using a(1) k by (auto simp: word_less_nat_alt min_def)
    then have "\<not> int kMaxCandidates < uint ?c" unfolding uint_nat by linarith
    then have "read_candidates result kMaxCandidates = map (candidate_at result) [0..<unat ?c]"
      by (simp only: read_candidates_def kFoundWord_def Let_def simp_thms if_False)
    also have "\<dots> = map (found_at header start) (take kMaxCandidates ?hits)"
      unfolding c using a(2) by (intro nth_equalityI) simp_all
    finally show ?thesis .
  qed
  have all: "mset (map (found_at header start) ?hits) = mset solutions"
    using hits by (simp add: solutions_def sha256d_results_def)
  have part: "mset (read_candidates result kMaxCandidates) \<subseteq># mset solutions"
    "length (read_candidates result kMaxCandidates) = min kMaxCandidates (length solutions)"
  proof -
    have "mset ?hits = mset (take kMaxCandidates ?hits) + mset (drop kMaxCandidates ?hits)"
      by (metis append_take_drop_id mset_append)
    then show "mset (read_candidates result kMaxCandidates) \<subseteq># mset solutions"
      unfolding read all [symmetric] by (simp add: image_mset_subseteq_mono)
    show "length (read_candidates result kMaxCandidates) = min kMaxCandidates (length solutions)"
      using lh by (simp add: read min_def)
  qed
  have whole: "mset (read_candidates result kMaxCandidates) = mset solutions" if "length solutions \<le> kMaxCandidates"
    using that lh all by (simp add: read)
  have fold_min: "fold (\<lambda>i. min (h i)) xs (x :: u32) = Min (insert x (h ` set xs))" for h xs x
  proof (induction xs arbitrary: x)
    case (Cons y ys)
    have "Min (insert (min (h y) x) (h ` set ys)) = Min (insert x (insert (h y) (h ` set ys)))"
      by (cases "h ` set ys = {}") (simp_all add: min.assoc min.left_commute min.commute)
    then show ?case using Cons by simp
  qed simp
  have sr: "set ?run = {..<unat n}" using arg_cong [OF run, of set_mset] by (simp add: lessThan_atLeast0)
  have lr: "length ?run = unat n" using mset_eq_length [OF run] by simp
  show ?thesis
    unfolding Let_def result_def [symmetric] solutions_def [symmetric]
    using a(1,3,4) lh whole part fold_min [of _ ?run] sr lr
    by (simp add: kFoundWord_def kBestWord_def kReachedWord_def)
qed

section \<open>A kernel built for it\<close>

text \<open>A kernel whose program never changes goes on running the pipeline init built.\<close>

lemma client_step_pipeline:
  assumes "client_step run info alg (d, k, g) (d', k', g')" "vk_program_constants k = 0"
  shows "vk_pipeline k' = vk_pipeline k" "settled k' = settled k"
proof -
  have ks: "kernel_step run info alg (k, g) (k', g')" by (rule client_step_kernel [OF assms(1)])
  show "settled k' = settled k" by (rule kernel_step_settled [OF ks])
  show "vk_pipeline k' = vk_pipeline k"
    using assms(1)
  proof cases
    case (client_state dev key sh ok sh')
    then show ?thesis using prepare_state_frame(4) [of dev alg key k sh ok k' sh'] by (simp add: program_def)
  next
    case (client_program ans key ok)
    then show ?thesis using assms(2) by (simp add: prepare_program_def)
  next
    case (client_dispatch da header target nonce n sh ok sh')
    then show ?thesis using dispatch_frame(3) [of run da alg header target nonce n k g sh ok k' g' sh'] by (simp add: program_def)
  next
    case (client_collect ca most res)
    then show ?thesis using collect_frame(2) [of run info ca most k g res k' g'] by (simp add: program_def)
  qed simp
qed

lemma client_steps_pipeline:
  assumes "(client_step run info alg)\<^sup>*\<^sup>* (d0, k0, g0) (d, k, g)" "vk_program_constants k0 = 0"
  shows "vk_pipeline k = vk_pipeline k0 \<and> settled k = settled k0"
  using assms(1)
proof (induction "(d, k, g)" arbitrary: d k g rule: rtranclp_induct)
  case (step s)
  obtain d1 k1 g1 where s: "s = (d1, k1, g1)" by (cases s)
  have ih: "vk_pipeline k1 = vk_pipeline k0" "settled k1 = settled k0" using step.hyps(3) [OF s] by simp_all
  have "vk_program_constants k1 = 0" using limits_settled(6) [OF ih(2)] assms(2) by simp
  then show ?case using client_step_pipeline [OF step.hyps(2) [unfolded s]] ih by simp
qed simp

definition sha256d_module_ok :: "kernel_options \<Rightarrow> ShaderModule \<Rightarrow> bool" where
  "sha256d_module_ok opts shader \<longleftrightarrow> \<not> spirv_declares_constant (Some (m_words shader)) kNoncesConstantId \<and>
     unat (m_local_size_x shader) < 2 ^ 31 \<and> opt_workgroup (ko_fit opts) < 2 ^ 31 \<and>
     opt_nonces_per_invocation (ko_fit opts) < 2 ^ 31"

lemma choose_local_size_range: "choose_local_size info \<noteq> 0" "choose_local_size info \<le> 256"
proof -
  define a where "a = (if d_max_workgroup_size info \<noteq> 0 \<and> d_max_workgroup_size info < 256 then d_max_workgroup_size info else 256)"
  define b where "b = (if d_max_invocations info \<noteq> 0 \<and> d_max_invocations info < a then d_max_invocations info else a)"
  define c where "c = (if 1 < d_subgroup_size info \<and> d_subgroup_size info < b
      then let whole = b - b mod d_subgroup_size info in if whole \<noteq> 0 then whole else b else b)"
  have e: "choose_local_size info = (if c \<noteq> 0 then c else 1)"
    by (simp only: choose_local_size_def Let_def a_def b_def c_def)
  have "a \<le> 256" by (auto simp: a_def)
  then have b: "b \<le> 256" by (auto simp: b_def)
  have "b mod d_subgroup_size info \<le> b" by (simp add: word_le_nat_alt unat_mod_distrib)
  then have "b - b mod d_subgroup_size info \<le> b" by (simp add: word_le_nat_alt unat_sub_exact)
  then have "c \<le> 256" using b by (auto simp: c_def Let_def)
  then show "choose_local_size info \<noteq> 0" "choose_local_size info \<le> 256" by (auto simp: e)
qed

text \<open>Its specification as the worker completes it: how many kernels the device runs is none of the algorithm's.\<close>

definition sha256d_spec :: "ShaderModule \<Rightarrow> u32 \<Rightarrow> KernelSpec" where
  "sha256d_spec shader c = (sha256d_kernel (Some shader))\<lparr>k_concurrent_kernels := c\<rparr>"

lemma sha256d_spec_alone: "sha256d_spec shader 1 = sha256d_kernel (Some shader)"
  by (simp add: sha256d_spec_def sha256d_kernel_def kernel_spec_default_def Let_def)

lemma sha256d_fit:
  assumes "vulkan_kernel_fit (ko_fit opts) info (sha256d_spec shader c) shared = Inr fit" "sha256d_module_ok opts shader"
  shows "fit_per_group fit = fit_local_size_x fit" "fit_local_size_x fit \<noteq> 0" "unat (fit_local_size_x fit) < 2 ^ 31"
    "fit_max_batch fit = kMaxBatch"
proof -
  let ?spec = "sha256d_spec shader c" and ?local = "fit_width_of (ko_fit opts) info (sha256d_spec shader c)"
  have s: "k_lanes ?spec = 0" "\<not> k_full_subgroups ?spec" "k_nonces_per_invocation ?spec = 0" "k_scratch_bytes ?spec = 0"
    "k_spirv ?spec = Some (m_words shader)" "k_local_size_x ?spec = m_local_size_x shader"
    by (simp_all add: sha256d_spec_def sha256d_kernel_def kernel_spec_default_def Let_def)
  have m: "\<not> spirv_declares_constant (Some (m_words shader)) kNoncesConstantId" using assms(2) by (simp add: sha256d_module_ok_def)
  have c: "choose_local_size info \<noteq> 0" "choose_local_size info \<le> 256"
    by (rule choose_local_size_range)+
  have w: "?local \<noteq> 0 \<and> unat ?local < 2 ^ 31"
  proof (cases "m_local_size_x shader = 0 \<and> 0 < opt_workgroup (ko_fit opts)")
    case True
    then have r: "0 < opt_workgroup (ko_fit opts)" "opt_workgroup (ko_fit opts) < 2 ^ 31"
      using assms(2) by (simp_all add: sha256d_module_ok_def)
    have "unat (of_int (opt_workgroup (ko_fit opts)) :: u32) = nat (opt_workgroup (ko_fit opts))"
      using r by (simp add: unat_eq_nat_uint uint_word_of_int_eq take_bit_int_eq_self)
    then show ?thesis using True r s by (auto simp: fit_width_of_def unat_eq_zero [symmetric])
  next
    case False
    have "unat (choose_local_size info) \<le> 256" using c(2) by (simp add: word_le_nat_alt)
    then show ?thesis using False assms(2) s c(1) by (auto simp: fit_width_of_def sha256d_module_ok_def)
  qed
  have "fit_width (ko_fit opts) info ?spec = Inr (?local, 1)"
    using assms(1) s by (auto simp: vulkan_kernel_fit_def fit_width_def Let_def split: if_splits)
  moreover have "fit_nonces_of (ko_fit opts) ?spec 1 = Inr 1"
  proof -
    have "min (of_int i) (1 :: u32) = 1" if "0 < i" "i < 2 ^ 31" for i
    proof -
      have "unat (of_int i :: u32) = nat i"
        using that by (simp add: unat_eq_nat_uint uint_word_of_int_eq take_bit_int_eq_self)
      then show ?thesis
      proof (cases "i = 1")
        case False
        then have "\<not> nat i \<le> 1" using that by linarith
        then show ?thesis using \<open>unat (of_int i :: u32) = nat i\<close> by (simp add: min_def word_le_nat_alt)
      qed simp
    qed
    then show ?thesis using assms(2) m by (simp add: fit_nonces_of_def s sha256d_module_ok_def)
  qed
  ultimately show "fit_per_group fit = fit_local_size_x fit" "fit_local_size_x fit \<noteq> 0" "unat (fit_local_size_x fit) < 2 ^ 31"
    "fit_max_batch fit = kMaxBatch"
    using assms(1) s w by (auto simp: vulkan_kernel_fit_def Let_def)
qed

text \<open>How many invocations a dispatch of such a kernel is run in.\<close>

lemma enough_invocations:
  fixes n per :: u32
  assumes "per \<noteq> 0" "unat per < 2 ^ 31" "n \<le> kMaxBatch"
  shows "unat n \<le> unat ((n + per - 1) div per) * unat per" "unat ((n + per - 1) div per) * unat per < 2 ^ 32"
proof -
  have p: "0 < unat per" using assms(1) by (simp add: unat_gt_0)
  have n: "unat n \<le> 2 ^ 28" using assms(3) by (simp add: word_le_nat_alt kMaxBatch_def)
  have "unat (n + per) = unat n + unat per" using n assms(2) by (intro unat_add_exact) simp
  moreover have "1 \<le> n + per" using calculation p by (simp add: word_le_nat_alt)
  ultimately have "unat (n + per - 1) = unat n + unat per - 1" by (simp add: unat_sub_exact)
  then have g: "unat ((n + per - 1) div per) = (unat n + unat per - 1) div unat per" by (simp add: unat_div_distrib)
  let ?q = "(unat n + unat per - 1) div unat per"
  have m: "?q * unat per + (unat n + unat per - 1) mod unat per = unat n + unat per - 1" by (rule div_mult_mod_eq)
  have "(unat n + unat per - 1) mod unat per < unat per" using p by simp
  then show "unat n \<le> unat ((n + per - 1) div per) * unat per" using m p unfolding g by linarith
  have "?q * unat per \<le> unat n + unat per - 1" by (rule div_times_less_eq_dividend)
  also have "\<dots> < 2 ^ 32" using n assms(2) by simp
  finally have "?q * unat per < 2 ^ 32" .
  then show "unat ((n + per - 1) div per) * unat per < 2 ^ 32" unfolding g .
qed

text \<open>The kernel init builds for it, whatever has been asked of it since, as long as its queue is in order.\<close>

lemma sha256d_dispatched:
  assumes "init opts ans info (sha256d_spec shader c) None = Inr (k0, g0)" "sha256d_module_ok opts shader"
    and "vk_pipeline k = vk_pipeline k0" "settled k = settled k0" "kernel_ok k g" "lockstep k"
    and "\<And>N. mset (order N) = mset [0..<N]"
    and "dispatch (sha256d_shader order memory) da (Some (sha256d_ops table)) header target start n k g None
       = Some (True, k1, g1, sh)"
  shows "\<exists>result. outstanding (sha256d_shader order memory) (k1, g1) =
       outstanding (sha256d_shader order memory) (k, g) @ [(n, result)] \<and>
     unat (result ! kFoundWord) = length (sha256d_results header target start n) \<and>
     (length (sha256d_results header target start n) \<le> kMaxCandidates \<longrightarrow>
        mset (read_candidates result kMaxCandidates) = mset (sha256d_results header target start n)) \<and>
     (ko_vk_probe_best opts \<longrightarrow> result ! kBestWord =
        Min (insert 0xffffffff ((\<lambda>i. s_hash (found_at header start i) ! 7) ` {..<unat n}))) \<and>
     (ko_vk_count_reached opts \<longrightarrow> result ! kReachedWord = n) \<and>
     mset (read_candidates result kMaxCandidates) \<subseteq># mset (sha256d_results header target start n) \<and>
     length (read_candidates result kMaxCandidates) = min kMaxCandidates (length (sha256d_results header target start n))"
proof -
  let ?run = "sha256d_shader order memory" and ?alg = "Some (sha256d_ops table)" and ?spec = "sha256d_spec shader c"
  let ?job = "dispatch_job header target start n"
  have sp: "k_program_constants ?spec = 0" "k_uniform_bytes ?spec = 0"
    by (simp_all add: sha256d_spec_def sha256d_kernel_def kernel_spec_default_def Let_def)
  from assms(1) obtain fit bound where
    fit: "vulkan_kernel_fit (ko_fit opts) info ?spec (case (None :: SharedState option) of None \<Rightarrow> 0 | Some s \<Rightarrow> of_nat (ss_bytes s)) = Inr fit"
    and st: "settled k0 = settled (fresh_kernel opts ?spec fit None bound)"
    and pr: "program k0 = (if k_program_constants ?spec = 0 then Some (first_pipeline k0) else None, 0, False, None)"
    by (rule init_spec)
  note f = sha256d_fit [OF fit assms(2)]
  have k0: "vk_pipeline k0 = Some (first_pipeline k0)" "vk_program_constants k0 = 0" "vk_uniform_bytes k0 = 0"
    "vk_per_group k0 = fit_local_size_x fit" "vk_max_batch k0 = kMaxBatch"
    "vk_desc k0 = init_desc opts ?spec fit None"
    using pr sp f limits_settled [OF st] by (simp_all add: program_def fresh_kernel_def)
  note cs = conjI [OF assms(3,4)]
  have l: "vk_pipeline k = Some (first_pipeline k0)" "vk_uniform_bytes k = 0" "vk_per_group k = fit_local_size_x fit"
    "vk_max_batch k = kMaxBatch"
    using cs k0 limits_settled [OF conjunct2 [OF cs]] by simp_all
  have "\<exists>k' g' sh'. dispatch ?run da ?alg header target start n k g None = Some (True, k', g', sh')" using assms(8) by blast
  then have acc: "dispatch_ready k n" "dispatch_blocks ?alg ?job k \<noteq> None" unfolding dispatch_accepts by blast+
  then obtain push where b: "dispatch_blocks ?alg ?job k = Some (push, [])" "push = sha256d_prepare ?job 128"
    by (auto simp: dispatch_blocks_def l sha256d_ops_def Let_def split: if_splits)
  define desc where "desc = pl_desc (first_pipeline k0)"
  have local: "de_local_size_x desc = fit_local_size_x fit"
    by (simp add: desc_def first_pipeline_def k0 init_desc_def)
  have n: "n \<le> kMaxBatch" using acc(1) l by (auto simp: dispatch_ready_def not_less)
  let ?groups = "groups_of k n"
  note e = enough_invocations [OF f(2,3) n]
  have g: "?groups = (n + fit_local_size_x fit - 1) div fit_local_size_x fit" by (simp add: groups_of_def l)
  define result where "result = job_result ?run desc ?groups (sha256d_prepare ?job 128) []"
  have "job_of ?run ?alg ?job k = (n, result)"
    by (simp add: job_of_def l b result_def desc_def) (simp add: dispatch_job_def)
  moreover note assms(5,6)
  ultimately have "outstanding ?run (k1, g1) = outstanding ?run (k, g) @ [(n, result)]"
    using dispatch_queue_cases [OF _ _ assms(8)] by simp
  moreover have "unat n \<le> unat ?groups * unat (de_local_size_x desc)" "unat ?groups * unat (de_local_size_x desc) < 2 ^ 32"
    using e by (simp_all only: local g)
  note sha256d_dispatch_result [where order = order and memory = memory and header = header and target = target and start = start,
      OF assms(7) this, folded result_def, unfolded Let_def]
  moreover have "de_probe_best desc = ko_vk_probe_best opts" "de_count_reached desc = ko_vk_count_reached opts"
    by (simp_all add: desc_def first_pipeline_def k0 init_desc_def)
  ultimately show ?thesis by auto
qed

text \<open>
  Claim C3. From the header to the shares, through the kernel. On a Vulkan kernel built for sha256d
  and whatever its client has done with it since, an accepted dispatch appends a job that comes to
  exactly this: the host will count as many candidates as there are nonces in the range it accepts,
  and, where they fit the buffer, read each of them once with its hash and nothing else. This is so for
  every order the device takes the invocations in and whatever its memory held.
\<close>

theorem sha256d_kernel_finds_all:
  assumes "init opts ans info (sha256d_kernel (Some shader)) None = Inr (k0, g0)" "sha256d_module_ok opts shader"
    and "(client_step (sha256d_shader order memory) info (Some (sha256d_ops table)))\<^sup>*\<^sup>* (False, k0, g0) (False, k, g)"
    and "\<And>N. mset (order N) = mset [0..<N]"
    and "dispatch (sha256d_shader order memory) da (Some (sha256d_ops table)) header target start n k g None
       = Some (True, k1, g1, sh)"
  shows "\<exists>result. outstanding (sha256d_shader order memory) (k1, g1) =
       outstanding (sha256d_shader order memory) (k, g) @ [(n, result)] \<and>
     unat (result ! kFoundWord) = length (sha256d_results header target start n) \<and>
     (length (sha256d_results header target start n) \<le> kMaxCandidates \<longrightarrow>
        mset (read_candidates result kMaxCandidates) = mset (sha256d_results header target start n)) \<and>
     (ko_vk_probe_best opts \<longrightarrow> result ! kBestWord =
        Min (insert 0xffffffff ((\<lambda>i. s_hash (found_at header start i) ! 7) ` {..<unat n}))) \<and>
     (ko_vk_count_reached opts \<longrightarrow> result ! kReachedWord = n)"
proof -
  note i = assms(1) [folded sha256d_spec_alone]
  have "vk_program_constants k0 = 0"
    using assms(1) by (elim init_spec) (simp add: limits_settled fresh_kernel_def sha256d_kernel_def kernel_spec_default_def Let_def)
  from client_steps_pipeline [OF assms(3) this] have p: "vk_pipeline k = vk_pipeline k0" "settled k = settled k0" by simp_all
  have "kernel_ok k g" "lockstep k" using client_steps_ok [OF assms(1,3)] by simp_all
  from sha256d_dispatched [OF i assms(2) p this assms(4,5)] show ?thesis by blast
qed

section \<open>An example\<close>

definition example_shader :: ShaderModule where
  "example_shader = \<lparr>m_words = [], m_storage_buffers = 0, m_push_constant_bytes = 0, m_local_size_x = 0\<rparr>"

definition example_table :: "nat table_source" where
  "example_table = \<lparr>ts_shared_state = (\<lambda>_ _ _. None), ts_setup_seed = (\<lambda>_ _ _. None), ts_setup_push = (\<lambda>_ _ _ _. None)\<rparr>"

lemma example_module_ok: "sha256d_module_ok example_options example_shader"
  by (simp add: sha256d_module_ok_def example_shader_def example_options_def spirv_declares_constant_def
      declares_from.simps)

lemma example_sha256d:
  obtains k g where "init example_options example_init desktop_device (sha256d_kernel (Some example_shader)) None = Inr (k, g)"
    "dispatch_ready k 256" "vk_push_bytes k = 124" "vk_uniform_bytes k = 0" "vk_depth k = 3"
proof -
  let ?spec = "sha256d_kernel (Some example_shader)"
  define fit where "fit = \<lparr>fit_local_size_x = 256, fit_lanes = 1, fit_nonces = 1, fit_per_group = 256,
      fit_depth = fit_depth_of (ko_fit example_options) ?spec, fit_max_batch = kMaxBatch, fit_per_nonce = 0\<rparr>"
  have d: "fit_depth_of (ko_fit example_options) ?spec = 3"
    by (simp add: fit_depth_of_def sha256d_kernel_def kernel_spec_default_def example_options_def kDefaultDepth_def example_shader_def Let_def)
  have w: "fit_width (ko_fit example_options) desktop_device ?spec = Inr (256, 1)"
    by (simp add: fit_width_def fit_width_of_def whole_steps_def choose_local_size_def desktop_device_def
        sha256d_kernel_def kernel_spec_default_def example_options_def example_shader_def Let_def)
  have n: "fit_nonces_of (ko_fit example_options) ?spec 1 = Inr 1"
    by (simp add: fit_nonces_of_def sha256d_kernel_def kernel_spec_default_def example_options_def example_shader_def
        spirv_declares_constant_def declares_from.simps Let_def)
  have f: "vulkan_kernel_fit (ko_fit example_options) desktop_device ?spec 0 = Inr fit"
    unfolding vulkan_kernel_fit_def w n sum.case prod.case
    by (simp add: fit_def sha256d_kernel_def kernel_spec_default_def Let_def)
  have c: "init_checks example_options desktop_device ?spec None = Inr fit"
    using f by (simp add: init_checks_def shared_bindings_def bindings_needed_def storage_buffers_def)
      (simp add: sha256d_kernel_def kernel_spec_default_def example_shader_def backend_limits Let_def)
  obtain k g where i: "init example_options example_init desktop_device ?spec None = Inr (k, g)"
    using example_init_built [OF c] d by (auto simp: fit_def)
  from i obtain fit' bound ring where
    fit': "vulkan_kernel_fit (ko_fit example_options) desktop_device ?spec (case (None :: SharedState option) of None \<Rightarrow> 0 | Some s \<Rightarrow> of_nat (ss_bytes s)) = Inr fit'"
    and st: "settled k = settled (fresh_kernel example_options ?spec fit' None bound)"
    and q: "queued k = (ring, replicate (unat (fit_depth fit')) \<lparr>pe_slot = 0, pe_count = 0, pe_full_batch = False\<rparr>, 0, 0)"
    by (rule init_spec)
  have "fit' = fit" using fit' f by simp
  then have "vk_max_batch k = kMaxBatch" "vk_depth k = 3" "vk_inflight k = 0" "vk_push_bytes k = 124" "vk_uniform_bytes k = 0"
    "vk_program_constants k = 0"
    using limits_settled [OF st] q d
    by (simp_all add: fit_def fresh_kernel_def queued_def unat_eq_zero)
      (simp_all add: sha256d_kernel_def kernel_spec_default_def example_shader_def Let_def)
  then show ?thesis by (intro that [OF i]) (simp_all add: dispatch_ready_def kMaxBatch_def)
qed

theorem sha256d_kernel_finds_all_witness:
  "\<exists>k g k1 g1 result. init example_options example_init desktop_device (sha256d_kernel (Some example_shader)) None = Inr (k, g) \<and>
     dispatch (sha256d_shader (\<lambda>N. rev [0..<N]) (\<lambda>_ _. 7)) (example_dispatch :: nat dispatch_answers)
       (Some (sha256d_ops example_table)) (replicate 20 5) (replicate 8 0xffffffff) 3 256 k g None = Some (True, k1, g1, None) \<and>
     outstanding (sha256d_shader (\<lambda>N. rev [0..<N]) (\<lambda>_ _. 7)) (k1, g1) =
       outstanding (sha256d_shader (\<lambda>N. rev [0..<N]) (\<lambda>_ _. 7)) (k, g) @ [(256, result)] \<and>
     unat (result ! kFoundWord) = length (sha256d_results (replicate 20 5) (replicate 8 0xffffffff) 3 256)"
proof (rule example_sha256d)
  let ?run = "sha256d_shader (\<lambda>N. rev [0..<N]) (\<lambda>_ _. 7)" and ?alg = "Some (sha256d_ops example_table)"
  let ?h = "replicate 20 5 :: u32 list" and ?t = "replicate 8 0xffffffff :: u32 list"
  fix k g
  assume i: "init example_options example_init desktop_device (sha256d_kernel (Some example_shader)) None = Inr (k, g)"
    and k: "dispatch_ready k 256" "vk_push_bytes k = 124" "vk_uniform_bytes k = 0"
  have l: "length (sha256d_prepare (dispatch_job ?h ?t 3 256) 128) = 124"
  proof -
    have "length (concat (map le32enc ws)) = 4 * length ws" for ws by (induction ws) auto
    then show ?thesis
      using sha256d_push_shape(1-4) [of ?h ?t 3 256 "of_nat kMaxCandidates"]
      by (simp add: sha256d_prepare_def dispatch_job_def sha256d_push_words_def)
  qed
  have b: "dispatch_blocks ?alg (dispatch_job ?h ?t 3 256) k \<noteq> None"
    using l k by (simp add: dispatch_blocks_def sha256d_ops_def Let_def)
  have dg: "driver_grants k (example_dispatch :: nat dispatch_answers)"
    using k by (simp add: driver_grants_def example_dispatch_def)
  obtain k1 g1 sh where d: "dispatch ?run (example_dispatch :: nat dispatch_answers) ?alg ?h ?t 3 256 k g None = Some (True, k1, g1, sh)"
    using dispatch_accepts [of ?run "example_dispatch :: nat dispatch_answers" ?alg ?h ?t 3 256 k g None] b dg k(1)
    by (auto simp: dispatch_table_def)
  then have sh: "sh = None" by (auto simp: dispatch_def dispatch_table_def Let_def split: prod.splits)
  have o: "\<And>N. mset (rev [0..<N]) = mset [0..<N]" by simp
  from sha256d_kernel_finds_all [OF i example_module_ok rtranclp.rtrancl_refl o d]
  obtain result where "outstanding ?run (k1, g1) = outstanding ?run (k, g) @ [(256, result)]"
    "unat (result ! kFoundWord) = length (sha256d_results ?h ?t 3 256)" by blast
  then show ?thesis using i d sh by blast
qed

end
