(* ===== verification/Stratum_Work.thy ===== *)
theory Stratum_Work
  imports Complex_Main Sha256
begin

text \<open>
  \<^verbatim>\<open>struct work\<close> and the half of \<^verbatim>\<open>src/stratum/stratum_thread.c\<close> that makes one: the merkle root of a
  job's coinbase, the header of each dialect, the work the Stratum thread publishes and the worker's
  own rebuild of it on another extranonce2. Estimates and the strings only a log reads are left out. A string that may be null is an option.
\<close>

section \<open>The work and the job\<close>

record work =
  w_target :: "u32 list"
  w_data :: "u32 list"
  w_height :: int
  w_job_id :: "string option"
  w_xnonce2_len :: nat
  w_xnonce2 :: "u8 list option"
  w_job_epoch :: u32
  w_session :: u32
  w_nonce_base :: u64
  w_nonce :: u64
  w_mixhash :: "u8 list"
  w_have_mixhash :: bool

definition zero_work :: work where
  "zero_work = \<lparr>w_target = replicate 8 0, w_data = replicate 32 0, w_height = 0, w_job_id = None,
     w_xnonce2_len = 0, w_xnonce2 = None, w_job_epoch = 0, w_session = 0, w_nonce_base = 0, w_nonce = 0,
     w_mixhash = replicate 32 0, w_have_mixhash = False\<rparr>"

text \<open>The extranonce2 of a job is a stretch of its coinbase.\<close>

record stratum_job =
  j_prevhash :: "u8 list"
  j_job_id :: "string option"
  j_coinbase :: "u8 list"
  j_xnonce2_at :: nat
  j_merkle :: "u8 list list"
  j_version :: "u8 list"
  j_nbits :: "u8 list"
  j_ntime :: "u8 list"
  j_extra :: "u8 list"
  j_header_hash :: "u8 list"
  j_target :: "u32 list"
  j_have_target :: bool
  j_seed_hash :: "u8 list"
  j_clean :: bool
  j_diff :: rat

record stratum_ctx =
  sx_xnonce1 :: "u8 list"
  sx_xnonce2_size :: nat
  sx_job :: stratum_job
  sx_block_height :: int
  sx_new_job :: bool
  sx_next_diff :: rat
  sx_next_target :: "u32 list"
  sx_have_next_target :: bool
  sx_session_id :: "string option"

datatype stratum_dialect = STRATUM_BITCOIN | STRATUM_PROGPOW | STRATUM_LBRY

record stratum_options =
  so_dialect :: stratum_dialect
  so_coinbase_sha256 :: bool
  so_have_stratum :: bool

section \<open>The header\<close>

definition STD_NTIME_INDEX :: nat where "STD_NTIME_INDEX = 17"
definition STD_NBITS_INDEX :: nat where "STD_NBITS_INDEX = 18"
definition LBRY_CLAIM_INDEX :: nat where "LBRY_CLAIM_INDEX = 17"
definition LBRY_NTIME_INDEX :: nat where "LBRY_NTIME_INDEX = 25"
definition LBRY_NBITS_INDEX :: nat where "LBRY_NBITS_INDEX = 26"

lemmas header_layout = STD_NTIME_INDEX_def STD_NBITS_INDEX_def LBRY_CLAIM_INDEX_def LBRY_NTIME_INDEX_def LBRY_NBITS_INDEX_def

definition sha256d_gen_merkle_root :: "stratum_options \<Rightarrow> stratum_job \<Rightarrow> u8 list" where
  "sha256d_gen_merkle_root opts job =
     fold (\<lambda>branch root. sha256d (root @ take 32 branch)) (j_merkle job)
       (if so_coinbase_sha256 opts then sha256_full (j_coinbase job) else sha256d (j_coinbase job))"

definition word_le :: "u8 list \<Rightarrow> nat \<Rightarrow> u32" where "word_le bytes i = le32dec (take 4 (drop (i * 4) bytes))"
definition word_be :: "u8 list \<Rightarrow> nat \<Rightarrow> u32" where "word_be bytes i = be32dec (take 4 (drop (i * 4) bytes))"

definition put_prevhash :: "stratum_options \<Rightarrow> u8 list \<Rightarrow> u32 list \<Rightarrow> u32 list" where
  "put_prevhash opts prevhash d =
     (if so_have_stratum opts then for_up 8 (\<lambda>i d. d[1 + i := word_le prevhash i]) d
      else for_up 8 (\<lambda>i d. d[8 - i := word_le prevhash i]) d)"

definition std_build_block_header ::
  "stratum_options \<Rightarrow> u32 \<Rightarrow> u8 list \<Rightarrow> u8 list \<Rightarrow> u32 \<Rightarrow> u32 \<Rightarrow> work \<Rightarrow> work" where
  "std_build_block_header opts version prevhash merkle_tree ntime nbits w =
     (let d = (replicate 32 0)[0 := version];
          d = put_prevhash opts prevhash d;
          d = for_up 8 (\<lambda>i d. d[9 + i := word_be merkle_tree i]) d;
          d = d[STD_NTIME_INDEX := ntime, STD_NBITS_INDEX := nbits, 20 := 0x80000000, 31 := 0x280]
      in w\<lparr>w_data := d\<rparr>)"

definition lbry_build_block_header ::
  "stratum_options \<Rightarrow> u32 \<Rightarrow> u8 list \<Rightarrow> u8 list \<Rightarrow> u8 list \<Rightarrow> u32 \<Rightarrow> u32 \<Rightarrow> work \<Rightarrow> work" where
  "lbry_build_block_header opts version prevhash merkle_tree claim ntime nbits w =
     (let d = (replicate 32 0)[0 := version];
          d = put_prevhash opts prevhash d;
          d = for_up 8 (\<lambda>i d. d[9 + i := word_be merkle_tree i]) d;
          d = for_up 8 (\<lambda>i d. d[LBRY_CLAIM_INDEX + i := word_le claim i]) d;
          d = d[LBRY_NTIME_INDEX := ntime, LBRY_NBITS_INDEX := nbits, 28 := 0x80000000, 31 := 0x380]
      in w\<lparr>w_data := d\<rparr>)"

definition std_build_extraheader :: "stratum_options \<Rightarrow> stratum_ctx \<Rightarrow> work \<Rightarrow> work" where
  "std_build_extraheader opts sctx w =
     (let job = sx_job sctx;
          merkle_tree = sha256d_gen_merkle_root opts job
      in if so_dialect opts = STRATUM_LBRY
         then lbry_build_block_header opts (le32dec (j_version job)) (j_prevhash job) merkle_tree (j_extra job)
                (le32dec (j_ntime job)) (le32dec (j_nbits job)) w
         else std_build_block_header opts (le32dec (j_version job)) (j_prevhash job) merkle_tree
                (le32dec (j_ntime job)) (le32dec (j_nbits job)) w)"

section \<open>The extranonce2\<close>

definition job_xnonce2 :: "stratum_ctx \<Rightarrow> u8 list" where
  "job_xnonce2 sctx = take (sx_xnonce2_size sctx) (drop (j_xnonce2_at (sx_job sctx)) (j_coinbase (sx_job sctx)))"

definition put_xnonce2 :: "nat \<Rightarrow> u8 \<Rightarrow> stratum_ctx \<Rightarrow> stratum_ctx" where
  "put_xnonce2 i b sctx =
     (let job = sx_job sctx
      in sctx\<lparr>sx_job := job\<lparr>j_coinbase := (j_coinbase job)[j_xnonce2_at job + i := b]\<rparr>\<rparr>)"

definition stratum_set_extranonce2 ::
  "stratum_options \<Rightarrow> work \<Rightarrow> stratum_ctx \<Rightarrow> u64 \<Rightarrow> bool \<times> work \<times> stratum_ctx" where
  "stratum_set_extranonce2 opts w sctx counter =
     (if sx_xnonce2_size sctx \<noteq> 0 \<and> j_job_id (sx_job sctx) \<noteq> None \<and> w_job_id w \<noteq> None \<and>
         j_job_id (sx_job sctx) = w_job_id w
      then
        let sctx = for_up (sx_xnonce2_size sctx)
                     (\<lambda>i. put_xnonce2 i (if i < 8 then ucast (drop_bit (i * 8) counter) else 0)) sctx;
            w = w\<lparr>w_xnonce2_len := sx_xnonce2_size sctx, w_xnonce2 := Some (job_xnonce2 sctx)\<rparr>
        in (True, std_build_extraheader opts sctx w, sctx)
      else (False, w, sctx))"

text \<open>The counter of the thread's own sequence, one up: the carry stops at the first byte that does not wrap.\<close>

fun bump_xnonce2 :: "nat \<Rightarrow> nat \<Rightarrow> stratum_ctx \<Rightarrow> stratum_ctx" where
  "bump_xnonce2 t 0 sctx = sctx"
| "bump_xnonce2 t (Suc left) sctx =
     (let b = job_xnonce2 sctx ! t + 1;
          sctx = put_xnonce2 t b sctx
      in if b \<noteq> 0 then sctx else bump_xnonce2 (t + 1) left sctx)"

section \<open>The work the Stratum thread publishes\<close>

definition progpow_gen_work :: "stratum_ctx \<Rightarrow> work \<Rightarrow> work" where
  "progpow_gen_work sctx w =
     (let d = for_up 8 (\<lambda>i d. d[i := word_be (j_header_hash (sx_job sctx)) i]) (replicate 32 0);
          d = d[8 := of_int (sx_block_height sctx)];
          base = fold (\<lambda>i base. base OR push_bit (56 - i * 8) (ucast (sx_xnonce1 sctx ! i)))
                   [0..<min (length (sx_xnonce1 sctx)) 8] 0
      in w\<lparr>w_data := d, w_target := j_target (sx_job sctx), w_nonce_base := base, w_xnonce2_len := 0\<rparr>)"

text \<open>
  \<open>set_target\<close> is \<^verbatim>\<open>diff_to_hash\<close> of the job's difficulty, which is a floating-point number: what it
  makes of the target is an argument. The second answer says whether the job is a new one.
\<close>

definition stratum_gen_work ::
  "stratum_options \<Rightarrow> u32 list \<Rightarrow> u32 \<Rightarrow> stratum_ctx \<Rightarrow> work \<Rightarrow> bool \<times> stratum_ctx \<times> work" where
  "stratum_gen_work opts set_target stratum_session sctx g_work =
     (let new_job = sx_new_job sctx;
          sctx = sctx\<lparr>sx_new_job := False\<rparr>;
          g_work = g_work\<lparr>w_job_id := j_job_id (sx_job sctx), w_height := sx_block_height sctx\<rparr>;
          g_work = (if so_dialect opts = STRATUM_PROGPOW then progpow_gen_work sctx g_work
                    else (std_build_extraheader opts sctx
                           (g_work\<lparr>w_xnonce2_len := sx_xnonce2_size sctx,
                                   w_xnonce2 := Some (job_xnonce2 sctx)\<rparr>))\<lparr>w_target := set_target\<rparr>);
          g_work = g_work\<lparr>w_job_epoch := w_job_epoch g_work + 1, w_session := stratum_session\<rparr>
      in (new_job, bump_xnonce2 0 (sx_xnonce2_size sctx) sctx, g_work))"

section \<open>Lemmas: what arming an extranonce2 leaves alone\<close>

lemma build_header_frame [simp]:
  "w_target (std_build_block_header opts v p m t n w) = w_target w"
  "w_job_epoch (std_build_block_header opts v p m t n w) = w_job_epoch w"
  "w_job_id (std_build_block_header opts v p m t n w) = w_job_id w"
  "w_nonce_base (std_build_block_header opts v p m t n w) = w_nonce_base w"
  "w_target (lbry_build_block_header opts v p m c t n w) = w_target w"
  "w_job_epoch (lbry_build_block_header opts v p m c t n w) = w_job_epoch w"
  "w_job_id (lbry_build_block_header opts v p m c t n w) = w_job_id w"
  "w_nonce_base (lbry_build_block_header opts v p m c t n w) = w_nonce_base w"
  by (simp_all add: std_build_block_header_def lbry_build_block_header_def Let_def)

lemma build_extraheader_frame [simp]:
  "w_target (std_build_extraheader opts sctx w) = w_target w"
  "w_job_epoch (std_build_extraheader opts sctx w) = w_job_epoch w"
  "w_job_id (std_build_extraheader opts sctx w) = w_job_id w"
  "w_nonce_base (std_build_extraheader opts sctx w) = w_nonce_base w"
  by (simp_all add: std_build_extraheader_def Let_def)

lemma set_extranonce2_frame:
  assumes "stratum_set_extranonce2 opts w sctx counter = (ok, w', sctx')"
  shows "w_target w' = w_target w" "w_job_epoch w' = w_job_epoch w" "w_job_id w' = w_job_id w"
    "w_nonce_base w' = w_nonce_base w" "\<not> ok \<Longrightarrow> w' = w \<and> sctx' = sctx"
  using assms by (auto simp: stratum_set_extranonce2_def Let_def split: if_splits)

section \<open>Lemmas: one counter, one coinbase\<close>

definition xnonce2_byte :: "u64 \<Rightarrow> nat \<Rightarrow> u8" where
  "xnonce2_byte counter i = (if i < 8 then ucast (drop_bit (i * 8) counter) else 0)"

lemma put_xnonce2_loop:
  "for_up n (\<lambda>i. put_xnonce2 i (f i)) sctx = sctx\<lparr>sx_job := (sx_job sctx)\<lparr>j_coinbase :=
     for_up n (\<lambda>i c. c[j_xnonce2_at (sx_job sctx) + i := f i]) (j_coinbase (sx_job sctx))\<rparr>\<rparr>"
  by (induction n) (simp_all add: for_up_Suc put_xnonce2_def Let_def)

lemma nth_for_up_stretch:
  assumes "c + n \<le> length b"
  shows "for_up n (\<lambda>i b. b[c + i := f i]) b ! j = (if c \<le> j \<and> j < c + n then f (j - c) else b ! j)"
    "length (for_up n (\<lambda>i b. b[c + i := f i]) b) = length b"
proof -
  have len: "length (for_up m (\<lambda>i b. b[c + i := f i]) b) = length b" for m
    by (induction m) (simp_all add: for_up_Suc)
  then show "length (for_up n (\<lambda>i b. b[c + i := f i]) b) = length b" .
  show "for_up n (\<lambda>i b. b[c + i := f i]) b ! j = (if c \<le> j \<and> j < c + n then f (j - c) else b ! j)"
    using assms
  proof (induction n)
    case (Suc n)
    then show ?case by (auto simp: for_up_Suc nth_list_update len)
  qed auto
qed

lemma set_extranonce2_coinbase:
  assumes "stratum_set_extranonce2 opts w sctx counter = (True, w', sctx')"
    "j_xnonce2_at (sx_job sctx) + sx_xnonce2_size sctx \<le> length (j_coinbase (sx_job sctx))"
  shows "length (j_coinbase (sx_job sctx')) = length (j_coinbase (sx_job sctx))"
    "i < sx_xnonce2_size sctx \<Longrightarrow>
       j_coinbase (sx_job sctx') ! (j_xnonce2_at (sx_job sctx) + i) = xnonce2_byte counter i"
    "w_data w' = w_data (std_build_extraheader opts sctx' w')"
    "w_xnonce2 w' = Some (map (xnonce2_byte counter) [0..<sx_xnonce2_size sctx])"
proof -
  define s1 where "s1 = for_up (sx_xnonce2_size sctx) (\<lambda>i. put_xnonce2 i (xnonce2_byte counter i)) sctx"
  have e: "sctx' = s1" "w' = std_build_extraheader opts s1
      (w\<lparr>w_xnonce2_len := sx_xnonce2_size s1, w_xnonce2 := Some (job_xnonce2 s1)\<rparr>)"
    using assms(1) by (auto simp: stratum_set_extranonce2_def s1_def xnonce2_byte_def Let_def split: if_splits)
  let ?c = "j_coinbase (sx_job sctx)" and ?at = "j_xnonce2_at (sx_job sctx)" and ?n = "sx_xnonce2_size sctx"
  have s1: "j_coinbase (sx_job s1) = for_up ?n (\<lambda>i c. c[?at + i := xnonce2_byte counter i]) ?c"
    "j_xnonce2_at (sx_job s1) = ?at" "sx_xnonce2_size s1 = ?n"
    by (simp_all add: s1_def put_xnonce2_loop)
  note n = nth_for_up_stretch [OF assms(2), where f = "xnonce2_byte counter", folded s1(1)]
  show "length (j_coinbase (sx_job sctx')) = length ?c" using n(2) e(1) by simp
  show "i < ?n \<Longrightarrow> j_coinbase (sx_job sctx') ! (?at + i) = xnonce2_byte counter i" using n(1) e(1) by simp
  show "w_data w' = w_data (std_build_extraheader opts sctx' w')"
    by (simp add: e std_build_extraheader_def std_build_block_header_def lbry_build_block_header_def Let_def)
  have "job_xnonce2 s1 = map (xnonce2_byte counter) [0..<?n]"
    using n assms(2) by (intro nth_equalityI) (simp_all add: job_xnonce2_def s1(2,3))
  then show "w_xnonce2 w' = Some (map (xnonce2_byte counter) [0..<?n])"
    by (simp add: e std_build_extraheader_def std_build_block_header_def lbry_build_block_header_def Let_def)
qed

lemma xnonce2_bytes_inject:
  assumes "\<And>i. i < n \<Longrightarrow> xnonce2_byte c i = xnonce2_byte d i" "unat c < 256 ^ min n 8" "unat d < 256 ^ min n 8"
  shows "c = d"
proof -
  have high: "\<not> bit x m" if "unat x < 256 ^ k" "k * 8 \<le> m" for x :: u64 and k m
  proof -
    have "unat x < 2 ^ (k * 8)" using that(1) power_mult [of "2 :: nat" 8 k] by (simp add: mult.commute)
    also have "\<dots> \<le> 2 ^ m" using that(2) by simp
    finally have "take_bit m (unat x) = unat x" by (simp add: take_bit_nat_eq_self)
    then have "take_bit m x = x" by (simp add: word_unat_eq_iff unsigned_take_bit_eq)
    then show ?thesis by (metis bit_take_bit_iff less_irrefl)
  qed
  show ?thesis
  proof (rule bit_word_eqI)
    fix m :: nat assume m: "m < LENGTH(64)"
    show "bit c m = bit d m"
    proof (cases "m < min n 8 * 8")
      case True
      then have i: "m div 8 < n" "m div 8 < 8" by auto
      have "bit (xnonce2_byte x (m div 8)) (m mod 8) = bit x m" for x
        using i(2) by (simp add: xnonce2_byte_def bit_simps mult.commute)
      then show ?thesis using assms(1) [OF i(1)] by metis
    next
      case False
      then show ?thesis using high [OF assms(2), of m] high [OF assms(3), of m] by simp
    qed
  qed
qed

lemma sequences_apart:
  assumes "i < workers" "j < workers" "i \<noteq> j"
    and "i + workers * a < 256 ^ min (sx_xnonce2_size sctx) 8" "j + workers * b < 256 ^ min (sx_xnonce2_size sctx) 8"
    and "j_xnonce2_at (sx_job sctx) + sx_xnonce2_size sctx \<le> length (j_coinbase (sx_job sctx))"
    and "stratum_set_extranonce2 opts w sctx (of_nat (i + workers * a)) = (True, w1, sctx1)"
    and "stratum_set_extranonce2 opts v sctx (of_nat (j + workers * b)) = (True, v1, sctx2)"
  shows "j_coinbase (sx_job sctx1) \<noteq> j_coinbase (sx_job sctx2)" "w_xnonce2 w1 \<noteq> w_xnonce2 v1"
proof -
  let ?c = "of_nat (i + workers * a) :: u64" and ?d = "of_nat (j + workers * b) :: u64"
  have le: "(256 :: nat) ^ min (sx_xnonce2_size sctx) 8 \<le> 256 ^ 8" by (rule power_increasing) simp_all
  have u: "unat ?c = i + workers * a" "unat ?d = j + workers * b"
    using assms(4,5) le by (simp_all del: of_nat_add of_nat_mult)
  have ne: "?c \<noteq> ?d"
  proof
    assume "?c = ?d"
    then have "i + workers * a = j + workers * b" using u by metis
    then have "(i + workers * a) mod workers = (j + workers * b) mod workers" by simp
    then show False using assms(1-3) by simp
  qed
  have "\<exists>m < sx_xnonce2_size sctx. xnonce2_byte ?c m \<noteq> xnonce2_byte ?d m"
    using xnonce2_bytes_inject [of "sx_xnonce2_size sctx" ?c ?d] ne assms(4,5) u by auto
  then obtain m where m: "m < sx_xnonce2_size sctx" "xnonce2_byte ?c m \<noteq> xnonce2_byte ?d m" by blast
  note c1 = set_extranonce2_coinbase [OF assms(7,6)] and c2 = set_extranonce2_coinbase [OF assms(8,6)]
  show "j_coinbase (sx_job sctx1) \<noteq> j_coinbase (sx_job sctx2)"
    using c1(2) [OF m(1)] c2(2) [OF m(1)] m(2) by metis
  show "w_xnonce2 w1 \<noteq> w_xnonce2 v1"
  proof
    assume "w_xnonce2 w1 = w_xnonce2 v1"
    then have "map (xnonce2_byte ?c) [0..<sx_xnonce2_size sctx] = map (xnonce2_byte ?d) [0..<sx_xnonce2_size sctx]"
      using c1(4) c2(4) by (metis option.inject)
    from arg_cong [where f = "\<lambda>xs. xs ! m", OF this] show False using m by simp
  qed
qed

text \<open>
  Claim C24. No two workers ever mine the same coinbase. Arming the extranonce2 sequences of two
  workers, each counting from its own index in steps of the number of workers, gives two different
  coinbases whichever terms of the sequences they have got to, as long as the counters fit the field
  the pool asked for.
\<close>

theorem workers_coinbases_differ:
  assumes "i < workers" "j < workers" "i \<noteq> j"
    and "i + workers * a < 256 ^ min (sx_xnonce2_size sctx) 8" "j + workers * b < 256 ^ min (sx_xnonce2_size sctx) 8"
    and "j_xnonce2_at (sx_job sctx) + sx_xnonce2_size sctx \<le> length (j_coinbase (sx_job sctx))"
    and "stratum_set_extranonce2 opts w sctx (of_nat (i + workers * a)) = (True, w1, sctx1)"
    and "stratum_set_extranonce2 opts v sctx (of_nat (j + workers * b)) = (True, v1, sctx2)"
  shows "j_coinbase (sx_job sctx1) \<noteq> j_coinbase (sx_job sctx2) \<and> w_xnonce2 w1 \<noteq> w_xnonce2 v1"
  using sequences_apart [OF assms] by simp

definition example_sctx :: stratum_ctx where
  "example_sctx = \<lparr>sx_xnonce1 = [0xAB], sx_xnonce2_size = 2,
     sx_job = \<lparr>j_prevhash = replicate 32 1, j_job_id = Some ''7f'', j_coinbase = [1, 0xAB, 0, 0, 9], j_xnonce2_at = 2,
       j_merkle = [], j_version = [2, 0, 0, 0], j_nbits = [3, 0, 0, 0], j_ntime = [4, 0, 0, 0], j_extra = [],
       j_header_hash = [], j_target = replicate 8 0, j_have_target = False, j_seed_hash = [], j_clean = True, j_diff = 1\<rparr>,
     sx_block_height = 5, sx_new_job = False, sx_next_diff = 1, sx_next_target = [], sx_have_next_target = False, sx_session_id = None\<rparr>"

definition example_work :: work where "example_work = zero_work\<lparr>w_job_id := Some ''7f''\<rparr>"

definition example_dialect :: stratum_options where
  "example_dialect = \<lparr>so_dialect = STRATUM_BITCOIN, so_coinbase_sha256 = False, so_have_stratum = True\<rparr>"

definition example_armed :: "nat \<Rightarrow> work \<times> stratum_ctx" where
  "example_armed counter = snd (stratum_set_extranonce2 example_dialect example_work example_sctx (of_nat counter))"

lemma example_armed_ok:
  "stratum_set_extranonce2 example_dialect example_work example_sctx (of_nat counter) =
     (True, fst (example_armed counter), snd (example_armed counter))"
proof -
  have "fst (stratum_set_extranonce2 example_dialect example_work example_sctx (of_nat counter))"
    by (simp add: stratum_set_extranonce2_def example_sctx_def example_work_def Let_def)
  then show ?thesis unfolding example_armed_def by (metis prod.collapse)
qed

text \<open>The third coinbase of the first of three workers and the second of the last.\<close>

theorem workers_coinbases_differ_witness:
  "j_coinbase (sx_job (snd (example_armed 6))) \<noteq> j_coinbase (sx_job (snd (example_armed 5))) \<and>
   w_xnonce2 (fst (example_armed 6)) \<noteq> w_xnonce2 (fst (example_armed 5))"  using workers_coinbases_differ [of 0 3 2 2 example_sctx 1 example_dialect example_work
      "fst (example_armed 6)" "snd (example_armed 6)" example_work "fst (example_armed 5)" "snd (example_armed 5)"]
    example_armed_ok [of 6] example_armed_ok [of 5]
  by (simp add: example_sctx_def)

end
