(* ===== verification/Candidate_Log.thy ===== *)
theory Candidate_Log
  imports Backend
begin

text \<open>
  \<^verbatim>\<open>src/scheduler/candidate_log.{h,cpp}\<close>: the candidates a device reported and the host would not
  confirm, kept in a file and read back.
\<close>

datatype CandidateFault = BelowTarget | WrongDigest

record CapturedCandidate =
  cc_fault :: CandidateFault
  cc_device :: int
  cc_nonce :: u64
  cc_header :: "u32 list"
  cc_target :: "u32 list"
  cc_device_hash :: "u32 list"
  cc_host_hash :: "u32 list"

end
