(* ===== verification/Worker.thy ===== *)
theory Worker
  imports Complex_Main Candidate_Log Stratum_Work
begin

text \<open>
  \<^verbatim>\<open>src/scheduler/worker.cpp\<close>: the thread that keeps one device busy. The algorithm and the kernel are
  records of the operations the thread calls, over states of their own; what it reads from outside (the
  stop flag, the park, the job the Stratum thread published, the clock, what the backend builds) is a
  record of answers, one for each turn of the loop. Everything it does to the outside is noted in a log,
  newest first. The periodic reports, \<^verbatim>\<open>work_restart\<close>, which nothing reads, and the sleeps are left
  out; seconds are counted in nanoseconds, hashes are numbers.
\<close>

unbundle bit_operations_syntax

section \<open>What the worker calls\<close>

record 'a algorithm =
  am_nonce_bits :: u32
  am_nonce_word :: nat
  am_header_bytes :: nat
  am_retarget :: "u32 list \<Rightarrow> 'a \<Rightarrow> bool \<times> 'a"
  am_hash :: "u32 list \<Rightarrow> u64 \<Rightarrow> 'a \<Rightarrow> u32 list \<times> 'a"
  am_submit_mix :: "u32 list \<Rightarrow> u64 \<Rightarrow> 'a \<Rightarrow> u8 list option \<times> 'a"
  am_state_key :: "u32 list \<Rightarrow> 'a \<Rightarrow> u64"
  am_program_key :: "u32 list \<Rightarrow> 'a \<Rightarrow> u64"
  am_known_answers :: "KnownAnswer list"
  am_reference_answers :: "KnownAnswer list"
  am_new :: 'a

text \<open>The first argument of a call to a kernel that may fail counts the calls made.\<close>

record 'k kernel_calls =
  kn_queue_depth :: "'k \<Rightarrow> u32"
  kn_preferred_batch :: "'k \<Rightarrow> u32"
  kn_prepare_state :: "nat \<Rightarrow> u64 \<Rightarrow> 'k \<Rightarrow> bool \<times> 'k"
  kn_prepare_program :: "nat \<Rightarrow> u64 \<Rightarrow> 'k \<Rightarrow> bool \<times> 'k"
  kn_dispatch :: "nat \<Rightarrow> u32 list \<Rightarrow> u32 list \<Rightarrow> u64 \<Rightarrow> u32 \<Rightarrow> 'k \<Rightarrow> bool \<times> 'k"
  kn_collect :: "nat \<Rightarrow> nat \<Rightarrow> 'k \<Rightarrow> Solution list option \<times> 'k"
  kn_best_digest :: "'k \<Rightarrow> rat \<times> u64"
  kn_reached_count :: "'k \<Rightarrow> u64 \<times> u64 \<times> u64 \<times> u64"

definition algorithm_verify ::
  "'a algorithm \<Rightarrow> u32 list \<Rightarrow> u64 \<Rightarrow> u32 list \<Rightarrow> 'a \<Rightarrow> (bool \<times> u32 list) \<times> 'a" where
  "algorithm_verify m header nonce target a =
     (let (out, a) = am_hash m header nonce a in ((fulltest out target, out), a))"

section \<open>What the worker is told\<close>

text \<open>
  One turn of the loop: the stop flag; whether a park is asked for, whether it is one that keeps the
  shared table, and what the algorithm is called when it ends; whether there is a job at all, its epoch
  when it is compared and the job when it is copied; the tuned specification, whether the device has room
  for it and the kernel the backend makes; whether a failed build has a profile to go back to; and the
  Stratum connection when its extranonce2 is set.
\<close>

record 'k pass =
  ps_stop :: bool
  ps_wants_park :: bool
  ps_retains :: bool
  ps_algo :: string
  ps_has_work :: bool
  ps_epoch :: u32
  ps_g_work :: work
  ps_spec :: KernelSpec
  ps_would_fit :: "KernelSpec \<Rightarrow> bool"
  ps_create_kernel :: "KernelSpec \<Rightarrow> 'k option"
  ps_recoverable :: bool
  ps_stratum :: stratum_ctx

text \<open>Of the whole run: the turns, the clock at each reading of it, and the epoch of the published job as each batch comes back.\<close>

record 'k outside =
  ou_pass :: "nat \<Rightarrow> 'k pass"
  ou_now :: "nat \<Rightarrow> int"
  ou_epoch :: "nat \<Rightarrow> u32"

record run_options =
  ro_thr_id :: nat
  ro_n_threads :: nat
  ro_devices :: "int list"
  ro_benchmark :: bool
  ro_benchmark_seed :: int
  ro_benchmark_target :: int
  ro_stratum :: stratum_options

section \<open>The state of a worker\<close>

datatype event =
    Bound string
  | Built nat
  | Released
  | Launched work u64 u32
  | Collected u32 bool
  | Captured CapturedCandidate
  | Submitted work "u32 list"
  | Published nat int
  | Armed u64 work
  | Parked bool
  | SwitchFailed
  | Failed

record BatchCount =
  bc_total :: u64
  bc_stale :: u64
  bc_hashes :: u64
  bc_best :: "rat \<times> u64"
  bc_reached :: "u64 \<times> u64 \<times> u64 \<times> u64"

record ('a, 'k) worker =
  wk_methods :: "'a algorithm"
  wk_object :: 'a
  wk_name :: string
  wk_kernel :: "'k option"
  wk_depth :: nat
  wk_switch_failed :: bool
  wk_roll :: bool
  wk_first :: u64
  wk_end :: u64
  wk_work :: work
  wk_nonce :: u64
  wk_have_job :: bool
  wk_xnonce2 :: u64
  wk_armed :: bool
  wk_window_start :: int
  wk_window :: nat
  wk_inflight :: "u32 list"
  wk_batches :: BatchCount
  wk_confirmed :: u64
  wk_rejected :: u64
  wk_collects :: nat
  wk_clock :: nat
  wk_log :: "event list"

definition say :: "event \<Rightarrow> ('a, 'k) worker \<Rightarrow> ('a, 'k) worker" where
  "say e w = w\<lparr>wk_log := e # wk_log w\<rparr>"

section \<open>The rate window\<close>

definition kRateWindow :: int where "kRateWindow = 2000000000"

definition account :: "'k outside \<Rightarrow> nat \<Rightarrow> ('a, 'k) worker \<Rightarrow> ('a, 'k) worker" where
  "account env hashes w =
     (let w = w\<lparr>wk_window := wk_window w + hashes\<rparr>;
          now = ou_now env (wk_clock w);
          w = w\<lparr>wk_clock := wk_clock w + 1\<rparr>
      in if now - wk_window_start w < kRateWindow then w
         else (say (Published (wk_window w) (now - wk_window_start w)) w)\<lparr>wk_window_start := now, wk_window := 0\<rparr>)"

definition publish_parked :: "'k outside \<Rightarrow> ('a, 'k) worker \<Rightarrow> ('a, 'k) worker" where
  "publish_parked env w =
     (let now = ou_now env (wk_clock w);
          w = w\<lparr>wk_clock := wk_clock w + 1\<rparr>;
          w = say (Published (wk_window w) (now - wk_window_start w)) w;
          w = say (Published 0 1000000000) w
      in w\<lparr>wk_window_start := now, wk_window := 0\<rparr>)"

section \<open>Taking a batch back\<close>

definition capture :: "run_options \<Rightarrow> CandidateFault \<Rightarrow> Solution \<Rightarrow> u32 list \<Rightarrow> ('a, 'k) worker \<Rightarrow> ('a, 'k) worker" where
  "capture opts fault got host_hash w =
     say (Captured \<lparr>cc_fault = fault, cc_device = ro_devices opts ! ro_thr_id opts, cc_nonce = s_nonce got,
       cc_header = take 20 (w_data (wk_work w)), cc_target = w_target (wk_work w),
       cc_device_hash = s_hash got, cc_host_hash = host_hash\<rparr>) w"

definition submit_share :: "Solution \<Rightarrow> u32 list \<Rightarrow> ('a, 'k) worker \<Rightarrow> ('a, 'k) worker" where
  "submit_share got hash w =
     (let m = wk_methods w;
          work = (wk_work w)\<lparr>w_nonce := s_nonce got\<rparr>;
          work = (if am_nonce_word m * 4 < am_header_bytes m
                  then work\<lparr>w_data := (w_data work)[am_nonce_word m := ucast (s_nonce got)]\<rparr> else work);
          (mix, a) = am_submit_mix m (w_data work) (s_nonce got) (wk_object w);
          work = (case mix of None \<Rightarrow> work\<lparr>w_have_mixhash := False\<rparr>
                  | Some x \<Rightarrow> work\<lparr>w_have_mixhash := True, w_mixhash := x\<rparr>)
      in say (Submitted work hash) (w\<lparr>wk_work := work, wk_object := a\<rparr>))"

definition take_candidate :: "run_options \<Rightarrow> Solution \<Rightarrow> ('a, 'k) worker \<Rightarrow> ('a, 'k) worker" where
  "take_candidate opts got w =
     (let ((ok, hash), a) = algorithm_verify (wk_methods w) (w_data (wk_work w)) (s_nonce got) (w_target (wk_work w)) (wk_object w);
          w = w\<lparr>wk_object := a\<rparr>
      in if \<not> ok then capture opts BelowTarget got hash (w\<lparr>wk_rejected := wk_rejected w + 1\<rparr>)
         else let w = w\<lparr>wk_confirmed := wk_confirmed w + 1\<rparr>;
                  w = (if hash \<noteq> s_hash got then capture opts WrongDigest got hash w else w)
              in if ro_benchmark opts then w else submit_share got hash w)"

definition count_batch :: "run_options \<Rightarrow> 'k kernel_calls \<Rightarrow> 'k outside \<Rightarrow> u32 \<Rightarrow> ('a, 'k) worker \<Rightarrow> ('a, 'k) worker" where
  "count_batch opts ops env nonces w =
     (let b = wk_batches w;
          b = b\<lparr>bc_hashes := bc_hashes b + ucast nonces, bc_best := kn_best_digest ops (the (wk_kernel w)),
                bc_reached := kn_reached_count ops (the (wk_kernel w))\<rparr>;
          late = (\<not> ro_benchmark opts \<and> w_job_epoch (wk_work w) \<noteq> ou_epoch env (wk_collects w));
          b = b\<lparr>bc_total := bc_total b + 1\<rparr>
      in w\<lparr>wk_batches := if late then b\<lparr>bc_stale := bc_stale b + 1\<rparr> else b\<rparr>)"

definition reap :: "run_options \<Rightarrow> 'k kernel_calls \<Rightarrow> 'k outside \<Rightarrow> ('a, 'k) worker \<Rightarrow> bool \<times> ('a, 'k) worker" where
  "reap opts ops env w =
     (if wk_inflight w = [] then (True, w)
      else
        let (res, k) = kn_collect ops (wk_collects w) kMaxCandidates (the (wk_kernel w));
            nonces = hd (wk_inflight w);
            w = w\<lparr>wk_kernel := Some k, wk_inflight := tl (wk_inflight w), wk_collects := wk_collects w + 1\<rparr>;
            w = say (Collected nonces (res \<noteq> None)) w
        in case res of
             None \<Rightarrow> (False, account env 0 w)
           | Some found \<Rightarrow>
               let w = account env (unat nonces) w;
                   w = count_batch opts ops env nonces w
               in (True, fold (take_candidate opts) found w))"

lemma say_frame [simp]:
  "wk_methods (say e w) = wk_methods w" "wk_object (say e w) = wk_object w" "wk_name (say e w) = wk_name w"
  "wk_kernel (say e w) = wk_kernel w" "wk_depth (say e w) = wk_depth w"
  "wk_switch_failed (say e w) = wk_switch_failed w" "wk_roll (say e w) = wk_roll w"
  "wk_first (say e w) = wk_first w" "wk_end (say e w) = wk_end w" "wk_work (say e w) = wk_work w"
  "wk_nonce (say e w) = wk_nonce w" "wk_have_job (say e w) = wk_have_job w" "wk_xnonce2 (say e w) = wk_xnonce2 w"
  "wk_armed (say e w) = wk_armed w" "wk_inflight (say e w) = wk_inflight w" "wk_window (say e w) = wk_window w"
  "wk_collects (say e w) = wk_collects w" "wk_log (say e w) = e # wk_log w" "wk_clock (say e w) = wk_clock w"
  "wk_batches (say e w) = wk_batches w" "wk_window_start (say e w) = wk_window_start w"
  "wk_confirmed (say e w) = wk_confirmed w" "wk_rejected (say e w) = wk_rejected w"
  by (simp_all add: say_def)

text \<open>What taking a batch back leaves alone.\<close>

definition course :: "('a, 'k) worker \<Rightarrow> 'a algorithm \<times> string \<times> nat \<times> bool \<times> bool \<times> u64 \<times> u64 \<times> u64 \<times> bool \<times> u64 \<times> bool" where
  "course w = (wk_methods w, wk_name w, wk_depth w, wk_switch_failed w, wk_roll w, wk_first w, wk_end w, wk_nonce w,
     wk_have_job w, wk_xnonce2 w, wk_armed w)"

definition pipeline_of :: "('a, 'k) worker \<Rightarrow> 'k option \<times> u32 list \<times> nat" where
  "pipeline_of w = (wk_kernel w, wk_inflight w, wk_collects w)"

lemma account_frame [simp]:
  "course (account env n w) = course w" "pipeline_of (account env n w) = pipeline_of w"
  "wk_work (account env n w) = wk_work w" "wk_object (account env n w) = wk_object w"
  "wk_batches (account env n w) = wk_batches w"
  by (simp_all add: account_def course_def pipeline_of_def Let_def)

lemma capture_frame [simp]:
  "course (capture opts f got h w) = course w" "pipeline_of (capture opts f got h w) = pipeline_of w"
  "wk_work (capture opts f got h w) = wk_work w" "wk_object (capture opts f got h w) = wk_object w"
  by (simp_all add: capture_def course_def pipeline_of_def)

lemma take_candidate_frame [simp]:
  "course (take_candidate opts got w) = course w" "pipeline_of (take_candidate opts got w) = pipeline_of w"
  by (simp_all add: take_candidate_def submit_share_def course_def pipeline_of_def capture_def Let_def split: prod.splits)

lemma take_candidates_frame [simp]:
  "course (fold (take_candidate opts) found w) = course w"
  "pipeline_of (fold (take_candidate opts) found w) = pipeline_of w"
  by (induction found arbitrary: w) simp_all

lemma count_batch_frame [simp]:
  "course (count_batch opts ops env n w) = course w" "pipeline_of (count_batch opts ops env n w) = pipeline_of w"
  "wk_work (count_batch opts ops env n w) = wk_work w" "wk_object (count_batch opts ops env n w) = wk_object w"
  by (simp_all add: count_batch_def course_def pipeline_of_def Let_def)

lemma reap_pipeline:
  assumes "wk_inflight w \<noteq> []"
  shows "pipeline_of (snd (reap opts ops env w)) =
    (Some (snd (kn_collect ops (wk_collects w) kMaxCandidates (the (wk_kernel w)))), tl (wk_inflight w), wk_collects w + 1)"
  using assms by (simp add: reap_def Let_def split: prod.splits option.splits) (simp add: pipeline_of_def)

lemma reap_course [simp]: "course (snd (reap opts ops env w)) = course w"
  by (simp add: reap_def Let_def split: prod.splits option.splits) (simp add: course_def)

lemma reap_inflight [simp]: "wk_inflight (snd (reap opts ops env w)) = tl (wk_inflight w)"
proof (cases "wk_inflight w = []")
  case True
  then show ?thesis by (simp add: reap_def)
next
  case False
  from reap_pipeline [OF this] show ?thesis by (simp add: pipeline_of_def)
qed

text \<open>Each call retires one dispatch whether it succeeded or not.\<close>

function drain_worker :: "run_options \<Rightarrow> 'k kernel_calls \<Rightarrow> 'k outside \<Rightarrow> ('a, 'k) worker \<Rightarrow> ('a, 'k) worker" where
  "drain_worker opts ops env w =
     (if wk_inflight w = [] then w else drain_worker opts ops env (snd (reap opts ops env w)))"
  by pat_completeness auto

termination
  by (relation "measure (\<lambda>(opts, ops, env, w). length (wk_inflight w))") auto

declare drain_worker.simps [simp del]

section \<open>Binding an algorithm\<close>

definition kRangeMargin :: u64 where "kRangeMargin = 0x20"

definition bind_algo ::
  "run_options \<Rightarrow> (string \<Rightarrow> 'a algorithm option) \<Rightarrow> string \<Rightarrow> ('a, 'k) worker \<Rightarrow> bool \<times> ('a, 'k) worker" where
  "bind_algo opts create_algorithm opt_algo w =
     (case create_algorithm opt_algo of
        None \<Rightarrow> (False, w)
      | Some m \<Rightarrow>
          let walk_bits = min (am_nonce_bits m) 64;
              space = (if 64 \<le> walk_bits then - 1 else push_bit (unat walk_bits) 1) :: u64;
              range = space div of_nat (ro_n_threads opts);
              first = range * of_nat (ro_thr_id opts)
          in (True, say (Bound opt_algo) (w\<lparr>wk_methods := m, wk_object := am_new m, wk_name := opt_algo,
                wk_roll := walk_bits \<le> 32, wk_first := first, wk_end := first + range - kRangeMargin,
                wk_nonce := first, wk_have_job := False, wk_armed := False\<rparr>)))"

section \<open>Building a kernel\<close>

definition sharing :: "run_options \<Rightarrow> u32" where
  "sharing opts = for_up (ro_n_threads opts)
     (\<lambda>i n. if ro_devices opts ! i = ro_devices opts ! ro_thr_id opts then n + 1 else n) 0"

definition give_up :: "'k pass \<Rightarrow> ('a, 'k) worker \<Rightarrow> bool \<times> ('a, 'k) worker" where
  "give_up p w = (if ps_recoverable p then (False, (say SwitchFailed w)\<lparr>wk_switch_failed := True\<rparr>)
                  else (False, say Failed w))"

definition build_kernel ::
  "run_options \<Rightarrow> 'k kernel_calls \<Rightarrow> 'k pass \<Rightarrow> ('a, 'k) worker \<Rightarrow> bool \<times> ('a, 'k) worker" where
  "build_kernel opts ops p w =
     (let spec = (ps_spec p)\<lparr>k_concurrent_kernels := sharing opts\<rparr>
      in if \<not> ps_would_fit p spec then give_up p w
         else case ps_create_kernel p spec of
                None \<Rightarrow> give_up p (w\<lparr>wk_kernel := None\<rparr>)
              | Some k \<Rightarrow>
                  let depth = unat (max 1 (kn_queue_depth ops k))
                  in (True, say (Built depth) (w\<lparr>wk_kernel := Some k, wk_depth := depth\<rparr>)))"

text \<open>\<^verbatim>\<open>kernel.reset()\<close>\<close>

definition release :: "('a, 'k) worker \<Rightarrow> ('a, 'k) worker" where
  "release w = (if wk_kernel w = None then w else say Released (w\<lparr>wk_kernel := None\<rparr>))"

section \<open>A benchmark's work\<close>

definition benchmark_word :: "'a algorithm \<Rightarrow> nat" where
  "benchmark_word m = (if 15 < am_header_bytes m div 4 then 15 else 0)"

definition benchmark_seed_word :: "'a algorithm \<Rightarrow> nat" where
  "benchmark_seed_word m = (if benchmark_word m = 15 then 14 else 1)"

definition benchmark_work :: "run_options \<Rightarrow> 'a algorithm \<Rightarrow> work option" where
  "benchmark_work opts m =
     (let answers = (if am_known_answers m \<noteq> [] then am_known_answers m else am_reference_answers m)
      in if answers = [] then None
         else
           let d = for_up (min (am_header_bytes m div 4) 32)
                     (\<lambda>i d. d[i := word_be (ka_header (hd answers)) i]) (replicate 32 0);
               d = d[benchmark_word m := d ! benchmark_word m XOR 1];
               d = (if 0 \<le> ro_benchmark_seed opts
                    then d[benchmark_seed_word m := d ! benchmark_seed_word m XOR of_int (ro_benchmark_seed opts)] else d);
               t = (replicate 8 0)[7 := 0, 6 := 0xffff];
               t = (if 0 \<le> ro_benchmark_target opts
                    then for_up 7 (\<lambda>i t. t[i := 0xffffffff]) (t[7 := of_int (ro_benchmark_target opts)]) else t)
           in Some (zero_work\<lparr>w_data := d, w_target := t\<rparr>))"

section \<open>One turn of the loop\<close>

text \<open>
  A stage of the turn goes on with what the next one needs, or is the source's \<^verbatim>\<open>continue\<close> or
  \<^verbatim>\<open>break\<close>.
\<close>

datatype ('w, 'x) flow = Go 'x | Continue 'w | Break 'w

primrec and_then :: "('w, 'x) flow \<Rightarrow> ('x \<Rightarrow> ('w, 'y) flow) \<Rightarrow> ('w, 'y) flow" where
  "and_then (Go x) f = f x"
| "and_then (Continue w) f = Continue w"
| "and_then (Break w) f = Break w"

definition wait_turn :: "'k outside \<Rightarrow> ('a, 'k) worker \<Rightarrow> (('a, 'k) worker, 'x) flow" where
  "wait_turn env w = Continue (account env 0 w)"

definition park_turn ::
  "run_options \<Rightarrow> (string \<Rightarrow> 'a algorithm option) \<Rightarrow> 'k kernel_calls \<Rightarrow> 'k outside \<Rightarrow> 'k pass \<Rightarrow> ('a, 'k) worker \<Rightarrow>
   (('a, 'k) worker, 'x) flow" where
  "park_turn opts create ops env p w =
     (let w = release (drain_worker opts ops env w);
          w = publish_parked env w;
          w = say (Parked (ps_retains p)) w
      in if wk_name w \<noteq> ps_algo p
         then let (ok, w) = bind_algo opts create (ps_algo p) w
              in if ok then Continue w else Break (say Failed w)
         else Continue w)"

definition find_work ::
  "run_options \<Rightarrow> 'k kernel_calls \<Rightarrow> 'k outside \<Rightarrow> 'k pass \<Rightarrow> ('a, 'k) worker \<Rightarrow>
   (('a, 'k) worker, bool \<times> ('a, 'k) worker) flow" where
  "find_work opts ops env p w =
     (if ro_benchmark opts then
        if wk_have_job w then Go (False, w)
        else case benchmark_work opts (wk_methods w) of
               None \<Rightarrow> Break (say Failed w)
             | Some job \<Rightarrow> Go (True, w\<lparr>wk_work := job, wk_have_job := True\<rparr>)
      else if \<not> ps_has_work p then wait_turn env (drain_worker opts ops env w)
      else if w_job_epoch (wk_work w) = ps_epoch p then Go (False, w)
      else Go (True, (drain_worker opts ops env w)\<lparr>wk_work := ps_g_work p\<rparr>))"

definition build_or_leave ::
  "run_options \<Rightarrow> 'k kernel_calls \<Rightarrow> 'k pass \<Rightarrow> ('a, 'k) worker \<Rightarrow> (('a, 'k) worker, ('a, 'k) worker) flow" where
  "build_or_leave opts ops p w =
     (let (ok, w) = build_kernel opts ops p w
      in if ok then Go w
         else if wk_switch_failed w then Continue (w\<lparr>wk_switch_failed := False\<rparr>)
         else Break w)"

definition take_job ::
  "run_options \<Rightarrow> 'k kernel_calls \<Rightarrow> 'k outside \<Rightarrow> 'k pass \<Rightarrow> ('a, 'k) worker \<Rightarrow> (('a, 'k) worker, ('a, 'k) worker) flow" where
  "take_job opts ops env p w =
     (let w = w\<lparr>wk_nonce := wk_first w\<rparr>;
          (resized, a) = am_retarget (wk_methods w) (w_data (wk_work w)) (wk_object w);
          w = w\<lparr>wk_object := a\<rparr>
      in and_then
           (if resized \<or> wk_kernel w = None
            then build_or_leave opts ops p (if wk_kernel w \<noteq> None then release (drain_worker opts ops env w) else w)
            else Go w)
           (\<lambda>w. let w = w\<lparr>wk_xnonce2 := wk_xnonce2 w + of_nat (ro_n_threads opts), wk_armed := False\<rparr>
                 in if \<not> ro_benchmark opts \<and> wk_roll w \<and> w_xnonce2_len (wk_work w) = 0
                    then Break (say Failed w) else Go w))"

definition arm ::
  "run_options \<Rightarrow> 'k kernel_calls \<Rightarrow> 'k outside \<Rightarrow> 'k pass \<Rightarrow> ('a, 'k) worker \<Rightarrow> (('a, 'k) worker, ('a, 'k) worker) flow" where
  "arm opts ops env p w =
     (if \<not> ro_benchmark opts \<and> wk_roll w \<and> \<not> wk_armed w
      then
        let w = drain_worker opts ops env w;
            (ok, work, sctx) = stratum_set_extranonce2 (ro_stratum opts) (wk_work w) (ps_stratum p) (wk_xnonce2 w)
        in if \<not> ok then wait_turn env w
           else Go (say (Armed (wk_xnonce2 w) work) (w\<lparr>wk_work := work, wk_armed := True\<rparr>))
      else Go w)"

definition next_batch :: "'k kernel_calls \<Rightarrow> ('a, 'k) worker \<Rightarrow> u32" where
  "next_batch ops w =
     (let batch = kn_preferred_batch ops (the (wk_kernel w))
      in if wk_end w - ucast batch < wk_nonce w then ucast (wk_end w - wk_nonce w) else batch)"

definition range_done ::
  "run_options \<Rightarrow> 'k kernel_calls \<Rightarrow> 'k outside \<Rightarrow> ('a, 'k) worker \<Rightarrow> (('a, 'k) worker, 'x) flow" where
  "range_done opts ops env w =
     (if ro_benchmark opts then
        let w = drain_worker opts ops env w;
            d = w_data (wk_work w);
            i = benchmark_word (wk_methods w)
        in Continue (w\<lparr>wk_nonce := wk_first w, wk_work := (wk_work w)\<lparr>w_data := d[i := d ! i + 1]\<rparr>\<rparr>)
      else
        let w = (if wk_roll w
                 then w\<lparr>wk_xnonce2 := wk_xnonce2 w + of_nat (ro_n_threads opts), wk_armed := False\<rparr> else w)
        in Continue (w\<lparr>wk_nonce := wk_first w\<rparr>))"

definition launch ::
  "run_options \<Rightarrow> 'k kernel_calls \<Rightarrow> 'k outside \<Rightarrow> nat \<Rightarrow> u32 \<Rightarrow> ('a, 'k) worker \<Rightarrow> (('a, 'k) worker, ('a, 'k) worker) flow" where
  "launch opts ops env i batch w =
     (let data = w_data (wk_work w);
          (ok, k) = kn_prepare_state ops i (am_state_key (wk_methods w) data (wk_object w)) (the (wk_kernel w));
          w = w\<lparr>wk_kernel := Some k\<rparr>
      in if \<not> ok then wait_turn env (drain_worker opts ops env w)
         else
           let (ok, k) = kn_prepare_program ops i (am_program_key (wk_methods w) data (wk_object w)) k;
               w = w\<lparr>wk_kernel := Some k\<rparr>
           in if \<not> ok then wait_turn env (drain_worker opts ops env w)
              else
                let (ok, k) = kn_dispatch ops i data (w_target (wk_work w)) (w_nonce_base (wk_work w) OR wk_nonce w) batch k;
                    w = w\<lparr>wk_kernel := Some k\<rparr>
                in if \<not> ok then wait_turn env (drain_worker opts ops env w)
                   else Go (say (Launched (wk_work w) (wk_nonce w) batch)
                          (w\<lparr>wk_inflight := wk_inflight w @ [batch], wk_nonce := wk_nonce w + ucast batch\<rparr>)))"

definition collect_when_full ::
  "run_options \<Rightarrow> 'k kernel_calls \<Rightarrow> 'k outside \<Rightarrow> ('a, 'k) worker \<Rightarrow> (('a, 'k) worker, 'x) flow" where
  "collect_when_full opts ops env w =
     (if wk_depth w \<le> length (wk_inflight w)
      then let (ok, w) = reap opts ops env w
           in if ok then Continue w else wait_turn env (drain_worker opts ops env w)
      else Continue w)"

definition worker_turn ::
  "run_options \<Rightarrow> (string \<Rightarrow> 'a algorithm option) \<Rightarrow> 'k kernel_calls \<Rightarrow> 'k outside \<Rightarrow> nat \<Rightarrow> ('a, 'k) worker \<Rightarrow>
   (('a, 'k) worker, ('a, 'k) worker) flow" where
  "worker_turn opts create ops env i w =
     (let p = ou_pass env i
      in if ps_stop p then Break w
         else if ps_wants_park p then park_turn opts create ops env p w
         else and_then (find_work opts ops env p w)
           (\<lambda>(new_job, w). and_then (if new_job then take_job opts ops env p w else Go w)
           (\<lambda>w. and_then (if wk_kernel w = None then build_or_leave opts ops p w else Go w)
           (\<lambda>w. and_then (arm opts ops env p w)
           (\<lambda>w. let batch = next_batch ops w
                 in if batch = 0 then range_done opts ops env w
                    else and_then (launch opts ops env i batch w) (collect_when_full opts ops env))))))"

section \<open>A worker's life\<close>

definition worker_new :: "run_options \<Rightarrow> 'k outside \<Rightarrow> 'a algorithm \<Rightarrow> ('a, 'k) worker" where
  "worker_new opts env m =
     \<lparr>wk_methods = m, wk_object = am_new m, wk_name = [], wk_kernel = None, wk_depth = 1, wk_switch_failed = False,
      wk_roll = False, wk_first = 0, wk_end = 0, wk_work = zero_work, wk_nonce = 0, wk_have_job = False,
      wk_xnonce2 = of_nat (ro_thr_id opts), wk_armed = False, wk_window_start = ou_now env 0, wk_window = 0,
      wk_inflight = [],
      wk_batches = \<lparr>bc_total = 0, bc_stale = 0, bc_hashes = 0, bc_best = (0, 0), bc_reached = (0, 0, 0, 0)\<rparr>,
      wk_confirmed = 0, wk_rejected = 0, wk_collects = 0, wk_clock = 1, wk_log = []\<rparr>"

definition worker_start ::
  "run_options \<Rightarrow> (string \<Rightarrow> 'a algorithm option) \<Rightarrow> string \<Rightarrow> 'k outside \<Rightarrow> ('a, 'k) worker option" where
  "worker_start opts create opt_algo env =
     (case create opt_algo of
        None \<Rightarrow> None
      | Some m \<Rightarrow> Some (snd (bind_algo opts create opt_algo (worker_new opts env m))))"

text \<open>After so many turns: whether it is still in its loop, and where it stands.\<close>

primrec worker_run ::
  "run_options \<Rightarrow> (string \<Rightarrow> 'a algorithm option) \<Rightarrow> 'k kernel_calls \<Rightarrow> 'k outside \<Rightarrow> ('a, 'k) worker \<Rightarrow> nat \<Rightarrow>
   bool \<times> ('a, 'k) worker" where
  "worker_run opts create ops env w 0 = (True, w)"
| "worker_run opts create ops env w (Suc i) =
     (let (running, w) = worker_run opts create ops env w i
      in if \<not> running then (False, w)
         else case worker_turn opts create ops env i w of
                Go w \<Rightarrow> (True, w) | Continue w \<Rightarrow> (True, w) | Break w \<Rightarrow> (False, w))"

text \<open>What it has done when it returns: nothing before it has left the loop.\<close>

definition miner_thread ::
  "run_options \<Rightarrow> (string \<Rightarrow> 'a algorithm option) \<Rightarrow> 'k kernel_calls \<Rightarrow> 'k outside \<Rightarrow> ('a, 'k) worker \<Rightarrow> nat \<Rightarrow>
   ('a, 'k) worker option" where
  "miner_thread opts create ops env w turns =
     (let (running, w) = worker_run opts create ops env w turns
      in if running then None else Some (release (drain_worker opts ops env w)))"

section \<open>Stages, and what calls leave alone\<close>

primrec flow_all :: "('w \<Rightarrow> bool) \<Rightarrow> ('w \<Rightarrow> bool) \<Rightarrow> ('x \<Rightarrow> bool) \<Rightarrow> ('w, 'x) flow \<Rightarrow> bool" where
  "flow_all C B G (Go x) = G x"
| "flow_all C B G (Continue w) = C w"
| "flow_all C B G (Break w) = B w"

lemma flow_all_then:
  assumes "flow_all C B G f" "\<And>x. G x \<Longrightarrow> flow_all C B G' (k x)"
  shows "flow_all C B G' (and_then f k)"
  using assms by (cases f) simp_all

lemma flow_all_mono:
  assumes "flow_all C B G f" "\<And>w. C w \<Longrightarrow> C' w" "\<And>w. B w \<Longrightarrow> B' w" "\<And>x. G x \<Longrightarrow> G' x"
  shows "flow_all C' B' G' f"
  using assms by (cases f) simp_all

lemma course_parts:
  assumes "course w' = course w"
  shows "wk_methods w' = wk_methods w" "wk_name w' = wk_name w" "wk_depth w' = wk_depth w" "wk_roll w' = wk_roll w"
    "wk_first w' = wk_first w" "wk_end w' = wk_end w" "wk_nonce w' = wk_nonce w" "wk_have_job w' = wk_have_job w"
    "wk_xnonce2 w' = wk_xnonce2 w" "wk_armed w' = wk_armed w" "wk_switch_failed w' = wk_switch_failed w"
  using assms by (simp_all add: course_def)

lemmas account_course = course_parts [OF account_frame(1)]

lemma account_inflight [simp]: "wk_inflight (account env n w) = wk_inflight w" "wk_kernel (account env n w) = wk_kernel w"
  using account_frame(2) [of env n w] by (simp_all add: pipeline_of_def)

lemma flow_all_conj:
  assumes "flow_all C B G f" "flow_all C' B' G' f"
  shows "flow_all (\<lambda>w. C w \<and> C' w) (\<lambda>w. B w \<and> B' w) (\<lambda>x. G x \<and> G' x) f"
  using assms by (cases f) simp_all

lemma drain_kernel: "wk_kernel w \<noteq> None \<Longrightarrow> wk_kernel (drain_worker opts ops env w) \<noteq> None"
proof (induction opts ops env w rule: drain_worker.induct)
  case (1 opts ops env w)
  show ?case
  proof (cases "wk_inflight w = []")
    case True
    then show ?thesis using 1(2) by (simp add: drain_worker.simps [of opts ops env w])
  next
    case False
    have "wk_kernel (snd (reap opts ops env w)) \<noteq> None" using reap_pipeline [OF False, of opts ops env] by (simp add: pipeline_of_def)
    then show ?thesis using 1(1) [OF False] False by (metis drain_worker.simps)
  qed
qed

end
