(* ===== verification/Worker_Books.thy ===== *)
theory Worker_Books
  imports Worker
begin

text \<open>
  The order a worker keeps: its log is one a ledger accepts, so kernels, batches, parks and shares
  follow each other as they must whatever happens around the worker.
\<close>

section \<open>The books of a worker\<close>

text \<open>
  What a worker may do, in which order, whatever the pool, the device and the clock do: a kernel is
  built where there is none and given up, like a park begun or an algorithm changed, only with nothing
  outstanding; a batch is launched only while the kernel has room, and only beside batches of the same
  job; batches come back in the order they went; and what is submitted is a share of the batch that
  came back last: a hash of the header that batch was launched under, which meets the target it was
  launched under, sent up with that job's own fields and the nonce where the header has it.
\<close>

text \<open>What a job is, apart from where its shares are written down.\<close>

definition header_key :: "'a algorithm \<Rightarrow> u32 list \<Rightarrow> u32 list" where
  "header_key m d = (if am_nonce_word m * 4 < am_header_bytes m then d[am_nonce_word m := 0] else d)"

definition job_key :: "'a algorithm \<Rightarrow> work \<Rightarrow> work" where
  "job_key m v = v\<lparr>w_data := header_key m (w_data v), w_nonce := 0, w_mixhash := [], w_have_mixhash := False\<rparr>"

record ledger =
  ld_name :: "string option"
  ld_depth :: "nat option"
  ld_out :: "(work \<times> u64 \<times> u32) list"
  ld_back :: "(work \<times> u64 \<times> u32) option"

definition ledger_start :: ledger where
  "ledger_start = \<lparr>ld_name = None, ld_depth = None, ld_out = [], ld_back = None\<rparr>"

definition share_ok ::
  "'a algorithm \<Rightarrow> (u32 list \<Rightarrow> u64 \<Rightarrow> u32 list) \<Rightarrow> work \<Rightarrow> work \<Rightarrow> u32 list \<Rightarrow> bool" where
  "share_ok m H v share hash \<longleftrightarrow>
     job_key m share = job_key m v \<and>
     (am_nonce_word m * 4 < am_header_bytes m \<longrightarrow> (w_data share)[am_nonce_word m := ucast (w_nonce share)] = w_data share) \<and>
     hash = H (w_data v) (w_nonce share) \<and> fulltest hash (w_target v)"

fun ledger_step ::
  "(string \<Rightarrow> 'a algorithm option) \<Rightarrow> (string \<Rightarrow> u32 list \<Rightarrow> u64 \<Rightarrow> u32 list) \<Rightarrow> ledger \<Rightarrow> event \<Rightarrow> ledger option" where
  "ledger_step create H l (Bound name) =
     (if ld_depth l = None \<and> ld_out l = [] \<and> create name \<noteq> None then Some (l\<lparr>ld_name := Some name, ld_back := None\<rparr>) else None)"
| "ledger_step create H l (Built depth) =
     (if ld_depth l = None \<and> 0 < depth then Some (l\<lparr>ld_depth := Some depth\<rparr>) else None)"
| "ledger_step create H l Released =
     (if ld_depth l \<noteq> None \<and> ld_out l = [] then Some (l\<lparr>ld_depth := None\<rparr>) else None)"
| "ledger_step create H l (Launched v n c) =
     (case (ld_name l, ld_depth l) of
        (Some name, Some depth) \<Rightarrow>
          if length (ld_out l) < depth \<and>
             list_all (\<lambda>(u, _). job_key (the (create name)) u = job_key (the (create name)) v) (ld_out l)
          then Some (l\<lparr>ld_out := ld_out l @ [(v, n, c)]\<rparr>) else None
      | _ \<Rightarrow> None)"
| "ledger_step create H l (Collected c ok) =
     (case ld_out l of
        [] \<Rightarrow> None
      | (v, n, c') # rest \<Rightarrow>
          if c = c' then Some (l\<lparr>ld_out := rest, ld_back := if ok then Some (v, n, c) else None\<rparr>) else None)"
| "ledger_step create H l (Submitted share hash) =
     (case (ld_name l, ld_back l) of
        (Some name, Some (v, n, c)) \<Rightarrow> if share_ok (the (create name)) (H name) v share hash then Some l else None
      | _ \<Rightarrow> None)"
| "ledger_step create H l (Armed counter v) = (if ld_out l = [] then Some l else None)"
| "ledger_step create H l (Parked retains) = (if ld_depth l = None \<and> ld_out l = [] then Some l else None)"
| "ledger_step create H l (Captured bad) = (if ld_back l \<noteq> None then Some l else None)"
| "ledger_step create H l (Published hashes ns) = Some l"
| "ledger_step create H l SwitchFailed = Some l"
| "ledger_step create H l Failed = Some l"

primrec ledger_of ::
  "(string \<Rightarrow> 'a algorithm option) \<Rightarrow> (string \<Rightarrow> u32 list \<Rightarrow> u64 \<Rightarrow> u32 list) \<Rightarrow> event list \<Rightarrow> ledger option" where
  "ledger_of create H [] = Some ledger_start"
| "ledger_of create H (e # es) = Option.bind (ledger_of create H es) (\<lambda>l. ledger_step create H l e)"

text \<open>What the worker counts on of an algorithm: its hash is of the header and the nonce, and reads no nonce out of the header.\<close>

locale hashing =
  fixes create :: "string \<Rightarrow> 'a algorithm option"
    and H :: "string \<Rightarrow> u32 list \<Rightarrow> u64 \<Rightarrow> u32 list"
  assumes hash_pure: "create name = Some m \<Longrightarrow> fst (am_hash m header nonce a) = H name header nonce"
    and hash_nonce_free: "create name = Some m \<Longrightarrow> am_nonce_word m * 4 < am_header_bytes m \<Longrightarrow>
      H name (header[am_nonce_word m := x]) nonce = H name header nonce"
begin

lemma hash_job:
  assumes "create name = Some m" "job_key m v = job_key m w"
  shows "H name (w_data v) nonce = H name (w_data w) nonce"
proof -
  have "w_data (job_key m v) = w_data (job_key m w)" using assms(2) by simp
  then have k: "header_key m (w_data v) = header_key m (w_data w)" by (simp add: job_key_def)
  have "H name (w_data x) nonce = H name (header_key m (w_data x)) nonce" for x :: work
    using hash_nonce_free [OF assms(1)] by (simp add: header_key_def)
  then show ?thesis using k by metis
qed

definition books :: "('a, 'k) worker \<Rightarrow> ledger \<Rightarrow> bool" where
  "books w l \<longleftrightarrow> ledger_of create H (wk_log w) = Some l \<and> ld_name l = Some (wk_name w) \<and>
     create (wk_name w) = Some (wk_methods w) \<and>
     ld_depth l = (if wk_kernel w = None then None else Some (wk_depth w)) \<and>
     map (\<lambda>(v, n, c). c) (ld_out l) = wk_inflight w \<and>
     (\<forall>(v, n, c) \<in> set (ld_out l). job_key (wk_methods w) v = job_key (wk_methods w) (wk_work w)) \<and>
     (wk_kernel w = None \<longrightarrow> wk_inflight w = []) \<and> 0 < wk_depth w"

lemma books_account:
  assumes "books w l"
  shows "books (account env n w) l"
  using assms by (auto simp: books_def account_def Let_def)

lemma submit_share_job:
  "\<exists>share a. submit_share got hash w = say (Submitted share hash) (w\<lparr>wk_work := share, wk_object := a\<rparr>) \<and>
     job_key (wk_methods w) share = job_key (wk_methods w) (wk_work w) \<and> w_nonce share = s_nonce got \<and>
     (am_nonce_word (wk_methods w) * 4 < am_header_bytes (wk_methods w) \<longrightarrow>
        (w_data share)[am_nonce_word (wk_methods w) := ucast (w_nonce share)] = w_data share)"
  by (auto simp: submit_share_def job_key_def header_key_def Let_def split: prod.splits option.splits)

lemma books_take_candidate:
  assumes "books w l" "ld_back l = Some (v, n, c)" "job_key (wk_methods w) v = job_key (wk_methods w) (wk_work w)"
  shows "books (take_candidate opts got w) l \<and> job_key (wk_methods w) v = job_key (wk_methods w) (wk_work (take_candidate opts got w))"
proof -
  obtain hash a where h: "am_hash (wk_methods w) (w_data (wk_work w)) (s_nonce got) (wk_object w) = (hash, a)"
    by (metis surj_pair)
  have m: "create (wk_name w) = Some (wk_methods w)" using assms(1) by (simp add: books_def)
  have hash: "hash = H (wk_name w) (w_data v) (s_nonce got)"
    using hash_pure [OF m, of "w_data (wk_work w)" "s_nonce got" "wk_object w"] hash_job [OF m assms(3)] h by simp
  show ?thesis
  proof (cases "fulltest hash (w_target (wk_work w))")
    case False
    then show ?thesis using assms
      by (simp add: take_candidate_def algorithm_verify_def h Let_def capture_def books_def)
  next
    case True
    define w1 where "w1 = w\<lparr>wk_object := a, wk_confirmed := wk_confirmed w + 1\<rparr>"
    define w2 where "w2 = (if hash \<noteq> s_hash got then capture opts WrongDigest got hash w1 else w1)"
    have e: "take_candidate opts got w = (if ro_benchmark opts then w2 else submit_share got hash w2)"
      using True by (simp add: take_candidate_def algorithm_verify_def h Let_def w1_def w2_def)
    have b2: "books w2 l" using assms by (auto simp: w2_def w1_def capture_def books_def)
    have f2: "wk_work w2 = wk_work w" "wk_methods w2 = wk_methods w" "wk_name w2 = wk_name w"
      by (simp_all add: w2_def w1_def capture_def)
    obtain share b where s: "submit_share got hash w2 = say (Submitted share hash) (w2\<lparr>wk_work := share, wk_object := b\<rparr>)"
      and k: "job_key (wk_methods w) share = job_key (wk_methods w) (wk_work w)" "w_nonce share = s_nonce got"
      and nw: "am_nonce_word (wk_methods w) * 4 < am_header_bytes (wk_methods w) \<longrightarrow>
        (w_data share)[am_nonce_word (wk_methods w) := ucast (w_nonce share)] = w_data share"
      using submit_share_job [of got hash w2] unfolding f2 by blast
    have "w_target (job_key (wk_methods w) v) = w_target (job_key (wk_methods w) (wk_work w))" using assms(3) by simp
    then have t: "w_target v = w_target (wk_work w)" by (simp add: job_key_def)
    have "share_ok (wk_methods w) (H (wk_name w)) v share hash"
      using k nw t True hash assms(3) by (simp add: share_ok_def)
    then have "books (say (Submitted share hash) (w2\<lparr>wk_work := share, wk_object := b\<rparr>)) l"
      using b2 assms(2) k f2 m by (simp add: books_def)
    then show ?thesis using e s b2 f2 k assms(3) by simp
  qed
qed

lemma books_take_candidates:
  assumes "books w l" "ld_back l = Some (v, n, c)" "job_key (wk_methods w) v = job_key (wk_methods w) (wk_work w)"
  shows "books (fold (take_candidate opts) found w) l"
  using assms
proof (induction found arbitrary: w)
  case (Cons got found)
  have "wk_methods (take_candidate opts got w) = wk_methods w"
    using take_candidate_frame(1) [of opts got w] by (simp add: course_def)
  then show ?case using Cons.IH [of "take_candidate opts got w"] books_take_candidate [OF Cons.prems] Cons.prems(2) by simp
qed simp

definition kept :: "('a, 'k) worker \<Rightarrow> bool" where "kept w \<longleftrightarrow> (\<exists>l. books w l)"

lemma course_depth: "course w' = course w \<Longrightarrow> wk_depth w' = wk_depth w \<and> wk_methods w' = wk_methods w \<and> wk_name w' = wk_name w"
  by (simp add: course_def)

lemma kept_account: "kept w \<Longrightarrow> kept (account env n w)"
  by (auto simp: kept_def intro: books_account)

lemma kept_reap:
  assumes "kept w"
  shows "kept (snd (reap opts ops env w))"
proof (cases "wk_inflight w")
  case Nil
  then show ?thesis using assms by (simp add: reap_def)
next
  case (Cons c cs)
  from assms obtain l where b: "books w l" by (auto simp: kept_def)
  then have m: "map (\<lambda>(v, n, c). c) (ld_out l) = c # cs" using Cons by (simp add: books_def)
  then obtain v n rest where o: "ld_out l = (v, n, c) # rest" "map (\<lambda>(v, n, c). c) rest = cs" by auto
  have j: "job_key (wk_methods w) v = job_key (wk_methods w) (wk_work w)" using b o by (auto simp: books_def)
  obtain res k where r: "kn_collect ops (wk_collects w) kMaxCandidates (the (wk_kernel w)) = (res, k)" by (metis surj_pair)
  define w1 where "w1 = say (Collected c (res \<noteq> None)) (w\<lparr>wk_kernel := Some k, wk_inflight := cs, wk_collects := wk_collects w + 1\<rparr>)"
  define l1 where "l1 = l\<lparr>ld_out := rest, ld_back := if res \<noteq> None then Some (v, n, c) else None\<rparr>"
  have "wk_kernel w \<noteq> None" using b Cons by (auto simp: books_def)
  then have b1: "books w1 l1" using b o by (auto simp: books_def w1_def l1_def)
  show ?thesis
  proof (cases res)
    case None
    then have "snd (reap opts ops env w) = account env 0 w1" using Cons r by (simp add: reap_def w1_def Let_def)
    then show ?thesis using kept_account [of w1 env 0] b1 by (auto simp: kept_def)
  next
    case (Some found)
    define w2 where "w2 = count_batch opts ops env c (account env (unat c) w1)"
    have e: "snd (reap opts ops env w) = fold (take_candidate opts) found w2"
      using Cons r Some by (simp add: reap_def w1_def w2_def Let_def)
    have "books (count_batch opts ops env c x) l1" if "books x l1" for x :: "('a, 'b) worker"
      using that by (simp add: books_def count_batch_def Let_def)
    then have "books w2 l1" unfolding w2_def using books_account [OF b1] by blast
    moreover have "wk_methods w2 = wk_methods w" "wk_work w2 = wk_work w"
      by (simp_all add: w2_def w1_def count_batch_def account_def Let_def)
    ultimately show ?thesis
      using books_take_candidates [of w2 l1 v n c opts found] j Some by (auto simp: e l1_def kept_def)
  qed
qed

lemma kept_drain:
  assumes "kept w"
  shows "kept (drain_worker opts ops env w)" "wk_inflight (drain_worker opts ops env w) = []"
    "course (drain_worker opts ops env w) = course w" "(wk_kernel (drain_worker opts ops env w) = None) = (wk_kernel w = None)"
proof -
  have "kept (drain_worker opts ops env w) \<and> wk_inflight (drain_worker opts ops env w) = [] \<and>
      course (drain_worker opts ops env w) = course w \<and> (wk_kernel (drain_worker opts ops env w) = None) = (wk_kernel w = None)"
    using assms
  proof (induction opts ops env w rule: drain_worker.induct)
    case (1 opts ops env w)
    show ?case
    proof (cases "wk_inflight w = []")
      case True
      then show ?thesis using 1 by (simp add: drain_worker.simps [of opts ops env w])
    next
      case False
      have "wk_kernel (snd (reap opts ops env w)) \<noteq> None"
        using reap_pipeline [OF False, of opts ops env] by (simp add: pipeline_of_def)
      moreover have "wk_kernel w \<noteq> None" using 1(2) False by (auto simp: kept_def books_def)
      ultimately show ?thesis
        using 1(1) [OF False kept_reap [OF 1(2)]] False by (metis drain_worker.simps reap_course)
    qed
  qed
  then show "kept (drain_worker opts ops env w)" "wk_inflight (drain_worker opts ops env w) = []"
    "course (drain_worker opts ops env w) = course w" "(wk_kernel (drain_worker opts ops env w) = None) = (wk_kernel w = None)"
    by simp_all
qed

text \<open>With nothing outstanding the job may change.\<close>

lemma kept_work:
  assumes "kept w" "wk_inflight w = []"
  shows "kept (w\<lparr>wk_work := v\<rparr>)"
  using assms by (auto simp: kept_def books_def)

lemma kept_release:
  assumes "kept w" "wk_inflight w = []"
  shows "kept (release w)" "wk_inflight (release w) = []" "wk_kernel (release w) = None" "wk_depth (release w) = wk_depth w"
    "course (release w) = course w"
proof -
  from assms(1) obtain l where b: "books w l" by (auto simp: kept_def)
  have "books (say Released (w\<lparr>wk_kernel := None\<rparr>)) (l\<lparr>ld_depth := None\<rparr>)" if "wk_kernel w \<noteq> None"
    using b that assms(2) by (auto simp: books_def)
  then show "kept (release w)" using assms(1) by (auto simp: kept_def release_def)
  show "wk_inflight (release w) = []" "wk_kernel (release w) = None" "wk_depth (release w) = wk_depth w" "course (release w) = course w"
    using assms(2) by (simp_all add: release_def course_def)
qed

lemma kept_say:
  assumes "kept w" "e \<in> {SwitchFailed, Failed} \<or> (\<exists>h s. e = Published h s)"
  shows "kept (say e w)"
  using assms by (auto simp: kept_def books_def)

lemma kept_parked:
  assumes "kept w" "wk_inflight w = []" "wk_kernel w = None"
  shows "kept (say (Parked r) w)"
  using assms by (auto simp: kept_def books_def)

lemma kept_bind:
  assumes "kept w" "wk_inflight w = []" "wk_kernel w = None" "bind_algo opts create name w = (ok, w')"
  shows "kept w'" "wk_inflight w' = []" "wk_kernel w' = None" "wk_depth w' = wk_depth w"
proof -
  from assms(1) obtain l where b: "books w l" by (auto simp: kept_def)
  have "books w' (if ok then l\<lparr>ld_name := Some name, ld_back := None\<rparr> else l) \<and> wk_inflight w' = [] \<and> wk_kernel w' = None \<and> wk_depth w' = wk_depth w"
    using b assms(2-4) by (auto simp: bind_algo_def books_def Let_def split: option.splits)
  then show "kept w'" "wk_inflight w' = []" "wk_kernel w' = None" "wk_depth w' = wk_depth w" by (auto simp: kept_def)
qed

lemma kept_build:
  assumes "kept w" "wk_inflight w = []" "wk_kernel w = None" "build_kernel opts ops p w = (ok, w')"
  shows "kept w'" "wk_inflight w' = []" "(wk_kernel w' = None) = (\<not> ok)" "0 < wk_depth w'" "wk_have_job w' = wk_have_job w"
proof -
  from assms(1) obtain l where b: "books w l" by (auto simp: kept_def)
  have d: "0 < unat (max 1 x)" for x :: u32 by (cases "x = 0") (auto simp: unat_gt_0 max_def)
  have "(\<exists>l'. books w' l') \<and> wk_inflight w' = [] \<and> (wk_kernel w' = None) = (\<not> ok) \<and> 0 < wk_depth w' \<and> wk_have_job w' = wk_have_job w"
  proof (cases ok)
    case True
    then obtain k where "ps_create_kernel p ((ps_spec p)\<lparr>k_concurrent_kernels := sharing opts\<rparr>) = Some k"
      "w' = say (Built (unat (max 1 (kn_queue_depth ops k)))) (w\<lparr>wk_kernel := Some k, wk_depth := unat (max 1 (kn_queue_depth ops k))\<rparr>)"
      using assms(4) by (auto simp: build_kernel_def give_up_def Let_def split: if_splits option.splits)
    then have "books w' (l\<lparr>ld_depth := Some (wk_depth w')\<rparr>)" "wk_inflight w' = []" "wk_kernel w' \<noteq> None" "0 < wk_depth w'"
      "wk_have_job w' = wk_have_job w"
      using b assms(2,3) d by (simp_all add: books_def)
    then show ?thesis using True by blast
  next
    case False
    then have "books w' l" "wk_inflight w' = []" "wk_kernel w' = None" "0 < wk_depth w'" "wk_have_job w' = wk_have_job w"
      using b assms(2-4) by (auto simp: books_def build_kernel_def give_up_def Let_def split: if_splits option.splits)
    then show ?thesis using False by blast
  qed
  then show "kept w'" "wk_inflight w' = []" "(wk_kernel w' = None) = (\<not> ok)" "0 < wk_depth w'" "wk_have_job w' = wk_have_job w"
    by (simp_all add: kept_def)
qed

text \<open>Between two turns, and within one once there is a job.\<close>

definition resting :: "run_options \<Rightarrow> ('a, 'k) worker \<Rightarrow> bool" where
  "resting opts w \<longleftrightarrow> kept w \<and> length (wk_inflight w) < wk_depth w \<and>
     (ro_benchmark opts \<and> \<not> wk_have_job w \<longrightarrow> wk_inflight w = [])"

definition mining :: "run_options \<Rightarrow> ('a, 'k) worker \<Rightarrow> bool" where
  "mining opts w \<longleftrightarrow> kept w \<and> length (wk_inflight w) < wk_depth w \<and> (ro_benchmark opts \<longrightarrow> wk_have_job w)"

lemma mining_resting: "mining opts w \<Longrightarrow> resting opts w"
  by (auto simp: mining_def resting_def)

lemma kept_cong:
  assumes "kept w" "wk_log w' = wk_log w" "wk_name w' = wk_name w" "wk_methods w' = wk_methods w" "wk_kernel w' = wk_kernel w"
    "wk_depth w' = wk_depth w" "wk_inflight w' = wk_inflight w" "wk_work w' = wk_work w"
  shows "kept w'"
proof -
  from assms(1) obtain l where "books w l" by (auto simp: kept_def)
  then have "books w' l" using assms(2-) by (simp add: books_def)
  then show ?thesis by (auto simp: kept_def)
qed

lemma kept_depth: "kept w \<Longrightarrow> 0 < wk_depth w" "kept w \<Longrightarrow> wk_kernel w = None \<Longrightarrow> wk_inflight w = []"
  by (auto simp: kept_def books_def)

lemma resting_empty: "kept w \<Longrightarrow> wk_inflight w = [] \<Longrightarrow> resting opts w"
  using kept_depth by (simp add: resting_def)

lemma resting_wait: "kept w \<Longrightarrow> wk_inflight w = [] \<Longrightarrow> flow_all (resting opts) B G (wait_turn env w)"
  by (simp add: wait_turn_def resting_empty kept_account)

lemma park_turn_kept:
  assumes "resting opts w"
  shows "flow_all (resting opts) kept G (park_turn opts create ops env p w)"
proof -
  have k: "kept w" using assms by (simp add: resting_def)
  note d = kept_drain [OF k, where opts = opts and ops = ops and env = env]
  define w1 where "w1 = release (drain_worker opts ops env w)"
  note r = kept_release [OF d(1,2), folded w1_def]
  define w2 where "w2 = say (Parked (ps_retains p)) (publish_parked env w1)"
  have "kept (publish_parked env w1) \<and> wk_inflight (publish_parked env w1) = [] \<and> wk_kernel (publish_parked env w1) = None"
    using r(1-3) by (auto simp: publish_parked_def Let_def kept_def books_def)
  then have w2: "kept w2" "wk_inflight w2 = []" "wk_kernel w2 = None"
    by (simp_all add: w2_def kept_parked)
  obtain ok w3 where b: "bind_algo opts create (ps_algo p) w2 = (ok, w3)" by (metis surj_pair)
  note kb = kept_bind [OF w2 b]
  have "kept (say Failed w3)" using kb(1) by (simp add: kept_say)
  then show ?thesis
    using resting_empty [OF w2(1,2)] resting_empty [OF kb(1,2)] b
    by (simp add: park_turn_def w1_def [symmetric] w2_def [symmetric] Let_def)
qed

lemma find_work_kept:
  assumes "resting opts w"
  shows "flow_all (resting opts) kept (\<lambda>(new_job, w). mining opts w \<and> (new_job \<longrightarrow> wk_inflight w = [])) (find_work opts ops env p w)"
proof -
  have k: "kept w" using assms by (simp add: resting_def)
  note d = kept_drain [OF k, where opts = opts and ops = ops and env = env]
  have s: "kept (say Failed w)" using k by (simp add: kept_say)
  show ?thesis
  proof (cases "ro_benchmark opts")
    case True
    then have "wk_inflight w = []" if "\<not> wk_have_job w" using assms that by (simp add: resting_def)
    moreover have "kept (w\<lparr>wk_work := job, wk_have_job := True\<rparr>)" if "wk_inflight w = []" for job
      by (rule kept_cong [OF kept_work [OF k that, of job]]) simp_all
    ultimately show ?thesis using True assms s
      by (auto simp: find_work_def mining_def resting_def kept_depth split: option.splits)
  next
    case False
    have "kept ((drain_worker opts ops env w)\<lparr>wk_work := ps_g_work p\<rparr>)" using d by (intro kept_work)
    then show ?thesis using False assms resting_wait [OF d(1,2)] d(2) kept_depth(1) [OF d(1)]
      by (auto simp: find_work_def mining_def resting_def)
  qed
qed

lemma build_or_leave_kept:
  assumes "kept w" "wk_inflight w = []" "wk_kernel w = None" "ro_benchmark opts \<longrightarrow> wk_have_job w"
  shows "flow_all (resting opts) kept (\<lambda>w. mining opts w \<and> wk_inflight w = [] \<and> wk_kernel w \<noteq> None) (build_or_leave opts ops p w)"
proof -
  obtain ok w' where b: "build_kernel opts ops p w = (ok, w')" by (metis surj_pair)
  note k = kept_build [OF assms(1-3) b]
  have "kept (w'\<lparr>wk_switch_failed := False\<rparr>)" by (rule kept_cong [OF k(1)]) simp_all
  then show ?thesis
    using resting_empty [of "w'\<lparr>wk_switch_failed := False\<rparr>"] k assms(4)
    by (cases ok) (auto simp: build_or_leave_def b Let_def mining_def)
qed

lemma take_job_kept:
  assumes "mining opts w" "wk_inflight w = []"
  shows "flow_all (resting opts) kept (\<lambda>w. mining opts w \<and> wk_inflight w = [] \<and> wk_kernel w \<noteq> None) (take_job opts ops env p w)"
proof -
  obtain resized a where r: "am_retarget (wk_methods w) (w_data (wk_work w)) (wk_object w) = (resized, a)" by (metis surj_pair)
  define w1 where "w1 = w\<lparr>wk_nonce := wk_first w, wk_object := a\<rparr>"
  have k: "kept w" using assms(1) by (simp add: mining_def)
  have "kept w1" by (rule kept_cong [OF k]) (simp_all add: w1_def)
  then have w1: "kept w1" "wk_inflight w1 = []" "ro_benchmark opts \<longrightarrow> wk_have_job w1" "0 < wk_depth w1"
    using assms kept_depth(1) [OF k] by (simp_all add: w1_def mining_def)
  define w2 where "w2 = (if wk_kernel w1 \<noteq> None then release (drain_worker opts ops env w1) else w1)"
  have w2: "kept w2" "wk_inflight w2 = []" "wk_kernel w2 = None" "wk_have_job w2 = wk_have_job w1"
    using kept_drain(3) [OF w1(1), of opts ops env] kept_release [OF kept_drain(1,2) [OF w1(1)], of opts ops env] w1
    by (simp_all add: w2_def course_def)
  let ?G = "\<lambda>w. mining opts w \<and> wk_inflight w = [] \<and> wk_kernel w \<noteq> None"
  have "flow_all (resting opts) kept ?G (if resized \<or> wk_kernel w1 = None then build_or_leave opts ops p w2 else Go w1)"
    using build_or_leave_kept [OF w2(1-3)] w2(4) w1 by (auto simp: mining_def)
  moreover have "flow_all (resting opts) kept ?G
      (let w = w\<lparr>wk_xnonce2 := wk_xnonce2 w + of_nat (ro_n_threads opts), wk_armed := False\<rparr>
       in if \<not> ro_benchmark opts \<and> wk_roll w \<and> w_xnonce2_len (wk_work w) = 0 then Break (say Failed w) else Go w)"
    if "?G w" for w
  proof -
    have "kept w" using that by (simp add: mining_def)
    then have "kept (w\<lparr>wk_xnonce2 := x, wk_armed := False\<rparr>)" for x by (rule kept_cong) simp_all
    then show ?thesis using that by (simp add: mining_def Let_def kept_say)
  qed
  ultimately have "flow_all (resting opts) kept ?G (and_then
      (if resized \<or> wk_kernel w1 = None then build_or_leave opts ops p w2 else Go w1)
      (\<lambda>w. let w = w\<lparr>wk_xnonce2 := wk_xnonce2 w + of_nat (ro_n_threads opts), wk_armed := False\<rparr>
       in if \<not> ro_benchmark opts \<and> wk_roll w \<and> w_xnonce2_len (wk_work w) = 0 then Break (say Failed w) else Go w))"
    by (rule flow_all_then)
  moreover have "take_job opts ops env p w = and_then
      (if resized \<or> wk_kernel w1 = None then build_or_leave opts ops p w2 else Go w1)
      (\<lambda>w. let w = w\<lparr>wk_xnonce2 := wk_xnonce2 w + of_nat (ro_n_threads opts), wk_armed := False\<rparr>
       in if \<not> ro_benchmark opts \<and> wk_roll w \<and> w_xnonce2_len (wk_work w) = 0 then Break (say Failed w) else Go w)"
    by (simp add: take_job_def r w1_def w2_def Let_def)
  ultimately show ?thesis by simp
qed

lemma arm_kept:
  assumes "mining opts w" "wk_kernel w \<noteq> None"
  shows "flow_all (resting opts) kept (\<lambda>w. mining opts w \<and> wk_kernel w \<noteq> None) (arm opts ops env p w)"
proof -
  have k: "kept w" using assms(1) by (simp add: mining_def)
  define w1 where "w1 = drain_worker opts ops env w"
  note d = kept_drain [OF k, where opts = opts and ops = ops and env = env, folded w1_def]
  obtain ok work sctx where s: "stratum_set_extranonce2 (ro_stratum opts) (wk_work w1) (ps_stratum p) (wk_xnonce2 w1) = (ok, work, sctx)"
    by (metis prod_cases3)
  from kept_work [OF d(1,2), of work] obtain l where "books (w1\<lparr>wk_work := work\<rparr>) l" by (auto simp: kept_def)
  then have "books (say (Armed (wk_xnonce2 w1) work) (w1\<lparr>wk_work := work, wk_armed := True\<rparr>)) l"
    using d(2) by (simp add: books_def)
  then have "kept (say (Armed (wk_xnonce2 w1) work) (w1\<lparr>wk_work := work, wk_armed := True\<rparr>))" by (auto simp: kept_def)
  then show ?thesis
    using assms d(2,4) kept_depth(1) [OF d(1)]
    by (auto simp: arm_def w1_def [symmetric] s Let_def mining_def resting_wait [OF d(1,2)])
qed

lemma range_done_kept:
  assumes "mining opts w"
  shows "flow_all (resting opts) kept G (range_done opts ops env w)"
proof (cases "ro_benchmark opts")
  case True
  have k: "kept w" using assms by (simp add: mining_def)
  define w1 where "w1 = drain_worker opts ops env w"
  note d = kept_drain [OF k, where opts = opts and ops = ops and env = env, folded w1_def]
  have "kept (w1\<lparr>wk_nonce := n, wk_work := v\<rparr>)" for n v
    by (rule kept_cong [OF kept_work [OF d(1,2), of v]]) simp_all
  then show ?thesis using True d(2) by (simp add: range_done_def w1_def [symmetric] resting_empty Let_def)
next
  case False
  have k: "kept w" using assms by (simp add: mining_def)
  have "kept (w\<lparr>wk_xnonce2 := x, wk_armed := y, wk_nonce := n\<rparr>)" "kept (w\<lparr>wk_nonce := n\<rparr>)" for x y n
    by (rule kept_cong [OF k], simp_all)+
  then show ?thesis using False assms by (simp add: range_done_def resting_def mining_def Let_def)
qed

lemma launch_kept:
  assumes "mining opts w" "wk_kernel w \<noteq> None"
  shows "flow_all (resting opts) kept (\<lambda>w. kept w \<and> wk_kernel w \<noteq> None \<and> (ro_benchmark opts \<longrightarrow> wk_have_job w) \<and>
     length (wk_inflight w) \<le> wk_depth w) (launch opts ops env i batch w)"
proof -
  from assms obtain l where b: "books w l" by (auto simp: mining_def kept_def)
  have bk: "books (w\<lparr>wk_kernel := Some k\<rparr>) l" for k using b assms(2) by (simp add: books_def)
  then have k: "kept (w\<lparr>wk_kernel := Some k\<rparr>)" for k by (auto simp: kept_def)
  note wait = resting_wait [OF kept_drain(1,2) [OF k]]
  have "kept (say (Launched (wk_work w) (wk_nonce w) batch)
      (w\<lparr>wk_kernel := Some k, wk_inflight := wk_inflight w @ [batch], wk_nonce := n\<rparr>))" for k n
  proof -
    define l1 where "l1 = l\<lparr>ld_out := ld_out l @ [(wk_work w, wk_nonce w, batch)]\<rparr>"
    have c: "length (ld_out l) < wk_depth w"
      using assms(1) b unfolding books_def mining_def by (metis length_map)
    have jobs: "list_all (\<lambda>(u, _). job_key (the (create (wk_name w))) u = job_key (the (create (wk_name w))) (wk_work w)) (ld_out l)"
      using b by (auto simp: books_def list_all_iff)
    have "ledger_step create H l (Launched (wk_work w) (wk_nonce w) batch) = Some l1"
      using bk [of k] c jobs by (simp add: books_def l1_def)
    then have "books (say (Launched (wk_work w) (wk_nonce w) batch)
        (w\<lparr>wk_kernel := Some k, wk_inflight := wk_inflight w @ [batch], wk_nonce := n\<rparr>)) l1"
      using bk [of k] by (auto simp: books_def l1_def)
    then show ?thesis by (auto simp: kept_def)
  qed
  then show ?thesis using assms(1)
    by (simp add: launch_def Let_def mining_def wait split: prod.splits)
qed

lemma collect_when_full_kept:
  assumes "kept w" "ro_benchmark opts \<longrightarrow> wk_have_job w" "length (wk_inflight w) \<le> wk_depth w"
  shows "flow_all (resting opts) kept G (collect_when_full opts ops env w)"
proof (cases "wk_depth w \<le> length (wk_inflight w)")
  case False
  then show ?thesis using assms by (auto simp: collect_when_full_def resting_def)
next
  case True
  obtain ok w1 where r: "reap opts ops env w = (ok, w1)" by (metis surj_pair)
  have k: "kept w1" "wk_inflight w1 = tl (wk_inflight w)" "course w1 = course w"
    using kept_reap [OF assms(1), of opts ops env] reap_inflight [of opts ops env w] reap_course [of opts ops env w] r by simp_all
  have "0 < length (wk_inflight w)" using True kept_depth(1) [OF assms(1)] by linarith
  then have "length (wk_inflight w1) < wk_depth w" using assms(3) unfolding k(2) length_tl by linarith
  then have "resting opts w1" using k(1) assms(2) course_parts(3,8) [OF k(3)] by (auto simp: resting_def)
  then show ?thesis using r True
    by (simp add: collect_when_full_def Let_def resting_wait [OF kept_drain(1,2) [OF k(1)]])
qed

lemma worker_turn_kept:
  fixes w :: "('a, 'k) worker"
  assumes "resting opts w"
  shows "flow_all (resting opts) kept (resting opts) (worker_turn opts create ops env i w)"
proof -
  let ?p = "ou_pass env i"
  have k: "kept w" using assms by (simp add: resting_def)
  let ?mine = "(\<lambda>w. let batch = next_batch ops w
    in if batch = 0 then range_done opts ops env w else and_then (launch opts ops env i batch w) (collect_when_full opts ops env))
    :: ('a, 'k) worker \<Rightarrow> (('a, 'k) worker, ('a, 'k) worker) flow"
  let ?armed = "\<lambda>w. and_then (arm opts ops env ?p w) ?mine"
  let ?built = "\<lambda>w. and_then (if wk_kernel w = None then build_or_leave opts ops ?p w else Go w) ?armed"
  have mine: "flow_all (resting opts) kept (resting opts) (?mine w)" if "mining opts w \<and> wk_kernel w \<noteq> None" for w
  proof -
    have "flow_all (resting opts) kept (resting opts :: ('a, 'k) worker \<Rightarrow> bool)
        (and_then (launch opts ops env i (next_batch ops w) w) (collect_when_full opts ops env))"
      by (rule flow_all_then [OF launch_kept]) (simp_all add: that collect_when_full_kept)
    then show ?thesis using that by (simp add: Let_def range_done_kept)
  qed
  have armed: "flow_all (resting opts) kept (resting opts) (?armed w)" if "mining opts w \<and> wk_kernel w \<noteq> None" for w
    using that by (intro flow_all_then [OF arm_kept] mine) simp_all
  have built: "flow_all (resting opts) kept (resting opts) (?built w)" if "mining opts w" for w
  proof (rule flow_all_then [OF _ armed])
    have "kept w" "ro_benchmark opts \<longrightarrow> wk_have_job w" using that by (simp_all add: mining_def)
    then show "flow_all (resting opts) kept (\<lambda>w. mining opts w \<and> wk_kernel w \<noteq> None)
        (if wk_kernel w = None then build_or_leave opts ops ?p w else Go w)"
      using that build_or_leave_kept [of w opts ops ?p] kept_depth(2) [of w]
      by (auto elim!: flow_all_mono)
  qed
  have job: "flow_all (resting opts) kept (resting opts)
      (and_then (if new_job then take_job opts ops env ?p w else Go w) ?built)"
    if "mining opts w \<and> (new_job \<longrightarrow> wk_inflight w = [])" for new_job w
  proof (rule flow_all_then [OF _ built])
    show "flow_all (resting opts) kept (mining opts) (if new_job then take_job opts ops env ?p w else Go w)"
      using that take_job_kept [of opts w ops env ?p] by (auto elim!: flow_all_mono)
  qed
  have "flow_all (resting opts) kept (resting opts) (and_then (find_work opts ops env ?p w)
      (\<lambda>(new_job, w). and_then (if new_job then take_job opts ops env ?p w else Go w) ?built))"
    by (rule flow_all_then [OF find_work_kept [OF assms]]) (use job in auto)
  then show ?thesis using k by (simp add: worker_turn_def Let_def park_turn_kept [OF assms])
qed

lemma worker_start_resting:
  assumes "worker_start opts create name env = Some w"
  shows "resting opts w"
proof -
  from assms obtain m where m: "create name = Some m" by (auto simp: worker_start_def split: option.splits)
  have "books w (ledger_start\<lparr>ld_name := Some name\<rparr>)" "wk_inflight w = []"
    using assms m by (auto simp: worker_start_def worker_new_def bind_algo_def books_def ledger_start_def Let_def)
  then show ?thesis by (intro resting_empty) (auto simp: kept_def)
qed

lemma worker_run_kept:
  assumes "resting opts w" "worker_run opts create ops env w i = (running, w')"
  shows "kept w'" "running \<Longrightarrow> resting opts w'"
proof -
  have "kept w' \<and> (running \<longrightarrow> resting opts w')"
    using assms(2)
  proof (induction i arbitrary: running w')
    case 0
    then show ?case using assms(1) by (simp add: resting_def)
  next
    case (Suc i)
    obtain r v where v: "worker_run opts create ops env w i = (r, v)" by (metis surj_pair)
    show ?case
    proof (cases r)
      case False
      then show ?thesis using Suc v by simp
    next
      case True
      then have "flow_all (resting opts) kept (resting opts) (worker_turn opts create ops env i v)"
        using Suc.IH [OF v] worker_turn_kept by blast
      then show ?thesis using Suc.prems v True by (auto simp: resting_def split: flow.splits)
    qed
  qed
  then show "kept w'" "running \<Longrightarrow> resting opts w'" by simp_all
qed

end

end
