(* ===== verification/Worker_Nonces.thy ===== *)
theory Worker_Nonces
  imports Worker
begin

text \<open>
  Which nonces a worker asks for: its own slice of the space, so that no two workers meet, and none twice
  under one value of its extranonce2 counter.
\<close>

section \<open>The nonces a worker is given\<close>

text \<open>The events that say which nonces have been asked for, and under which counter.\<close>

primrec of_plan :: "event \<Rightarrow> bool" where
  "of_plan (Bound name) = True"
| "of_plan (Armed counter v) = True"
| "of_plan (Launched v n c) = True"
| "of_plan (Built depth) = False"
| "of_plan Released = False"
| "of_plan (Collected c ok) = False"
| "of_plan (Captured bad) = False"
| "of_plan (Submitted v hash) = False"
| "of_plan (Published hashes ns) = False"
| "of_plan (Parked retains) = False"
| "of_plan SwitchFailed = False"
| "of_plan Failed = False"

definition plan_of :: "('a, 'k) worker \<Rightarrow> event list" where
  "plan_of w = filter of_plan (wk_log w)"

lemma plan_of_say [simp]: "plan_of (say e w) = (if of_plan e then e # plan_of w else plan_of w)"
  by (simp add: plan_of_def)

lemma plan_of_frame [simp]:
  "plan_of (account env n w) = plan_of w" "plan_of (publish_parked env w) = plan_of w" "plan_of (capture opts f got h w) = plan_of w"
  "plan_of (submit_share got h w) = plan_of w" "plan_of (count_batch opts ops env c w) = plan_of w" "plan_of (release w) = plan_of w"
  by (simp_all add: plan_of_def account_def publish_parked_def capture_def submit_share_def count_batch_def release_def Let_def
      split: prod.splits)

lemma plan_of_take [simp]: "plan_of (fold (take_candidate opts) found w) = plan_of w"
proof (induction found arbitrary: w)
  case (Cons got found)
  have "plan_of (w\<lparr>wk_object := a\<rparr>) = plan_of w" "plan_of (w\<lparr>wk_object := a, wk_rejected := r\<rparr>) = plan_of w"
    "plan_of (w\<lparr>wk_object := a, wk_confirmed := r\<rparr>) = plan_of w" for a r
    by (simp_all add: plan_of_def)
  then have "plan_of (take_candidate opts got w) = plan_of w"
    by (simp add: take_candidate_def Let_def split: prod.splits)
  then show ?case by (simp add: Cons)
qed simp

lemma plan_of_reap [simp]: "plan_of (snd (reap opts ops env w)) = plan_of w"
proof -
  have "plan_of (w\<lparr>wk_kernel := k, wk_inflight := q, wk_collects := n\<rparr>) = plan_of w" for k q n by (simp add: plan_of_def)
  then show ?thesis by (simp add: reap_def Let_def split: prod.splits option.splits)
qed

definition on_course :: "('a, 'k) worker \<Rightarrow> ('a, 'k) worker \<Rightarrow> bool" where
  "on_course w w' \<longleftrightarrow> course w' = course w \<and> plan_of w' = plan_of w"

lemma on_course_drain: "on_course w (drain_worker opts ops env w)"
proof (induction opts ops env w rule: drain_worker.induct)
  case (1 opts ops env w)
  then show ?case
    by (cases "wk_inflight w = []") (simp_all add: on_course_def drain_worker.simps [of opts ops env w])
qed

lemma on_course_release: "on_course w (release w)"
  by (simp add: on_course_def release_def course_def plan_of_def)

lemma on_course_parked: "on_course w (say (Parked r) (publish_parked env w))"
  by (simp add: on_course_def publish_parked_def course_def Let_def plan_of_def)

lemma on_course_trans: "on_course u v \<Longrightarrow> on_course v w \<Longrightarrow> on_course u w"
  by (simp add: on_course_def)

lemma on_course_account: "on_course w (account env n w)"
  by (simp add: on_course_def)

lemma on_course_build:
  assumes "build_kernel opts ops p w = (ok, w')"
  shows "plan_of w' = plan_of w" "wk_methods w' = wk_methods w" "wk_roll w' = wk_roll w" "wk_first w' = wk_first w" "wk_end w' = wk_end w"
    "wk_nonce w' = wk_nonce w" "wk_xnonce2 w' = wk_xnonce2 w" "wk_armed w' = wk_armed w"
    "wk_switch_failed w' = (wk_switch_failed w \<or> \<not> ok \<and> ps_recoverable p)" "\<not> ok \<Longrightarrow> w' = snd (give_up p w) \<or> w' = snd (give_up p (w\<lparr>wk_kernel := None\<rparr>))"
  using assms by (auto simp: build_kernel_def give_up_def plan_of_def Let_def split: if_splits option.splits)

text \<open>What a worker of a run of \<open>n\<close> may be given, for a nonce of so many bits.\<close>

definition nonce_space :: "'a algorithm \<Rightarrow> nat" where
  "nonce_space m = (if 64 \<le> am_nonce_bits m then 2 ^ 64 - 1 else 2 ^ unat (am_nonce_bits m))"

definition slice :: "run_options \<Rightarrow> nat \<Rightarrow> nat set" where
  "slice opts s = {s div ro_n_threads opts * ro_thr_id opts ..< s div ro_n_threads opts * (ro_thr_id opts + 1) - 32}"

definition batch_nonces :: "u64 \<Rightarrow> u32 \<Rightarrow> nat set" where
  "batch_nonces n c = {unat n ..< unat n + unat c}"

definition planned :: "run_options \<Rightarrow> nat \<Rightarrow> event list \<Rightarrow> bool" where
  "planned opts s es \<longleftrightarrow> (\<forall>v n c. Launched v n c \<in> set es \<longrightarrow> batch_nonces n c \<subseteq> slice opts s)"

definition ranged :: "run_options \<Rightarrow> nat \<Rightarrow> ('a, 'k) worker \<Rightarrow> bool" where
  "ranged opts s w \<longleftrightarrow>
     unat (wk_first w) = s div ro_n_threads opts * ro_thr_id opts \<and>
     unat (wk_end w) + 32 = s div ro_n_threads opts * (ro_thr_id opts + 1) \<and>
     wk_first w \<le> wk_nonce w \<and> wk_nonce w \<le> wk_end w \<and> planned opts s (plan_of w)"

lemma ranged_cong:
  assumes "ranged opts s w" "wk_first w' = wk_first w" "wk_end w' = wk_end w" "wk_nonce w' = wk_nonce w" "plan_of w' = plan_of w"
  shows "ranged opts s w'"
  using assms by (simp add: ranged_def)

lemma ranged_on_course: "ranged opts s w \<Longrightarrow> on_course w w' \<Longrightarrow> ranged opts s w'"
  by (erule ranged_cong) (simp_all add: on_course_def course_def)

lemma ranged_restart:
  assumes "ranged opts s w" "wk_first w' = wk_first w" "wk_end w' = wk_end w" "wk_nonce w' = wk_first w" "plan_of w' = plan_of w"
  shows "ranged opts s w'"
  using assms by (auto simp: ranged_def)

lemma bind_ranged:
  assumes "bind_algo opts create name w = (True, w')" "create name = Some m" "nonce_space m = s"
    and "ro_thr_id opts < ro_n_threads opts" "ro_n_threads opts < 2 ^ 32" "32 \<le> s div ro_n_threads opts" "planned opts s (plan_of w)"
  shows "ranged opts s w'"
proof -
  let ?n = "ro_n_threads opts" and ?t = "ro_thr_id opts" and ?bits = "min (am_nonce_bits m) 64"
  let ?range = "(if 64 \<le> ?bits then - 1 else push_bit (unat ?bits) 1) div of_nat ?n :: u64"
  have s: "unat (if 64 \<le> ?bits then - 1 else push_bit (unat ?bits) 1 :: u64) = s"
  proof (cases "64 \<le> am_nonce_bits m")
    case True
    then show ?thesis using assms(3) by (simp add: nonce_space_def unsigned_minus_1_eq_mask mask_eq_exp_minus_1)
  next
    case False
    then have b: "unat (am_nonce_bits m) < 64" by (simp add: word_le_nat_alt)
    then have "(2 :: nat) ^ unat (am_nonce_bits m) < 2 ^ 64" by (intro power_strict_increasing) simp_all
    then have "unat (of_nat (2 ^ unat (am_nonce_bits m)) :: u64) = 2 ^ unat (am_nonce_bits m)"
      by (intro unat_of_nat_small) simp
    then have "unat (push_bit (unat (am_nonce_bits m)) 1 :: u64) = 2 ^ unat (am_nonce_bits m)"
      by (simp add: push_bit_eq_mult)
    then show ?thesis using False assms(3) by (simp add: nonce_space_def min_def word_le_nat_alt)
  qed
  have n: "unat (of_nat ?n :: u64) = ?n" using assms(5) by (intro unat_of_nat_small) simp
  have r: "unat ?range = s div ?n" by (simp only: unat_div_distrib s n)
  have less: "s < 2 ^ 64" unfolding s [symmetric] by (rule less_le_trans [OF unat_u64_less]) simp
  have "s div ?n * (?t + 1) \<le> s div ?n * ?n" using assms(4) by (intro mult_le_mono2) simp
  also have "\<dots> \<le> s" by (rule div_times_less_eq_dividend)
  finally have top: "s div ?n * ?t + s div ?n < 2 ^ 64" using less by (simp add: algebra_simps)
  have t: "unat (of_nat ?t :: u64) = ?t" using assms(4,5) by (intro unat_of_nat_small) simp
  have f: "unat (?range * of_nat ?t) = s div ?n * ?t"
    using top r t by (subst unat_mult_exact) simp_all
  have e: "unat (?range * of_nat ?t + ?range) = s div ?n * ?t + s div ?n"
    using top f r by (subst unat_add_exact) simp_all
  have "unat (?range * of_nat ?t + ?range - kRangeMargin) = s div ?n * ?t + s div ?n - 32"
    using e assms(6) by (subst unat_sub_exact) (simp_all add: kRangeMargin_def word_le_nat_alt)
  moreover have "wk_first w' = ?range * of_nat ?t" "wk_end w' = ?range * of_nat ?t + ?range - kRangeMargin"
    "wk_nonce w' = wk_first w'" "plan_of w' = Bound name # plan_of w"
    using assms(1,2) by (auto simp: bind_algo_def plan_of_def Let_def)
  ultimately have v: "unat (wk_first w') = s div ?n * ?t" "unat (wk_end w') = s div ?n * ?t + s div ?n - 32"
    "wk_nonce w' = wk_first w'" "plan_of w' = Bound name # plan_of w"
    using f by simp_all
  have "unat (wk_first w') \<le> unat (wk_end w')" unfolding v(1,2) using assms(6) by linarith
  moreover have "unat (wk_end w') + 32 = s div ?n * (?t + 1)" unfolding v(2) using assms(6) by simp
  moreover have "planned opts s (plan_of w')" using assms(7) v(4) by (simp add: planned_def)
  ultimately show ?thesis using v(1,3) unfolding ranged_def word_le_nat_alt by simp
qed

text \<open>What every call keeps of a kernel the backend made.\<close>

locale kernel_contract =
  fixes ops :: "'k kernel_calls"
    and env :: "'k outside"
    and K :: "'k \<Rightarrow> bool"
  assumes created: "ps_create_kernel (ou_pass env i) spec = Some k \<Longrightarrow> K k"
    and state_keeps: "K k \<Longrightarrow> K (snd (kn_prepare_state ops i key k))"
    and program_keeps: "K k \<Longrightarrow> K (snd (kn_prepare_program ops i key k))"
    and dispatch_keeps: "K k \<Longrightarrow> K (snd (kn_dispatch ops i data target nonce n k))"
    and collect_keeps: "K k \<Longrightarrow> K (snd (kn_collect ops j most k))"
begin

definition manned :: "('a, 'k) worker \<Rightarrow> bool" where
  "manned w \<longleftrightarrow> (wk_kernel w = None \<longrightarrow> wk_inflight w = []) \<and> (\<forall>k. wk_kernel w = Some k \<longrightarrow> K k)"

lemma manned_cong: "manned w \<Longrightarrow> wk_kernel w' = wk_kernel w \<Longrightarrow> wk_inflight w' = wk_inflight w \<Longrightarrow> manned w'"
  by (simp add: manned_def)

lemma manned_reap:
  assumes "manned w"
  shows "manned (snd (reap opts ops env w))"
proof (cases "wk_inflight w = []")
  case True
  then show ?thesis using assms by (simp add: reap_def)
next
  case False
  then obtain k where "wk_kernel w = Some k" "K k" using assms by (auto simp: manned_def)
  then show ?thesis using reap_pipeline [OF False, of opts ops env] collect_keeps by (simp add: manned_def pipeline_of_def)
qed

lemma manned_drain:
  assumes "manned w"
  shows "manned (drain_worker opts ops env w)" "wk_inflight (drain_worker opts ops env w) = []"
proof -
  have "manned (drain_worker opts ops env w) \<and> wk_inflight (drain_worker opts ops env w) = []"
    if "manned w" "E = env" "P = ops" for w and E :: "'k outside" and P :: "'k kernel_calls"
    using that
  proof (induction opts P E w rule: drain_worker.induct)
    case (1 opts P E w)
    show ?case
    proof (cases "wk_inflight w = []")
      case True
      then show ?thesis using 1(2) by (simp add: drain_worker.simps [of opts ops env w])
    next
      case False
      then show ?thesis using 1 manned_reap [OF 1(2), of opts] by (metis drain_worker.simps)
    qed
  qed
  then show "manned (drain_worker opts ops env w)" "wk_inflight (drain_worker opts ops env w) = []" using assms by blast+
qed

lemma manned_release: "wk_inflight w = [] \<Longrightarrow> manned (release w)"
  by (simp add: manned_def release_def)

lemma manned_build:
  assumes "manned w" "wk_inflight w = []" "build_kernel opts ops (ou_pass env i) w = (ok, w')"
  shows "manned w'"
  using assms created [of i] by (auto simp: build_kernel_def give_up_def manned_def Let_def split: if_splits option.splits)

lemma manned_wait: "manned w \<Longrightarrow> manned (account env n (drain_worker opts ops env w))"
  using manned_drain(1) by (rule manned_cong) simp_all

end

text \<open>
  A run whose nonces can be split: every slice is longer than the margin, and the largest batch a kernel
  asks for does not reach past the end of this worker's.
\<close>

definition splits :: "run_options \<Rightarrow> nat \<Rightarrow> nat \<Rightarrow> bool" where
  "splits opts s most \<longleftrightarrow> ro_thr_id opts < ro_n_threads opts \<and> ro_n_threads opts < 2 ^ 32 \<and>
     32 \<le> s div ro_n_threads opts \<and> most + 32 \<le> s div ro_n_threads opts * (ro_thr_id opts + 1)"

text \<open>Every algorithm it may bind has a nonce of the same width, and its kernels ask for no more than so many at once.\<close>

locale sliced = kernel_contract ops env K
  for ops :: "'k kernel_calls" and env :: "'k outside" and K :: "'k \<Rightarrow> bool" +
  fixes opts :: run_options
    and create :: "string \<Rightarrow> 'a algorithm option"
    and s :: nat
    and most :: nat
  assumes one_width: "create name = Some m \<Longrightarrow> nonce_space m = s"
    and batch_most: "K k \<Longrightarrow> unat (kn_preferred_batch ops k) \<le> most"
begin

definition sound :: "('a, 'k) worker \<Rightarrow> bool" where
  "sound w \<longleftrightarrow> ranged opts s w \<and> manned w \<and> splits opts s most"

lemma sound_splits:
  assumes "sound w"
  shows "ro_thr_id opts < ro_n_threads opts" "ro_n_threads opts < 2 ^ 32" "32 \<le> s div ro_n_threads opts"
    "most + 32 \<le> s div ro_n_threads opts * (ro_thr_id opts + 1)"
  using assms by (simp_all add: sound_def splits_def)

definition left_sound :: "('a, 'k) worker \<Rightarrow> bool" where "left_sound w \<longleftrightarrow> planned opts s (plan_of w)"

lemma sound_left: "sound w \<Longrightarrow> left_sound w"
  by (simp add: sound_def ranged_def left_sound_def)

lemma sound_drain: "sound w \<Longrightarrow> sound (drain_worker opts ops env w)"
  using ranged_on_course [OF _ on_course_drain] manned_drain(1) by (auto simp: sound_def)

lemma sound_wait: "sound w \<Longrightarrow> flow_all sound B G (wait_turn env w)"
  using ranged_on_course [OF _ on_course_account, of opts s w env 0] manned_cong [of w "account env 0 w"]
  by (simp add: wait_turn_def sound_def)

lemma sound_work: "sound w \<Longrightarrow> sound (w\<lparr>wk_work := v\<rparr>)" "sound w \<Longrightarrow> sound (w\<lparr>wk_work := v, wk_have_job := b\<rparr>)"
  "sound w \<Longrightarrow> sound (w\<lparr>wk_object := a\<rparr>)" "sound w \<Longrightarrow> sound (w\<lparr>wk_switch_failed := b\<rparr>)" "sound w \<Longrightarrow> sound (w\<lparr>wk_work := v, wk_armed := b\<rparr>)"
  "sound w \<Longrightarrow> sound (w\<lparr>wk_xnonce2 := x, wk_armed := b\<rparr>)"
  by (auto simp: sound_def manned_def plan_of_def elim!: ranged_cong)

lemma sound_restart: "sound w \<Longrightarrow> sound (w\<lparr>wk_nonce := wk_first w\<rparr>)" "sound w \<Longrightarrow> sound (w\<lparr>wk_nonce := wk_first w, wk_work := v\<rparr>)"
  "sound w \<Longrightarrow> sound (w\<lparr>wk_nonce := wk_first w, wk_object := a\<rparr>)"
  by (auto simp: sound_def manned_def plan_of_def elim!: ranged_restart)

lemma left_sound_failed: "left_sound w \<Longrightarrow> left_sound (say Failed w)"
  by (simp add: left_sound_def)

lemma park_turn_sound:
  assumes "sound w"
  shows "flow_all sound left_sound G (park_turn opts create ops env p w)"
proof -
  define w1 where "w1 = release (drain_worker opts ops env w)"
  define w2 where "w2 = say (Parked (ps_retains p)) (publish_parked env w1)"
  have d: "sound (drain_worker opts ops env w)" "wk_inflight (drain_worker opts ops env w) = []"
    using sound_drain [OF assms] assms by (simp_all add: sound_def manned_drain(2))
  have "on_course (drain_worker opts ops env w) w2"
    unfolding w1_def w2_def by (rule on_course_trans [OF on_course_release on_course_parked])
  moreover have "wk_kernel w2 = None" "wk_inflight w2 = []"
    using d(2) by (simp_all add: w2_def w1_def publish_parked_def release_def Let_def)
  ultimately have w2: "sound w2" "wk_kernel w2 = None" "wk_inflight w2 = []"
    using d(1) ranged_on_course by (auto simp: sound_def manned_def)
  obtain ok w3 where b: "bind_algo opts create (ps_algo p) w2 = (ok, w3)" by (metis surj_pair)
  have fl: "planned opts s (plan_of w2)" using sound_left [OF w2(1)] by (simp add: left_sound_def)
  show ?thesis
  proof (cases ok)
    case True
    then obtain m where m: "create (ps_algo p) = Some m" using b by (auto simp: bind_algo_def split: option.splits)
    have "ranged opts s w3"
      by (rule bind_ranged [where w = w2 and name = "ps_algo p" and create = create]) (use b True m one_width sound_splits [OF assms] fl in auto)
    moreover have "wk_kernel w3 = None" "wk_inflight w3 = []"
      using b True w2(2,3) m by (auto simp: bind_algo_def Let_def)
    ultimately show ?thesis using w2(1) b True
      by (simp add: park_turn_def w1_def [symmetric] w2_def [symmetric] Let_def sound_def manned_def)
  next
    case False
    then have "w3 = w2" using b by (auto simp: bind_algo_def Let_def split: option.splits)
    then show ?thesis using w2(1) b False sound_left [OF w2(1)]
      by (simp add: park_turn_def w1_def [symmetric] w2_def [symmetric] Let_def left_sound_failed)
  qed
qed

lemma find_work_sound:
  assumes "sound w"
  shows "flow_all sound left_sound (\<lambda>(new_job, w). sound w) (find_work opts ops env p w)"
  using assms sound_left [OF assms]
  by (auto simp: find_work_def sound_wait sound_drain sound_work left_sound_failed split: option.splits)

lemma build_or_leave_sound:
  assumes "sound w" "wk_inflight w = []"
  shows "flow_all sound left_sound (\<lambda>w. sound w \<and> wk_kernel w \<noteq> None) (build_or_leave opts ops (ou_pass env i) w)"
proof -
  obtain ok w' where b: "build_kernel opts ops (ou_pass env i) w = (ok, w')" by (metis surj_pair)
  have "sound w'"
    using assms manned_build [OF _ assms(2) b] ranged_cong on_course_build(1,4-6) [OF b] by (auto simp: sound_def)
  moreover have "ok \<Longrightarrow> wk_kernel w' \<noteq> None"
    using b by (auto simp: build_kernel_def give_up_def Let_def split: if_splits option.splits)
  ultimately show ?thesis using sound_left by (auto simp: build_or_leave_def b Let_def sound_work)
qed

lemma take_job_sound:
  assumes "sound w"
  shows "flow_all sound left_sound (\<lambda>w. sound w \<and> wk_kernel w \<noteq> None) (take_job opts ops env (ou_pass env i) w)"
proof -
  obtain resized a where r: "am_retarget (wk_methods w) (w_data (wk_work w)) (wk_object w) = (resized, a)" by (metis surj_pair)
  define w1 where "w1 = w\<lparr>wk_nonce := wk_first w, wk_object := a\<rparr>"
  have w1: "sound w1" using sound_restart(3) [OF assms] by (simp add: w1_def)
  define w2 where "w2 = (if wk_kernel w1 \<noteq> None then release (drain_worker opts ops env w1) else w1)"
  have w2: "sound w2" "wk_inflight w2 = []"
  proof -
    have d: "wk_inflight (drain_worker opts ops env w1) = []" "sound (drain_worker opts ops env w1)"
      using w1 sound_drain by (auto simp: sound_def manned_drain(2))
    have "sound (release (drain_worker opts ops env w1))"
      using d manned_release ranged_on_course [OF _ on_course_release] by (auto simp: sound_def)
    then show "sound w2" "wk_inflight w2 = []"
      using w1 d(1) by (auto simp: w2_def sound_def manned_def release_def)
  qed
  let ?G = "\<lambda>w. sound w \<and> wk_kernel w \<noteq> None"
  have "flow_all sound left_sound ?G (if resized \<or> wk_kernel w1 = None then build_or_leave opts ops (ou_pass env i) w2 else Go w1)"
    using build_or_leave_sound [OF w2] w1 by auto
  moreover have "flow_all sound left_sound ?G
      (let w = w\<lparr>wk_xnonce2 := wk_xnonce2 w + of_nat (ro_n_threads opts), wk_armed := False\<rparr>
       in if \<not> ro_benchmark opts \<and> wk_roll w \<and> w_xnonce2_len (wk_work w) = 0 then Break (say Failed w) else Go w)"
    if "?G w" for w
    using that by (simp add: Let_def sound_work left_sound_failed sound_left)
  ultimately have "flow_all sound left_sound ?G (and_then
      (if resized \<or> wk_kernel w1 = None then build_or_leave opts ops (ou_pass env i) w2 else Go w1)
      (\<lambda>w. let w = w\<lparr>wk_xnonce2 := wk_xnonce2 w + of_nat (ro_n_threads opts), wk_armed := False\<rparr>
       in if \<not> ro_benchmark opts \<and> wk_roll w \<and> w_xnonce2_len (wk_work w) = 0 then Break (say Failed w) else Go w))"
    by (rule flow_all_then)
  moreover have "take_job opts ops env (ou_pass env i) w = and_then
      (if resized \<or> wk_kernel w1 = None then build_or_leave opts ops (ou_pass env i) w2 else Go w1)
      (\<lambda>w. let w = w\<lparr>wk_xnonce2 := wk_xnonce2 w + of_nat (ro_n_threads opts), wk_armed := False\<rparr>
       in if \<not> ro_benchmark opts \<and> wk_roll w \<and> w_xnonce2_len (wk_work w) = 0 then Break (say Failed w) else Go w)"
    by (simp add: take_job_def r w1_def w2_def Let_def)
  ultimately show ?thesis by simp
qed

lemma arm_sound:
  assumes "sound w" "wk_kernel w \<noteq> None"
  shows "flow_all sound left_sound (\<lambda>w. sound w \<and> wk_kernel w \<noteq> None) (arm opts ops env p w)"
proof -
  define w1 where "w1 = drain_worker opts ops env w"
  have w1: "sound w1" "wk_kernel w1 \<noteq> None"
  proof -
    show "sound w1" using sound_drain [OF assms(1)] by (simp add: w1_def)
    show "wk_kernel w1 \<noteq> None" unfolding w1_def by (rule drain_kernel [OF assms(2)])
  qed
  obtain ok work sctx where s: "stratum_set_extranonce2 (ro_stratum opts) (wk_work w1) (ps_stratum p) (wk_xnonce2 w1) = (ok, work, sctx)"
    by (metis prod_cases3)
  have "sound (say (Armed (wk_xnonce2 w1) work) (w1\<lparr>wk_work := work, wk_armed := True\<rparr>))"
    using w1(1) by (auto simp: sound_def ranged_def manned_def planned_def plan_of_def)
  then show ?thesis
    using assms w1 by (simp add: arm_def w1_def [symmetric] s Let_def sound_wait)
qed

lemma range_done_sound:
  assumes "sound w"
  shows "flow_all sound left_sound G (range_done opts ops env w)"
proof -
  have n: "sound (v\<lparr>wk_nonce := wk_first v, wk_work := x\<rparr>)" if "sound v" for v :: "('a, 'k) worker" and x
    using sound_restart(2) [OF that] .
  have x: "sound (w\<lparr>wk_xnonce2 := y, wk_armed := b, wk_nonce := wk_first w\<rparr>)" for y b
    using sound_restart(1) [OF sound_work(6) [OF assms]] by simp
  show ?thesis
    using n [OF sound_drain [OF assms]] x sound_restart(1) [OF assms] by (simp add: range_done_def Let_def)
qed

lemma next_batch_in_slice:
  assumes "sound w" "wk_kernel w \<noteq> None"
  shows "unat (wk_nonce w) + unat (next_batch ops w) \<le> unat (wk_end w)"
    "next_batch ops w \<le> kn_preferred_batch ops (the (wk_kernel w))"
proof -
  let ?b = "kn_preferred_batch ops (the (wk_kernel w))" and ?s = "s div ro_n_threads opts"
  have r: "unat (wk_end w) + 32 = ?s * (ro_thr_id opts + 1)" "wk_nonce w \<le> wk_end w"
    using assms(1) by (simp_all add: sound_def ranged_def)
  have K: "K (the (wk_kernel w))" using assms by (auto simp: sound_def manned_def)
  have le: "unat ?b \<le> unat (wk_end w)" using batch_most [OF K] sound_splits(4) [OF assms(1)] r(1) by linarith
  have u: "unat (ucast ?b :: u64) = unat ?b" by simp
  have d: "unat (wk_end w - ucast ?b) = unat (wk_end w) - unat ?b"
    using le u by (subst unat_sub_exact) (simp_all add: word_le_nat_alt)
  have ne: "unat (wk_nonce w) \<le> unat (wk_end w)" using r(2) by (simp add: word_le_nat_alt)
  have "unat (wk_nonce w) + unat (next_batch ops w) \<le> unat (wk_end w) \<and> next_batch ops w \<le> ?b"
  proof (cases "wk_end w - ucast ?b < wk_nonce w")
    case False
    then have "unat (wk_nonce w) \<le> unat (wk_end w) - unat ?b" by (simp add: not_less word_le_nat_alt d)
    then show ?thesis using False le by (simp add: next_batch_def Let_def)
  next
    case True
    then have "unat (wk_end w) - unat ?b < unat (wk_nonce w)" by (simp add: word_less_nat_alt d)
    then have small: "unat (wk_end w) - unat (wk_nonce w) < unat ?b" using ne le by linarith
    have e: "unat (wk_end w - wk_nonce w) = unat (wk_end w) - unat (wk_nonce w)"
      using r(2) by (intro unat_sub_exact)
    have "unat ?b < 2 ^ 32" using unat_u32_less [of ?b] by simp
    then have "unat (wk_end w) - unat (wk_nonce w) < 2 ^ 32" using small by linarith
    then have "unat (ucast (wk_end w - wk_nonce w) :: u32) = unat (wk_end w) - unat (wk_nonce w)"
      by (simp only: unsigned_ucast_eq e) (simp add: take_bit_nat_eq_self)
    then show ?thesis using True small ne by (simp add: next_batch_def Let_def word_le_nat_alt)
  qed
  then show "unat (wk_nonce w) + unat (next_batch ops w) \<le> unat (wk_end w)"
    "next_batch ops w \<le> kn_preferred_batch ops (the (wk_kernel w))" by simp_all
qed

lemma launch_sound:
  assumes "sound w" "wk_kernel w \<noteq> None"
  shows "flow_all sound left_sound sound (launch opts ops env i (next_batch ops w) w)"
proof -
  let ?b = "next_batch ops w"
  obtain k where k: "wk_kernel w = Some k" "K k" using assms by (auto simp: sound_def manned_def)
  have s: "sound (w\<lparr>wk_kernel := Some j\<rparr>)" if "K j" for j
    using assms that by (auto simp: sound_def manned_def ranged_def plan_of_def)
  have wt: "flow_all sound left_sound sound (wait_turn env (drain_worker opts ops env (w\<lparr>wk_kernel := Some j\<rparr>)))" if "K j" for j
    using s [OF that] by (simp add: sound_wait sound_drain)
  note b = next_batch_in_slice [OF assms]
  have r: "ranged opts s w" using assms(1) by (simp add: sound_def)
  have u: "unat (wk_nonce w + ucast ?b) = unat (wk_nonce w) + unat ?b"
  proof -
    have "unat (ucast ?b :: u64) = unat ?b" by simp
    then show ?thesis using b(1) unat_u64_less [of "wk_end w"] by (subst unat_add_exact) (simp_all del: unat_u64_less)
  qed
  have "sound (say (Launched (wk_work w) (wk_nonce w) ?b)
      (w\<lparr>wk_kernel := Some j, wk_inflight := wk_inflight w @ [?b], wk_nonce := wk_nonce w + ucast ?b\<rparr>))" if "K j" for j
  proof -
    have "batch_nonces (wk_nonce w) ?b \<subseteq> slice opts s"
      using r b(1) by (auto simp: ranged_def batch_nonces_def slice_def word_le_nat_alt)
    then have "planned opts s (Launched (wk_work w) (wk_nonce w) ?b # plan_of w)" using r by (auto simp: ranged_def planned_def)
    moreover have "wk_first w \<le> wk_nonce w + ucast ?b" "wk_nonce w + ucast ?b \<le> wk_end w"
      using r b(1) u by (simp_all add: ranged_def word_le_nat_alt)
    moreover have "splits opts s most" using assms(1) by (simp add: sound_def)
    ultimately show ?thesis using r that by (simp add: sound_def ranged_def manned_def plan_of_def)
  qed
  then show ?thesis
    using k(1) state_keeps [OF k(2)] program_keeps dispatch_keeps
    by (simp add: launch_def Let_def wt split: prod.splits) (metis snd_conv wt)
qed

lemma collect_when_full_sound:
  assumes "sound w"
  shows "flow_all sound left_sound G (collect_when_full opts ops env w)"
proof -
  obtain ok w1 where r: "reap opts ops env w = (ok, w1)" by (metis surj_pair)
  have "on_course w w1"
    using reap_course [of opts ops env w] plan_of_reap [of opts ops env w] r by (simp add: on_course_def)
  then have "sound w1"
    using assms ranged_on_course manned_reap [of w opts] r by (auto simp: sound_def)
  then show ?thesis using assms r by (simp add: collect_when_full_def Let_def sound_wait sound_drain)
qed

lemma worker_turn_sound:
  fixes w :: "('a, 'k) worker"
  assumes "sound w"
  shows "flow_all sound left_sound sound (worker_turn opts create ops env i w)"
proof -
  let ?p = "ou_pass env i" and ?F = "flow_all sound left_sound (sound :: ('a, 'k) worker \<Rightarrow> bool)"
  let ?mine = "(\<lambda>w. let batch = next_batch ops w
    in if batch = 0 then range_done opts ops env w else and_then (launch opts ops env i batch w) (collect_when_full opts ops env))
    :: ('a, 'k) worker \<Rightarrow> (('a, 'k) worker, ('a, 'k) worker) flow"
  let ?armed = "\<lambda>w. and_then (arm opts ops env ?p w) ?mine"
  let ?built = "\<lambda>w. and_then (if wk_kernel w = None then build_or_leave opts ops ?p w else Go w) ?armed"
  have mine: "?F (?mine w)" if "sound w \<and> wk_kernel w \<noteq> None" for w
  proof -
    have "?F (and_then (launch opts ops env i (next_batch ops w) w) (collect_when_full opts ops env))"
      by (rule flow_all_then [OF launch_sound]) (simp_all add: that collect_when_full_sound)
    then show ?thesis using that by (simp add: Let_def range_done_sound)
  qed
  have armed: "?F (?armed w)" if "sound w \<and> wk_kernel w \<noteq> None" for w
    using that by (intro flow_all_then [OF arm_sound] mine) simp_all
  have built: "?F (?built w)" if "sound w" for w
  proof (rule flow_all_then [OF _ armed])
    show "flow_all sound left_sound (\<lambda>w. sound w \<and> wk_kernel w \<noteq> None)
        (if wk_kernel w = None then build_or_leave opts ops ?p w else Go w)"
      using that build_or_leave_sound [OF that, of i] by (simp add: sound_def manned_def)
  qed
  have job: "?F (and_then (if new_job then take_job opts ops env ?p w else Go w) ?built)" if "sound w" for new_job w
  proof (rule flow_all_then [OF _ built])
    show "flow_all sound left_sound sound (if new_job then take_job opts ops env ?p w else Go w)"
      using that take_job_sound [OF that, of i] by (auto elim!: flow_all_mono)
  qed
  have "?F (and_then (find_work opts ops env ?p w)
      (\<lambda>(new_job, w). and_then (if new_job then take_job opts ops env ?p w else Go w) ?built))"
    by (rule flow_all_then [OF find_work_sound [OF assms]]) (use job in auto)
  then show ?thesis using sound_left [OF assms] by (simp add: worker_turn_def Let_def park_turn_sound [OF assms])
qed

lemma worker_run_sound:
  assumes "worker_start opts create name env = Some w" "splits opts s most" "worker_run opts create ops env w i = (running, w')"
  shows "left_sound w'" "running \<Longrightarrow> sound w'"
proof -
  from assms(1) obtain m where m: "create name = Some m" by (auto simp: worker_start_def split: option.splits)
  define v where "v = (worker_new opts env m :: ('a, 'k) worker)"
  have v: "bind_algo opts create name v = (True, w)" "plan_of v = []" "wk_kernel v = None" "wk_inflight v = []"
  proof -
    have "fst (bind_algo opts create name v)" using m by (simp add: bind_algo_def Let_def)
    then show "bind_algo opts create name v = (True, w)"
      using assms(1) m by (simp add: worker_start_def v_def [symmetric] prod_eq_iff)
  qed (simp_all add: v_def worker_new_def plan_of_def)
  have "ranged opts s w"
    by (rule bind_ranged [where w = v and name = name and create = create])
      (use v m one_width assms(2) in \<open>auto simp: planned_def splits_def\<close>)
  moreover have "manned w" using v m by (auto simp: bind_algo_def manned_def Let_def)
  ultimately have s: "sound w" using assms(2) by (simp add: sound_def)
  have "left_sound w' \<and> (running \<longrightarrow> sound w')"
    using assms(3)
  proof (induction i arbitrary: running w')
    case 0
    then show ?case using s sound_left by auto
  next
    case (Suc i)
    obtain r u where u: "worker_run opts create ops env w i = (r, u)" by (metis surj_pair)
    show ?case
    proof (cases r)
      case False
      then show ?thesis using Suc u by simp
    next
      case True
      then have "flow_all sound left_sound sound (worker_turn opts create ops env i u)"
        using Suc.IH [OF u] worker_turn_sound by blast
      then show ?thesis using Suc.prems u True sound_left by (auto split: flow.splits)
    qed
  qed
  then show "left_sound w'" "running \<Longrightarrow> sound w'" by simp_all
qed

end

lemma slices_apart:
  assumes "ro_n_threads opts = ro_n_threads opts'" "ro_thr_id opts < ro_thr_id opts'"
  shows "slice opts s \<inter> slice opts' s = {}"
proof -
  have "s div ro_n_threads opts * (ro_thr_id opts + 1) \<le> s div ro_n_threads opts * ro_thr_id opts'"
    using assms(2) by (intro mult_le_mono2) simp
  then show ?thesis using assms(1) by (auto simp: slice_def)
qed

section \<open>No nonce twice under one extranonce2 counter\<close>

text \<open>
  Every launch of a log with the algorithm it was for, counted in bindings, and the value of the
  extranonce2 counter its header was armed with.
\<close>

primrec sweeps :: "event list \<Rightarrow> nat \<times> u64 \<times> (nat \<times> u64 \<times> u64 \<times> u32) list" where
  "sweeps [] = (0, 0, [])"
| "sweeps (e # es) =
     (let (b, x, ls) = sweeps es
      in case e of
           Bound name \<Rightarrow> (b + 1, x, ls)
         | Armed y v \<Rightarrow> (b, y, ls)
         | Launched v n c \<Rightarrow> (b, x, (b, x, n, c) # ls)
         | _ \<Rightarrow> (b, x, ls))"

definition never_twice :: "event list \<Rightarrow> bool" where
  "never_twice es \<longleftrightarrow> sorted_wrt (\<lambda>(b, x, n, c) (b', x', n', c').
     b = b' \<and> x = x' \<longrightarrow> batch_nonces n c \<inter> batch_nonces n' c' = {}) (snd (snd (sweeps es)))"

lemma sweeps_plan: "sweeps (filter of_plan es) = sweeps es"
proof (induction es)
  case (Cons e es)
  then show ?case by (cases e) (simp_all split: prod.splits)
qed simp

text \<open>\<open>t\<close> bounds how often the extranonce2 has been moved.\<close>

definition swept :: "run_options \<Rightarrow> nat \<Rightarrow> ('a, 'k) worker \<Rightarrow> bool" where
  "swept opts t w \<longleftrightarrow>
     (let (b, x, ls) = sweeps (plan_of w)
      in never_twice (plan_of w) \<and> wk_roll w \<and> \<not> wk_switch_failed w \<and>
         (\<forall>(b', x', n, c) \<in> set ls. b' \<le> b \<and> (b' = b \<longrightarrow> x' \<le> wk_xnonce2 w \<and>
            (x' = wk_xnonce2 w \<longrightarrow> wk_armed w \<and> unat n + unat c \<le> unat (wk_nonce w)))) \<and>
         (wk_armed w \<longrightarrow> x = wk_xnonce2 w) \<and>
         unat (wk_xnonce2 w) \<le> ro_thr_id opts + ro_n_threads opts * t)"

lemma swept_cong:
  assumes "swept opts t w" "plan_of w' = plan_of w" "wk_roll w' = wk_roll w" "wk_switch_failed w' = wk_switch_failed w"
    "wk_xnonce2 w' = wk_xnonce2 w" "wk_armed w' = wk_armed w" "wk_nonce w' = wk_nonce w"
  shows "swept opts t w'"
  using assms by (simp add: swept_def)

lemma swept_on_course: "swept opts t w \<Longrightarrow> on_course w w' \<Longrightarrow> swept opts t w'"
  by (erule swept_cong) (simp_all add: on_course_def course_def)

lemma swept_iff:
  assumes "sweeps (plan_of w) = (b, x, ls)"
  shows "swept opts t w \<longleftrightarrow> never_twice (plan_of w) \<and> wk_roll w \<and> \<not> wk_switch_failed w \<and>
     (\<forall>(b', x', n, c) \<in> set ls. b' \<le> b \<and> (b' = b \<longrightarrow> x' \<le> wk_xnonce2 w \<and>
        (x' = wk_xnonce2 w \<longrightarrow> wk_armed w \<and> unat n + unat c \<le> unat (wk_nonce w)))) \<and>
     (wk_armed w \<longrightarrow> x = wk_xnonce2 w) \<and> unat (wk_xnonce2 w) \<le> ro_thr_id opts + ro_n_threads opts * t"
  using assms by (simp add: swept_def)

lemma swept_more: "swept opts t w \<Longrightarrow> t \<le> t' \<Longrightarrow> swept opts t' w"
proof -
  assume a: "swept opts t w" "t \<le> t'"
  obtain b x ls where s: "sweeps (plan_of w) = (b, x, ls)" by (metis prod_cases3)
  have "z \<le> ro_thr_id opts + ro_n_threads opts * t'" if "z \<le> ro_thr_id opts + ro_n_threads opts * t" for z
    using that mult_le_mono2 [OF a(2), of "ro_n_threads opts"] by linarith
  then show "swept opts t' w" using a(1) unfolding swept_iff [OF s] by blast
qed

lemma swept_left: "swept opts t w \<Longrightarrow> never_twice (plan_of w)"
  by (auto simp: swept_def Let_def split: prod.splits)

lemma swept_bump:
  assumes "swept opts t w" "plan_of w' = plan_of w" "wk_roll w' = wk_roll w" "\<not> wk_switch_failed w'"
    "wk_xnonce2 w' = wk_xnonce2 w + of_nat (ro_n_threads opts)" "\<not> wk_armed w'"
    and "0 < ro_n_threads opts" "ro_thr_id opts + ro_n_threads opts * (t + 1) < 2 ^ 64"
  shows "swept opts (t + 1) w'"
proof -
  obtain b x ls where s: "sweeps (plan_of w) = (b, x, ls)" by (metis prod_cases3)
  let ?n = "ro_n_threads opts"
  have top: "ro_thr_id opts + ?n * t + ?n < 2 ^ 64" using assms(8) by (simp only: distrib_left mult_1_right add.assoc)
  then have "?n < 2 ^ 64" by linarith
  then have n: "unat (of_nat ?n :: u64) = ?n" by (intro unat_of_nat_small) simp
  have le: "unat (wk_xnonce2 w) \<le> ro_thr_id opts + ?n * t" using assms(1) unfolding swept_iff [OF s] by blast
  then have "unat (wk_xnonce2 w) + ?n < 2 ^ 64" using top by linarith
  then have u: "unat (wk_xnonce2 w') = unat (wk_xnonce2 w) + ?n"
    unfolding assms(5) using n by (subst unat_add_exact) simp_all
  have below: "b' \<le> b \<and> (b' = b \<longrightarrow> x' \<le> wk_xnonce2 w' \<and> x' \<noteq> wk_xnonce2 w')" if "(b', x', m, c) \<in> set ls" for b' x' m c
  proof -
    have "b' \<le> b" "b' = b \<longrightarrow> x' \<le> wk_xnonce2 w" using assms(1) that unfolding swept_iff [OF s] by auto
    moreover have "x' \<le> wk_xnonce2 w' \<and> x' \<noteq> wk_xnonce2 w'" if "x' \<le> wk_xnonce2 w"
    proof -
      have "unat x' < unat (wk_xnonce2 w')" using that u assms(7) by (simp add: word_le_nat_alt)
      then show ?thesis by (auto simp: word_le_nat_alt)
    qed
    ultimately show ?thesis by blast
  qed
  have s': "sweeps (plan_of w') = (b, x, ls)" using s assms(2) by simp
  have "ro_thr_id opts + ?n * (t + 1) = ro_thr_id opts + ?n * t + ?n" by simp
  then have "unat (wk_xnonce2 w') \<le> ro_thr_id opts + ?n * (t + 1)" using u le by linarith
  moreover have "never_twice (plan_of w')" "wk_roll w'" using assms(1-3) unfolding swept_iff [OF s] by simp_all
  ultimately show ?thesis
    using assms(4,6) below unfolding swept_iff [OF s'] by fastforce
qed

lemma swept_armed:
  assumes "swept opts t w" "\<not> wk_armed w"
  shows "swept opts t (say (Armed (wk_xnonce2 w) v) (w\<lparr>wk_work := v, wk_armed := True\<rparr>))"
proof -
  obtain b x ls where s: "sweeps (plan_of w) = (b, x, ls)" by (metis prod_cases3)
  let ?w = "say (Armed (wk_xnonce2 w) v) (w\<lparr>wk_work := v, wk_armed := True\<rparr>)"
  have p: "plan_of (w\<lparr>wk_work := v, wk_armed := True\<rparr>) = plan_of w" by (simp add: plan_of_def)
  then have s': "sweeps (plan_of ?w) = (b, wk_xnonce2 w, ls)" by (simp add: s)
  have "never_twice (plan_of ?w) = never_twice (plan_of w)" by (simp add: never_twice_def p s)
  then show ?thesis using assms unfolding swept_iff [OF s] swept_iff [OF s'] by auto
qed

lemma swept_launched:
  assumes "swept opts t w" "wk_armed w" "unat (wk_nonce w + ucast c) = unat (wk_nonce w) + unat c"
  shows "swept opts t (say (Launched v (wk_nonce w) c) (w\<lparr>wk_kernel := k, wk_inflight := q, wk_nonce := wk_nonce w + ucast c\<rparr>))"
proof -
  obtain b x ls where s: "sweeps (plan_of w) = (b, x, ls)" by (metis prod_cases3)
  have x: "x = wk_xnonce2 w" using assms(1,2) s by (simp add: swept_def)
  have old: "b' \<le> b \<and> (b' = b \<longrightarrow> x' \<le> wk_xnonce2 w \<and> (x' = wk_xnonce2 w \<longrightarrow> unat n + unat d \<le> unat (wk_nonce w)))"
    if "(b', x', n, d) \<in> set ls" for b' x' n d
    using assms(1) s that by (auto simp: swept_def)
  have "batch_nonces (wk_nonce w) c \<inter> batch_nonces n d = {}" if "(b, x, n, d) \<in> set ls" for n d
    using old [OF that] x by (auto simp: batch_nonces_def)
  then have nt: "never_twice (Launched v (wk_nonce w) c # plan_of w)"
    using swept_left [OF assms(1)] by (auto simp: never_twice_def s)
  have new: "b' \<le> b \<and> (b' = b \<longrightarrow> x' \<le> wk_xnonce2 w \<and> (x' = wk_xnonce2 w \<longrightarrow> unat n + unat d \<le> unat (wk_nonce w + ucast c)))"
    if "(b', x', n, d) \<in> set ((b, x, wk_nonce w, c) # ls)" for b' x' n d
    using old that x unfolding assms(3) by fastforce
  let ?w = "say (Launched v (wk_nonce w) c) (w\<lparr>wk_kernel := k, wk_inflight := q, wk_nonce := wk_nonce w + ucast c\<rparr>)"
  have p: "plan_of (w\<lparr>wk_kernel := k, wk_inflight := q, wk_nonce := wk_nonce w + ucast c\<rparr>) = plan_of w" by (simp add: plan_of_def)
  then have s': "sweeps (plan_of ?w) = (b, x, (b, x, wk_nonce w, c) # ls)" by (simp add: s)
  have "never_twice (plan_of ?w)" using nt by (simp add: never_twice_def p s)
  then show ?thesis using assms(1,2) new x unfolding swept_iff [OF s] swept_iff [OF s'] by auto
qed

lemma swept_bound:
  assumes "swept opts t w" "bind_algo opts create name w = (True, w')" "create name = Some m" "am_nonce_bits m \<le> 32"
  shows "swept opts t w'"
proof -
  obtain b x ls where s: "sweeps (plan_of w) = (b, x, ls)" by (metis prod_cases3)
  have m: "min (am_nonce_bits m) 64 \<le> 32" by (rule min.coboundedI1 [OF assms(4)])
  have e: "plan_of w' = Bound name # plan_of w" "wk_xnonce2 w' = wk_xnonce2 w" "\<not> wk_armed w'" "wk_roll w'"
    "wk_switch_failed w' = wk_switch_failed w"
    using assms(2,3) m by (auto simp: bind_algo_def plan_of_def Let_def)
  have s': "sweeps (plan_of w') = (b + 1, x, ls)" "never_twice (plan_of w') = never_twice (plan_of w)"
    using s by (simp_all add: e(1) never_twice_def)
  have "b' \<le> b" if "(b', x', n, c) \<in> set ls" for b' x' n c using assms(1) that unfolding swept_iff [OF s] by auto
  then show ?thesis using assms(1) e s'(2) unfolding swept_iff [OF s] swept_iff [OF s'(1)] by fastforce
qed

text \<open>
  A run mining for a pool, with no profile to go back to while it lasts, over so few turns that the
  counter of the extranonce2 does not wrap.
\<close>

definition rolls :: "run_options \<Rightarrow> 'k outside \<Rightarrow> nat \<Rightarrow> bool" where
  "rolls opts env turns \<longleftrightarrow> \<not> ro_benchmark opts \<and> (\<forall>i. \<not> ps_recoverable (ou_pass env i)) \<and>
     ro_thr_id opts + ro_n_threads opts * (2 * turns) < 2 ^ 64"

text \<open>Whose nonces are of at most 32 bits, so that it rolls the extranonce2.\<close>

locale rolling = sliced ops env K opts create s most
  for ops :: "'k kernel_calls" and env :: "'k outside" and K :: "'k \<Rightarrow> bool"
    and opts :: run_options and create :: "string \<Rightarrow> 'a algorithm option" and s :: nat and most :: nat +
  fixes turns :: nat
  assumes narrow: "create name = Some m \<Longrightarrow> am_nonce_bits m \<le> 32"
begin

definition fresh :: "nat \<Rightarrow> ('a, 'k) worker \<Rightarrow> bool" where
  "fresh t w \<longleftrightarrow> sound w \<and> swept opts t w \<and> rolls opts env turns"

lemma fresh_rolls:
  assumes "fresh t w"
  shows "\<not> ro_benchmark opts" "\<not> ps_recoverable (ou_pass env i)" "ro_thr_id opts + ro_n_threads opts * (2 * turns) < 2 ^ 64"
    "0 < ro_n_threads opts"
proof -
  show "\<not> ro_benchmark opts" "\<not> ps_recoverable (ou_pass env i)" "ro_thr_id opts + ro_n_threads opts * (2 * turns) < 2 ^ 64"
    using assms by (simp_all add: fresh_def rolls_def)
  have "ro_thr_id opts < ro_n_threads opts" using assms sound_splits(1) by (auto simp: fresh_def)
  then show "0 < ro_n_threads opts" by linarith
qed

definition left_fresh :: "('a, 'k) worker \<Rightarrow> bool" where
  "left_fresh w \<longleftrightarrow> left_sound w \<and> never_twice (plan_of w)"

lemma fresh_left: "fresh t w \<Longrightarrow> left_fresh w"
  using sound_left swept_left by (auto simp: fresh_def left_fresh_def)

lemma fresh_more: "fresh t w \<Longrightarrow> t \<le> t' \<Longrightarrow> fresh t' w"
  using swept_more by (auto simp: fresh_def)

lemma fresh_drain: "fresh t w \<Longrightarrow> fresh t (drain_worker opts ops env w)"
  using sound_drain swept_on_course [OF _ on_course_drain] by (auto simp: fresh_def)

lemma fresh_wait: "fresh t w \<Longrightarrow> t \<le> t' \<Longrightarrow> flow_all (fresh t') B G (wait_turn env w)"
  using sound_wait [of w "\<lambda>_. False" "\<lambda>_. False"] swept_more [OF swept_on_course [OF _ on_course_account], of opts t w t' env 0]
  by (simp add: wait_turn_def fresh_def)

lemma park_turn_fresh:
  assumes "fresh t w"
  shows "flow_all (fresh t) left_fresh G (park_turn opts create ops env p w)"
proof -
  have f: "flow_all sound left_sound (\<lambda>_ :: 'x. True) (park_turn opts create ops env p w)"
    using assms by (simp add: fresh_def park_turn_sound)
  define w1 where "w1 = release (drain_worker opts ops env w)"
  define w2 where "w2 = say (Parked (ps_retains p)) (publish_parked env w1)"
  have "on_course w w2"
    unfolding w1_def w2_def by (rule on_course_trans [OF on_course_drain on_course_trans [OF on_course_release on_course_parked]])
  then have s2: "swept opts t w2" using assms swept_on_course by (auto simp: fresh_def)
  obtain ok w3 where b: "bind_algo opts create (ps_algo p) w2 = (ok, w3)" by (metis surj_pair)
  have s3: "swept opts t w3"
  proof (cases ok)
    case True
    then obtain m where m: "create (ps_algo p) = Some m" using b by (auto simp: bind_algo_def split: option.splits)
    show ?thesis
      by (rule swept_bound [OF s2, where create = create and name = "ps_algo p"]) (use b True m narrow in auto)
  next
    case False
    then have "w3 = w2" using b by (auto simp: bind_algo_def Let_def split: option.splits)
    then show ?thesis using s2 by simp
  qed
  have "never_twice (plan_of (say Failed w3))" using swept_left [OF s3] by simp
  then have "flow_all (swept opts t) (\<lambda>w. never_twice (plan_of w)) (\<lambda>_ :: 'x. False) (park_turn opts create ops env p w)"
    using b s2 s3 by (simp add: park_turn_def w1_def [symmetric] w2_def [symmetric] Let_def)
  from flow_all_conj [OF f this] show ?thesis
    by (rule flow_all_mono) (use assms in \<open>simp_all add: fresh_def left_fresh_def\<close>)
qed

lemma find_work_fresh:
  assumes "fresh t w"
  shows "flow_all (fresh t) left_fresh (\<lambda>(new_job, w). fresh t w) (find_work opts ops env p w)"
proof -
  have "fresh t (w'\<lparr>wk_work := v\<rparr>)" if "fresh t w'" for w' v
  proof -
    have "swept opts t (w'\<lparr>wk_work := v\<rparr>)"
      by (rule swept_cong [where w = w']) (use that in \<open>simp_all add: fresh_def plan_of_def\<close>)
    then show ?thesis using that sound_work(1) by (simp add: fresh_def)
  qed
  then show ?thesis using assms fresh_rolls(1) [OF assms] fresh_drain [OF assms] by (simp add: find_work_def fresh_wait)
qed

text \<open>A build that fails ends the run.\<close>

lemma build_or_leave_course:
  assumes "sound w" "wk_inflight w = []" "\<not> wk_switch_failed w" "never_twice (plan_of w)" "\<not> ps_recoverable (ou_pass env i)"
  shows "flow_all (\<lambda>_. False) left_fresh (\<lambda>w'. sound w' \<and> wk_kernel w' \<noteq> None \<and> plan_of w' = plan_of w \<and> wk_roll w' = wk_roll w \<and>
      \<not> wk_switch_failed w' \<and> wk_xnonce2 w' = wk_xnonce2 w \<and> wk_armed w' = wk_armed w \<and> wk_nonce w' = wk_nonce w)
    (build_or_leave opts ops (ou_pass env i) w)"
proof -
  obtain ok w' where b: "build_kernel opts ops (ou_pass env i) w = (ok, w')" by (metis surj_pair)
  have sf: "\<not> wk_switch_failed w'" using on_course_build(9) [OF b] assms(3,5) by simp
  note f = build_or_leave_sound [OF assms(1,2), of i]
  show ?thesis
  proof (cases ok)
    case True
    then show ?thesis using f b sf on_course_build(1-8) [OF b] by (simp add: build_or_leave_def Let_def)
  next
    case False
    then show ?thesis using f b sf on_course_build(1) [OF b] assms(4) by (simp add: build_or_leave_def Let_def left_fresh_def)
  qed
qed

lemma take_job_fresh:
  assumes "fresh t w" "t < 2 * turns"
  shows "flow_all (\<lambda>_. False) left_fresh (\<lambda>w. fresh (t + 1) w \<and> wk_kernel w \<noteq> None) (take_job opts ops env (ou_pass env i) w)"
proof -
  obtain resized a where r: "am_retarget (wk_methods w) (w_data (wk_work w)) (wk_object w) = (resized, a)" by (metis surj_pair)
  define w1 where "w1 = w\<lparr>wk_nonce := wk_first w, wk_object := a\<rparr>"
  have sw: "sound w" "swept opts t w" using assms(1) by (simp_all add: fresh_def)
  have w1: "sound w1" using sound_restart(3) [OF sw(1)] by (simp add: w1_def)
  have c1: "plan_of w1 = plan_of w" "wk_roll w1 = wk_roll w" "\<not> wk_switch_failed w1" "wk_xnonce2 w1 = wk_xnonce2 w"
    using sw(2) by (simp_all add: w1_def plan_of_def swept_def Let_def split: prod.splits)
  define w2 where "w2 = (if wk_kernel w1 \<noteq> None then release (drain_worker opts ops env w1) else w1)"
  have d: "wk_inflight (drain_worker opts ops env w1) = []" "sound (drain_worker opts ops env w1)"
    using w1 sound_drain by (auto simp: sound_def manned_drain(2))
  have "sound (release (drain_worker opts ops env w1))"
    using d manned_release ranged_on_course [OF _ on_course_release] by (auto simp: sound_def)
  moreover have "on_course w1 w2"
    using on_course_trans [OF on_course_drain on_course_release] by (auto simp: w2_def on_course_def)
  ultimately have w2: "sound w2" "wk_inflight w2 = []" "on_course w1 w2"
    using w1 d(1) by (auto simp: w2_def sound_def manned_def release_def)
  have c2: "plan_of w2 = plan_of w" "wk_roll w2 = wk_roll w" "\<not> wk_switch_failed w2" "wk_xnonce2 w2 = wk_xnonce2 w"
    using c1 w2(3) course_parts(4,9,11) [of w2 w1] by (simp_all add: on_course_def)
  let ?M = "\<lambda>v. sound v \<and> wk_kernel v \<noteq> None \<and> plan_of v = plan_of w \<and> wk_roll v = wk_roll w \<and> \<not> wk_switch_failed v \<and> wk_xnonce2 v = wk_xnonce2 w"
  let ?G = "\<lambda>w. fresh (t + 1) w \<and> wk_kernel w \<noteq> None"
  have nt: "never_twice (plan_of w2)" using swept_left [OF sw(2)] c2(1) by simp
  have "flow_all (\<lambda>_. False) left_fresh ?M (if resized \<or> wk_kernel w1 = None then build_or_leave opts ops (ou_pass env i) w2 else Go w1)"
    using build_or_leave_course [OF w2(1,2) c2(3) nt fresh_rolls(2) [OF assms(1), of i]] w1 c1 c2 by (auto elim!: flow_all_mono)
  moreover have "flow_all (\<lambda>_. False) left_fresh ?G
      (let w = v\<lparr>wk_xnonce2 := wk_xnonce2 v + of_nat (ro_n_threads opts), wk_armed := False\<rparr>
       in if \<not> ro_benchmark opts \<and> wk_roll w \<and> w_xnonce2_len (wk_work w) = 0 then Break (say Failed w) else Go w)"
    if "?M v" for v
  proof -
    define u where "u = v\<lparr>wk_xnonce2 := wk_xnonce2 v + of_nat (ro_n_threads opts), wk_armed := False\<rparr>"
    have "ro_n_threads opts * (t + 1) \<le> ro_n_threads opts * (2 * turns)" using assms(2) by (intro mult_le_mono2) simp
    then have fit: "ro_thr_id opts + ro_n_threads opts * (t + 1) < 2 ^ 64" using fresh_rolls(3) [OF assms(1)] by linarith
    note n = fresh_rolls(4) [OF assms(1)]
    have "swept opts (t + 1) u"
      by (rule swept_bump [OF sw(2) _ _ _ _ _ n fit]) (use that in \<open>simp_all add: u_def plan_of_def\<close>)
    moreover have "sound u" using that sound_work(6) by (simp add: u_def)
    ultimately have f: "fresh (t + 1) u" using assms(1) by (simp add: fresh_def)
    have "left_fresh (say Failed u)" using fresh_left [OF f] by (simp add: left_fresh_def left_sound_def)
    then show ?thesis using f that by (simp add: u_def [symmetric] Let_def) (simp add: u_def)
  qed
  ultimately have "flow_all (\<lambda>_. False) left_fresh ?G (and_then
      (if resized \<or> wk_kernel w1 = None then build_or_leave opts ops (ou_pass env i) w2 else Go w1)
      (\<lambda>w. let w = w\<lparr>wk_xnonce2 := wk_xnonce2 w + of_nat (ro_n_threads opts), wk_armed := False\<rparr>
       in if \<not> ro_benchmark opts \<and> wk_roll w \<and> w_xnonce2_len (wk_work w) = 0 then Break (say Failed w) else Go w))"
    by (rule flow_all_then)
  moreover have "take_job opts ops env (ou_pass env i) w = and_then
      (if resized \<or> wk_kernel w1 = None then build_or_leave opts ops (ou_pass env i) w2 else Go w1)
      (\<lambda>w. let w = w\<lparr>wk_xnonce2 := wk_xnonce2 w + of_nat (ro_n_threads opts), wk_armed := False\<rparr>
       in if \<not> ro_benchmark opts \<and> wk_roll w \<and> w_xnonce2_len (wk_work w) = 0 then Break (say Failed w) else Go w)"
    by (simp add: take_job_def r w1_def w2_def Let_def)
  ultimately show ?thesis by simp
qed

lemma build_fresh:
  assumes "fresh t w" "wk_inflight w = []"
  shows "flow_all (\<lambda>_. False) left_fresh (\<lambda>w. fresh t w \<and> wk_kernel w \<noteq> None) (build_or_leave opts ops (ou_pass env i) w)"
proof -
  have w: "sound w" "swept opts t w" using assms(1) by (simp_all add: fresh_def)
  have sf: "\<not> wk_switch_failed w" using w(2) by (auto simp: swept_def Let_def split: prod.splits)
  show ?thesis
    using build_or_leave_course [OF w(1) assms(2) sf swept_left [OF w(2)] fresh_rolls(2) [OF assms(1), of i]]
    by (rule flow_all_mono) (use w(2) sf assms(1) in \<open>auto simp: fresh_def elim!: swept_cong\<close>)
qed

lemma arm_fresh:
  assumes "fresh t w" "wk_kernel w \<noteq> None" "t \<le> t'"
  shows "flow_all (fresh t') left_fresh (\<lambda>w. fresh t w \<and> wk_kernel w \<noteq> None \<and> wk_armed w) (arm opts ops env p w)"
proof (cases "wk_armed w")
  case True
  then show ?thesis using assms by (simp add: arm_def)
next
  case False
  have rw: "wk_roll w" using assms(1) by (auto simp: fresh_def swept_def Let_def split: prod.splits)
  define w1 where "w1 = drain_worker opts ops env w"
  have w1: "fresh t w1" "\<not> wk_armed w1"
    using fresh_drain [OF assms(1)] False course_parts(10) [of w1 w] on_course_drain [of w opts ops env]
    by (simp_all add: w1_def on_course_def)
  have f: "flow_all sound left_sound (\<lambda>w. sound w \<and> wk_kernel w \<noteq> None) (arm opts ops env p w)"
    using assms(1) by (intro arm_sound [OF _ assms(2)]) (simp add: fresh_def)
  obtain ok work sctx where s: "stratum_set_extranonce2 (ro_stratum opts) (wk_work w1) (ps_stratum p) (wk_xnonce2 w1) = (ok, work, sctx)"
    by (metis prod_cases3)
  have "swept opts t (say (Armed (wk_xnonce2 w1) work) (w1\<lparr>wk_work := work, wk_armed := True\<rparr>))"
    using w1 by (simp add: fresh_def swept_armed)
  then show ?thesis using f fresh_rolls(1) [OF assms(1)] False rw w1(1) assms(3)
    by (simp add: arm_def w1_def [symmetric] s Let_def fresh_wait fresh_def split: if_splits)
qed

lemma range_done_fresh:
  assumes "fresh t w" "t < 2 * turns"
  shows "flow_all (fresh (t + 1)) left_fresh G (range_done opts ops env w)"
proof -
  have rw: "wk_roll w" "\<not> wk_switch_failed w" using assms(1) by (auto simp: fresh_def swept_def Let_def split: prod.splits)
  have "ro_n_threads opts * (t + 1) \<le> ro_n_threads opts * (2 * turns)" using assms(2) by (intro mult_le_mono2) simp
  then have fit: "ro_thr_id opts + ro_n_threads opts * (t + 1) < 2 ^ 64" using fresh_rolls(3) [OF assms(1)] by linarith
  note n = fresh_rolls(4) [OF assms(1)]
  define u where "u = w\<lparr>wk_xnonce2 := wk_xnonce2 w + of_nat (ro_n_threads opts), wk_armed := False, wk_nonce := wk_first w\<rparr>"
  have "swept opts t w" using assms(1) by (simp add: fresh_def)
  then have "swept opts (t + 1) u"
    by (rule swept_bump [OF _ _ _ _ _ _ n fit]) (use rw in \<open>simp_all add: u_def plan_of_def\<close>)
  moreover have "sound u"
    using assms(1) sound_restart(1) [OF sound_work(6)] by (fastforce simp: fresh_def u_def)
  ultimately show ?thesis using rw fresh_rolls(1) [OF assms(1)] assms(1)
    by (simp add: range_done_def Let_def u_def [symmetric] fresh_def)
qed

lemma launch_fresh:
  assumes "fresh t w" "wk_kernel w \<noteq> None" "wk_armed w" "t \<le> t'"
  shows "flow_all (fresh t') left_fresh (fresh t) (launch opts ops env i (next_batch ops w) w)"
proof -
  let ?b = "next_batch ops w"
  have w: "sound w" "swept opts t w" using assms(1) by (simp_all add: fresh_def)
  have u: "unat (wk_nonce w + ucast ?b) = unat (wk_nonce w) + unat ?b"
    using next_batch_in_slice(1) [OF w(1) assms(2)] unat_u64_less [of "wk_end w"]
    by (subst unat_add_exact) (simp_all del: unat_u64_less)
  have k: "swept opts t (w\<lparr>wk_kernel := k\<rparr>)" for k
    by (rule swept_cong [OF w(2)]) (simp_all add: plan_of_def)
  have "flow_all (swept opts t') (\<lambda>w. never_twice (plan_of w)) (swept opts t) (launch opts ops env i ?b w)"
  proof -
    have "swept opts t' (account env 0 (drain_worker opts ops env (w\<lparr>wk_kernel := k\<rparr>)))" for k
      by (rule swept_more [OF swept_on_course [OF k] assms(4)]) (rule on_course_trans [OF on_course_drain on_course_account])
    then show ?thesis using swept_launched [OF w(2) assms(3) u]
      by (simp add: launch_def wait_turn_def Let_def split: prod.splits)
  qed
  from flow_all_conj [OF launch_sound [OF w(1) assms(2), of i] this] show ?thesis
    by (rule flow_all_mono) (use assms(1) in \<open>simp_all add: fresh_def left_fresh_def\<close>)
qed

lemma collect_when_full_fresh:
  assumes "fresh t w"
  shows "flow_all (fresh t) left_fresh G (collect_when_full opts ops env w)"
proof -
  obtain ok w1 where r: "reap opts ops env w = (ok, w1)" by (metis surj_pair)
  have "on_course w w1"
    using reap_course [of opts ops env w] plan_of_reap [of opts ops env w] r by (simp add: on_course_def)
  then have "fresh t w1"
    using assms ranged_on_course swept_on_course manned_reap [of w opts] r by (auto simp: sound_def fresh_def)
  then show ?thesis using assms r by (simp add: collect_when_full_def Let_def fresh_wait [OF fresh_drain order_refl])
qed

lemma worker_turn_fresh:
  fixes w :: "('a, 'k) worker"
  assumes "fresh (2 * i) w" "i < turns"
  shows "flow_all (fresh (2 * i + 2)) left_fresh (fresh (2 * i + 2)) (worker_turn opts create ops env j w)"
proof -
  let ?p = "ou_pass env j" and ?t = "2 * i + 2"
  let ?F = "flow_all (fresh ?t) left_fresh (fresh ?t :: ('a, 'k) worker \<Rightarrow> bool)"
  let ?mine = "(\<lambda>w. let batch = next_batch ops w
    in if batch = 0 then range_done opts ops env w else and_then (launch opts ops env j batch w) (collect_when_full opts ops env))
    :: ('a, 'k) worker \<Rightarrow> (('a, 'k) worker, ('a, 'k) worker) flow"
  let ?armed = "\<lambda>w. and_then (arm opts ops env ?p w) ?mine"
  let ?built = "\<lambda>w. and_then (if wk_kernel w = None then build_or_leave opts ops ?p w else Go w) ?armed"
  have mine: "?F (?mine w)" if "fresh (2 * i + 1) w \<and> wk_kernel w \<noteq> None \<and> wk_armed w" for w
  proof -
    have "?F (and_then (launch opts ops env j (next_batch ops w) w) (collect_when_full opts ops env))"
    proof (rule flow_all_then [OF launch_fresh])
      fix v :: "('a, 'k) worker" assume "fresh (2 * i + 1) v"
      then have "fresh ?t v" by (rule fresh_more) simp
      then show "?F (collect_when_full opts ops env v)" by (rule collect_when_full_fresh)
    qed (use that in auto)
    moreover have "?F (range_done opts ops env w)"
      using that assms(2) range_done_fresh [of "2 * i + 1" w] by simp
    ultimately show ?thesis by (simp add: Let_def)
  qed
  have armed: "?F (?armed w)" if "fresh (2 * i + 1) w \<and> wk_kernel w \<noteq> None" for w
    using that by (intro flow_all_then [OF arm_fresh] mine) auto
  have built: "?F (?built w)" if "fresh (2 * i + 1) w" for w
  proof (rule flow_all_then [OF _ armed])
    show "flow_all (fresh ?t) left_fresh (\<lambda>w. fresh (2 * i + 1) w \<and> wk_kernel w \<noteq> None)
        (if wk_kernel w = None then build_or_leave opts ops ?p w else Go w)"
      using that build_fresh [OF that, of j] by (auto simp: fresh_def sound_def manned_def elim!: flow_all_mono)
  qed
  have job: "?F (and_then (if new_job then take_job opts ops env ?p w else Go w) ?built)" if "fresh (2 * i) w" for new_job w
  proof (rule flow_all_then [OF _ built])
    show "flow_all (fresh ?t) left_fresh (fresh (2 * i + 1)) (if new_job then take_job opts ops env ?p w else Go w)"
      using take_job_fresh [OF that, of j] assms(2) fresh_more [OF that, of "2 * i + 1"] by (auto elim!: flow_all_mono)
  qed
  have f: "fresh ?t w" by (rule fresh_more [OF assms(1)]) simp
  have "?F (and_then (find_work opts ops env ?p w)
      (\<lambda>(new_job, w). and_then (if new_job then take_job opts ops env ?p w else Go w) ?built))"
  proof (rule flow_all_then)
    show "flow_all (fresh ?t) left_fresh (\<lambda>(new_job, w). fresh (2 * i) w) (find_work opts ops env ?p w)"
      using find_work_fresh [OF assms(1)] by (rule flow_all_mono) (auto intro: fresh_more)
  qed (use job in auto)
  then show ?thesis using fresh_left [OF f] by (simp add: worker_turn_def Let_def park_turn_fresh [OF f] del: add_2_eq_Suc')
qed

lemma worker_run_fresh:
  assumes "worker_start opts create name env = Some w" "splits opts s most" "rolls opts env turns"
    "worker_run opts create ops env w i = (running, w')" "i \<le> turns"
  shows "left_fresh w'"
proof -
  from assms(1) obtain m where m: "create name = Some m" by (auto simp: worker_start_def split: option.splits)
  define v where "v = (worker_new opts env m :: ('a, 'k) worker)"
  have wr: "wk_roll w"
    using assms(1) m min.coboundedI1 [OF narrow [OF m], of 64] by (auto simp: worker_start_def bind_algo_def Let_def)
  have "plan_of w = [Bound name]" "\<not> wk_switch_failed w" "\<not> wk_armed w" "wk_xnonce2 w = of_nat (ro_thr_id opts)"
    using assms(1) m by (auto simp: worker_start_def bind_algo_def worker_new_def plan_of_def Let_def)
  moreover have "unat (of_nat (ro_thr_id opts) :: u64) = ro_thr_id opts"
    using assms(2) by (intro unat_of_nat_small) (simp add: splits_def)
  ultimately have "swept opts 0 w" using wr by (simp add: swept_def never_twice_def)
  then have s: "fresh (2 * 0) w" using worker_run_sound(2) [OF assms(1,2), of 0 True w] assms(3) by (simp add: fresh_def)
  have "left_fresh w' \<and> (running \<longrightarrow> fresh (2 * i) w')"
    using assms(4,5)
  proof (induction i arbitrary: running w')
    case 0
    then show ?case using s fresh_left by auto
  next
    case (Suc i)
    obtain r u where u: "worker_run opts create ops env w i = (r, u)" by (metis surj_pair)
    show ?case
    proof (cases r)
      case False
      then show ?thesis using Suc u by simp
    next
      case True
      then have "flow_all (fresh (2 * i + 2)) left_fresh (fresh (2 * i + 2)) (worker_turn opts create ops env i u)"
        using Suc.IH [OF u] Suc.prems(2) by (intro worker_turn_fresh) simp_all
      moreover have "fresh (2 * i + 2) x \<Longrightarrow> left_fresh x" for x by (rule fresh_left)
      ultimately show ?thesis using Suc.prems(1) u True by (auto split: flow.splits)
    qed
  qed
  then show "left_fresh w'" by simp
qed

end

end
