(* ===== verification/Worker_Shares.thy ===== *)
theory Worker_Shares
  imports Worker_Books
begin

text \<open>
  What becomes of what the device finds: where the kernel under it answers each batch with the nonces of
  it that meet the target, a worker submits exactly these, batch by batch, and none is lost on the way.
\<close>

section \<open>What is due for a batch, and what has been submitted of it\<close>

text \<open>The nonces of a batch, and those of them that meet the target.\<close>

definition batch_list :: "nat \<Rightarrow> u64 \<Rightarrow> u32 \<Rightarrow> u64 list" where
  "batch_list bits start n = map (\<lambda>i. take_bit bits (start + of_nat i)) [0..<unat n]"

definition shares_of :: "nat \<Rightarrow> (u32 list \<Rightarrow> u64 \<Rightarrow> u32 list) \<Rightarrow> u32 list \<Rightarrow> u32 list \<Rightarrow> u64 \<Rightarrow> u32 \<Rightarrow> u64 list" where
  "shares_of bits H data target start n = filter (\<lambda>x. fulltest (H data x) target) (batch_list bits start n)"

text \<open>The nonces submitted since a batch last came back, newest first.\<close>

primrec takings :: "event list \<Rightarrow> u64 list" where
  "takings [] = []"
| "takings (e # es) = (case e of Submitted share hash \<Rightarrow> w_nonce share # takings es | Collected c ok \<Rightarrow> [] | _ \<Rightarrow> takings es)"

text \<open>
  What has been submitted of the batch that came back last: the nonces of it that meet the target, each as
  often as it is in the batch and no other; where there are more than the buffer holds, as many of them
  as it holds.
\<close>

definition due_paid ::
  "nat \<Rightarrow> (string \<Rightarrow> 'a algorithm option) \<Rightarrow> (string \<Rightarrow> u32 list \<Rightarrow> u64 \<Rightarrow> u32 list) \<Rightarrow> event list \<Rightarrow> bool" where
  "due_paid bits create H es \<longleftrightarrow> (case ledger_of create H es of None \<Rightarrow> False | Some l \<Rightarrow>
     (case (ld_name l, ld_back l) of
        (Some name, Some (v, n, c)) \<Rightarrow>
          (let shares = shares_of bits (H name) (w_data v) (w_target v) (w_nonce_base v OR n) c
           in mset (takings es) \<subseteq># mset shares \<and> length (takings es) = min kMaxCandidates (length shares))
      | _ \<Rightarrow> True))"

text \<open>Before the next batch is taken, and before the algorithm changes, the last one has been seen to.\<close>

primrec paid_up ::
  "nat \<Rightarrow> (string \<Rightarrow> 'a algorithm option) \<Rightarrow> (string \<Rightarrow> u32 list \<Rightarrow> u64 \<Rightarrow> u32 list) \<Rightarrow> event list \<Rightarrow> bool" where
  "paid_up bits create H [] = True"
| "paid_up bits create H (e # es) = (paid_up bits create H es \<and>
     (case e of Collected c ok \<Rightarrow> due_paid bits create H es | Bound name \<Rightarrow> due_paid bits create H es | _ \<Rightarrow> True))"

lemma takings_submitted: "takings es \<noteq> [] \<Longrightarrow> \<exists>share hash. Submitted share hash \<in> set es"
proof (induction es)
  case (Cons e es)
  then show ?case by (cases e) auto
qed simp

lemma back_collected:
  "ledger_of create H es = Some l \<Longrightarrow> ld_back l = Some (v, n, c) \<Longrightarrow> Collected c True \<in> set es"
proof (induction es arbitrary: l)
  case (Cons e es)
  obtain l0 where l: "ledger_of create H es = Some l0" "ledger_step create H l0 e = Some l"
    using Cons.prems(1) by (auto simp: Option.bind_eq_Some_conv)
  have "ld_back l0 = Some (v, n, c) \<or> e = Collected c True"
    using l(2) Cons.prems(2) by (cases e) (auto split: if_splits option.splits list.splits)
  then show ?case using Cons.IH [OF l(1)] by auto
qed (simp add: ledger_start_def)

text \<open>A batch that fits the buffer is paid for to the nonce.\<close>

lemma due_paid_whole:
  assumes "due_paid bits create H es" "ledger_of create H es = Some l" "ld_name l = Some name" "ld_back l = Some (v, n, c)"
    and "length (shares_of bits (H name) (w_data v) (w_target v) (w_nonce_base v OR n) c) \<le> kMaxCandidates"
  shows "mset (takings es) = mset (shares_of bits (H name) (w_data v) (w_target v) (w_nonce_base v OR n) c)"
proof -
  let ?S = "shares_of bits (H name) (w_data v) (w_target v) (w_nonce_base v OR n) c"
  have sub: "mset (takings es) \<subseteq># mset ?S" and "length (takings es) = length ?S"
    using assms by (simp_all add: due_paid_def Let_def min_def split: if_splits)
  then have "size (mset ?S - mset (takings es)) = 0" by (simp add: size_Diff_submset)
  then have "mset ?S - mset (takings es) = {#}" by simp
  then show ?thesis using subset_mset.add_diff_inverse [OF sub] by simp
qed

primrec quiet :: "event \<Rightarrow> bool" where
  "quiet (Bound name) = True"
| "quiet (Armed counter v) = True"
| "quiet (Launched v n c) = True"
| "quiet (Built depth) = True"
| "quiet Released = True"
| "quiet (Collected c ok) = False"
| "quiet (Captured bad) = True"
| "quiet (Submitted v hash) = False"
| "quiet (Published hashes ns) = True"
| "quiet (Parked retains) = True"
| "quiet SwitchFailed = True"
| "quiet Failed = True"

lemma takings_quiet: "quiet e \<Longrightarrow> takings (e # es) = takings es"
  by (cases e) simp_all

lemma quiet_back:
  assumes "ledger_step create H l e = Some l'" "quiet e"
  shows "ld_back l' = ld_back l \<and> ld_name l' = ld_name l \<or> ld_back l' = None"
  using assms by (cases e) (auto split: if_splits option.splits list.splits)

lemma due_quiet:
  assumes "due_paid bits create H es" "ledger_of create H (e # es) = Some l'" "quiet e"
  shows "due_paid bits create H (e # es)" "paid_up bits create H es \<Longrightarrow> paid_up bits create H (e # es)"
proof -
  from assms(2) obtain l where l: "ledger_of create H es = Some l" "ledger_step create H l e = Some l'"
    by (auto simp: Option.bind_eq_Some_conv)
  show "due_paid bits create H (e # es)"
    using assms(1) quiet_back [OF l(2) assms(3)] takings_quiet [OF assms(3), of es] assms(2) l(1)
    unfolding due_paid_def by (auto split: option.splits prod.splits)
  show "paid_up bits create H es \<Longrightarrow> paid_up bits create H (e # es)"
    using assms(1,3) by (cases e) simp_all
qed

text \<open>
  What the worker counts on of a kernel: batches are answered in the order they were given, each by the
  nonces of it that meet the target, by as many of them as the buffer holds where there are more, or not at
  all; and a kernel that
  refused a batch takes the next once it has been emptied.
\<close>

locale finding = hashing create H
  for create :: "string \<Rightarrow> 'a algorithm option" and H :: "string \<Rightarrow> u32 list \<Rightarrow> u64 \<Rightarrow> u32 list" +
  fixes bits :: nat
    and ops :: "'k kernel_calls"
    and env :: "'k outside"
    and held :: "'k \<Rightarrow> 'r list"
    and ready :: "'k \<Rightarrow> bool"
    and draining :: "'k \<Rightarrow> bool"
    and answer :: "'r \<Rightarrow> Solution list"
    and finds :: "u32 list \<Rightarrow> u32 list \<Rightarrow> u64 \<Rightarrow> u32 \<Rightarrow> 'r \<Rightarrow> bool"
  assumes made: "ps_create_kernel (ou_pass env i) ((ps_spec (ou_pass env i))\<lparr>k_concurrent_kernels := c\<rparr>) = Some k \<Longrightarrow>
      ready k \<and> held k = []"
    and ready_draining: "ready k \<Longrightarrow> draining k"
    and drained_ready: "draining k \<Longrightarrow> held k = [] \<Longrightarrow> ready k"
    and state_held: "draining k \<Longrightarrow> kn_prepare_state ops i key k = (ok, k') \<Longrightarrow>
      draining k' \<and> (ready k \<longrightarrow> ready k') \<and> held k' = held k"
    and program_held: "draining k \<Longrightarrow> kn_prepare_program ops i key k = (ok, k') \<Longrightarrow>
      draining k' \<and> (ready k \<longrightarrow> ready k') \<and> held k' = held k"
    and dispatch_held: "ready k \<Longrightarrow> kn_dispatch ops i data target nonce n k = (ok, k') \<Longrightarrow>
      draining k' \<and> (if ok then ready k' \<and> (\<exists>r. held k' = held k @ [r] \<and> finds data target nonce n r) else held k' = held k)"
    and collect_held: "draining k \<Longrightarrow> held k = r # rs \<Longrightarrow> kn_collect ops j kMaxCandidates k = (res, k') \<Longrightarrow>
      draining k' \<and> (ready k \<longrightarrow> ready k') \<and> held k' = rs \<and> (res = None \<or> res = Some (answer r))"
    and finds_shares: "create name = Some m \<Longrightarrow> finds data target nonce n r \<Longrightarrow>
      mset (map s_nonce (answer r)) \<subseteq># mset (shares_of bits (H name) data target nonce n) \<and>
      length (answer r) = min kMaxCandidates (length (shares_of bits (H name) data target nonce n))"
begin

fun launch_finds :: "work \<times> u64 \<times> u32 \<Rightarrow> 'r \<Rightarrow> bool" where
  "launch_finds (v, n, c) r = finds (w_data v) (w_target v) (w_nonce_base v OR n) c r"

definition matched :: "('a, 'k) worker \<Rightarrow> ledger \<Rightarrow> bool" where
  "matched w l \<longleftrightarrow> books w l \<and> (\<forall>k. wk_kernel w = Some k \<longrightarrow> draining k \<and> list_all2 launch_finds (ld_out l) (held k))"

definition cleared :: "('a, 'k) worker \<Rightarrow> bool" where
  "cleared w \<longleftrightarrow> paid_up bits create H (wk_log w) \<and> due_paid bits create H (wk_log w)"

definition served :: "('a, 'k) worker \<Rightarrow> bool" where
  "served w \<longleftrightarrow> (\<exists>l. matched w l) \<and> cleared w"

definition primed :: "('a, 'k) worker \<Rightarrow> bool" where
  "primed w \<longleftrightarrow> (\<forall>k. wk_kernel w = Some k \<longrightarrow> ready k)"

lemma served_kept: "served w \<Longrightarrow> kept w"
  by (auto simp: served_def matched_def kept_def)

lemma served_primed:
  assumes "served w" "wk_inflight w = []"
  shows "primed w"
proof -
  from assms(1) obtain l where l: "matched w l" by (auto simp: served_def)
  then have "ld_out l = []" using assms(2) by (auto simp: matched_def books_def)
  then show ?thesis using l drained_ready by (auto simp: matched_def primed_def)
qed

lemma served_cong:
  assumes "served w" "wk_log w' = wk_log w" "wk_name w' = wk_name w" "wk_methods w' = wk_methods w" "wk_kernel w' = wk_kernel w"
    "wk_depth w' = wk_depth w" "wk_inflight w' = wk_inflight w" "wk_work w' = wk_work w"
  shows "served w'"
proof -
  from assms(1) obtain l where "matched w l" "cleared w" by (auto simp: served_def)
  then have "matched w' l" "cleared w'" using assms(2-) by (simp_all add: matched_def books_def cleared_def)
  then show ?thesis by (auto simp: served_def)
qed

text \<open>An event that neither takes a batch nor submits a share.\<close>

lemma cleared_quiet:
  assumes "cleared w" "wk_log w' = e # wk_log w" "quiet e" "kept w'"
  shows "cleared w'"
proof -
  from assms(4) obtain l' where l: "ledger_of create H (e # wk_log w) = Some l'"
    using assms(2) by (auto simp: kept_def books_def)
  show ?thesis using due_quiet [OF _ l assms(3)] assms(1,2) by (simp add: cleared_def)
qed

lemma served_quiet:
  assumes "served w" "wk_log w' = e # wk_log w" "quiet e" "kept w'"
    and "\<And>l l' k. matched w l \<Longrightarrow> ledger_step create H l e = Some l' \<Longrightarrow> wk_kernel w' = Some k \<Longrightarrow>
      draining k \<and> list_all2 launch_finds (ld_out l') (held k)"
  shows "served w'"
proof -
  from assms(1) obtain l where l: "matched w l" and c: "cleared w" by (auto simp: served_def)
  from assms(4) obtain l' where b: "books w' l'" by (auto simp: kept_def)
  have "ledger_of create H (wk_log w) = Some l" using l by (simp add: matched_def books_def)
  then have "ledger_step create H l e = Some l'" using b assms(2) by (simp add: books_def)
  then have "matched w' l'" using b assms(5) [OF l] by (simp add: matched_def)
  then show ?thesis using cleared_quiet [OF c assms(2-4)] by (auto simp: served_def)
qed

lemma matched_empty:
  assumes "books w l" "wk_inflight w = []" "\<And>k. wk_kernel w = Some k \<Longrightarrow> draining k \<and> held k = []"
  shows "matched w l"
  using assms by (auto simp: matched_def books_def)

text \<open>Judging the candidates of a batch.\<close>

lemma cleared_account: "cleared w \<Longrightarrow> kept w \<Longrightarrow> cleared (account env n w)"
proof -
  assume a: "cleared w" "kept w"
  have k: "kept (account env n w)" by (rule kept_account [OF a(2)])
  have "wk_log (account env n w) = wk_log w \<or> (\<exists>h t. wk_log (account env n w) = Published h t # wk_log w)"
    by (auto simp: account_def Let_def)
  then show ?thesis using a(1) cleared_quiet [OF a(1) _ _ k] by (auto simp: cleared_def)
qed

lemma takings_account: "takings (wk_log (account env n w)) = takings (wk_log w)"
  by (simp add: account_def Let_def)

lemma paid_up_account: "paid_up bits create H (wk_log (account env n w)) = paid_up bits create H (wk_log w)"
  by (simp add: account_def Let_def)

lemma take_candidate_takings:
  assumes "books w l" "ld_back l = Some (v, n, c)" "job_key (wk_methods w) v = job_key (wk_methods w) (wk_work w)" "\<not> ro_benchmark opts"
  shows "takings (wk_log (take_candidate opts got w)) =
      (if fulltest (H (wk_name w) (w_data v) (s_nonce got)) (w_target v) then s_nonce got # takings (wk_log w) else takings (wk_log w))"
    "paid_up bits create H (wk_log (take_candidate opts got w)) = paid_up bits create H (wk_log w)"
proof -
  obtain hash a where h: "am_hash (wk_methods w) (w_data (wk_work w)) (s_nonce got) (wk_object w) = (hash, a)"
    by (metis surj_pair)
  have m: "create (wk_name w) = Some (wk_methods w)" using assms(1) by (simp add: books_def)
  have hash: "hash = H (wk_name w) (w_data v) (s_nonce got)"
    using hash_pure [OF m, of "w_data (wk_work w)" "s_nonce got" "wk_object w"] hash_job [OF m assms(3)] h by simp
  have "w_target (job_key (wk_methods w) v) = w_target (job_key (wk_methods w) (wk_work w))" using assms(3) by simp
  then have t: "w_target v = w_target (wk_work w)" by (simp add: job_key_def)
  define w1 where "w1 = w\<lparr>wk_object := a, wk_confirmed := wk_confirmed w + 1\<rparr>"
  define w2 where "w2 = (if hash \<noteq> s_hash got then capture opts WrongDigest got hash w1 else w1)"
  have w2: "takings (wk_log w2) = takings (wk_log w)" "paid_up bits create H (wk_log w2) = paid_up bits create H (wk_log w)"
    by (simp_all add: w2_def w1_def capture_def)
  obtain share b where s: "submit_share got hash w2 = say (Submitted share hash) (w2\<lparr>wk_work := share, wk_object := b\<rparr>)"
    "w_nonce share = s_nonce got"
    using submit_share_job [of got hash w2] by blast
  have e: "take_candidate opts got w = (if fulltest hash (w_target v) then submit_share got hash w2
      else capture opts BelowTarget got hash (w\<lparr>wk_object := a, wk_rejected := wk_rejected w + 1\<rparr>))"
    using assms(4) t by (simp add: take_candidate_def algorithm_verify_def h Let_def w1_def w2_def)
  show "takings (wk_log (take_candidate opts got w)) =
      (if fulltest (H (wk_name w) (w_data v) (s_nonce got)) (w_target v) then s_nonce got # takings (wk_log w) else takings (wk_log w))"
    "paid_up bits create H (wk_log (take_candidate opts got w)) = paid_up bits create H (wk_log w)"
    using w2 s unfolding e hash [symmetric] by (simp_all add: capture_def)
qed

lemma take_candidates_takings:
  assumes "books w l" "ld_back l = Some (v, n, c)" "job_key (wk_methods w) v = job_key (wk_methods w) (wk_work w)" "\<not> ro_benchmark opts"
  shows "takings (wk_log (fold (take_candidate opts) found w)) =
      rev (filter (\<lambda>x. fulltest (H (wk_name w) (w_data v) x) (w_target v)) (map s_nonce found)) @ takings (wk_log w)"
    "paid_up bits create H (wk_log (fold (take_candidate opts) found w)) = paid_up bits create H (wk_log w)"
proof -
  have "takings (wk_log (fold (take_candidate opts) found w)) =
      rev (filter (\<lambda>x. fulltest (H (wk_name w) (w_data v) x) (w_target v)) (map s_nonce found)) @ takings (wk_log w) \<and>
      paid_up bits create H (wk_log (fold (take_candidate opts) found w)) = paid_up bits create H (wk_log w)"
    using assms(1-3)
  proof (induction found arbitrary: w)
    case (Cons got found)
    let ?w = "take_candidate opts got w"
    have f: "wk_methods ?w = wk_methods w" "wk_name ?w = wk_name w"
      using course_parts(1,2) [OF take_candidate_frame(1) [of opts got w]] by simp_all
    note b = books_take_candidate [OF Cons.prems, of opts got]
    note t = take_candidate_takings [OF Cons.prems assms(4), of got]
    show ?case using Cons.IH [of ?w] b Cons.prems(2) f t by simp
  qed simp
  then show "takings (wk_log (fold (take_candidate opts) found w)) =
      rev (filter (\<lambda>x. fulltest (H (wk_name w) (w_data v) x) (w_target v)) (map s_nonce found)) @ takings (wk_log w)"
    "paid_up bits create H (wk_log (fold (take_candidate opts) found w)) = paid_up bits create H (wk_log w)" by simp_all
qed

lemma filter_all_mset:
  assumes "mset xs \<subseteq># mset (filter P ys)"
  shows "filter P xs = xs"
proof (rule filter_True)
  have "set xs \<subseteq> set (filter P ys)" using set_mset_mono [OF assms] by simp
  then show "\<forall>x \<in> set xs. P x" by auto
qed

lemma served_reap:
  fixes w :: "('a, 'k) worker"
  assumes "served w" "\<not> ro_benchmark opts"
  shows "served (snd (reap opts ops env w))" "primed w \<Longrightarrow> primed (snd (reap opts ops env w))"
    "wk_inflight w = c # cs \<Longrightarrow> fst (kn_collect ops (wk_collects w) kMaxCandidates (the (wk_kernel w))) \<noteq> None \<Longrightarrow>
      \<exists>l v n. ledger_of create H (wk_log w) = Some l \<and> hd (ld_out l) = (v, n, c) \<and>
        ledger_of create H (wk_log (snd (reap opts ops env w))) = Some (l\<lparr>ld_out := tl (ld_out l), ld_back := Some (v, n, c)\<rparr>) \<and>
        ld_name l = Some (wk_name w)"
proof -
  have "served (snd (reap opts ops env w)) \<and> (primed w \<longrightarrow> primed (snd (reap opts ops env w))) \<and>
    (\<forall>c cs. wk_inflight w = c # cs \<longrightarrow> fst (kn_collect ops (wk_collects w) kMaxCandidates (the (wk_kernel w))) \<noteq> None \<longrightarrow>
      (\<exists>l v n. ledger_of create H (wk_log w) = Some l \<and> hd (ld_out l) = (v, n, c) \<and>
        ledger_of create H (wk_log (snd (reap opts ops env w))) = Some (l\<lparr>ld_out := tl (ld_out l), ld_back := Some (v, n, c)\<rparr>) \<and>
        ld_name l = Some (wk_name w)))"
  proof (cases "wk_inflight w")
    case Nil
    then show ?thesis using assms by (simp add: reap_def)
  next
    case (Cons c cs)
    from assms(1) obtain l where l: "matched w l" and cl: "cleared w" by (auto simp: served_def)
    have b: "books w l" using l by (simp add: matched_def)
    then have "map (\<lambda>(v, n, c). c) (ld_out l) = c # cs" using Cons by (simp add: books_def)
    then obtain v n rest where o: "ld_out l = (v, n, c) # rest" "map (\<lambda>(v, n, c). c) rest = cs" by auto
    have j: "job_key (wk_methods w) v = job_key (wk_methods w) (wk_work w)" using b o by (auto simp: books_def)
    obtain k where k: "wk_kernel w = Some k" using b Cons by (auto simp: books_def)
    then have d: "draining k" "list_all2 launch_finds ((v, n, c) # rest) (held k)" using l o by (auto simp: matched_def)
    then obtain r rs where h: "held k = r # rs" "launch_finds (v, n, c) r" "list_all2 launch_finds rest rs"
      by (auto simp: list_all2_Cons1)
    obtain res k' where r: "kn_collect ops (wk_collects w) kMaxCandidates k = (res, k')" by (metis surj_pair)
    note co = collect_held [OF d(1) h(1) r]
    define w1 where "w1 = say (Collected c (res \<noteq> None)) (w\<lparr>wk_kernel := Some k', wk_inflight := cs, wk_collects := wk_collects w + 1\<rparr>)"
    define l1 where "l1 = l\<lparr>ld_out := rest, ld_back := if res \<noteq> None then Some (v, n, c) else None\<rparr>"
    have b1: "books w1 l1" using b o by (auto simp: books_def w1_def l1_def)
    have p1: "paid_up bits create H (wk_log w1)" "takings (wk_log w1) = []" using cl by (simp_all add: w1_def cleared_def)
    have kp: "wk_kernel (snd (reap opts ops env w)) = Some k'"
      using reap_pipeline [of w opts ops env] Cons k r by (simp add: pipeline_of_def)
    have fin: "served x \<and> (primed w \<longrightarrow> primed x)"
      if "books x l1" "cleared x" "wk_kernel x = Some k'" for x :: "('a, 'k) worker"
    proof -
      have "matched x l1" using that co h(3) by (simp add: matched_def l1_def)
      then show ?thesis using that co k by (auto simp: served_def primed_def)
    qed
    show ?thesis
    proof (cases res)
      case None
      have "due_paid bits create H (wk_log w1)" using b1 None by (simp add: due_paid_def books_def l1_def)
      then have "cleared w1" using p1 by (simp add: cleared_def)
      then have "cleared (account env 0 w1)" using cleared_account b1 by (auto simp: kept_def)
      moreover have "snd (reap opts ops env w) = account env 0 w1" using Cons k r None by (simp add: reap_def w1_def Let_def)
      ultimately show ?thesis using fin [of "account env 0 w1"] books_account [OF b1] kp k r None by (metis fst_conv option.sel)
    next
      case (Some found)
      have a: "found = answer r" using co Some by simp
      define w2 where "w2 = count_batch opts ops env c (account env (unat c) w1)"
      have e: "snd (reap opts ops env w) = fold (take_candidate opts) found w2"
        using Cons k r Some by (simp add: reap_def w1_def w2_def Let_def)
      have cb: "books (count_batch opts ops env c x) l1" "wk_log (count_batch opts ops env c x) = wk_log x" if "books x l1" for x :: "('a, 'k) worker"
        using that by (simp_all add: books_def count_batch_def Let_def)
      have b2: "books w2 l1" unfolding w2_def using cb(1) books_account [OF b1] by blast
      have f2: "wk_methods w2 = wk_methods w" "wk_work w2 = wk_work w" "wk_name w2 = wk_name w"
        by (simp_all add: w2_def w1_def count_batch_def account_def Let_def)
      have l2: "takings (wk_log w2) = []" "paid_up bits create H (wk_log w2)"
        using p1 cb(2) [OF books_account [OF b1]] by (simp_all add: w2_def takings_account paid_up_account)
      have j2: "job_key (wk_methods w2) v = job_key (wk_methods w2) (wk_work w2)" using j f2 by simp
      have lb: "ld_back l1 = Some (v, n, c)" using Some by (simp add: l1_def)
      note tk = take_candidates_takings [OF b2 lb j2 assms(2), of found]
      define x where "x = fold (take_candidate opts) found w2"
      have bx: "books x l1" unfolding x_def by (rule books_take_candidates [OF b2 lb j2])
      let ?name = "wk_name w" let ?S = "shares_of bits (H ?name) (w_data v) (w_target v) (w_nonce_base v OR n) c"
      have "mset (takings (wk_log x)) \<subseteq># mset ?S \<and> length (takings (wk_log x)) = min kMaxCandidates (length ?S)"
      proof -
        have m: "create ?name = Some (wk_methods w)" using b by (simp add: books_def)
        have s: "mset (map s_nonce found) \<subseteq># mset ?S" "length found = min kMaxCandidates (length ?S)"
          using finds_shares [OF m, of "w_data v" "w_target v" "w_nonce_base v OR n" c r] h(2) by (simp_all add: a)
        then have "filter (\<lambda>x. fulltest (H ?name (w_data v) x) (w_target v)) (map s_nonce found) = map s_nonce found"
          unfolding shares_of_def by (intro filter_all_mset)
        then show ?thesis using tk(1) l2(1) s unfolding x_def f2 by simp
      qed
      moreover have n1: "ld_name l1 = Some ?name" "ledger_of create H (wk_log x) = Some l1" using b bx by (simp_all add: books_def l1_def)
      ultimately have "due_paid bits create H (wk_log x)" using lb by (simp add: due_paid_def Let_def)
      then have "cleared x" using tk(2) l2(2) by (simp add: cleared_def x_def)
      then have "served (snd (reap opts ops env w)) \<and> (primed w \<longrightarrow> primed (snd (reap opts ops env w)))"
        using fin [OF bx] kp e by (simp add: x_def)
      moreover have "l1 = l\<lparr>ld_out := tl (ld_out l), ld_back := Some (v, n, c)\<rparr>" "hd (ld_out l) = (v, n, c)"
        "ledger_of create H (wk_log w) = Some l" "ld_name l = Some ?name"
        using o Some b by (simp_all add: l1_def books_def)
      ultimately show ?thesis using n1(2) e Cons by (simp add: x_def)
    qed
  qed
  then show "served (snd (reap opts ops env w))" "primed w \<Longrightarrow> primed (snd (reap opts ops env w))"
    "wk_inflight w = c # cs \<Longrightarrow> fst (kn_collect ops (wk_collects w) kMaxCandidates (the (wk_kernel w))) \<noteq> None \<Longrightarrow>
      \<exists>l v n. ledger_of create H (wk_log w) = Some l \<and> hd (ld_out l) = (v, n, c) \<and>
        ledger_of create H (wk_log (snd (reap opts ops env w))) = Some (l\<lparr>ld_out := tl (ld_out l), ld_back := Some (v, n, c)\<rparr>) \<and>
        ld_name l = Some (wk_name w)" by blast+
qed

text \<open>The stages of a turn.\<close>

definition serving :: "('a, 'k) worker \<Rightarrow> bool" where "serving w \<longleftrightarrow> served w \<and> primed w"

lemma serving_empty: "served w \<Longrightarrow> wk_inflight w = [] \<Longrightarrow> serving w"
  using served_primed by (simp add: serving_def)

lemma served_drain:
  fixes w :: "('a, 'k) worker"
  assumes "served w" "\<not> ro_benchmark opts"
  shows "serving (drain_worker opts ops env w)" "wk_inflight (drain_worker opts ops env w) = []"
proof -
  have "served (drain_worker opts P E w)" if "served w" "P = ops" "E = env" "\<not> ro_benchmark opts"
    for w :: "('a, 'k) worker" and P E
    using that
  proof (induction opts P E w rule: drain_worker.induct)
    case (1 opts P E w)
    show ?case
    proof (cases "wk_inflight w = []")
      case True
      then show ?thesis using 1(2) by (simp add: drain_worker.simps [of opts P E w])
    next
      case False
      then show ?thesis
        using 1(1) [OF False] served_reap(1) [OF 1(2), of opts] 1(3-5) False by (metis drain_worker.simps)
    qed
  qed
  then have s: "served (drain_worker opts ops env w)" using assms by blast
  show i: "wk_inflight (drain_worker opts ops env w) = []" by (rule kept_drain(2) [OF served_kept [OF assms(1)]])
  show "serving (drain_worker opts ops env w)" by (rule serving_empty [OF s i])
qed

lemma served_account: "served w \<Longrightarrow> served (account env n w)"
proof -
  assume a: "served w"
  then obtain l where l: "matched w l" "cleared w" by (auto simp: served_def)
  have "matched (account env n w) l" using l(1) books_account [of w l env n] by (simp add: matched_def)
  moreover have "cleared (account env n w)" using l cleared_account [OF l(2) served_kept [OF a]] by simp
  ultimately show ?thesis by (auto simp: served_def)
qed

lemma serving_wait:
  assumes "serving w"
  shows "flow_all serving B G (wait_turn env w)"
  using assms served_account by (simp add: wait_turn_def serving_def primed_def)

lemma served_work: "served w \<Longrightarrow> wk_inflight w = [] \<Longrightarrow> served (w\<lparr>wk_work := v\<rparr>)"
  by (auto simp: served_def matched_def books_def cleared_def)

lemma served_release:
  assumes "served w" "wk_inflight w = []"
  shows "served (release w)"
proof (cases "wk_kernel w = None")
  case True
  then show ?thesis using assms by (simp add: release_def)
next
  case False
  then have "wk_log (release w) = Released # wk_log w" by (simp add: release_def)
  then show ?thesis
    by (rule served_quiet [OF assms(1) _ _ kept_release(1) [OF served_kept [OF assms(1)] assms(2)]])
      (simp_all add: False release_def)
qed

text \<open>Notes that change nothing else.\<close>

lemma served_note:
  assumes "served w" "e \<in> {SwitchFailed, Failed} \<or> (\<exists>h s. e = Published h s) \<or> (wk_kernel w = None \<and> (\<exists>r. e = Parked r))"
  shows "served (say e w)"
proof (rule served_quiet [OF assms(1), where e = e])
  show "quiet e" using assms(2) by auto
  show "kept (say e w)"
    using assms kept_say [OF served_kept [OF assms(1)]] kept_parked [OF served_kept [OF assms(1)]]
      kept_depth(2) [OF served_kept [OF assms(1)]] by auto
  show "draining k \<and> list_all2 launch_finds (ld_out l') (held k)"
    if "matched w l" "ledger_step create H l e = Some l'" "wk_kernel (say e w) = Some k" for l l' k
  proof -
    have "ld_out l' = ld_out l" using that(2,3) assms(2) by auto
    then show ?thesis using that(1,3) by (simp add: matched_def)
  qed
qed simp

lemma park_turn_serving:
  assumes "served w" "\<not> ro_benchmark opts"
  shows "flow_all serving served G (park_turn opts create ops env p w)"
proof -
  note d = served_drain [OF assms]
  define w1 where "w1 = release (drain_worker opts ops env w)"
  have w1: "served w1" "wk_inflight w1 = []" "wk_kernel w1 = None"
    using d served_release kept_release [OF served_kept] by (auto simp: w1_def serving_def)
  define w2 where "w2 = say (Parked (ps_retains p)) (publish_parked env w1)"
  have "served (publish_parked env w1)"
  proof -
    have "served (w1\<lparr>wk_clock := x\<rparr>)" for x by (rule served_cong [OF w1(1)]) simp_all
    then have "served (say (Published 0 1000000000) (say (Published (wk_window w1) (ou_now env (wk_clock w1) - wk_window_start w1))
        (w1\<lparr>wk_clock := wk_clock w1 + 1\<rparr>)))"
      by (intro served_note) auto
    from served_cong [OF this, of "publish_parked env w1"] show ?thesis
      by (simp add: publish_parked_def Let_def)
  qed
  then have w2: "served w2" "wk_inflight w2 = []" "wk_kernel w2 = None"
    using w1(2,3) by (auto simp: w2_def publish_parked_def Let_def intro!: served_note)
  obtain ok w3 where b: "bind_algo opts create (ps_algo p) w2 = (ok, w3)" by (metis surj_pair)
  note kb = kept_bind [OF served_kept [OF w2(1)] w2(2,3) b]
  have w3: "served w3"
  proof (cases ok)
    case True
    then have "wk_log w3 = Bound (ps_algo p) # wk_log w2" using b by (auto simp: bind_algo_def Let_def split: option.splits)
    then show ?thesis by (rule served_quiet [OF w2(1) _ _ kb(1)]) (simp_all add: kb(3))
  next
    case False
    then have "w3 = w2" using b by (auto simp: bind_algo_def Let_def split: option.splits)
    then show ?thesis using w2(1) by simp
  qed
  then have "served (say Failed w3)" by (intro served_note) auto
  then show ?thesis
    using serving_empty [OF w2(1,2)] serving_empty [OF w3 kb(2)] b
    by (simp add: park_turn_def w1_def [symmetric] w2_def [symmetric] Let_def)
qed

lemma find_work_serving:
  assumes "serving w" "\<not> ro_benchmark opts"
  shows "flow_all serving served (\<lambda>(new_job, w). serving w \<and> (new_job \<longrightarrow> wk_inflight w = [])) (find_work opts ops env p w)"
proof -
  have s: "served w" using assms(1) by (simp add: serving_def)
  note d = served_drain [OF s assms(2)]
  have "serving ((drain_worker opts ops env w)\<lparr>wk_work := v\<rparr>)" for v
    using d serving_empty [OF served_work] by (simp add: serving_def)
  then show ?thesis using assms d(2) by (simp add: find_work_def serving_wait [OF d(1)])
qed

lemma build_or_leave_serving:
  assumes "served w" "wk_inflight w = []" "wk_kernel w = None"
  shows "flow_all serving served (\<lambda>w. serving w \<and> wk_inflight w = [] \<and> wk_kernel w \<noteq> None) (build_or_leave opts ops (ou_pass env i) w)"
proof -
  let ?p = "ou_pass env i"
  obtain ok w' where b: "build_kernel opts ops ?p w = (ok, w')" by (metis surj_pair)
  note kb = kept_build [OF served_kept [OF assms(1)] assms(2,3) b]
  have w': "served w'"
  proof (cases ok)
    case True
    then obtain k where k: "ps_create_kernel ?p ((ps_spec ?p)\<lparr>k_concurrent_kernels := sharing opts\<rparr>) = Some k"
      "w' = say (Built (unat (max 1 (kn_queue_depth ops k)))) (w\<lparr>wk_kernel := Some k, wk_depth := unat (max 1 (kn_queue_depth ops k))\<rparr>)"
      using b by (auto simp: build_kernel_def give_up_def Let_def split: if_splits option.splits)
    then have l: "wk_log w' = Built (unat (max 1 (kn_queue_depth ops k))) # wk_log w" by simp
    show ?thesis
    proof (rule served_quiet [OF assms(1) l _ kb(1)])
      fix j l l' assume m: "matched w l" "ledger_step create H l (Built (unat (max 1 (kn_queue_depth ops k)))) = Some l'"
        "wk_kernel w' = Some j"
      then have "ld_out l' = []" using assms(2) by (auto simp: matched_def books_def split: if_splits)
      moreover have "draining j \<and> held j = []" using m(3) k made ready_draining by auto
      ultimately show "draining j \<and> list_all2 launch_finds (ld_out l') (held j)" by simp
    qed simp
  next
    case False
    have n: "served (w\<lparr>wk_kernel := None\<rparr>)" using assms(1) by (rule served_cong) (simp_all add: assms(3))
    have "served (say SwitchFailed w)" "served (say SwitchFailed (w\<lparr>wk_kernel := None\<rparr>))" "served (say Failed w)"
      "served (say Failed (w\<lparr>wk_kernel := None\<rparr>))"
      using assms(1) n by (auto intro: served_note)
    moreover have "served (x\<lparr>wk_switch_failed := True\<rparr>)" if "served x" for x :: "('a, 'k) worker"
      using that by (rule served_cong) simp_all
    ultimately show ?thesis
      using b False by (auto simp: build_kernel_def give_up_def Let_def split: if_splits option.splits)
  qed
  have "served (w'\<lparr>wk_switch_failed := False\<rparr>)" using w' by (rule served_cong) simp_all
  then show ?thesis
    using serving_empty [of "w'\<lparr>wk_switch_failed := False\<rparr>"] serving_empty [OF w' kb(2)] w' kb(2,3)
    by (cases ok) (auto simp: build_or_leave_def b Let_def)
qed

end

context finding begin

lemma take_job_serving:
  assumes "serving w" "wk_inflight w = []" "\<not> ro_benchmark opts"
  shows "flow_all serving served (\<lambda>w. serving w \<and> wk_kernel w \<noteq> None) (take_job opts ops env (ou_pass env i) w)"
proof -
  let ?p = "ou_pass env i"
  obtain resized a where r: "am_retarget (wk_methods w) (w_data (wk_work w)) (wk_object w) = (resized, a)" by (metis surj_pair)
  define w1 where "w1 = w\<lparr>wk_nonce := wk_first w, wk_object := a\<rparr>"
  have "served w1" using assms(1) unfolding serving_def by (auto simp: w1_def elim!: served_cong)
  then have w1: "served w1" "wk_inflight w1 = []" "serving w1" using assms(2) serving_empty by (simp_all add: w1_def)
  define w2 where "w2 = (if wk_kernel w1 \<noteq> None then release (drain_worker opts ops env w1) else w1)"
  note d = served_drain [OF w1(1) assms(3)]
  have w2: "served w2" "wk_inflight w2 = []" "wk_kernel w2 = None"
    using d w1 served_release [OF _ d(2)] kept_release(2,3) [OF served_kept d(2)] by (auto simp: w2_def serving_def)
  let ?G = "\<lambda>w. serving w \<and> wk_kernel w \<noteq> None"
  let ?k = "\<lambda>w. let w = w\<lparr>wk_xnonce2 := wk_xnonce2 w + of_nat (ro_n_threads opts), wk_armed := False\<rparr>
       in if \<not> ro_benchmark opts \<and> wk_roll w \<and> w_xnonce2_len (wk_work w) = 0 then Break (say Failed w) else Go w"
  have "flow_all serving served ?G (if resized \<or> wk_kernel w1 = None then build_or_leave opts ops ?p w2 else Go w1)"
    using build_or_leave_serving [OF w2, of opts i] w1 by (auto elim!: flow_all_mono)
  moreover have "flow_all serving served ?G (?k w)" if "?G w" for w
  proof -
    have "served (w\<lparr>wk_xnonce2 := x, wk_armed := False\<rparr>)" for x
      using that unfolding serving_def by (auto elim!: served_cong)
    then show ?thesis using that served_note [where e = Failed] by (auto simp: serving_def primed_def Let_def)
  qed
  ultimately have "flow_all serving served ?G (and_then
      (if resized \<or> wk_kernel w1 = None then build_or_leave opts ops ?p w2 else Go w1) ?k)"
    by (rule flow_all_then)
  moreover have "take_job opts ops env ?p w = and_then
      (if resized \<or> wk_kernel w1 = None then build_or_leave opts ops ?p w2 else Go w1) ?k"
    by (simp add: take_job_def r w1_def w2_def Let_def)
  ultimately show ?thesis by simp
qed

lemma arm_serving:
  assumes "serving w" "mining opts w" "wk_kernel w \<noteq> None" "\<not> ro_benchmark opts"
  shows "flow_all serving served serving (arm opts ops env p w)"
proof -
  have s: "served w" using assms(1) by (simp add: serving_def)
  define w1 where "w1 = drain_worker opts ops env w"
  note d = served_drain [OF s assms(4), folded w1_def]
  obtain ok work sctx where e: "stratum_set_extranonce2 (ro_stratum opts) (wk_work w1) (ps_stratum p) (wk_xnonce2 w1) = (ok, work, sctx)"
    by (metis prod_cases3)
  define w2 where "w2 = say (Armed (wk_xnonce2 w1) work) (w1\<lparr>wk_work := work, wk_armed := True\<rparr>)"
  have "serving w2" if "wk_roll w" "\<not> wk_armed w" ok
  proof -
    have "kept w2" using arm_kept [OF assms(2,3), of ops env p] that assms(4)
      by (simp add: arm_def w1_def [symmetric] e w2_def Let_def mining_def)
    moreover have x: "served (w1\<lparr>wk_work := work, wk_armed := True\<rparr>)"
      using served_work [of w1 work] d by (auto simp: serving_def elim!: served_cong)
    ultimately have "served w2"
      by (intro served_quiet [OF x, of w2 "Armed (wk_xnonce2 w1) work"])
        (auto simp: w2_def matched_def split: if_splits)
    then show ?thesis using d(2) by (intro serving_empty) (simp_all add: w2_def)
  qed
  then show ?thesis using assms(1,4)
    by (simp add: arm_def w1_def [symmetric] e w2_def [symmetric] Let_def serving_wait [OF d(1)])
qed

lemma range_done_serving:
  assumes "serving w" "\<not> ro_benchmark opts"
  shows "flow_all serving served G (range_done opts ops env w)"
proof -
  have "served (w\<lparr>wk_xnonce2 := x, wk_armed := y, wk_nonce := n\<rparr>)" "served (w\<lparr>wk_nonce := n\<rparr>)" for x y n
    using assms(1) unfolding serving_def by (auto elim!: served_cong)
  then show ?thesis using assms by (simp add: range_done_def serving_def primed_def Let_def)
qed

lemma launch_serving:
  assumes "serving w" "mining opts w" "wk_kernel w \<noteq> None" "\<not> ro_benchmark opts"
  shows "flow_all serving served serving (launch opts ops env i batch w)"
proof -
  have s: "served w" using assms(1) by (simp add: serving_def)
  then obtain l where l: "matched w l" and cl: "cleared w" by (auto simp: served_def)
  obtain k0 where k0: "wk_kernel w = Some k0" using assms(3) by auto
  then have r0: "ready k0" "draining k0" "list_all2 launch_finds (ld_out l) (held k0)"
    using assms(1) l by (auto simp: serving_def primed_def matched_def)
  let ?v = "wk_work w" let ?m = "wk_methods w"
  obtain ok1 k1 where c1: "kn_prepare_state ops i (am_state_key ?m (w_data ?v) (wk_object w)) k0 = (ok1, k1)" by (metis surj_pair)
  note h1 = state_held [OF r0(2) c1]
  obtain ok2 k2 where c2: "kn_prepare_program ops i (am_program_key ?m (w_data ?v) (wk_object w)) k1 = (ok2, k2)" by (metis surj_pair)
  note h2 = program_held [OF conjunct1 [OF h1] c2]
  have r2: "ready k2" "held k2 = held k0" using h1 h2 r0(1) by auto
  obtain ok3 k3 where c3: "kn_dispatch ops i (w_data ?v) (w_target ?v) (w_nonce_base ?v OR wk_nonce w) batch k2 = (ok3, k3)" by (metis surj_pair)
  note h3 = dispatch_held [OF r2(1) c3]
  have with_kernel: "served (w\<lparr>wk_kernel := Some k\<rparr>)" if "draining k" "held k = held k0" for k
  proof -
    have "matched (w\<lparr>wk_kernel := Some k\<rparr>) l" using l k0 that r0(3) by (simp add: matched_def books_def)
    moreover have "cleared (w\<lparr>wk_kernel := Some k\<rparr>)" using cl by (simp add: cleared_def)
    ultimately show ?thesis by (auto simp: served_def)
  qed
  have wait: "flow_all serving served serving (wait_turn env (drain_worker opts ops env (w\<lparr>wk_kernel := Some k\<rparr>)))"
    if "draining k" "held k = held k0" for k
    by (rule serving_wait [OF served_drain(1) [OF with_kernel [OF that] assms(4)]])
  define w3 where "w3 = say (Launched ?v (wk_nonce w) batch)
      (w\<lparr>wk_kernel := Some k3, wk_inflight := wk_inflight w @ [batch], wk_nonce := wk_nonce w + ucast batch\<rparr>)"
  have go: "serving w3" if ok: ok1 ok2 ok3
  proof -
    have "kept w3" using launch_kept [OF assms(2,3), of ops env i batch] that
      by (simp add: launch_def k0 c1 c2 c3 w3_def Let_def)
    obtain r where r: "held k3 = held k0 @ [r]" "finds (w_data ?v) (w_target ?v) (w_nonce_base ?v OR wk_nonce w) batch r" "ready k3"
      using h3 ok(3) r2(2) by auto
    have "served w3"
    proof (rule served_quiet [OF s _ _ \<open>kept w3\<close>])
      show "wk_log w3 = Launched ?v (wk_nonce w) batch # wk_log w" by (simp add: w3_def)
      fix l1 l' k assume m: "matched w l1" "ledger_step create H l1 (Launched ?v (wk_nonce w) batch) = Some l'" "wk_kernel w3 = Some k"
      then have "ld_out l' = ld_out l1 @ [(?v, wk_nonce w, batch)]" by (auto split: option.splits if_splits)
      moreover have "list_all2 launch_finds (ld_out l1) (held k0)" using m(1) k0 by (auto simp: matched_def)
      ultimately show "draining k \<and> list_all2 launch_finds (ld_out l') (held k)"
        using m(3) r h3 by (simp add: w3_def list_all2_appendI)
    qed simp
    then show ?thesis using r(3) by (simp add: serving_def primed_def w3_def)
  qed
  have held1: "draining k1 \<and> held k1 = held k0" "draining k2 \<and> held k2 = held k0" "\<not> ok3 \<Longrightarrow> draining k3 \<and> held k3 = held k0"
    using h1 h2 h3 r2 by auto
  show ?thesis
    using wait [of k1] wait [of k2] wait [of k3] held1 go
    by (cases ok1; cases ok2; cases ok3) (simp_all add: launch_def k0 c1 c2 c3 w3_def Let_def)
qed

lemma collect_when_full_serving:
  assumes "serving w" "\<not> ro_benchmark opts"
  shows "flow_all serving served G (collect_when_full opts ops env w)"
proof -
  have s: "served w" "primed w" using assms(1) by (simp_all add: serving_def)
  obtain ok w1 where r: "reap opts ops env w = (ok, w1)" by (metis surj_pair)
  have w1: "served w1" "primed w1" using served_reap [OF s(1) assms(2)] s(2) r by simp_all
  then have "serving w1" by (simp add: serving_def)
  then show ?thesis using assms(1)
    by (simp add: collect_when_full_def r Let_def serving_wait [OF served_drain(1) [OF w1(1) assms(2)]])
qed

end

context finding begin

lemma worker_turn_serving:
  fixes w :: "('a, 'k) worker"
  assumes "resting opts w" "serving w" "\<not> ro_benchmark opts"
  shows "flow_all (\<lambda>w. resting opts w \<and> serving w) served (\<lambda>w. resting opts w \<and> serving w) (worker_turn opts create ops env i w)"
proof -
  let ?p = "ou_pass env i"
  let ?C = "(\<lambda>w. resting opts w \<and> serving w) :: ('a, 'k) worker \<Rightarrow> bool"
  let ?M = "(\<lambda>w. mining opts w \<and> serving w) :: ('a, 'k) worker \<Rightarrow> bool"
  let ?K = "(\<lambda>w. ?M w \<and> wk_kernel w \<noteq> None) :: ('a, 'k) worker \<Rightarrow> bool"
  have both: "flow_all ?C served Gz f"
    if "flow_all (resting opts) kept G f" "flow_all serving served Gy f" "\<And>x. G x \<Longrightarrow> Gy x \<Longrightarrow> Gz x"
    for G Gy Gz and f :: "(('a, 'k) worker, 'y) flow"
    using flow_all_conj [OF that(1,2)] by (rule flow_all_mono) (auto simp: that(3))
  let ?mine = "(\<lambda>w. let batch = next_batch ops w
    in if batch = 0 then range_done opts ops env w else and_then (launch opts ops env i batch w) (collect_when_full opts ops env))
    :: ('a, 'k) worker \<Rightarrow> (('a, 'k) worker, ('a, 'k) worker) flow"
  let ?armed = "\<lambda>w. and_then (arm opts ops env ?p w) ?mine"
  let ?built = "\<lambda>w. and_then (if wk_kernel w = None then build_or_leave opts ops ?p w else Go w) ?armed"
  have mine: "flow_all ?C served ?C (?mine w)" if "?K w" for w
  proof -
    have m: "mining opts w" "serving w" "wk_kernel w \<noteq> None" using that by simp_all
    have "flow_all ?C served ?C (and_then (launch opts ops env i (next_batch ops w) w) (collect_when_full opts ops env))"
    proof (rule flow_all_then [OF both [OF launch_kept launch_serving]])
      fix v :: "('a, 'k) worker"
      assume v: "(kept v \<and> wk_kernel v \<noteq> None \<and> (ro_benchmark opts \<longrightarrow> wk_have_job v) \<and> length (wk_inflight v) \<le> wk_depth v) \<and> serving v"
      show "flow_all ?C served ?C (collect_when_full opts ops env v)"
        by (rule both [OF collect_when_full_kept collect_when_full_serving]) (use v assms(3) in auto)
    qed (use m assms(3) in auto)
    moreover have "flow_all ?C served ?C (range_done opts ops env w)"
      by (rule both [OF range_done_kept range_done_serving]) (use m assms(3) in auto)
    ultimately show ?thesis by (simp add: Let_def)
  qed
  have armed: "flow_all ?C served ?C (?armed w)" if "?K w" for w
  proof (rule flow_all_then [OF _ mine])
    show "flow_all ?C served ?K (arm opts ops env ?p w)"
      by (rule both [OF arm_kept arm_serving]) (use that assms(3) in auto)
  qed
  have built: "flow_all ?C served ?C (?built w)" if "?M w" for w
  proof (rule flow_all_then [OF _ armed])
    have k: "kept w" "served w" using that by (simp_all add: mining_def serving_def)
    have "flow_all ?C served ?K (build_or_leave opts ops ?p w)" if "wk_kernel w = None"
      by (rule both [OF build_or_leave_kept build_or_leave_serving])
        (use k that kept_depth(2) [OF k(1)] assms(3) in auto)
    then show "flow_all ?C served ?K (if wk_kernel w = None then build_or_leave opts ops ?p w else Go w)"
      using that by simp
  qed
  have job: "flow_all ?C served ?C (and_then (if new_job then take_job opts ops env ?p w else Go w) ?built)"
    if "?M w \<and> (new_job \<longrightarrow> wk_inflight w = [])" for new_job w
  proof (rule flow_all_then [OF _ built])
    have "flow_all ?C served ?M (take_job opts ops env ?p w)" if new_job
      by (rule both [OF take_job_kept take_job_serving]) (use \<open>?M w \<and> (new_job \<longrightarrow> wk_inflight w = [])\<close> that assms(3) in auto)
    then show "flow_all ?C served ?M (if new_job then take_job opts ops env ?p w else Go w)" using that by simp
  qed
  have s: "served w" using assms(2) by (simp add: serving_def)
  have "flow_all ?C served ?C (and_then (find_work opts ops env ?p w)
      (\<lambda>(new_job, w). and_then (if new_job then take_job opts ops env ?p w else Go w) ?built))"
  proof (rule flow_all_then)
    show "flow_all ?C served (\<lambda>(new_job, w). ?M w \<and> (new_job \<longrightarrow> wk_inflight w = [])) (find_work opts ops env ?p w)"
      by (rule both [OF find_work_kept [OF assms(1)] find_work_serving [OF assms(2,3)]]) auto
  qed (use job in auto)
  moreover have "flow_all ?C served ?C (park_turn opts create ops env ?p w)"
    by (rule both [OF park_turn_kept [OF assms(1)] park_turn_serving [OF s assms(3)]]) simp
  ultimately show ?thesis using s by (simp add: worker_turn_def Let_def)
qed

lemma worker_start_serving:
  assumes "worker_start opts create name env' = Some w"
  shows "serving w"
proof -
  from assms obtain m where m: "create name = Some m" by (auto simp: worker_start_def split: option.splits)
  have l: "wk_log w = [Bound name]" "wk_inflight w = []" "wk_kernel w = None"
    using assms m by (auto simp: worker_start_def worker_new_def bind_algo_def Let_def)
  have "cleared w" using m by (simp add: cleared_def l due_paid_def ledger_start_def)
  moreover obtain l where "books w l" using worker_start_resting [OF assms] by (auto simp: resting_def kept_def)
  ultimately show ?thesis using l by (intro serving_empty) (auto simp: served_def matched_def)
qed

lemma worker_run_served:
  assumes "worker_start opts create name env' = Some w" "\<not> ro_benchmark opts"
    and "worker_run opts create ops env w i = (running, w')"
  shows "served w'"
proof -
  have "served w' \<and> (running \<longrightarrow> resting opts w' \<and> serving w')"
    using assms(3)
  proof (induction i arbitrary: running w')
    case 0
    then show ?case using worker_start_serving [OF assms(1)] worker_start_resting [OF assms(1)] by (simp add: serving_def)
  next
    case (Suc i)
    obtain r v where v: "worker_run opts create ops env w i = (r, v)" by (metis surj_pair)
    show ?case
    proof (cases r)
      case False
      then show ?thesis using Suc v by simp
    next
      case True
      then have "flow_all (\<lambda>w. resting opts w \<and> serving w) served (\<lambda>w. resting opts w \<and> serving w) (worker_turn opts create ops env i v)"
        using Suc.IH [OF v] assms(2) by (intro worker_turn_serving) simp_all
      then show ?thesis using Suc.prems v True by (auto simp: serving_def split: flow.splits)
    qed
  qed
  then show ?thesis by simp
qed

text \<open>What a thread that has returned leaves, the batches it took back on its way out included.\<close>

lemma miner_thread_served:
  assumes "worker_start opts create name env' = Some w" "\<not> ro_benchmark opts"
    and "miner_thread opts create ops env w i = Some w'"
  shows "served w'"
proof -
  obtain running v where v: "worker_run opts create ops env w i = (running, v)" by (metis surj_pair)
  then have w': "w' = release (drain_worker opts ops env v)"
    using assms(3) by (simp add: miner_thread_def split: if_splits)
  note d = served_drain [OF worker_run_served [OF assms(1,2) v] assms(2)]
  show ?thesis unfolding w' using served_release d by (simp add: serving_def)
qed

end

end
