(* ===== verification/Registry.thy ===== *)
theory Registry
  imports Prelude
begin

text \<open>
  \<^verbatim>\<open>algorithms/registry.cpp\<close>: the names an algorithm may be asked for by. What an entry makes is the
  component's own; here an entry is its name and its other spelling.
\<close>

record entry =
  en_name :: string
  en_alias :: string

definition kAlgorithms :: "entry list" where
  "kAlgorithms = map (\<lambda>n. \<lparr>en_name = n, en_alias = ''''\<rparr>)
     [''sha256d'', ''blake2s'', ''scrypt'', ''sha3t'', ''lbry'', ''sha512256d'', ''skein'', ''skein2'', ''groestl'',
      ''myr-gr'', ''bmw512'', ''heavyhash'', ''qubit'', ''x11'', ''x13'', ''kawpow'', ''firopow'', ''evrprogpow'',
      ''meowpow'', ''meraki'']"

definition to_lower :: "char \<Rightarrow> char" where
  "to_lower c = (let n = of_char c :: nat in if 65 \<le> n \<and> n \<le> 90 then char_of (n - 65 + 97) else c)"

fun same_letters :: "string \<Rightarrow> string \<Rightarrow> bool" where
  "same_letters (x # a) (y # b) = (if to_lower x \<noteq> to_lower y then False else same_letters a b)"
| "same_letters a b = (a = [] \<and> b = [])"

definition same_name :: "string \<Rightarrow> string \<Rightarrow> bool" where
  "same_name a b = (if b = [] then False else same_letters a b)"

definition find_entry :: "string \<Rightarrow> entry option" where
  "find_entry name = find (\<lambda>e. same_name name (en_name e) \<or> same_name name (en_alias e)) kAlgorithms"

definition algorithm_exists :: "string \<Rightarrow> bool" where
  "algorithm_exists name \<longleftrightarrow> find_entry name \<noteq> None"

definition create_algorithm :: "(entry \<Rightarrow> 'a) \<Rightarrow> string \<Rightarrow> 'a option" where
  "create_algorithm build name = map_option build (find_entry name)"

lemma same_letters_iff: "same_letters a b \<longleftrightarrow> map to_lower a = map to_lower b"
  by (induction a b rule: same_letters.induct) auto

lemma same_name_iff: "same_name a b \<longleftrightarrow> b \<noteq> [] \<and> map to_lower a = map to_lower b"
  by (simp add: same_name_def same_letters_iff)

text \<open>The names as they are written down: lower case, and no two alike.\<close>

lemma names_lower: "map (map to_lower) (map en_name kAlgorithms) = map en_name kAlgorithms"
  by code_simp

lemma names_distinct: "distinct (map en_name kAlgorithms)"
  by code_simp

lemma names_present: "e \<in> set kAlgorithms \<Longrightarrow> en_name e \<noteq> [] \<and> en_alias e = []"
  by (auto simp: kAlgorithms_def)

lemma entry_matches:
  assumes "e \<in> set kAlgorithms"
  shows "same_name name (en_name e) \<or> same_name name (en_alias e) \<longleftrightarrow> map to_lower name = en_name e"
proof -
  have "map to_lower (en_name e) = en_name e" using names_lower assms by (simp add: map_eq_conv)
  then show ?thesis using names_present [OF assms] by (simp add: same_name_iff)
qed

text \<open>
  An entry is found under its name in whatever case it is typed, and under nothing else.
\<close>

theorem find_entry_by_name: "find_entry name = Some e \<longleftrightarrow> e \<in> set kAlgorithms \<and> map to_lower name = en_name e"
proof -
  have f: "find_entry name = find (\<lambda>e. map to_lower name = en_name e) kAlgorithms"
    unfolding find_entry_def by (rule find_cong) (use entry_matches in auto)
  have inj: "e = e'" if "e \<in> set kAlgorithms" "e' \<in> set kAlgorithms" "en_name e = en_name e'" for e e'
    using names_distinct that by (auto simp: distinct_map inj_on_def)
  show ?thesis
  proof
    assume "find_entry name = Some e"
    then show "e \<in> set kAlgorithms \<and> map to_lower name = en_name e" unfolding f by (auto simp: find_Some_iff in_set_conv_nth)
  next
    assume a: "e \<in> set kAlgorithms \<and> map to_lower name = en_name e"
    then have "find_entry name \<noteq> None" unfolding f by (auto simp: find_None_iff)
    then obtain e' where "find_entry name = Some e'" by auto
    moreover have "e' \<in> set kAlgorithms" "map to_lower name = en_name e'"
      using calculation unfolding f by (auto simp: find_Some_iff in_set_conv_nth)
    ultimately show "find_entry name = Some e" using inj a by metis
  qed
qed

lemma find_sha256d: "map_option en_name (find_entry ''sha256d'') = Some ''sha256d''"
  by code_simp

end
