(* ===== verification/Miner.thy ===== *)
theory Miner
  imports Worker_Books Worker_Nonces Sha256d_Kernel Registry
begin

text \<open>
  The worker at work: SHA-256d on a Vulkan device. What \<^verbatim>\<open>scheduler/worker.cpp\<close> calls through
  \<^verbatim>\<open>vkminer::Algorithm\<close> and \<^verbatim>\<open>vkminer::Kernel\<close> is here \<^verbatim>\<open>class Sha256d\<close> and \<^verbatim>\<open>class VulkanKernel\<close>.
\<close>

section \<open>The algorithm and the kernel behind the worker's calls\<close>

definition sha256d_methods :: "unit algorithm" where
  "sha256d_methods = \<lparr>am_nonce_bits = 32, am_nonce_word = 19, am_header_bytes = 80,
     am_retarget = (\<lambda>header a. (False, a)), am_hash = (\<lambda>header nonce a. (sha256d_hash header nonce, a)),
     am_submit_mix = (\<lambda>header nonce a. (None, a)), am_state_key = (\<lambda>header a. 0), am_program_key = (\<lambda>header a. 0),
     am_known_answers = sha256d_answers, am_reference_answers = [], am_new = ()\<rparr>"

text \<open>The registry, for the one algorithm.\<close>

definition create_sha256d :: "string \<Rightarrow> unit algorithm option" where
  "create_sha256d name = (if map_option en_name (find_entry name) = Some ''sha256d'' then Some sha256d_methods else None)"

text \<open>
  What the driver answers each call, in the order they are made, and which slots the device has finished
  by the time a batch is asked for.
\<close>

record driver =
  dv_info :: DeviceInfo
  dv_options :: kernel_options
  dv_init :: "nat \<Rightarrow> init_answers"
  dv_table :: "nat \<Rightarrow> nat device_run"
  dv_program :: "nat \<Rightarrow> program_answers"
  dv_dispatch :: "nat \<Rightarrow> nat dispatch_answers"
  dv_finished :: "nat \<Rightarrow> nat list"
  dv_collect :: "nat \<Rightarrow> collect_answers"

definition finish_slots :: "shader \<Rightarrow> nat list \<Rightarrow> kernel_gpu \<Rightarrow> kernel_gpu" where
  "finish_slots run slots g = fold (finish run) slots g"

definition vulkan_calls ::
  "shader \<Rightarrow> nat algorithm_ops option \<Rightarrow> driver \<Rightarrow> (VulkanKernel \<times> kernel_gpu) kernel_calls" where
  "vulkan_calls run alg dv =
     \<lparr>kn_queue_depth = (\<lambda>(k, g). of_nat (queue_depth k)),
      kn_preferred_batch = (\<lambda>(k, g). preferred_batch k),
      kn_prepare_state = (\<lambda>i key (k, g). case prepare_state (dv_table dv i) alg key k None of
         None \<Rightarrow> (False, k, g) | Some (ok, k, sh) \<Rightarrow> (ok, k, g)),
      kn_prepare_program = (\<lambda>i key (k, g). prepare_program run (dv_program dv i) alg key k g),
      kn_dispatch = (\<lambda>i data target nonce n (k, g). case dispatch run (dv_dispatch dv i) alg data target nonce n k g None of
         None \<Rightarrow> (False, k, g) | Some (ok, k, g, sh) \<Rightarrow> (ok, k, g)),
      kn_collect = (\<lambda>j most (k, g). collect run (dv_info dv) (dv_collect dv j) (int most) k (finish_slots run (dv_finished dv j) g)),
      kn_best_digest = (\<lambda>(k, g). best_digest k),
      kn_reached_count = (\<lambda>(k, g). reached_count k)\<rparr>"

text \<open>The backend's \<^verbatim>\<open>create_kernel\<close> is the kernel's \<open>init\<close>; the rest of what the worker is told is as it may be.\<close>

definition vulkan_create :: "driver \<Rightarrow> nat \<Rightarrow> KernelSpec \<Rightarrow> (VulkanKernel \<times> kernel_gpu) option" where
  "vulkan_create dv i spec =
     (case init (dv_options dv) (dv_init dv i) (dv_info dv) spec None of Inl e \<Rightarrow> None | Inr kg \<Rightarrow> Some kg)"

definition on_vulkan :: "driver \<Rightarrow> (VulkanKernel \<times> kernel_gpu) outside \<Rightarrow> (VulkanKernel \<times> kernel_gpu) outside" where
  "on_vulkan dv env = env\<lparr>ou_pass := \<lambda>i. (ou_pass env i)\<lparr>ps_create_kernel := vulkan_create dv i\<rparr>\<rparr>"

section \<open>The contracts, kept\<close>

interpretation sha: hashing create_sha256d "\<lambda>name. sha256d_hash"
proof
  show "fst (am_hash m header nonce a) = sha256d_hash header nonce" if "create_sha256d name = Some m" for name m header nonce a
    using that by (auto simp: create_sha256d_def sha256d_methods_def split: if_splits)
  show "sha256d_hash (header[am_nonce_word m := x]) nonce = sha256d_hash header nonce"
    if "create_sha256d name = Some m" for name m header x nonce
  proof -
    have "map (\<lambda>i. be32enc (header[19 := x] ! i)) [0..<19] = map (\<lambda>i. be32enc (header ! i)) [0..<19]" by simp
    then have "sha256d_hash (header[19 := x]) nonce = sha256d_hash header nonce" by (simp only: sha256d_hash_def)
    moreover have "am_nonce_word m = 19" using that(1) by (auto simp: create_sha256d_def sha256d_methods_def split: if_splits)
    ultimately show ?thesis by simp
  qed
qed

text \<open>A kernel the backend made, whatever has been asked of it since.\<close>

definition vulkan_made :: "shader \<Rightarrow> nat algorithm_ops option \<Rightarrow> driver \<Rightarrow> VulkanKernel \<times> kernel_gpu \<Rightarrow> bool" where
  "vulkan_made run alg dv s \<longleftrightarrow> (\<exists>ans spec k0 g0. init (dv_options dv) ans (dv_info dv) spec None = Inr (k0, g0) \<and>
     (kernel_step run (dv_info dv) alg)\<^sup>*\<^sup>* (k0, g0) s)"

lemma vulkan_made_step:
  "vulkan_made run alg dv s \<Longrightarrow> (kernel_step run (dv_info dv) alg)\<^sup>*\<^sup>* s s' \<Longrightarrow> vulkan_made run alg dv s'"
  unfolding vulkan_made_def by (metis rtranclp_trans)

lemma vulkan_made_one:
  "vulkan_made run alg dv s \<Longrightarrow> kernel_step run (dv_info dv) alg s s' \<Longrightarrow> vulkan_made run alg dv s'"
  unfolding vulkan_made_def by (metis rtranclp.rtrancl_into_rtrancl)

lemma finish_slots_steps: "(kernel_step run info alg)\<^sup>*\<^sup>* (k, g) (k, finish_slots run slots g)"
proof (induction slots arbitrary: g)
  case (Cons i slots)
  have "kernel_step run info alg (k, g) (k, finish run i g)" by (rule does_finish)
  with Cons [of "finish run i g"] show ?case by (simp add: finish_slots_def converse_rtranclp_into_rtranclp)
qed (simp add: finish_slots_def)

lemma vulkan_made_batch:
  assumes "vulkan_made run alg dv (k, g)"
  shows "unat (preferred_batch k) \<le> 2 ^ 28"
proof -
  obtain ans spec k0 g0 where i: "init (dv_options dv) ans (dv_info dv) spec None = Inr (k0, g0)"
    and s: "(kernel_step run (dv_info dv) alg)\<^sup>*\<^sup>* (k0, g0) (k, g)"
    using assms by (auto simp: vulkan_made_def)
  from i have "sized (dv_info dv) k0" by (rule init_spec)
  then have "sized (dv_info dv) k" using kernel_steps_sized [OF s] by simp
  then have "unat (vk_batch k) \<le> most_nonces (dv_info dv) k" by (simp add: sized_def)
  also have "most_nonces (dv_info dv) k \<le> 2 ^ 28" by (simp add: most_nonces_def)
  finally show ?thesis by (simp add: preferred_batch_def)
qed

interpretation vk: rolling "vulkan_calls run alg dv" "on_vulkan dv env" "vulkan_made run alg dv" opts create_sha256d "2 ^ 32" "2 ^ 28" turns
  for run :: shader and alg :: "nat algorithm_ops option" and dv :: driver and env opts turns
proof
  fix i spec s key name data target nonce n most j and m :: "unit algorithm"
  show "vulkan_made run alg dv s" if "ps_create_kernel (ou_pass (on_vulkan dv env) i) spec = Some s" for s
    using that by (cases s) (auto simp: on_vulkan_def vulkan_create_def vulkan_made_def split: sum.splits)
  show "vulkan_made run alg dv (snd (kn_prepare_state (vulkan_calls run alg dv) i key s))" if "vulkan_made run alg dv s"
    by (cases s, rule vulkan_made_step [OF that])
      (auto simp: vulkan_calls_def split: option.splits intro: does_state r_into_rtranclp)
  show "vulkan_made run alg dv (snd (kn_prepare_program (vulkan_calls run alg dv) i key s))" if "vulkan_made run alg dv s"
  proof -
    obtain k g where s: "s = (k, g)" by (cases s)
    obtain ok k' g' where c: "prepare_program run (dv_program dv i) alg key k g = (ok, k', g')" by (metis prod_cases3)
    then have "kernel_step run (dv_info dv) alg s (k', g')" unfolding s by (rule does_program)
    from vulkan_made_one [OF that this] show ?thesis using c by (simp add: vulkan_calls_def s)
  qed
  show "vulkan_made run alg dv (snd (kn_dispatch (vulkan_calls run alg dv) i data target nonce n s))" if "vulkan_made run alg dv s"
    by (cases s, rule vulkan_made_step [OF that])
      (auto simp: vulkan_calls_def split: option.splits intro: does_dispatch r_into_rtranclp)
  show "vulkan_made run alg dv (snd (kn_collect (vulkan_calls run alg dv) j most s))" if "vulkan_made run alg dv s"
  proof -
    obtain k g where s: "s = (k, g)" by (cases s)
    obtain res k' g' where c: "collect run (dv_info dv) (dv_collect dv j) (int most) k (finish_slots run (dv_finished dv j) g) = (res, k', g')"
      by (metis prod_cases3)
    then have "kernel_step run (dv_info dv) alg (k, finish_slots run (dv_finished dv j) g) (k', g')" by (rule does_collect)
    from vulkan_made_one [OF vulkan_made_step [OF that [unfolded s] finish_slots_steps] this]
    show ?thesis using c by (simp add: vulkan_calls_def s)
  qed
  show "nonce_space m = 2 ^ 32" if "create_sha256d name = Some m"
    using that by (auto simp: create_sha256d_def sha256d_methods_def nonce_space_def split: if_splits)
  show "unat (kn_preferred_batch (vulkan_calls run alg dv) s) \<le> 2 ^ 28" if "vulkan_made run alg dv s"
    using that vulkan_made_batch by (cases s) (auto simp: vulkan_calls_def)
  show "am_nonce_bits m \<le> 32" if "create_sha256d name = Some m"
    using that by (auto simp: create_sha256d_def sha256d_methods_def split: if_splits)
qed

end
