(* ===== verification/Miner_Shares.thy ===== *)
theory Miner_Shares
  imports Miner Worker_Shares
begin

text \<open>
  Nothing the device finds is lost: the contract under which \<open>Worker_Shares\<close> shows it, kept by a Vulkan
  kernel built for SHA-256d.
\<close>

section \<open>A kernel whose queue is in order\<close>

text \<open>
  The worker told to mine sha256d with this module; \<open>ok\<close> says whether the backend makes kernels at all.
\<close>

definition mines_sha256d ::
  "driver \<Rightarrow> ShaderModule \<Rightarrow> bool \<Rightarrow> (VulkanKernel \<times> kernel_gpu) outside \<Rightarrow> (VulkanKernel \<times> kernel_gpu) outside" where
  "mines_sha256d dv shader ok env = env\<lparr>ou_pass := \<lambda>i. (ou_pass env i)\<lparr>ps_spec := sha256d_kernel (Some shader),
     ps_create_kernel := \<lambda>spec. if ok then vulkan_create dv i spec else None\<rparr>\<rparr>"

text \<open>A module and a device the shader's results are known on: every invocation runs, each once, in whatever order.\<close>

definition known_device :: "driver \<Rightarrow> ShaderModule \<Rightarrow> (nat \<Rightarrow> nat list) \<Rightarrow> bool" where
  "known_device dv shader order \<longleftrightarrow> sha256d_module_ok (dv_options dv) shader \<and> (\<forall>N. mset (order N) = mset [0..<N])"

definition sha256d_built :: "driver \<Rightarrow> ShaderModule \<Rightarrow> (nat \<Rightarrow> nat list) \<Rightarrow> VulkanKernel \<times> kernel_gpu \<Rightarrow> bool" where
  "sha256d_built dv shader order s \<longleftrightarrow> known_device dv shader order \<and> kernel_ok (fst s) (snd s) \<and>
     (\<exists>ans c k0 g0. init (dv_options dv) ans (dv_info dv) (sha256d_spec shader c) None = Inr (k0, g0) \<and>
        vk_pipeline (fst s) = vk_pipeline k0 \<and> settled (fst s) = settled k0)"

definition sha256d_in_order :: "driver \<Rightarrow> ShaderModule \<Rightarrow> (nat \<Rightarrow> nat list) \<Rightarrow> VulkanKernel \<times> kernel_gpu \<Rightarrow> bool" where
  "sha256d_in_order dv shader order s \<longleftrightarrow> sha256d_built dv shader order s \<and> lockstep (fst s)"

definition sha256d_answers_for :: "u32 list \<Rightarrow> u32 list \<Rightarrow> u64 \<Rightarrow> u32 \<Rightarrow> u32 \<times> u32 list \<Rightarrow> bool" where
  "sha256d_answers_for data target nonce n r \<longleftrightarrow>
     mset (map s_nonce (read_candidates (snd r) (int kMaxCandidates))) \<subseteq># mset (shares_of 32 sha256d_hash data target nonce n) \<and>
     length (read_candidates (snd r) (int kMaxCandidates)) = min kMaxCandidates (length (shares_of 32 sha256d_hash data target nonce n))"

lemma sha256d_shares: "shares_of 32 sha256d_hash data target nonce n = map s_nonce (sha256d_results data target nonce n)"
proof -
  have b: "take_bit 32 (nonce + of_nat i) = (ucast (nonce_of nonce i) :: u64)" for i
  proof -
    have "unat (take_bit 32 (nonce + of_nat i)) = (unat nonce + i) mod 2 ^ 32"
      by (simp add: unsigned_take_bit_eq unat_word_ariths unsigned_of_nat take_bit_eq_mod mod_simps mod_mod_cancel)
    moreover have "unat (ucast (nonce_of nonce i) :: u64) = (unat nonce + i) mod 2 ^ 32"
      by (simp add: nonce_of_def unsigned_ucast_eq unat_word_ariths unsigned_of_nat take_bit_eq_mod mod_simps mod_mod_cancel)
    ultimately show ?thesis by (simp add: word_unat_eq_iff)
  qed
  have "accepted data target nonce = (\<lambda>i. fulltest (sha256d_hash data (ucast (nonce_of nonce i))) target)"
    by (rule ext) (simp add: accepted_def verify_def Let_def)
  then show ?thesis
    by (simp add: shares_of_def batch_list_def sha256d_results_def filter_map comp_def b found_at_def)
qed

lemma sha256d_built_step:
  assumes "sha256d_built dv shader order (k, g)" "client_step run info alg (\<not> lockstep k, k, g) (d', k', g')"
  shows "sha256d_built dv shader order (k', g')" "lockstep k \<Longrightarrow> \<not> d' \<Longrightarrow> lockstep k'"
proof -
  obtain ans c k0 g0 where b: "known_device dv shader order" "kernel_ok k g"
    "init (dv_options dv) ans (dv_info dv) (sha256d_spec shader c) None = Inr (k0, g0)"
    "vk_pipeline k = vk_pipeline k0" "settled k = settled k0"
    using assms(1) by (auto simp: sha256d_built_def)
  have "vk_program_constants k0 = 0"
    using b(3) by (elim init_spec) (simp add: limits_settled fresh_kernel_def sha256d_spec_def sha256d_kernel_def kernel_spec_default_def Let_def)
  then have "vk_program_constants k = 0" using limits_settled(6) [OF b(5)] by simp
  note p = client_step_pipeline [OF assms(2) this]
  have "client_ok (\<not> lockstep k, k, g)" using b(2) by (simp add: client_ok_def)
  from client_step_ok [OF assms(2) this] have ok: "kernel_ok k' g'" "\<not> d' \<longrightarrow> lockstep k'" by (simp_all add: client_ok_def)
  show "sha256d_built dv shader order (k', g')" using b p ok(1) by (auto simp: sha256d_built_def)
  show "lockstep k \<Longrightarrow> \<not> d' \<Longrightarrow> lockstep k'" using ok(2) by simp
qed

lemma sha256d_built_call:
  assumes "sha256d_built dv shader order (k, g)" "client_step run info alg (\<not> lockstep k, k, g) (\<not> lockstep k, k', g')"
  shows "sha256d_built dv shader order (k', g') \<and>
    (sha256d_in_order dv shader order (k, g) \<longrightarrow> sha256d_in_order dv shader order (k', g'))"
  using sha256d_built_step [OF assms] by (simp add: sha256d_in_order_def)

lemma sha256d_made:
  assumes "vulkan_create dv i (sha256d_spec shader c) = Some s" "known_device dv shader order"
  shows "sha256d_in_order dv shader order s \<and> outstanding run s = []"
proof -
  obtain k g where s: "s = (k, g)" by (cases s)
  have i: "init (dv_options dv) (dv_init dv i) (dv_info dv) (sha256d_spec shader c) None = Inr (k, g)"
    using assms(1) by (auto simp: vulkan_create_def s split: sum.splits)
  note k = init_kernel_ok [OF i]
  have "outstanding run (k, g) = []" using k(2) by (simp add: outstanding_def entries_def)
  then show ?thesis using i k idle_lockstep assms(2) by (auto simp: s sha256d_in_order_def sha256d_built_def)
qed

lemma finish_slots_built:
  assumes "sha256d_built dv shader order (k, g)"
  shows "sha256d_built dv shader order (k, finish_slots run slots g)"
    "outstanding run (k, finish_slots run slots g) = outstanding run (k, g)"
proof -
  have "sha256d_built dv shader order (k, finish_slots run slots g) \<and>
      outstanding run (k, finish_slots run slots g) = outstanding run (k, g)"
    using assms
  proof (induction slots arbitrary: g)
    case (Cons i slots)
    have ok: "kernel_ok k g" using Cons.prems by (simp add: sha256d_built_def)
    then have "gpu_ok (vk_depth k) (vk_uniform_bytes k) g" by (simp add: kernel_ok_def)
    note c = kernel_ok_calm [OF ok calm_finish [OF this, of run i]]
    have "sha256d_built dv shader order (k, finish run i g)" using Cons.prems c(1) by (simp add: sha256d_built_def)
    from Cons.IH [OF this] c(2) show ?case by (simp add: finish_slots_def)
  qed (simp add: finish_slots_def)
  then show "sha256d_built dv shader order (k, finish_slots run slots g)"
    "outstanding run (k, finish_slots run slots g) = outstanding run (k, g)" by simp_all
qed

interpretation finder: finding create_sha256d "\<lambda>name. sha256d_hash" 32
  "vulkan_calls (sha256d_shader order memory) (Some (sha256d_ops table)) dv"
  "mines_sha256d dv shader (known_device dv shader order) env"
  "outstanding (sha256d_shader order memory)" "sha256d_in_order dv shader order" "sha256d_built dv shader order"
  "\<lambda>r. read_candidates (snd r) (int kMaxCandidates)" sha256d_answers_for
  for order memory dv shader env and table :: "nat table_source"
proof
  let ?run = "sha256d_shader order memory" and ?alg = "Some (sha256d_ops table)"
  let ?calls = "vulkan_calls ?run ?alg dv"
  fix i j c name data target nonce n key ok res r rs and m :: "unit algorithm"
    and s s' :: "VulkanKernel \<times> kernel_gpu"
  show "sha256d_in_order dv shader order s \<and> outstanding ?run s = []"
    if "ps_create_kernel (ou_pass (mines_sha256d dv shader (known_device dv shader order) env) i)
      ((ps_spec (ou_pass (mines_sha256d dv shader (known_device dv shader order) env) i))\<lparr>k_concurrent_kernels := c\<rparr>) = Some s"
    using that sha256d_made by (auto simp: mines_sha256d_def sha256d_spec_def [symmetric] split: if_splits)
  show "sha256d_in_order dv shader order s \<Longrightarrow> sha256d_built dv shader order s" by (simp add: sha256d_in_order_def)
  show "sha256d_in_order dv shader order s" if "sha256d_built dv shader order s" "outstanding ?run s = []"
  proof -
    have "vk_inflight (fst s) = 0" using that(2) by (simp add: length_outstanding [of ?run s, symmetric] del: length_outstanding)
    then show ?thesis using that(1) idle_lockstep by (simp add: sha256d_in_order_def)
  qed
  obtain k g k' g' where s: "s = (k, g)" "s' = (k', g')" by (metis surj_pair)
  show "sha256d_built dv shader order s' \<and> (sha256d_in_order dv shader order s \<longrightarrow> sha256d_in_order dv shader order s') \<and>
      outstanding ?run s' = outstanding ?run s"
    if b: "sha256d_built dv shader order s" and call: "kn_prepare_state ?calls i key s = (ok, s')"
  proof (cases "prepare_state (dv_table dv i) ?alg key k None")
    case None
    then show ?thesis using b call by (simp add: vulkan_calls_def s)
  next
    case (Some x)
    then obtain sh where e: "prepare_state (dv_table dv i) ?alg key k None = Some (ok, k', sh)" "g' = g"
      using call by (cases x) (auto simp: vulkan_calls_def s)
    have "kernel_ok k g" using b by (simp add: sha256d_built_def s)
    from kernel_ok_frame(3) [OF this prepare_state_frame(1,2,4) [OF e(1)]]
    show ?thesis using sha256d_built_call [OF b [unfolded s] client_state [OF e(1)]] by (simp add: s e(2))
  qed
  show "sha256d_built dv shader order s' \<and> (sha256d_in_order dv shader order s \<longrightarrow> sha256d_in_order dv shader order s') \<and>
      outstanding ?run s' = outstanding ?run s"
    if b: "sha256d_built dv shader order s" and call: "kn_prepare_program ?calls i key s = (ok, s')"
  proof -
    have e: "prepare_program ?run (dv_program dv i) ?alg key k g = (ok, k', g')" using call by (simp add: vulkan_calls_def s)
    have "kernel_ok k g" using b by (simp add: sha256d_built_def s)
    from prepare_program_queue(3) [OF this e]
    show ?thesis using sha256d_built_call [OF b [unfolded s] client_program [OF e]] by (simp add: s)
  qed
  show "sha256d_built dv shader order s' \<and>
      (if ok then sha256d_in_order dv shader order s' \<and>
         (\<exists>r. outstanding ?run s' = outstanding ?run s @ [r] \<and> sha256d_answers_for data target nonce n r)
       else outstanding ?run s' = outstanding ?run s)"
    if b: "sha256d_in_order dv shader order s" and call: "kn_dispatch ?calls i data target nonce n s = (ok, s')"
  proof (cases "dispatch ?run (dv_dispatch dv i) ?alg data target nonce n k g None")
    case None
    then show ?thesis using b call by (auto simp: vulkan_calls_def s sha256d_in_order_def)
  next
    case (Some x)
    then obtain sh where e: "dispatch ?run (dv_dispatch dv i) ?alg data target nonce n k g None = Some (ok, k', g', sh)"
      using call by (cases x) (auto simp: vulkan_calls_def s)
    have b': "sha256d_built dv shader order (k, g)" "lockstep k" using b by (simp_all add: sha256d_in_order_def s)
    obtain ans c k0 g0 where k: "known_device dv shader order" "kernel_ok k g"
      "init (dv_options dv) ans (dv_info dv) (sha256d_spec shader c) None = Inr (k0, g0)"
      "vk_pipeline k = vk_pipeline k0" "settled k = settled k0"
      using b'(1) by (auto simp: sha256d_built_def)
    have "client_step ?run (dv_info dv) ?alg (\<not> lockstep k, k, g) (\<not> ok \<and> vk_inflight k' \<noteq> 0, k', g')"
      using client_dispatch [OF e] b'(2) by simp
    note st = sha256d_built_step [OF b'(1) this]
    note q = dispatch_queue_cases [OF k(2) b'(2) e]
    show ?thesis
    proof (cases ok)
      case True
      have o: "sha256d_module_ok (dv_options dv) shader" "\<And>N. mset (order N) = mset [0..<N]"
        using k(1) by (simp_all add: known_device_def)
      have d: "dispatch ?run (dv_dispatch dv i) ?alg data target nonce n k g None = Some (True, k', g', sh)" using e True by simp
      obtain result where r: "outstanding ?run (k', g') = outstanding ?run (k, g) @ [(n, result)]"
        "mset (read_candidates result kMaxCandidates) \<subseteq># mset (sha256d_results data target nonce n)"
        "length (read_candidates result kMaxCandidates) = min kMaxCandidates (length (sha256d_results data target nonce n))"
        using sha256d_dispatched [OF k(3) o(1) k(4,5,2) b'(2) o(2) d] by auto
      have "sha256d_answers_for data target nonce n (n, result)"
        using r(2,3) by (simp add: sha256d_answers_for_def sha256d_shares image_mset_subseteq_mono)
      then show ?thesis using st b'(2) True r(1) by (auto simp: s sha256d_in_order_def)
    next
      case False
      then show ?thesis using st q by (simp add: s)
    qed
  qed
  show "sha256d_built dv shader order s' \<and> (sha256d_in_order dv shader order s \<longrightarrow> sha256d_in_order dv shader order s') \<and>
      outstanding ?run s' = rs \<and> (res = None \<or> res = Some (read_candidates (snd r) (int kMaxCandidates)))"
    if b: "sha256d_built dv shader order s" and h: "outstanding ?run s = r # rs"
      and call: "kn_collect ?calls j kMaxCandidates s = (res, s')"
  proof -
    define g1 where "g1 = finish_slots ?run (dv_finished dv j) g"
    have e: "collect ?run (dv_info dv) (dv_collect dv j) (int kMaxCandidates) k g1 = (res, k', g')"
      using call by (simp add: vulkan_calls_def s g1_def)
    note f = finish_slots_built [OF b [unfolded s], where slots = "dv_finished dv j" and run = ?run, folded g1_def]
    have "kernel_ok k g1" "outstanding ?run (k, g1) = r # rs" using f h by (simp_all add: sha256d_built_def s)
    moreover have "vk_inflight k \<noteq> 0" using h length_outstanding [of ?run s] by (auto simp: s)
    ultimately have "outstanding ?run (k', g') = rs" "res = None \<or> res = Some (read_candidates (snd r) (int kMaxCandidates))"
      "lockstep k \<Longrightarrow> lockstep k'" "kernel_ok k' g'"
      using collect_queue [OF _ _ e] by auto
    moreover have "client_step ?run (dv_info dv) ?alg (\<not> lockstep k, k, g1) (\<not> lockstep k \<and> vk_inflight k' \<noteq> 0, k', g')"
      by (rule client_collect [OF e])
    note sha256d_built_step(1) [OF f(1) this]
    ultimately show ?thesis by (simp add: s sha256d_in_order_def)
  qed
  show "mset (map s_nonce (read_candidates (snd r) (int kMaxCandidates))) \<subseteq># mset (shares_of 32 sha256d_hash data target nonce n) \<and>
      length (read_candidates (snd r) (int kMaxCandidates)) = min kMaxCandidates (length (shares_of 32 sha256d_hash data target nonce n))"
    if "sha256d_answers_for data target nonce n r"
    using that by (simp add: sha256d_answers_for_def)
qed

end
