(* ===== verification/Miner_Properties.thy ===== *)
theory Miner_Properties
  imports Miner_Shares
begin

text \<open>
  What holds of a worker whatever happens around it, and of SHA-256d on a Vulkan device; the examples
  run a worker of two for a turn, from its start to its first batch.
\<close>

section \<open>A run of one turn\<close>

definition example_device :: shader where "example_device = sha256d_shader (\<lambda>N. rev [0..<N]) (\<lambda>_ _. 7)"

definition example_driver :: driver where
  "example_driver = \<lparr>dv_info = desktop_device, dv_options = example_options, dv_init = \<lambda>i. example_init,
     dv_table = \<lambda>i. da_table example_dispatch, dv_program = \<lambda>i. \<lparr>pa_ahead = False, pa_build = False\<rparr>,
     dv_dispatch = \<lambda>i. example_dispatch, dv_finished = \<lambda>j. [],
     dv_collect = \<lambda>j. \<lparr>ca_poll = Signalled, ca_wait = Signalled, ca_now = 0, ca_invalidate = True\<rparr>\<rparr>"

definition example_job :: work where
  "example_job = example_work\<lparr>w_job_epoch := 1, w_xnonce2_len := 2, w_target := replicate 8 0xffffffff\<rparr>"

definition example_miner :: "nat \<Rightarrow> run_options" where
  "example_miner t = \<lparr>ro_thr_id = t, ro_n_threads = 2, ro_devices = [0, 1], ro_benchmark = False,
     ro_benchmark_seed = -1, ro_benchmark_target = -1, ro_stratum = example_dialect\<rparr>"

text \<open>The job arrives in the first turn; the worker is told to stop in the second.\<close>

definition example_outside :: "(VulkanKernel \<times> kernel_gpu) outside" where
  "example_outside = \<lparr>ou_pass = \<lambda>i. \<lparr>ps_stop = 0 < i, ps_wants_park = False, ps_retains = False, ps_algo = ''sha256d'',
     ps_has_work = True, ps_epoch = 1, ps_g_work = example_job, ps_spec = sha256d_kernel (Some example_shader),
     ps_would_fit = \<lambda>spec. True, ps_create_kernel = \<lambda>spec. None, ps_recoverable = False, ps_stratum = example_sctx\<rparr>,
     ou_now = \<lambda>n. 0, ou_epoch = \<lambda>n. 1\<rparr>"

abbreviation example_calls :: "(VulkanKernel \<times> kernel_gpu) kernel_calls" where
  "example_calls \<equiv> vulkan_calls example_device (Some (sha256d_ops example_table)) example_driver"

lemma example_told: "mines_sha256d example_driver example_shader True example_outside = on_vulkan example_driver example_outside"
  by (simp add: mines_sha256d_def on_vulkan_def example_outside_def)

lemma example_batch_accepted:
  assumes "dispatch_ready k n" "vk_push_bytes k = 124" "vk_uniform_bytes k = 0" "n \<noteq> 0"
  obtains k1 g1 where "dispatch example_device (example_dispatch :: nat dispatch_answers)
       (Some (sha256d_ops example_table)) header target start n k g None = Some (True, k1, g1, None)"
proof -
  let ?alg = "Some (sha256d_ops example_table)" and ?job = "dispatch_job header target start n"
  have l: "length (sha256d_prepare ?job 128) = 124"
  proof -
    have "length (concat (map le32enc ws)) = 4 * length ws" for ws by (induction ws) auto
    then show ?thesis
      using sha256d_push_shape(1-4) [of header target start n "of_nat kMaxCandidates"]
      by (simp add: sha256d_prepare_def dispatch_job_def sha256d_push_words_def)
  qed
  have b: "dispatch_blocks ?alg ?job k \<noteq> None"
    using l assms by (simp add: dispatch_blocks_def sha256d_ops_def Let_def)
  have dg: "driver_grants k (example_dispatch :: nat dispatch_answers)"
    using assms by (simp add: driver_grants_def example_dispatch_def)
  obtain k1 g1 sh where d: "dispatch example_device (example_dispatch :: nat dispatch_answers) ?alg header target start n k g None
      = Some (True, k1, g1, sh)"
    using dispatch_accepts [of example_device "example_dispatch :: nat dispatch_answers" ?alg header target start n k g None] b dg assms(1,4)
    by (auto simp: dispatch_table_def)
  have "dispatch_table (da_table (example_dispatch :: nat dispatch_answers)) ?alg k None = Some (True, None)"
    by (simp add: dispatch_table_def)
  then have "sh = None" using d by (auto simp: dispatch_def split: prod.splits if_splits)
  with d show ?thesis using that by blast
qed

lemma example_kernel_made:
  obtains k g where "vulkan_create example_driver i (sha256d_spec example_shader 1) = Some (k, g)"
    "dispatch_ready k (vk_batch k)" "vk_push_bytes k = 124" "vk_uniform_bytes k = 0" "vk_batch k \<noteq> 0" "vk_batch k \<le> 2 ^ 28"
    "vk_program_constants k = 0" "vk_depth k = 3"
proof (rule example_sha256d)
  fix k g
  assume i: "init example_options example_init desktop_device (sha256d_kernel (Some example_shader)) None = Inr (k, g)"
    and k: "dispatch_ready k 256" "vk_push_bytes k = 124" "vk_uniform_bytes k = 0" "vk_depth k = 3"
  have c: "vulkan_create example_driver j (sha256d_spec example_shader 1) = Some (k, g)" for j
    using i by (simp add: vulkan_create_def example_driver_def sha256d_spec_alone)
  have "sized desktop_device k" using i by (rule init_spec)
  then have s: "vk_per_group k \<noteq> 0" "vk_max_batch k \<noteq> 0" "min (least_nonces k) (most_nonces desktop_device k) \<le> unat (vk_batch k)"
    "unat (vk_batch k) \<le> most_nonces desktop_device k"
    by (simp_all add: sized_def)
  have "0 < min (least_nonces k) (most_nonces desktop_device k)"
    using least_nonces_pos [OF s(1)] most_nonces_pos [OF s(1,2)] by simp
  then have "0 < unat (vk_batch k)" using s(3) by linarith
  moreover have "most_nonces desktop_device k \<le> unat (vk_max_batch k)" "most_nonces desktop_device k \<le> 2 ^ 28"
    by (simp_all add: most_nonces_def)
  then have "unat (vk_batch k) \<le> unat (vk_max_batch k)" "unat (vk_batch k) \<le> 2 ^ 28" using s(4) by linarith+
  moreover have "vk_program_constants k = 0"
    using i by (elim init_spec) (simp add: limits_settled fresh_kernel_def sha256d_kernel_def kernel_spec_default_def Let_def)
  ultimately show ?thesis using k
    by (intro that [OF c]) (auto simp: dispatch_ready_def word_le_nat_alt not_less unat_gt_0)
qed


lemma example_started:
  assumes "t < 2"
  obtains w where "worker_start (example_miner t) create_sha256d ''sha256d'' (on_vulkan example_driver example_outside) = Some w"
    "wk_methods w = sha256d_methods" "wk_kernel w = None" "wk_inflight w = []" "wk_roll w" "\<not> wk_armed w" "wk_log w = [Bound ''sha256d'']"
    "wk_first w = of_nat t * 0x80000000" "wk_end w = of_nat t * 0x80000000 + 0x7FFFFFE0" "w_job_epoch (wk_work w) = 0"
    "wk_name w = ''sha256d''"
proof -
  let ?E = "on_vulkan example_driver example_outside"
  define w where "w = snd (bind_algo (example_miner t) create_sha256d ''sha256d'' (worker_new (example_miner t) ?E sha256d_methods))"
  have c: "create_sha256d ''sha256d'' = Some sha256d_methods" by (simp add: create_sha256d_def find_sha256d)
  have "worker_start (example_miner t) create_sha256d ''sha256d'' ?E = Some w" by (simp add: worker_start_def c w_def)
  moreover have "wk_methods w = sha256d_methods" "wk_kernel w = None" "wk_inflight w = []" "wk_roll w" "\<not> wk_armed w"
    "wk_log w = [Bound ''sha256d'']" "w_job_epoch (wk_work w) = 0" "wk_name w = ''sha256d''"
    by (simp_all add: w_def bind_algo_def c Let_def worker_new_def sha256d_methods_def zero_work_def)
  moreover have "wk_first w = of_nat t * 0x80000000" "wk_end w = of_nat t * 0x80000000 + 0x7FFFFFE0"
    using assms by (auto simp: w_def bind_algo_def c Let_def worker_new_def sha256d_methods_def example_miner_def kRangeMargin_def
      min_def less_2_cases_iff)
  ultimately show ?thesis using that by blast
qed


lemma example_turn:
  assumes "t < 2"
  obtains w w1 v n c where "worker_start (example_miner t) create_sha256d ''sha256d'' (on_vulkan example_driver example_outside) = Some w"
    "worker_run (example_miner t) create_sha256d example_calls (on_vulkan example_driver example_outside) w 1 = (True, w1)"
    "wk_log w1 = [Launched v n c, Armed (wk_xnonce2 w + 2) v, Built 3, Bound ''sha256d'']" "wk_inflight w1 = [c]" "c \<noteq> 0"
    "w_target v = replicate 8 0xffffffff"
proof -
  let ?o = "example_miner t" and ?E = "on_vulkan example_driver example_outside" and ?ops = example_calls
  let ?p = "ou_pass ?E 0"
  obtain w where w: "worker_start ?o create_sha256d ''sha256d'' ?E = Some w"
    "wk_methods w = sha256d_methods" "wk_kernel w = None" "wk_inflight w = []" "wk_roll w" "\<not> wk_armed w" "wk_log w = [Bound ''sha256d'']"
    "wk_first w = of_nat t * 0x80000000" "wk_end w = of_nat t * 0x80000000 + 0x7FFFFFE0" "w_job_epoch (wk_work w) = 0"
    "wk_name w = ''sha256d''"
    by (rule example_started [OF assms])
  obtain k g where k: "vulkan_create example_driver 0 (sha256d_spec example_shader 1) = Some (k, g)"
    "dispatch_ready k (vk_batch k)" "vk_push_bytes k = 124" "vk_uniform_bytes k = 0" "vk_batch k \<noteq> 0" "vk_batch k \<le> 2 ^ 28"
    "vk_program_constants k = 0" "vk_depth k = 3"
    by (rule example_kernel_made)
  have p: "\<not> ps_stop ?p" "\<not> ps_wants_park ?p" "ps_has_work ?p" "ps_epoch ?p = 1" "ps_g_work ?p = example_job"
    "ps_spec ?p = sha256d_kernel (Some example_shader)" "ps_would_fit ?p = (\<lambda>_. True)" "ps_stratum ?p = example_sctx"
    "ps_create_kernel ?p = vulkan_create example_driver 0"
    by (simp_all add: on_vulkan_def example_outside_def)
  have o: "\<not> ro_benchmark ?o" "ro_stratum ?o = example_dialect" "ro_n_threads ?o = 2" by (simp_all add: example_miner_def)
  have drain: "drain_worker ?o ?ops ?E v = v" if "wk_inflight v = []" for v :: "(unit, VulkanKernel \<times> kernel_gpu) worker"
    using that by (simp add: drain_worker.simps)
  have t: "t = 0 \<or> t = 1" using assms by auto
  have sh: "sharing ?o = 1" using t by (auto simp: sharing_def example_miner_def for_up_Suc numeral_2_eq_2)
  define w2 where "w2 = w\<lparr>wk_work := example_job\<rparr>"
  have f: "find_work ?o ?ops ?E ?p w = Go (True, w2)"
    using w p o drain by (simp add: find_work_def w2_def)
  define w3 where "w3 = say (Built 3) (w2\<lparr>wk_nonce := wk_first w2, wk_object := (), wk_kernel := Some (k, g), wk_depth := 3\<rparr>)"
  define w4 where "w4 = w3\<lparr>wk_xnonce2 := wk_xnonce2 w3 + 2, wk_armed := False\<rparr>"
  have q: "unat (max 1 (kn_queue_depth ?ops (k, g))) = 3"
    using k(8) by (simp add: vulkan_calls_def queue_depth_def max_def)
  have b: "build_or_leave ?o ?ops ?p (w2\<lparr>wk_nonce := wk_first w2, wk_object := ()\<rparr>) = Go w3"
    using p sh k(1) q by (simp add: build_or_leave_def build_kernel_def w3_def sha256d_spec_def Let_def)
  have j: "take_job ?o ?ops ?E ?p w2 = Go w4"
    using b w(2,3) o unfolding take_job_def
    by (simp add: w2_def w4_def w3_def sha256d_methods_def example_job_def Let_def)
  obtain v sctx where v: "stratum_set_extranonce2 example_dialect example_job example_sctx (wk_xnonce2 w4) = (True, v, sctx)"
  proof -
    have "fst (stratum_set_extranonce2 example_dialect example_job example_sctx (wk_xnonce2 w4))"
      by (simp add: stratum_set_extranonce2_def example_sctx_def example_job_def example_work_def Let_def)
    then show ?thesis using that by (metis prod.collapse)
  qed
  define w5 where "w5 = say (Armed (wk_xnonce2 w4) v) (w4\<lparr>wk_work := v, wk_armed := True\<rparr>)"
  have w4: "wk_inflight w4 = []" "wk_work w4 = example_job" "wk_roll w4" "\<not> wk_armed w4"
    using w by (simp_all add: w4_def w3_def w2_def)
  have a: "arm ?o ?ops ?E ?p w4 = Go w5"
    using w4 o p v by (simp add: arm_def drain w5_def)
  have w5: "wk_kernel w5 = Some (k, g)" "wk_depth w5 = 3" "wk_inflight w5 = []" "wk_nonce w5 = wk_first w" "wk_end w5 = wk_end w"
    "wk_methods w5 = sha256d_methods" "wk_work w5 = v"
    using w by (simp_all add: w5_def w4_def w3_def w2_def)
  have nb: "next_batch ?ops w5 = vk_batch k"
  proof -
    define B :: u64 where "B = ucast (vk_batch k)"
    have "B \<le> 0x10000000" using k(6) by (simp add: B_def word_le_nat_alt)
    then have "\<not> 0x7FFFFFE0 - B < 0" "\<not> 0xFFFFFFE0 - B < 0x80000000"
      by (auto simp: not_less word_le_nat_alt unat_sub_exact)
    then have "\<not> wk_end w - ucast (vk_batch k) < wk_first w" using t w(8,9) by (auto simp: B_def)
    then show ?thesis by (simp add: next_batch_def w5 vulkan_calls_def preferred_batch_def Let_def)
  qed
  obtain k1 g1 where d: "dispatch example_device (example_dispatch :: nat dispatch_answers)
       (Some (sha256d_ops example_table)) (w_data v) (w_target v) (w_nonce_base v OR wk_nonce w5) (vk_batch k) k g None = Some (True, k1, g1, None)"
    by (rule example_batch_accepted [OF k(2-5)])
  define w6 where "w6 = say (Launched v (wk_nonce w5) (vk_batch k)) (w5\<lparr>wk_kernel := Some (k1, g1), wk_inflight := [vk_batch k],
      wk_nonce := wk_nonce w5 + ucast (vk_batch k)\<rparr>)"
  have c: "kn_prepare_state ?ops 0 x (k, g) = (True, k, g)" "kn_prepare_program ?ops 0 x (k, g) = (True, k, g)" for x
    using k(7) by (simp_all add: vulkan_calls_def prepare_state_def prepare_program_def)
  have l: "launch ?o ?ops ?E 0 (vk_batch k) w5 = Go w6"
  proof -
    have "kn_dispatch ?ops 0 (w_data v) (w_target v) (w_nonce_base v OR wk_nonce w5) (vk_batch k) (k, g) = (True, k1, g1)"
      using d by (simp add: vulkan_calls_def example_driver_def)
    then show ?thesis by (simp add: launch_def w5 c w6_def Let_def)
  qed
  have "collect_when_full ?o ?ops ?E w6 = Continue w6"
    using w5(2) by (simp add: collect_when_full_def w6_def)
  then have "worker_turn ?o create_sha256d ?ops ?E 0 w = Continue w6"
    using f j a nb l k(5) p
    by (simp add: worker_turn_def w4_def w3_def Let_def)
  then have r: "worker_run ?o create_sha256d ?ops ?E w 1 = (True, w6)" by simp
  show ?thesis
    by (rule that [OF w(1) r, of v "wk_nonce w5" "vk_batch k"])
      (use w(7) k(5) set_extranonce2_frame(1) [OF v] in \<open>simp_all add: w6_def w5_def w4_def w3_def w2_def example_job_def\<close>)
qed

lemma example_job_run:
  assumes "t < 2"
  shows "\<exists>w w1 v n c. worker_start (example_miner t) create_sha256d ''sha256d'' (on_vulkan example_driver example_outside) = Some w \<and>
     worker_run (example_miner t) create_sha256d example_calls (on_vulkan example_driver example_outside) w 1 = (True, w1) \<and>
     Launched v n c \<in> set (wk_log w1) \<and> c \<noteq> 0"
  by (rule example_turn [OF assms]) auto

section \<open>The books\<close>

text \<open>
  Claim C7. A worker keeps its books. Whatever the pool, the device, the clock and the controls do, the
  log of a worker is one the ledger accepts: it holds a kernel and parks, rebuilds or changes algorithm
  only with nothing outstanding; it never has more batches out than the kernel takes, and only batches of
  one job; they come back in order; and every share it submits is a hash of the header its batch was
  launched under that meets the target it was launched under, whatever has become of the job since.
\<close>

theorem worker_keeps_books:
  assumes "\<And>name m header nonce a. create name = Some m \<Longrightarrow> fst (am_hash m header nonce a) = H name header nonce"
    and "\<And>name m header nonce x. create name = Some m \<Longrightarrow> am_nonce_word m * 4 < am_header_bytes m \<Longrightarrow>
      H name (header[am_nonce_word m := x]) nonce = H name header nonce"
    and "worker_start opts create name env = Some w"
    and "worker_run opts create ops env w turns = (running, w')"
  shows "\<exists>l. ledger_of create H (wk_log w') = Some l \<and> map (\<lambda>(v, n, c). c) (ld_out l) = wk_inflight w' \<and>
     (ld_depth l = None) = (wk_kernel w' = None)"
proof -
  have h: "hashing create H" by unfold_locales (use assms(1,2) in blast)+
  from hashing.worker_run_kept(1) [OF h hashing.worker_start_resting [OF h assms(3)] assms(4)]
  show ?thesis by (auto simp: hashing.kept_def [OF h] hashing.books_def [OF h])
qed

theorem worker_keeps_books_witness:
  "\<exists>w w1 c. worker_run (example_miner 1) create_sha256d example_calls (on_vulkan example_driver example_outside) w 1 = (True, w1) \<and>
     (\<exists>l. ledger_of create_sha256d (\<lambda>_. sha256d_hash) (wk_log w1) = Some l \<and> map (\<lambda>(v, n, c). c) (ld_out l) = [c] \<and>
       ld_depth l \<noteq> None)"
proof (rule example_turn [of 1])
  fix w w1 v n c
  assume w: "worker_start (example_miner 1) create_sha256d ''sha256d'' (on_vulkan example_driver example_outside) = Some w"
    and r: "worker_run (example_miner 1) create_sha256d example_calls (on_vulkan example_driver example_outside) w 1 = (True, w1)"
    and l: "wk_log w1 = [Launched v n c, Armed (wk_xnonce2 w + 2) v, Built 3, Bound ''sha256d'']" "wk_inflight w1 = [c]"
  have "\<exists>l. ledger_of create_sha256d (\<lambda>_. sha256d_hash) (wk_log w1) = Some l \<and>
      map (\<lambda>(v, n, c). c) (ld_out l) = wk_inflight w1 \<and> (ld_depth l = None) = (wk_kernel w1 = None)"
    by (rule worker_keeps_books [OF _ _ w r]) (erule sha.hash_pure, erule sha.hash_nonce_free, assumption)
  then obtain b where b: "ledger_of create_sha256d (\<lambda>_. sha256d_hash) (wk_log w1) = Some b" "map (\<lambda>(v, n, c). c) (ld_out b) = wk_inflight w1"
    by blast
  then have "ld_depth b \<noteq> None" by (auto simp: l(1) split: option.splits if_splits)
  then show ?thesis using r b l(2) by metis
qed simp

text \<open>
  Claim C8. A worker told to stop returns. However the run went before, the turn that finds the stop flag
  set ends the loop, the batches still out are taken back even from a device that answers none of them,
  and the kernel is given up: the thread returns with nothing outstanding.
\<close>

theorem stopped_worker_returns:
  assumes "\<And>name m header nonce a. create name = Some m \<Longrightarrow> fst (am_hash m header nonce a) = H name header nonce"
    and "\<And>name m header nonce x. create name = Some m \<Longrightarrow> am_nonce_word m * 4 < am_header_bytes m \<Longrightarrow>
      H name (header[am_nonce_word m := x]) nonce = H name header nonce"
    and "worker_start opts create name env = Some w"
    and "ps_stop (ou_pass env i)"
  shows "\<exists>w' l. miner_thread opts create ops env w (Suc i) = Some w' \<and> wk_inflight w' = [] \<and> wk_kernel w' = None \<and>
     ledger_of create H (wk_log w') = Some l \<and> ld_out l = [] \<and> ld_depth l = None"
proof -
  have h: "hashing create H" by unfold_locales (use assms(1,2) in blast)+
  obtain running v where v: "worker_run opts create ops env w (Suc i) = (running, v)" by (metis surj_pair)
  have "\<not> running"
    using v assms(4) by (auto simp: worker_turn_def split: prod.splits if_splits)
  then have m: "miner_thread opts create ops env w (Suc i) = Some (release (drain_worker opts ops env v))"
    using v by (simp add: miner_thread_def del: worker_run.simps)
  have k: "hashing.kept create H v"
    by (rule hashing.worker_run_kept(1) [OF h hashing.worker_start_resting [OF h assms(3)] v])
  note d = hashing.kept_drain [OF h k, of opts ops env]
  note r = hashing.kept_release [OF h d(1,2)]
  from r(1) obtain l where "hashing.books create H (release (drain_worker opts ops env v)) l"
    by (auto simp: hashing.kept_def [OF h])
  then have "ledger_of create H (wk_log (release (drain_worker opts ops env v))) = Some l" "ld_out l = []" "ld_depth l = None"
    using r(2,3) by (auto simp: hashing.books_def [OF h])
  then show ?thesis using m r(2,3) by blast
qed

theorem stopped_worker_returns_witness:
  "\<exists>w w'. worker_start (example_miner 1) create_sha256d ''sha256d'' (on_vulkan example_driver example_outside) = Some w \<and>
     miner_thread (example_miner 1) create_sha256d example_calls (on_vulkan example_driver example_outside) w 2 = Some w' \<and>
     wk_inflight w' = [] \<and> wk_kernel w' = None"
proof (rule example_turn [of 1])
  fix w
  assume w: "worker_start (example_miner 1) create_sha256d ''sha256d'' (on_vulkan example_driver example_outside) = Some w"
  have s: "ps_stop (ou_pass (on_vulkan example_driver example_outside) 1)" by (simp add: on_vulkan_def example_outside_def)
  have "\<exists>w' l. miner_thread (example_miner 1) create_sha256d example_calls (on_vulkan example_driver example_outside) w (Suc 1) = Some w' \<and>
      wk_inflight w' = [] \<and> wk_kernel w' = None \<and>
      ledger_of create_sha256d (\<lambda>_. sha256d_hash) (wk_log w') = Some l \<and> ld_out l = [] \<and> ld_depth l = None"
    by (rule stopped_worker_returns [OF _ _ w s]) (erule sha.hash_pure, erule sha.hash_nonce_free, assumption)
  then show ?thesis using w unfolding numeral_2_eq_2 One_nat_def by blast
qed simp

section \<open>The nonces\<close>

lemma splits_fifteen:
  assumes "ro_n_threads opts \<le> 15" "ro_thr_id opts < ro_n_threads opts"
  shows "splits opts (2 ^ 32) (2 ^ 28)"
proof -
  have d: "2 ^ 32 div 15 \<le> 2 ^ 32 div ro_n_threads opts" using assms by (intro div_le_mono2) auto
  then have "286331153 \<le> 2 ^ 32 div ro_n_threads opts" by simp
  moreover have "2 ^ 32 div ro_n_threads opts \<le> 2 ^ 32 div ro_n_threads opts * (ro_thr_id opts + 1)" by simp
  ultimately show ?thesis using assms by (simp add: splits_def)
qed

text \<open>
  Claim C6. Workers of SHA-256d on Vulkan never try the same nonce. Of up to fifteen of them, each with a
  device and a driver of its own, whatever jobs, parks and failures each meets and however often it starts
  over, every batch either launches lies in its own share of the nonces, and the shares have none in
  common. With sixteen or more a share can be narrower than a batch, and the last batch of a range passes
  its end.
\<close>

theorem workers_never_meet:
  assumes "ro_n_threads opts \<le> 15" "ro_n_threads opts' = ro_n_threads opts"
    and "ro_thr_id opts < ro_thr_id opts'" "ro_thr_id opts' < ro_n_threads opts"
    and "worker_start opts create_sha256d name (on_vulkan dv env) = Some w"
    and "worker_start opts' create_sha256d name' (on_vulkan dv' env') = Some w'"
    and "worker_run opts create_sha256d (vulkan_calls run alg dv) (on_vulkan dv env) w i = (running, v)"
    and "worker_run opts' create_sha256d (vulkan_calls run' alg' dv') (on_vulkan dv' env') w' j = (running', v')"
    and "Launched job n c \<in> set (wk_log v)" "Launched job' n' c' \<in> set (wk_log v')"
  shows "batch_nonces n c \<inter> batch_nonces n' c' = {}"
proof -
  have s: "splits opts (2 ^ 32) (2 ^ 28)" "splits opts' (2 ^ 32) (2 ^ 28)"
    using splits_fifteen assms(1-4) by simp_all
  have "planned opts (2 ^ 32) (plan_of v)"
    using vk.worker_run_sound(1) [OF assms(5) s(1) assms(7)] unfolding vk.left_sound_def .
  moreover have "planned opts' (2 ^ 32) (plan_of v')"
    using vk.worker_run_sound(1) [OF assms(6) s(2) assms(8)] unfolding vk.left_sound_def .
  moreover have "Launched job n c \<in> set (plan_of v)" "Launched job' n' c' \<in> set (plan_of v')"
    using assms(9,10) by (simp_all add: plan_of_def)
  ultimately have "batch_nonces n c \<subseteq> slice opts (2 ^ 32)" "batch_nonces n' c' \<subseteq> slice opts' (2 ^ 32)"
    by (auto simp: planned_def)
  then show ?thesis using slices_apart [OF assms(2) [symmetric] assms(3), of "2 ^ 32"] by blast
qed

theorem workers_never_meet_witness:
  "\<exists>w w' v v' job job' n n' c c'.
     worker_run (example_miner 0) create_sha256d example_calls (on_vulkan example_driver example_outside) w 1 = (True, v) \<and>
     worker_run (example_miner 1) create_sha256d example_calls (on_vulkan example_driver example_outside) w' 1 = (True, v') \<and>
     Launched job n c \<in> set (wk_log v) \<and> Launched job' n' c' \<in> set (wk_log v') \<and> c \<noteq> 0 \<and> c' \<noteq> 0 \<and>
     batch_nonces n c \<inter> batch_nonces n' c' = {}"
proof -
  obtain w v job n c where a: "worker_start (example_miner 0) create_sha256d ''sha256d'' (on_vulkan example_driver example_outside) = Some w"
    "worker_run (example_miner 0) create_sha256d example_calls (on_vulkan example_driver example_outside) w 1 = (True, v)"
    "Launched job n c \<in> set (wk_log v)" "c \<noteq> 0"
    using example_job_run [of 0] by auto
  obtain w' v' job' n' c' where b: "worker_start (example_miner 1) create_sha256d ''sha256d'' (on_vulkan example_driver example_outside) = Some w'"
    "worker_run (example_miner 1) create_sha256d example_calls (on_vulkan example_driver example_outside) w' 1 = (True, v')"
    "Launched job' n' c' \<in> set (wk_log v')" "c' \<noteq> 0"
    using example_job_run [of 1] by auto
  have "batch_nonces n c \<inter> batch_nonces n' c' = {}"
    by (rule workers_never_meet [OF _ _ _ _ a(1) b(1) a(2) b(2) a(3) b(3)]) (simp_all add: example_miner_def)
  then show ?thesis using a b by metis
qed

text \<open>
  Claim C5. No nonce twice under one extranonce2 counter. Of the batches a worker of SHA-256d on a Vulkan
  device launches, any two under the same binding of the algorithm, counted from the start of the thread,
  and the same value of its extranonce2 counter have no nonce in common: over jobs, restarts of the
  range, failed dispatches, parks and rebuilt kernels. The worker is one of up to fifteen, on a pool, its
  counter does not wrap, and no profile is kept that it could go back to when a kernel does not build,
  which is what sets a range back without moving the counter. It is the counter that is compared and not
  the header: a field of the pool narrower than the counter, or a binding that starts the count again,
  brings a header back.
\<close>

theorem no_nonce_twice:
  assumes "ro_n_threads opts \<le> 15" "ro_thr_id opts < ro_n_threads opts"
    and "\<not> ro_benchmark opts" "\<And>i. \<not> ps_recoverable (ou_pass env i)"
    and "ro_thr_id opts + ro_n_threads opts * (2 * turns) < 2 ^ 64"
    and "worker_start opts create_sha256d name (on_vulkan dv env) = Some w"
    and "worker_run opts create_sha256d (vulkan_calls run alg dv) (on_vulkan dv env) w turns = (running, w')"
  shows "never_twice (wk_log w')"
proof -
  have s: "splits opts (2 ^ 32) (2 ^ 28)" using splits_fifteen assms(1,2) by simp
  have r: "rolls opts (on_vulkan dv env) turns" using assms(3-5) by (simp add: rolls_def on_vulkan_def)
  have "never_twice (plan_of w')"
    using vk.worker_run_fresh [OF assms(6) s r assms(7)] unfolding vk.left_fresh_def by simp
  then show ?thesis by (simp add: never_twice_def plan_of_def sweeps_plan)
qed

theorem no_nonce_twice_witness:
  "\<exists>w v n c job. worker_run (example_miner 1) create_sha256d example_calls (on_vulkan example_driver example_outside) w 1 = (True, v) \<and>
     Launched job n c \<in> set (wk_log v) \<and> c \<noteq> 0 \<and> never_twice (wk_log v)"
proof -
  obtain w v job n c where a: "worker_start (example_miner 1) create_sha256d ''sha256d'' (on_vulkan example_driver example_outside) = Some w"
    "worker_run (example_miner 1) create_sha256d example_calls (on_vulkan example_driver example_outside) w 1 = (True, v)"
    "Launched job n c \<in> set (wk_log v)" "c \<noteq> 0"
    using example_job_run [of 1] by auto
  have "never_twice (wk_log v)"
    by (rule no_nonce_twice [OF _ _ _ _ _ a(1,2)]) (simp_all add: example_miner_def example_outside_def)
  then show ?thesis using a by metis
qed

section \<open>The shares\<close>

lemma fulltest_full: "fulltest h (replicate 8 0xffffffff)"
proof -
  have top: "\<not> (0xffffffff :: u32) < x" for x
  proof -
    have "unat x \<le> 4294967295" using unat_u32_less [of x] by linarith
    then show ?thesis by (simp add: word_less_nat_alt)
  qed
  have "fulltest_from n h (replicate 8 0xffffffff)" if "n \<le> 8" for n
    using that by (induction n) (simp_all add: top)
  then show ?thesis by (simp add: fulltest_def)
qed

text \<open>
  Claim C4. Nothing the device hands back is lost. A worker that mines sha256d on a pool, with the kernel
  the algorithm offers a Vulkan device by default and a shader module as built, submits, of every batch
  the device hands back, nonces of that batch whose hash meets the target of the job it was launched
  under, none more often than it is in the batch: all of them where they fit the buffer of 32, 32 of them
  where they do not. It has done so before it takes the next batch, before it changes algorithm and when
  its thread has returned, the batches taken back on the way out included: whatever order the device
  ran them in, whatever calls to it failed, however the job changed meanwhile. A batch whose collect
  fails is not handed back, and what was in it is lost.
\<close>

theorem every_share_submitted:
  assumes "sha256d_module_ok (dv_options dv) shader" "\<And>N. mset (order N) = mset [0..<N]" "\<not> ro_benchmark opts"
    and "worker_start opts create_sha256d name (mines_sha256d dv shader True env) = Some w"
    and "worker_run opts create_sha256d (vulkan_calls (sha256d_shader order memory) (Some (sha256d_ops table)) dv)
       (mines_sha256d dv shader True env) w turns = (running, w')"
  shows "paid_up 32 create_sha256d (\<lambda>_. sha256d_hash) (wk_log w') \<and> due_paid 32 create_sha256d (\<lambda>_. sha256d_hash) (wk_log w') \<and>
     (\<forall>x. miner_thread opts create_sha256d (vulkan_calls (sha256d_shader order memory) (Some (sha256d_ops table)) dv)
          (mines_sha256d dv shader True env) w turns = Some x \<longrightarrow>
        paid_up 32 create_sha256d (\<lambda>_. sha256d_hash) (wk_log x) \<and> due_paid 32 create_sha256d (\<lambda>_. sha256d_hash) (wk_log x))"
proof -
  have "known_device dv shader order" using assms(1,2) by (simp add: known_device_def)
  then have e: "mines_sha256d dv shader (known_device dv shader order) env = mines_sha256d dv shader True env" by simp
  note finder.worker_run_served [OF assms(4) assms(3) assms(5) [folded e]]
  moreover note finder.miner_thread_served [where env = env and dv = dv and shader = shader and order = order, OF assms(4) assms(3)]
  ultimately show ?thesis unfolding e finder.served_def finder.cleared_def by blast
qed

text \<open>
  The run of two turns: the worker launches a batch, is told to stop and takes the batch back. Every hash
  meets the target of the job, so that there are shares to submit.
\<close>

theorem every_share_submitted_witness:
  "\<exists>w x v n c share hash.
     worker_start (example_miner 1) create_sha256d ''sha256d'' (on_vulkan example_driver example_outside) = Some w \<and>
     miner_thread (example_miner 1) create_sha256d example_calls (on_vulkan example_driver example_outside) w 2 = Some x \<and>
     Launched v n c \<in> set (wk_log x) \<and> Collected c True \<in> set (wk_log x) \<and> Submitted share hash \<in> set (wk_log x) \<and>
     paid_up 32 create_sha256d (\<lambda>_. sha256d_hash) (wk_log x) \<and> due_paid 32 create_sha256d (\<lambda>_. sha256d_hash) (wk_log x)"
proof (rule example_turn [of 1])
  let ?o = "example_miner 1" and ?E = "on_vulkan example_driver example_outside" and ?ops = example_calls
  let ?H = "\<lambda>_ :: string. sha256d_hash"
  fix w w1 v n c
  assume w: "worker_start ?o create_sha256d ''sha256d'' ?E = Some w"
    and w1: "worker_run ?o create_sha256d ?ops ?E w 1 = (True, w1)"
    and log: "wk_log w1 = [Launched v n c, Armed (wk_xnonce2 w + 2) v, Built 3, Bound ''sha256d'']"
    and fl: "wk_inflight w1 = [c]" and c: "c \<noteq> 0" and tg: "w_target v = replicate 8 0xffffffff"
  have m: "sha256d_module_ok (dv_options example_driver) example_shader"
    using example_module_ok by (simp add: example_driver_def)
  have o: "\<And>N. mset (rev [0..<N]) = mset [0..<N]" "\<not> ro_benchmark ?o" by (simp_all add: example_miner_def)
  define y where "y = snd (reap ?o ?ops ?E w1)"
  have run: "worker_run ?o create_sha256d ?ops ?E w 2 = (False, w1)"
  proof -
    have "ps_stop (ou_pass ?E 1)" by (simp add: on_vulkan_def example_outside_def)
    then show ?thesis using w1 by (simp add: numeral_2_eq_2 worker_turn_def)
  qed
  have fy: "wk_inflight y = []" using reap_pipeline [of w1 ?o ?ops ?E] fl by (simp add: y_def pipeline_of_def split: prod.splits)
  then have th: "miner_thread ?o create_sha256d ?ops ?E w 2 = Some (release y)"
  proof -
    have "drain_worker ?o ?ops ?E w1 = drain_worker ?o ?ops ?E y" using fl by (subst drain_worker.simps) (simp add: y_def)
    also have "\<dots> = y" using fy by (subst drain_worker.simps) simp
    finally show ?thesis using run by (simp add: miner_thread_def)
  qed
  have served: "paid_up 32 create_sha256d ?H (wk_log (release y))" "due_paid 32 create_sha256d ?H (wk_log (release y))"
    using every_share_submitted [OF m o w [folded example_told] run [folded example_told, unfolded example_device_def]]
      th [folded example_told, unfolded example_device_def] by blast+
  have "known_device example_driver example_shader (\<lambda>N. rev [0..<N])" using m o(1) by (simp add: known_device_def)
  then have e: "mines_sha256d example_driver example_shader (known_device example_driver example_shader (\<lambda>N. rev [0..<N])) example_outside = ?E"
    by (simp add: example_told)
  note s1 = finder.worker_run_served [where order = "\<lambda>N. rev [0..<N]" and memory = "\<lambda>_ _. 7" and dv = example_driver
      and shader = example_shader and env = example_outside and table = example_table, unfolded e,
      OF w o(2) w1 [unfolded example_device_def]]
  have col: "fst (kn_collect ?ops (wk_collects w1) kMaxCandidates (the (wk_kernel w1))) \<noteq> None"
  proof -
    obtain k g where k: "the (wk_kernel w1) = (k, g)" by (metis surj_pair)
    have "fst (collect run info (dv_collect example_driver j) most k g') \<noteq> None" for run info j most g'
      by (rule collect_answered) (simp_all add: example_driver_def)
    then show ?thesis by (simp add: vulkan_calls_def k)
  qed
  obtain l v' n' where l: "ledger_of create_sha256d ?H (wk_log w1) = Some l" "hd (ld_out l) = (v', n', c)"
    "ledger_of create_sha256d ?H (wk_log y) = Some (l\<lparr>ld_out := tl (ld_out l), ld_back := Some (v', n', c)\<rparr>)"
    "ld_name l = Some (wk_name w1)"
    using finder.served_reap(3) [where order = "\<lambda>N. rev [0..<N]" and memory = "\<lambda>_ _. 7" and dv = example_driver
      and shader = example_shader and env = example_outside and table = example_table, unfolded e,
      OF s1 o(2) fl col [unfolded example_device_def]]
    unfolding y_def example_device_def by blast
  have v': "v' = v" using l(1,2) by (auto simp: log ledger_start_def split: if_splits)
  have r: "wk_log (release y) = wk_log y \<or> wk_log (release y) = Released # wk_log y" by (simp add: release_def)
  then have ly: "takings (wk_log (release y)) = takings (wk_log y)"
    "\<exists>l'. ledger_of create_sha256d ?H (wk_log (release y)) = Some l' \<and> ld_back l' = Some (v, n', c) \<and> ld_name l' \<noteq> None"
    using served(2) l(3,4) v' by (auto simp: due_paid_def split: option.splits if_splits)
  have len: "length (shares_of 32 h d (w_target v) q c) = unat c" for h d q
    by (simp add: shares_of_def batch_list_def tg fulltest_full)
  have "length (takings (wk_log (release y))) = min kMaxCandidates (unat c)"
    using served(2) ly(2) len by (auto simp: due_paid_def Let_def)
  moreover have "0 < min kMaxCandidates (unat c)" using c by (simp add: kMaxCandidates_def unat_gt_0)
  ultimately have "takings (wk_log (release y)) \<noteq> []" by auto
  then obtain share hash where sub: "Submitted share hash \<in> set (wk_log (release y))" using takings_submitted by blast
  have col': "Collected c True \<in> set (wk_log (release y))" using back_collected [OF l(3)] r by auto
  have "plan_of y = plan_of w1" by (simp add: y_def)
  then have "Launched v n c \<in> set (plan_of y)" by (simp add: plan_of_def log)
  then have "Launched v n c \<in> set (wk_log y)" by (simp add: plan_of_def)
  then have "Launched v n c \<in> set (wk_log (release y))" using r by auto
  then show ?thesis using w th sub col' served by blast
qed simp

end
