(* ===== verification/Encodings.thy ===== *)
theory Encodings
  imports Prelude
begin

text \<open>
  The text and byte encodings of \<^verbatim>\<open>src/core/util.c\<close> that work comes in and shares go out in: hex both
  ways, and a number of 64 bits as
  \<^verbatim>\<open>"%016llx"\<close> prints it.
\<close>

section \<open>Hex\<close>

definition hex_digits :: string where "hex_digits = ''0123456789abcdef''"

text \<open>\<^verbatim>\<open>"%02x"\<close> of a byte.\<close>

definition hex_byte :: "u8 \<Rightarrow> string" where
  "hex_byte b = [hex_digits ! unat (drop_bit 4 b), hex_digits ! unat (b AND 15)]"

definition bin2hex :: "u8 list \<Rightarrow> string" where "bin2hex p = concat (map hex_byte p)"

definition hex_nibble :: "char \<Rightarrow> u8 option" where
  "hex_nibble c =
     (let n = of_char c :: nat
      in if 48 \<le> n \<and> n \<le> 57 then Some (of_nat (n - 48))
         else if 65 \<le> n \<and> n \<le> 70 then Some (of_nat (10 + (n - 65)))
         else if 97 \<le> n \<and> n \<le> 102 then Some (of_nat (10 + (n - 97)))
         else None)"

text \<open>The loop of \<^verbatim>\<open>hex2bin\<close>: what it wrote up to the first character that is no digit stays written.\<close>

fun hex2bin_from :: "nat \<Rightarrow> string \<Rightarrow> u8 list \<Rightarrow> bool \<times> u8 list" where
  "hex2bin_from i [] p = (True, p)"
| "hex2bin_from i (c # cs) p =
     (case hex_nibble c of
        None \<Rightarrow> (False, p)
      | Some nibble \<Rightarrow> hex2bin_from (i + 1) cs (p[i div 2 := p ! (i div 2) OR push_bit ((1 - i mod 2) * 4) nibble]))"

text \<open>A destination of so many bytes, with what it held before; a string that is no string is \<open>None\<close>.\<close>

definition hex2bin :: "u8 list \<Rightarrow> string option \<Rightarrow> bool \<times> u8 list" where
  "hex2bin p hexstr =
     (case hexstr of
        None \<Rightarrow> (False, p)
      | Some s \<Rightarrow>
          if length s mod 2 \<noteq> 0 then (False, p)
          else if length p < length s div 2 then (False, p)
          else hex2bin_from 0 s (replicate (length p) 0))"

section \<open>A number of 64 bits in sixteen digits\<close>

definition hex64 :: "u64 \<Rightarrow> string" where
  "hex64 n = map (\<lambda>i. hex_digits ! unat (drop_bit (60 - i * 4) n AND 15)) [0..<16]"

section \<open>Numbers in decimal\<close>

fun decimal :: "nat \<Rightarrow> string" where
  "decimal n = (if n < 10 then [char_of (48 + n)] else decimal (n div 10) @ [char_of (48 + n mod 10)])"

declare decimal.simps [simp del]

definition show_int :: "int \<Rightarrow> string" where
  "show_int n = (if n < 0 then CHR ''-'' # decimal (nat (- n)) else decimal (nat n))"

section \<open>Lemmas: hex\<close>

lemma hex_digits_length: "length hex_digits = 16"
  by (simp add: hex_digits_def)

lemma low_nibble: "unat (w AND 15 :: 'a::len word) = unat w mod 16"
proof -
  have "w AND 15 = take_bit 4 w" by (simp add: take_bit_eq_mask mask_eq_exp_minus_1)
  then have "unat (w AND 15) = take_bit 4 (unat w)" by (simp only: unsigned_take_bit_eq)
  then show ?thesis by (simp add: take_bit_eq_mod)
qed

lemma high_nibble: "unat (drop_bit 4 (b :: u8)) = unat b div 16" "unat b div 16 < 16"
proof -
  have "unat (drop_bit 4 b) = drop_bit 4 (take_bit LENGTH(8) (unat b))" by (rule unsigned_drop_bit_eq)
  moreover have "unat b < 256" using unsigned_less [of b, where ?'a = nat] by simp
  ultimately show "unat (drop_bit 4 b) = unat b div 16" by (simp add: drop_bit_eq_div take_bit_nat_eq_self)
  have "unat b < 256" using unsigned_less [of b, where ?'a = nat] by simp
  then show "unat b div 16 < 16" by simp
qed

lemma hex_digits_cases: "k < 16 \<Longrightarrow> k \<in> {0, 1, 2, 3, 4, 5, 6, 7, 8, 9, 10, 11, 12, 13, 14, 15 :: nat}"
  unfolding insert_iff empty_iff by presburger

lemma hex_nibble_digit:
  assumes "k < 16"
  shows "hex_nibble (hex_digits ! k) = Some (of_nat k)"
  using hex_digits_cases [OF assms] by (elim insertE emptyE) (simp_all add: hex_digits_def hex_nibble_def)

lemma hex_byte_digits: "hex_byte b = [hex_digits ! (unat b div 16), hex_digits ! (unat b mod 16)]"
  by (simp add: hex_byte_def low_nibble high_nibble)

lemma length_hex_byte [simp, len_simps]: "length (hex_byte b) = 2"
  by (simp add: hex_byte_def)

lemma length_bin2hex [simp, len_simps]: "length (bin2hex p) = 2 * length p"
  by (induction p) (simp_all add: bin2hex_def)

lemma nibbles_join: "push_bit 4 (of_nat (unat b div 16)) OR of_nat (unat b mod 16) = (b :: u8)"
proof -
  have "of_nat (unat b div 16) = drop_bit 4 b"
    by (simp flip: high_nibble(1))
  moreover have "of_nat (unat b mod 16) = take_bit 4 b"
  proof -
    have "unat (take_bit 4 b) = unat b mod 16" by (simp only: unsigned_take_bit_eq) (simp add: take_bit_eq_mod)
    then show ?thesis by (metis of_nat_unat ucast_id)
  qed
  moreover have "push_bit 4 (drop_bit 4 b) OR take_bit 4 b = b" by (rule bit_word_eqI) (auto simp: bit_simps)
  ultimately show ?thesis by simp
qed

text \<open>Reading back what was written, over what the bytes before it have become.\<close>

lemma hex2bin_from_bin2hex:
  assumes "length front = k"
  shows "hex2bin_from (2 * k) (bin2hex b) (front @ replicate (length b) 0 @ rest) = (True, front @ b @ rest)"
  using assms
proof (induction b arbitrary: k front)
  case (Cons x b)
  have d: "hex_nibble (hex_digits ! (unat x div 16)) = Some (of_nat (unat x div 16))"
    "hex_nibble (hex_digits ! (unat x mod 16)) = Some (of_nat (unat x mod 16))"
    using high_nibble(2) [of x] by (simp_all add: hex_nibble_digit)
  have i: "(2 * k) mod 2 = 0" "(2 * k) div 2 = k" "Suc (2 * k) mod 2 = 1" "Suc (2 * k) div 2 = k" by simp_all
  have "hex2bin_from (2 * Suc k) (bin2hex b) ((front @ [x]) @ replicate (length b) 0 @ rest) = (True, (front @ [x]) @ b @ rest)"
    by (rule Cons.IH) (simp add: Cons.prems)
  then show ?case
    using Cons.prems nibbles_join [of x] by (simp add: bin2hex_def hex_byte_digits d i nth_append list_update_append)
qed (simp add: bin2hex_def)

lemma hex2bin_bin2hex:
  assumes "length b = length p"
  shows "hex2bin p (Some (bin2hex b)) = (True, b)"
  using hex2bin_from_bin2hex [of "[]" 0 b "[]"] assms by (simp add: hex2bin_def)

lemma length_hex2bin_from [simp, len_simps]: "length (snd (hex2bin_from i s p)) = length p"
  by (induction i s p rule: hex2bin_from.induct) (simp_all split: option.splits)

lemma length_hex2bin [simp, len_simps]: "length (snd (hex2bin p s)) = length p"
  by (simp add: hex2bin_def split: option.splits)

text \<open>The digits this program writes are all it takes for text to be the hex of some bytes.\<close>

definition lower_hex :: "string \<Rightarrow> bool" where "lower_hex s \<longleftrightarrow> (\<forall>c \<in> set s. c \<in> set hex_digits)"

lemma hex_byte_of_digits:
  assumes "h < 16" "l < 16"
  shows "hex_byte (of_nat (16 * h + l)) = [hex_digits ! h, hex_digits ! l]"
proof -
  have "unat (of_nat (16 * h + l) :: u8) = 16 * h + l" using assms by (intro unat_of_nat_small) simp
  then show ?thesis using assms by (simp add: hex_byte_digits)
qed

lemma lower_hex_bytes:
  assumes "lower_hex s" "length s = 2 * n"
  shows "\<exists>b. length b = n \<and> s = bin2hex b"
  using assms
proof (induction n arbitrary: s)
  case (Suc n)
  then obtain c d r where s: "s = c # d # r" by (cases s; cases "tl s") auto
  obtain h l where "h < 16" "hex_digits ! h = c" "l < 16" "hex_digits ! l = d"
    using Suc.prems(1) s by (auto simp: lower_hex_def in_set_conv_nth hex_digits_length)
  moreover obtain b where "length b = n" "r = bin2hex b"
    using Suc.IH [of r] Suc.prems s by (auto simp: lower_hex_def)
  ultimately have "length (of_nat (16 * h + l) # b) = Suc n \<and> s = bin2hex (of_nat (16 * h + l) # b)"
    using s hex_byte_of_digits [of h l] by (simp add: bin2hex_def)
  then show ?case by blast
qed (simp add: bin2hex_def)

lemma bin2hex_lower: "lower_hex (bin2hex b)"
proof (induction b)
  case (Cons x b)
  have "set (hex_byte x) \<subseteq> set hex_digits"
    using high_nibble(2) [of x] nth_mem [of _ hex_digits] by (simp add: hex_byte_digits hex_digits_length)
  then show ?case using Cons by (auto simp: bin2hex_def lower_hex_def)
qed (simp add: bin2hex_def lower_hex_def)

section \<open>Lemmas: sixteen digits\<close>

definition be64_of :: "u64 \<Rightarrow> u8 list" where "be64_of n = map (\<lambda>i. ucast (drop_bit (56 - i * 8) n)) [0..<8]"

lemma hex64_bytes: "hex64 n = bin2hex (be64_of n)"
proof -
  have "hex_byte (ucast (drop_bit k n)) = [hex_digits ! unat (drop_bit (k + 4) n AND 15), hex_digits ! unat (drop_bit k n AND 15)]"
    for k
  proof -
    have d: "unat (drop_bit m n) = unat n div 2 ^ m" for m
    proof -
      have "unat (drop_bit m n) = drop_bit m (take_bit LENGTH(64) (unat n))" by (rule unsigned_drop_bit_eq)
      moreover have "unat n < 2 ^ 64" using unsigned_less [of n, where ?'a = nat] by simp
      ultimately show ?thesis by (simp add: drop_bit_eq_div take_bit_nat_eq_self)
    qed
    have u: "unat (ucast w :: u8) = unat w mod 256" for w :: u64
      by (simp add: unsigned_ucast_eq take_bit_eq_mod)
    have "unat n div 2 ^ (k + 4) = unat n div 2 ^ k div 16" by (simp add: power_add div_mult2_eq)
    moreover have "m mod 256 div 16 = m div 16 mod 16" "m mod 256 mod 16 = m mod 16" for m :: nat
    proof -
      have "m mod 256 = 16 * (m div 16 mod 16) + m mod 16" using mod_mult2_eq [of m 16 16] by simp
      then show "m mod 256 div 16 = m div 16 mod 16" "m mod 256 mod 16 = m mod 16" by simp_all
    qed
    ultimately show ?thesis by (simp only: hex_byte_digits low_nibble u d)
  qed
  moreover have "60 - 2 * i * 4 = 56 - i * 8 + 4" "60 - (2 * i + 1) * 4 = 56 - i * 8" if "i < 8" for i :: nat
    using that by auto
  ultimately have "map (\<lambda>i. hex_digits ! unat (drop_bit (60 - i * 4) n AND 15)) [2 * i, 2 * i + 1] =
      hex_byte (ucast (drop_bit (56 - i * 8) n))" if "i < 8" for i
    using that by (simp only: list.map)
  then have pairs: "map (\<lambda>i. map (\<lambda>i. hex_digits ! unat (drop_bit (60 - i * 4) n AND 15)) [2 * i, 2 * i + 1]) [0..<8] =
      map (\<lambda>i. hex_byte (ucast (drop_bit (56 - i * 8) n))) [0..<8]"
    by (intro map_cong refl) (simp only: atLeastLessThan_iff set_upt)
  have "[0..<16] = concat (map (\<lambda>i. [2 * i, 2 * i + 1]) [0..<8])" by code_simp
  then have "hex64 n = map (\<lambda>i. hex_digits ! unat (drop_bit (60 - i * 4) n AND 15)) (concat (map (\<lambda>i. [2 * i, 2 * i + 1]) [0..<8]))"
    by (simp only: hex64_def)
  also have "\<dots> = bin2hex (be64_of n)"
    by (simp only: map_concat map_map comp_def pairs bin2hex_def be64_of_def)
  finally show ?thesis .
qed

lemma length_hex64 [simp, len_simps]: "length (hex64 n) = 16"
  by (simp add: hex64_def)

end
