(* ===== verification/Control.thy ===== *)
theory Control
  imports Registry Encodings
begin

text \<open>
  \<^verbatim>\<open>src/api/api_control.cpp\<close>: pausing, stopping and switching a running miner. Every function that holds
  \<^verbatim>\<open>g_lock\<close> throughout is one operation here; one that waits on \<^verbatim>\<open>g_cv\<close> is its part before the wait, what
  it looks at whenever it wakes, and what it does when it need not wait. The clock is a sequence of
  readings, in nanoseconds. Log lines are left out.
\<close>

section \<open>The state\<close>

datatype ControlState = kRunning | kPaused | kStopped | kSwitching

datatype ControlResult = kOk | kAccepted | kBusy | kThrottled | kTimeout | kDisabled | kInvalid

record PoolRequest =
  pr_url :: string
  pr_user :: string
  pr_pass :: string
  pr_algo :: string
  pr_pending :: bool
  pr_applied :: bool
  pr_done :: bool
  pr_ok :: bool
  pr_refused :: bool

record control_options =
  co_api_control :: bool
  co_park_timeout :: int
  co_min_interval :: int
  co_have_stratum :: bool

record control =
  ct_park_requested :: bool
  ct_retain_shared :: bool
  ct_state :: ControlState
  ct_pending :: ControlState
  ct_previous :: ControlState
  ct_epoch :: u64
  ct_switches :: u64
  ct_workers :: int
  ct_parked :: int
  ct_mutating :: bool
  ct_shutdown :: bool
  ct_last_error :: string
  ct_park_gen :: u64
  ct_parked_gen :: int
  ct_deadline :: int
  ct_state_since :: int
  ct_last_switch :: int
  ct_ever_switched :: bool
  ct_pool :: PoolRequest
  ct_pool_switch :: bool
  ct_switch_hook :: bool
  ct_prev_algo :: string
  ct_prev_url :: string
  ct_prev_user :: string
  ct_prev_pass :: string
  ct_can_restore :: bool
  ct_restore_in_force :: bool
  ct_in_flight :: bool
  ct_hold_connection :: bool
  ct_opt_algo :: "string option"
  ct_rpc_url :: "string option"
  ct_rpc_user :: "string option"
  ct_rpc_pass :: "string option"
  ct_short_url :: "string option"
  ct_clock :: "nat \<Rightarrow> int"
  ct_reads :: nat

definition read_clock :: "control \<Rightarrow> int \<times> control" where
  "read_clock c = (ct_clock c (ct_reads c), c\<lparr>ct_reads := ct_reads c + 1\<rparr>)"

section \<open>Times and messages\<close>

definition park_timeout_ms :: "control_options \<Rightarrow> int" where
  "park_timeout_ms opts = (if co_park_timeout opts < 250 then 250 else co_park_timeout opts)"

definition park_timed_out :: "control_options \<Rightarrow> string" where
  "park_timed_out opts = ''workers did not park within '' @ decimal (nat (park_timeout_ms opts)) @ '' ms''"

definition min_interval_s :: "control_options \<Rightarrow> int" where
  "min_interval_s opts = (if 0 < co_min_interval opts then co_min_interval opts else 0)"

definition retry_after_s_locked :: "control_options \<Rightarrow> control \<Rightarrow> int \<times> control" where
  "retry_after_s_locked opts c =
     (if \<not> ct_ever_switched c \<or> min_interval_s opts = 0 then (0, c)
      else let (now, c) = read_clock c;
               left = min_interval_s opts * 1000000000 - (now - ct_last_switch c)
           in if left \<le> 0 then (0, c) else (left div 1000000000 + 1, c))"

definition pool_not_taken :: "control_options \<Rightarrow> string" where
  "pool_not_taken opts = ''the pool change was not taken up within '' @ decimal (nat (park_timeout_ms opts)) @ '' ms''"

definition pool_not_answered :: "control_options \<Rightarrow> string" where
  "pool_not_answered opts = ''the pool was changed but did not answer within '' @ decimal (nat (park_timeout_ms opts)) @ '' ms''"

section \<open>The url of a request\<close>

definition kSchemes :: "string list" where
  "kSchemes = [''stratum+tcp://'', ''stratum+ssl://'', ''stratum+tcps://'']"

fun matches_scheme :: "string \<Rightarrow> string \<Rightarrow> bool" where
  "matches_scheme url [] = True"
| "matches_scheme [] (s # ss) = False"
| "matches_scheme (u # us) (s # ss) = (to_lower u = s \<and> matches_scheme us ss)"

primrec scheme_among :: "string list \<Rightarrow> string \<Rightarrow> nat" where
  "scheme_among [] url = 0"
| "scheme_among (s # ss) url =
     (if length url \<le> length s then scheme_among ss url
      else if matches_scheme url s then length s else scheme_among ss url)"

definition scheme_length :: "string \<Rightarrow> nat" where
  "scheme_length url = scheme_among kSchemes url"

definition pool_url_usable :: "control_options \<Rightarrow> string \<Rightarrow> string option" where
  "pool_url_usable opts url =
     (if \<not> co_have_stratum opts then Some ''this miner is not mining against a stratum pool''
      else if 512 < length url then Some ''the url is too long''
      else if scheme_length url = 0 then Some ''expected a stratum+tcp://, stratum+ssl:// or stratum+tcps:// url''
      else let host = drop (scheme_length url) url
           in if host ! 0 = CHR ''/'' \<or> host ! 0 = CHR '':'' then Some ''the url names no host''
              else if CHR ''@'' \<in> set host then Some ''credentials go in user and pass, not in the url''
              else if \<exists>x \<in> set host. x \<in> {CHR '' '', CHR 0x09, CHR 0x0D, CHR 0x0A} then Some ''the url has whitespace in it''
              else None)"

section \<open>Landing and undoing a change\<close>

definition all_parked_locked :: "control \<Rightarrow> bool" where
  "all_parked_locked c \<longleftrightarrow> ct_workers c \<le> ct_parked_gen c"

definition landed_locked :: "control \<Rightarrow> bool" where
  "landed_locked c = (if ct_pending c = kRunning then ct_parked c = 0 else all_parked_locked c)"

definition set_state_locked :: "ControlState \<Rightarrow> control \<Rightarrow> control" where
  "set_state_locked want c =
     (if ct_state c = want then c
      else let (now, c) = read_clock c in c\<lparr>ct_state := want, ct_state_since := now\<rparr>)"

text \<open>The terms a run state is parked on.\<close>

definition store_terms :: "ControlState \<Rightarrow> control \<Rightarrow> control" where
  "store_terms s c = c\<lparr>ct_park_requested := s \<noteq> kRunning, ct_retain_shared := s = kPaused, ct_hold_connection := s = kStopped\<rparr>"

text \<open>Whether the change in flight may be committed; a pool change is posted to the Stratum thread on the way.\<close>

definition settle_ready :: "control \<Rightarrow> bool \<times> control" where
  "settle_ready c =
     (if ct_pool_switch c then
        if \<not> pr_pending (ct_pool c) \<and> \<not> pr_applied (ct_pool c) \<and> \<not> all_parked_locked c then (False, c)
        else
          let c = (if \<not> pr_pending (ct_pool c) \<and> \<not> pr_applied (ct_pool c)
                   then c\<lparr>ct_pool := (ct_pool c)\<lparr>pr_pending := True\<rparr>, ct_in_flight := True\<rparr> else c)
          in if \<not> pr_done (ct_pool c) then (False, c)
             else (True, c\<lparr>ct_pool_switch := False, ct_pool := (ct_pool c)\<lparr>pr_pending := False\<rparr>, ct_in_flight := False\<rparr>)
      else (landed_locked c, c))"

definition commit_locked :: "control \<Rightarrow> control" where
  "commit_locked c =
     (let c = set_state_locked (ct_pending c) c;
          c = c\<lparr>ct_epoch := ct_epoch c + 1, ct_switches := ct_switches c + 1, ct_mutating := False\<rparr>;
          c = (if ct_restore_in_force c then c else c\<lparr>ct_last_error := []\<rparr>)
      in store_terms (ct_state c) c)"

definition settle_locked :: "control \<Rightarrow> bool \<times> control" where
  "settle_locked c =
     (if ct_state c \<noteq> kSwitching then (False, c)
      else let (ready, c) = settle_ready c in if ready then (True, commit_locked c) else (False, c))"

definition rollback_locked :: "string \<Rightarrow> control \<Rightarrow> control" where
  "rollback_locked why c =
     (let c = c\<lparr>ct_pool_switch := False, ct_pool := (ct_pool c)\<lparr>pr_pending := False\<rparr>, ct_in_flight := False\<rparr>;
          c = store_terms (ct_previous c) c;
          c = set_state_locked (ct_previous c) c
      in c\<lparr>ct_pending := ct_previous c, ct_mutating := False, ct_last_error := why\<rparr>)"

definition expire_locked :: "control_options \<Rightarrow> control \<Rightarrow> control" where
  "expire_locked opts c =
     (if ct_state c \<noteq> kSwitching then c
      else
        let (now, c) = read_clock c
        in if now < ct_deadline c then c
           else if ct_pool_switch c \<and> pr_applied (ct_pool c) then
             let c = c\<lparr>ct_pool := (ct_pool c)\<lparr>pr_done := True, pr_ok := False\<rparr>\<rparr>;
                 c = snd (settle_locked c)
             in c\<lparr>ct_last_error := pool_not_answered opts\<rparr>
           else if ct_pool_switch c then
             rollback_locked (if pr_pending (ct_pool c) then pool_not_taken opts else park_timed_out opts) c
           else rollback_locked (park_timed_out opts) c)"

section \<open>Asking for a run state\<close>

text \<open>A call either has its answer and the message that goes with it, or waits until a time and looks again whenever it wakes.\<close>

datatype reply = Answered ControlResult string | Waiting int

definition answer_by :: "u32 \<Rightarrow> control \<Rightarrow> int \<times> control" where
  "answer_by wait_ms c =
     (let (t, c) = (if wait_ms \<noteq> 0 then let (now, c) = read_clock c in (now + int (unat wait_ms) * 1000000, c)
                    else (ct_deadline c, c))
      in (if ct_deadline c < t then ct_deadline c else t, c))"

text \<open>The condition of the loop around the wait: true is to wait.\<close>

definition keeps_waiting :: "int \<Rightarrow> control \<Rightarrow> bool \<times> control" where
  "keeps_waiting by c =
     (if ct_state c \<noteq> kSwitching then (False, c)
      else let (settled, c) = settle_locked c
           in if settled then (False, c)
              else let (now, c) = read_clock c in (now < by, c))"

definition request_poll :: "control_options \<Rightarrow> ControlState \<Rightarrow> int \<Rightarrow> control \<Rightarrow> reply \<times> control" where
  "request_poll opts want by c =
     (let (wait, c) = keeps_waiting by c
      in if wait then (Waiting by, c)
         else if ct_state c = want then (Answered kOk [], c)
         else let (now, c) = read_clock c
              in if ct_deadline c \<le> now
                 then (Answered kTimeout (park_timed_out opts), rollback_locked (park_timed_out opts) c)
                 else (Answered kAccepted [], c))"

definition begin_change :: "control_options \<Rightarrow> ControlState \<Rightarrow> control \<Rightarrow> control" where
  "begin_change opts want c =
     (let c = c\<lparr>ct_previous := ct_state c, ct_pending := want\<rparr>;
          c = set_state_locked kSwitching c;
          c = c\<lparr>ct_mutating := True, ct_last_error := []\<rparr>;
          (now, c) = read_clock c;
          c = c\<lparr>ct_deadline := now + park_timeout_ms opts * 1000000\<rparr>
      in if want = kRunning then c\<lparr>ct_park_requested := False, ct_retain_shared := False\<rparr>
         else c\<lparr>ct_retain_shared := want = kPaused, ct_park_requested := True,
                ct_park_gen := ct_park_gen c + 1, ct_parked_gen := 0\<rparr>)"

definition control_request :: "control_options \<Rightarrow> ControlState \<Rightarrow> u32 \<Rightarrow> control \<Rightarrow> reply \<times> control" where
  "control_request opts want wait_ms c =
     (if \<not> co_api_control opts then (Answered kDisabled ''the control API is not enabled'', c)
      else if want = kSwitching then (Answered kBusy (CHR 0x27 # ''switching'' @ CHR 0x27 # '' is not a state that can be asked for''), c)
      else
        let c = expire_locked opts (snd (settle_locked c))
        in if ct_mutating c then (Answered kBusy ''another change is already in progress'', c)
           else if ct_state c = want then (Answered kOk [], c)
           else let (by, c) = answer_by wait_ms (begin_change opts want c) in request_poll opts want by c)"

section \<open>Asking for a pool or an algorithm\<close>

definition text_of :: "string option \<Rightarrow> string" where
  "text_of s = (case s of None \<Rightarrow> [] | Some t \<Rightarrow> t)"

definition post_pool_locked ::
  "control_options \<Rightarrow> string \<Rightarrow> string \<Rightarrow> string \<Rightarrow> string \<Rightarrow> bool \<Rightarrow> ControlState option \<Rightarrow> control \<Rightarrow> control" where
  "post_pool_locked opts url user pass algo restore want c =
     (let c = (if algo \<noteq> [] \<and> \<not> restore
               then c\<lparr>ct_prev_algo := text_of (ct_opt_algo c), ct_prev_url := text_of (ct_rpc_url c),
                      ct_prev_user := text_of (ct_rpc_user c), ct_prev_pass := text_of (ct_rpc_pass c),
                      ct_can_restore := text_of (ct_opt_algo c) \<noteq> [] \<and> text_of (ct_rpc_url c) \<noteq> []\<rparr>
               else c);
          c = c\<lparr>ct_restore_in_force := restore\<rparr>;
          (now, c) = read_clock c;
          c = c\<lparr>ct_last_switch := now, ct_ever_switched := True, ct_previous := ct_state c,
                ct_pending := (case want of None \<Rightarrow> ct_state c | Some w \<Rightarrow> w)\<rparr>;
          c = set_state_locked kSwitching c;
          c = c\<lparr>ct_mutating := True, ct_pool_switch := True\<rparr>;
          c = (if restore then c else c\<lparr>ct_last_error := []\<rparr>);
          (now, c) = read_clock c
      in c\<lparr>ct_deadline := now + park_timeout_ms opts * 1000000,
           ct_pool := \<lparr>pr_url = url, pr_user = user, pr_pass = pass, pr_algo = algo, pr_pending = False,
                       pr_applied = False, pr_done = False, pr_ok = False, pr_refused = False\<rparr>,
           ct_retain_shared := ct_previous c \<noteq> kStopped, ct_park_requested := True,
           ct_hold_connection := ct_pending c = kStopped,
           ct_park_gen := ct_park_gen c + 1, ct_parked_gen := 0\<rparr>)"

definition pool_poll :: "control_options \<Rightarrow> int \<Rightarrow> control \<Rightarrow> reply \<times> control" where
  "pool_poll opts by c =
     (let (wait, c) = keeps_waiting by c
      in if wait then (Waiting by, c)
         else if ct_state c \<noteq> kSwitching then
           (Answered (if pr_ok (ct_pool c) then kOk else if pr_refused (ct_pool c) then kInvalid else kTimeout)
                     (if pr_ok (ct_pool c) then [] else ct_last_error c), c)
         else let (now, c) = read_clock c
              in if ct_deadline c \<le> now
                 then let c = expire_locked opts c in (Answered kTimeout (ct_last_error c), c)
                 else (Answered kAccepted [], c))"

text \<open>What the two requests have in common once the request itself has been looked at; \<open>kind\<close> is the word their refusals differ in.\<close>

definition switch_request ::
  "control_options \<Rightarrow> string \<Rightarrow> string \<Rightarrow> string \<Rightarrow> string \<Rightarrow> string \<Rightarrow> u32 \<Rightarrow> ControlState option \<Rightarrow> control \<Rightarrow> reply \<times> control" where
  "switch_request opts kind algo url user pass wait_ms want c =
     (let c = expire_locked opts (snd (settle_locked c))
      in if ct_mutating c then (Answered kBusy ''another change is already in progress'', c)
         else
           let (retry_in, c) = retry_after_s_locked opts c
           in if retry_in \<noteq> 0
              then (Answered kThrottled (kind @ '' less than '' @ decimal (nat (min_interval_s opts)) @
                      '' s ago, retry in '' @ decimal (nat retry_in) @ '' s''), c)
              else let (by, c) = answer_by wait_ms (post_pool_locked opts url user pass algo False want c)
                   in pool_poll opts by c)"

definition control_pool_request ::
  "control_options \<Rightarrow> string \<Rightarrow> string \<Rightarrow> string \<Rightarrow> u32 \<Rightarrow> ControlState option \<Rightarrow> control \<Rightarrow> reply \<times> control" where
  "control_pool_request opts url user pass wait_ms want c =
     (if \<not> co_api_control opts then (Answered kDisabled ''the control API is not enabled'', c)
      else case pool_url_usable opts url of
             Some why \<Rightarrow> (Answered kInvalid why, c)
           | None \<Rightarrow> switch_request opts ''the pool was changed'' [] url user pass wait_ms want c)"

definition control_algo_request ::
  "control_options \<Rightarrow> string \<Rightarrow> string \<Rightarrow> string \<Rightarrow> string \<Rightarrow> u32 \<Rightarrow> ControlState option \<Rightarrow> control \<Rightarrow> reply \<times> control" where
  "control_algo_request opts algo url user pass wait_ms want c =
     (if \<not> co_api_control opts then (Answered kDisabled ''the control API is not enabled'', c)
      else if algo = [] then (Answered kInvalid ''no algorithm was named'', c)
      else case pool_url_usable opts url of
             Some why \<Rightarrow> (Answered kInvalid why, c)
           | None \<Rightarrow> switch_request opts ''the miner was switched'' algo url user pass wait_ms want c)"

section \<open>Going back\<close>

definition control_switch_recoverable :: "control \<Rightarrow> bool" where
  "control_switch_recoverable c \<longleftrightarrow> ct_can_restore c \<and> \<not> ct_restore_in_force c"

definition control_switch_failed :: "control_options \<Rightarrow> string \<Rightarrow> control \<Rightarrow> control" where
  "control_switch_failed opts why c =
     (let c = expire_locked opts (snd (settle_locked c))
      in if \<not> ct_can_restore c \<or> ct_restore_in_force c \<or> ct_mutating c then c\<lparr>ct_last_error := why\<rparr>
         else (post_pool_locked opts (ct_prev_url c) (ct_prev_user c) (ct_prev_pass c) (ct_prev_algo c) True None c)
                \<lparr>ct_last_error := why\<rparr>)"

section \<open>What the workers call\<close>

definition control_wants_park :: "control \<Rightarrow> bool" where "control_wants_park = ct_park_requested"

definition control_park_retains_shared :: "control \<Rightarrow> bool" where "control_park_retains_shared = ct_retain_shared"

text \<open>\<^verbatim>\<open>control_park\<close>: coming in, under the generation it finds; whether it goes on waiting; going out.\<close>

definition park_enter :: "control \<Rightarrow> u64 option \<times> control" where
  "park_enter c =
     (if ct_shutdown c then (None, c)
      else (Some (ct_park_gen c),
            snd (settle_locked (c\<lparr>ct_parked := ct_parked c + 1, ct_parked_gen := ct_parked_gen c + 1\<rparr>))))"

definition park_waits :: "u64 \<Rightarrow> control \<Rightarrow> bool" where
  "park_waits gen c \<longleftrightarrow> ct_park_requested c \<and> ct_park_gen c = gen \<and> \<not> ct_shutdown c"

definition park_leave :: "u64 \<Rightarrow> control \<Rightarrow> control" where
  "park_leave gen c =
     (let c = c\<lparr>ct_parked := ct_parked c - 1\<rparr>;
          c = (if ct_park_gen c = gen then c\<lparr>ct_parked_gen := ct_parked_gen c - 1\<rparr> else c)
      in snd (settle_locked c))"

section \<open>What the Stratum thread calls\<close>

definition control_pool_connected :: "control \<Rightarrow> control" where
  "control_pool_connected c =
     (if \<not> ct_pool_switch c \<or> \<not> pr_applied (ct_pool c) \<or> pr_done (ct_pool c) then c
      else snd (settle_locked (c\<lparr>ct_pool := (ct_pool c)\<lparr>pr_done := True, pr_ok := True\<rparr>\<rparr>)))"

text \<open>
  \<^verbatim>\<open>control_pool_apply\<close>: the change is taken under the lock; the switch hook runs without it; what
  follows is a rollback under the lock, or the new pool.
\<close>

record pool_change =
  pc_url :: string
  pc_user :: string
  pc_pass :: string
  pc_algo :: string
  pc_hook :: bool

definition pool_take :: "control \<Rightarrow> pool_change option \<times> control" where
  "pool_take c =
     (if \<not> pr_pending (ct_pool c) then (None, c)
      else (Some \<lparr>pc_url = pr_url (ct_pool c), pc_user = pr_user (ct_pool c), pc_pass = pr_pass (ct_pool c),
                  pc_algo = pr_algo (ct_pool c), pc_hook = ct_switch_hook c\<rparr>,
            c\<lparr>ct_pool := (ct_pool c)\<lparr>pr_pending := False, pr_applied := True\<rparr>\<rparr>))"

text \<open>\<^verbatim>\<open>switch_algorithm\<close> of \<^verbatim>\<open>main.cpp\<close>, the hook: what the registry, the devices and the self-test say of the algorithm.\<close>

record switch_answers =
  sw_exists :: bool
  sw_devices :: "int list"
  sw_refuses :: "int \<Rightarrow> string option"
  sw_backend :: string
  sw_self_test :: bool

definition switch_algorithm :: "switch_answers \<Rightarrow> string \<Rightarrow> control \<Rightarrow> string option \<times> control" where
  "switch_algorithm sw algo c =
     (if \<not> sw_exists sw then (Some (''no algorithm called '' @ CHR 0x27 # algo @ [CHR 0x27]), c)
      else case find (\<lambda>d. sw_refuses sw d \<noteq> None) (sw_devices sw) of
             Some d \<Rightarrow> (Some (''device '' @ (if d < 0 then CHR ''-'' # decimal (nat (- d)) else decimal (nat d)) @ '': '' @ the (sw_refuses sw d)), c)
           | None \<Rightarrow>
               if sw_backend sw \<noteq> ''null'' \<and> \<not> sw_self_test sw
               then (Some (CHR 0x27 # algo @ CHR 0x27 # '' fails its self-test on this build, so its shares would be rejected''), c)
               else (None, c\<lparr>ct_opt_algo := Some algo\<rparr>))"

definition pool_refusal :: "switch_answers \<Rightarrow> pool_change \<Rightarrow> control \<Rightarrow> string option \<times> control" where
  "pool_refusal sw p c =
     (if pc_algo p = [] then (None, c)
      else if \<not> pc_hook p then (Some ''this miner cannot change algorithm at runtime'', c)
      else let (refusal, c) = switch_algorithm sw (pc_algo p) c
           in (case refusal of None \<Rightarrow> (None, c) | Some why \<Rightarrow> (Some (if why = [] then ''the switch was refused'' else why), c)))"

definition pool_refuse :: "string \<Rightarrow> control \<Rightarrow> control" where
  "pool_refuse why c = rollback_locked why (c\<lparr>ct_pool := (ct_pool c)\<lparr>pr_refused := True\<rparr>\<rparr>)"

definition pool_install :: "pool_change \<Rightarrow> control \<Rightarrow> control" where
  "pool_install p c =
     (let c = c\<lparr>ct_rpc_url := Some (pc_url p), ct_short_url := Some (drop (scheme_length (pc_url p)) (pc_url p))\<rparr>;
          c = (if pc_user p \<noteq> [] then c\<lparr>ct_rpc_user := Some (pc_user p)\<rparr> else c);
          c = (if pc_pass p \<noteq> [] then c\<lparr>ct_rpc_pass := Some (pc_pass p)\<rparr> else c)
      in if ct_hold_connection c then control_pool_connected c else c)"

definition control_pool_pending :: "control \<Rightarrow> bool" where "control_pool_pending c = pr_pending (ct_pool c)"
definition control_switch_in_flight :: "control \<Rightarrow> bool" where "control_switch_in_flight = ct_in_flight"
definition control_holds_connection :: "control \<Rightarrow> bool" where "control_holds_connection = ct_hold_connection"

section \<open>Status, start and end\<close>

definition control_state_name :: "ControlState \<Rightarrow> string" where
  "control_state_name s = (case s of kRunning \<Rightarrow> ''running'' | kPaused \<Rightarrow> ''paused'' | kStopped \<Rightarrow> ''stopped'' | kSwitching \<Rightarrow> ''switching'')"

record ControlStatus =
  st_state :: ControlState
  st_epoch :: u64
  st_switch_count :: u64
  st_workers :: int
  st_parked :: int
  st_min_interval_s :: int
  st_last_switch_age_s :: int
  st_retry_after_s :: int
  st_ready_for_switch :: bool
  st_state_age_s :: int
  st_last_error :: string

definition to_seconds :: "int \<Rightarrow> int" where
  "to_seconds ns = (if 0 \<le> ns then ns div 1000000000 else - ((- ns) div 1000000000))"

definition control_status :: "control_options \<Rightarrow> control \<Rightarrow> ControlStatus \<times> control" where
  "control_status opts c =
     (let c = expire_locked opts (snd (settle_locked c));
          (now, c) = read_clock c;
          age = to_seconds (now - ct_state_since c);
          (retry, c) = retry_after_s_locked opts c;
          (switched, c) = (if ct_ever_switched c then let (now, c) = read_clock c in (to_seconds (now - ct_last_switch c), c)
                           else (-1, c))
      in (\<lparr>st_state = ct_state c, st_epoch = ct_epoch c, st_switch_count = ct_switches c, st_workers = ct_workers c,
           st_parked = ct_parked c, st_min_interval_s = min_interval_s opts, st_last_switch_age_s = switched,
           st_retry_after_s = retry, st_ready_for_switch = retry = 0, st_state_age_s = age, st_last_error = ct_last_error c\<rparr>, c))"

definition control_release_all :: "control \<Rightarrow> control" where
  "control_release_all c = c\<lparr>ct_shutdown := True, ct_park_requested := False, ct_retain_shared := False,
     ct_pool := (ct_pool c)\<lparr>pr_pending := False\<rparr>, ct_in_flight := False, ct_hold_connection := False\<rparr>"

text \<open>The file's own globals and \<^verbatim>\<open>control_init\<close>.\<close>

definition control_new :: "int \<Rightarrow> bool \<Rightarrow> string option \<Rightarrow> string option \<Rightarrow> (nat \<Rightarrow> int) \<Rightarrow> control" where
  "control_new workers hook algo url clock =
     \<lparr>ct_park_requested = False, ct_retain_shared = False, ct_state = kRunning, ct_pending = kRunning,
      ct_previous = kRunning, ct_epoch = 0, ct_switches = 0, ct_workers = (if 0 < workers then workers else 0),
      ct_parked = 0, ct_mutating = False, ct_shutdown = False, ct_last_error = [], ct_park_gen = 0, ct_parked_gen = 0,
      ct_deadline = 0, ct_state_since = clock 0, ct_last_switch = 0, ct_ever_switched = False,
      ct_pool = \<lparr>pr_url = [], pr_user = [], pr_pass = [], pr_algo = [], pr_pending = False, pr_applied = False,
                 pr_done = False, pr_ok = False, pr_refused = False\<rparr>,
      ct_pool_switch = False, ct_switch_hook = hook, ct_prev_algo = [], ct_prev_url = [], ct_prev_user = [],
      ct_prev_pass = [], ct_can_restore = False, ct_restore_in_force = False, ct_in_flight = False,
      ct_hold_connection = False, ct_opt_algo = algo, ct_rpc_url = url, ct_rpc_user = None, ct_rpc_pass = None,
      ct_short_url = None, ct_clock = clock, ct_reads = 1\<rparr>"

end
