(* ===== verification/Control_Steps.thy ===== *)
theory Control_Steps
  imports Control
begin

text \<open>
  The control of a running miner as a state machine: its workers, the clients of the API, the Stratum
  thread and the end of the run take the operations of \<open>Control\<close> in any order. What each has between two
  of its own operations is kept beside the globals they share.
\<close>

section \<open>The machine\<close>

datatype client = Idle | AsksState ControlState int | AsksPool int

record system =
  sy_control :: control
  sy_inside :: "nat \<Rightarrow> u64 option"
  sy_client :: "nat \<Rightarrow> client"
  sy_far :: "pool_change option"

primrec asks_on :: "client \<Rightarrow> reply \<Rightarrow> client" where
  "asks_on waiting (Answered result why) = Idle"
| "asks_on waiting (Waiting by) = waiting"

text \<open>
  A worker may come in at any time, since it read the flag before it took the lock; a client looks again
  whenever it is woken, or for no reason; the Stratum thread runs the switch hook between taking a change
  and what comes of it.
\<close>

inductive control_step :: "control_options \<Rightarrow> nat \<Rightarrow> system \<Rightarrow> system \<Rightarrow> bool" for opts n where
  enter: "i < n \<Longrightarrow> sy_inside s i = None \<Longrightarrow> park_enter (sy_control s) = (gen, c) \<Longrightarrow>
     control_step opts n s (s\<lparr>sy_control := c, sy_inside := (sy_inside s)(i := gen)\<rparr>)"
| leave: "sy_inside s i = Some gen \<Longrightarrow> \<not> park_waits gen (sy_control s) \<Longrightarrow>
     control_step opts n s (s\<lparr>sy_control := park_leave gen (sy_control s), sy_inside := (sy_inside s)(i := None)\<rparr>)"
| ask_state: "sy_client s j = Idle \<Longrightarrow> control_request opts want wait_ms (sy_control s) = (r, c) \<Longrightarrow>
     control_step opts n s (s\<lparr>sy_control := c,
       sy_client := (sy_client s)(j := case r of Waiting by \<Rightarrow> AsksState want by | Answered result why \<Rightarrow> Idle)\<rparr>)"
| poll_state: "sy_client s j = AsksState want by \<Longrightarrow> request_poll opts want by (sy_control s) = (r, c) \<Longrightarrow>
     control_step opts n s (s\<lparr>sy_control := c, sy_client := (sy_client s)(j := asks_on (AsksState want by) r)\<rparr>)"
| ask_pool: "sy_client s j = Idle \<Longrightarrow> want \<noteq> Some kSwitching \<Longrightarrow>
     control_pool_request opts url user pass wait_ms want (sy_control s) = (r, c) \<Longrightarrow>
     control_step opts n s (s\<lparr>sy_control := c,
       sy_client := (sy_client s)(j := case r of Waiting by \<Rightarrow> AsksPool by | Answered result why \<Rightarrow> Idle)\<rparr>)"
| ask_algo: "sy_client s j = Idle \<Longrightarrow> want \<noteq> Some kSwitching \<Longrightarrow>
     control_algo_request opts algo url user pass wait_ms want (sy_control s) = (r, c) \<Longrightarrow>
     control_step opts n s (s\<lparr>sy_control := c,
       sy_client := (sy_client s)(j := case r of Waiting by \<Rightarrow> AsksPool by | Answered result why \<Rightarrow> Idle)\<rparr>)"
| poll_pool: "sy_client s j = AsksPool by \<Longrightarrow> pool_poll opts by (sy_control s) = (r, c) \<Longrightarrow>
     control_step opts n s (s\<lparr>sy_control := c, sy_client := (sy_client s)(j := asks_on (AsksPool by) r)\<rparr>)"
| status: "control_step opts n s (s\<lparr>sy_control := snd (control_status opts (sy_control s))\<rparr>)"
| failed: "why \<noteq> [] \<Longrightarrow> control_step opts n s (s\<lparr>sy_control := control_switch_failed opts why (sy_control s)\<rparr>)"
| connected: "control_step opts n s (s\<lparr>sy_control := control_pool_connected (sy_control s)\<rparr>)"
| take: "sy_far s = None \<Longrightarrow> pool_take (sy_control s) = (Some p, c) \<Longrightarrow>
     control_step opts n s (s\<lparr>sy_control := c, sy_far := Some p\<rparr>)"
| refuse: "sy_far s = Some p \<Longrightarrow> pool_refusal sw p (sy_control s) = (Some why, c) \<Longrightarrow>
     control_step opts n s (s\<lparr>sy_control := pool_refuse why c, sy_far := None\<rparr>)"
| accept: "sy_far s = Some p \<Longrightarrow> pool_refusal sw p (sy_control s) = (None, c) \<Longrightarrow>
     control_step opts n s (s\<lparr>sy_control := pool_install p c, sy_far := None\<rparr>)"
| release: "control_step opts n s (s\<lparr>sy_control := control_release_all (sy_control s)\<rparr>)"

definition system_new :: "nat \<Rightarrow> bool \<Rightarrow> string option \<Rightarrow> string option \<Rightarrow> (nat \<Rightarrow> int) \<Rightarrow> system" where
  "system_new n hook algo url clock =
     \<lparr>sy_control = control_new (int n) hook algo url clock, sy_inside = \<lambda>i. None, sy_client = \<lambda>j. Idle, sy_far = None\<rparr>"

text \<open>What can be reached in so many steps.\<close>

inductive control_reach :: "control_options \<Rightarrow> nat \<Rightarrow> nat \<Rightarrow> system \<Rightarrow> bool" for opts n where
  starts: "control_reach opts n 0 (system_new n hook algo url clock)"
| steps: "control_reach opts n N s \<Longrightarrow> control_step opts n s s' \<Longrightarrow> control_reach opts n (Suc N) s'"

section \<open>What each operation keeps\<close>

definition counts :: "control \<Rightarrow> int \<times> int \<times> int \<times> u64" where
  "counts c = (ct_workers c, ct_parked c, ct_parked_gen c, ct_park_gen c)"

definition terms_of :: "control \<Rightarrow> bool \<times> bool \<times> bool" where
  "terms_of c = (ct_park_requested c, ct_retain_shared c, ct_hold_connection c)"

definition posted :: "control \<Rightarrow> bool" where
  "posted c \<longleftrightarrow> ct_pool_switch c \<and> (pr_pending (ct_pool c) \<or> pr_applied (ct_pool c))"

text \<open>Between two operations; \<open>almost_sound\<close> also while one that answers a pool change has yet to settle it.\<close>

definition almost_sound :: "control \<Rightarrow> bool" where
  "almost_sound c \<longleftrightarrow>
     (ct_mutating c = (ct_state c = kSwitching)) \<and> ct_pending c \<noteq> kSwitching \<and> ct_previous c \<noteq> kSwitching \<and>
     (ct_pool_switch c \<longrightarrow> ct_state c = kSwitching) \<and>
     (\<not> ct_pool_switch c \<longrightarrow> \<not> pr_pending (ct_pool c) \<and> \<not> ct_in_flight c) \<and>
     (pr_pending (ct_pool c) \<longrightarrow> \<not> pr_applied (ct_pool c)) \<and>
     (ct_pool_switch c \<and> pr_done (ct_pool c) \<longrightarrow> pr_applied (ct_pool c)) \<and>
     ct_parked_gen c \<le> ct_workers c \<and> ct_epoch c = ct_switches c \<and>
     (\<not> ct_shutdown c \<longrightarrow>
        (ct_state c = kSwitching \<longrightarrow> ct_park_requested c = (ct_pool_switch c \<or> ct_pending c \<noteq> kRunning)) \<and>
        (ct_state c \<noteq> kSwitching \<longrightarrow> terms_of c = (ct_state c \<noteq> kRunning, ct_state c = kPaused, ct_state c = kStopped)) \<and>
        ct_in_flight c = posted c \<and>
        (posted c \<longrightarrow> ct_parked_gen c = ct_workers c) \<and>
        (ct_state c \<in> {kPaused, kStopped} \<and> ct_last_error c = [] \<longrightarrow> ct_parked_gen c = ct_workers c))"

definition sound :: "control \<Rightarrow> bool" where
  "sound c \<longleftrightarrow> almost_sound c \<and> (ct_pool_switch c \<longrightarrow> \<not> pr_done (ct_pool c))"

lemma running_flags:
  assumes "almost_sound c" "\<not> ct_shutdown c"
  shows "ct_pool_switch c \<Longrightarrow> ct_state c = kSwitching \<and> ct_park_requested c"
    "ct_state c \<in> {kPaused, kStopped} \<Longrightarrow> ct_park_requested c"
    "ct_state c = kRunning \<Longrightarrow> \<not> ct_park_requested c"
proof -
  have a: "ct_pool_switch c \<longrightarrow> ct_state c = kSwitching"
    "ct_state c = kSwitching \<longrightarrow> ct_park_requested c = (ct_pool_switch c \<or> ct_pending c \<noteq> kRunning)"
    "ct_state c \<noteq> kSwitching \<longrightarrow> ct_park_requested c = (ct_state c \<noteq> kRunning)"
    using assms unfolding almost_sound_def terms_of_def by blast+
  show "ct_pool_switch c \<Longrightarrow> ct_state c = kSwitching \<and> ct_park_requested c" using a by blast
  show "ct_state c \<in> {kPaused, kStopped} \<Longrightarrow> ct_park_requested c" "ct_state c = kRunning \<Longrightarrow> \<not> ct_park_requested c"
    using a(3) by auto
qed

lemma read_clock_frame [simp]:
  "snd (read_clock c) = c\<lparr>ct_reads := ct_reads c + 1\<rparr>" "fst (read_clock c) = ct_clock c (ct_reads c)"
  by (simp_all add: read_clock_def)

lemma read_clock_sound [simp]:
  "sound (c\<lparr>ct_reads := x\<rparr>) = sound c" "almost_sound (c\<lparr>ct_reads := x\<rparr>) = almost_sound c" "counts (c\<lparr>ct_reads := x\<rparr>) = counts c"
  by (simp_all add: sound_def almost_sound_def counts_def terms_of_def posted_def)

lemmas control_ops = set_state_locked_def store_terms_def read_clock_def Let_def

lemma settle_counts [simp]: "counts (snd (settle_locked c)) = counts c"
  by (simp add: settle_locked_def settle_ready_def commit_locked_def control_ops counts_def split: prod.splits)

lemma rollback_counts [simp]: "counts (rollback_locked why c) = counts c"
  by (simp add: rollback_locked_def control_ops counts_def)

lemma commit_sound:
  assumes "ct_pending c \<noteq> kSwitching" "ct_previous c \<noteq> kSwitching" "\<not> ct_pool_switch c" "\<not> pr_pending (ct_pool c)"
    "\<not> ct_in_flight c" "ct_parked_gen c \<le> ct_workers c" "ct_epoch c = ct_switches c"
    "\<not> ct_shutdown c \<longrightarrow> ct_pending c \<noteq> kRunning \<longrightarrow> ct_parked_gen c = ct_workers c"
  shows "sound (commit_locked c)" "ct_state (commit_locked c) = ct_pending c"
  using assms by (auto simp: commit_locked_def control_ops sound_def almost_sound_def terms_of_def posted_def)

lemma settle_sound:
  assumes "almost_sound c"
  shows "sound (snd (settle_locked c))"
proof (cases "ct_state c = kSwitching")
  case False
  then have "\<not> ct_pool_switch c" using assms by (auto simp: almost_sound_def)
  then show ?thesis using assms False by (simp add: settle_locked_def sound_def)
next
  case sw: True
  show ?thesis
  proof (cases "ct_pool_switch c")
    case False
    have "sound (commit_locked c)" if "landed_locked c"
      by (rule commit_sound) (use assms False that in \<open>auto simp: almost_sound_def landed_locked_def all_parked_locked_def\<close>)
    then show ?thesis using assms sw False by (simp add: settle_locked_def settle_ready_def sound_def)
  next
    case True
    let ?c = "c\<lparr>ct_pool_switch := False, ct_pool := (ct_pool c)\<lparr>pr_pending := False\<rparr>, ct_in_flight := False\<rparr>"
    have "sound (commit_locked ?c)" if "pr_done (ct_pool c)"
      by (rule commit_sound) (use assms True that in \<open>auto simp: almost_sound_def posted_def\<close>)
    moreover have "sound (c\<lparr>ct_pool := (ct_pool c)\<lparr>pr_pending := True\<rparr>, ct_in_flight := True\<rparr>)"
      if "\<not> pr_pending (ct_pool c)" "\<not> pr_applied (ct_pool c)" "all_parked_locked c"
      using assms that True sw by (auto simp: sound_def almost_sound_def posted_def terms_of_def all_parked_locked_def)
    ultimately show ?thesis using assms True sw
      by (auto simp: settle_locked_def settle_ready_def sound_def almost_sound_def Let_def)
  qed
qed

lemma rollback_sound:
  assumes "almost_sound c" "why \<noteq> []"
  shows "sound (rollback_locked why c)"
  using assms by (simp add: rollback_locked_def control_ops sound_def almost_sound_def terms_of_def posted_def)

text \<open>An operation leaves the workers it has counted alone, or starts a generation nobody is counted under yet.\<close>

definition moves :: "control \<Rightarrow> control \<Rightarrow> bool" where
  "moves c c' \<longleftrightarrow> counts c' = counts c \<or>
     counts c' = (ct_workers c, ct_parked c, 0, ct_park_gen c + 1)"

lemma moves_then: "moves c d \<Longrightarrow> counts e = counts d \<Longrightarrow> moves c e"
  by (auto simp: moves_def)

lemma moves_after: "counts d = counts c \<Longrightarrow> moves d e \<Longrightarrow> moves c e"
  by (auto simp: moves_def counts_def)

lemma expire_counts [simp]: "counts (expire_locked opts c) = counts c"
proof -
  have "counts (c\<lparr>ct_pool := p\<rparr>) = counts c" "counts (c\<lparr>ct_last_error := e\<rparr>) = counts c" for c p e by (simp_all add: counts_def)
  then show ?thesis by (simp add: expire_locked_def read_clock_def Let_def)
qed

lemma messages [simp]: "park_timed_out opts \<noteq> []" "pool_not_taken opts \<noteq> []" "pool_not_answered opts \<noteq> []"
  by (simp_all add: park_timed_out_def pool_not_taken_def pool_not_answered_def)

lemma expire_sound:
  assumes "sound c"
  shows "sound (expire_locked opts c)"
proof (cases "ct_state c = kSwitching")
  case True
  let ?c = "c\<lparr>ct_reads := ct_reads c + 1\<rparr>"
  have a: "almost_sound ?c" using assms by (simp add: sound_def)
  have err: "sound (d\<lparr>ct_last_error := e\<rparr>)" if "sound d" "e \<noteq> []" for d e
    using that by (simp add: sound_def almost_sound_def terms_of_def posted_def)
  have "sound (snd (settle_locked (?c\<lparr>ct_pool := (ct_pool ?c)\<lparr>pr_done := True, pr_ok := False\<rparr>\<rparr>)))" if "pr_applied (ct_pool c)"
    by (rule settle_sound) (use a that in \<open>simp add: almost_sound_def terms_of_def posted_def\<close>)
  then show ?thesis using assms a rollback_sound [OF a] True
    by (simp add: expire_locked_def read_clock_def Let_def err)
qed (use assms in \<open>simp add: expire_locked_def\<close>)

lemma settle_expire:
  assumes "sound c"
  shows "sound (expire_locked opts (snd (settle_locked c)))" "counts (expire_locked opts (snd (settle_locked c))) = counts c"
  using assms settle_sound expire_sound by (simp_all add: sound_def)

lemma keeps_waiting_sound:
  assumes "sound c"
  shows "sound (snd (keeps_waiting by c))" "counts (snd (keeps_waiting by c)) = counts c"
proof -
  obtain b d where s: "settle_locked c = (b, d)" by (metis surj_pair)
  have "sound d" "counts d = counts c" using settle_sound [of c] settle_counts [of c] assms s by (simp_all add: sound_def)
  then show "sound (snd (keeps_waiting by c))" "counts (snd (keeps_waiting by c)) = counts c"
    using assms by (simp_all add: keeps_waiting_def s read_clock_def Let_def)
qed

lemma answer_by_frame: "snd (answer_by wait_ms c) = c \<or> snd (answer_by wait_ms c) = c\<lparr>ct_reads := ct_reads c + 1\<rparr>"
  by (simp add: answer_by_def read_clock_def Let_def)

lemma answer_by_sound [simp]: "sound (snd (answer_by wait_ms c)) = sound c" "counts (snd (answer_by wait_ms c)) = counts c"
  using answer_by_frame [of wait_ms c] by (auto simp: answer_by_def read_clock_def Let_def)

lemma request_poll_sound:
  assumes "sound c"
  shows "sound (snd (request_poll opts want by c))" "counts (snd (request_poll opts want by c)) = counts c"
proof -
  obtain w d where w: "keeps_waiting by c = (w, d)" by (metis surj_pair)
  have d: "sound d" "counts d = counts c" using keeps_waiting_sound [OF assms, of "by"] w by simp_all
  have "sound (rollback_locked why (d\<lparr>ct_reads := ct_reads d + 1\<rparr>))" if "why \<noteq> []" for why
    by (rule rollback_sound [OF _ that]) (use d in \<open>simp add: sound_def\<close>)
  then show "sound (snd (request_poll opts want by c))" "counts (snd (request_poll opts want by c)) = counts c"
    using d by (simp_all add: request_poll_def w read_clock_def Let_def)
qed

lemma pool_poll_sound:
  assumes "sound c"
  shows "sound (snd (pool_poll opts by c))" "counts (snd (pool_poll opts by c)) = counts c"
proof -
  obtain w d where w: "keeps_waiting by c = (w, d)" by (metis surj_pair)
  have d: "sound d" "counts d = counts c" using keeps_waiting_sound [OF assms, of "by"] w by simp_all
  have "sound (expire_locked opts (d\<lparr>ct_reads := ct_reads d + 1\<rparr>))" by (rule expire_sound) (use d in simp)
  then show "sound (snd (pool_poll opts by c))" "counts (snd (pool_poll opts by c)) = counts c"
    using d by (simp_all add: pool_poll_def w read_clock_def Let_def)
qed

lemma begin_change_sound:
  assumes "sound c" "\<not> ct_mutating c" "want \<noteq> kSwitching" "0 \<le> ct_workers c"
  shows "sound (begin_change opts want c)" "moves c (begin_change opts want c)"
proof -
  have s: "ct_state c \<noteq> kSwitching" "\<not> ct_pool_switch c" using assms by (auto simp: sound_def almost_sound_def)
  show "sound (begin_change opts want c)"
    using assms s by (simp add: begin_change_def control_ops sound_def almost_sound_def terms_of_def posted_def)
  show "moves c (begin_change opts want c)"
    by (simp add: begin_change_def control_ops moves_def counts_def)
qed

lemma post_pool_sound:
  assumes "sound c" "\<not> ct_mutating c" "want \<noteq> Some kSwitching" "0 \<le> ct_workers c"
  shows "sound (post_pool_locked opts url user pass algo restore want c)"
    "counts (post_pool_locked opts url user pass algo restore want c) = (ct_workers c, ct_parked c, 0, ct_park_gen c + 1)"
proof -
  have s: "ct_state c \<noteq> kSwitching" "\<not> ct_pool_switch c" using assms by (auto simp: sound_def almost_sound_def)
  show "sound (post_pool_locked opts url user pass algo restore want c)"
    using assms s by (auto simp: post_pool_locked_def control_ops sound_def almost_sound_def terms_of_def posted_def split: option.splits)
  show "counts (post_pool_locked opts url user pass algo restore want c) = (ct_workers c, ct_parked c, 0, ct_park_gen c + 1)"
    by (simp add: post_pool_locked_def control_ops counts_def)
qed

lemma moves_same: "counts c' = counts c \<Longrightarrow> moves c c'"
  by (simp add: moves_def)

lemma moves_workers: "moves c c' \<Longrightarrow> ct_workers c' = ct_workers c"
  by (auto simp: moves_def counts_def)

lemma counts_workers: "counts c' = counts c \<Longrightarrow> ct_workers c' = ct_workers c"
  by (simp add: counts_def)

text \<open>Everything a client, the Stratum thread or a worker outside the park may call.\<close>

definition keeps :: "control \<Rightarrow> control \<Rightarrow> bool" where
  "keeps c c' \<longleftrightarrow> sound c' \<and> moves c c'"

lemma control_request_keeps:
  assumes "sound c" "0 \<le> ct_workers c"
  shows "keeps c (snd (control_request opts want wait_ms c))"
proof -
  let ?d = "expire_locked opts (snd (settle_locked c))"
  note d = settle_expire [OF assms(1), of opts]
  have w: "0 \<le> ct_workers ?d" using assms(2) counts_workers [OF d(2)] by simp
  have "keeps c (snd (request_poll opts want b e))"
    if "\<not> ct_mutating ?d" "want \<noteq> kSwitching" "answer_by wait_ms (begin_change opts want ?d) = (b, e)" for b e
  proof -
    note g = begin_change_sound [OF d(1) that(1,2) w, of opts]
    have e: "sound e" "counts e = counts (begin_change opts want ?d)"
      using answer_by_sound [of wait_ms "begin_change opts want ?d"] g(1) that(3) by simp_all
    note p = request_poll_sound [OF e(1), of opts want b]
    have "counts (snd (request_poll opts want b e)) = counts (begin_change opts want ?d)" using p(2) e(2) by simp
    from moves_after [OF d(2) moves_then [OF g(2) this]] show ?thesis using p(1) by (simp add: keeps_def)
  qed
  then show ?thesis using assms(1) d
    by (simp add: control_request_def Let_def keeps_def moves_same split: prod.splits)
qed

lemma switch_request_keeps:
  assumes "sound c" "0 \<le> ct_workers c" "want \<noteq> Some kSwitching"
  shows "keeps c (snd (switch_request opts kind algo url user pass wait_ms want c))"
proof -
  let ?d = "expire_locked opts (snd (settle_locked c))"
  note d = settle_expire [OF assms(1), of opts]
  obtain retry e where r: "retry_after_s_locked opts ?d = (retry, e)" by (metis surj_pair)
  have e0: "e = ?d \<or> e = ?d\<lparr>ct_reads := ct_reads ?d + 1\<rparr>"
    using r by (auto simp: retry_after_s_locked_def read_clock_def Let_def split: if_splits)
  have e: "sound e" "counts e = counts c" "ct_mutating e = ct_mutating ?d" using d e0 by auto
  have w: "0 \<le> ct_workers e" using assms(2) counts_workers [OF e(2)] by simp
  have "keeps c (snd (pool_poll opts b f))"
    if "\<not> ct_mutating ?d" "answer_by wait_ms (post_pool_locked opts url user pass algo False want e) = (b, f)" for b f
  proof -
    have "\<not> ct_mutating e" using that(1) e(3) by simp
    note g = post_pool_sound [OF e(1) this assms(3) w, of opts url user pass algo False]
    have f: "sound f" "counts f = counts (post_pool_locked opts url user pass algo False want e)"
      using answer_by_sound [of wait_ms "post_pool_locked opts url user pass algo False want e"] g(1) that(2) by simp_all
    note p = pool_poll_sound [OF f(1), of opts b]
    show ?thesis using p g(2) f(2) e(2) by (auto simp: keeps_def moves_def counts_def)
  qed
  then show ?thesis using d e
    by (simp add: switch_request_def Let_def keeps_def moves_same r split: prod.splits)
qed

lemma requests_keep:
  assumes "sound c" "0 \<le> ct_workers c" "want \<noteq> Some kSwitching"
  shows "keeps c (snd (control_pool_request opts url user pass wait_ms want c))"
    "keeps c (snd (control_algo_request opts algo url user pass wait_ms want c))"
  using assms switch_request_keeps [OF assms]
  by (simp_all add: control_pool_request_def control_algo_request_def keeps_def moves_same split: option.splits)

lemma error_sound: "sound c \<Longrightarrow> e \<noteq> [] \<Longrightarrow> sound (c\<lparr>ct_last_error := e\<rparr>)" "counts (c\<lparr>ct_last_error := e\<rparr>) = counts c"
  by (simp_all add: sound_def almost_sound_def terms_of_def posted_def counts_def)

lemma switch_failed_keeps:
  assumes "sound c" "0 \<le> ct_workers c" "why \<noteq> []"
  shows "keeps c (control_switch_failed opts why c)"
proof -
  let ?d = "expire_locked opts (snd (settle_locked c))"
  note d = settle_expire [OF assms(1), of opts]
  have w: "0 \<le> ct_workers ?d" using assms(2) counts_workers [OF d(2)] by simp
  have "keeps c ((post_pool_locked opts url user pass algo True None ?d)\<lparr>ct_last_error := why\<rparr>)"
    if "\<not> ct_mutating ?d" for url user pass algo
  proof -
    note g = post_pool_sound [OF d(1) that _ w, of None opts url user pass algo True]
    have "ct_workers ?d = ct_workers c" "ct_parked ?d = ct_parked c" "ct_park_gen ?d = ct_park_gen c"
      using d(2) by (simp_all add: counts_def)
    then show ?thesis using g assms(3) by (simp add: keeps_def moves_def error_sound)
  qed
  then show ?thesis using d assms(3) by (simp add: control_switch_failed_def Let_def keeps_def moves_same error_sound)
qed

lemma connected_keeps:
  assumes "sound c"
  shows "keeps c (control_pool_connected c)"
proof -
  let ?c = "c\<lparr>ct_pool := (ct_pool c)\<lparr>pr_done := True, pr_ok := True\<rparr>\<rparr>"
  have "sound (snd (settle_locked ?c))" if "ct_pool_switch c" "pr_applied (ct_pool c)"
    by (rule settle_sound) (use assms that in \<open>simp add: sound_def almost_sound_def terms_of_def posted_def\<close>)
  moreover have "counts ?c = counts c" by (simp add: counts_def)
  ultimately show ?thesis using assms by (simp add: control_pool_connected_def keeps_def moves_same)
qed

lemma take_keeps:
  assumes "sound c" "pool_take c = (p, c')"
  shows "keeps c c'"
  using assms
  by (auto simp: pool_take_def keeps_def moves_def sound_def almost_sound_def terms_of_def posted_def counts_def split: if_splits)

lemma refusal_frame:
  assumes "pool_refusal sw p c = (why, c')"
  shows "c' = c \<or> c' = c\<lparr>ct_opt_algo := Some (pc_algo p)\<rparr>"
  using assms by (auto simp: pool_refusal_def switch_algorithm_def Let_def split: if_splits option.splits prod.splits)

lemma refusal_nonempty: "pool_refusal sw p c = (Some why, c') \<Longrightarrow> why \<noteq> []"
  by (auto simp: pool_refusal_def Let_def split: if_splits option.splits prod.splits)

lemma refusal_keeps:
  assumes "pool_refusal sw p c = (why, c')"
  shows "sound c' = sound c" "counts c' = counts c"
proof -
  have "sound (c\<lparr>ct_opt_algo := x\<rparr>) = sound c" "counts (c\<lparr>ct_opt_algo := x\<rparr>) = counts c" for x
    by (simp_all add: sound_def almost_sound_def terms_of_def posted_def counts_def)
  then show "sound c' = sound c" "counts c' = counts c" using refusal_frame [OF assms] by auto
qed

lemma refuse_keeps:
  assumes "sound c" "why \<noteq> []"
  shows "keeps c (pool_refuse why c)"
proof -
  let ?c = "c\<lparr>ct_pool := (ct_pool c)\<lparr>pr_refused := True\<rparr>\<rparr>"
  have "almost_sound ?c" using assms by (simp add: sound_def almost_sound_def terms_of_def posted_def)
  then have "sound (rollback_locked why ?c)" using assms(2) by (rule rollback_sound)
  moreover have "counts ?c = counts c" by (simp add: counts_def)
  ultimately show ?thesis by (simp add: pool_refuse_def keeps_def moves_same)
qed

lemma install_keeps:
  assumes "sound c"
  shows "keeps c (pool_install p c)"
proof -
  have r: "sound (d\<lparr>ct_rpc_url := x\<rparr>) = sound d" "sound (d\<lparr>ct_short_url := x\<rparr>) = sound d" "sound (d\<lparr>ct_rpc_user := x\<rparr>) = sound d"
    "sound (d\<lparr>ct_rpc_pass := x\<rparr>) = sound d" "counts (d\<lparr>ct_rpc_url := x\<rparr>) = counts d" "counts (d\<lparr>ct_short_url := x\<rparr>) = counts d"
    "counts (d\<lparr>ct_rpc_user := x\<rparr>) = counts d" "counts (d\<lparr>ct_rpc_pass := x\<rparr>) = counts d" for d x
    by (simp_all add: sound_def almost_sound_def terms_of_def posted_def counts_def)
  have k: "keeps c (control_pool_connected d)" if "sound d" "counts d = counts c" for d
    using connected_keeps [OF that(1)] moves_after [OF that(2)] by (simp add: keeps_def)
  define d where "d = (let c = c\<lparr>ct_rpc_url := Some (pc_url p), ct_short_url := Some (drop (scheme_length (pc_url p)) (pc_url p))\<rparr>;
      c = (if pc_user p \<noteq> [] then c\<lparr>ct_rpc_user := Some (pc_user p)\<rparr> else c)
    in if pc_pass p \<noteq> [] then c\<lparr>ct_rpc_pass := Some (pc_pass p)\<rparr> else c)"
  have "sound d" "counts d = counts c" using assms by (simp_all add: d_def r Let_def)
  moreover have "pool_install p c = (if ct_hold_connection d then control_pool_connected d else d)"
    by (simp add: pool_install_def d_def Let_def)
  ultimately show ?thesis using k [of d] by (simp add: keeps_def moves_same)
qed

lemma status_keeps:
  assumes "sound c"
  shows "keeps c (snd (control_status opts c))"
proof -
  let ?d = "expire_locked opts (snd (settle_locked c))"
  note d = settle_expire [OF assms, of opts]
  have r: "\<exists>x. snd (retry_after_s_locked opts e) = e\<lparr>ct_reads := x\<rparr>" for e
    by (auto simp: retry_after_s_locked_def read_clock_def Let_def intro: exI [of _ "ct_reads e"])
  have "\<exists>x. snd (control_status opts c) = ?d\<lparr>ct_reads := x\<rparr>"
    using r [of "?d\<lparr>ct_reads := ct_reads ?d + 1\<rparr>"]
    by (auto simp: control_status_def read_clock_def Let_def split: prod.splits)
  then show ?thesis using d by (auto simp: keeps_def moves_same)
qed

lemma release_keeps: "sound c \<Longrightarrow> keeps c (control_release_all c)"
  by (simp add: control_release_all_def keeps_def moves_def sound_def almost_sound_def terms_of_def posted_def counts_def)

section \<open>The invariant of the machine\<close>

definition under :: "system \<Rightarrow> u64 \<Rightarrow> nat set" where "under s gen = {i. sy_inside s i = Some gen}"

definition inside :: "system \<Rightarrow> nat set" where "inside s = {i. sy_inside s i \<noteq> None}"

definition staffed :: "nat \<Rightarrow> nat \<Rightarrow> system \<Rightarrow> bool" where
  "staffed n N s \<longleftrightarrow>
     (let c = sy_control s
      in ct_workers c = int n \<and> ct_parked c = int (card (inside s)) \<and> ct_parked_gen c = int (card (under s (ct_park_gen c))) \<and>
         inside s \<subseteq> {..<n} \<and> (\<forall>i g. sy_inside s i = Some g \<longrightarrow> g \<le> ct_park_gen c) \<and> unat (ct_park_gen c) \<le> N)"

lemma staffed_finite:
  assumes "staffed n N s"
  shows "finite (inside s)" "finite (under s g)" "under s g \<subseteq> inside s"
proof -
  show f: "finite (inside s)" using assms finite_subset [of "inside s" "{..<n}"] by (auto simp: staffed_def Let_def)
  show "under s g \<subseteq> inside s" by (auto simp: under_def inside_def)
  then show "finite (under s g)" using f finite_subset by blast
qed

lemma staffed_moves:
  assumes "staffed n N s" "moves (sy_control s) c" "Suc N < 2 ^ 64" "sy_inside s' = sy_inside s" "sy_control s' = c"
  shows "staffed n (Suc N) s'"
proof -
  let ?g = "ct_park_gen (sy_control s)"
  have same: "inside s' = inside s" "\<And>g. under s' g = under s g" using assms(4) by (simp_all add: inside_def under_def)
  from assms(2) consider "counts c = counts (sy_control s)"
    | "counts c = (ct_workers (sy_control s), ct_parked (sy_control s), 0, ?g + 1)" by (auto simp: moves_def)
  then show ?thesis
  proof cases
    case 1
    then show ?thesis using assms(1,4,5) same by (auto simp: staffed_def Let_def counts_def)
  next
    case 2
    have u: "unat (?g + 1) = unat ?g + 1"
    proof -
      have "unat ?g + unat (1 :: u64) < 2 ^ 64" using assms(1,3) by (simp add: staffed_def Let_def)
      then have "unat (?g + 1) = unat ?g + unat (1 :: u64)" by (intro unat_add_exact) simp
      then show ?thesis by simp
    qed
    have le: "g \<le> ?g" if "sy_inside s i = Some g" for i g using assms(1) that by (auto simp: staffed_def Let_def)
    have "under s (?g + 1) = {}"
    proof -
      have "sy_inside s i \<noteq> Some (?g + 1)" for i using le [of i "?g + 1"] u by (auto simp: word_le_nat_alt)
      then show ?thesis by (simp add: under_def)
    qed
    moreover have "g \<le> ?g + 1" if "sy_inside s i = Some g" for i g using le [OF that] u by (simp add: word_le_nat_alt)
    moreover have "unat (?g + 1) \<le> Suc N" using u assms(1) by (simp add: staffed_def Let_def)
    ultimately show ?thesis using assms(1,4,5) same 2 by (auto simp: staffed_def Let_def counts_def)
  qed
qed

lemma enter_keeps:
  assumes "staffed n N s" "sound (sy_control s)" "i < n" "sy_inside s i = None" "park_enter (sy_control s) = (gen, c)"
  shows "staffed n (Suc N) (s\<lparr>sy_control := c, sy_inside := (sy_inside s)(i := gen)\<rparr>)" "sound c"
proof -
  let ?c = "sy_control s"
  have "staffed n (Suc N) (s\<lparr>sy_control := c, sy_inside := (sy_inside s)(i := gen)\<rparr>) \<and> sound c"
  proof (cases "ct_shutdown ?c")
    case True
    then have "gen = None" "c = ?c" using assms(5) by (auto simp: park_enter_def)
    moreover have "(sy_inside s)(i := None) = sy_inside s" using assms(4) by auto
    ultimately show ?thesis using assms(1,2) by (auto simp: staffed_def Let_def inside_def under_def)
  next
    case False
    let ?d = "?c\<lparr>ct_parked := ct_parked ?c + 1, ct_parked_gen := ct_parked_gen ?c + 1\<rparr>"
    have g: "gen = Some (ct_park_gen ?c)" "c = snd (settle_locked ?d)" using assms(5) False by (auto simp: park_enter_def)
    have cc: "counts c = counts ?d" by (simp add: g(2))
    let ?s = "s\<lparr>sy_control := c, sy_inside := (sy_inside s)(i := gen)\<rparr>"
    have sets: "inside ?s = insert i (inside s)" "under ?s (ct_park_gen ?c) = insert i (under s (ct_park_gen ?c))"
      using g(1) by (auto simp: inside_def under_def)
    have i: "i \<notin> inside s" "i \<notin> under s (ct_park_gen ?c)" using assms(4) by (simp_all add: inside_def under_def)
    note fin = staffed_finite [OF assms(1)]
    have room: "card (under s (ct_park_gen ?c)) < n"
    proof -
      have "insert i (under s (ct_park_gen ?c)) \<subseteq> {..<n}" using fin(3) assms(1,3) by (auto simp: staffed_def Let_def)
      then have "card (insert i (under s (ct_park_gen ?c))) \<le> n" using card_mono [of "{..<n}"] by fastforce
      then show ?thesis using i(2) fin(2) by simp
    qed
    have "almost_sound ?d"
      using assms(1,2) False room by (auto simp: staffed_def Let_def sound_def almost_sound_def posted_def terms_of_def)
    then have "sound c" using settle_sound g(2) by simp
    moreover have "staffed n (Suc N) ?s"
    proof -
      have k: "ct_workers c = ct_workers ?c" "ct_parked c = ct_parked ?c + 1" "ct_parked_gen c = ct_parked_gen ?c + 1"
        "ct_park_gen c = ct_park_gen ?c" using cc by (simp_all add: counts_def)
      show ?thesis using assms(1,3) g(1) k sets i fin(1,2)
        by (auto simp: staffed_def Let_def split: if_splits)
    qed
    ultimately show ?thesis by simp
  qed
  then show "staffed n (Suc N) (s\<lparr>sy_control := c, sy_inside := (sy_inside s)(i := gen)\<rparr>)" "sound c" by simp_all
qed

lemma leave_keeps:
  assumes "staffed n N s" "sound (sy_control s)" "sy_inside s i = Some gen" "\<not> park_waits gen (sy_control s)"
  shows "staffed n (Suc N) (s\<lparr>sy_control := park_leave gen (sy_control s), sy_inside := (sy_inside s)(i := None)\<rparr>)"
    "sound (park_leave gen (sy_control s))"
proof -
  let ?c = "sy_control s"
  let ?d = "?c\<lparr>ct_parked := ct_parked ?c - 1, ct_parked_gen := (if ct_park_gen ?c = gen then ct_parked_gen ?c - 1 else ct_parked_gen ?c)\<rparr>"
  have e: "park_leave gen ?c = snd (settle_locked ?d)" by (simp add: park_leave_def Let_def)
  have a: "almost_sound ?c" using assms(2) by (simp add: sound_def)
  have held: "\<not> posted ?c \<and> ct_state ?c \<notin> {kPaused, kStopped}" if "ct_park_gen ?c = gen" "\<not> ct_shutdown ?c"
  proof -
    have "\<not> ct_park_requested ?c" using assms(4) that by (simp add: park_waits_def)
    then show ?thesis using running_flags [OF a that(2)] unfolding posted_def by blast
  qed
  have "almost_sound ?d"
  proof (cases "ct_park_gen ?c = gen")
    case True
    show ?thesis using a held [OF True] True by (simp add: almost_sound_def posted_def terms_of_def)
  next
    case False
    then show ?thesis using a by (simp add: almost_sound_def posted_def terms_of_def)
  qed
  then show s: "sound (park_leave gen ?c)" using settle_sound e by simp
  have cc: "counts (park_leave gen ?c) = counts ?d" by (simp add: e)
  let ?s = "s\<lparr>sy_control := park_leave gen ?c, sy_inside := (sy_inside s)(i := None)\<rparr>"
  have sets: "inside ?s = inside s - {i}" "under ?s (ct_park_gen ?c) = under s (ct_park_gen ?c) - {i}"
    by (auto simp: inside_def under_def)
  have i: "i \<in> inside s" "i \<in> under s (ct_park_gen ?c) \<longleftrightarrow> ct_park_gen ?c = gen" using assms(3) by (auto simp: inside_def under_def)
  note fin = staffed_finite [OF assms(1)]
  have cards: "int (card (inside s - {i})) = int (card (inside s)) - 1"
    "int (card (under s (ct_park_gen ?c) - {i})) = int (card (under s (ct_park_gen ?c))) - (if ct_park_gen ?c = gen then 1 else 0)"
    using i fin(1,2) card_Suc_Diff1 [of "inside s" i] card_Suc_Diff1 [of "under s (ct_park_gen ?c)" i] by auto
  have k: "ct_workers (park_leave gen ?c) = ct_workers ?c" "ct_parked (park_leave gen ?c) = ct_parked ?c - 1"
    "ct_parked_gen (park_leave gen ?c) = (if ct_park_gen ?c = gen then ct_parked_gen ?c - 1 else ct_parked_gen ?c)"
    "ct_park_gen (park_leave gen ?c) = ct_park_gen ?c" using cc by (simp_all add: counts_def)
  show "staffed n (Suc N) ?s"
    using assms(1) cards sets k by (auto simp: staffed_def Let_def)
qed

lemma control_step_keeps:
  assumes "control_step opts n s s'" "staffed n N s" "sound (sy_control s)" "Suc N < 2 ^ 64"
  shows "staffed n (Suc N) s'" "sound (sy_control s')"
proof -
  have w: "0 \<le> ct_workers (sy_control s)" using assms(2) by (simp add: staffed_def Let_def)
  have k: "staffed n (Suc N) s' \<and> sound (sy_control s')"
    if "keeps (sy_control s) (sy_control s')" "sy_inside s' = sy_inside s"
    using staffed_moves [OF assms(2) _ assms(4) that(2)] that(1) by (auto simp: keeps_def)
  have "staffed n (Suc N) s' \<and> sound (sy_control s')"
    using assms(1)
  proof cases
    case (enter i gen c)
    then show ?thesis using enter_keeps [OF assms(2,3)] by simp
  next
    case (leave i gen)
    then show ?thesis using leave_keeps [OF assms(2,3)] by simp
  next
    case (ask_state j want wait_ms r c)
    then show ?thesis using k control_request_keeps [OF assms(3) w, of opts want wait_ms] by simp
  next
    case (poll_state j want t r c)
    then show ?thesis using k request_poll_sound [OF assms(3), of opts want t] by (simp add: keeps_def moves_same)
  next
    case (ask_pool j want url user pass wait_ms r c)
    then show ?thesis using k requests_keep(1) [OF assms(3) w, of want opts url user pass wait_ms] by simp
  next
    case (ask_algo j want algo url user pass wait_ms r c)
    then show ?thesis using k requests_keep(2) [OF assms(3) w, of want opts algo url user pass wait_ms] by simp
  next
    case (poll_pool j t r c)
    then show ?thesis using k pool_poll_sound [OF assms(3), of opts t] by (simp add: keeps_def moves_same)
  next
    case status
    then show ?thesis using k status_keeps [OF assms(3)] by simp
  next
    case (failed why)
    then show ?thesis using k switch_failed_keeps [OF assms(3) w] by simp
  next
    case connected
    then show ?thesis using k connected_keeps [OF assms(3)] by simp
  next
    case (take p c)
    then show ?thesis using k take_keeps [OF assms(3)] by simp
  next
    case (refuse p sw why c)
    have r: "pool_refusal sw p (sy_control s) = (Some why, c)" by fact
    have c: "sound c" "counts c = counts (sy_control s)" using refusal_keeps [OF r] assms(3) by simp_all
    have "keeps (sy_control s) (pool_refuse why c)"
      using refuse_keeps [OF c(1) refusal_nonempty [OF r]] moves_after [OF c(2)] by (simp add: keeps_def)
    then show ?thesis using k refuse(1) by simp
  next
    case (accept p sw c)
    have r: "pool_refusal sw p (sy_control s) = (None, c)" by fact
    have c: "sound c" "counts c = counts (sy_control s)" using refusal_keeps [OF r] assms(3) by simp_all
    have "keeps (sy_control s) (pool_install p c)"
      using install_keeps [OF c(1)] moves_after [OF c(2)] by (simp add: keeps_def)
    then show ?thesis using k accept(1) by simp
  next
    case release
    then show ?thesis using k release_keeps [OF assms(3)] by simp
  qed
  then show "staffed n (Suc N) s'" "sound (sy_control s')" by simp_all
qed

lemma control_reach_sound:
  assumes "control_reach opts n N s" "N < 2 ^ 64"
  shows "staffed n N s" "sound (sy_control s)"
proof -
  have "staffed n N s \<and> sound (sy_control s)"
    using assms
  proof induction
    case (starts hook algo url clock)
    show ?case
      by (simp add: system_new_def control_new_def staffed_def inside_def under_def sound_def almost_sound_def terms_of_def posted_def Let_def)
  next
    case (steps N s s')
    then show ?case using control_step_keeps [of opts n s s' N] by simp
  qed
  then show "staffed n N s" "sound (sy_control s)" by simp_all
qed

end
