(* ===== verification/Control_Properties.thy ===== *)
theory Control_Properties
  imports Control_Steps
begin

text \<open>
  What the control promises those who use it: the workers are in while something is done behind their
  backs, a miner that reads paused is, and nothing a manager asks for stays unanswered.
\<close>

lemma everyone_under:
  assumes "staffed n N s" "ct_parked_gen (sy_control s) = ct_workers (sy_control s)" "i < n"
  shows "sy_inside s i = Some (ct_park_gen (sy_control s))"
proof -
  let ?g = "ct_park_gen (sy_control s)"
  have "card (under s ?g) = card {..<n}" using assms(1,2) by (simp add: staffed_def Let_def)
  moreover have "under s ?g \<subseteq> {..<n}" using staffed_finite(3) [OF assms(1), of ?g] assms(1) by (auto simp: staffed_def Let_def)
  ultimately have "under s ?g = {..<n}" by (simp add: card_subset_eq)
  then show ?thesis using assms(3) by (auto simp: under_def)
qed

text \<open>
  Claim C9. The barrier holds until a change is answered or its time is over. While a change of pool or
  algorithm is posted or taken and its \<^verbatim>\<open>pool_switch\<close> flag is still up, which the outcome clears and so
  does a look at the status after the deadline, and the run is not ending, every worker is in
  \<^verbatim>\<open>control_park\<close> under the generation of that change, and none of them is let out: whatever clients
  ask for meanwhile, in whatever order the threads run. Past its deadline a change the Stratum thread is
  still working on has no barrier.
\<close>

theorem barrier_holds:
  assumes "control_reach opts n N s" "N < 2 ^ 64" "\<not> ct_shutdown (sy_control s)"
    and "ct_pool_switch (sy_control s)" "pr_pending (ct_pool (sy_control s)) \<or> pr_applied (ct_pool (sy_control s))"
    and "i < n"
  shows "\<exists>gen. sy_inside s i = Some gen \<and> park_waits gen (sy_control s)"
proof -
  let ?c = "sy_control s"
  note r = control_reach_sound [OF assms(1,2)]
  have a: "almost_sound ?c" using r(2) by (simp add: sound_def)
  have "posted ?c" using assms(4,5) by (simp add: posted_def)
  then have "ct_parked_gen ?c = ct_workers ?c" using a assms(3) unfolding almost_sound_def by blast
  from everyone_under [OF r(1) this assms(6)] show ?thesis
    using running_flags(1) [OF a assms(3,4)] assms(3) by (simp add: park_waits_def)
qed

text \<open>
  Claim C10. Paused is paused. Where the state reads paused or stopped and no error is reported, every
  worker is in \<^verbatim>\<open>control_park\<close> and stays there until the next change: however the change that landed there
  was asked for, and whatever was asked for and undone before it.
\<close>

theorem paused_is_paused:
  assumes "control_reach opts n N s" "N < 2 ^ 64" "\<not> ct_shutdown (sy_control s)"
    and "ct_state (sy_control s) \<in> {kPaused, kStopped}" "ct_last_error (sy_control s) = []" "i < n"
  shows "\<exists>gen. sy_inside s i = Some gen \<and> park_waits gen (sy_control s)"
proof -
  let ?c = "sy_control s"
  note r = control_reach_sound [OF assms(1,2)]
  have a: "almost_sound ?c" using r(2) by (simp add: sound_def)
  then have "ct_parked_gen ?c = ct_workers ?c" using assms(3-5) unfolding almost_sound_def by blast
  from everyone_under [OF r(1) this assms(6)] show ?thesis
    using running_flags(2) [OF a assms(3,4)] assms(3) by (simp add: park_waits_def)
qed

lemma commit_state: "ct_state (commit_locked c) = ct_pending c"
  by (simp add: commit_locked_def control_ops)

text \<open>An attempt to settle that commits nothing takes no time.\<close>

lemma settle_cases:
  assumes "almost_sound c" "settle_locked c = (settled, c')"
  shows "settled \<and> ct_state c' \<noteq> kSwitching \<or>
    \<not> settled \<and> ct_state c' = ct_state c \<and> ct_reads c' = ct_reads c \<and> ct_clock c' = ct_clock c \<and> ct_deadline c' = ct_deadline c"
proof -
  have "ct_pending c \<noteq> kSwitching" using assms(1) by (simp add: almost_sound_def)
  then show ?thesis
    using assms(2) by (auto simp: settle_locked_def settle_ready_def commit_state Let_def split: if_splits)
qed

lemma expire_lands:
  assumes "sound c" "ct_state c = kSwitching \<longrightarrow> ct_deadline c \<le> ct_clock c (ct_reads c)"
  shows "ct_state (expire_locked opts c) \<noteq> kSwitching"
proof (cases "ct_state c = kSwitching")
  case True
  have p: "ct_pending c \<noteq> kSwitching" "ct_previous c \<noteq> kSwitching" using assms(1) by (simp_all add: sound_def almost_sound_def)
  have r: "ct_state (rollback_locked why (c\<lparr>ct_reads := x\<rparr>)) = ct_previous c" for why x
    by (simp add: rollback_locked_def control_ops)
  have s: "ct_state (snd (settle_locked (c\<lparr>ct_reads := x, ct_pool := (ct_pool c)\<lparr>pr_done := True, pr_ok := False\<rparr>\<rparr>))) = ct_pending c"
    if "ct_pool_switch c" "pr_applied (ct_pool c)" for x
    using that True by (simp add: settle_locked_def settle_ready_def commit_state Let_def)
  show ?thesis using p r s True assms(2) by (simp add: expire_locked_def read_clock_def Let_def)
qed (simp add: expire_locked_def)

lemma status_frame:
  "\<exists>x. snd (control_status opts c) = (expire_locked opts (snd (settle_locked c)))\<lparr>ct_reads := x\<rparr>"
  "st_state (fst (control_status opts c)) = ct_state (expire_locked opts (snd (settle_locked c)))"
proof -
  let ?d = "expire_locked opts (snd (settle_locked c))"
  have r: "\<exists>x. snd (retry_after_s_locked opts e) = e\<lparr>ct_reads := x\<rparr>" for e
    by (auto simp: retry_after_s_locked_def read_clock_def Let_def intro: exI [of _ "ct_reads e"])
  from r [of "?d\<lparr>ct_reads := Suc (ct_reads ?d)\<rparr>"] obtain retry x where
    e: "retry_after_s_locked opts (?d\<lparr>ct_reads := Suc (ct_reads ?d)\<rparr>) = (retry, ?d\<lparr>ct_reads := x\<rparr>)"
    by (cases "retry_after_s_locked opts (?d\<lparr>ct_reads := Suc (ct_reads ?d)\<rparr>)") auto
  show "\<exists>x. snd (control_status opts c) = ?d\<lparr>ct_reads := x\<rparr>" "st_state (fst (control_status opts c)) = ct_state ?d"
    by (auto simp: control_status_def read_clock_def e Let_def split: prod.splits)
qed

text \<open>
  Claim C11. No change hangs. Once the time a change was given is over, the next look at the status finds
  it landed or undone, never in flight, whatever state the workers, the pool and the Stratum thread are
  in; and where it finds the miner running, no worker is held.
\<close>

theorem no_change_hangs:
  assumes "control_reach opts n N s" "N < 2 ^ 64"
    and "\<And>k. ct_reads (sy_control s) \<le> k \<Longrightarrow> ct_deadline (sy_control s) \<le> ct_clock (sy_control s) k"
    and "control_status opts (sy_control s) = (st, c)"
  shows "st_state st \<noteq> kSwitching \<and> (st_state st = kRunning \<longrightarrow> (\<forall>gen. \<not> park_waits gen c))"
proof -
  let ?c = "sy_control s"
  have so: "sound ?c" using control_reach_sound [OF assms(1,2)] by simp
  then have a: "almost_sound ?c" by (simp add: sound_def)
  obtain b d where d: "settle_locked ?c = (b, d)" by (metis surj_pair)
  have sd: "sound d" using settle_sound [OF a] d by simp
  have "ct_state d = kSwitching \<longrightarrow> ct_deadline d \<le> ct_clock d (ct_reads d)"
    using settle_cases [OF a d] assms(3) by auto
  from expire_lands [OF sd this] have l: "ct_state (expire_locked opts d) \<noteq> kSwitching" .
  obtain x where x: "c = (expire_locked opts d)\<lparr>ct_reads := x\<rparr>" "st_state st = ct_state (expire_locked opts d)"
    using status_frame [of opts ?c] assms(4) d by auto
  have "almost_sound c" using expire_sound [OF sd, of opts] x(1) by (simp add: sound_def)
  then have "\<not> park_waits gen c" if "st_state st = kRunning" for gen
    using running_flags(3) [of c] that x by (auto simp: park_waits_def)
  then show ?thesis using l x(2) by simp
qed

text \<open>
  Claim C12. The last worker lands the change. A pause or a stop in flight has landed, once, as soon as
  every worker is in under its generation, whoever was waiting for it; so has a resume as soon as
  nobody is in.
\<close>

theorem last_worker_lands:
  assumes "control_reach opts n N s" "N < 2 ^ 64" "ct_state (sy_control s) = kSwitching" "\<not> ct_pool_switch (sy_control s)"
    and "control_step opts n s s'" "sy_inside s' \<noteq> sy_inside s"
    and "if ct_pending (sy_control s) = kRunning then inside s' = {}
         else \<forall>i < n. sy_inside s' i = Some (ct_park_gen (sy_control s))"
  shows "ct_state (sy_control s') = ct_pending (sy_control s) \<and> ct_epoch (sy_control s') = ct_epoch (sy_control s) + 1"
proof -
  let ?c = "sy_control s"
  note r = control_reach_sound [OF assms(1,2)]
  have lands: "ct_state (commit_locked d) = ct_pending d" "ct_epoch (commit_locked d) = ct_epoch d + 1" for d
    by (simp_all add: commit_locked_def control_ops)
  show ?thesis
    using assms(5)
  proof cases
    case (enter j gen c)
    note k = enter_keeps [OF r enter(2-4)]
    have "\<not> ct_shutdown ?c" using enter(1,3,4) assms(6) by (auto simp: park_enter_def)
    define d where "d = ?c\<lparr>ct_parked := ct_parked ?c + 1, ct_parked_gen := ct_parked_gen ?c + 1\<rparr>"
    have g: "gen = Some (ct_park_gen ?c)" "c = snd (settle_locked d)"
      using enter(4) \<open>\<not> ct_shutdown ?c\<close> by (auto simp: park_enter_def d_def)
    have "j \<in> inside s'" using enter(1) g(1) by (simp add: inside_def)
    then have all: "ct_pending ?c \<noteq> kRunning" "\<And>i. i < n \<Longrightarrow> sy_inside s' i = Some (ct_park_gen ?c)"
      using assms(7) by (auto split: if_splits)
    have cc: "counts c = counts d" by (simp add: g(2))
    have "under s' (ct_park_gen ?c) = {..<n}"
    proof -
      have "under s' (ct_park_gen ?c) \<subseteq> {..<n}"
        using staffed_finite(3) [OF k(1), of "ct_park_gen ?c"] k(1) enter(1) by (auto simp: staffed_def Let_def)
      then show ?thesis using all(2) by (auto simp: under_def)
    qed
    then have "ct_parked_gen c = ct_workers c" using k(1) enter(1) cc by (simp add: staffed_def Let_def counts_def d_def)
    then have "all_parked_locked d" using cc by (simp add: counts_def all_parked_locked_def)
    then have "c = commit_locked d"
      using assms(3,4) all(1) by (simp add: g(2) settle_locked_def settle_ready_def landed_locked_def d_def)
    then show ?thesis using enter(1) by (simp add: lands d_def)
  next
    case (leave j gen)
    note k = leave_keeps [OF r leave(2,3)]
    define d where "d = ?c\<lparr>ct_parked := ct_parked ?c - 1, ct_parked_gen := (if ct_park_gen ?c = gen then ct_parked_gen ?c - 1 else ct_parked_gen ?c)\<rparr>"
    have e: "park_leave gen ?c = snd (settle_locked d)" by (simp add: park_leave_def d_def Let_def)
    have "j < n" using leave(2) r(1) by (auto simp: staffed_def inside_def Let_def)
    then have none: "ct_pending ?c = kRunning" "inside s' = {}"
      using assms(7) leave(1) by (auto split: if_splits)
    have cc: "counts (park_leave gen ?c) = counts d" by (simp add: e)
    have "ct_parked d = 0" using k(1) none(2) leave(1) cc by (simp add: staffed_def Let_def counts_def)
    then have "park_leave gen ?c = commit_locked d"
      using assms(3,4) none(1) by (simp add: e settle_locked_def settle_ready_def landed_locked_def d_def)
    then show ?thesis using leave(1) by (simp add: lands d_def)
  qed (use assms(6) in simp_all)
qed

section \<open>A run\<close>

text \<open>
  One worker, a switch to another algorithm whose hook takes longer than the time the change was given,
  and a pause asked for meanwhile.
\<close>

definition example_control_options :: control_options where
  "example_control_options = \<lparr>co_api_control = True, co_park_timeout = 30000, co_min_interval = 0, co_have_stratum = True\<rparr>"

definition example_clock :: "nat \<Rightarrow> int" where "example_clock k = (if k < 6 then 0 else 1000000000000)"

definition example_change :: pool_change where
  "example_change = \<lparr>pc_url = ''stratum+tcp://b'', pc_user = [], pc_pass = [], pc_algo = ''kawpow'', pc_hook = True\<rparr>"

definition example_refusal :: switch_answers where
  "example_refusal = \<lparr>sw_exists = True, sw_devices = [0], sw_refuses = \<lambda>d. None, sw_backend = ''vulkan'', sw_self_test = False\<rparr>"

definition example_start :: control where
  "example_start = control_new 1 True (Some ''sha256d'') (Some ''stratum+tcp://a'') example_clock"

definition example_request :: PoolRequest where
  "example_request = \<lparr>pr_url = ''stratum+tcp://b'', pr_user = [], pr_pass = [], pr_algo = ''kawpow'', pr_pending = False,
     pr_applied = False, pr_done = False, pr_ok = False, pr_refused = False\<rparr>"

text \<open>The change asked for; its worker in; taken by the Stratum thread; looked at too late; its worker out; a pause asked for.\<close>

definition example_asked :: control where
  "example_asked = example_start\<lparr>ct_park_requested := True, ct_retain_shared := True, ct_state := kSwitching, ct_mutating := True,
     ct_park_gen := 1, ct_deadline := 30000000000, ct_state_since := 0, ct_ever_switched := True, ct_pool := example_request,
     ct_pool_switch := True, ct_prev_algo := ''sha256d'', ct_prev_url := ''stratum+tcp://a'', ct_can_restore := True, ct_reads := 6\<rparr>"

definition example_in :: control where
  "example_in = example_asked\<lparr>ct_parked := 1, ct_parked_gen := 1, ct_in_flight := True, ct_pool := example_request\<lparr>pr_pending := True\<rparr>\<rparr>"

definition example_taken :: control where
  "example_taken = example_in\<lparr>ct_pool := example_request\<lparr>pr_applied := True\<rparr>\<rparr>"

definition example_late :: control where
  "example_late = example_taken\<lparr>ct_park_requested := False, ct_retain_shared := False, ct_state := kRunning, ct_mutating := False,
     ct_epoch := 1, ct_switches := 1, ct_last_error := pool_not_answered example_control_options, ct_state_since := 1000000000000,
     ct_pool := example_request\<lparr>pr_applied := True, pr_done := True\<rparr>, ct_pool_switch := False, ct_in_flight := False, ct_reads := 8\<rparr>"

definition example_out :: control where
  "example_out = example_late\<lparr>ct_parked := 0, ct_parked_gen := 0, ct_reads := 10\<rparr>"

definition example_paused :: control where
  "example_paused = example_out\<lparr>ct_park_requested := True, ct_retain_shared := True, ct_state := kSwitching, ct_pending := kPaused,
     ct_mutating := True, ct_last_error := [], ct_park_gen := 2, ct_deadline := 1030000000000, ct_state_since := 1000000000000, ct_reads := 14\<rparr>"

definition example_landed :: control where
  "example_landed = example_paused\<lparr>ct_state := kPaused, ct_mutating := False, ct_epoch := 2, ct_switches := 2, ct_parked := 1,
     ct_parked_gen := 1, ct_state_since := 1000000000000, ct_reads := 15\<rparr>"

lemmas example_points = example_start_def control_new_def example_asked_def example_in_def example_taken_def example_late_def
  example_out_def example_paused_def example_landed_def example_request_def example_control_options_def example_clock_def

lemma example_url: "pool_url_usable example_control_options ''stratum+tcp://b'' = None"
  by code_simp

lemma example_ask:
  "control_algo_request example_control_options ''kawpow'' ''stratum+tcp://b'' [] [] 1 None example_start = (Waiting 1000000, example_asked)"
proof -
  let ?o = example_control_options
  have a: "settle_locked example_start = (False, example_start)" "expire_locked ?o example_start = example_start"
    "\<not> ct_mutating example_start" "retry_after_s_locked ?o example_start = (0, example_start)"
    by (simp_all add: settle_locked_def expire_locked_def retry_after_s_locked_def example_start_def control_new_def)
  define p where "p = example_asked\<lparr>ct_reads := 4\<rparr>"
  have b: "post_pool_locked ?o ''stratum+tcp://b'' [] [] ''kawpow'' False None example_start = p"
    by (simp add: post_pool_locked_def control_ops text_of_def park_timeout_ms_def p_def example_points)
  have c: "answer_by 1 p = (1000000, example_asked\<lparr>ct_reads := 5\<rparr>)"
    by (simp add: answer_by_def read_clock_def p_def example_points)
  have d: "keeps_waiting 1000000 (example_asked\<lparr>ct_reads := 5\<rparr>) = (True, example_asked)"
    by (simp add: keeps_waiting_def settle_locked_def settle_ready_def all_parked_locked_def read_clock_def example_points)
  have "switch_request ?o kind ''kawpow'' ''stratum+tcp://b'' [] [] 1 None example_start = (Waiting 1000000, example_asked)" for kind
    by (simp add: switch_request_def a b c d pool_poll_def Let_def)
  then show ?thesis using example_url by (simp add: control_algo_request_def) (simp add: example_control_options_def)
qed

lemma example_enter: "park_enter example_asked = (Some 1, example_in)"
  by (simp add: park_enter_def settle_locked_def settle_ready_def all_parked_locked_def example_points Let_def)

lemma example_take: "pool_take example_in = (Some example_change, example_taken)"
  by (simp add: pool_take_def example_change_def example_points)

lemma example_status: "snd (control_status example_control_options example_taken) = example_late\<lparr>ct_reads := 10\<rparr>"
proof -
  let ?o = example_control_options
  have a: "settle_locked example_taken = (False, example_taken)"
    by (simp add: settle_locked_def settle_ready_def all_parked_locked_def example_points Let_def)
  define d where "d = example_taken\<lparr>ct_reads := 7, ct_pool := example_request\<lparr>pr_applied := True, pr_done := True\<rparr>\<rparr>"
  have "snd (settle_locked d) = example_late\<lparr>ct_last_error := []\<rparr>"
    by (simp add: settle_locked_def settle_ready_def commit_locked_def control_ops d_def example_points)
  moreover have "ct_state example_taken = kSwitching" "ct_reads example_taken = 6" "ct_clock example_taken 6 = 1000000000000"
    "ct_deadline example_taken = 30000000000" "ct_pool_switch example_taken" "pr_applied (ct_pool example_taken)"
    "ct_pool example_taken = example_request\<lparr>pr_applied := True\<rparr>"
    by (simp_all add: example_points)
  moreover have "example_taken\<lparr>ct_reads := 7, ct_pool := example_request\<lparr>pr_applied := True, pr_done := True, pr_ok := False\<rparr>\<rparr> = d"
    by (simp add: d_def) (simp add: example_request_def)
  moreover have "example_late\<lparr>ct_last_error := pool_not_answered ?o\<rparr> = example_late" by (simp add: example_late_def)
  ultimately have e: "expire_locked ?o example_taken = example_late"
    by (simp add: expire_locked_def read_clock_def)
  have r: "retry_after_s_locked ?o c = (0, c)" for c
    by (simp add: retry_after_s_locked_def min_interval_s_def example_control_options_def)
  have "ct_reads example_late = 8" "ct_ever_switched example_late" by (simp_all add: example_points)
  then show ?thesis
    unfolding control_status_def a snd_conv e Let_def read_clock_def by (simp add: r)
qed

lemma example_leave: "park_leave 1 (example_late\<lparr>ct_reads := 10\<rparr>) = example_out" "\<not> park_waits 1 (example_late\<lparr>ct_reads := 10\<rparr>)"
  by (simp_all add: park_leave_def park_waits_def settle_locked_def example_points Let_def)

lemma example_pause: "control_request example_control_options kPaused 1 example_out = (Waiting 1000001000000, example_paused)"
proof -
  let ?o = example_control_options
  have a: "settle_locked example_out = (False, example_out)" "expire_locked ?o example_out = example_out" "\<not> ct_mutating example_out"
    "ct_state example_out = kRunning"
    by (simp_all add: settle_locked_def expire_locked_def example_points)
  have b: "begin_change ?o kPaused example_out = example_paused\<lparr>ct_reads := 12\<rparr>"
    by (simp add: begin_change_def control_ops park_timeout_ms_def example_points)
  have c: "answer_by 1 (example_paused\<lparr>ct_reads := 12\<rparr>) = (1000001000000, example_paused\<lparr>ct_reads := 13\<rparr>)"
    by (simp add: answer_by_def read_clock_def example_points)
  have d: "keeps_waiting 1000001000000 (example_paused\<lparr>ct_reads := 13\<rparr>) = (True, example_paused)"
    by (simp add: keeps_waiting_def settle_locked_def settle_ready_def landed_locked_def all_parked_locked_def read_clock_def example_points)
  show ?thesis
    by (simp add: control_request_def a b c request_poll_def d) (simp add: example_control_options_def)
qed

lemma example_land: "park_enter example_paused = (Some 2, example_landed)"
  by (simp add: park_enter_def settle_locked_def settle_ready_def landed_locked_def all_parked_locked_def commit_locked_def control_ops
    example_points)

lemma example_refused:
  "pool_refusal example_refusal example_change c = (Some (CHR 0x27 # ''kawpow'' @ CHR 0x27 # '' fails its self-test on this build, so its shares would be rejected''), c)"
  by (simp add: pool_refusal_def switch_algorithm_def example_refusal_def example_change_def)

lemma example_rolled_back: "(ct_state (pool_refuse why example_paused), ct_mutating (pool_refuse why example_paused)) = (kRunning, False)"
  by (simp add: pool_refuse_def rollback_locked_def control_ops) (simp add: example_points)

text \<open>The run: the change asked for, its worker in, taken, looked at too late, the worker out, a pause asked for, the worker in.\<close>

definition example_point :: "control \<Rightarrow> u64 option \<Rightarrow> client \<Rightarrow> client \<Rightarrow> pool_change option \<Rightarrow> system" where
  "example_point c worker asker pauser far =
     \<lparr>sy_control = c, sy_inside = (\<lambda>i. if i = 0 then worker else None),
      sy_client = (\<lambda>j. if j = 0 then asker else if j = 1 then pauser else Idle), sy_far = far\<rparr>"

abbreviation example_at_in :: system where "example_at_in \<equiv> example_point example_in (Some 1) (AsksPool 1000000) Idle None"
abbreviation example_at_taken :: system where
  "example_at_taken \<equiv> example_point example_taken (Some 1) (AsksPool 1000000) Idle (Some example_change)"
abbreviation example_at_out :: system where
  "example_at_out \<equiv> example_point example_out None (AsksPool 1000000) Idle (Some example_change)"
abbreviation example_at_pause :: system where
  "example_at_pause \<equiv> example_point example_paused None (AsksPool 1000000) (AsksState kPaused 1000001000000) (Some example_change)"
abbreviation example_at_landed :: system where
  "example_at_landed \<equiv> example_point example_landed (Some 2) (AsksPool 1000000) (AsksState kPaused 1000001000000) (Some example_change)"

lemma example_first: "system_new 1 True (Some ''sha256d'') (Some ''stratum+tcp://a'') example_clock = example_point example_start None Idle Idle None"
  by (auto simp: system_new_def example_point_def example_start_def fun_eq_iff)

lemma point_change:
  "(example_point c w a p f)\<lparr>sy_control := c'\<rparr> = example_point c' w a p f"
  "(example_point c w a p f)\<lparr>sy_far := f'\<rparr> = example_point c w a p f'"
  "(example_point c w a p f)\<lparr>sy_inside := (sy_inside (example_point d v a p f))(0 := w')\<rparr> = example_point c w' a p f"
  "(example_point c w a p f)\<lparr>sy_client := (sy_client (example_point d v a p f))(0 := a')\<rparr> = example_point c w a' p f"
  "(example_point c w a p f)\<lparr>sy_client := (sy_client (example_point d v a p f))(Suc 0 := p')\<rparr> = example_point c w a p' f"
  by (auto simp: example_point_def fun_eq_iff)

lemma point_parts [simp]:
  "sy_control (example_point c w a p f) = c" "sy_far (example_point c w a p f) = f" "sy_inside (example_point c w a p f) 0 = w"
  "sy_client (example_point c w a p f) 0 = a" "sy_client (example_point c w a p f) (Suc 0) = p"
  "inside (example_point c None a p f) = {}"
  by (simp_all add: example_point_def inside_def)

lemma example_steps:
  "control_step example_control_options 1 (example_point example_start None Idle Idle None)
     (example_point example_asked None (AsksPool 1000000) Idle None)"
  "control_step example_control_options 1 (example_point example_asked None (AsksPool 1000000) Idle None) example_at_in"
  "control_step example_control_options 1 example_at_in example_at_taken"
  "control_step example_control_options 1 example_at_taken
     (example_point (example_late\<lparr>ct_reads := 10\<rparr>) (Some 1) (AsksPool 1000000) Idle (Some example_change))"
  "control_step example_control_options 1
     (example_point (example_late\<lparr>ct_reads := 10\<rparr>) (Some 1) (AsksPool 1000000) Idle (Some example_change)) example_at_out"
  "control_step example_control_options 1 example_at_out example_at_pause"
  "control_step example_control_options 1 example_at_pause example_at_landed"
proof -
  let ?o = example_control_options
  let ?asked = "example_point example_asked None (AsksPool 1000000) Idle None"
  let ?late = "example_point (example_late\<lparr>ct_reads := 10\<rparr>) (Some 1) (AsksPool 1000000) Idle (Some example_change)"
  show "control_step ?o 1 (example_point example_start None Idle Idle None) ?asked"
    using ask_algo [of "example_point example_start None Idle Idle None" 0 None ?o "''kawpow''" "''stratum+tcp://b''" "[]" "[]" 1 "Waiting 1000000"]
    by (simp add: example_ask point_change)
  show "control_step ?o 1 ?asked example_at_in" using enter [of 0 1 ?asked] example_enter by (simp add: point_change)
  show "control_step ?o 1 example_at_in example_at_taken" using take [of example_at_in] example_take by (simp add: point_change)
  show "control_step ?o 1 example_at_taken ?late" using status [of ?o 1 example_at_taken] by (simp add: example_status point_change)
  show "control_step ?o 1 ?late example_at_out" using leave [of ?late 0] example_leave by (simp add: point_change)
  show "control_step ?o 1 example_at_out example_at_pause" using ask_state [of example_at_out 1 ?o kPaused 1 "Waiting 1000001000000"] by (simp add: example_pause point_change)
  show "control_step ?o 1 example_at_pause example_at_landed" using enter [of 0 1 example_at_pause] example_land by (simp add: point_change)
qed

lemma example_reach:
  "control_reach example_control_options 1 2 example_at_in" "control_reach example_control_options 1 3 example_at_taken"
  "control_reach example_control_options 1 5 example_at_out" "control_reach example_control_options 1 6 example_at_pause"
  "control_reach example_control_options 1 7 example_at_landed"
proof -
  note s = steps [OF _ example_steps(1)] steps [OF _ example_steps(2)] steps [OF _ example_steps(3)] steps [OF _ example_steps(4)]
    steps [OF _ example_steps(5)] steps [OF _ example_steps(6)] steps [OF _ example_steps(7)]
  have "control_reach example_control_options 1 0 (example_point example_start None Idle Idle None)"
    unfolding example_first [symmetric] by (rule starts)
  note r2 = s(2) [OF s(1) [OF this]]
  note r5 = s(5) [OF s(4) [OF s(3) [OF r2]]]
  show "control_reach example_control_options 1 2 example_at_in" "control_reach example_control_options 1 3 example_at_taken"
    "control_reach example_control_options 1 5 example_at_out" "control_reach example_control_options 1 6 example_at_pause"
    "control_reach example_control_options 1 7 example_at_landed"
    using r2 s(3) [OF r2] r5 s(6) [OF r5] s(7) [OF s(6) [OF r5]] by (simp_all add: numeral_eq_Suc)
qed

lemma barrier_holds_witness: "\<exists>gen. sy_inside example_at_taken 0 = Some gen \<and> park_waits gen example_taken"
  using barrier_holds [OF example_reach(2)] by (simp add: example_points)

lemma paused_is_paused_witness: "\<exists>gen. sy_inside example_at_landed 0 = Some gen \<and> park_waits gen example_landed"
  using paused_is_paused [OF example_reach(5)] by (simp add: example_points)

lemma no_change_hangs_witness:
  "st_state (fst (control_status example_control_options example_taken)) \<noteq> kSwitching"
proof -
  have "ct_deadline example_taken \<le> ct_clock example_taken k" if "ct_reads example_taken \<le> k" for k
    using that by (simp add: example_points)
  then show ?thesis
    using no_change_hangs [OF example_reach(2), of "fst (control_status example_control_options example_taken)"
      "snd (control_status example_control_options example_taken)"] by simp
qed

lemma last_worker_lands_witness: "ct_state example_landed = kPaused \<and> ct_epoch example_landed = ct_epoch example_paused + 1"
proof -
  have "ct_state example_paused = kSwitching" "\<not> ct_pool_switch example_paused" "ct_pending example_paused = kPaused"
    "ct_park_gen example_paused = 2"
    by (simp_all add: example_points)
  moreover have "sy_inside example_at_landed \<noteq> sy_inside example_at_pause" by (simp add: example_point_def fun_eq_iff)
  ultimately show ?thesis
    using last_worker_lands [OF example_reach(4) _ _ _ example_steps(7)] by simp
qed

text \<open>
  Claim C13. A switch that takes too long is not behind the barrier. There is a run in which the Stratum
  thread is still between taking a change and its outcome, the worker that was parked for it has been let
  out and the miner reads running; and in which that thread, its switch then refused, undoes a pause that
  somebody else asked for meanwhile.
\<close>

theorem slow_switch_unguarded:
  "\<exists>s t u. control_reach example_control_options 1 5 s \<and> sy_far s \<noteq> None \<and> ct_state (sy_control s) = kRunning \<and>
     \<not> ct_shutdown (sy_control s) \<and> inside s = {} \<and>
     control_step example_control_options 1 s t \<and> sy_client t 1 = AsksState kPaused 1000001000000 \<and> ct_state (sy_control t) = kSwitching \<and>
     control_step example_control_options 1 t u \<and> sy_far u = None \<and> ct_state (sy_control u) = kRunning \<and> \<not> ct_mutating (sy_control u)"
proof -
  let ?why = "CHR 0x27 # ''kawpow'' @ CHR 0x27 # '' fails its self-test on this build, so its shares would be rejected''"
  define u where "u = example_at_pause\<lparr>sy_control := pool_refuse ?why example_paused, sy_far := None\<rparr>"
  have "control_step example_control_options 1 example_at_pause u"
    using refuse [of example_at_pause example_change example_refusal ?why example_paused] by (simp add: u_def example_refused)
  moreover have "ct_state example_out = kRunning" "\<not> ct_shutdown example_out" "ct_state example_paused = kSwitching"
    by (simp_all add: example_points)
  moreover have "sy_far u = None" "ct_state (sy_control u) = kRunning" "\<not> ct_mutating (sy_control u)"
    using example_rolled_back by (simp_all add: u_def)
  ultimately show ?thesis
    using example_reach(3) example_steps(6) by (intro exI [of _ example_at_out] exI [of _ example_at_pause] exI [of _ u]) simp
qed

end
