(* ===== verification/Json.thy ===== *)
theory Json
  imports Complex_Main Prelude
begin

text \<open>
  JSON values as the functions of \<^verbatim>\<open>compat/jansson\<close> hand them out: a value that may be null is an
  option, and asking a value for what it is not is answered with the null or the zero of that kind.
  The parser and the printer are arguments wherever they are called: the build takes them from the
  system's library where it has one.
\<close>

datatype json =
    JNull
  | JTrue
  | JFalse
  | JInteger int
  | JReal rat
  | JString string
  | JArray "json list"
  | JObject "(string \<times> json) list"

fun json_array_get :: "json option \<Rightarrow> nat \<Rightarrow> json option" where
  "json_array_get (Some (JArray xs)) i = (if i < length xs then Some (xs ! i) else None)"
| "json_array_get _ i = None"

fun json_array_size :: "json option \<Rightarrow> nat" where
  "json_array_size (Some (JArray xs)) = length xs"
| "json_array_size _ = 0"

fun json_object_get :: "json option \<Rightarrow> string \<Rightarrow> json option" where
  "json_object_get (Some (JObject fs)) key = map_of fs key"
| "json_object_get _ key = None"

fun json_string_value :: "json option \<Rightarrow> string option" where
  "json_string_value (Some (JString s)) = Some s"
| "json_string_value _ = None"

fun json_integer_value :: "json option \<Rightarrow> int" where
  "json_integer_value (Some (JInteger n)) = n"
| "json_integer_value _ = 0"

fun json_number_value :: "json option \<Rightarrow> rat" where
  "json_number_value (Some (JInteger n)) = of_int n"
| "json_number_value (Some (JReal r)) = r"
| "json_number_value _ = 0"

fun json_is_array :: "json option \<Rightarrow> bool" where
  "json_is_array (Some (JArray xs)) = True"
| "json_is_array _ = False"

fun json_is_integer :: "json option \<Rightarrow> bool" where
  "json_is_integer (Some (JInteger n)) = True"
| "json_is_integer _ = False"

fun json_is_string :: "json option \<Rightarrow> bool" where
  "json_is_string (Some (JString s)) = True"
| "json_is_string _ = False"

definition json_is_true :: "json option \<Rightarrow> bool" where "json_is_true v \<longleftrightarrow> v = Some JTrue"
definition json_is_false :: "json option \<Rightarrow> bool" where "json_is_false v \<longleftrightarrow> v = Some JFalse"
definition json_is_null :: "json option \<Rightarrow> bool" where "json_is_null v \<longleftrightarrow> v = Some JNull"

lemma json_string_value_Some: "json_string_value v = Some s \<longleftrightarrow> v = Some (JString s)"
  by (cases v rule: json_string_value.cases) auto

lemma json_array_get_Some: "json_array_get v i = Some x \<longleftrightarrow> (\<exists>xs. v = Some (JArray xs) \<and> i < length xs \<and> x = xs ! i)"
  by (cases "(v, i)" rule: json_array_get.cases) auto

end
