(* ===== verification/Stratum_Line.thy ===== *)
theory Stratum_Line
  imports Prelude
begin

text \<open>
  The lines of a Stratum connection: \<^verbatim>\<open>send_line\<close>, \<^verbatim>\<open>stratum_recv_line\<close> and the buffer between reads, of
  \<^verbatim>\<open>src/stratum/stratum.c\<close>. What the socket answers, and when, is a list of the answers to come; a
  function that waits for more than the list holds has no value yet.
\<close>

section \<open>The connection\<close>

text \<open>
  One answer of a read, and the seconds since the call began as the test after it reads them: bytes, up
  to the first zero; the peer gone; nothing there, with whether a second's wait found something and the
  time then; an error.
\<close>

datatype net_read = Received string | Closed | Again bool int | Broken

text \<open>One round of a send: the socket not writable, some bytes taken, nothing taken now, an error.\<close>

datatype net_write = Unwritable | Took nat | Blocked | WriteBroken

record connection =
  cn_url :: string
  cn_curl :: bool
  cn_sockbuf :: string
  cn_waits :: "bool list"
  cn_reads :: "(net_read \<times> int) list"
  cn_writes :: "net_write list"
  cn_wire :: string

definition newline :: char where "newline = CHR 0x0A"

section \<open>Sending\<close>

text \<open>The loop of \<^verbatim>\<open>send_line\<close> over what is left of the line. The socket never takes more than it is given.\<close>

fun send_rest :: "net_write list \<Rightarrow> string \<Rightarrow> string \<Rightarrow> (bool \<times> string \<times> net_write list) option" where
  "send_rest ws [] wire = Some (True, wire, ws)"
| "send_rest [] (c # cs) wire = None"
| "send_rest (w # ws) (c # cs) wire =
     (case w of
        Unwritable \<Rightarrow> Some (False, wire, ws)
      | WriteBroken \<Rightarrow> Some (False, wire, ws)
      | Blocked \<Rightarrow> send_rest ws (c # cs) wire
      | Took n \<Rightarrow> send_rest ws (drop n (c # cs)) (wire @ take n (c # cs)))"

definition stratum_send_line :: "string \<Rightarrow> connection \<Rightarrow> (bool \<times> connection) option" where
  "stratum_send_line s cn =
     (case send_rest (cn_writes cn) (s @ [newline]) (cn_wire cn) of
        None \<Rightarrow> None
      | Some (ok, wire, ws) \<Rightarrow> Some (ok, cn\<lparr>cn_writes := ws, cn_wire := wire\<rparr>))"

section \<open>Receiving\<close>

text \<open>A wait for something to read, and what it answered.\<close>

definition socket_full :: "connection \<Rightarrow> (bool \<times> connection) option" where
  "socket_full cn = (case cn_waits cn of [] \<Rightarrow> None | b # bs \<Rightarrow> Some (b, cn\<lparr>cn_waits := bs\<rparr>))"

definition stratum_socket_full :: "connection \<Rightarrow> (bool \<times> connection) option" where
  "stratum_socket_full cn = (if cn_sockbuf cn \<noteq> [] then Some (True, cn) else socket_full cn)"

text \<open>The loop that reads until the buffer holds a newline, the time is up or the connection has gone.\<close>

fun recv_more :: "(net_read \<times> int) list \<Rightarrow> string \<Rightarrow> (bool \<times> string \<times> (net_read \<times> int) list) option" where
  "recv_more [] buf = None"
| "recv_more ((r, t) # rs) buf =
     (case r of
        Closed \<Rightarrow> Some (False, buf, rs)
      | Broken \<Rightarrow> Some (False, buf, rs)
      | Again full now \<Rightarrow>
          if \<not> full \<and> 60 \<le> now then Some (False, buf, rs)
          else if t < 60 \<and> newline \<notin> set buf then recv_more rs buf else Some (True, buf, rs)
      | Received s \<Rightarrow>
          if t < 60 \<and> newline \<notin> set (buf @ s) then recv_more rs (buf @ s) else Some (True, buf @ s, rs))"

text \<open>\<^verbatim>\<open>strtok\<close> on newlines: those in front are skipped, and the one that ends the token is overwritten with a zero.\<close>

definition strtok_skips :: "string \<Rightarrow> nat" where
  "strtok_skips s = length (takeWhile (\<lambda>c. c = newline) s)"

definition strtok :: "string \<Rightarrow> string option" where
  "strtok s =
     (let tok = takeWhile (\<lambda>c. c \<noteq> newline) (drop (strtok_skips s) s)
      in if tok = [] then None else Some tok)"

text \<open>
  What the buffer holds, as the string it is, once the token's length and one more have been moved out
  of its front. With newlines in front of the token, its zero is still ahead of what was moved.
\<close>

definition shift_buffer :: "string \<Rightarrow> string \<Rightarrow> string" where
  "shift_buffer buf tok =
     (let len = length tok
      in if len + 1 < length buf
         then if strtok_skips buf = 0 then drop (len + 1) buf else take (strtok_skips buf - 1) (drop (len + 1) buf)
         else [])"

definition take_line :: "connection \<Rightarrow> string option \<times> connection" where
  "take_line cn =
     (if newline \<notin> set (cn_sockbuf cn) then (None, cn)
      else case strtok (cn_sockbuf cn) of
             None \<Rightarrow> (None, cn)
           | Some tok \<Rightarrow> (Some tok, cn\<lparr>cn_sockbuf := shift_buffer (cn_sockbuf cn) tok\<rparr>))"

definition stratum_recv_line :: "connection \<Rightarrow> (string option \<times> connection) option" where
  "stratum_recv_line cn =
     (if newline \<in> set (cn_sockbuf cn) then Some (take_line cn)
      else case socket_full cn of
             None \<Rightarrow> None
           | Some (ready, cn) \<Rightarrow>
               if \<not> ready then Some (None, cn)
               else case recv_more (cn_reads cn) (cn_sockbuf cn) of
                      None \<Rightarrow> None
                    | Some (ok, buf, rs) \<Rightarrow>
                        let cn = cn\<lparr>cn_sockbuf := buf, cn_reads := rs\<rparr>
                        in Some (if ok then take_line cn else (None, cn)))"

section \<open>Lemmas: sending\<close>

lemma send_rest_wire:
  assumes "send_rest ws s wire = Some (ok, wire', ws')"
  shows "\<exists>k. wire' = wire @ take k s \<and> (ok \<longrightarrow> length s \<le> k)"
  using assms
proof (induction ws s wire rule: send_rest.induct)
  case (3 w ws c cs wire)
  show ?case
  proof (cases w)
    case (Took n)
    then obtain k where k: "wire' = (wire @ take n (c # cs)) @ take k (drop n (c # cs))" "ok \<longrightarrow> length (drop n (c # cs)) \<le> k"
      using 3 by auto
    have "take n (c # cs) @ take k (drop n (c # cs)) = take (n + k) (c # cs)" by (simp add: take_add)
    then have "wire' = wire @ take (n + k) (c # cs)" using k(1) by (metis append.assoc)
    then show ?thesis using k(2) by (intro exI [of _ "n + k"]) auto
  qed (use 3 in \<open>auto intro: exI [of _ 0]\<close>)
qed auto

lemma send_rest_all:
  assumes "s \<noteq> []" "length s \<le> n"
  shows "send_rest (Took n # ws) s wire = Some (True, wire @ s, ws)"
  using assms by (cases s) (auto split: nat.splits)

lemma send_rest_part:
  assumes "k < length s"
  shows "send_rest (Took k # Unwritable # ws) s wire = Some (False, wire @ take k s, ws)"
proof -
  obtain a as where "s = a # as" using assms by (cases s) auto
  moreover obtain b bs where "drop k s = b # bs" using assms by (cases "drop k s") auto
  ultimately show ?thesis by simp
qed

text \<open>A line is on the wire whole, or the sender is told it is not; what is there of it then stays.\<close>

lemma send_line_wire:
  assumes "stratum_send_line s cn = Some (ok, cn')"
  shows "\<exists>k. cn_wire cn' = cn_wire cn @ take k (s @ [newline]) \<and> (ok \<longrightarrow> cn_wire cn' = cn_wire cn @ s @ [newline])"
    "cn_sockbuf cn' = cn_sockbuf cn" "cn_reads cn' = cn_reads cn" "cn_waits cn' = cn_waits cn" "cn_url cn' = cn_url cn" "cn_curl cn' = cn_curl cn"
proof -
  obtain wire ws where w: "send_rest (cn_writes cn) (s @ [newline]) (cn_wire cn) = Some (ok, wire, ws)"
    "cn' = cn\<lparr>cn_writes := ws, cn_wire := wire\<rparr>"
    using assms by (auto simp: stratum_send_line_def split: option.splits)
  obtain k where k: "wire = cn_wire cn @ take k (s @ [newline])" "ok \<longrightarrow> length (s @ [newline]) \<le> k"
    using send_rest_wire [OF w(1)] by blast
  have "ok \<longrightarrow> wire = cn_wire cn @ s @ [newline]" using k by (metis take_all)
  then show "\<exists>k. cn_wire cn' = cn_wire cn @ take k (s @ [newline]) \<and> (ok \<longrightarrow> cn_wire cn' = cn_wire cn @ s @ [newline])"
    using k(1) w(2) by auto
qed (use assms in \<open>auto simp: stratum_send_line_def split: option.splits\<close>)

section \<open>Lemmas: receiving\<close>

definition bytes_read :: "(net_read \<times> int) list \<Rightarrow> string" where
  "bytes_read rs = concat (map (\<lambda>(r, t). case r of Received s \<Rightarrow> s | _ \<Rightarrow> []) rs)"

text \<open>All that is in the buffer or yet to be read.\<close>

definition stream :: "connection \<Rightarrow> string" where "stream cn = cn_sockbuf cn @ bytes_read (cn_reads cn)"

text \<open>The complete lines of a text, however it arrives.\<close>

function lines_of :: "string \<Rightarrow> string list" where
  "lines_of s =
     (if newline \<in> set s then takeWhile (\<lambda>c. c \<noteq> newline) s # lines_of (tl (dropWhile (\<lambda>c. c \<noteq> newline) s)) else [])"
  by pat_completeness auto
termination
proof (relation "measure length")
  fix s assume "newline \<in> set s"
  then have "dropWhile (\<lambda>c. c \<noteq> newline) s \<noteq> []" by (auto simp: dropWhile_eq_Nil_conv)
  then have "length (tl (dropWhile (\<lambda>c. c \<noteq> newline) s)) < length (dropWhile (\<lambda>c. c \<noteq> newline) s)" by simp
  then show "(tl (dropWhile (\<lambda>c. c \<noteq> newline) s), s) \<in> measure length"
    using length_dropWhile_le [of "\<lambda>c. c \<noteq> newline" s] by simp
qed simp

declare lines_of.simps [simp del]

lemma lines_of_line:
  assumes "newline \<notin> set l"
  shows "lines_of (l @ newline # s) = l # lines_of s"
  using assms by (subst lines_of.simps) (simp add: takeWhile_append2 dropWhile_append2 takeWhile_eq_all_conv [THEN iffD2]
    takeWhile_append dropWhile_append)

lemma recv_more_stream:
  assumes "recv_more rs buf = Some (ok, buf', rs')"
  shows "buf' @ bytes_read rs' = buf @ bytes_read rs"
  using assms
proof (induction rs buf rule: recv_more.induct)
  case (2 r t rs buf)
  then show ?case by (cases r) (auto simp: bytes_read_def split: if_splits)
qed simp

lemma take_line_stream:
  assumes "take_line cn = (Some l, cn')" "[] \<notin> set (lines_of (stream cn))"
  shows "lines_of (stream cn) = l # lines_of (stream cn')" "newline \<notin> set l"
proof -
  let ?b = "cn_sockbuf cn"
  have nl: "newline \<in> set ?b" using assms(1) by (auto simp: take_line_def split: if_splits)
  then obtain a b where ab: "?b = a @ newline # b" "newline \<notin> set a" using split_list_first by fastforce
  have s: "stream cn = a @ newline # (b @ bytes_read (cn_reads cn))" by (simp add: stream_def ab(1))
  then have ls: "lines_of (stream cn) = a # lines_of (b @ bytes_read (cn_reads cn))" using ab(2) by (simp add: lines_of_line)
  then have "a \<noteq> []" using assms(2) by auto
  then have k: "strtok_skips ?b = 0" using ab by (cases a) (auto simp: strtok_skips_def)
  have t: "takeWhile (\<lambda>c. c \<noteq> newline) ?b = a" using ab by (simp add: takeWhile_append takeWhile_eq_all_conv [THEN iffD2])
  then have l: "l = a" "cn' = cn\<lparr>cn_sockbuf := shift_buffer ?b a\<rparr>"
    using assms(1) nl k \<open>a \<noteq> []\<close> by (auto simp: take_line_def strtok_def)
  have "shift_buffer ?b a = b" using k by (simp add: shift_buffer_def Let_def) (simp add: ab(1))
  then show "lines_of (stream cn) = l # lines_of (stream cn')" "newline \<notin> set l"
    using ls l ab(2) by (simp_all add: stream_def)
qed

lemma recv_line_stream:
  assumes "stratum_recv_line cn = Some (Some l, cn')" "[] \<notin> set (lines_of (stream cn))"
  shows "lines_of (stream cn) = l # lines_of (stream cn')"
proof (cases "newline \<in> set (cn_sockbuf cn)")
  case True
  then show ?thesis using assms take_line_stream by (simp add: stratum_recv_line_def)
next
  case False
  from assms(1) False obtain b bs where w: "cn_waits cn = b # bs" by (auto simp: stratum_recv_line_def socket_full_def split: list.splits)
  with assms(1) False obtain buf rs where r: "recv_more (cn_reads cn) (cn_sockbuf cn) = Some (True, buf, rs)"
    "take_line (cn\<lparr>cn_waits := bs, cn_sockbuf := buf, cn_reads := rs\<rparr>) = (Some l, cn')"
    by (auto simp: stratum_recv_line_def socket_full_def Let_def split: option.splits if_splits)
  have "stream (cn\<lparr>cn_waits := bs, cn_sockbuf := buf, cn_reads := rs\<rparr>) = stream cn"
    using recv_more_stream [OF r(1)] by (simp add: stream_def)
  then show ?thesis using take_line_stream(1) [OF r(2)] assms(2) by simp
qed

text \<open>The next so many lines, one call each.\<close>

fun recv_lines :: "nat \<Rightarrow> connection \<Rightarrow> (string list \<times> connection) option" where
  "recv_lines 0 cn = Some ([], cn)"
| "recv_lines (Suc n) cn =
     (case stratum_recv_line cn of
        Some (Some l, cn) \<Rightarrow> (case recv_lines n cn of Some (ls, cn) \<Rightarrow> Some (l # ls, cn) | None \<Rightarrow> None)
      | _ \<Rightarrow> None)"

text \<open>
  Claim C19. The lines of a peer that sends no empty line arrive as they were sent. However its text is cut
  into reads and whatever waits come between, the lines \<^verbatim>\<open>stratum_recv_line\<close> hands up, call after call,
  are the lines of the text in order, whole, none lost and none twice. With an empty line in the text it
  is not so: what follows the line after it is lost.
\<close>

theorem lines_as_sent:
  assumes "recv_lines n cn = Some (ls, cn')" "[] \<notin> set (lines_of (stream cn))"
  shows "lines_of (stream cn) = ls @ lines_of (stream cn')"
  using assms
proof (induction n arbitrary: cn ls)
  case (Suc n)
  then obtain l c ls' where l: "stratum_recv_line cn = Some (Some l, c)" "recv_lines n c = Some (ls', cn')" "ls = l # ls'"
    by (auto split: option.splits prod.splits)
  have s: "lines_of (stream cn) = l # lines_of (stream c)" by (rule recv_line_stream [OF l(1) Suc.prems(2)])
  then have "lines_of (stream c) = ls' @ lines_of (stream cn')" using Suc.IH [OF l(2)] Suc.prems(2) by simp
  then show ?case using s l(3) by simp
qed simp

definition example_connection :: connection where
  "example_connection = \<lparr>cn_url = [], cn_curl = True, cn_sockbuf = [], cn_waits = [True, True],
     cn_reads = [(Received ''{1}'', 0), (Again True 0, 1), (Received [newline, CHR ''{''], 1), (Received [CHR ''}'', newline], 1)],
     cn_writes = [], cn_wire = []\<rparr>"

lemma lines_as_sent_witness:
  "lines_of (stream example_connection) = [''{1}'', ''{}''] @ lines_of (stream (example_connection\<lparr>cn_waits := [], cn_reads := []\<rparr>))"
proof -
  have "recv_lines 2 example_connection = Some ([''{1}'', ''{}''], example_connection\<lparr>cn_waits := [], cn_reads := []\<rparr>)"
    by (simp add: numeral_eq_Suc stratum_recv_line_def socket_full_def take_line_def strtok_def strtok_skips_def shift_buffer_def
      newline_def example_connection_def)
  moreover have "stream example_connection = ''{1}'' @ newline # (''{}'' @ newline # [])"
    by (simp add: stream_def bytes_read_def example_connection_def)
  then have "[] \<notin> set (lines_of (stream example_connection))"
    by (simp add: lines_of_line newline_def) (simp add: lines_of.simps newline_def)
  ultimately show ?thesis by (rule lines_as_sent)
qed

text \<open>
  Claim C20. An empty line loses the next one. Where the buffer holds an empty line and two more, the
  first of the two is handed up and the second is gone.
\<close>

theorem empty_line_loses_next:
  assumes "a \<noteq> []" "newline \<notin> set a" "cn_sockbuf cn = newline # a @ newline # b"
  shows "stratum_recv_line cn = Some (Some a, cn\<lparr>cn_sockbuf := []\<rparr>)"
proof -
  let ?b = "newline # a @ newline # b"
  have "strtok_skips ?b = 1" using assms(1,2) by (cases a) (auto simp: strtok_skips_def)
  moreover have "takeWhile (\<lambda>c. c \<noteq> newline) (a @ newline # b) = a"
    using assms(2) by (simp add: takeWhile_append takeWhile_eq_all_conv [THEN iffD2])
  ultimately have "strtok ?b = Some a" "shift_buffer ?b a = []"
    using assms(1) by (simp_all add: strtok_def shift_buffer_def)
  then show ?thesis using assms(3) by (simp add: stratum_recv_line_def take_line_def)
qed

lemma empty_line_loses_next_witness:
  "stratum_recv_line (example_connection\<lparr>cn_sockbuf := newline # ''{1}'' @ newline # ''{2}'' @ [newline]\<rparr>) =
     Some (Some ''{1}'', example_connection\<lparr>cn_sockbuf := []\<rparr>)"
  using empty_line_loses_next [of "''{1}''" "example_connection\<lparr>cn_sockbuf := newline # ''{1}'' @ newline # ''{2}'' @ [newline]\<rparr>"
    "''{2}'' @ [newline]"]
  by (simp add: newline_def)

end
