(* ===== verification/Stratum_Client.thy ===== *)
theory Stratum_Client
  imports Stratum_Work Stratum_Line Json Encodings Registry
begin

text \<open>
  The messages of \<^verbatim>\<open>src/stratum/stratum.c\<close>: what a pool may send, what becomes of the job and the
  session, and what is sent back. Log lines, and the complaint about a seed hash that only logs, are left
  out. A return value of a hex conversion the source ignores is ignored here: what was written stays.
\<close>

section \<open>What is around it\<close>

record client_options =
  cl_work :: stratum_options
  cl_nonce_bits :: nat
  cl_target_factor :: rat
  cl_redirect :: bool
  cl_algo :: string
  cl_agent :: string

text \<open>
  The JSON library's parser and printer, the difficulty of a target, which is a floating-point number,
  and what memory holds before it is written.
\<close>

record library =
  lb_loads :: "string \<Rightarrow> json option"
  lb_dumps :: "json \<Rightarrow> string"
  lb_hash_to_diff :: "u32 list \<Rightarrow> rat"
  lb_fresh :: "nat \<Rightarrow> u8"

text \<open>The flag is the global \<^verbatim>\<open>opt_extranonce\<close>, which a pool's silence clears.\<close>

record stratum_client =
  sm_ctx :: stratum_ctx
  sm_conn :: connection
  sm_extranonce :: bool

definition strcasecmp_eq :: "string \<Rightarrow> string \<Rightarrow> bool" where "strcasecmp_eq = same_letters"

definition int_of_json :: "json option \<Rightarrow> int" where
  "int_of_json v = sint (of_int (json_integer_value v) :: u32)"

text \<open>A text decoded into so many fresh bytes.\<close>

definition hex_bytes :: "nat \<Rightarrow> string \<Rightarrow> u8 list" where
  "hex_bytes n s = snd (hex2bin (replicate n 0) (Some s))"

section \<open>Extranonces\<close>

definition stratum_parse_nonce_prefix :: "client_options \<Rightarrow> json option \<Rightarrow> nat \<Rightarrow> stratum_ctx \<Rightarrow> bool \<times> stratum_ctx" where
  "stratum_parse_nonce_prefix opts params pndx sctx =
     (let want = (64 - cl_nonce_bits opts) div 8
      in case json_string_value (json_array_get params pndx) of
           None \<Rightarrow> (False, sctx)
         | Some prefix \<Rightarrow>
             if length prefix \<noteq> want * 2 then (False, sctx)
             else (True, sctx\<lparr>sx_xnonce1 := hex_bytes want prefix, sx_xnonce2_size := 0\<rparr>))"

definition stratum_parse_extranonce :: "json option \<Rightarrow> nat \<Rightarrow> stratum_ctx \<Rightarrow> bool \<times> stratum_ctx" where
  "stratum_parse_extranonce params pndx sctx =
     (case json_string_value (json_array_get params pndx) of
        None \<Rightarrow> (False, sctx)
      | Some xnonce1 \<Rightarrow>
          let xn2_size = int_of_json (json_array_get params (pndx + 1))
          in if xn2_size = 0 then (False, sctx)
             else if xn2_size < 2 \<or> 16 < xn2_size then (False, sctx)
             else (True, sctx\<lparr>sx_xnonce1 := hex_bytes (length xnonce1 div 2) xnonce1, sx_xnonce2_size := nat xn2_size\<rparr>))"

section \<open>Fields\<close>

definition parse_target_hex :: "string option \<Rightarrow> u32 list option" where
  "parse_target_hex hex =
     (case hex of
        None \<Rightarrow> None
      | Some s \<Rightarrow>
          if length s \<noteq> 64 then None
          else let (ok, raw) = hex2bin (replicate 32 0) (Some s)
               in if ok then Some (for_up 8 (\<lambda>i out. out[7 - i := word_be raw i]) (replicate 8 0)) else None)"

text \<open>\<^verbatim>\<open>strtoull\<close> in base sixteen: the number, and what is left of the text.\<close>

definition is_space :: "char \<Rightarrow> bool" where
  "is_space c \<longleftrightarrow> c \<in> {CHR '' '', CHR 0x09, CHR 0x0A, CHR 0x0B, CHR 0x0C, CHR 0x0D}"

definition is_hex :: "char \<Rightarrow> bool" where "is_hex c \<longleftrightarrow> hex_nibble c \<noteq> None"

definition hex_value :: "string \<Rightarrow> nat" where
  "hex_value s = foldl (\<lambda>n c. n * 16 + (case hex_nibble c of None \<Rightarrow> 0 | Some d \<Rightarrow> unat d)) 0 s"

definition strtoull16 :: "string \<Rightarrow> u64 \<times> string" where
  "strtoull16 s =
     (let t = dropWhile is_space s;
          (minus, t) = (case t of [] \<Rightarrow> (False, t)
                        | c # r \<Rightarrow> if c = CHR ''-'' then (True, r) else if c = CHR ''+'' then (False, r) else (False, t));
          t = (case t of a # b # c # r \<Rightarrow> if a = CHR ''0'' \<and> (b = CHR ''x'' \<or> b = CHR ''X'') \<and> is_hex c then c # r else t | _ \<Rightarrow> t);
          digits = takeWhile is_hex t
      in if digits = [] then (0, s)
         else if 2 ^ 64 \<le> hex_value digits then (- 1, dropWhile is_hex t)
         else (if minus then - of_nat (hex_value digits) else of_nat (hex_value digits), dropWhile is_hex t))"

definition parse_uint_field :: "json option \<Rightarrow> u64 option" where
  "parse_uint_field val =
     (if json_is_integer val then
        if json_integer_value val < 0 then None else Some (of_int (json_integer_value val))
      else case json_string_value val of
             None \<Rightarrow> None
           | Some s \<Rightarrow>
               if s = [] then None
               else
                 let s = (case s of a # b # r \<Rightarrow> if a = CHR ''0'' \<and> (b = CHR ''x'' \<or> b = CHR ''X'') then r else s | _ \<Rightarrow> s);
                     (n, rest) = strtoull16 s
                 in if rest \<noteq> [] then None else Some n)"

section \<open>A job of a pool that hashes the header itself\<close>

definition stratum_progpow_notify :: "json option \<Rightarrow> stratum_ctx \<Rightarrow> bool \<times> stratum_ctx" where
  "stratum_progpow_notify params sctx =
     (let job_id = json_string_value (json_array_get params 0);
          header_hash = json_string_value (json_array_get params 1);
          seed_hash = json_string_value (json_array_get params 2);
          target_hex = json_string_value (json_array_get params 3);
          clean = json_is_true (json_array_get params 4)
      in if job_id = None \<or> header_hash = None \<or> length (the header_hash) \<noteq> 64 \<or> seed_hash = None \<or> length (the seed_hash) \<noteq> 64
         then (False, sctx)
         else case parse_uint_field (json_array_get params 5) of
                None \<Rightarrow> (False, sctx)
              | Some height \<Rightarrow>
                  let nbits = (case parse_uint_field (json_array_get params 6) of None \<Rightarrow> 0 | Some n \<Rightarrow> n);
                      target = parse_target_hex target_hex;
                      job = (sx_job sctx)\<lparr>j_job_id := job_id, j_header_hash := hex_bytes 32 (the header_hash),
                              j_seed_hash := hex_bytes 32 (the seed_hash), j_nbits := be32enc (ucast nbits),
                              j_clean := clean, j_diff := sx_next_diff sctx\<rparr>;
                      job = (case target of
                               Some t \<Rightarrow> job\<lparr>j_target := t\<rparr>
                             | None \<Rightarrow> if sx_have_next_target sctx then job\<lparr>j_target := sx_next_target sctx\<rparr> else job);
                      job = job\<lparr>j_have_target := target \<noteq> None \<or> sx_have_next_target sctx\<rparr>
                  in (j_have_target job,
                      sctx\<lparr>sx_job := job, sx_block_height := sint (ucast height :: u32)\<rparr>))"

section \<open>A job of a pool that leaves the coinbase to the miner\<close>

text \<open>Memory made longer: what it held, then whatever was there.\<close>

definition grown :: "(nat \<Rightarrow> u8) \<Rightarrow> nat \<Rightarrow> u8 list \<Rightarrow> u8 list" where
  "grown fresh n old = map (\<lambda>i. if i < length old then old ! i else fresh i) [0..<n]"

definition put_bytes :: "nat \<Rightarrow> u8 list \<Rightarrow> u8 list \<Rightarrow> u8 list" where
  "put_bytes pos b c = take pos c @ b @ drop (pos + length b) c"

definition put_hex :: "nat \<Rightarrow> nat \<Rightarrow> string \<Rightarrow> u8 list \<Rightarrow> u8 list" where
  "put_hex pos n s c = put_bytes pos (snd (hex2bin (take n (drop pos c)) (Some s))) c"

text \<open>The block height, out of the start of the coinbase; what is read past its end is whatever is there.\<close>

definition byte_at :: "(nat \<Rightarrow> u8) \<Rightarrow> u8 list \<Rightarrow> nat \<Rightarrow> u8" where
  "byte_at fresh c i = (if i < length c then c ! i else fresh i)"

function scan_while :: "(nat \<Rightarrow> bool) \<Rightarrow> int \<Rightarrow> nat \<Rightarrow> nat" where
  "scan_while P m p = (if P p \<and> int p < m then scan_while P m (p + 1) else p)"
  by pat_completeness auto
termination by (relation "measure (\<lambda>(P, m, p). nat (m - int p))") auto

declare scan_while.simps [simp del]

definition getblocheight :: "(nat \<Rightarrow> u8) \<Rightarrow> u8 list \<Rightarrow> u32" where
  "getblocheight fresh coinbase =
     (let byte = byte_at fresh coinbase;
          m = int (length coinbase) - 2;
          p = scan_while (\<lambda>p. byte p \<noteq> 0xff) m 32;
          p = scan_while (\<lambda>p. byte p = 0xff) m p
      in if byte (p - 1) = 0xff \<and> byte (p - 2) = 0xff then
           let le16 = (\<lambda>p. ucast (byte p) + push_bit 8 (ucast (byte (p + 1))) :: u32);
               hlen = byte (p + 1);
               height = le16 (p + 2)
           in if hlen = 4 then height + 0x10000 * le16 (p + 4)
              else if hlen = 3 then height + 0x10000 * ucast (byte (p + 4))
              else height
         else 0)"

text \<open>The merkle branch, to the first entry that is none.\<close>

fun read_branch :: "json list \<Rightarrow> u8 list list option" where
  "read_branch [] = Some []"
| "read_branch (v # vs) =
     (case json_string_value (Some v) of
        None \<Rightarrow> None
      | Some s \<Rightarrow> if length s \<noteq> 64 then None
                  else map_option (\<lambda>r. hex_bytes 32 s # r) (read_branch vs))"

definition json_elements :: "json option \<Rightarrow> json list" where
  "json_elements v = map (\<lambda>i. the (json_array_get v i)) [0..<json_array_size v]"

text \<open>The fields as they came, once each is there and as long as it has to be.\<close>

record notify =
  nf_job_id :: string
  nf_prevhash :: string
  nf_claim :: "string option"
  nf_coinb1 :: string
  nf_coinb2 :: string
  nf_merkle :: "json list"
  nf_version :: string
  nf_nbits :: string
  nf_ntime :: string
  nf_clean :: bool

definition read_notify :: "client_options \<Rightarrow> json option \<Rightarrow> notify option" where
  "read_notify opts params =
     (let str = (\<lambda>p. json_string_value (json_array_get params p));
          lbry = (so_dialect (cl_work opts) = STRATUM_LBRY);
          k = (if lbry then 1 else 0);
          claim = (if lbry then str 2 else None)
      in if lbry \<and> (claim = None \<or> length (the claim) \<noteq> 64) then None
         else if \<not> json_is_array (json_array_get params (4 + k)) then None
         else if str 0 = None \<or> str 1 = None \<or> str (2 + k) = None \<or> str (3 + k) = None \<or> str (5 + k) = None \<or> str (6 + k) = None \<or>
                 str (7 + k) = None \<or> length (the (str 1)) \<noteq> 64 \<or> length (the (str (5 + k))) \<noteq> 8 \<or>
                 length (the (str (6 + k))) \<noteq> 8 \<or> length (the (str (7 + k))) \<noteq> 8 then None
         else Some \<lparr>nf_job_id = the (str 0), nf_prevhash = the (str 1), nf_claim = claim, nf_coinb1 = the (str (2 + k)),
                nf_coinb2 = the (str (3 + k)), nf_merkle = json_elements (json_array_get params (4 + k)), nf_version = the (str (5 + k)),
                nf_nbits = the (str (6 + k)), nf_ntime = the (str (7 + k)), nf_clean = json_is_true (json_array_get params (8 + k))\<rparr>)"

definition take_coinbase :: "(nat \<Rightarrow> u8) \<Rightarrow> notify \<Rightarrow> stratum_ctx \<Rightarrow> stratum_job \<Rightarrow> stratum_job" where
  "take_coinbase fresh nf sctx job =
     (let coinb1_size = length (nf_coinb1 nf) div 2;
          coinb2_size = length (nf_coinb2 nf) div 2;
          size = coinb1_size + length (sx_xnonce1 sctx) + sx_xnonce2_size sctx + coinb2_size;
          pos = coinb1_size + length (sx_xnonce1 sctx);
          c = grown fresh size (j_coinbase job);
          c = put_hex 0 coinb1_size (nf_coinb1 nf) c;
          c = put_bytes coinb1_size (sx_xnonce1 sctx) c;
          c = (if j_job_id job \<noteq> Some (nf_job_id nf) then put_bytes pos (replicate (sx_xnonce2_size sctx) 0) c else c);
          c = put_hex (pos + sx_xnonce2_size sctx) coinb2_size (nf_coinb2 nf) c
      in job\<lparr>j_coinbase := c, j_xnonce2_at := pos, j_job_id := Some (nf_job_id nf)\<rparr>)"

definition stratum_bitcoin_notify :: "client_options \<Rightarrow> library \<Rightarrow> json option \<Rightarrow> stratum_ctx \<Rightarrow> bool \<times> stratum_ctx" where
  "stratum_bitcoin_notify opts lib params sctx =
     (case read_notify opts params of
        None \<Rightarrow> (False, sctx)
      | Some nf \<Rightarrow>
          let job = (sx_job sctx)\<lparr>j_version := hex_bytes 4 (nf_version nf)\<rparr>
          in case read_branch (nf_merkle nf) of
               None \<Rightarrow> (False, sctx\<lparr>sx_job := job\<lparr>j_merkle := []\<rparr>\<rparr>)
             | Some branch \<Rightarrow>
                 let job = take_coinbase (lb_fresh lib) nf sctx (job\<lparr>j_merkle := branch\<rparr>);
                     job = job\<lparr>j_prevhash := hex_bytes 32 (nf_prevhash nf)\<rparr>;
                     job = (case nf_claim nf of None \<Rightarrow> job | Some claim \<Rightarrow> job\<lparr>j_extra := hex_bytes 32 claim\<rparr>);
                     height = sint (getblocheight (lb_fresh lib) (j_coinbase job));
                     job = job\<lparr>j_nbits := hex_bytes 4 (nf_nbits nf), j_ntime := hex_bytes 4 (nf_ntime nf),
                               j_clean := nf_clean nf, j_diff := sx_next_diff sctx\<rparr>
                 in (True, sctx\<lparr>sx_job := job, sx_block_height := height\<rparr>))"

definition stratum_notify :: "client_options \<Rightarrow> library \<Rightarrow> json option \<Rightarrow> stratum_ctx \<Rightarrow> bool \<times> stratum_ctx" where
  "stratum_notify opts lib params sctx =
     (if so_dialect (cl_work opts) = STRATUM_PROGPOW then stratum_progpow_notify params sctx
      else stratum_bitcoin_notify opts lib params sctx)"

section \<open>Difficulty and target\<close>

definition stratum_set_difficulty :: "json option \<Rightarrow> stratum_ctx \<Rightarrow> bool \<times> stratum_ctx" where
  "stratum_set_difficulty params sctx =
     (let diff = json_number_value (json_array_get params 0)
      in if diff = 0 then (False, sctx) else (True, sctx\<lparr>sx_next_diff := diff\<rparr>))"

definition stratum_set_target :: "client_options \<Rightarrow> library \<Rightarrow> json option \<Rightarrow> stratum_ctx \<Rightarrow> bool \<times> stratum_ctx" where
  "stratum_set_target opts lib params sctx =
     (case parse_target_hex (json_string_value (json_array_get params 0)) of
        None \<Rightarrow> (False, sctx)
      | Some tgt \<Rightarrow>
          if so_dialect (cl_work opts) = STRATUM_PROGPOW
          then (True, sctx\<lparr>sx_next_target := tgt, sx_have_next_target := True\<rparr>)
          else
            let diff_internal = lb_hash_to_diff lib tgt
            in if diff_internal \<le> 0 then (False, sctx)
               else (True, sctx\<lparr>sx_next_diff := diff_internal * (if 0 < cl_target_factor opts then cl_target_factor opts else 1)\<rparr>))"

section \<open>The connection\<close>

definition stratum_disconnect :: "connection \<Rightarrow> connection" where
  "stratum_disconnect cn = (if cn_curl cn then cn\<lparr>cn_curl := False, cn_sockbuf := []\<rparr> else cn)"

text \<open>The part of a url up to and with the separator after its scheme.\<close>

fun scheme_part :: "string \<Rightarrow> string option" where
  "scheme_part (a # b # c # r) =
     (if a = CHR '':'' \<and> b = CHR ''/'' \<and> c = CHR ''/'' then Some [a, b, c] else map_option ((#) a) (scheme_part (b # c # r)))"
| "scheme_part s = None"

text \<open>
  Only the first fifteen characters of the url in use are looked at; where they hold no separator the
  source writes through a null pointer, and there is no result.
\<close>

definition atoi_json :: "json option \<Rightarrow> int" where
  "atoi_json v =
     (case json_string_value v of
        None \<Rightarrow> int_of_json v
      | Some s \<Rightarrow>
          let t = dropWhile is_space s;
              (minus, t) = (case t of [] \<Rightarrow> (False, t)
                            | c # r \<Rightarrow> if c = CHR ''-'' then (True, r) else if c = CHR ''+'' then (False, r) else (False, t));
              n = foldl (\<lambda>n c. n * 10 + (of_char c - 48)) (0 :: int) (takeWhile (\<lambda>c. 48 \<le> (of_char c :: nat) \<and> (of_char c :: nat) \<le> 57) t)
          in if minus then - n else n)"

definition stratum_reconnect :: "client_options \<Rightarrow> json option \<Rightarrow> connection \<Rightarrow> (bool \<times> connection) option" where
  "stratum_reconnect opts params cn =
     (let host = json_string_value (json_array_get params 0);
          port = atoi_json (json_array_get params 1)
      in if host = None \<or> port = 0 then Some (False, cn)
         else case scheme_part (take 15 (cn_url cn)) of
                None \<Rightarrow> None
              | Some scheme \<Rightarrow>
                  if \<not> cl_redirect opts then Some (True, cn)
                  else Some (True, stratum_disconnect (cn\<lparr>cn_url := scheme @ the host @ CHR '':'' # show_int port\<rparr>)))"

section \<open>Answers\<close>

definition answer_with :: "json option \<Rightarrow> string \<Rightarrow> bool \<Rightarrow> connection \<Rightarrow> (bool \<times> connection) option" where
  "answer_with ident line none cn = (if ident = None \<or> json_is_null ident then Some (none, cn) else stratum_send_line line cn)"

definition stratum_unknown_method :: "library \<Rightarrow> json option \<Rightarrow> connection \<Rightarrow> (bool \<times> connection) option" where
  "stratum_unknown_method lib ident cn =
     answer_with ident (lb_dumps lib (JObject [(''id'', the ident), (''result'', JFalse),
       (''error'', JObject [(''code'', JInteger 38), (''message'', JString ''unknown method'')])])) False cn"

definition stratum_pong :: "json option \<Rightarrow> connection \<Rightarrow> (bool \<times> connection) option" where
  "stratum_pong ident cn =
     answer_with ident (CHR ''{'' # CHR 0x22 # ''id'' @ CHR 0x22 # CHR '':'' # show_int (int_of_json ident) @ '','' @ CHR 0x22 # ''result'' @
       CHR 0x22 # CHR '':'' # CHR 0x22 # ''pong'' @ CHR 0x22 # '','' @ CHR 0x22 # ''error'' @ CHR 0x22 # '':null}'') False cn"

definition stratum_get_algo :: "client_options \<Rightarrow> library \<Rightarrow> json option \<Rightarrow> connection \<Rightarrow> (bool \<times> connection) option" where
  "stratum_get_algo opts lib ident cn =
     answer_with ident (lb_dumps lib (JObject [(''id'', the ident), (''error'', JNull), (''result'', JString (take 63 (cl_algo opts)))])) False cn"

definition stratum_get_version :: "client_options \<Rightarrow> library \<Rightarrow> json option \<Rightarrow> connection \<Rightarrow> (bool \<times> connection) option" where
  "stratum_get_version opts lib ident cn =
     answer_with ident (lb_dumps lib (JObject [(''id'', the ident), (''error'', JNull), (''result'', JString (cl_agent opts))])) False cn"

definition stratum_show_message :: "library \<Rightarrow> json option \<Rightarrow> connection \<Rightarrow> (bool \<times> connection) option" where
  "stratum_show_message lib ident cn =
     answer_with ident (lb_dumps lib (JObject [(''id'', the ident), (''error'', JNull), (''result'', JTrue)])) True cn"

section \<open>A message\<close>

definition on_ctx :: "(stratum_ctx \<Rightarrow> bool \<times> stratum_ctx) \<Rightarrow> stratum_client \<Rightarrow> (bool \<times> stratum_client) option" where
  "on_ctx f sm = (let (ok, sctx) = f (sm_ctx sm) in Some (ok, sm\<lparr>sm_ctx := sctx\<rparr>))"

definition on_conn :: "(connection \<Rightarrow> (bool \<times> connection) option) \<Rightarrow> stratum_client \<Rightarrow> (bool \<times> stratum_client) option" where
  "on_conn f sm = map_option (\<lambda>(ok, cn). (ok, sm\<lparr>sm_conn := cn\<rparr>)) (f (sm_conn sm))"

definition stratum_method ::
  "client_options \<Rightarrow> library \<Rightarrow> string \<Rightarrow> json option \<Rightarrow> json option \<Rightarrow> stratum_client \<Rightarrow> (bool \<times> stratum_client) option" where
  "stratum_method opts lib method params ident sm =
     (if strcasecmp_eq method ''mining.notify'' then
        on_ctx (\<lambda>sctx. let (ok, sctx) = stratum_notify opts lib params sctx in (ok, if ok then sctx\<lparr>sx_new_job := True\<rparr> else sctx)) sm
      else if strcasecmp_eq method ''mining.ping'' then on_conn (stratum_pong ident) sm
      else if strcasecmp_eq method ''mining.set_difficulty'' then on_ctx (stratum_set_difficulty params) sm
      else if strcasecmp_eq method ''mining.set_target'' then on_ctx (stratum_set_target opts lib params) sm
      else if strcasecmp_eq method ''mining.set_extranonce'' then
        on_ctx (if so_dialect (cl_work opts) = STRATUM_PROGPOW then stratum_parse_nonce_prefix opts params 0
                else stratum_parse_extranonce params 0) sm
      else if strcasecmp_eq method ''client.reconnect'' then on_conn (stratum_reconnect opts params) sm
      else if strcasecmp_eq method ''client.get_algo'' then on_conn (stratum_get_algo opts lib ident) sm
      else if strcasecmp_eq method ''client.get_version'' then on_conn (stratum_get_version opts lib ident) sm
      else if strcasecmp_eq method ''client.show_message'' then on_conn (stratum_show_message lib ident) sm
      else on_conn (stratum_unknown_method lib ident) sm)"

definition stratum_handle_method ::
  "client_options \<Rightarrow> library \<Rightarrow> string \<Rightarrow> stratum_client \<Rightarrow> (bool \<times> stratum_client) option" where
  "stratum_handle_method opts lib s sm =
     (case lb_loads lib s of
        None \<Rightarrow> Some (False, sm)
      | Some val \<Rightarrow>
          case json_string_value (json_object_get (Some val) ''method'') of
            None \<Rightarrow> Some (False, sm)
          | Some method \<Rightarrow>
              stratum_method opts lib method (json_object_get (Some val) ''params'') (json_object_get (Some val) ''id'') sm)"

end
