(* ===== verification/Stratum_Jobs.thy ===== *)
theory Stratum_Jobs
  imports Stratum_Client
begin

text \<open>
  What the messages of a pool make of the job: a job is taken as the pool wrote it, and two ways in which
  a message that is no job changes the one in hand.
\<close>

section \<open>A job as a pool writes it\<close>

record pool_job =
  pj_job_id :: string
  pj_prevhash :: "u8 list"
  pj_claim :: "u8 list"
  pj_coinb1 :: "u8 list"
  pj_coinb2 :: "u8 list"
  pj_merkle :: "u8 list list"
  pj_version :: "u8 list"
  pj_nbits :: "u8 list"
  pj_ntime :: "u8 list"
  pj_clean :: bool

definition hex_json :: "u8 list \<Rightarrow> json" where "hex_json b = JString (bin2hex b)"

definition notify_params :: "client_options \<Rightarrow> pool_job \<Rightarrow> json" where
  "notify_params opts pj = JArray
     ([JString (pj_job_id pj), hex_json (pj_prevhash pj)] @
      (if so_dialect (cl_work opts) = STRATUM_LBRY then [hex_json (pj_claim pj)] else []) @
      [hex_json (pj_coinb1 pj), hex_json (pj_coinb2 pj), JArray (map hex_json (pj_merkle pj)), hex_json (pj_version pj),
       hex_json (pj_nbits pj), hex_json (pj_ntime pj), if pj_clean pj then JTrue else JFalse])"

definition pool_job_ok :: "pool_job \<Rightarrow> bool" where
  "pool_job_ok pj \<longleftrightarrow> length (pj_prevhash pj) = 32 \<and> length (pj_claim pj) = 32 \<and> length (pj_version pj) = 4 \<and> length (pj_nbits pj) = 4 \<and>
     length (pj_ntime pj) = 4 \<and> (\<forall>b \<in> set (pj_merkle pj). length b = 32)"

lemma hex_bytes_bin2hex [simp]: "length b = n \<Longrightarrow> hex_bytes n (bin2hex b) = b"
  by (simp add: hex_bytes_def hex2bin_bin2hex)

lemma read_branch_hex:
  "(\<And>b. b \<in> set bs \<Longrightarrow> length b = 32) \<Longrightarrow> read_branch (map hex_json bs) = Some bs"
  by (induction bs) (simp_all add: hex_json_def)

lemma json_elements_array [simp]: "json_elements (Some (JArray xs)) = xs"
  by (rule nth_equalityI) (simp_all add: json_elements_def)

lemma read_notify_params:
  assumes "pool_job_ok pj"
  shows "read_notify opts (Some (notify_params opts pj)) = Some \<lparr>nf_job_id = pj_job_id pj, nf_prevhash = bin2hex (pj_prevhash pj),
     nf_claim = (if so_dialect (cl_work opts) = STRATUM_LBRY then Some (bin2hex (pj_claim pj)) else None),
     nf_coinb1 = bin2hex (pj_coinb1 pj), nf_coinb2 = bin2hex (pj_coinb2 pj), nf_merkle = map hex_json (pj_merkle pj),
     nf_version = bin2hex (pj_version pj), nf_nbits = bin2hex (pj_nbits pj), nf_ntime = bin2hex (pj_ntime pj), nf_clean = pj_clean pj\<rparr>"
  using assms
  by (simp add: read_notify_def notify_params_def hex_json_def pool_job_ok_def json_is_true_def numeral_eq_Suc)

section \<open>Writing into the coinbase\<close>

lemma length_grown [simp]: "length (grown fresh n old) = n"
  by (simp add: grown_def)

lemma put_bytes_between:
  assumes "length a = pos" "length x = length b"
  shows "put_bytes pos b (a @ x @ r) = a @ b @ r"
  using assms by (simp add: put_bytes_def)

lemma put_hex_between:
  assumes "length a = pos" "length x = length b" "n = length b"
  shows "put_hex pos n (bin2hex b) (a @ x @ r) = a @ b @ r"
  using assms by (simp add: put_hex_def hex2bin_bin2hex put_bytes_between)

lemma cut4:
  assumes "length c = n1 + n2 + n3 + n4"
  obtains a b d e where "c = a @ b @ d @ e" "length a = n1" "length b = n2" "length d = n3" "length e = n4"
proof
  show "c = take n1 c @ take n2 (drop n1 c) @ take n3 (drop (n1 + n2) c) @ drop (n1 + n2 + n3) c"
    by (metis append_take_drop_id drop_drop add.commute)
qed (use assms in auto)

lemma take_coinbase_as_sent:
  assumes "nf_coinb1 nf = bin2hex b1" "nf_coinb2 nf = bin2hex b2"
  obtains x2 where "length x2 = sx_xnonce2_size sctx"
    "j_job_id job \<noteq> Some (nf_job_id nf) \<longrightarrow> x2 = replicate (sx_xnonce2_size sctx) 0"
    "take_coinbase fresh nf sctx job = job\<lparr>j_coinbase := b1 @ sx_xnonce1 sctx @ x2 @ b2,
       j_xnonce2_at := length b1 + length (sx_xnonce1 sctx), j_job_id := Some (nf_job_id nf)\<rparr>"
proof -
  let ?x1 = "sx_xnonce1 sctx" and ?k = "sx_xnonce2_size sctx"
  let ?c = "grown fresh (length b1 + length ?x1 + ?k + length b2) (j_coinbase job)"
  have "length ?c = length b1 + length ?x1 + ?k + length b2" by simp
  from cut4 [OF this] obtain a x d e where c: "?c = a @ x @ d @ e" "length a = length b1" "length x = length ?x1" "length d = ?k" "length e = length b2" .
  define x2 where "x2 = (if j_job_id job \<noteq> Some (nf_job_id nf) then replicate ?k 0 else d)"
  have "put_hex 0 (length b1) (bin2hex b1) (a @ x @ d @ e) = b1 @ x @ d @ e"
    using put_hex_between [of "[]" 0 a b1 "length b1" "x @ d @ e"] c by simp
  moreover have "put_bytes (length b1) ?x1 (b1 @ x @ d @ e) = b1 @ ?x1 @ d @ e"
    using c by (intro put_bytes_between) simp_all
  moreover have "put_bytes (length b1 + length ?x1) (replicate ?k 0) (b1 @ ?x1 @ d @ e) = b1 @ ?x1 @ replicate ?k 0 @ e"
    using c put_bytes_between [of "b1 @ ?x1" "length b1 + length ?x1" d "replicate ?k 0" e] by simp
  moreover have "put_hex (length b1 + length ?x1 + ?k) (length b2) (bin2hex b2) (b1 @ ?x1 @ x2 @ e) = b1 @ ?x1 @ x2 @ b2"
    using c put_hex_between [of "b1 @ ?x1 @ x2" "length b1 + length ?x1 + ?k" e b2 "length b2" "[]"] by (simp add: x2_def add.assoc)
  ultimately have "take_coinbase fresh nf sctx job = job\<lparr>j_coinbase := b1 @ ?x1 @ x2 @ b2,
       j_xnonce2_at := length b1 + length ?x1, j_job_id := Some (nf_job_id nf)\<rparr>"
    using assms c(1) by (cases "j_job_id job = Some (nf_job_id nf)") (simp_all add: take_coinbase_def Let_def x2_def)
  then show ?thesis using that [of x2] c by (simp add: x2_def)
qed

section \<open>The job in hand\<close>

text \<open>
  Claim C14. A job is taken as it was sent. Of the parameters of a \<^verbatim>\<open>mining.notify\<close> that states a job in
  hex, with the coinbase in two halves, exactly that job is kept: its coinbase is the pool's halves
  around the extranonces, with the miner's own stretch at zero where the job is a new one, and every
  other field is the pool's, byte for byte.
\<close>

theorem job_as_sent:
  assumes "so_dialect (cl_work opts) \<noteq> STRATUM_PROGPOW" "pool_job_ok pj"
    and "stratum_notify opts lib (Some (notify_params opts pj)) sctx = (ok, sctx')"
  shows "ok \<and> (\<exists>x2. length x2 = sx_xnonce2_size sctx \<and>
      (j_job_id (sx_job sctx) \<noteq> Some (pj_job_id pj) \<longrightarrow> x2 = replicate (sx_xnonce2_size sctx) 0) \<and>
      sx_job sctx' = (sx_job sctx)\<lparr>j_job_id := Some (pj_job_id pj), j_prevhash := pj_prevhash pj,
        j_coinbase := pj_coinb1 pj @ sx_xnonce1 sctx @ x2 @ pj_coinb2 pj, j_xnonce2_at := length (pj_coinb1 pj) + length (sx_xnonce1 sctx),
        j_merkle := pj_merkle pj, j_version := pj_version pj, j_nbits := pj_nbits pj, j_ntime := pj_ntime pj,
        j_extra := (if so_dialect (cl_work opts) = STRATUM_LBRY then pj_claim pj else j_extra (sx_job sctx)),
        j_clean := pj_clean pj, j_diff := sx_next_diff sctx\<rparr>)"
proof -
  have pj: "length (pj_prevhash pj) = 32" "length (pj_claim pj) = 32" "length (pj_version pj) = 4" "length (pj_nbits pj) = 4"
    "length (pj_ntime pj) = 4" "read_branch (map hex_json (pj_merkle pj)) = Some (pj_merkle pj)"
    using assms(2) read_branch_hex [of "pj_merkle pj"] by (auto simp: pool_job_ok_def)
  obtain nf where nf: "read_notify opts (Some (notify_params opts pj)) = Some nf" "nf_coinb1 nf = bin2hex (pj_coinb1 pj)"
    "nf_coinb2 nf = bin2hex (pj_coinb2 pj)" "nf_job_id nf = pj_job_id pj" "nf_merkle nf = map hex_json (pj_merkle pj)"
    "nf_version nf = bin2hex (pj_version pj)" "nf_nbits nf = bin2hex (pj_nbits pj)" "nf_ntime nf = bin2hex (pj_ntime pj)"
    "nf_prevhash nf = bin2hex (pj_prevhash pj)" "nf_clean nf = pj_clean pj"
    "nf_claim nf = (if so_dialect (cl_work opts) = STRATUM_LBRY then Some (bin2hex (pj_claim pj)) else None)"
    by (rule that [OF read_notify_params [OF assms(2), of opts]]) simp_all
  let ?job = "(sx_job sctx)\<lparr>j_version := pj_version pj, j_merkle := pj_merkle pj\<rparr>"
  obtain x2 where t: "length x2 = sx_xnonce2_size sctx" "j_job_id ?job \<noteq> Some (nf_job_id nf) \<longrightarrow> x2 = replicate (sx_xnonce2_size sctx) 0"
    "take_coinbase (lb_fresh lib) nf sctx ?job = ?job\<lparr>j_coinbase := pj_coinb1 pj @ sx_xnonce1 sctx @ x2 @ pj_coinb2 pj,
       j_xnonce2_at := length (pj_coinb1 pj) + length (sx_xnonce1 sctx), j_job_id := Some (nf_job_id nf)\<rparr>"
    by (rule take_coinbase_as_sent [OF nf(2,3), where sctx = sctx and job = ?job and fresh = "lb_fresh lib"]) (rule that)
  have x2: "length x2 = sx_xnonce2_size sctx"
    "j_job_id (sx_job sctx) \<noteq> Some (pj_job_id pj) \<longrightarrow> x2 = replicate (sx_xnonce2_size sctx) 0"
    using t(1,2) nf(4) by simp_all
  show ?thesis
    using assms(1,3) x2(1,2)
    by (auto simp: stratum_notify_def stratum_bitcoin_notify_def nf pj t(3) Let_def intro!: exI [of _ x2])
qed

definition example_client_options :: "stratum_dialect \<Rightarrow> client_options" where
  "example_client_options d = \<lparr>cl_work = \<lparr>so_dialect = d, so_coinbase_sha256 = False, so_have_stratum = True\<rparr>, cl_nonce_bits = 48,
     cl_target_factor = 1, cl_redirect = False, cl_algo = ''sha256d'', cl_agent = ''vkminer''\<rparr>"

definition example_library :: library where
  "example_library = \<lparr>lb_loads = \<lambda>s. None, lb_dumps = \<lambda>v. [], lb_hash_to_diff = \<lambda>h. 1, lb_fresh = \<lambda>i. 0\<rparr>"

definition example_pool_job :: pool_job where
  "example_pool_job = \<lparr>pj_job_id = ''8a'', pj_prevhash = replicate 32 1, pj_claim = replicate 32 2, pj_coinb1 = [1, 2],
     pj_coinb2 = [3, 4, 5], pj_merkle = [replicate 32 7], pj_version = [0x20, 0, 0, 0], pj_nbits = [9, 9, 9, 9], pj_ntime = [8, 8, 8, 8],
     pj_clean = True\<rparr>"

theorem job_as_sent_witness:
  "\<exists>x2. length x2 = 2 \<and> x2 = replicate 2 0 \<and>
     j_coinbase (sx_job (snd (stratum_notify (example_client_options STRATUM_BITCOIN) example_library
       (Some (notify_params (example_client_options STRATUM_BITCOIN) example_pool_job)) example_sctx))) = [1, 2, 0xAB] @ x2 @ [3, 4, 5]"
proof -
  let ?n = "stratum_notify (example_client_options STRATUM_BITCOIN) example_library
       (Some (notify_params (example_client_options STRATUM_BITCOIN) example_pool_job)) example_sctx"
  have "pool_job_ok example_pool_job" "so_dialect (cl_work (example_client_options STRATUM_BITCOIN)) \<noteq> STRATUM_PROGPOW"
    by (simp_all add: pool_job_ok_def example_pool_job_def example_client_options_def)
  from job_as_sent [OF this(2,1), of example_library example_sctx "fst ?n" "snd ?n"]
  show ?thesis by (auto simp: example_sctx_def example_pool_job_def)
qed

text \<open>
  A refused job is not without effect. A \<^verbatim>\<open>mining.notify\<close> whose merkle branch has an entry that is
  no hash is refused, and leaves the job in hand under its own name with the other one's version and no
  branch at all.
\<close>

theorem refused_job_changes_work:
  assumes "so_dialect (cl_work opts) \<noteq> STRATUM_PROGPOW" "read_notify opts params = Some nf" "read_branch (nf_merkle nf) = None"
    and "stratum_notify opts lib params sctx = (ok, sctx')"
  shows "\<not> ok \<and> sx_job sctx' = (sx_job sctx)\<lparr>j_version := hex_bytes 4 (nf_version nf), j_merkle := []\<rparr>"
  using assms by (auto simp: stratum_notify_def stratum_bitcoin_notify_def)

text \<open>
  Claim C22. A new extranonce overwrites the old coinbase. A \<^verbatim>\<open>mining.set_extranonce\<close> with a wider field
  leaves the job in hand where it is; arming it then writes the difference over the front of the pool's
  second half of the coinbase.
\<close>

theorem wider_extranonce_overwrites:
  assumes "sx_job sctx = job\<lparr>j_coinbase := pre @ x2 @ coinb2, j_xnonce2_at := length pre\<rparr>"
    and "stratum_parse_extranonce params p sctx = (True, sctx')"
    and "sx_xnonce2_size sctx' = length x2 + k" "k \<le> length coinb2"
    and "stratum_set_extranonce2 opts w sctx' counter = (True, w', sctx'')"
  shows "j_coinbase (sx_job sctx'') = pre @ map (xnonce2_byte counter) [0..<length x2 + k] @ drop k coinb2"
proof -
  have e: "sx_job sctx' = sx_job sctx"
    using assms(2) by (auto simp: stratum_parse_extranonce_def Let_def split: option.splits if_splits)
  have c: "j_coinbase (sx_job sctx') = pre @ x2 @ coinb2" "j_xnonce2_at (sx_job sctx') = length pre" using assms(1) e by simp_all
  have fits: "j_xnonce2_at (sx_job sctx') + sx_xnonce2_size sctx' \<le> length (j_coinbase (sx_job sctx'))"
    using assms(3,4) c by simp
  let ?n = "length x2 + k"
  have s: "j_coinbase (sx_job sctx'') = for_up ?n (\<lambda>i b. b[length pre + i := xnonce2_byte counter i]) (pre @ x2 @ coinb2)"
    using assms(3,5) c
    by (auto simp: stratum_set_extranonce2_def xnonce2_byte_def put_xnonce2_loop Let_def split: if_splits)
  have "length pre + ?n \<le> length (pre @ x2 @ coinb2)" using assms(4) by simp
  note n = nth_for_up_stretch [OF this, where f = "xnonce2_byte counter"]
  show ?thesis
  proof (rule nth_equalityI)
    show "length (j_coinbase (sx_job sctx'')) = length (pre @ map (xnonce2_byte counter) [0..<?n] @ drop k coinb2)"
      using assms(4) s n(2) by simp
    fix j assume "j < length (j_coinbase (sx_job sctx''))"
    then have j: "j < length pre + length x2 + length coinb2" using s n(2) by simp
    show "j_coinbase (sx_job sctx'') ! j = (pre @ map (xnonce2_byte counter) [0..<?n] @ drop k coinb2) ! j"
      using s n(1) [of j] j assms(4) by (auto simp: nth_append not_less)
  qed
qed

lemma arms_iff:
  "fst (stratum_set_extranonce2 opts w sctx counter) \<longleftrightarrow>
     sx_xnonce2_size sctx \<noteq> 0 \<and> j_job_id (sx_job sctx) \<noteq> None \<and> w_job_id w \<noteq> None \<and> j_job_id (sx_job sctx) = w_job_id w"
  by (simp add: stratum_set_extranonce2_def Let_def)

lemma true_triple: "fst t \<Longrightarrow> t = (True, fst (snd t), snd (snd t))"
  by (cases t) auto

theorem wider_extranonce_overwrites_witness:
  "j_coinbase (sx_job (snd (snd (stratum_set_extranonce2 example_dialect example_work
      (snd (stratum_parse_extranonce (Some (JArray [JString ''ab'', JInteger 3])) 0 example_sctx)) 0x070605)))) = [1, 0xAB, 5, 6, 7]"
proof -
  let ?p = "stratum_parse_extranonce (Some (JArray [JString ''ab'', JInteger 3])) 0 example_sctx"
  have "int_of_json (Some (JInteger 3)) = 3" by (simp add: int_of_json_def)
  then have p: "?p = (True, snd ?p)" "sx_xnonce2_size (snd ?p) = length [0 :: u8, 0] + 1" "sx_job (snd ?p) = sx_job example_sctx"
    by (simp_all add: stratum_parse_extranonce_def)
  have j: "sx_job example_sctx = (sx_job example_sctx)\<lparr>j_coinbase := [1, 0xAB] @ [0, 0] @ [9], j_xnonce2_at := length [1 :: u8, 0xAB]\<rparr>"
    by (simp add: example_sctx_def)
  let ?a = "stratum_set_extranonce2 example_dialect example_work (snd ?p) 0x070605"
  have "w_job_id example_work = Some ''7f''" "j_job_id (sx_job example_sctx) = Some ''7f''"
    by (simp_all add: example_work_def example_sctx_def)
  then have "fst ?a" unfolding arms_iff p(2,3) by simp
  then have "?a = (True, fst (snd ?a), snd (snd ?a))" by (rule true_triple)
  from wider_extranonce_overwrites [OF j p(1,2) _ this]
  have "j_coinbase (sx_job (snd (snd ?a))) = [1, 0xAB] @ map (xnonce2_byte 0x070605) [0..<3] @ []" by (simp only: list.size drop_Suc_Cons drop0 add_Suc_right add_0_right add_0 One_nat_def) (simp add: numeral_eq_Suc)
  moreover have "map (xnonce2_byte 0x070605) [0..<3] = [5, 6, 7]" by code_simp
  ultimately show ?thesis by simp
qed

end
