(* ===== verification/Shares.thy ===== *)
theory Shares
  imports Stratum_Client
begin

text \<open>
  Shares on their way to the pool and the answers on their way back, \<^verbatim>\<open>src/core/work.c\<close>: the id a share
  gets, the ring that remembers what was submitted, the queue to the thread that sends, the request, and
  what an answer is booked as. A submitted work is the work and the fields \<^verbatim>\<open>struct work\<close> has for its
  submission. Elapsed times, the lines that print them, and what only those lines read (an entry's
  \<^verbatim>\<open>stratum_diff\<close>, the rate summed on the way) are left out.
\<close>

section \<open>The books\<close>

record submission =
  sb_work :: work
  sb_id :: u32
  sb_diff :: rat
  sb_target_diff :: rat

text \<open>An entry of the ring is free while its time is zero.\<close>

record share_stats =
  sh_count :: u32
  sh_id :: u32
  sh_time :: int
  sh_net_diff :: rat
  sh_diff :: rat
  sh_target_diff :: rat
  sh_height :: int
  sh_job_id :: string

definition no_stats :: share_stats where
  "no_stats = \<lparr>sh_count = 0, sh_id = 0, sh_time = 0, sh_net_diff = 0, sh_diff = 0, sh_target_diff = 0, sh_height = 0, sh_job_id = []\<rparr>"

definition s_stats_size :: nat where "s_stats_size = 64"
definition s_first_submit_id :: u32 where "s_first_submit_id = 4"

record shares =
  sr_stats :: "share_stats list"
  sr_put :: nat
  sr_overwritten :: u32
  sr_next_id :: u32
  sr_last_submit :: int
  sr_accepted :: u32
  sr_rejected :: u32
  sr_stale :: u32
  sr_solved :: u32
  sr_submitted :: u32
  sr_submit_sum :: u64
  sr_accept_sum :: u64
  sr_stale_sum :: u64
  sr_reject_sum :: u64
  sr_solved_sum :: u64
  sr_norm_diff :: rat
  sr_highest :: rat
  sr_lowest :: rat

definition share_stats_init :: "int \<Rightarrow> shares" where
  "share_stats_init now =
     \<lparr>sr_stats = replicate s_stats_size no_stats, sr_put = 0, sr_overwritten = 0, sr_next_id = s_first_submit_id, sr_last_submit = now,
      sr_accepted = 0, sr_rejected = 0, sr_stale = 0, sr_solved = 0, sr_submitted = 0, sr_submit_sum = 0, sr_accept_sum = 0,
      sr_stale_sum = 0, sr_reject_sum = 0, sr_solved_sum = 0, sr_norm_diff = 0, sr_highest = 0, sr_lowest = 9 * 10 ^ 99\<rparr>"

definition share_stats_reset :: "shares \<Rightarrow> shares" where
  "share_stats_reset sr = sr\<lparr>sr_stats := replicate s_stats_size no_stats, sr_put := 0\<rparr>"

definition shares_pending :: "shares \<Rightarrow> bool" where
  "shares_pending sr \<longleftrightarrow> (\<exists>e \<in> set (sr_stats sr). sh_time e \<noteq> 0)"

definition stats_ptr_incr :: "nat \<Rightarrow> nat" where "stats_ptr_incr p = (p + 1) mod s_stats_size"

section \<open>Submitting\<close>

definition claim_submit_id :: "shares \<Rightarrow> u32 \<times> shares" where
  "claim_submit_id sr =
     (let i = sr_next_id sr;
          next = sr_next_id sr + 1
      in (i, sr\<lparr>sr_next_id := if next < s_first_submit_id then s_first_submit_id else next\<rparr>))"

definition update_submit_stats :: "client_options \<Rightarrow> rat \<Rightarrow> int \<Rightarrow> submission \<Rightarrow> shares \<Rightarrow> shares" where
  "update_submit_stats opts net_diff now sb sr =
     (let sr = (if sh_time (sr_stats sr ! sr_put sr) \<noteq> 0 then sr\<lparr>sr_overwritten := sr_overwritten sr + 1\<rparr> else sr);
          sr = sr\<lparr>sr_submitted := sr_submitted sr + 1\<rparr>;
          old = sr_stats sr ! sr_put sr;
          e = \<lparr>sh_count = sr_submitted sr, sh_id = sb_id sb, sh_time = now, sh_net_diff = net_diff, sh_diff = sb_diff sb,
               sh_target_diff = sb_target_diff sb * cl_target_factor opts, sh_height = w_height (sb_work sb),
               sh_job_id = (if so_have_stratum (cl_work opts)
                            then take 30 (case w_job_id (sb_work sb) of None \<Rightarrow> [] | Some j \<Rightarrow> j) else sh_job_id old)\<rparr>
      in sr\<lparr>sr_stats := (sr_stats sr)[sr_put sr := e], sr_put := stats_ptr_incr (sr_put sr)\<rparr>)"

text \<open>The queue between threads, which takes nothing once it is frozen.\<close>

record thread_q =
  tq_items :: "submission list"
  tq_frozen :: bool

definition tq_push :: "thread_q \<Rightarrow> submission \<Rightarrow> bool \<times> thread_q" where
  "tq_push q x = (if tq_frozen q then (False, q) else (True, q\<lparr>tq_items := tq_items q @ [x]\<rparr>))"

definition tq_pop :: "thread_q \<Rightarrow> (submission \<times> thread_q) option" where
  "tq_pop q = (case tq_items q of [] \<Rightarrow> None | x # xs \<Rightarrow> Some (x, q\<lparr>tq_items := xs\<rparr>))"

definition tq_freeze :: "thread_q \<Rightarrow> thread_q" where "tq_freeze q = q\<lparr>tq_frozen := True\<rparr>"

text \<open>
  \<^verbatim>\<open>submit_solution\<close> in the three stretches other threads may come between: the share refused, or given
  its difficulty and its id; the copy queued; the ring told.
\<close>

definition submit_claim :: "client_options \<Rightarrow> library \<Rightarrow> rat \<Rightarrow> u32 list \<Rightarrow> work \<Rightarrow> shares \<Rightarrow> submission option \<times> shares" where
  "submit_claim opts lib target_diff hash w sr =
     (if so_dialect (cl_work opts) = STRATUM_PROGPOW \<and> \<not> w_have_mixhash w then (None, sr)
      else let (i, sr) = claim_submit_id sr
           in (Some \<lparr>sb_work = w, sb_id = i, sb_diff = lb_hash_to_diff lib hash * cl_target_factor opts,
                     sb_target_diff = target_diff\<rparr>, sr))"

definition submit_solution ::
  "client_options \<Rightarrow> library \<Rightarrow> rat \<Rightarrow> int \<Rightarrow> rat \<Rightarrow> u32 list \<Rightarrow> work \<Rightarrow> shares \<Rightarrow> thread_q \<Rightarrow> bool \<times> shares \<times> thread_q" where
  "submit_solution opts lib net_diff now target_diff hash w sr q =
     (case submit_claim opts lib target_diff hash w sr of
        (None, sr) \<Rightarrow> (False, sr, q)
      | (Some sb, sr) \<Rightarrow>
          let (pushed, q) = tq_push q sb
          in if pushed then (True, update_submit_stats opts net_diff now sb sr, q) else (False, sr, q))"

section \<open>The request\<close>

definition JSON_BUF_LEN :: nat where "JSON_BUF_LEN = 512"

definition quoted :: "string \<Rightarrow> string" where "quoted s = CHR 0x22 # s @ [CHR 0x22]"

definition json_submit_req :: "string list \<Rightarrow> u32 \<Rightarrow> string" where
  "json_submit_req params i =
     ''{'' @ quoted ''method'' @ '': '' @ quoted ''mining.submit'' @ '', '' @ quoted ''params'' @ '': ['' @
     quoted (params ! 0) @ '', '' @ quoted (params ! 1) @ '', '' @ quoted (params ! 2) @ '', '' @ quoted (params ! 3) @ '', '' @
     quoted (params ! 4) @ ''], '' @ quoted ''id'' @ '':'' @ decimal (unat i) @ ''}''"

definition job_text :: "work \<Rightarrow> string" where
  "job_text w = (case w_job_id w of None \<Rightarrow> ''(null)'' | Some j \<Rightarrow> j)"

text \<open>Where a header keeps its time and its nonce: \<^verbatim>\<open>opt_ntime_index\<close> and \<^verbatim>\<open>opt_nonce_index\<close>.\<close>

definition STD_NONCE_INDEX :: nat where "STD_NONCE_INDEX = 19"
definition LBRY_NONCE_INDEX :: nat where "LBRY_NONCE_INDEX = 27"

definition opt_ntime_index :: "client_options \<Rightarrow> nat" where
  "opt_ntime_index opts = (if so_dialect (cl_work opts) = STRATUM_LBRY then LBRY_NTIME_INDEX else STD_NTIME_INDEX)"

definition opt_nonce_index :: "client_options \<Rightarrow> nat" where
  "opt_nonce_index opts = (if so_dialect (cl_work opts) = STRATUM_LBRY then LBRY_NONCE_INDEX else STD_NONCE_INDEX)"

definition std_le_build_stratum_request :: "client_options \<Rightarrow> string \<Rightarrow> submission \<Rightarrow> string" where
  "std_le_build_stratum_request opts rpc_user sb =
     (let w = sb_work sb;
          xnonce2str = bin2hex (take (w_xnonce2_len w) (case w_xnonce2 w of None \<Rightarrow> [] | Some x \<Rightarrow> x));
          ntimestr = bin2hex (le32enc (w_data w ! opt_ntime_index opts));
          noncestr = bin2hex (le32enc (w_data w ! opt_nonce_index opts))
      in take (JSON_BUF_LEN - 1) (json_submit_req [rpc_user, job_text w, xnonce2str, ntimestr, noncestr] (sb_id sb)))"

definition progpow_build_stratum_request :: "string \<Rightarrow> submission \<Rightarrow> string" where
  "progpow_build_stratum_request rpc_user sb =
     (let w = sb_work sb;
          header = concat (map (\<lambda>i. be32enc (w_data w ! i)) [0..<8])
      in take (JSON_BUF_LEN - 1) (json_submit_req [rpc_user, job_text w, ''0x'' @ hex64 (w_nonce w), ''0x'' @ bin2hex header,
           ''0x'' @ bin2hex (w_mixhash w)] (sb_id sb)))"

definition submit_upstream_work :: "client_options \<Rightarrow> string \<Rightarrow> submission \<Rightarrow> connection \<Rightarrow> (bool \<times> connection) option" where
  "submit_upstream_work opts rpc_user sb cn =
     (if \<not> so_have_stratum (cl_work opts) then Some (False, cn)
      else stratum_send_line (if so_dialect (cl_work opts) = STRATUM_PROGPOW then progpow_build_stratum_request rpc_user sb
                              else std_le_build_stratum_request opts rpc_user sb) cn)"

text \<open>
  The loop that sends one share, over the sessions it finds up, one for each time round. The last answer
  is whether the thread goes on.
\<close>

fun workio_submit_work ::
  "client_options \<Rightarrow> string \<Rightarrow> int \<Rightarrow> u32 list \<Rightarrow> int \<Rightarrow> submission \<Rightarrow> shares \<Rightarrow> connection \<Rightarrow> (bool \<times> shares \<times> connection) option" where
  "workio_submit_work opts user retries [] failures sb sr cn = None"
| "workio_submit_work opts user retries (s # ss) failures sb sr cn =
     (if so_have_stratum (cl_work opts) \<and> w_session (sb_work sb) \<noteq> s then Some (True, sr\<lparr>sr_stale := sr_stale sr + 1\<rparr>, cn)
      else case submit_upstream_work opts user sb cn of
             None \<Rightarrow> None
           | Some (True, cn) \<Rightarrow> Some (True, sr, cn)
           | Some (False, cn) \<Rightarrow>
               if 0 \<le> retries \<and> retries < failures + 1 then Some (False, sr, cn)
               else workio_submit_work opts user retries ss (failures + 1) sb sr cn)"

section \<open>The answer\<close>

fun strstr :: "string \<Rightarrow> string \<Rightarrow> bool" where
  "strstr [] needle = (needle = [])"
| "strstr (c # cs) needle = (take (length needle) (c # cs) = needle \<or> strstr cs needle)"

fun find_slot :: "nat \<Rightarrow> share_stats list \<Rightarrow> u32 \<Rightarrow> nat option" where
  "find_slot i [] ident = None"
| "find_slot i (e # es) ident = (if sh_time e \<noteq> 0 \<and> sh_id e = ident then Some i else find_slot (i + 1) es ident)"

text \<open>The entry an answer is about, taken out of the ring; none where there is no such entry.\<close>

definition share_slot :: "u32 \<Rightarrow> shares \<Rightarrow> share_stats \<times> shares" where
  "share_slot ident sr =
     (case find_slot 0 (sr_stats sr) ident of
        None \<Rightarrow> (no_stats, sr)
      | Some slot \<Rightarrow> (sr_stats sr ! slot, sr\<lparr>sr_stats := (sr_stats sr)[slot := no_stats]\<rparr>))"

definition share_result :: "bool \<Rightarrow> u32 \<Rightarrow> string option \<Rightarrow> shares \<Rightarrow> shares" where
  "share_result result ident reason sr =
     (let (my_stats, sr) = share_slot ident sr;
          sr = (if sh_time my_stats \<noteq> 0 then sr\<lparr>sr_last_submit := sh_time my_stats\<rparr> else sr);
          solved = (result \<and> 0 < sh_net_diff my_stats \<and> sh_net_diff my_stats \<le> sh_diff my_stats);
          stale = (\<not> result \<and> (case reason of None \<Rightarrow> False | Some r \<Rightarrow> strstr r ''job'' \<or> strstr r ''Job''));
          sr = (if result then
                  let sr = sr\<lparr>sr_accepted := sr_accepted sr + 1\<rparr>;
                      sr = (if 0 < sh_diff my_stats \<and> sh_diff my_stats < sr_lowest sr then sr\<lparr>sr_lowest := sh_diff my_stats\<rparr> else sr);
                      sr = (if sr_highest sr < sh_diff my_stats then sr\<lparr>sr_highest := sh_diff my_stats\<rparr> else sr)
                  in if solved then sr\<lparr>sr_solved := sr_solved sr + 1\<rparr> else sr
                else if stale then sr\<lparr>sr_stale := sr_stale sr + 1\<rparr> else sr\<lparr>sr_rejected := sr_rejected sr + 1\<rparr>);
          sr = (if result then
                  let sr = sr\<lparr>sr_accept_sum := sr_accept_sum sr + 1, sr_norm_diff := sr_norm_diff sr + sh_target_diff my_stats\<rparr>
                  in if solved then sr\<lparr>sr_solved_sum := sr_solved_sum sr + 1\<rparr> else sr
                else if stale then sr\<lparr>sr_stale_sum := sr_stale_sum sr + 1\<rparr> else sr\<lparr>sr_reject_sum := sr_reject_sum sr + 1\<rparr>)
      in sr\<lparr>sr_submit_sum := sr_submit_sum sr + 1\<rparr>)"

text \<open>\<^verbatim>\<open>stratum_handle_response\<close>: which answers are about a share.\<close>

definition stratum_handle_response :: "library \<Rightarrow> string \<Rightarrow> shares \<Rightarrow> bool \<times> shares" where
  "stratum_handle_response lib buf sr =
     (case lb_loads lib buf of
        None \<Rightarrow> (False, sr)
      | Some val \<Rightarrow>
          let res_val = json_object_get (Some val) ''result'';
              id_val = json_object_get (Some val) ''id'';
              err_val = json_object_get (Some val) ''error'';
              ident = json_integer_value id_val
          in if id_val = None \<or> json_is_null id_val then (False, sr)
             else if res_val = None \<or> ident < 4 then (False, sr)
             else (True, share_result (json_is_true res_val) (of_int ident)
                     (json_string_value (json_array_get err_val 1)) sr))"

end
