(* ===== verification/Share_Books.thy ===== *)
theory Share_Books
  imports Shares
begin

text \<open>
  Workers that submit, the thread that sends and the thread that reads answers, taking the operations of
  \<open>Shares\<close> in any order; and what an answer is booked on.
\<close>

section \<open>The machine\<close>

text \<open>What a worker has in hand between the stretches of \<^verbatim>\<open>submit_solution\<close>, and a log of the shares by their ids.\<close>

datatype hand = Empty | Claimed submission | Queued submission

record books =
  bk_shares :: shares
  bk_queue :: thread_q
  bk_hand :: "nat \<Rightarrow> hand"
  bk_conn :: connection
  bk_claims :: "submission list"

inductive share_step :: "client_options \<Rightarrow> library \<Rightarrow> string \<Rightarrow> int \<Rightarrow> books \<Rightarrow> books \<Rightarrow> bool" for opts lib user retries where
  claim: "bk_hand b i = Empty \<Longrightarrow> submit_claim opts lib target_diff hash w (bk_shares b) = (Some sb, sr) \<Longrightarrow>
     share_step opts lib user retries b
       (b\<lparr>bk_shares := sr, bk_hand := (bk_hand b)(i := Claimed sb), bk_claims := sb # bk_claims b\<rparr>)"
| queue: "bk_hand b i = Claimed sb \<Longrightarrow> tq_push (bk_queue b) sb = (ok, q) \<Longrightarrow>
     share_step opts lib user retries b (b\<lparr>bk_queue := q, bk_hand := (bk_hand b)(i := if ok then Queued sb else Empty)\<rparr>)"
| tell: "bk_hand b i = Queued sb \<Longrightarrow> 0 < now \<Longrightarrow>
     share_step opts lib user retries b
       (b\<lparr>bk_shares := update_submit_stats opts net_diff now sb (bk_shares b), bk_hand := (bk_hand b)(i := Empty)\<rparr>)"
| send: "tq_pop (bk_queue b) = Some (sb, q) \<Longrightarrow>
     workio_submit_work opts user retries sessions 0 sb (bk_shares b) (bk_conn b) = Some (goes_on, sr, cn) \<Longrightarrow>
     share_step opts lib user retries b
       (b\<lparr>bk_shares := sr, bk_conn := cn, bk_queue := if goes_on then q else tq_freeze q\<rparr>)"
| answer: "stratum_handle_response lib buf (bk_shares b) = (ok, sr) \<Longrightarrow>
     share_step opts lib user retries b (b\<lparr>bk_shares := sr\<rparr>)"
| reset: "share_step opts lib user retries b (b\<lparr>bk_shares := share_stats_reset (bk_shares b), bk_conn := cn\<rparr>)"

definition books_new :: "int \<Rightarrow> connection \<Rightarrow> books" where
  "books_new now cn = \<lparr>bk_shares = share_stats_init now, bk_queue = \<lparr>tq_items = [], tq_frozen = False\<rparr>, bk_hand = \<lambda>i. Empty,
     bk_conn = cn, bk_claims = []\<rparr>"

inductive share_reach :: "client_options \<Rightarrow> library \<Rightarrow> string \<Rightarrow> int \<Rightarrow> books \<Rightarrow> bool" for opts lib user retries where
  opened: "share_reach opts lib user retries (books_new now cn)"
| step: "share_reach opts lib user retries b \<Longrightarrow> share_step opts lib user retries b b' \<Longrightarrow> share_reach opts lib user retries b'"

section \<open>What an entry is about\<close>

text \<open>An entry in use is the entry of a submission.\<close>

definition entry_of :: "client_options \<Rightarrow> submission \<Rightarrow> share_stats \<Rightarrow> bool" where
  "entry_of opts sb e \<longleftrightarrow> sh_id e = sb_id sb \<and> sh_diff e = sb_diff sb \<and> sh_target_diff e = sb_target_diff sb * cl_target_factor opts \<and>
     sh_height e = w_height (sb_work sb) \<and>
     (so_have_stratum (cl_work opts) \<longrightarrow> sh_job_id e = take 30 (case w_job_id (sb_work sb) of None \<Rightarrow> [] | Some j \<Rightarrow> j))"

text \<open>The ids handed out so far are those from four on, each once.\<close>

definition entries_ok :: "client_options \<Rightarrow> submission list \<Rightarrow> shares \<Rightarrow> bool" where
  "entries_ok opts claims sr \<longleftrightarrow>
     length (sr_stats sr) = s_stats_size \<and> sr_put sr < s_stats_size \<and>
     unat (sr_next_id sr) = 4 + length claims \<and>
     map (unat \<circ> sb_id) claims = rev [4..<4 + length claims] \<and>
     (\<forall>e \<in> set (sr_stats sr). sh_time e \<noteq> 0 \<longrightarrow> (\<exists>sb \<in> set claims. entry_of opts sb e))"

definition hands_ok :: "books \<Rightarrow> bool" where
  "hands_ok b \<longleftrightarrow> set (tq_items (bk_queue b)) \<subseteq> set (bk_claims b) \<and>
     (\<forall>i sb. bk_hand b i \<in> {Claimed sb, Queued sb} \<longrightarrow> sb \<in> set (bk_claims b))"

lemma entries_ok_frame:
  assumes "entries_ok opts claims sr" "sr_stats sr' = sr_stats sr" "sr_put sr' = sr_put sr" "sr_next_id sr' = sr_next_id sr"
  shows "entries_ok opts claims sr'"
  using assms by (simp add: entries_ok_def)

lemma share_slot_frame:
  assumes "share_slot ident sr = (e, sr')"
  shows "sr_put sr' = sr_put sr" "sr_next_id sr' = sr_next_id sr" "length (sr_stats sr') = length (sr_stats sr)"
    "\<forall>x \<in> set (sr_stats sr'). sh_time x \<noteq> 0 \<longrightarrow> x \<in> set (sr_stats sr)"
  using assms by (auto simp: share_slot_def no_stats_def split: option.splits dest!: set_update_subset_insert [THEN subsetD])

lemma share_result_frame:
  "sr_put (share_result result ident reason sr) = sr_put sr" "sr_next_id (share_result result ident reason sr) = sr_next_id sr"
  "sr_stats (share_result result ident reason sr) = sr_stats (snd (share_slot ident sr))"
proof -
  obtain e sr' where s: "share_slot ident sr = (e, sr')" by (metis surj_pair)
  show "sr_put (share_result result ident reason sr) = sr_put sr" "sr_next_id (share_result result ident reason sr) = sr_next_id sr"
    "sr_stats (share_result result ident reason sr) = sr_stats (snd (share_slot ident sr))"
    using share_slot_frame(1,2) [OF s] by (simp_all add: share_result_def s Let_def)
qed

lemma share_result_entries:
  assumes "entries_ok opts claims sr"
  shows "entries_ok opts claims (share_result result ident reason sr)"
proof -
  obtain e sr' where s: "share_slot ident sr = (e, sr')" by (metis surj_pair)
  show ?thesis using assms share_slot_frame [OF s] by (simp add: entries_ok_def share_result_frame s)
qed

lemma workio_frame:
  assumes "workio_submit_work opts user retries sessions n sb sr cn = Some (goes_on, sr', cn')"
  shows "sr_stats sr' = sr_stats sr" "sr_put sr' = sr_put sr" "sr_next_id sr' = sr_next_id sr"
  using assms
  by (induction opts user retries sessions n sb sr cn rule: workio_submit_work.induct)
     (auto split: if_splits option.splits bool.splits)

lemma submit_claim_entries:
  assumes "entries_ok opts claims sr" "submit_claim opts lib td hash w sr = (Some sb, sr')" "length claims < 2 ^ 32 - 5"
  shows "entries_ok opts (sb # claims) sr'"
proof -
  have sb: "sb_id sb = sr_next_id sr" "sr_stats sr' = sr_stats sr" "sr_put sr' = sr_put sr"
    "sr_next_id sr' = (if sr_next_id sr + 1 < s_first_submit_id then s_first_submit_id else sr_next_id sr + 1)"
    using assms(2) by (auto simp: submit_claim_def claim_submit_id_def Let_def split: if_splits)
  have u: "unat (sr_next_id sr) = 4 + length claims" using assms(1) by (simp add: entries_ok_def)
  then have n: "unat (sr_next_id sr + 1) = 5 + length claims"
    using assms(3) by (subst unat_add_exact) simp_all
  then have "\<not> sr_next_id sr + 1 < s_first_submit_id" by (simp add: word_less_nat_alt s_first_submit_id_def)
  moreover have "[4..<5 + length claims] = [4..<4 + length claims] @ [4 + length claims]"
    using upt_Suc_append [of 4 "4 + length claims"] by simp
  ultimately show ?thesis using assms(1) u n sb by (auto simp: entries_ok_def)
qed

lemma update_stats_entries:
  assumes "entries_ok opts claims sr" "sb \<in> set claims"
  shows "entries_ok opts claims (update_submit_stats opts net_diff now sb sr)"
proof -
  obtain e where e: "entry_of opts sb e" "sr_stats (update_submit_stats opts net_diff now sb sr) = (sr_stats sr)[sr_put sr := e]"
    "sr_put (update_submit_stats opts net_diff now sb sr) = stats_ptr_incr (sr_put sr)"
    "sr_next_id (update_submit_stats opts net_diff now sb sr) = sr_next_id sr"
    by (rule that [where e = "sr_stats (update_submit_stats opts net_diff now sb sr) ! sr_put sr"])
       (use assms(1) in \<open>simp_all add: update_submit_stats_def Let_def entry_of_def entries_ok_def\<close>)
  have "\<forall>x \<in> set ((sr_stats sr)[sr_put sr := e]). x = e \<or> x \<in> set (sr_stats sr)"
    using set_update_subset_insert [of "sr_stats sr" "sr_put sr" e] by blast
  then show ?thesis using assms e by (auto simp: entries_ok_def stats_ptr_incr_def s_stats_size_def)
qed

lemma entries_new: "entries_ok opts [] (share_stats_init now)"
  by (simp add: entries_ok_def share_stats_init_def s_stats_size_def s_first_submit_id_def no_stats_def)

lemma reset_entries:
  assumes "entries_ok opts claims sr"
  shows "entries_ok opts claims (share_stats_reset sr)"
  using assms by (simp add: entries_ok_def share_stats_reset_def s_stats_size_def no_stats_def)

lemma share_step_keeps:
  assumes "share_step opts lib user retries b b'" "entries_ok opts (bk_claims b) (bk_shares b)" "hands_ok b"
    and "length (bk_claims b) < 2 ^ 32 - 5"
  shows "entries_ok opts (bk_claims b') (bk_shares b') \<and> hands_ok b'"
  using assms(1)
proof cases
  case (claim i td hash w sb sr)
  then show ?thesis using submit_claim_entries [OF assms(2) claim(3) assms(4)] assms(3) by (auto simp: hands_ok_def)
next
  case (queue i sb ok q)
  then show ?thesis using assms(2,3) by (auto simp: hands_ok_def tq_push_def split: if_splits)
next
  case (tell i sb now net_diff)
  then have "sb \<in> set (bk_claims b)" using assms(3) by (auto simp: hands_ok_def)
  then show ?thesis using tell update_stats_entries [OF assms(2)] assms(3) by (auto simp: hands_ok_def)
next
  case (send sb q sessions goes_on sr cn)
  have "set (tq_items q) \<subseteq> set (tq_items (bk_queue b))" using send(2) by (auto simp: tq_pop_def split: list.splits)
  then show ?thesis using send entries_ok_frame [OF assms(2) workio_frame [OF send(3)]] assms(3)
    by (auto simp: hands_ok_def tq_freeze_def)
next
  case (answer buf ok sr)
  then have "sr = bk_shares b \<or> (\<exists>result ident reason. sr = share_result result ident reason (bk_shares b))"
    by (auto simp: stratum_handle_response_def Let_def split: option.splits if_splits)
  then show ?thesis using answer(1) assms(2,3) share_result_entries [OF assms(2)] by (auto simp: hands_ok_def)
next
  case (reset cn)
  then show ?thesis using reset_entries [OF assms(2)] assms(3) by (simp add: hands_ok_def)
qed

lemma claims_grow:
  "share_step opts lib user retries b b' \<Longrightarrow> length (bk_claims b) \<le> length (bk_claims b')"
  by (induction rule: share_step.induct) simp_all

lemma share_reach_ok:
  assumes "share_reach opts lib user retries b" "length (bk_claims b) < 2 ^ 32 - 5"
  shows "entries_ok opts (bk_claims b) (bk_shares b)" "hands_ok b"
proof -
  have "entries_ok opts (bk_claims b) (bk_shares b) \<and> hands_ok b"
    using assms
  proof induction
    case (opened now cn)
    then show ?case by (simp add: books_new_def entries_new hands_ok_def)
  next
    case (step b b')
    have "length (bk_claims b) < 2 ^ 32 - 5" using claims_grow [OF step.hyps(2)] step.prems by simp
    then show ?case using share_step_keeps [OF step.hyps(2)] step.IH by blast
  qed
  then show "entries_ok opts (bk_claims b) (bk_shares b)" "hands_ok b" by simp_all
qed

lemma ids_distinct:
  assumes "entries_ok opts claims sr" "s \<in> set claims" "t \<in> set claims" "sb_id s = sb_id t"
  shows "s = t"
proof -
  have "distinct (map (unat \<circ> sb_id) claims)" using assms(1) by (simp add: entries_ok_def)
  then show ?thesis using assms(2-4) by (simp add: distinct_map inj_on_def)
qed

lemma find_slot_Some:
  "find_slot k es ident = Some j \<Longrightarrow> k \<le> j \<and> j - k < length es \<and> sh_time (es ! (j - k)) \<noteq> 0 \<and> sh_id (es ! (j - k)) = ident"
proof (induction k es ident rule: find_slot.induct)
  case (2 k e es ident)
  show ?case
  proof (cases "sh_time e \<noteq> 0 \<and> sh_id e = ident")
    case False
    then have h: "k + 1 \<le> j \<and> j - (k + 1) < length es \<and> sh_time (es ! (j - (k + 1))) \<noteq> 0 \<and> sh_id (es ! (j - (k + 1))) = ident"
      using 2 by (auto split: if_splits)
    then have "k + 1 \<le> j" by blast
    then have "j - k = Suc (j - (k + 1))" by linarith
    then show ?thesis using h by simp
  qed (use 2 in simp)
qed simp

text \<open>
  Claim C15. An answer is booked on the share it answers. Whatever workers submit, the queue holds and
  pools answer, in whatever order: where an answer under an id finds an entry of the ring, that entry is
  the one of the share whose request carries that id, and of no other; until some four thousand million
  shares have been submitted and ids come round again.
\<close>

theorem answer_finds_its_share:
  assumes "share_reach opts lib user retries b" "length (bk_claims b) < 2 ^ 32 - 5"
    and "share_slot ident (bk_shares b) = (e, sr)" "sh_time e \<noteq> 0"
  shows "\<exists>!sb. sb \<in> set (bk_claims b) \<and> sb_id sb = ident \<and> entry_of opts sb e"
proof -
  note ok = share_reach_ok(1) [OF assms(1,2)]
  obtain j where j: "find_slot 0 (sr_stats (bk_shares b)) ident = Some j" "e = sr_stats (bk_shares b) ! j"
    using assms(3,4) by (auto simp: share_slot_def no_stats_def split: option.splits)
  then have e: "e \<in> set (sr_stats (bk_shares b))" "sh_id e = ident" using find_slot_Some [OF j(1)] by simp_all
  then obtain sb where sb: "sb \<in> set (bk_claims b)" "entry_of opts sb e" using ok assms(4) by (auto simp: entries_ok_def)
  then have "sb_id sb = ident" using e(2) by (simp add: entry_of_def)
  then show ?thesis using sb ids_distinct [OF ok] by metis
qed

section \<open>An example\<close>

definition example_share_options :: client_options where
  "example_share_options = \<lparr>cl_work = \<lparr>so_dialect = STRATUM_BITCOIN, so_coinbase_sha256 = False, so_have_stratum = True\<rparr>,
     cl_nonce_bits = 32, cl_target_factor = 1, cl_redirect = False, cl_algo = ''sha256d'', cl_agent = ''vkminer''\<rparr>"

definition example_share_library :: library where
  "example_share_library = \<lparr>lb_loads = \<lambda>s. None, lb_dumps = \<lambda>v. [], lb_hash_to_diff = \<lambda>h. 3, lb_fresh = \<lambda>i. 0\<rparr>"

definition example_submission :: submission where
  "example_submission = \<lparr>sb_work = zero_work\<lparr>w_job_id := Some ''8a'', w_height := 77\<rparr>, sb_id = 4, sb_diff = 3, sb_target_diff = 2\<rparr>"

definition example_wire :: connection where
  "example_wire = \<lparr>cn_url = [], cn_curl = True, cn_sockbuf = [], cn_waits = [], cn_reads = [], cn_writes = [], cn_wire = []\<rparr>"

text \<open>One share: its id taken, its copy queued, the ring told.\<close>

definition example_claimed :: books where
  "example_claimed = (books_new 1 example_wire)\<lparr>bk_shares := (share_stats_init 1)\<lparr>sr_next_id := 5\<rparr>,
     bk_hand := (\<lambda>i. Empty)(0 := Claimed example_submission), bk_claims := [example_submission]\<rparr>"

definition example_queued :: books where
  "example_queued = example_claimed\<lparr>bk_queue := \<lparr>tq_items = [example_submission], tq_frozen = False\<rparr>,
     bk_hand := (\<lambda>i. Empty)(0 := Queued example_submission)\<rparr>"

definition example_told :: books where
  "example_told = example_queued\<lparr>bk_shares := update_submit_stats example_share_options 9 5 example_submission
     ((share_stats_init 1)\<lparr>sr_next_id := 5\<rparr>), bk_hand := (\<lambda>i. Empty)(0 := Empty)\<rparr>"

lemma example_books_reach: "share_reach example_share_options example_share_library user retries example_told"
proof -
  have "submit_claim example_share_options example_share_library 2 [] (zero_work\<lparr>w_job_id := Some ''8a'', w_height := 77\<rparr>) (share_stats_init 1) =
      (Some example_submission, (share_stats_init 1)\<lparr>sr_next_id := 5\<rparr>)"
    by (simp add: submit_claim_def claim_submit_id_def example_share_options_def example_share_library_def example_submission_def
      share_stats_init_def s_first_submit_id_def)
  then have "share_step example_share_options example_share_library user retries (books_new 1 example_wire) example_claimed"
    using claim [of "books_new 1 example_wire" 0] by (simp add: books_new_def example_claimed_def)
  moreover have "share_step example_share_options example_share_library user retries example_claimed example_queued"
    using queue [of example_claimed 0 example_submission True "\<lparr>tq_items = [example_submission], tq_frozen = False\<rparr>"]
    by (simp add: example_claimed_def example_queued_def books_new_def tq_push_def)
  moreover have "share_step example_share_options example_share_library user retries example_queued example_told"
    using tell [of example_queued 0 example_submission 5 example_share_options example_share_library user retries 9]
    by (simp add: example_claimed_def example_queued_def example_told_def books_new_def)
  ultimately show ?thesis using opened step by metis
qed

lemma answer_finds_its_share_witness:
  "\<exists>!sb. sb \<in> {example_submission} \<and> sb_id sb = 4 \<and>
     entry_of example_share_options sb (fst (share_slot 4 (bk_shares example_told)))"
proof -
  have t: "sr_stats (bk_shares example_told) = \<lparr>sh_count = 1, sh_id = 4, sh_time = 5, sh_net_diff = 9, sh_diff = 3, sh_target_diff = 2,
      sh_height = 77, sh_job_id = ''8a''\<rparr> # replicate 63 no_stats"
    by (simp add: example_told_def update_submit_stats_def share_stats_init_def s_stats_size_def numeral_eq_Suc no_stats_def
      example_submission_def example_share_options_def)
  have "sh_time (fst (share_slot 4 (bk_shares example_told))) \<noteq> 0" by (simp add: share_slot_def t)
  moreover have "bk_claims example_told = [example_submission]"
    by (simp add: example_told_def example_queued_def example_claimed_def)
  ultimately show ?thesis
    using answer_finds_its_share [OF example_books_reach, of 4 "fst (share_slot 4 (bk_shares example_told))"
      "snd (share_slot 4 (bk_shares example_told))"] by simp
qed

end
