(* ===== verification/Stratum_Session.thy ===== *)
theory Stratum_Session
  imports Shares Control
begin

text \<open>
  A session with a pool: \<^verbatim>\<open>stratum_connect\<close>, \<^verbatim>\<open>stratum_subscribe\<close> and \<^verbatim>\<open>stratum_authorize\<close> of
  \<^verbatim>\<open>src/stratum/stratum.c\<close>, and what a subscription that is refused does on its way out.
\<close>

section \<open>Connecting\<close>

text \<open>Whether there is a handle for it, whether the peer takes it, and what it will answer then.\<close>

datatype dialled = No_Handle | Refused | Connected

record connect_answers =
  ca_dialled :: dialled
  ca_waits :: "bool list"
  ca_reads :: "(net_read \<times> int) list"
  ca_writes :: "net_write list"

definition stratum_connect :: "connect_answers \<Rightarrow> string \<Rightarrow> connection \<Rightarrow> bool \<times> connection" where
  "stratum_connect ca url cn =
     (if ca_dialled ca = No_Handle then (False, cn\<lparr>cn_curl := False\<rparr>)
      else let cn = cn\<lparr>cn_sockbuf := [], cn_url := url\<rparr>
           in if ca_dialled ca = Refused then (False, cn\<lparr>cn_curl := False\<rparr>)
              else (True, cn\<lparr>cn_curl := True, cn_waits := ca_waits ca, cn_reads := ca_reads ca, cn_writes := ca_writes ca,
                         cn_wire := []\<rparr>))"

section \<open>Subscribing\<close>

text \<open>The first element of the list of subscriptions that names a session.\<close>

fun session_among :: "json list \<Rightarrow> string option" where
  "session_among [] = None"
| "session_among (a # as) =
     (if \<not> json_is_array (Some a) then None
      else case json_string_value (json_array_get (Some a) 0) of
             None \<Rightarrow> session_among as
           | Some notify \<Rightarrow>
               if strcasecmp_eq notify ''mining.notify'' then json_string_value (json_array_get (Some a) 1) else session_among as)"

definition get_stratum_session_id :: "json option \<Rightarrow> string option" where
  "get_stratum_session_id val =
     (let arr = json_array_get val 0
      in if arr = None \<or> \<not> json_is_array arr then None else session_among (json_elements arr))"

definition call_text :: "nat \<Rightarrow> string \<Rightarrow> string list \<Rightarrow> string" where
  "call_text ident method params =
     ''{'' @ quoted ''id'' @ '': '' @ decimal ident @ '', '' @ quoted ''method'' @ '': '' @ quoted method @ '', '' @ quoted ''params'' @
     '': ['' @ concat (case params of [] \<Rightarrow> [] | p # ps \<Rightarrow> quoted p # map (\<lambda>p. '', '' @ quoted p) ps) @ '']}''"

definition subscribe_text :: "client_options \<Rightarrow> bool \<Rightarrow> stratum_ctx \<Rightarrow> string" where
  "subscribe_text opts retry sctx =
     call_text 1 ''mining.subscribe''
       (if retry then [] else case sx_session_id sctx of Some sid \<Rightarrow> [cl_agent opts, sid] | None \<Rightarrow> [cl_agent opts])"

text \<open>
  One try. \<open>val\<close> is the variable of that name as it is found at the end: null, a reply this try holds, or
  one that an earlier try has released already. The answer says whether a line was received as well.
\<close>

datatype reply_var = Null | Held | Dangling

definition subscribed :: "client_options \<Rightarrow> json option \<Rightarrow> stratum_ctx \<Rightarrow> bool \<times> stratum_ctx" where
  "subscribed opts res_val sctx =
     (let sctx = sctx\<lparr>sx_session_id := get_stratum_session_id res_val, sx_next_diff := 1\<rparr>
      in if so_dialect (cl_work opts) = STRATUM_PROGPOW then stratum_parse_nonce_prefix opts res_val 1 sctx
         else stratum_parse_extranonce res_val 1 sctx)"

definition refused_reply :: "json \<Rightarrow> bool" where
  "refused_reply val \<longleftrightarrow>
     (let res_val = json_object_get (Some val) ''result''; err_val = json_object_get (Some val) ''error''
      in res_val = None \<or> json_is_null res_val \<or> (err_val \<noteq> None \<and> \<not> json_is_null err_val))"

definition subscribe_try ::
  "client_options \<Rightarrow> library \<Rightarrow> bool \<Rightarrow> reply_var \<Rightarrow> stratum_client \<Rightarrow> (bool \<times> bool \<times> reply_var \<times> stratum_client) option" where
  "subscribe_try opts lib retry val sm =
     (case stratum_send_line (subscribe_text opts retry (sm_ctx sm)) (sm_conn sm) of
        None \<Rightarrow> None
      | Some (sent, cn) \<Rightarrow>
          if \<not> sent then Some (False, False, val, sm\<lparr>sm_conn := cn\<rparr>)
          else case socket_full cn of
            None \<Rightarrow> None
          | Some (ready, cn) \<Rightarrow>
              if \<not> ready then Some (False, False, val, sm\<lparr>sm_conn := cn\<rparr>)
              else case stratum_recv_line cn of
                None \<Rightarrow> None
              | Some (None, cn) \<Rightarrow> Some (False, False, val, sm\<lparr>sm_conn := cn\<rparr>)
              | Some (Some line, cn) \<Rightarrow>
                  case lb_loads lib line of
                    None \<Rightarrow> Some (False, True, Null, sm\<lparr>sm_conn := cn\<rparr>)
                  | Some v \<Rightarrow>
                      if refused_reply v then Some (False, True, Held, sm\<lparr>sm_conn := cn\<rparr>)
                      else let (ok, sctx) = subscribed opts (json_object_get (Some v) ''result'') (sm_ctx sm)
                           in Some (ok, True, Held, sm\<lparr>sm_ctx := sctx, sm_conn := cn\<rparr>))"

text \<open>At the end of a try a reply is released, held or not; a first try that failed with a line received is repeated.\<close>

definition stratum_subscribe :: "client_options \<Rightarrow> library \<Rightarrow> stratum_client \<Rightarrow> (bool \<times> bool \<times> stratum_client) option" where
  "stratum_subscribe opts lib sm =
     (case subscribe_try opts lib False Null sm of
        None \<Rightarrow> None
      | Some (ok, received, val, sm) \<Rightarrow>
          if ok \<or> \<not> received then Some (ok, False, sm)
          else case subscribe_try opts lib True (if val = Null then Null else Dangling) sm of
                 None \<Rightarrow> None
               | Some (ok, received, val, sm) \<Rightarrow> Some (ok, val = Dangling, sm))"

text \<open>
  A reply released twice: where the pool refuses a subscription and the second try cannot be sent, the
  variable still points at the first reply, which was released at the end of the first try.
\<close>

theorem refused_subscription_released_twice:
  assumes "stratum_send_line (subscribe_text opts False (sm_ctx sm)) (sm_conn sm) = Some (True, cn1)"
    and "socket_full cn1 = Some (True, cn2)" "stratum_recv_line cn2 = Some (Some line, cn3)"
    and "lb_loads lib line = Some v" "refused_reply v"
    and "stratum_send_line (subscribe_text opts True (sm_ctx sm)) cn3 = Some (False, cn4)"
  shows "stratum_subscribe opts lib sm = Some (False, True, sm\<lparr>sm_conn := cn4\<rparr>)"
  using assms by (simp add: stratum_subscribe_def subscribe_try_def)

section \<open>Authorizing\<close>

text \<open>Messages are handled until one is none.\<close>

partial_function (option) until_no_method ::
  "client_options \<Rightarrow> library \<Rightarrow> stratum_client \<Rightarrow> (string option \<times> stratum_client) option" where
  "until_no_method opts lib sm =
     (case stratum_recv_line (sm_conn sm) of
        None \<Rightarrow> None
      | Some (None, cn) \<Rightarrow> Some (None, sm\<lparr>sm_conn := cn\<rparr>)
      | Some (Some line, cn) \<Rightarrow>
          case stratum_handle_method opts lib line (sm\<lparr>sm_conn := cn\<rparr>) of
            None \<Rightarrow> None
          | Some (handled, sm) \<Rightarrow> if handled then until_no_method opts lib sm else Some (Some line, sm))"

definition extranonce_subscribe :: "client_options \<Rightarrow> library \<Rightarrow> stratum_client \<Rightarrow> stratum_client option" where
  "extranonce_subscribe opts lib sm =
     (case stratum_send_line (call_text 3 ''mining.extranonce.subscribe'' []) (sm_conn sm) of
        None \<Rightarrow> None
      | Some (sent, cn) \<Rightarrow>
          if \<not> sent then Some (sm\<lparr>sm_conn := cn\<rparr>)
          else case socket_full cn of
            None \<Rightarrow> None
          | Some (ready, cn) \<Rightarrow>
              if \<not> ready then Some (sm\<lparr>sm_conn := cn, sm_extranonce := False\<rparr>)
              else case stratum_recv_line cn of
                None \<Rightarrow> None
              | Some (None, cn) \<Rightarrow> Some (sm\<lparr>sm_conn := cn\<rparr>)
              | Some (Some line, cn) \<Rightarrow>
                  case lb_loads lib line of
                    None \<Rightarrow> Some (sm\<lparr>sm_conn := cn\<rparr>)
                  | Some extra \<Rightarrow>
                      if json_integer_value (json_object_get (Some extra) ''id'') \<noteq> 3
                      then map_option snd (stratum_handle_method opts lib line (sm\<lparr>sm_conn := cn\<rparr>))
                      else Some (sm\<lparr>sm_conn := cn\<rparr>))"

definition stratum_authorize ::
  "client_options \<Rightarrow> library \<Rightarrow> string \<Rightarrow> string \<Rightarrow> stratum_client \<Rightarrow> (bool \<times> stratum_client) option" where
  "stratum_authorize opts lib user pass sm =
     (case stratum_send_line (call_text 2 ''mining.authorize'' [user, pass]) (sm_conn sm) of
        None \<Rightarrow> None
      | Some (sent, cn) \<Rightarrow>
          if \<not> sent then Some (False, sm\<lparr>sm_conn := cn\<rparr>)
          else case until_no_method opts lib (sm\<lparr>sm_conn := cn\<rparr>) of
            None \<Rightarrow> None
          | Some (None, sm) \<Rightarrow> Some (False, sm)
          | Some (Some line, sm) \<Rightarrow>
              case lb_loads lib line of
                None \<Rightarrow> Some (False, sm)
              | Some val \<Rightarrow>
                  let res_val = json_object_get (Some val) ''result''; err_val = json_object_get (Some val) ''error''
                  in if res_val = None \<or> json_is_false res_val \<or> (err_val \<noteq> None \<and> \<not> json_is_null err_val) then Some (False, sm)
                     else if \<not> sm_extranonce sm then Some (True, sm)
                     else map_option (Pair True) (extranonce_subscribe opts lib sm))"

end
