(* ===== verification/Pool_Properties.thy ===== *)
theory Pool_Properties
  imports Stratum_Jobs Share_Books
begin

text \<open>
  A share and the job it answers, from the message that brought the one to the message that takes the
  other away.
\<close>

section \<open>The header comes back as it was sent\<close>

definition progpow_params :: "string \<Rightarrow> u8 list \<Rightarrow> u8 list \<Rightarrow> json list \<Rightarrow> json" where
  "progpow_params job_id header seed rest = JArray ([JString job_id, hex_json header, hex_json seed] @ rest)"

lemma progpow_notify_job:
  assumes "stratum_progpow_notify (Some (progpow_params job_id header seed rest)) sctx = (True, sctx')" "length header = 32"
  shows "j_header_hash (sx_job sctx') = header" "j_job_id (sx_job sctx') = Some job_id"
  using assms
  by (auto simp: stratum_progpow_notify_def progpow_params_def hex_json_def Let_def numeral_eq_Suc split: option.splits if_splits)

lemma for_up_words:
  assumes "n \<le> length d" "i < n"
  shows "for_up n (\<lambda>i d. d[i := f i]) d ! i = f i"
  using assms by (simp add: nth_for_up_tabulate)

lemma header_bytes_back:
  assumes "length h = 32"
  shows "concat (map (\<lambda>i. be32enc (word_be h i)) [0..<8]) = h"
proof -
  have "be32enc (word_be h i) = take 4 (drop (i * 4) h)" if "i < 8" for i
    using that assms by (simp add: word_be_def)
  then have "concat (map (\<lambda>i. be32enc (word_be h i)) [0..<8]) = concat (map (\<lambda>i. take 4 (drop (i * 4) h)) [0..<8])"
    by (intro arg_cong [where f = concat] map_cong) simp_all
  also have "\<dots> = take (8 * 4) h"
  proof -
    have "concat (map (\<lambda>i. take 4 (drop (i * 4) h)) [0..<n]) = take (n * 4) h" for n
      by (induction n) (simp_all add: take_add [symmetric] add.commute)
    then show ?thesis .
  qed
  finally show ?thesis using assms by simp
qed

lemma progpow_work_header:
  assumes "so_dialect opts = STRATUM_PROGPOW" "stratum_gen_work opts target session sctx g = (new, sctx', w)" "i < 8"
  shows "w_data w ! i = word_be (j_header_hash (sx_job sctx)) i" "w_job_id w = j_job_id (sx_job sctx)"
  using assms by (auto simp: stratum_gen_work_def progpow_gen_work_def Let_def for_up_words)

text \<open>
  Claim C16. A share goes up with the job it came from. For a pool that hashes the header itself, the
  request for a share of the work made of a job names that job and carries its header digit for digit as
  the pool sent it, beside the whole nonce and the mix.
\<close>

theorem share_echoes_job:
  assumes "so_dialect (cl_work opts) = STRATUM_PROGPOW" "length header = 32"
    and "stratum_notify opts lib (Some (progpow_params job_id header seed rest)) sctx = (True, sctx1)"
    and "stratum_gen_work (cl_work opts) target session sctx1 g = (new, sctx2, w)"
    and "sb_work sb = w\<lparr>w_nonce := nonce, w_mixhash := mix\<rparr>"
  shows "progpow_build_stratum_request user sb = take 511 (json_submit_req
    [user, job_id, ''0x'' @ hex64 nonce, ''0x'' @ bin2hex header, ''0x'' @ bin2hex mix] (sb_id sb))"
proof -
  have "stratum_progpow_notify (Some (progpow_params job_id header seed rest)) sctx = (True, sctx1)"
    using assms(1,3) by (simp add: stratum_notify_def)
  note j = progpow_notify_job [OF this assms(2)]
  note w = progpow_work_header [OF assms(1,4)]
  have "concat (map (\<lambda>i. be32enc (w_data w ! i)) [0..<8]) = concat (map (\<lambda>i. be32enc (word_be header i)) [0..<8])"
    using w(1) j(1) by (intro arg_cong [where f = concat] map_cong) simp_all
  then have "concat (map (\<lambda>i. be32enc (w_data w ! i)) [0..<8]) = header" using header_bytes_back [OF assms(2)] by simp
  moreover have "w_job_id w = Some job_id" using w(2) [of 0] j(2) by simp
  ultimately show ?thesis
    using assms(5) by (simp add: progpow_build_stratum_request_def job_text_def JSON_BUF_LEN_def)
qed

section \<open>The nonce keeps the pool's prefix\<close>

lemma bit_or_fold:
  "bit (fold (\<lambda>i base. base OR f i) xs b) m \<longleftrightarrow> bit b m \<or> (\<exists>i \<in> set xs. bit (f i :: u64) m)"
  by (induction xs arbitrary: b) (auto simp: bit_simps)

definition nonce_base_of :: "u8 list \<Rightarrow> u64" where
  "nonce_base_of x = fold (\<lambda>i base. base OR push_bit (56 - i * 8) (ucast (x ! i))) [0..<min (length x) 8] 0"

lemma bit_nonce_base:
  assumes "length x \<le> 8"
  shows "bit (nonce_base_of x) m \<longleftrightarrow> m < 64 \<and> 7 - m div 8 < length x \<and> bit (x ! (7 - m div 8)) (m mod 8)"
proof -
  have e: "bit (push_bit (56 - i * 8) (ucast (x ! i)) :: u64) m \<longleftrightarrow> m < 64 \<and> i = 7 - m div 8 \<and> bit (x ! i) (m mod 8)" if "i < 8" for i
  proof -
    have "bit (push_bit (56 - i * 8) (ucast (x ! i)) :: u64) m \<longleftrightarrow> m < 64 \<and> 56 - i * 8 \<le> m \<and> bit (x ! i) (m - (56 - i * 8))"
      by (auto simp: bit_simps)
    also have "\<dots> \<longleftrightarrow> m < 64 \<and> 56 - i * 8 \<le> m \<and> m < 64 - i * 8 \<and> bit (x ! i) (m - (56 - i * 8))"
      using that by (auto dest: bit_imp_le_length)
    also have "\<dots> \<longleftrightarrow> m < 64 \<and> i = 7 - m div 8 \<and> bit (x ! i) (m mod 8)"
    proof -
      have "56 - i * 8 \<le> m \<and> m < 64 - i * 8 \<longleftrightarrow> m < 64 \<and> i = 7 - m div 8" using that by auto
      moreover have "m - (56 - i * 8) = m mod 8" if "m < 64" "i = 7 - m div 8"
      proof -
        have "m div 8 \<le> 7" using that(1) by auto
        then have "56 - i * 8 = m div 8 * 8" using that(2) by auto
        then show ?thesis by (simp add: minus_div_mult_eq_mod)
      qed
      ultimately show ?thesis by auto
    qed
    finally show ?thesis .
  qed
  show ?thesis using e assms by (auto simp: nonce_base_of_def bit_or_fold)
qed

lemma take_bin2hex: "take (2 * n) (bin2hex b) = bin2hex (take n b)"
proof (induction n arbitrary: b)
  case (Suc n)
  then show ?case by (cases b) (simp_all add: bin2hex_def hex_byte_def)
qed (simp add: bin2hex_def)

lemma nonce_bytes:
  assumes "length x \<le> 8" "unat k < 2 ^ (64 - 8 * length x)"
  shows "take (length x) (be64_of (nonce_base_of x + k)) = x"
proof -
  have high: "\<not> bit k m" if "64 - 8 * length x \<le> m" for m
  proof -
    have "unat k < 2 ^ m" using assms(2) that by (meson less_le_trans one_le_numeral power_increasing)
    then have "take_bit m (unat k) = unat k" by (simp add: take_bit_nat_eq_self)
    then have "take_bit m k = k" by (simp add: word_unat_eq_iff unsigned_take_bit_eq)
    then show ?thesis by (metis bit_take_bit_iff less_irrefl)
  qed
  have low: "\<not> bit (nonce_base_of x) m" if "m < 64 - 8 * length x" for m
    using that assms(1) by (auto simp: bit_nonce_base)
  have sum: "nonce_base_of x + k = nonce_base_of x OR k"
    by (rule disjunctive_add) (metis high low not_less)
  show ?thesis
  proof (rule nth_equalityI)
    fix i assume "i < length (take (length x) (be64_of (nonce_base_of x + k)))"
    then have i: "i < length x" "i < 8" by (simp_all add: be64_of_def)
    have "ucast (drop_bit (56 - i * 8) (nonce_base_of x OR k)) = x ! i"
    proof (rule bit_word_eqI)
      fix j :: nat assume "j < LENGTH(8)"
      then have j: "j < 8" by simp
      have m: "(56 - i * 8 + j) div 8 = 7 - i" "(56 - i * 8 + j) mod 8 = j" "56 - i * 8 + j < 64"
      proof -
        have "56 - i * 8 = (7 - i) * 8" using i(2) by auto
        then show "(56 - i * 8 + j) div 8 = 7 - i" "(56 - i * 8 + j) mod 8 = j" "56 - i * 8 + j < 64" using j i(2) by auto
      qed
      have "\<not> bit k (56 - i * 8 + j)" by (rule high) (use i in auto)
      moreover have "bit (nonce_base_of x) (56 - i * 8 + j) \<longleftrightarrow> bit (x ! i) j"
        using m i by (simp add: bit_nonce_base [OF assms(1)])
      ultimately show "bit (ucast (drop_bit (56 - i * 8) (nonce_base_of x OR k)) :: u8) j = bit (x ! i) j"
        using j by (simp add: bit_simps)
    qed
    then show "take (length x) (be64_of (nonce_base_of x + k)) ! i = x ! i"
      using i by (simp add: be64_of_def sum)
  qed (use assms(1) in \<open>simp add: be64_of_def\<close>)
qed

text \<open>
  Claim C17. A nonce keeps the pool's prefix. Where the pool has given the miner the front of its nonces,
  in as many bytes as the algorithm leaves it, every nonce of the range a job is then mined in is written,
  in the request for a share, with just that prefix in front.
\<close>

theorem nonce_keeps_prefix:
  assumes "so_dialect (cl_work opts) = STRATUM_PROGPOW" "lower_hex prefix" "8 dvd cl_nonce_bits opts" "cl_nonce_bits opts \<le> 64"
    and "stratum_parse_nonce_prefix opts (Some (JArray (front @ JString prefix # rest))) (length front) sctx = (True, sctx1)"
    and "sx_xnonce1 sctx2 = sx_xnonce1 sctx1"
    and "stratum_gen_work (cl_work opts) target session sctx2 g = (new, sctx3, w)"
    and "unat k < 2 ^ cl_nonce_bits opts"
  shows "take (length prefix) (hex64 (w_nonce_base w + k)) = prefix"
proof -
  let ?want = "(64 - cl_nonce_bits opts) div 8"
  have p: "length prefix = 2 * ?want" "sx_xnonce1 sctx1 = hex_bytes ?want prefix"
    using assms(5) by (auto simp: stratum_parse_nonce_prefix_def Let_def split: if_splits)
  obtain x where x: "length x = ?want" "prefix = bin2hex x" using lower_hex_bytes [OF assms(2) p(1)] by blast
  then have x1: "sx_xnonce1 sctx2 = x" using p(2) assms(6) by simp
  have "w_nonce_base w = nonce_base_of x"
    using assms(1,7) x1 by (auto simp: stratum_gen_work_def progpow_gen_work_def nonce_base_of_def Let_def)
  moreover have "64 - 8 * length x = cl_nonce_bits opts" using x(1) assms(3,4) by (auto elim!: dvdE)
  moreover have "length x \<le> 8" using x(1) by simp
  ultimately have "take (length x) (be64_of (w_nonce_base w + k)) = x" using nonce_bytes [of x k] assms(8) by simp
  then show ?thesis using p(1) x take_bin2hex [of "length x" "be64_of (w_nonce_base w + k)"] by (simp add: hex64_bytes)
qed

section \<open>The session a share belongs to\<close>

definition request_text :: "client_options \<Rightarrow> string \<Rightarrow> submission \<Rightarrow> string" where
  "request_text opts user sb =
     (if so_dialect (cl_work opts) = STRATUM_PROGPOW then progpow_build_stratum_request user sb else std_le_build_stratum_request opts user sb)"

lemma submit_upstream_line:
  "so_have_stratum (cl_work opts) \<Longrightarrow> submit_upstream_work opts user sb cn = stratum_send_line (request_text opts user sb) cn"
  by (simp add: submit_upstream_work_def request_text_def)

lemma counted_stale_differs: "sr\<lparr>sr_stale := sr_stale sr + 1\<rparr> \<noteq> sr"
proof
  assume "sr\<lparr>sr_stale := sr_stale sr + 1\<rparr> = sr"
  from arg_cong [where f = sr_stale, OF this] show False by simp
qed

text \<open>
  Claim C18. A share leaves on the session its job came on or not at all. What goes out is one piece of the
  request for each try, and no more tries than found that session up before the first that found another;
  one that finds another sends nothing and counts the share stale; and a share the sender is done with
  and has not counted went out whole, last.
\<close>

theorem share_stays_on_session:
  assumes "so_have_stratum (cl_work opts)"
    and "workio_submit_work opts user retries sessions failures sb sr cn = Some (goes_on, sr', cn')"
  shows "(\<exists>tries. length tries \<le> length (takeWhile (\<lambda>s. s = w_session (sb_work sb)) sessions) \<and>
      cn_wire cn' = cn_wire cn @ concat tries \<and>
      (\<forall>t \<in> set tries. \<exists>k. t = take k (request_text opts user sb @ [newline])) \<and>
      (goes_on \<and> sr' = sr \<longrightarrow> tries \<noteq> [] \<and> last tries = request_text opts user sb @ [newline])) \<and>
    (hd sessions \<noteq> w_session (sb_work sb) \<longrightarrow> goes_on \<and> cn' = cn \<and> sr' = sr\<lparr>sr_stale := sr_stale sr + 1\<rparr>)"
proof -
  let ?line = "request_text opts user sb @ [newline]"
  let ?of = "\<lambda>sessions cn tries. length tries \<le> length (takeWhile (\<lambda>s. s = w_session (sb_work sb)) sessions) \<and>
      cn_wire cn' = cn_wire cn @ concat tries \<and> (\<forall>t \<in> set tries. \<exists>k. t = take k ?line) \<and>
      (goes_on \<and> sr' = sr \<longrightarrow> tries \<noteq> [] \<and> last tries = ?line)"
  note up = submit_upstream_line [OF assms(1)]
  have "\<exists>tries. ?of sessions cn tries" using assms(2)
  proof (induction sessions arbitrary: failures cn)
    case (Cons s ss)
    show ?case
    proof (cases "w_session (sb_work sb) = s")
      case True
      then obtain ok c where c: "stratum_send_line (request_text opts user sb) cn = Some (ok, c)"
        using Cons.prems up by (auto split: option.splits)
      obtain piece where t: "\<exists>k. piece = take k ?line" "cn_wire c = cn_wire cn @ piece" "ok \<longrightarrow> piece = ?line"
        using send_line_wire(1) [OF c] by (metis append_same_eq same_append_eq)
      show ?thesis
      proof (cases "ok \<or> \<not> goes_on \<and> cn' = c")
        case True
        have "cn' = c" "ok \<or> \<not> goes_on" using True Cons.prems \<open>w_session (sb_work sb) = s\<close> c up by auto
        then have "?of (s # ss) cn [piece]"
          using t \<open>w_session (sb_work sb) = s\<close> by (simp only: takeWhile.simps) auto
        then show ?thesis by blast
      next
        case False
        then have "workio_submit_work opts user retries ss (failures + 1) sb sr c = Some (goes_on, sr', cn')"
          using Cons.prems True c up by (auto split: if_splits)
        from Cons.IH [OF this] obtain tries where "?of ss c tries" by blast
        then have "?of (s # ss) cn (piece # tries)"
          using t(1,2) True by (simp only: takeWhile.simps list.set ball_simps) auto
        then show ?thesis by blast
      qed
    qed (use Cons.prems assms(1) counted_stale_differs in \<open>auto intro: exI [of _ "[]"]\<close>)
  qed simp
  moreover obtain s ss where "sessions = s # ss" using assms(2) by (cases sessions) simp_all
  ultimately show ?thesis using assms by auto
qed

text \<open>
  Claim C21. A share half sent is sent again behind its half. Where the socket takes some of a request and
  then no more for a moment, the sender counts a failure and, on the same connection, sends the whole
  request after the part: what the pool reads is one line with both in it.
\<close>

theorem half_sent_share_glued:
  assumes "so_have_stratum (cl_work opts)" "retries < 0" "cn_writes cn = [Took k, Unwritable, Took m]"
    and "line = request_text opts user sb"
    and "0 < k" "k \<le> length line" "length line < m"
  shows "\<exists>cn'. workio_submit_work opts user retries [w_session (sb_work sb), w_session (sb_work sb)] 0 sb sr cn = Some (True, sr, cn') \<and>
    cn_wire cn' = cn_wire cn @ take k line @ line @ [newline]"
proof -
  have up: "submit_upstream_work opts user sb c = stratum_send_line line c" for c
    using submit_upstream_line [OF assms(1)] assms(4) by simp
  have "send_rest [Took k, Unwritable, Took m] (line @ [newline]) (cn_wire cn) = Some (False, cn_wire cn @ take k line, [Took m])"
    using send_rest_part [of k "line @ [newline]"] assms(6) by simp
  then have one: "stratum_send_line line cn = Some (False, cn\<lparr>cn_writes := [Took m], cn_wire := cn_wire cn @ take k line\<rparr>)"
    using assms(3) by (simp add: stratum_send_line_def)
  let ?c = "cn\<lparr>cn_writes := [Took m], cn_wire := cn_wire cn @ take k line\<rparr>"
  have "send_rest [Took m] (line @ [newline]) w = Some (True, w @ line @ [newline], [])" for w
    using send_rest_all [of "line @ [newline]" m] assms(7) by simp
  then have "stratum_send_line line ?c = Some (True, ?c\<lparr>cn_writes := [], cn_wire := cn_wire ?c @ line @ [newline]\<rparr>)"
    by (simp add: stratum_send_line_def)
  then show ?thesis using one assms(1,2) by (simp add: up)
qed

section \<open>Examples\<close>

definition example_progpow :: client_options where
  "example_progpow = (example_share_options)\<lparr>cl_work := \<lparr>so_dialect = STRATUM_PROGPOW, so_coinbase_sha256 = False, so_have_stratum = True\<rparr>,
     cl_nonce_bits := 48\<rparr>"

definition example_progpow_params :: json where
  "example_progpow_params = progpow_params ''e3'' (replicate 32 0x5A) (replicate 32 0)
     [hex_json (replicate 32 0xFF), JTrue, JInteger 1000, JString ''1b00ffff'']"

definition example_progpow_notified :: stratum_ctx where
  "example_progpow_notified = snd (stratum_notify example_progpow example_share_library (Some example_progpow_params) example_sctx)"

definition example_progpow_work :: "bool \<times> stratum_ctx \<times> work" where
  "example_progpow_work = stratum_gen_work (cl_work example_progpow) [] 1 example_progpow_notified zero_work"

definition example_progpow_share :: submission where
  "example_progpow_share = \<lparr>sb_work = (snd (snd example_progpow_work))\<lparr>w_nonce := 7, w_mixhash := replicate 32 0x11\<rparr>, sb_id = 9,
     sb_diff = 1, sb_target_diff = 1\<rparr>"

lemma share_echoes_job_witness:
  "progpow_build_stratum_request ''me'' example_progpow_share = take 511 (json_submit_req
    [''me'', ''e3'', ''0x'' @ hex64 7, ''0x'' @ bin2hex (replicate 32 0x5A), ''0x'' @ bin2hex (replicate 32 0x11)] 9)"
proof -
  have n: "parse_uint_field (Some (JInteger 1000)) \<noteq> None" by (simp add: parse_uint_field_def)
  have t: "parse_target_hex (Some (bin2hex (replicate 32 0xFF))) \<noteq> None"
    by (simp add: parse_target_hex_def hex2bin_bin2hex)
  have "fst (stratum_notify example_progpow example_share_library (Some example_progpow_params) example_sctx)"
    using n t by (auto simp: stratum_notify_def example_progpow_def stratum_progpow_notify_def example_progpow_params_def
      progpow_params_def hex_json_def Let_def numeral_eq_Suc split: option.splits)
  then have "stratum_notify example_progpow example_share_library (Some example_progpow_params) example_sctx = (True, example_progpow_notified)"
    by (simp add: example_progpow_notified_def prod_eq_iff)
  moreover have "stratum_gen_work (cl_work example_progpow) [] 1 example_progpow_notified zero_work =
      (fst example_progpow_work, fst (snd example_progpow_work), snd (snd example_progpow_work))"
    by (simp add: example_progpow_work_def)
  moreover have "sb_work example_progpow_share = (snd (snd example_progpow_work))\<lparr>w_nonce := 7, w_mixhash := replicate 32 0x11\<rparr>"
    "sb_id example_progpow_share = 9" "so_dialect (cl_work example_progpow) = STRATUM_PROGPOW" "length (replicate 32 0x5A :: u8 list) = 32"
    by (simp_all add: example_progpow_share_def example_progpow_def)
  ultimately show ?thesis using share_echoes_job unfolding example_progpow_params_def by metis
qed

lemma nonce_keeps_prefix_witness:
  "take (length ''c0de'') (hex64 (w_nonce_base (snd (snd (stratum_gen_work (cl_work example_progpow) [] 1
     (snd (stratum_parse_nonce_prefix example_progpow (Some (JArray ([JNull] @ JString ''c0de'' # []))) (length [JNull]) example_sctx))
     zero_work))) + 5)) = ''c0de''"
proof -
  let ?p = "stratum_parse_nonce_prefix example_progpow (Some (JArray ([JNull] @ JString ''c0de'' # []))) (length [JNull]) example_sctx"
  let ?w = "stratum_gen_work (cl_work example_progpow) [] 1 (snd ?p) zero_work"
  have p: "?p = (True, snd ?p)" by (simp add: stratum_parse_nonce_prefix_def example_progpow_def prod_eq_iff)
  have "lower_hex ''c0de''" by code_simp
  moreover have "so_dialect (cl_work example_progpow) = STRATUM_PROGPOW" "cl_nonce_bits example_progpow = 48"
    by (simp_all add: example_progpow_def)
  moreover have "?w = (fst ?w, fst (snd ?w), snd (snd ?w))" by simp
  moreover have "unat (5 :: u64) < 2 ^ 48" "(8 :: nat) dvd 48" "(48 :: nat) \<le> 64" by simp_all
  ultimately show ?thesis using p by (intro nonce_keeps_prefix [where opts = example_progpow]) (simp_all only:)
qed

lemma share_stays_on_session_witness:
  "\<exists>goes_on sr cn. workio_submit_work example_share_options ''me'' (-1) [3] 0 example_submission (share_stats_init 1) example_wire =
     Some (goes_on, sr, cn) \<and> goes_on \<and> cn = example_wire \<and>
     sr = (share_stats_init 1)\<lparr>sr_stale := sr_stale (share_stats_init 1) + 1\<rparr>"
proof -
  have st: "so_have_stratum (cl_work example_share_options)" "hd [3] \<noteq> w_session (sb_work example_submission)"
    by (simp_all add: example_share_options_def example_submission_def zero_work_def)
  then obtain goes_on sr cn where w: "workio_submit_work example_share_options ''me'' (-1) [3] 0 example_submission (share_stats_init 1)
      example_wire = Some (goes_on, sr, cn)" by simp
  from share_stays_on_session [OF st(1) w] st(2) w show ?thesis by blast
qed

lemma half_sent_share_glued_witness:
  "\<exists>cn'. workio_submit_work example_share_options ''me'' (-1) [0, 0] 0 example_submission (share_stats_init 1)
      (example_wire\<lparr>cn_writes := [Took 1, Unwritable, Took 1000]\<rparr>) = Some (True, share_stats_init 1, cn') \<and>
    cn_wire cn' = ''{'' @ std_le_build_stratum_request example_share_options ''me'' example_submission @ [newline]"
proof -
  let ?line = "std_le_build_stratum_request example_share_options ''me'' example_submission"
  have l: "length ?line < 1000" by (simp add: std_le_build_stratum_request_def JSON_BUF_LEN_def Let_def)
  have t: "take 1 ?line = ''{''" by (simp add: std_le_build_stratum_request_def JSON_BUF_LEN_def json_submit_req_def Let_def)
  then have n: "1 \<le> length ?line" by (cases ?line) auto
  have op: "so_have_stratum (cl_work example_share_options)" "so_dialect (cl_work example_share_options) \<noteq> STRATUM_PROGPOW"
    by (simp_all add: example_share_options_def)
  have s: "w_session (sb_work example_submission) = 0" "cn_wire example_wire = []"
    by (simp_all add: example_submission_def zero_work_def example_wire_def)
  show ?thesis
    using half_sent_share_glued [of example_share_options "-1" "example_wire\<lparr>cn_writes := [Took 1, Unwritable, Took 1000]\<rparr>" 1 1000
        ?line "''me''" example_submission "share_stats_init 1"] l n t op s
    by (simp add: request_text_def del: workio_submit_work.simps One_nat_def)
qed

end
