(* ===== verification/Spec2Isabelle.thy ===== *)
theory Spec2Isabelle
  imports Prelude Interfaces Progpow_Params Progpow_Program Progpow_Hash Ethash Sha3 Progpow_Dag
    Backend Progpow Shared_State Progpow_Table Kernel_Fit Command_Ring
    Vulkan_Kernel Kernel_Steps Kernel_Queue
    Sha256 Sha256d Sha256d_Kernel Stratum_Work Candidate_Log Worker Worker_Books Worker_Nonces Worker_Shares
    Registry Miner Miner_Shares Miner_Properties Control Control_Steps Control_Properties
    Encodings Json Stratum_Line Stratum_Client Stratum_Jobs Shares Share_Books Stratum_Session Pool_Properties
begin

text \<open>
  \<^bold>\<open>vkminer\<close>, a Vulkan miner: a Stratum thread publishes work, a scheduler gives every device a worker
  thread, the worker builds a kernel of the algorithm's, dispatches batches of nonces to it, reads
  candidates back, hashes each again on the host and submits the shares, which another thread sends to
  the pool. A control API pauses, stops and re-targets the running miner. Two algorithms are modelled to the last bit of their shaders'
  output, SHA-256d and the dataset of ProgPoW; between the Stratum thread's headers and the shares
  submitted every layer is modelled, and \<open>Miner_Properties\<close> speaks of all of them together; between the
  pool's messages and its answers the client is modelled, and \<open>Pool_Properties\<close> speaks of both ends of it.

  \<^bold>\<open>The theories.\<close>
  \<^item> \<open>Prelude\<close>: word types, the shape of the source's counted loops, results with an early return,
    lemma collections, the byte encodings of \<^verbatim>\<open>src/core/miner.h\<close>. \<open>Interfaces\<close>: the two locales
    that more than one component provides.
  \<^item> ProgPoW, \<^verbatim>\<open>algorithms/progpow\<close>, function by function: \<open>Progpow_Params\<close>, \<open>Progpow_Program\<close>,
    \<open>Progpow_Hash\<close>, \<open>Progpow_Dag\<close> (over \<open>Ethash\<close>, what it calls of \<^verbatim>\<open>third_party/ethash\<close>), \<open>Progpow\<close>,
    the algorithm object: methods that change it take it and return it (record \<open>progpow\<close>; \<open>dag_cache\<close>
    is the process-wide cache), and \<open>pp_step\<close> is the relation of all of them. \<open>Sha3\<close> and
    \<open>Progpow_Table\<close>: the setup shader \<^verbatim>\<open>dag.comp\<close> and its permutation, with the pairs of words it is
    compiled with and with the 64-bit lanes of other shaders (record \<open>lane_type\<close>), and the table they fill.
  \<^item> \<open>Backend\<close>: the records of \<^verbatim>\<open>backends/backend.h\<close> and \<^verbatim>\<open>algorithms/algorithm.h\<close>, the defaults of
    \<^verbatim>\<open>algorithm.cpp\<close>, the share comparison of \<^verbatim>\<open>src/core/util.c\<close>.
  \<^item> The Vulkan backend, \<^verbatim>\<open>backends/vulkan\<close>: \<open>Shared_State\<close> (\<^verbatim>\<open>shared_state.cpp\<close>: how a device's table
    is cut, uploaded or generated, and when it counts as ready), \<open>Kernel_Fit\<close> (the shape of a kernel
    and the scan of a module for a constant), \<open>Command_Ring\<close> (\<^verbatim>\<open>command_ring.cpp\<close>: the fences),
    \<open>Vulkan_Kernel\<close> (every method of \<^verbatim>\<open>class VulkanKernel\<close>; the commands of a dispatch are a list and
    a small machine, \<open>kernel_gpu\<close>, executes them), \<open>Kernel_Steps\<close> (the methods in any order) and
    \<open>Kernel_Queue\<close> (what a client may rely on).
  \<^item> SHA-256d: \<open>Sha256\<close> (\<^verbatim>\<open>src/core/sha256.c\<close>, whole), \<open>Sha256d\<close> (\<^verbatim>\<open>algorithms/sha256d\<close>, host and
    shader, and the candidate buffer), \<open>Sha256d_Kernel\<close> (a dispatch of it).
  \<^item> \<open>Stratum_Work\<close>: merkle root, headers and extranonce2 of \<^verbatim>\<open>stratum_thread.c\<close>.
  \<^item> \<open>Worker\<close>: \<^verbatim>\<open>miner_thread\<close> of \<^verbatim>\<open>scheduler/worker.cpp\<close>, every branch, as a function of what it
    finds around it (\<open>outside\<close>: the work published, the flags, the answers of algorithm and kernel,
    one entry per turn) that logs what it does (\<open>event\<close>); \<open>worker_run\<close> is the thread over any number
    of turns. \<open>Worker_Books\<close>, \<open>Worker_Nonces\<close>, \<open>Worker_Shares\<close>: what its logs have in common.
    \<open>Candidate_Log\<close>: the record it captures.
  \<^item> \<open>Registry\<close> (\<^verbatim>\<open>algorithms/registry.cpp\<close>), \<open>Miner\<close> and \<open>Miner_Shares\<close>: the worker with SHA-256d found
    by its name and run by the Vulkan kernel; \<open>Miner_Properties\<close>: the claims on it.
  \<^item> \<open>Control\<close>: \<^verbatim>\<open>src/api/api_control.cpp\<close> and the switch hook of \<^verbatim>\<open>main.cpp\<close>. One operation per
    stretch under \<^verbatim>\<open>g_lock\<close>; \<open>Control_Steps\<close> interleaves them as \<open>control_step\<close>, with workers that
    come in and leave, clients that wait, and the Stratum thread between taking a change and its
    outcome; \<open>Control_Properties\<close>: the claims.
  \<^item> The pool's side, \<^verbatim>\<open>src/stratum/stratum.c\<close> and \<^verbatim>\<open>src/core/work.c\<close>: \<open>Stratum_Line\<close> (the socket, whose
    answers are lists, and the buffer that cuts its text into lines), \<open>Stratum_Client\<close> (every message a
    pool may send, as a function of the session and the connection, over the values of \<open>Json\<close> and the hex
    of \<open>Encodings\<close>), \<open>Stratum_Session\<close> (connect, subscribe, authorize), \<open>Stratum_Jobs\<close> (what the
    messages make of the job), \<open>Shares\<close> (ids, the ring of pending shares, requests, the sender's
    retries, the answers), \<open>Share_Books\<close> (workers, sender and reader interleaved as \<open>share_step\<close>) and
    \<open>Pool_Properties\<close>.

  \<^bold>\<open>Interfaces.\<close> \<open>keyed_cache\<close>, a cache of one value and its key, provided by the light cache;
  \<open>byte_source\<close>, a producer of the bytes a key names, provided by the host's dataset and the device's;
  \<open>table_provider\<close>, what the backend relies on of an algorithm's table, provided by ProgPoW;
  \<open>dispatch_queue\<close>, a bounded queue of dispatches, provided by the Vulkan kernel; \<open>hashing\<close> and the
  kernel contracts of \<open>Worker_Shares\<close>, what a worker relies on of both, provided by SHA-256d on the
  Vulkan kernel in \<open>Miner_Shares\<close>. Every one is interpreted on the model of the code.

  \<^bold>\<open>What the lemmas show.\<close> Of ProgPoW: programs stay inside the mix, hashes are total and depend on
  nothing they should not, the sizes of every declared epoch are exact in their types, whatever
  happened before the object hashes over the epoch it is on, a table reported ready holds the
  dataset the host's hash reads, and it is reported ready where nothing is refused. Of the backend: plans
  and shapes respect the device, scratchpads suffice where a hash is one invocation and not where it is
  more, a command buffer is not reused under the device, and a kernel is a queue whose results are those of the
  program prepared. Of SHA-256d: the shader computes the reference hash, and a dispatch reports
  exactly the nonces that meet the target. Of the worker: its books balance, a nonce is not tried
  twice under one extranonce2 counter, up to fifteen workers do not meet, of every batch the device hands
  back the shares are submitted, 32 of them where there are more, and a stop is obeyed.
  Of the control: workers are in while something is changed behind them, a miner that reads paused
  is, changes land or are undone, and the one way the barrier is left too early. Of the pool's side:
  lines, of a peer that sends no empty one, and jobs are taken as they were sent, a share carries what its job brought and leaves on the
  session it belongs to, an answer is booked on the share it is about; and where the client fails: an
  empty line, a request sent in part, an extranonce widened between jobs, a subscription refused.

  \<^bold>\<open>Machine integers, bounds and fuel.\<close> Fixed-width integers are words and wrap; C's \<open>int\<close> in
  ethash is \<open>int\<close>, and \<open>epoch_sizes_exact\<close> shows no value leaves 31 bits for the declared
  epochs. Sizes counted below \<open>2 ^ 64\<close> in the backend are \<open>nat\<close>. Nothing uses fuel: loops that
  are not structurally bounded are \<open>function\<close>s with a termination proof, or
  \<open>partial_function (option)\<close> with a lemma that they return; a thread's endless loop is a function of
  the list of its turns. Doubles (the seconds a slice took) are rationals: rounding is not modelled,
  only the comparisons and clamps around it. Claims on the control count its steps, and hold for the
  first \<open>2 ^ 64\<close> of them, when the generation counter would return to a value in use; the one on the
  answers holds until the 32-bit ids come round. Difficulties, doubles in the code, are rationals too. A
  call that waits for the socket has no value while the list of the socket's answers is used up.

  \<^bold>\<open>What is not under src/, as arguments:\<close> the Vulkan driver (allocation, copies, dispatches, fences,
  fresh memory's contents), the compiled shader modules, the clock, curl and the socket, the JSON
  parser and printer, the difficulty of a target (a floating-point division).

  \<^bold>\<open>Not modelled.\<close> Log lines everywhere. The loop of the Stratum thread and its reconnections, JSON-RPC over
  HTTP, the report lines of \<^verbatim>\<open>work.c\<close>, the HTTP API's routes and server, the option parser, tuning, self-test and replay: they move text and measurements into and out
  of what is modelled. The other algorithms: they hang on the same two interfaces. The CPU and null
  backends, the tests, the vendored libraries.
\<close>

end
